(* ===== verification/Prelude.thy ===== *)
theory Prelude
  imports Main "HOL-Library.Word"
begin

section \<open>Prelude: shared types, collections and lemmas\<close>

text \<open>
  Shared vocabulary of the development. Unsigned machine integers of the source are words of
  their width, a C++ exception is a value of \<open>exn\<close>, and an operation that may throw returns
  \<open>exn + 'a\<close>: \<open>Inl\<close> for the exception, \<open>Inr\<close> for the result. The three
  \<open>named_theorems\<close> collections are filled by the component theories: \<open>stl_simps\<close> with
  the lookup laws of the container model, \<open>delta_simps\<close> with the laws of the delta sets and
  \<open>err_simps\<close> with the laws of the error type.
\<close>

named_theorems stl_simps
named_theorems delta_simps
named_theorems err_simps

subsection \<open>Machine integers\<close>

type_synonym uint8 = "8 word"
type_synonym uint16 = "16 word"
type_synonym uint32 = "32 word"
type_synonym uint64 = "64 word"
type_synonym size_t = "64 word"

type_synonym Amount = uint64
type_synonym MosaicId = uint64
type_synonym Height = uint64
type_synonym BlockDuration = uint64
type_synonym Hash256 = "256 word"
type_synonym Address = "192 word"

subsection \<open>Exceptions\<close>

datatype exn = Invalid_Argument | Runtime_Error | Out_Of_Range

definition rbind :: "exn + 'a \<Rightarrow> ('a \<Rightarrow> exn + 'b) \<Rightarrow> exn + 'b" where
  "rbind m f = (case m of Inl e \<Rightarrow> Inl e | Inr x \<Rightarrow> f x)"

lemma rbind_simps [simp, err_simps]:
  "rbind (Inl e) f = Inl e"
  "rbind (Inr x) f = f x"
  by (simp_all add: rbind_def)

lemma rbind_Inr_iff [err_simps]: "rbind m f = Inr y \<longleftrightarrow> (\<exists>x. m = Inr x \<and> f x = Inr y)"
  by (cases m) auto

lemma rbind_assoc: "rbind (rbind m f) g = rbind m (\<lambda>x. rbind (f x) g)"
  by (cases m) auto

text \<open>A loop over a list whose body may throw: it stops at the first exception.\<close>

fun rfold :: "('a \<Rightarrow> 's \<Rightarrow> exn + 's) \<Rightarrow> 'a list \<Rightarrow> 's \<Rightarrow> exn + 's" where
  "rfold f [] s = Inr s"
| "rfold f (x # xs) s = rbind (f x s) (rfold f xs)"

lemma rfold_append: "rfold f (xs @ ys) s = rbind (rfold f xs s) (rfold f ys)"
proof (induction xs arbitrary: s)
  case (Cons x xs)
  then show ?case by (cases "f x s") auto
qed simp

text \<open>The loop rule: an invariant kept by every successful iteration that never throws.\<close>

lemma rfold_total:
  assumes "P [] s"
    and "\<And>x done s. P done s \<Longrightarrow> x \<in> set xs \<Longrightarrow> \<exists>s'. f x s = Inr s' \<and> P (done @ [x]) s'"
  shows "\<exists>s'. rfold f xs s = Inr s' \<and> P xs s'"
proof -
  have "\<exists>s'. rfold f ys s = Inr s' \<and> P (done @ ys) s'"
    if "P done s" "set ys \<subseteq> set xs" for ys "done" s
    using that
  proof (induction ys arbitrary: "done" s)
    case Nil
    then show ?case by simp
  next
    case (Cons y ys)
    then obtain s' where "f y s = Inr s'" "P (done @ [y]) s'"
      using assms(2) [of "done" s y] by auto
    with Cons.IH [of "done @ [y]" s'] Cons.prems(2) show ?case by simp
  qed
  from this [of "[]" s xs] assms(1) show ?thesis by simp
qed

subsection \<open>Words\<close>

lemma word_add_no_wrap:
  fixes a b :: "'a::len word"
  assumes "unat a + unat b < 2 ^ LENGTH('a)"
  shows "unat (a + b) = unat a + unat b"
  using assms unat_add_lem [of a b] by simp

lemma word_sub_no_wrap:
  fixes a b :: "'a::len word"
  assumes "b \<le> a"
  shows "unat (a - b) = unat a - unat b"
  using assms by (simp add: unat_sub)

lemma unat_of_nat_small: "n < 2 ^ LENGTH('a) \<Longrightarrow> unat (of_nat n :: 'a::len word) = n"
  by (simp add: unat_of_nat take_bit_nat_eq_self)

lemma word_add_sub_cancel [simp]: "(a::'a::len word) + b - b = a"
  by simp

subsection \<open>Lists and maps\<close>

lemma map_of_filter_neq [stl_simps]:
  "map_of (filter (\<lambda>p. fst p \<noteq> k) xs) = (map_of xs)(k := None)"
  by (induction xs) (auto simp: fun_eq_iff)

lemma length_filter_neq_distinct:
  "distinct (map fst xs) \<Longrightarrow>
     length (filter (\<lambda>p. fst p \<noteq> k) xs) = length xs - (if k \<in> fst ` set xs then 1 else 0)"
proof (induction xs)
  case (Cons x xs)
  then show ?case
    by (cases "fst x = k"; cases xs) (auto simp: filter_id_conv image_iff)
qed simp

lemma card_dom_map_of:
  "distinct (map fst xs) \<Longrightarrow> card (dom (map_of xs)) = length xs"
  by (simp add: dom_map_of_conv_image_fst) (metis distinct_card length_map set_map)

subsection \<open>Byte layouts\<close>

text \<open>An integer in memory, little endian, and the bytes of an array, most significant first.\<close>

definition bytes_le :: "nat \<Rightarrow> 'a::len word \<Rightarrow> uint8 list" where
  "bytes_le n w = map (\<lambda>i. ucast (drop_bit (8 * i) w)) [0..<n]"

definition array_bytes :: "nat \<Rightarrow> 'a::len word \<Rightarrow> uint8 list" where
  "array_bytes n w = rev (bytes_le n w)"

lemma length_bytes_le [simp]: "length (bytes_le n w) = n"
  by (simp add: bytes_le_def)

lemma length_array_bytes [simp]: "length (array_bytes n w) = n"
  by (simp add: array_bytes_def)

lemma bytes_le_inj:
  fixes v w :: "'a::len word"
  assumes "bytes_le n v = bytes_le n w" "LENGTH('a) \<le> 8 * n"
  shows "v = w"
proof (rule bit_word_eqI)
  fix k
  assume "k < LENGTH('a)"
  then have k: "k div 8 < n" using assms(2) by linarith
  then have "(ucast (drop_bit (8 * (k div 8)) v) :: uint8) = ucast (drop_bit (8 * (k div 8)) w)"
    using arg_cong [OF assms(1), of "\<lambda>bs. bs ! (k div 8)"] by (simp add: bytes_le_def)
  from arg_cong [OF this, of "\<lambda>b. bit b (k mod 8)"] show "bit v k = bit w k"
    by (simp add: bit_ucast_iff bit_drop_bit_eq)
qed

lemma array_bytes_inj:
  fixes v w :: "'a::len word"
  shows "array_bytes n v = array_bytes n w \<Longrightarrow> LENGTH('a) \<le> 8 * n \<Longrightarrow> v = w"
  using bytes_le_inj by (auto simp: array_bytes_def)

end
