(* ===== verification/StlMap.thy ===== *)
theory StlMap
  imports Prelude
begin

section \<open>The standard containers\<close>

text \<open>
  The containers of the C++ standard library that the sources keep their data in:
  \<open>std::map\<close>, \<open>std::set\<close>, \<open>std::unordered_map\<close> and \<open>std::unordered_set\<close>. A container
  is an association list from keys to stored elements in iteration order, with strictly
  increasing keys. For the ordered containers this is the order the standard prescribes; for
  the unordered ones, whose iteration order is unspecified, it is one of the allowed orders,
  and the theorems about them are stated on lookups, which do not depend on it. Sets are maps
  whose element is its own key (\<open>SetKeyTraits\<close>), maps carry the mapped value
  (\<open>MapKeyTraits\<close>).
\<close>

type_synonym ('k, 'v) smap = "('k \<times> 'v) list"

definition smap_empty :: "('k, 'v) smap" where
  "smap_empty = []"

definition smap_find :: "('k, 'v) smap \<Rightarrow> 'k \<Rightarrow> 'v option" where
  "smap_find m k = map_of m k"

definition smap_contains :: "('k, 'v) smap \<Rightarrow> 'k \<Rightarrow> bool" where
  "smap_contains m k \<longleftrightarrow> smap_find m k \<noteq> None"

text \<open>\<open>m[k] = v\<close>: overwrites the element of an existing key.\<close>

fun smap_put :: "'k::linorder \<Rightarrow> 'v \<Rightarrow> ('k, 'v) smap \<Rightarrow> ('k, 'v) smap" where
  "smap_put k v [] = [(k, v)]"
| "smap_put k v ((k', v') # m) =
     (if k < k' then (k, v) # (k', v') # m
      else if k = k' then (k, v) # m
      else (k', v') # smap_put k v m)"

text \<open>\<open>insert\<close> and \<open>emplace\<close>: do nothing when the key is present.\<close>

definition smap_insert :: "'k::linorder \<Rightarrow> 'v \<Rightarrow> ('k, 'v) smap \<Rightarrow> ('k, 'v) smap" where
  "smap_insert k v m = (if smap_contains m k then m else smap_put k v m)"

definition smap_erase :: "'k \<Rightarrow> ('k, 'v) smap \<Rightarrow> ('k, 'v) smap" where
  "smap_erase k m = filter (\<lambda>p. fst p \<noteq> k) m"

definition smap_size :: "('k, 'v) smap \<Rightarrow> nat" where
  "smap_size m = length m"

text \<open>\<open>insert(first, last)\<close>: inserts a range.\<close>

definition smap_insert_range :: "('k::linorder \<times> 'v) list \<Rightarrow> ('k, 'v) smap \<Rightarrow> ('k, 'v) smap" where
  "smap_insert_range kvs m = fold (\<lambda>(k, v). smap_insert k v) kvs m"

text \<open>\<open>erase(begin, lower_bound(k))\<close>: erases every key smaller than \<open>k\<close>.\<close>

definition smap_erase_below :: "'k::linorder \<Rightarrow> ('k, 'v) smap \<Rightarrow> ('k, 'v) smap" where
  "smap_erase_below k m = dropWhile (\<lambda>p. fst p < k) m"

text \<open>The representation invariant: strictly increasing keys.\<close>

definition smap_inv :: "('k::linorder, 'v) smap \<Rightarrow> bool" where
  "smap_inv m \<longleftrightarrow> sorted_wrt (<) (map fst m)"

subsection \<open>Lookup laws\<close>

lemma smap_find_empty [simp, stl_simps]: "smap_find smap_empty = Map.empty"
  by (simp add: smap_find_def smap_empty_def fun_eq_iff)

lemma smap_find_Nil [simp, stl_simps]: "smap_find [] = Map.empty"
  by (simp add: smap_find_def fun_eq_iff)

lemma smap_find_put [simp, stl_simps]: "smap_find (smap_put k v m) = (smap_find m)(k \<mapsto> v)"
  by (induction k v m rule: smap_put.induct) (auto simp: smap_find_def fun_eq_iff)

lemma smap_find_erase [simp, stl_simps]: "smap_find (smap_erase k m) = (smap_find m)(k := None)"
  by (simp add: smap_find_def smap_erase_def fun_eq_iff map_of_filter_neq)

lemma smap_find_insert [simp, stl_simps]:
  "smap_find (smap_insert k v m) = (smap_find m)(k \<mapsto> (case smap_find m k of None \<Rightarrow> v | Some v' \<Rightarrow> v'))"
  by (auto simp: smap_insert_def smap_contains_def fun_eq_iff)

lemma smap_contains_dom [stl_simps]: "smap_contains m k \<longleftrightarrow> k \<in> dom (smap_find m)"
  by (auto simp: smap_contains_def)

subsection \<open>The invariant\<close>

lemma smap_inv_empty [simp, intro]: "smap_inv smap_empty"
  by (simp add: smap_inv_def smap_empty_def)

lemma smap_inv_Nil [simp, intro]: "smap_inv []"
  by (simp add: smap_inv_def)

lemma fst_set_smap_put: "fst ` set (smap_put k v m) = insert k (fst ` set m)"
  by (induction k v m rule: smap_put.induct) auto

lemma smap_inv_put [simp, intro]: "smap_inv m \<Longrightarrow> smap_inv (smap_put k v m)"
proof (induction k v m rule: smap_put.induct)
  case (2 k v k' v' m)
  then show ?case
    by (auto simp: smap_inv_def fst_set_smap_put simp flip: set_map)
       (use fst_set_smap_put [of k v m] in force)
qed (simp add: smap_inv_def)

lemma smap_inv_erase [simp, intro]: "smap_inv m \<Longrightarrow> smap_inv (smap_erase k m)"
  unfolding smap_inv_def smap_erase_def
  by (simp add: sorted_wrt_map sorted_wrt_filter)

lemma smap_inv_insert [simp, intro]: "smap_inv m \<Longrightarrow> smap_inv (smap_insert k v m)"
  by (simp add: smap_insert_def)

lemma smap_inv_insert_range [simp, intro]: "smap_inv m \<Longrightarrow> smap_inv (smap_insert_range kvs m)"
  unfolding smap_insert_range_def
  by (induction kvs arbitrary: m) auto

lemma smap_inv_distinct: "smap_inv m \<Longrightarrow> distinct (map fst m)"
  unfolding smap_inv_def using strict_sorted_iff by blast

lemma smap_inv_Cons [simp]:
  "smap_inv ((k, v) # m) \<longleftrightarrow> (\<forall>k' \<in> fst ` set m. k < k') \<and> smap_inv m"
  by (auto simp: smap_inv_def)

subsection \<open>Size, ranges and iteration\<close>

lemma smap_size_card: "smap_inv m \<Longrightarrow> smap_size m = card (dom (smap_find m))"
  unfolding smap_size_def smap_find_def
  using card_dom_map_of [OF smap_inv_distinct] by metis

lemma finite_dom_smap_find [simp, intro]: "finite (dom (smap_find m))"
  unfolding smap_find_def using finite_dom_map_of by auto

lemma smap_find_in_set: "smap_inv m \<Longrightarrow> smap_find m k = Some v \<longleftrightarrow> (k, v) \<in> set m"
  unfolding smap_find_def using map_of_eq_Some_iff [OF smap_inv_distinct] by metis

lemma smap_find_insert_range:
  "smap_find (smap_insert_range kvs m) = map_of kvs ++ smap_find m"
  unfolding smap_insert_range_def
proof (induction kvs arbitrary: m)
  case (Cons kv kvs)
  then show ?case
    by (cases kv) (auto simp: fun_eq_iff map_add_def split: option.splits)
qed simp

text \<open>A container is determined by its lookups.\<close>

lemma smap_eqI:
  assumes "smap_inv m" "smap_inv n" "smap_find m = smap_find n"
  shows "m = n"
proof -
  have keys: "map fst m = map fst n"
  proof (rule sorted_distinct_set_unique)
    show "set (map fst m) = set (map fst n)"
      using assms(3) by (metis dom_map_of_conv_image_fst set_map smap_find_def ext)
  qed (use assms(1,2) in \<open>auto simp: smap_inv_def strict_sorted_iff\<close>)
  have "map snd m = map snd n"
  proof (rule nth_equalityI)
    show "length (map snd m) = length (map snd n)"
      using keys by (metis length_map)
    fix i
    assume i: "i < length (map snd m)"
    from keys have l: "length n = length m" by (metis length_map)
    with i keys have fst_i: "fst (m ! i) = fst (n ! i)" by (metis length_map nth_map)
    from i have "smap_find m (fst (m ! i)) = Some (snd (m ! i))"
      using smap_find_in_set [OF assms(1)] by auto
    moreover from i l have "smap_find n (fst (n ! i)) = Some (snd (n ! i))"
      using smap_find_in_set [OF assms(2)] by auto
    ultimately show "map snd m ! i = map snd n ! i"
      using assms(3) fst_i i l by auto
  qed
  with keys show ?thesis by (metis zip_map_fst_snd)
qed

lemma smap_inv_dropWhile [simp, intro]: "smap_inv m \<Longrightarrow> smap_inv (dropWhile P m)"
  unfolding smap_inv_def
  by (metis sorted_wrt_dropWhile sorted_wrt_map)

lemma smap_find_erase_below:
  "smap_inv m \<Longrightarrow> smap_find (smap_erase_below k m) = (\<lambda>k'. if k' < k then None else smap_find m k')"
  unfolding smap_erase_below_def
proof (induction m)
  case (Cons p m)
  obtain a v where p: "p = (a, v)" by fastforce
  show ?case
  proof (cases "a < k")
    case True
    with Cons show ?thesis by (auto simp: p smap_find_def fun_eq_iff)
  next
    case False
    have "map_of m k' = None" if "k' < a" for k'
      using Cons.prems that by (force simp: p map_of_eq_None_iff)
    with False show ?thesis
      by (fastforce simp: p smap_find_def fun_eq_iff)
  qed
qed (simp add: smap_find_def fun_eq_iff)

subsection \<open>The interface the components rely on\<close>

text \<open>
  What a component that keeps its data in a container uses of it: the lookup laws and the
  invariant. The lemmas of the locale are the ones of the loops the sources run over containers.
\<close>

locale assoc_container =
  fixes find :: "'c \<Rightarrow> 'k \<Rightarrow> 'v option"
    and put :: "'k \<Rightarrow> 'v \<Rightarrow> 'c \<Rightarrow> 'c"
    and erase :: "'k \<Rightarrow> 'c \<Rightarrow> 'c"
    and inv :: "'c \<Rightarrow> bool"
  assumes find_put: "inv c \<Longrightarrow> find (put k v c) = (find c)(k \<mapsto> v)"
    and find_erase: "inv c \<Longrightarrow> find (erase k c) = (find c)(k := None)"
    and inv_put: "inv c \<Longrightarrow> inv (put k v c)"
    and inv_erase: "inv c \<Longrightarrow> inv (erase k c)"
begin

lemma inv_fold_put: "inv c \<Longrightarrow> inv (fold (\<lambda>(k, v). put k v) kvs c)"
  by (induction kvs arbitrary: c) (auto simp: inv_put)

lemma inv_fold_erase: "inv c \<Longrightarrow> inv (fold erase ks c)"
  by (induction ks arbitrary: c) (auto simp: inv_erase)

lemma find_fold_put: "inv c \<Longrightarrow> find (fold (\<lambda>(k, v). put k v) kvs c) = find c ++ map_of (rev kvs)"
proof (induction kvs arbitrary: c)
  case (Cons kv kvs)
  obtain k v where kv: "kv = (k, v)" by fastforce
  have "find (fold (\<lambda>(k, v). put k v) kvs (put k v c)) = (find c)(k \<mapsto> v) ++ map_of (rev kvs)"
    using Cons.IH [OF inv_put [OF Cons.prems]] unfolding find_put [OF Cons.prems] .
  then show ?case by (auto simp: kv map_add_def split: option.splits)
qed simp

lemma find_fold_erase:
  "inv c \<Longrightarrow> find (fold erase ks c) = (\<lambda>k. if k \<in> set ks then None else find c k)"
proof (induction ks arbitrary: c)
  case (Cons k ks)
  then show ?case by (auto simp: inv_erase find_erase fun_eq_iff)
qed simp

end

interpretation smap: assoc_container smap_find smap_put smap_erase smap_inv
  by unfold_locales simp_all

end
