(* ===== verification/CompactMosaicMap.thy ===== *)
theory CompactMosaicMap
  imports StlMap
begin

section \<open>The compact mosaic map (catapult/state/CompactMosaicMap)\<close>

text \<open>
  The ordered map an account keeps its balances in. It stores its first element inline, up to
  five more in an array and the rest in a \<open>std::map\<close>. The model keeps this three-level storage:
  the array is a list of five cells whose first \<open>ArraySize\<close> cells are in use, a null pointer is
  \<open>None\<close>. The theorems show that it implements a finite map whose iteration order is the
  optimized mosaic first and the others by increasing id, whatever the history of the map.
  \<open>ArraySize\<close> is a \<open>uint8_t\<close> in the source; the invariant keeps it between 0 and 5, so it is a
  natural number here.
\<close>

subsection \<open>Storage\<close>

abbreviation (input) Array_Size :: nat where
  "Array_Size \<equiv> 5"

type_synonym Mosaic = "MosaicId \<times> Amount"

record SecondLevelStorage =
  ArrayStorage :: "Mosaic list"
  ArraySize :: nat
  pMapStorage :: "(MosaicId, Amount) smap option"

record FirstLevelStorage =
  Value :: Mosaic
  pNextStorage :: "SecondLevelStorage option"

record CompactMosaicMap =
  m_storage :: FirstLevelStorage
  m_optimizedMosaicId :: MosaicId

definition new_SecondLevelStorage :: SecondLevelStorage where
  "new_SecondLevelStorage =
     \<lparr>ArrayStorage = replicate Array_Size (0, 0), ArraySize = 0, pMapStorage = None\<rparr>"

definition cmm_new :: CompactMosaicMap where
  "cmm_new = \<lparr>m_storage = \<lparr>Value = (0, 0), pNextStorage = None\<rparr>, m_optimizedMosaicId = 0\<rparr>"

definition hasValue :: "FirstLevelStorage \<Rightarrow> bool" where
  "hasValue s \<longleftrightarrow> 0 \<noteq> fst (Value s)"

definition hasArray :: "FirstLevelStorage \<Rightarrow> bool" where
  "hasArray s \<longleftrightarrow> pNextStorage s \<noteq> None"

definition hasMap :: "FirstLevelStorage \<Rightarrow> bool" where
  "hasMap s \<longleftrightarrow> (case pNextStorage s of None \<Rightarrow> False | Some n \<Rightarrow> pMapStorage n \<noteq> None)"

text \<open>The accessors of the second level; the source dereferences \<open>pNextStorage\<close>.\<close>

definition arraySize :: "FirstLevelStorage \<Rightarrow> nat" where
  "arraySize s = ArraySize (the (pNextStorage s))"

definition storage_array :: "FirstLevelStorage \<Rightarrow> Mosaic list" where
  "storage_array s = ArrayStorage (the (pNextStorage s))"

definition storage_map :: "FirstLevelStorage \<Rightarrow> (MosaicId, Amount) smap" where
  "storage_map s = the (pMapStorage (the (pNextStorage s)))"

subsection \<open>Queries\<close>

definition cmm_empty :: "CompactMosaicMap \<Rightarrow> bool" where
  "cmm_empty m \<longleftrightarrow> \<not> hasValue (m_storage m)"

definition cmm_size :: "CompactMosaicMap \<Rightarrow> nat" where
  "cmm_size m =
     (if cmm_empty m then 0
      else 1 + (if hasArray (m_storage m)
                then arraySize (m_storage m)
                     + (if hasMap (m_storage m) then smap_size (storage_map (m_storage m)) else 0)
                else 0))"

datatype MosaicLocation = Loc_Value | Loc_Array nat | Loc_Map

text \<open>The search through the array: the smallest index below \<open>n\<close>, starting at \<open>i\<close>.\<close>

fun find_in_array :: "Mosaic list \<Rightarrow> nat \<Rightarrow> nat \<Rightarrow> MosaicId \<Rightarrow> nat option" where
  "find_in_array a i 0 mid = None"
| "find_in_array a i (Suc n) mid =
     (if mid = fst (a ! i) then Some i else find_in_array a (Suc i) n mid)"

definition cmm_find_location :: "CompactMosaicMap \<Rightarrow> MosaicId \<Rightarrow> MosaicLocation option" where
  "cmm_find_location m mid =
     (let s = m_storage m;
          in_map = (if hasMap s \<and> smap_contains (storage_map s) mid then Some Loc_Map else None)
      in if cmm_empty m then None
         else if mid = fst (Value s) then Some Loc_Value
         else if hasArray s then
           (case find_in_array (storage_array s) 0 (arraySize s) mid of
              Some i \<Rightarrow> Some (Loc_Array i)
            | None \<Rightarrow> in_map)
         else in_map)"

text \<open>\<open>*iter\<close> for the iterator of a location.\<close>

definition cmm_at :: "CompactMosaicMap \<Rightarrow> MosaicId \<Rightarrow> MosaicLocation \<Rightarrow> Mosaic" where
  "cmm_at m mid loc =
     (case loc of
        Loc_Value \<Rightarrow> Value (m_storage m)
      | Loc_Array i \<Rightarrow> storage_array (m_storage m) ! i
      | Loc_Map \<Rightarrow> (mid, the (smap_find (storage_map (m_storage m)) mid)))"

definition cmm_find :: "CompactMosaicMap \<Rightarrow> MosaicId \<Rightarrow> Mosaic option" where
  "cmm_find m mid = map_option (cmm_at m mid) (cmm_find_location m mid)"

text \<open>\<open>iter->second = amount\<close> for the iterator of a location.\<close>

definition cmm_assign :: "CompactMosaicMap \<Rightarrow> MosaicId \<Rightarrow> MosaicLocation \<Rightarrow> Amount \<Rightarrow> CompactMosaicMap" where
  "cmm_assign m mid loc amount =
     (let s = m_storage m; n = the (pNextStorage s)
      in m\<lparr>m_storage :=
             (case loc of
                Loc_Value \<Rightarrow> s\<lparr>Value := (fst (Value s), amount)\<rparr>
              | Loc_Array i \<Rightarrow>
                  s\<lparr>pNextStorage := Some (n\<lparr>ArrayStorage :=
                      (ArrayStorage n)[i := (fst (ArrayStorage n ! i), amount)]\<rparr>)\<rparr>
              | Loc_Map \<Rightarrow>
                  s\<lparr>pNextStorage := Some (n\<lparr>pMapStorage :=
                      Some (smap_put mid amount (the (pMapStorage n)))\<rparr>)\<rparr>)\<rparr>)"

subsection \<open>Insert\<close>

definition IsLessThan :: "MosaicId \<Rightarrow> MosaicId \<Rightarrow> MosaicId \<Rightarrow> bool" where
  "IsLessThan optimizedMosaicId lhs rhs =
     (if lhs = rhs then False
      else if optimizedMosaicId = lhs \<or> optimizedMosaicId = rhs then optimizedMosaicId = lhs
      else lhs < rhs)"

definition insertIntoMap :: "Mosaic \<Rightarrow> SecondLevelStorage \<Rightarrow> SecondLevelStorage" where
  "insertIntoMap pair n =
     (let mp = (case pMapStorage n of None \<Rightarrow> smap_empty | Some mp \<Rightarrow> mp)
      in n\<lparr>pMapStorage := Some (smap_insert (fst pair) (snd pair) mp)\<rparr>)"

text \<open>The loop that makes room at \<open>index\<close>: \<open>array[i - 1] = array[i - 2]\<close> for \<open>i\<close> down to \<open>index + 2\<close>.\<close>

fun shift_right :: "nat \<Rightarrow> nat \<Rightarrow> 'a list \<Rightarrow> 'a list" where
  "shift_right i index a =
     (if index + 1 < i then shift_right (i - 1) index (a[i - 1 := a ! (i - 2)]) else a)"

declare shift_right.simps [simp del]

definition insertIntoArray :: "nat \<Rightarrow> Mosaic \<Rightarrow> SecondLevelStorage \<Rightarrow> SecondLevelStorage" where
  "insertIntoArray index pair n =
     (let n = (if Array_Size = ArraySize n then insertIntoMap (last (ArrayStorage n)) n
               else n\<lparr>ArraySize := ArraySize n + 1\<rparr>)
      in n\<lparr>ArrayStorage := (shift_right (ArraySize n) index (ArrayStorage n))[index := pair]\<rparr>)"

text \<open>The insertion sort loop: the first array index, from \<open>i\<close>, whose mosaic id is larger.\<close>

fun find_array_index :: "Mosaic list \<Rightarrow> nat \<Rightarrow> nat \<Rightarrow> MosaicId \<Rightarrow> nat" where
  "find_array_index a i 0 mid = i"
| "find_array_index a i (Suc n) mid =
     (if mid < fst (a ! i) then i else find_array_index a (Suc i) n mid)"

definition cmm_insert :: "Mosaic \<Rightarrow> CompactMosaicMap \<Rightarrow> exn + CompactMosaicMap" where
  "cmm_insert pair m =
     (let s = m_storage m
      in if 0 = fst pair then Inl Invalid_Argument
         else if cmm_find m (fst pair) \<noteq> None then Inl Invalid_Argument
         else if cmm_empty m then Inr (m\<lparr>m_storage := s\<lparr>Value := pair\<rparr>\<rparr>)
         else
           let n = (case pNextStorage s of None \<Rightarrow> new_SecondLevelStorage | Some n \<Rightarrow> n)
           in if IsLessThan (m_optimizedMosaicId m) (fst pair) (fst (Value s)) then
                Inr (m\<lparr>m_storage := s\<lparr>Value := pair, pNextStorage := Some (insertIntoArray 0 (Value s) n)\<rparr>\<rparr>)
              else
                let arrayIndex = find_array_index (ArrayStorage n) 0 (ArraySize n) (fst pair)
                in if arrayIndex < Array_Size then
                     Inr (m\<lparr>m_storage := s\<lparr>pNextStorage := Some (insertIntoArray arrayIndex pair n)\<rparr>\<rparr>)
                   else
                     Inr (m\<lparr>m_storage := s\<lparr>pNextStorage := Some (insertIntoMap pair n)\<rparr>\<rparr>))"

subsection \<open>Erase\<close>

function shift_left :: "nat \<Rightarrow> nat \<Rightarrow> 'a list \<Rightarrow> 'a list" where
  "shift_left i sz a =
     (if i < sz - 1 then shift_left (Suc i) sz (a[i := a ! (i + 1)]) else a)"
  by pat_completeness auto
termination
  by (relation "measure (\<lambda>(i, sz, a). sz - i)") auto

declare shift_left.simps [simp del]

definition eraseFromArray :: "nat \<Rightarrow> SecondLevelStorage \<Rightarrow> SecondLevelStorage" where
  "eraseFromArray index n =
     n\<lparr>ArrayStorage := shift_left index (ArraySize n) (ArrayStorage n), ArraySize := ArraySize n - 1\<rparr>"

text \<open>The loop of \<open>compact\<close> that moves the smallest map elements into the free array cells.\<close>

fun compact_into_array :: "nat \<Rightarrow> Mosaic list \<Rightarrow> nat \<Rightarrow> (MosaicId, Amount) smap
    \<Rightarrow> Mosaic list \<times> nat \<times> (MosaicId, Amount) smap" where
  "compact_into_array 0 a sz mp = (a, sz, mp)"
| "compact_into_array (Suc free) a sz mp =
     (case mp of
        [] \<Rightarrow> (a, sz, mp)
      | p # rest \<Rightarrow> compact_into_array free (a[sz := p]) (sz + 1) rest)"

definition cmm_compact :: "FirstLevelStorage \<Rightarrow> FirstLevelStorage" where
  "cmm_compact s =
     (case pNextStorage s of
        None \<Rightarrow> s
      | Some n \<Rightarrow>
          let n = (case pMapStorage n of
                     None \<Rightarrow> n
                   | Some mp \<Rightarrow>
                       let (a, sz, mp) =
                             compact_into_array (Array_Size - ArraySize n) (ArrayStorage n) (ArraySize n) mp
                       in \<lparr>ArrayStorage = a, ArraySize = sz,
                           pMapStorage = (if mp = [] then None else Some mp)\<rparr>)
          in s\<lparr>pNextStorage := (if 0 = ArraySize n then None else Some n)\<rparr>)"

definition cmm_erase :: "MosaicId \<Rightarrow> CompactMosaicMap \<Rightarrow> CompactMosaicMap" where
  "cmm_erase mid m =
     (let s = m_storage m
      in case cmm_find_location m mid of
           None \<Rightarrow> m
         | Some loc \<Rightarrow>
             m\<lparr>m_storage := cmm_compact
               (case loc of
                  Loc_Value \<Rightarrow>
                    (case pNextStorage s of
                       Some n \<Rightarrow> s\<lparr>Value := ArrayStorage n ! 0, pNextStorage := Some (eraseFromArray 0 n)\<rparr>
                     | None \<Rightarrow> s\<lparr>Value := (0, 0)\<rparr>)
                | Loc_Array i \<Rightarrow> s\<lparr>pNextStorage := Some (eraseFromArray i (the (pNextStorage s)))\<rparr>
                | Loc_Map \<Rightarrow>
                    (let n = the (pNextStorage s)
                     in s\<lparr>pNextStorage := Some (n\<lparr>pMapStorage := Some (smap_erase mid (storage_map s))\<rparr>)\<rparr>))\<rparr>)"

subsection \<open>Optimize\<close>

definition cmm_reinsert :: "MosaicId \<Rightarrow> CompactMosaicMap \<Rightarrow> exn + CompactMosaicMap" where
  "cmm_reinsert mid m =
     (case cmm_find m mid of
        None \<Rightarrow> Inr m
      | Some mosaicCopy \<Rightarrow> cmm_insert mosaicCopy (cmm_erase (fst mosaicCopy) m))"

definition cmm_optimize :: "MosaicId \<Rightarrow> CompactMosaicMap \<Rightarrow> exn + CompactMosaicMap" where
  "cmm_optimize mid m =
     (if mid = m_optimizedMosaicId m then Inr m
      else
        let previousOptimizedMosaicId = m_optimizedMosaicId m
        in rbind (cmm_reinsert previousOptimizedMosaicId (m\<lparr>m_optimizedMosaicId := mid\<rparr>))
             (cmm_reinsert mid))"

subsection \<open>Iteration\<close>

datatype Stage = Stage_Start | Stage_Value | Stage_Array | Stage_Map | Stage_End

record basic_iterator =
  bi_stage :: Stage
  bi_arrayIndex :: nat
  bi_mapIterator :: "Mosaic list"
  bi_current :: "Mosaic option"

definition bi_setEnd :: "basic_iterator \<Rightarrow> basic_iterator" where
  "bi_setEnd it = it\<lparr>bi_stage := Stage_End, bi_current := None\<rparr>"

definition bi_setArray :: "FirstLevelStorage \<Rightarrow> basic_iterator \<Rightarrow> basic_iterator" where
  "bi_setArray s it =
     it\<lparr>bi_stage := Stage_Array, bi_current := Some (storage_array s ! bi_arrayIndex it)\<rparr>"

text \<open>\<open>m_mapIterator\<close> is the rest of the map, \<open>*m_mapIterator\<close> its first element.\<close>

definition bi_setMap :: "basic_iterator \<Rightarrow> basic_iterator" where
  "bi_setMap it =
     it\<lparr>bi_stage := Stage_Map,
        bi_current := (case bi_mapIterator it of [] \<Rightarrow> None | p # _ \<Rightarrow> Some p)\<rparr>"

definition bi_advance :: "FirstLevelStorage \<Rightarrow> basic_iterator \<Rightarrow> basic_iterator" where
  "bi_advance s it =
     (case bi_stage it of
        Stage_Start \<Rightarrow>
          if hasValue s then it\<lparr>bi_stage := Stage_Value, bi_current := Some (Value s)\<rparr> else bi_setEnd it
      | Stage_Value \<Rightarrow>
          let it = it\<lparr>bi_arrayIndex := 0\<rparr>
          in if hasArray s then bi_setArray s it else bi_setEnd it
      | Stage_Array \<Rightarrow>
          let it = it\<lparr>bi_arrayIndex := bi_arrayIndex it + 1\<rparr>
          in if bi_arrayIndex it \<noteq> arraySize s then bi_setArray s it
             else if \<not> hasMap s then bi_setEnd it
             else bi_setMap (it\<lparr>bi_mapIterator := storage_map s\<rparr>)
      | Stage_Map \<Rightarrow>
          let it = it\<lparr>bi_mapIterator := tl (bi_mapIterator it)\<rparr>
          in if bi_mapIterator it \<noteq> [] then bi_setMap it else bi_setEnd it
      | Stage_End \<Rightarrow> it)"

definition bi_begin :: "FirstLevelStorage \<Rightarrow> basic_iterator" where
  "bi_begin s =
     bi_advance s \<lparr>bi_stage = Stage_Start, bi_arrayIndex = 0, bi_mapIterator = [], bi_current = None\<rparr>"

definition bi_next :: "FirstLevelStorage \<Rightarrow> basic_iterator \<Rightarrow> exn + basic_iterator" where
  "bi_next s it = (if bi_stage it = Stage_End then Inl Out_Of_Range else Inr (bi_advance s it))"

text \<open>
  A range-based for loop. Iterators are equal when \<open>m_pCurrent\<close> is, and only the end iterator has
  no current mosaic. The fuel bounds the number of steps.
\<close>

fun bi_collect :: "nat \<Rightarrow> FirstLevelStorage \<Rightarrow> basic_iterator \<Rightarrow> exn + Mosaic list" where
  "bi_collect 0 s it = (if bi_current it = None then Inr [] else Inl Out_Of_Range)"
| "bi_collect (Suc fuel) s it =
     (case bi_current it of
        None \<Rightarrow> Inr []
      | Some p \<Rightarrow>
          rbind (bi_next s it) (\<lambda>it. rbind (bi_collect fuel s it) (\<lambda>ps. Inr (p # ps))))"

definition cmm_iterate :: "CompactMosaicMap \<Rightarrow> exn + Mosaic list" where
  "cmm_iterate m = bi_collect (cmm_size m) (m_storage m) (bi_begin (m_storage m))"

subsection \<open>The list of mosaics and the invariant\<close>

definition sls_list :: "SecondLevelStorage \<Rightarrow> Mosaic list" where
  "sls_list n =
     take (ArraySize n) (ArrayStorage n) @ (case pMapStorage n of None \<Rightarrow> [] | Some mp \<Rightarrow> mp)"

definition tail_list :: "FirstLevelStorage \<Rightarrow> Mosaic list" where
  "tail_list s = (case pNextStorage s of None \<Rightarrow> [] | Some n \<Rightarrow> sls_list n)"

definition cmm_list :: "CompactMosaicMap \<Rightarrow> Mosaic list" where
  "cmm_list m = (if hasValue (m_storage m) then Value (m_storage m) # tail_list (m_storage m) else [])"

definition sls_wf :: "SecondLevelStorage \<Rightarrow> bool" where
  "sls_wf n \<longleftrightarrow> length (ArrayStorage n) = Array_Size \<and> ArraySize n \<le> Array_Size
     \<and> (case pMapStorage n of None \<Rightarrow> True | Some mp \<Rightarrow> ArraySize n = Array_Size \<and> mp \<noteq> [])"

text \<open>
  The storage invariant: the map is only used when the array is full, the levels below the inline
  value are sorted by id, and no level holds the reserved id 0 or the id of the inline value.
\<close>

definition cmm_wf :: "CompactMosaicMap \<Rightarrow> bool" where
  "cmm_wf m \<longleftrightarrow>
     (let s = m_storage m
      in (\<not> hasValue s \<longrightarrow> pNextStorage s = None)
         \<and> (case pNextStorage s of None \<Rightarrow> True | Some n \<Rightarrow> sls_wf n \<and> 1 \<le> ArraySize n)
         \<and> smap_inv (tail_list s) \<and> 0 \<notin> fst ` set (tail_list s)
         \<and> fst (Value s) \<notin> fst ` set (tail_list s))"

text \<open>The inline value comes first: it is the optimized mosaic or smaller than all others.\<close>

definition cmm_front_ok :: "CompactMosaicMap \<Rightarrow> bool" where
  "cmm_front_ok m \<longleftrightarrow>
     fst (Value (m_storage m)) = m_optimizedMosaicId m
     \<or> (\<forall>k \<in> fst ` set (tail_list (m_storage m)). fst (Value (m_storage m)) < k)"

definition cmm_inv :: "CompactMosaicMap \<Rightarrow> bool" where
  "cmm_inv m \<longleftrightarrow> cmm_wf m \<and> cmm_front_ok m
     \<and> m_optimizedMosaicId m \<notin> fst ` set (tail_list (m_storage m))"

lemma tail_list_update [simp]:
  "tail_list (s\<lparr>pNextStorage := Some n\<rparr>) = sls_list n"
  "tail_list (s\<lparr>pNextStorage := None\<rparr>) = []"
  "tail_list (s\<lparr>Value := v\<rparr>) = tail_list s"
  by (simp_all add: tail_list_def)

subsection \<open>Array loops\<close>

lemma shift_right_eq:
  "index < i \<Longrightarrow> i \<le> length a \<Longrightarrow>
     shift_right i index a = take (Suc index) a @ take (i - Suc index) (drop index a) @ drop i a"
proof (induction i index a rule: shift_right.induct)
  case (1 i index a)
  show ?case
  proof (cases "index + 1 < i")
    case True
    have "shift_right i index a = shift_right (i - 1) index (a[i - 1 := a ! (i - 2)])"
      using True by (simp add: shift_right.simps [of i])
    also have "\<dots> = take (Suc index) (a[i - 1 := a ! (i - 2)])
        @ take (i - 1 - Suc index) (drop index (a[i - 1 := a ! (i - 2)])) @ drop (i - 1) (a[i - 1 := a ! (i - 2)])"
      using "1.IH" [OF True] "1.prems" True by simp
    also have "\<dots> = take (Suc index) a @ take (i - Suc index) (drop index a) @ drop i a"
    proof (rule nth_equalityI)
      fix j
      assume "j < length (take (Suc index) (a[i - 1 := a ! (i - 2)])
        @ take (i - 1 - Suc index) (drop index (a[i - 1 := a ! (i - 2)])) @ drop (i - 1) (a[i - 1 := a ! (i - 2)]))"
      then have "j < length a" using "1.prems" True by auto
      consider "j \<le> index" | "index < j" "j < i - 1" | "j = i - 1" | "i \<le> j" by linarith
      then show "(take (Suc index) (a[i - 1 := a ! (i - 2)])
        @ take (i - 1 - Suc index) (drop index (a[i - 1 := a ! (i - 2)])) @ drop (i - 1) (a[i - 1 := a ! (i - 2)])) ! j
        = (take (Suc index) a @ take (i - Suc index) (drop index a) @ drop i a) ! j"
        using "1.prems" True \<open>j < length a\<close>
        by cases (auto simp: nth_append nth_list_update intro!: arg_cong [of _ _ "nth a"])
    qed (use "1.prems" True in auto)
    finally show ?thesis .
  next
    case False
    with "1.prems" have "i = Suc index" by simp
    with False show ?thesis by (simp add: shift_right.simps [of "Suc index"])
  qed
qed

lemma shift_left_eq:
  "i < sz \<Longrightarrow> sz \<le> length a \<Longrightarrow>
     shift_left i sz a = take i a @ drop (Suc i) (take sz a) @ drop (sz - 1) a"
proof (induction i sz a rule: shift_left.induct)
  case (1 i sz a)
  show ?case
  proof (cases "i < sz - 1")
    case True
    have "shift_left i sz a = shift_left (Suc i) sz (a[i := a ! (i + 1)])"
      using True by (simp add: shift_left.simps [of i])
    also have "\<dots> = take (Suc i) (a[i := a ! (i + 1)]) @ drop (Suc (Suc i)) (take sz (a[i := a ! (i + 1)]))
        @ drop (sz - 1) (a[i := a ! (i + 1)])"
      using "1.IH" [OF True] "1.prems" True by simp
    also have "\<dots> = take i a @ drop (Suc i) (take sz a) @ drop (sz - 1) a"
    proof (rule nth_equalityI)
      fix j
      assume "j < length (take (Suc i) (a[i := a ! (i + 1)]) @ drop (Suc (Suc i)) (take sz (a[i := a ! (i + 1)]))
        @ drop (sz - 1) (a[i := a ! (i + 1)]))"
      then have "j < length a" using "1.prems" True by auto
      consider "j < i" | "j = i" | "i < j" "j < sz - 1" | "sz - 1 \<le> j" by linarith
      then show "(take (Suc i) (a[i := a ! (i + 1)]) @ drop (Suc (Suc i)) (take sz (a[i := a ! (i + 1)]))
        @ drop (sz - 1) (a[i := a ! (i + 1)])) ! j
        = (take i a @ drop (Suc i) (take sz a) @ drop (sz - 1) a) ! j"
        using "1.prems" True \<open>j < length a\<close>
        by cases (auto simp: nth_append nth_list_update intro!: arg_cong [of _ _ "nth a"])
    qed (use "1.prems" True in auto)
    finally show ?thesis .
  next
    case False
    with "1.prems" have "sz = Suc i" by simp
    with False "1.prems" show ?thesis by (simp add: shift_left.simps [of i])
  qed
qed

lemma find_in_array_None:
  "find_in_array a i n mid = None \<longleftrightarrow> (\<forall>j. i \<le> j \<and> j < i + n \<longrightarrow> fst (a ! j) \<noteq> mid)"
proof (induction a i n mid rule: find_in_array.induct)
  case (2 a i n mid)
  have "(\<forall>j. i \<le> j \<and> j < i + Suc n \<longrightarrow> fst (a ! j) \<noteq> mid)
     \<longleftrightarrow> fst (a ! i) \<noteq> mid \<and> (\<forall>j. Suc i \<le> j \<and> j < Suc i + n \<longrightarrow> fst (a ! j) \<noteq> mid)"
    by (metis Suc_leI add_Suc_right add_Suc le_eq_less_or_eq le_refl less_add_Suc1 Suc_le_lessD)
  with 2 show ?case by auto
qed auto

lemma find_in_array_Some:
  "find_in_array a i n mid = Some j \<Longrightarrow> i \<le> j \<and> j < i + n \<and> fst (a ! j) = mid"
  by (induction a i n mid rule: find_in_array.induct) (auto split: if_splits)

lemma find_array_index_bounds:
  "i \<le> find_array_index a i n mid \<and> find_array_index a i n mid \<le> i + n"
proof (induction a i n mid rule: find_array_index.induct)
  case (2 a i n mid)
  then show ?case by (cases "mid < fst (a ! i)") auto
qed simp

lemma find_array_index_before:
  "i \<le> j \<Longrightarrow> j < find_array_index a i n mid \<Longrightarrow> \<not> mid < fst (a ! j)"
proof (induction a i n mid rule: find_array_index.induct)
  case (2 a i n mid)
  then show ?case by (cases "i = j") (auto split: if_splits)
qed simp

lemma find_array_index_at:
  "find_array_index a i n mid < i + n \<Longrightarrow> mid < fst (a ! find_array_index a i n mid)"
  by (induction a i n mid rule: find_array_index.induct) auto

lemma compact_into_array_eq:
  "compact_into_array free a sz mp = (a', sz', mp') \<Longrightarrow> sz + free \<le> length a \<Longrightarrow>
     take sz' a' @ mp' = take sz a @ mp \<and> length a' = length a \<and> sz \<le> sz' \<and> sz' \<le> sz + free
     \<and> (mp' \<noteq> [] \<longrightarrow> sz' = sz + free) \<and> (mp \<noteq> [] \<longrightarrow> 0 < free \<longrightarrow> 0 < sz')"
proof (induction free a sz mp rule: compact_into_array.induct)
  case (2 free a sz mp)
  show ?case
  proof (cases mp)
    case Nil
    with 2 show ?thesis by simp
  next
    case (Cons p rest)
    with 2 show ?thesis by (auto simp: take_Suc_conv_app_nth)
  qed
qed auto

subsection \<open>Second level\<close>

lemma smap_put_split:
  "smap_inv xs \<Longrightarrow> k \<notin> fst ` set xs \<Longrightarrow> i \<le> length xs \<Longrightarrow>
     (\<And>j. j < i \<Longrightarrow> fst (xs ! j) < k) \<Longrightarrow> (i < length xs \<Longrightarrow> k < fst (xs ! i)) \<Longrightarrow>
     smap_put k v xs = take i xs @ (k, v) # drop i xs"
proof (induction xs arbitrary: i)
  case (Cons x xs)
  obtain k' v' where x: "x = (k', v')" by fastforce
  show ?case
  proof (cases i)
    case 0
    with Cons.prems(5) show ?thesis by (simp add: x)
  next
    case (Suc i')
    have "k' < k" using Cons.prems(4) [of 0] Suc by (simp add: x)
    moreover have "smap_put k v xs = take i' xs @ (k, v) # drop i' xs"
    proof (rule Cons.IH)
      show "fst (xs ! j) < k" if "j < i'" for j
        using Cons.prems(4) [of "Suc j"] that Suc by simp
      show "k < fst (xs ! i')" if "i' < length xs"
        using Cons.prems(5) that Suc by simp
    qed (use Cons.prems Suc in \<open>auto simp: x\<close>)
    ultimately show ?thesis by (auto simp: x Suc)
  qed
qed simp

lemma sls_insertIntoMap:
  assumes "sls_wf n" "ArraySize n = Array_Size" "smap_inv (sls_list n)" "fst p \<notin> fst ` set (sls_list n)"
    "\<And>q. q \<in> set (take (ArraySize n) (ArrayStorage n)) \<Longrightarrow> fst q < fst p"
  shows "sls_wf (insertIntoMap p n) \<and> sls_list (insertIntoMap p n) = smap_put (fst p) (snd p) (sls_list n)
       \<and> ArraySize (insertIntoMap p n) = ArraySize n"
proof -
  define mp where "mp = (case pMapStorage n of None \<Rightarrow> smap_empty | Some mp \<Rightarrow> mp)"
  have L: "sls_list n = take (ArraySize n) (ArrayStorage n) @ mp"
    by (simp add: sls_list_def mp_def smap_empty_def split: option.splits)
  have append: "smap_put k v (xs @ ys) = xs @ smap_put k v ys" if "\<And>q. q \<in> set xs \<Longrightarrow> fst q < k"
    for k v and xs ys :: "(MosaicId \<times> Amount) list"
    using that by (induction xs) force+
  have "fst p \<notin> fst ` set mp" using assms(4) L by auto
  then have "smap_insert (fst p) (snd p) mp = smap_put (fst p) (snd p) mp"
    by (auto simp: smap_insert_def smap_contains_def smap_find_def map_of_eq_None_iff)
  moreover have "smap_put (fst p) (snd p) mp \<noteq> []" by (cases mp) (auto split: if_splits)
  ultimately show ?thesis
    using assms(1,2,5) append [of "take (ArraySize n) (ArrayStorage n)" "fst p" "snd p" mp]
    unfolding L
    by (auto simp: insertIntoMap_def sls_wf_def sls_list_def mp_def [symmetric] Let_def)
qed

lemma sls_insertIntoArray:
  assumes "sls_wf n" "smap_inv (sls_list n)" "i \<le> ArraySize n" "i < Array_Size"
  shows "sls_wf (insertIntoArray i p n)
    \<and> sls_list (insertIntoArray i p n) = take i (sls_list n) @ p # drop i (sls_list n)
    \<and> 1 \<le> ArraySize (insertIntoArray i p n)"
proof (cases "ArraySize n = Array_Size")
  case False
  then have no_map: "pMapStorage n = None" and len: "length (ArrayStorage n) = Array_Size"
      and sz: "ArraySize n < Array_Size"
    using assms(1) by (auto simp: sls_wf_def split: option.splits)
  let ?a = "ArrayStorage n" and ?n = "ArraySize n"
  have "take (Suc ?n) ((shift_right (Suc ?n) i ?a)[i := p]) = take i ?a @ p # drop i (take ?n ?a)"
    using sz len assms(3)
    by (subst shift_right_eq) (auto simp: list_eq_iff_nth_eq nth_append nth_list_update nth_Cons' min_def
        split: if_splits nat.splits)
  moreover have "length ((shift_right (Suc ?n) i ?a)[i := p]) = Array_Size"
    using sz len assms(3) by (subst shift_right_eq) auto
  ultimately show ?thesis
    using False sz assms(3) no_map len
    by (auto simp: insertIntoArray_def sls_wf_def sls_list_def Let_def min_def)
next
  case True
  let ?a = "ArrayStorage n"
  have len: "length ?a = 5" using assms(1) by (simp add: sls_wf_def)
  define mp where "mp = (case pMapStorage n of None \<Rightarrow> smap_empty | Some mp \<Rightarrow> mp)"
  have L: "sls_list n = ?a @ mp"
    using len True by (simp add: sls_list_def mp_def smap_empty_def split: option.splits)
  have ne: "?a \<noteq> []" using len by auto
  then have last: "last ?a = ?a ! 4" using len by (simp add: last_conv_nth)
  have "fst (last ?a) < fst q" if "q \<in> set mp" for q
    using assms(2) that last_in_set [OF ne] unfolding L smap_inv_def
    by (auto simp: sorted_wrt_append)
  then have ins: "smap_insert (fst (last ?a)) (snd (last ?a)) mp = last ?a # mp"
    by (cases mp) (force simp: smap_insert_def smap_contains_def smap_find_def map_of_eq_None_iff)+
  have arr: "(shift_right 5 i ?a)[i := p] = take i ?a @ p # drop i (take 4 ?a)"
    using len assms(4)
    by (subst shift_right_eq) (auto simp: list_eq_iff_nth_eq nth_append nth_list_update nth_Cons' min_def
        split: if_splits nat.splits)
  have "sls_list (insertIntoArray i p n) = (take i ?a @ p # drop i (take 4 ?a)) @ last ?a # mp"
    using True ins arr len assms(4)
    by (simp add: insertIntoArray_def insertIntoMap_def sls_list_def mp_def [symmetric] Let_def)
  also have "drop i (take 4 ?a) @ [last ?a] = drop i ?a"
    using len assms(4) last
    by (auto simp: list_eq_iff_nth_eq nth_append intro!: arg_cong [where f = "nth (ArrayStorage n)"])
  then have "(take i ?a @ p # drop i (take 4 ?a)) @ last ?a # mp = take i (sls_list n) @ p # drop i (sls_list n)"
    using assms(4) len by (simp add: L)
  finally show ?thesis
    using True ins arr len assms(4)
    by (simp add: sls_wf_def insertIntoArray_def insertIntoMap_def mp_def [symmetric] Let_def)
qed

lemma sls_eraseFromArray:
  assumes "length (ArrayStorage n) = Array_Size" "ArraySize n \<le> Array_Size" "i < ArraySize n"
  shows "sls_list (eraseFromArray i n) = take i (sls_list n) @ drop (Suc i) (sls_list n)
    \<and> length (ArrayStorage (eraseFromArray i n)) = Array_Size
    \<and> ArraySize (eraseFromArray i n) = ArraySize n - 1
    \<and> pMapStorage (eraseFromArray i n) = pMapStorage n"
proof -
  let ?a = "ArrayStorage n" and ?n = "ArraySize n"
  have "take (?n - 1) (shift_left i ?n ?a) = take i ?a @ drop (Suc i) (take ?n ?a)"
    using assms by (subst shift_left_eq) auto
  moreover have "length (shift_left i ?n ?a) = Array_Size"
    using assms by (subst shift_left_eq) auto
  ultimately show ?thesis
    using assms by (auto simp: eraseFromArray_def sls_list_def min_def)
qed

text \<open>\<open>compact\<close> restores the storage invariant without changing the list of mosaics.\<close>

lemma cmm_compact_list:
  assumes "case pNextStorage s of None \<Rightarrow> True
     | Some n \<Rightarrow> length (ArrayStorage n) = Array_Size \<and> ArraySize n \<le> Array_Size
         \<and> (pMapStorage n \<noteq> None \<longrightarrow> 0 < ArraySize n)"
  shows "Value (cmm_compact s) = Value s \<and> tail_list (cmm_compact s) = tail_list s
    \<and> (case pNextStorage (cmm_compact s) of None \<Rightarrow> True | Some n \<Rightarrow> sls_wf n \<and> 1 \<le> ArraySize n)"
proof (cases "pNextStorage s")
  case None
  then show ?thesis by (simp add: cmm_compact_def)
next
  case (Some n)
  show ?thesis
  proof (cases "pMapStorage n")
    case None
    with Some assms show ?thesis
      by (auto simp: cmm_compact_def tail_list_def sls_list_def sls_wf_def)
  next
    case (Some mp)
    obtain a' sz' mp' where c: "compact_into_array (Array_Size - ArraySize n) (ArrayStorage n) (ArraySize n) mp
        = (a', sz', mp')"
      by (metis prod_cases3)
    have "take sz' a' @ mp' = take (ArraySize n) (ArrayStorage n) @ mp" "length a' = 5"
        "ArraySize n \<le> sz'" "sz' \<le> 5" "mp' \<noteq> [] \<longrightarrow> sz' = 5" "0 < ArraySize n"
      using compact_into_array_eq [OF c] assms \<open>pNextStorage s = Some n\<close> Some by auto
    then show ?thesis
      using c Some \<open>pNextStorage s = Some n\<close>
      by (auto simp: cmm_compact_def tail_list_def sls_list_def sls_wf_def split: option.splits)
  qed
qed

subsection \<open>Find\<close>

lemma tail_list_lookup:
  assumes "cmm_wf m" "pNextStorage (m_storage m) = Some n"
  shows "tail_list (m_storage m) = take (ArraySize n) (ArrayStorage n)
           @ (case pMapStorage n of None \<Rightarrow> [] | Some mp \<Rightarrow> mp)"
    and "ArraySize n \<le> length (ArrayStorage n)" "ArraySize n \<le> 5" "1 \<le> ArraySize n" "sls_wf n"
  using assms by (auto simp: cmm_wf_def tail_list_def sls_list_def sls_wf_def Let_def)

lemma find_in_array_map_of:
  assumes "n \<le> length a"
  shows "map_option (\<lambda>i. a ! i) (find_in_array a 0 n mid) = map_option (\<lambda>v. (mid, v)) (map_of (take n a) mid)
    \<or> \<not> distinct (map fst (take n a))"
proof (cases "find_in_array a 0 n mid")
  case None
  then have "mid \<notin> fst ` set (take n a)"
    using assms by (fastforce simp: find_in_array_None in_set_conv_nth)
  then have "map_of (take n a) mid = None" by (simp add: map_of_eq_None_iff)
  with None show ?thesis by simp
next
  case (Some i)
  have i: "i < n" "fst (a ! i) = mid" using find_in_array_Some [OF Some] by auto
  then have "(mid, snd (a ! i)) \<in> set (take n a)"
    using assms by (auto simp: in_set_conv_nth prod_eq_iff)
  then have "map_of (take n a) mid = Some (snd (a ! i)) \<or> \<not> distinct (map fst (take n a))"
    using map_of_is_SomeI by metis
  moreover have "a ! i = (mid, snd (a ! i))" using i by (simp add: prod_eq_iff)
  ultimately show ?thesis using Some by auto
qed

lemma cmm_find_lookup:
  assumes "cmm_wf m"
  shows "cmm_find m mid = map_option (\<lambda>v. (mid, v)) (map_of (cmm_list m) mid)"
proof (cases "hasValue (m_storage m) \<and> mid \<noteq> fst (Value (m_storage m))")
  case False
  then show ?thesis
    by (auto simp: cmm_find_def cmm_find_location_def cmm_empty_def cmm_list_def cmm_at_def Let_def prod_eq_iff)
next
  case True
  show ?thesis
  proof (cases "pNextStorage (m_storage m)")
    case None
    with True show ?thesis
      by (auto simp: cmm_find_def cmm_find_location_def cmm_empty_def cmm_list_def tail_list_def
          hasArray_def hasMap_def Let_def)
  next
    case (Some n)
    let ?a = "ArrayStorage n" and ?k = "ArraySize n"
    note tl = tail_list_lookup [OF assms Some]
    have "distinct (map fst (take ?k ?a))"
      using assms tl(1) smap_inv_distinct [of "tail_list (m_storage m)"]
      by (auto simp: cmm_wf_def Let_def)
    then have arr: "map_option (\<lambda>i. ?a ! i) (find_in_array ?a 0 ?k mid)
        = map_option (\<lambda>v. (mid, v)) (map_of (take ?k ?a) mid)"
      using find_in_array_map_of [OF tl(2)] by blast
    then show ?thesis
      using True Some tl(1)
      by (cases "find_in_array ?a 0 ?k mid"; cases "map_of (take ?k ?a) mid"; cases "pMapStorage n")
         (auto simp: cmm_find_def cmm_find_location_def cmm_empty_def cmm_list_def cmm_at_def hasArray_def
           hasMap_def storage_array_def storage_map_def arraySize_def smap_contains_def smap_find_def
           map_add_def Let_def)
  qed
qed

lemma cmm_find_None: "cmm_wf m \<Longrightarrow> cmm_find m mid = None \<longleftrightarrow> mid \<notin> fst ` set (cmm_list m)"
  by (simp add: cmm_find_lookup map_of_eq_None_iff)

subsection \<open>Insert\<close>

lemma sls_new: "sls_wf new_SecondLevelStorage" "sls_list new_SecondLevelStorage = []"
    "ArraySize new_SecondLevelStorage = 0"
  by (simp_all add: sls_wf_def sls_list_def new_SecondLevelStorage_def)

lemma sls_insert_sorted:
  assumes "sls_wf n" "smap_inv (sls_list n)" "fst p \<notin> fst ` set (sls_list n)"
    and i: "i = find_array_index (ArrayStorage n) 0 (ArraySize n) (fst p)"
    and n': "n' = (if i < Array_Size then insertIntoArray i p n else insertIntoMap p n)"
  shows "sls_wf n' \<and> sls_list n' = smap_put (fst p) (snd p) (sls_list n) \<and> 1 \<le> ArraySize n'"
proof -
  let ?a = "ArrayStorage n" and ?L = "sls_list n"
  have wf: "length ?a = 5" "ArraySize n \<le> 5" using assms(1) by (auto simp: sls_wf_def)
  have le: "i \<le> ArraySize n" using find_array_index_bounds [of 0 ?a] i by auto
  have nth: "?L ! j = ?a ! j" if "j < ArraySize n" for j
    using that wf by (simp add: sls_list_def nth_append)
  have lenL: "ArraySize n \<le> length ?L" using wf by (simp add: sls_list_def)
  have before: "fst (?L ! j) < fst p" if "j < i" for j
  proof -
    have "\<not> fst p < fst (?a ! j)" using find_array_index_before [of 0 j ?a] that i by auto
    moreover have "fst (?L ! j) \<noteq> fst p" using assms(3) that le lenL by (metis image_eqI nth_mem order_less_le_trans)
    ultimately show ?thesis using nth that le by auto
  qed
  show ?thesis
  proof (cases "i < 5")
    case True
    have "fst p < fst (?L ! i)" if "i < length ?L"
    proof (cases "i < ArraySize n")
      case True
      then show ?thesis using find_array_index_at [of ?a 0 "ArraySize n" "fst p"] i nth by simp
    next
      case False
      with le \<open>i < 5\<close> have "pMapStorage n = None" "ArraySize n = i"
        using assms(1) by (auto simp: sls_wf_def split: option.splits)
      with that wf show ?thesis by (simp add: sls_list_def)
    qed
    then have "smap_put (fst p) (snd p) ?L = take i ?L @ p # drop i ?L"
      using smap_put_split [OF assms(2,3), of i "snd p"] before le lenL by simp
    then show ?thesis
      using sls_insertIntoArray [OF assms(1,2) le True] n' True by simp
  next
    case False
    then have full: "ArraySize n = 5" using le wf by simp
    moreover have "fst q < fst p" if q: "q \<in> set (take (ArraySize n) ?a)" for q
    proof -
      obtain j where "j < length (take (ArraySize n) ?a)" "take (ArraySize n) ?a ! j = q"
        using q by (meson in_set_conv_nth)
      then have "j < ArraySize n" "?a ! j = q" by auto
      then show ?thesis using before [of j] nth [of j] full False by auto
    qed
    ultimately show ?thesis
      using sls_insertIntoMap [OF assms(1) _ assms(2,3)] n' False by simp
  qed
qed

lemma fst_set_smap_put_iff: "k' \<in> fst ` set (smap_put k v xs) \<longleftrightarrow> k' = k \<or> k' \<in> fst ` set xs"
  by (simp add: fst_set_smap_put)

lemma cmm_insert_ok:
  assumes "cmm_wf m" "cmm_front_ok m" "fst p \<noteq> 0" "fst p \<notin> fst ` set (cmm_list m)"
  shows "\<exists>m'. cmm_insert p m = Inr m' \<and> cmm_wf m' \<and> cmm_front_ok m'
     \<and> m_optimizedMosaicId m' = m_optimizedMosaicId m
     \<and> cmm_list m' = (case cmm_list m of [] \<Rightarrow> [p]
         | v # rest \<Rightarrow> if IsLessThan (m_optimizedMosaicId m) (fst p) (fst v) then p # v # rest
                    else v # smap_put (fst p) (snd p) rest)"
proof (cases "hasValue (m_storage m)")
  case False
  then have "pNextStorage (m_storage m) = None" using assms(1) by (simp add: cmm_wf_def Let_def)
  then show ?thesis
    using False assms(3,4) cmm_find_None [OF assms(1)]
    by (auto simp: cmm_insert_def cmm_empty_def cmm_list_def cmm_wf_def cmm_front_ok_def tail_list_def
        hasValue_def Let_def)
next
  case True
  let ?s = "m_storage m" and ?opt = "m_optimizedMosaicId m"
  define n where "n = (case pNextStorage ?s of None \<Rightarrow> new_SecondLevelStorage | Some n \<Rightarrow> n)"
  have n: "sls_wf n" "sls_list n = tail_list ?s"
    using assms(1) sls_new by (auto simp: n_def tail_list_def cmm_wf_def Let_def split: option.splits)
  have tl: "smap_inv (tail_list ?s)" "0 \<notin> fst ` set (tail_list ?s)" "fst (Value ?s) \<notin> fst ` set (tail_list ?s)"
    using assms(1) by (auto simp: cmm_wf_def Let_def)
  have list: "cmm_list m = Value ?s # tail_list ?s" using True by (simp add: cmm_list_def)
  have p: "fst p \<noteq> fst (Value ?s)" "fst p \<notin> fst ` set (tail_list ?s)" using assms(4) by (auto simp: list)
  have nf: "cmm_find m (fst p) = None" using cmm_find_None [OF assms(1)] assms(4) by simp
  show ?thesis
  proof (cases "IsLessThan ?opt (fst p) (fst (Value ?s))")
    case less: True
    then have "fst (Value ?s) \<noteq> ?opt" using p by (auto simp: IsLessThan_def split: if_splits)
    then have front: "\<forall>k \<in> fst ` set (tail_list ?s). fst (Value ?s) < k"
      using assms(2) by (auto simp: cmm_front_ok_def)
    define n' where "n' = insertIntoArray 0 (Value ?s) n"
    have n': "sls_wf n'" "sls_list n' = Value ?s # tail_list ?s" "1 \<le> ArraySize n'"
      using sls_insertIntoArray [OF n(1), of 0 "Value ?s"] tl(1) n(2) by (auto simp: n'_def)
    have "cmm_insert p m = Inr (m\<lparr>m_storage := ?s\<lparr>Value := p, pNextStorage := Some n'\<rparr>\<rparr>)"
      using True less nf assms(3) by (simp add: cmm_insert_def cmm_empty_def n_def n'_def Let_def)
    moreover have "smap_inv (Value ?s # tail_list ?s)"
      using front tl(1) by (cases "Value ?s") auto
    moreover have "\<forall>k \<in> fst ` set (Value ?s # tail_list ?s). fst p < k" if "fst p \<noteq> ?opt"
      using less front that by (auto simp: IsLessThan_def split: if_splits dest!: bspec)
    ultimately show ?thesis
      using n' p tl True assms(3) less
      by (simp add: cmm_wf_def cmm_front_ok_def cmm_list_def hasValue_def list Let_def) blast
  next
    case nless: False
    define i where "i = find_array_index (ArrayStorage n) 0 (ArraySize n) (fst p)"
    define n' where "n' = (if i < Array_Size then insertIntoArray i p n else insertIntoMap p n)"
    have n': "sls_wf n'" "sls_list n' = smap_put (fst p) (snd p) (tail_list ?s)" "1 \<le> ArraySize n'"
      using sls_insert_sorted [OF n(1) _ _ i_def n'_def] tl(1) p(2) n(2) by auto
    have "cmm_insert p m = Inr (m\<lparr>m_storage := ?s\<lparr>pNextStorage := Some n'\<rparr>\<rparr>)"
      using True nless nf assms(3) by (simp add: cmm_insert_def cmm_empty_def n_def i_def n'_def Let_def)
    moreover have "fst (Value ?s) = ?opt
        \<or> (\<forall>k \<in> fst ` set (smap_put (fst p) (snd p) (tail_list ?s)). fst (Value ?s) < k)"
      using nless p(1) assms(2) unfolding fst_set_smap_put cmm_front_ok_def
      by (auto simp: IsLessThan_def split: if_splits)
    moreover have "0 \<notin> fst ` set (sls_list n')" "fst (Value ?s) \<notin> fst ` set (sls_list n')"
      using tl p assms(3) by (auto simp: n'(2) fst_set_smap_put)
    ultimately show ?thesis
      using n' tl True nless
      by (simp add: cmm_wf_def cmm_front_ok_def cmm_list_def hasValue_def list Let_def)
  qed
qed

subsection \<open>Erase\<close>

lemma filter_remove_nth:
  assumes "distinct (map fst xs)" "i < length xs"
  shows "filter (\<lambda>p. fst p \<noteq> fst (xs ! i)) xs = take i xs @ drop (Suc i) xs"
  using assms
proof (induction xs arbitrary: i)
  case (Cons x xs)
  have ne: "fst y \<noteq> fst x" if "y \<in> set xs" for y
    using Cons.prems(1) that by (metis distinct.simps(2) image_eqI list.map(2) list.set_map)
  show ?case
  proof (cases i)
    case 0
    then show ?thesis using ne by (simp add: filter_id_conv)
  next
    case (Suc j)
    then have "fst x \<noteq> fst (xs ! j)" using ne [of "xs ! j"] Cons.prems(2) by simp
    with Suc Cons show ?thesis by simp
  qed
qed simp

lemma smap_inv_filter: "smap_inv xs \<Longrightarrow> smap_inv (filter P xs)"
  unfolding smap_inv_def by (simp add: sorted_wrt_map sorted_wrt_filter)

lemma cmm_erase_unfold:
  assumes "cmm_wf m" "mid \<in> fst ` set (cmm_list m)"
  shows "\<exists>s. cmm_erase mid m = m\<lparr>m_storage := cmm_compact s\<rparr>
     \<and> (if hasValue s then Value s # tail_list s else []) = filter (\<lambda>p. fst p \<noteq> mid) (cmm_list m)
     \<and> (\<not> hasValue s \<longrightarrow> pNextStorage s = None)
     \<and> (case pNextStorage s of None \<Rightarrow> True
        | Some n \<Rightarrow> length (ArrayStorage n) = Array_Size \<and> ArraySize n \<le> Array_Size
            \<and> (pMapStorage n \<noteq> None \<longrightarrow> 0 < ArraySize n))"
proof -
  let ?s = "m_storage m"
  have hv: "hasValue ?s" using assms(2) by (auto simp: cmm_list_def split: if_splits)
  have list: "cmm_list m = Value ?s # tail_list ?s" using hv by (simp add: cmm_list_def)
  have tl: "smap_inv (tail_list ?s)" "0 \<notin> fst ` set (tail_list ?s)" "fst (Value ?s) \<notin> fst ` set (tail_list ?s)"
    using assms(1) by (auto simp: cmm_wf_def Let_def)
  have dist: "distinct (map fst (tail_list ?s))" using smap_inv_distinct [OF tl(1)] .
  obtain p where "cmm_find m mid = Some p"
    using assms cmm_find_None [OF assms(1)] by blast
  then obtain loc where loc: "cmm_find_location m mid = Some loc" by (auto simp: cmm_find_def)
  show ?thesis
  proof (cases loc)
    case Loc_Value
    have mid: "mid = fst (Value ?s)"
      using loc Loc_Value by (auto simp: cmm_find_location_def Let_def split: if_splits option.splits)
    have filt: "filter (\<lambda>p. fst p \<noteq> mid) (cmm_list m) = tail_list ?s"
    proof -
      have "\<forall>p \<in> set (tail_list ?s). fst p \<noteq> mid" using tl(3) mid by (metis image_eqI)
      then show ?thesis by (simp add: list mid filter_id_conv)
    qed
    show ?thesis
    proof (cases "pNextStorage ?s")
      case None
      then show ?thesis
        using loc Loc_Value filt
        by (intro exI [of _ "?s\<lparr>Value := (0, 0)\<rparr>"]) (simp add: cmm_erase_def tail_list_def hasValue_def)
    next
      case (Some n)
      note n = tail_list_lookup [OF assms(1) Some]
      have len: "length (ArrayStorage n) = 5" using n(5) by (simp add: sls_wf_def)
      have e: "sls_list (eraseFromArray 0 n) = tl (sls_list n)" "sls_list n = tail_list ?s"
          "length (ArrayStorage (eraseFromArray 0 n)) = 5" "ArraySize (eraseFromArray 0 n) = ArraySize n - 1"
          "pMapStorage (eraseFromArray 0 n) = pMapStorage n"
        using sls_eraseFromArray [of n 0] len n(3,4) Some
        by (auto simp: tail_list_def drop_Suc)
      have ne: "tail_list ?s = ArrayStorage n ! 0 # tl (tail_list ?s)"
        using n(1,4) len by (cases "ArrayStorage n"; cases "ArraySize n") auto
      then have "fst (ArrayStorage n ! 0) \<noteq> 0" using tl(2) by (metis image_eqI list.set_intros(1))
      then show ?thesis
        using loc Loc_Value filt Some e ne n(3,5)
        by (intro exI [of _ "?s\<lparr>Value := ArrayStorage n ! 0, pNextStorage := Some (eraseFromArray 0 n)\<rparr>"])
           (auto simp: cmm_erase_def hasValue_def sls_wf_def split: option.splits)
    qed
  next
    case (Loc_Array i)
    then obtain n where Some: "pNextStorage ?s = Some n"
      using loc by (auto simp: cmm_find_location_def hasArray_def Let_def split: if_splits option.splits)
    note n = tail_list_lookup [OF assms(1) Some]
    have len: "length (ArrayStorage n) = 5" using n(5) by (simp add: sls_wf_def)
    have i: "find_in_array (ArrayStorage n) 0 (ArraySize n) mid = Some i" "mid \<noteq> fst (Value ?s)"
      using loc Loc_Array Some
      by (auto simp: cmm_find_location_def storage_array_def arraySize_def Let_def split: if_splits option.splits)
    have i': "i < ArraySize n" "fst (ArrayStorage n ! i) = mid" using find_in_array_Some [OF i(1)] by auto
    have nth: "tail_list ?s ! i = ArrayStorage n ! i" "i < length (tail_list ?s)"
      using n(1,2) i' by (auto simp: nth_append)
    have e: "sls_list (eraseFromArray i n) = filter (\<lambda>p. fst p \<noteq> mid) (tail_list ?s)"
          "length (ArrayStorage (eraseFromArray i n)) = 5" "ArraySize (eraseFromArray i n) = ArraySize n - 1"
          "pMapStorage (eraseFromArray i n) = pMapStorage n"
      using sls_eraseFromArray [of n i] len n(3) i' Some filter_remove_nth [OF dist nth(2)] nth(1)
      by (auto simp: tail_list_def)
    then show ?thesis
      using loc Loc_Array Some n(3,5) hv i(2)
      by (intro exI [of _ "?s\<lparr>pNextStorage := Some (eraseFromArray i n)\<rparr>"])
         (auto simp: cmm_erase_def list hasValue_def sls_wf_def split: option.splits)
  next
    case Loc_Map
    have hm: "hasMap ?s" "mid \<noteq> fst (Value ?s)" "smap_contains (storage_map ?s) mid"
      using loc Loc_Map by (auto simp: cmm_find_location_def Let_def split: if_splits option.splits)
    then obtain n mp where Some: "pNextStorage ?s = Some n" "pMapStorage n = Some mp"
      by (auto simp: hasMap_def split: option.splits)
    note n = tail_list_lookup [OF assms(1) Some(1)]
    have mid: "mid \<in> fst ` set mp"
      using hm(3) Some by (auto simp: storage_map_def smap_contains_def smap_find_def
          simp flip: dom_map_of_conv_image_fst)
    have "mid \<notin> fst ` set (take (ArraySize n) (ArrayStorage n))"
      using dist mid n(1) Some by auto
    then have "filter (\<lambda>p. fst p \<noteq> mid) (tail_list ?s)
        = take (ArraySize n) (ArrayStorage n) @ smap_erase mid mp"
      using n(1) Some by (auto simp: smap_erase_def filter_id_conv)
    then show ?thesis
      using loc Loc_Map Some n(3,4,5) hv hm(2)
      by (intro exI [of _ "?s\<lparr>pNextStorage := Some (n\<lparr>pMapStorage := Some (smap_erase mid mp)\<rparr>)\<rparr>"])
         (auto simp: cmm_erase_def list hasValue_def sls_wf_def sls_list_def storage_map_def Let_def)
  qed
qed

lemma cmm_list_hasValue: "cmm_list m \<noteq> [] \<longleftrightarrow> hasValue (m_storage m)"
  by (simp add: cmm_list_def)

lemma cmm_list_nonzero: "cmm_wf m \<Longrightarrow> 0 \<notin> fst ` set (cmm_list m)"
  by (auto simp: cmm_wf_def cmm_list_def hasValue_def Let_def)

lemma cmm_list_distinct: "cmm_wf m \<Longrightarrow> distinct (map fst (cmm_list m))"
  by (auto simp: cmm_wf_def cmm_list_def Let_def dest: smap_inv_distinct)

lemma cmm_erase_ok:
  assumes "cmm_wf m"
  shows "cmm_wf (cmm_erase mid m) \<and> cmm_list (cmm_erase mid m) = filter (\<lambda>p. fst p \<noteq> mid) (cmm_list m)
    \<and> m_optimizedMosaicId (cmm_erase mid m) = m_optimizedMosaicId m
    \<and> (cmm_front_ok m \<or> fst (Value (m_storage m)) = mid \<longrightarrow> cmm_front_ok (cmm_erase mid m))"
proof (cases "mid \<in> fst ` set (cmm_list m)")
  case False
  then have "cmm_find_location m mid = None"
    using cmm_find_None [OF assms, of mid] by (auto simp: cmm_find_def)
  moreover have "filter (\<lambda>p. fst p \<noteq> mid) (cmm_list m) = cmm_list m"
    using False by (force simp: filter_id_conv)
  moreover have "fst (Value (m_storage m)) = mid \<Longrightarrow> cmm_front_ok m"
    using False assms by (auto simp: cmm_list_def cmm_front_ok_def cmm_wf_def tail_list_def Let_def split: if_splits)
  ultimately show ?thesis using assms by (auto simp: cmm_erase_def)
next
  case True
  let ?s = "m_storage m"
  obtain s where s: "cmm_erase mid m = m\<lparr>m_storage := cmm_compact s\<rparr>"
      "(if hasValue s then Value s # tail_list s else []) = filter (\<lambda>p. fst p \<noteq> mid) (cmm_list m)"
      "\<not> hasValue s \<longrightarrow> pNextStorage s = None"
      "case pNextStorage s of None \<Rightarrow> True
        | Some n \<Rightarrow> length (ArrayStorage n) = Array_Size \<and> ArraySize n \<le> Array_Size
            \<and> (pMapStorage n \<noteq> None \<longrightarrow> 0 < ArraySize n)"
    using cmm_erase_unfold [OF assms True] by blast
  note c = cmm_compact_list [OF s(4)]
  have hv: "hasValue (cmm_compact s) = hasValue s" using c by (simp add: hasValue_def)
  have lst: "cmm_list (cmm_erase mid m) = filter (\<lambda>p. fst p \<noteq> mid) (cmm_list m)"
  proof -
    have "cmm_list (cmm_erase mid m) = (if hasValue s then Value s # tail_list s else [])"
      using s(1) c hv by (simp add: cmm_list_def)
    then show ?thesis using s(2) by simp
  qed
  have hvm: "hasValue ?s" using True by (auto simp: cmm_list_def split: if_splits)
  have tl: "smap_inv (tail_list ?s)" "0 \<notin> fst ` set (cmm_list m)" "distinct (map fst (cmm_list m))"
    using assms cmm_list_nonzero cmm_list_distinct by (auto simp: cmm_wf_def Let_def)
  have tail_none: "tail_list s = []" if "\<not> hasValue s" using s(3) that by (simp add: tail_list_def)
  have tail_s: "smap_inv (tail_list s)
     \<and> (cmm_front_ok m \<or> fst (Value ?s) = mid \<longrightarrow> fst (Value s) = m_optimizedMosaicId m \<or> (\<forall>k \<in> fst ` set (tail_list s). fst (Value s) < k))"
  proof (cases "hasValue s")
    case False
    then show ?thesis by (simp add: tail_none)
  next
    case hvs: True
    show ?thesis
    proof (cases "fst (Value ?s) = mid")
      case True
      have "filter (\<lambda>p. fst p \<noteq> mid) (tail_list ?s) = Value s # tail_list s"
        using s(2) hvs hvm True by (simp add: cmm_list_def)
      with smap_inv_filter [OF tl(1), of "\<lambda>p. fst p \<noteq> mid"]
      have "smap_inv (Value s # tail_list s)" by simp
      then show ?thesis by (cases "Value s") auto
    next
      case False
      then have "Value s = Value ?s" "tail_list s = filter (\<lambda>p. fst p \<noteq> mid) (tail_list ?s)"
        using s(2) hvs hvm by (auto simp: cmm_list_def)
      with smap_inv_filter [OF tl(1)] False show ?thesis by (auto simp: cmm_front_ok_def)
    qed
  qed
  have sub: "set (tail_list s) \<subseteq> set (cmm_list m)"
  proof (cases "hasValue s")
    case True
    then have "Value s # tail_list s = filter (\<lambda>p. fst p \<noteq> mid) (cmm_list m)" using s(2) by simp
    from arg_cong [OF this, of set] show ?thesis by auto
  qed (simp add: tail_none)
  have vnt: "fst (Value s) \<notin> fst ` set (tail_list s)"
  proof (cases "hasValue s")
    case True
    have "distinct (map fst (filter (\<lambda>p. fst p \<noteq> mid) (cmm_list m)))"
      using tl(3) by (rule distinct_map_filter)
    moreover have "filter (\<lambda>p. fst p \<noteq> mid) (cmm_list m) = Value s # tail_list s" using s(2) True by simp
    ultimately show ?thesis by simp
  qed (simp add: tail_none)
  have "cmm_wf (cmm_erase mid m)"
    using s(1,3) c hv tail_s sub tl(2) vnt
    by (auto simp: cmm_wf_def Let_def cmm_compact_def split: option.splits)
  moreover have "cmm_front_ok m \<or> fst (Value ?s) = mid \<longrightarrow> cmm_front_ok (cmm_erase mid m)"
    using s(1) c tail_s by (simp add: cmm_front_ok_def)
  ultimately show ?thesis using lst s(1) by simp
qed

subsection \<open>The map as a finite map\<close>

definition cmm_view :: "CompactMosaicMap \<Rightarrow> MosaicId \<rightharpoonup> Amount" where
  "cmm_view m = map_of (cmm_list m)"

lemma dom_cmm_view: "dom (cmm_view m) = fst ` set (cmm_list m)"
  by (simp add: cmm_view_def dom_map_of_conv_image_fst)

lemma cmm_tail_tl: "cmm_wf m \<Longrightarrow> tail_list (m_storage m) = tl (cmm_list m)"
  by (auto simp: cmm_wf_def cmm_list_def tail_list_def Let_def)

lemma cmm_find_view: "cmm_wf m \<Longrightarrow> cmm_find m mid = map_option (\<lambda>v. (mid, v)) (cmm_view m mid)"
  by (simp add: cmm_find_lookup cmm_view_def)

lemma cmm_inv_wf: "cmm_inv m \<Longrightarrow> cmm_wf m"
  by (simp add: cmm_inv_def)

lemma map_of_smap_put: "map_of (smap_put k v xs) = (map_of xs)(k \<mapsto> v)"
  by (rule smap_find_put [unfolded smap_find_def])

lemma cmm_insert_view:
  assumes "cmm_wf m" "cmm_front_ok m" "fst p \<noteq> 0" "fst p \<notin> dom (cmm_view m)"
  shows "\<exists>m'. cmm_insert p m = Inr m' \<and> cmm_wf m' \<and> cmm_front_ok m'
     \<and> m_optimizedMosaicId m' = m_optimizedMosaicId m
     \<and> cmm_view m' = (cmm_view m)(fst p \<mapsto> snd p)
     \<and> (m_optimizedMosaicId m \<notin> fst ` set (tail_list (m_storage m)) \<longrightarrow>
         m_optimizedMosaicId m \<notin> fst ` set (tail_list (m_storage m')))"
proof -
  let ?opt = "m_optimizedMosaicId m"
  obtain m' where m': "cmm_insert p m = Inr m'" "cmm_wf m'" "cmm_front_ok m'" "m_optimizedMosaicId m' = ?opt"
      and list: "cmm_list m' = (case cmm_list m of [] \<Rightarrow> [p]
         | v # rest \<Rightarrow> if IsLessThan ?opt (fst p) (fst v) then p # v # rest
                    else v # smap_put (fst p) (snd p) rest)"
    using cmm_insert_ok [OF assms(1-3)] assms(4) unfolding dom_cmm_view by blast
  have p: "fst p \<notin> fst ` set (cmm_list m)" using assms(4) by (simp add: dom_cmm_view)
  have "cmm_view m' = (cmm_view m)(fst p \<mapsto> snd p)"
    using p list by (cases "cmm_list m"; cases p) (auto simp: cmm_view_def map_of_smap_put fun_eq_iff)
  moreover have "?opt \<notin> fst ` set (tl (cmm_list m'))" if "?opt \<notin> fst ` set (tl (cmm_list m))"
  proof (cases "cmm_list m")
    case Nil
    with list show ?thesis by simp
  next
    case (Cons v rest)
    with p that show ?thesis
      by (cases "IsLessThan ?opt (fst p) (fst v)") (auto simp: list fst_set_smap_put IsLessThan_def)
  qed
  ultimately show ?thesis using m' cmm_tail_tl assms(1) by metis
qed

lemma cmm_insert_inv:
  assumes "cmm_inv m" "fst p \<noteq> 0" "fst p \<notin> dom (cmm_view m)"
  shows "\<exists>m'. cmm_insert p m = Inr m' \<and> cmm_inv m' \<and> m_optimizedMosaicId m' = m_optimizedMosaicId m
     \<and> cmm_view m' = (cmm_view m)(fst p \<mapsto> snd p)"
  using cmm_insert_view [of m p] assms by (auto simp: cmm_inv_def)

lemma cmm_insert_throws:
  assumes "cmm_wf m" "fst p = 0 \<or> fst p \<in> dom (cmm_view m)"
  shows "cmm_insert p m = Inl Invalid_Argument"
  using assms by (auto simp: cmm_insert_def cmm_find_view Let_def)

lemma cmm_erase_view:
  assumes "cmm_wf m"
  shows "cmm_wf (cmm_erase mid m)" "cmm_view (cmm_erase mid m) = (cmm_view m)(mid := None)"
    "m_optimizedMosaicId (cmm_erase mid m) = m_optimizedMosaicId m"
    "cmm_front_ok m \<or> fst (Value (m_storage m)) = mid \<Longrightarrow> cmm_front_ok (cmm_erase mid m)"
  using cmm_erase_ok [OF assms, of mid] by (auto simp: cmm_view_def map_of_filter_neq)

lemma set_tl_subset: "set (tl xs) \<subseteq> set xs"
  by (cases xs) auto

lemma set_tl_filter: "set (tl (filter P xs)) \<subseteq> set (tl xs)"
proof (cases xs)
  case (Cons x ys)
  have "set (tl (filter P ys)) \<subseteq> set ys" using set_tl_subset [of "filter P ys"] by auto
  with Cons show ?thesis by auto
qed simp

lemma cmm_erase_inv:
  assumes "cmm_inv m"
  shows "cmm_inv (cmm_erase mid m)"
proof -
  have wf: "cmm_wf m" "cmm_front_ok m" using assms by (auto simp: cmm_inv_def)
  have "cmm_list (cmm_erase mid m) = filter (\<lambda>p. fst p \<noteq> mid) (cmm_list m)"
    using cmm_erase_ok [OF wf(1)] by blast
  then have "fst ` set (tail_list (m_storage (cmm_erase mid m))) \<subseteq> fst ` set (tail_list (m_storage m))"
    using cmm_tail_tl cmm_erase_view(1) wf(1) set_tl_filter by (metis image_mono)
  with assms cmm_erase_view [OF wf(1), of mid] show ?thesis by (auto simp: cmm_inv_def)
qed

lemma cmm_reinsert_ok:
  assumes "cmm_wf m" "cmm_front_ok m \<or> fst (Value (m_storage m)) = k"
  shows "\<exists>m'. cmm_reinsert k m = Inr m' \<and> cmm_wf m' \<and> cmm_front_ok m'
     \<and> m_optimizedMosaicId m' = m_optimizedMosaicId m \<and> cmm_view m' = cmm_view m
     \<and> (k = m_optimizedMosaicId m \<longrightarrow> k \<notin> fst ` set (tail_list (m_storage m')))"
proof (cases "cmm_view m k")
  case None
  then have k: "k \<notin> fst ` set (cmm_list m)" by (simp add: domIff flip: dom_cmm_view)
  have "cmm_front_ok m"
  proof (rule disjE [OF assms(2)])
    assume "fst (Value (m_storage m)) = k"
    with k have "cmm_list m = []" by (auto simp: cmm_list_def)
    with cmm_tail_tl [OF assms(1)] show ?thesis by (simp add: cmm_front_ok_def)
  qed
  moreover have "k \<notin> fst ` set (tail_list (m_storage m))"
    using k cmm_tail_tl [OF assms(1)] set_tl_subset by (metis image_mono subsetD)
  ultimately show ?thesis using assms(1) None by (auto simp: cmm_reinsert_def cmm_find_view)
next
  case (Some v)
  let ?e = "cmm_erase k m"
  note e = cmm_erase_view [OF assms(1), of k]
  have k: "k \<noteq> 0" using Some cmm_list_nonzero [OF assms(1)] dom_cmm_view by (metis domI)
  have "k \<notin> dom (cmm_view ?e)" by (simp add: e(2))
  moreover have "k \<notin> fst ` set (tail_list (m_storage ?e))"
    using calculation cmm_tail_tl [OF e(1)] set_tl_subset unfolding dom_cmm_view by (metis image_mono subsetD)
  ultimately show ?thesis
    using cmm_insert_view [OF e(1) e(4) [OF assms(2)], of "(k, v)"] k Some assms(1)
    by (auto simp: cmm_reinsert_def cmm_find_view e(2,3) fun_eq_iff)
qed

lemma cmm_optimize_ok:
  assumes "cmm_inv m"
  shows "\<exists>m'. cmm_optimize mid m = Inr m' \<and> cmm_inv m' \<and> m_optimizedMosaicId m' = mid
     \<and> cmm_view m' = cmm_view m"
proof (cases "mid = m_optimizedMosaicId m")
  case True
  with assms show ?thesis by (simp add: cmm_optimize_def)
next
  case False
  let ?m = "m\<lparr>m_optimizedMosaicId := mid\<rparr>"
  have "cmm_wf ?m" "cmm_front_ok ?m \<or> fst (Value (m_storage ?m)) = m_optimizedMosaicId m"
    using assms by (auto simp: cmm_inv_def cmm_wf_def cmm_front_ok_def Let_def)
  from cmm_reinsert_ok [OF this] obtain m1 where m1:
    "cmm_reinsert (m_optimizedMosaicId m) ?m = Inr m1" "cmm_wf m1" "cmm_front_ok m1"
    "m_optimizedMosaicId m1 = mid" "cmm_view m1 = cmm_view ?m" by auto
  from cmm_reinsert_ok [of m1 mid] m1 obtain m2 where
    "cmm_reinsert mid m1 = Inr m2" "cmm_wf m2" "cmm_front_ok m2" "m_optimizedMosaicId m2 = mid"
    "cmm_view m2 = cmm_view m1" "mid \<notin> fst ` set (tail_list (m_storage m2))" by auto
  with m1 False show ?thesis
    by (simp add: cmm_optimize_def cmm_inv_def cmm_view_def cmm_list_def)
qed

text \<open>The order of the list is a function of the contents and the optimized mosaic.\<close>

lemma cmm_list_canonical:
  assumes "cmm_inv m1" "cmm_inv m2" "m_optimizedMosaicId m1 = m_optimizedMosaicId m2"
    "cmm_view m1 = cmm_view m2"
  shows "cmm_list m1 = cmm_list m2"
proof -
  let ?opt = "m_optimizedMosaicId m2"
  have order: "fst v = ?opt \<or> (?opt \<notin> fst ` set (v # rest) \<and> (\<forall>k \<in> fst ` set rest. fst v < k))"
    if "cmm_inv m" "cmm_list m = v # rest" "m_optimizedMosaicId m = ?opt" for m v rest
    using that by (auto simp: cmm_inv_def cmm_list_def cmm_front_ok_def split: if_splits)
  show ?thesis
  proof (cases "cmm_list m1")
    case Nil
    then show ?thesis using assms(4) by (simp add: cmm_view_def)
  next
    case (Cons v1 r1)
    then obtain v2 r2 where l2: "cmm_list m2 = v2 # r2"
      using assms(4) by (cases "cmm_list m2") (auto simp: cmm_view_def fun_eq_iff split: if_splits)
    have keys: "insert (fst v1) (fst ` set r1) = insert (fst v2) (fst ` set r2)"
      using arg_cong [OF assms(4), of dom] by (simp add: dom_cmm_view Cons l2)
    have d: "fst v1 \<notin> fst ` set r1" "fst v2 \<notin> fst ` set r2" "smap_inv r1" "smap_inv r2"
      using assms(1,2) Cons l2 by (auto simp: cmm_inv_def cmm_wf_def cmm_list_def Let_def split: if_splits)
    have fst_eq: "fst v1 = fst v2"
    proof -
      have o1: "fst v1 = ?opt \<or> ?opt \<notin> insert (fst v1) (fst ` set r1) \<and> (\<forall>k \<in> fst ` set r1. fst v1 < k)"
        using order [OF assms(1) Cons assms(3)] by simp
      have o2: "fst v2 = ?opt \<or> ?opt \<notin> insert (fst v2) (fst ` set r2) \<and> (\<forall>k \<in> fst ` set r2. fst v2 < k)"
        using order [OF assms(2) l2] by simp
      have in1: "fst v1 = fst v2 \<or> fst v1 \<in> fst ` set r2" "fst v1 = fst v2 \<or> fst v2 \<in> fst ` set r1"
        using keys d(1,2) by (metis insert_iff)+
      show ?thesis
      proof (rule ccontr)
        assume ne: "fst v1 \<noteq> fst v2"
        then have "fst v2 \<noteq> ?opt" "fst v1 \<noteq> ?opt" using o1 o2 in1 by (metis insert_iff)+
        then show False using o1 o2 in1 ne by (meson order_less_asym)
      qed
    qed
    have eq: "map_of (v1 # r1) = map_of (v2 # r2)" using assms(4) by (simp add: cmm_view_def Cons l2)
    have "snd v1 = snd v2" using fun_cong [OF eq, of "fst v1"] fst_eq by simp
    then have "v1 = v2" using fst_eq by (simp add: prod_eq_iff)
    moreover have "smap_find r1 = smap_find r2"
    proof
      fix k
      show "smap_find r1 k = smap_find r2 k"
      proof (cases "k = fst v1")
        case True
        then show ?thesis using d(1,2) fst_eq by (metis map_of_eq_None_iff smap_find_def)
      next
        case False
        then show ?thesis using fun_cong [OF eq, of k] fst_eq by (simp add: smap_find_def)
      qed
    qed
    ultimately show ?thesis using smap_eqI [OF d(3,4)] Cons l2 by simp
  qed
qed

subsection \<open>Assignment through an iterator\<close>

lemma map_fst_smap_put: "smap_inv xs \<Longrightarrow> k \<in> fst ` set xs \<Longrightarrow> map fst (smap_put k v xs) = map fst xs"
proof (induction xs)
  case (Cons x xs)
  then have "fst x \<noteq> k \<Longrightarrow> k \<in> fst ` set xs \<and> fst x < k" by (cases x) auto
  with Cons show ?case by (cases x) (auto dest: order_less_asym)
qed simp

lemma map_of_update_nth:
  "distinct (map fst xs) \<Longrightarrow> i < length xs \<Longrightarrow> fst (xs ! i) = k \<Longrightarrow>
     map_of (xs[i := (k, a)]) = (map_of xs)(k \<mapsto> a)"
proof (induction xs arbitrary: i)
  case (Cons x xs)
  show ?case
  proof (cases i)
    case 0
    with Cons.prems show ?thesis by (auto simp: fun_eq_iff)
  next
    case (Suc j)
    then have "fst x \<noteq> k" using Cons.prems by (metis distinct.simps(2) length_Cons list.map(2) nth_Cons_Suc nth_map nth_mem length_map Suc_less_SucD)
    with Suc Cons show ?thesis by (auto simp: fun_eq_iff)
  qed
qed simp

lemma map_fst_update_nth: "i < length xs \<Longrightarrow> fst (xs ! i) = k \<Longrightarrow> map fst (xs[i := (k, a)]) = map fst xs"
  by (metis fst_conv length_map list_update_id map_update nth_map)

lemma cmm_assign_tail:
  assumes "cmm_wf m" "cmm_find_location m mid = Some loc" "mid \<noteq> fst (Value (m_storage m))"
  shows "\<exists>n. m_storage (cmm_assign m mid loc a) = (m_storage m)\<lparr>pNextStorage := Some n\<rparr> \<and> sls_wf n \<and> 1 \<le> ArraySize n
     \<and> map fst (sls_list n) = map fst (tail_list (m_storage m))
     \<and> map_of (sls_list n) = (map_of (tail_list (m_storage m)))(mid \<mapsto> a)"
proof -
  let ?s = "m_storage m"
  have dist: "distinct (map fst (tail_list ?s))" and inv: "smap_inv (tail_list ?s)"
    using assms(1) smap_inv_distinct by (auto simp: cmm_wf_def Let_def)
  show ?thesis
  proof (cases loc)
    case Loc_Value
    then show ?thesis
      using assms(2,3) by (auto simp: cmm_find_location_def Let_def split: if_splits option.splits)
  next
    case (Loc_Array i)
    then obtain n where Some: "pNextStorage ?s = Some n"
      using assms(2) by (auto simp: cmm_find_location_def hasArray_def Let_def split: if_splits option.splits)
    note n = tail_list_lookup [OF assms(1) Some]
    have "find_in_array (ArrayStorage n) 0 (ArraySize n) mid = Some i"
      using assms(2) Loc_Array Some
      by (auto simp: cmm_find_location_def storage_array_def arraySize_def Let_def split: if_splits option.splits)
    then have i: "i < ArraySize n" "fst (ArrayStorage n ! i) = mid" using find_in_array_Some by fastforce+
    have nth: "tail_list ?s ! i = ArrayStorage n ! i" "i < length (tail_list ?s)"
      using n(1,2) i by (auto simp: nth_append)
    define n' where "n' = n\<lparr>ArrayStorage := (ArrayStorage n)[i := (mid, a)]\<rparr>"
    have "sls_list n' = (tail_list ?s)[i := (mid, a)]"
      using n(1,2) i by (simp add: n'_def sls_list_def list_update_append take_update_swap)
    moreover have "m_storage (cmm_assign m mid loc a) = ?s\<lparr>pNextStorage := Some n'\<rparr>" "sls_wf n'" "1 \<le> ArraySize n'"
      using Loc_Array Some i n(4,5) by (auto simp: cmm_assign_def n'_def sls_wf_def Let_def split: option.splits)
    ultimately show ?thesis
      using map_of_update_nth [OF dist nth(2), of mid a] map_fst_update_nth [OF nth(2), of mid a] nth(1) i(2)
      by auto
  next
    case Loc_Map
    have hm: "hasMap ?s" "smap_contains (storage_map ?s) mid"
      using assms(2) Loc_Map by (auto simp: cmm_find_location_def Let_def split: if_splits option.splits)
    then obtain n mp where Some: "pNextStorage ?s = Some n" "pMapStorage n = Some mp"
      by (auto simp: hasMap_def split: option.splits)
    note n = tail_list_lookup [OF assms(1) Some(1)]
    have mid: "mid \<in> fst ` set mp"
      using hm(2) Some by (auto simp: storage_map_def smap_contains_def smap_find_def
          simp flip: dom_map_of_conv_image_fst)
    have tl: "tail_list ?s = take (ArraySize n) (ArrayStorage n) @ mp" using n(1) Some by simp
    have inv_mp: "smap_inv mp" and nin: "mid \<notin> fst ` set (take (ArraySize n) (ArrayStorage n))"
      using inv dist mid by (auto simp: tl smap_inv_def sorted_wrt_append)
    define n' where "n' = n\<lparr>pMapStorage := Some (smap_put mid a mp)\<rparr>"
    have "smap_put mid a mp \<noteq> []" by (metis map_fst_smap_put [OF inv_mp mid] mid empty_iff image_empty list.set(1) map_is_Nil_conv)
    then have "m_storage (cmm_assign m mid loc a) = ?s\<lparr>pNextStorage := Some n'\<rparr>" "sls_wf n'" "1 \<le> ArraySize n'"
      using Loc_Map Some n(4,5) by (auto simp: cmm_assign_def n'_def sls_wf_def Let_def)
    moreover have "sls_list n' = take (ArraySize n) (ArrayStorage n) @ smap_put mid a mp"
      by (simp add: n'_def sls_list_def)
    moreover have "map_of (take (ArraySize n) (ArrayStorage n)) mid = None"
      using nin by (simp add: map_of_eq_None_iff)
    ultimately show ?thesis
      using map_fst_smap_put [OF inv_mp mid]
      by (auto simp: tl map_of_smap_put fun_eq_iff map_add_def split: option.splits)
  qed
qed

lemma cmm_inv_cong:
  assumes "cmm_inv m" "m_optimizedMosaicId m' = m_optimizedMosaicId m"
    "fst (Value (m_storage m')) = fst (Value (m_storage m))"
    "map fst (tail_list (m_storage m')) = map fst (tail_list (m_storage m))"
    "pNextStorage (m_storage m') = None \<longleftrightarrow> pNextStorage (m_storage m) = None"
    "case pNextStorage (m_storage m') of None \<Rightarrow> True | Some n \<Rightarrow> sls_wf n \<and> 1 \<le> ArraySize n"
  shows "cmm_inv m'"
proof -
  have "fst ` set (tail_list (m_storage m')) = fst ` set (tail_list (m_storage m))"
    using assms(4) by (metis list.set_map)
  with assms show ?thesis
    by (simp add: cmm_inv_def cmm_wf_def cmm_front_ok_def smap_inv_def hasValue_def Let_def)
qed

lemma cmm_assign_ok:
  assumes "cmm_inv m" "cmm_find_location m mid = Some loc"
  shows "cmm_inv (cmm_assign m mid loc a) \<and> cmm_view (cmm_assign m mid loc a) = (cmm_view m)(mid \<mapsto> a)
     \<and> m_optimizedMosaicId (cmm_assign m mid loc a) = m_optimizedMosaicId m"
proof -
  let ?s = "m_storage m" and ?m = "cmm_assign m mid loc a"
  have wf: "cmm_wf m" using assms(1) by (rule cmm_inv_wf)
  have hv: "hasValue ?s"
    using assms(2) by (auto simp: cmm_find_location_def cmm_empty_def Let_def split: if_splits)
  have sls: "case pNextStorage ?s of None \<Rightarrow> True | Some n \<Rightarrow> sls_wf n \<and> 1 \<le> ArraySize n"
    using wf by (auto simp: cmm_wf_def Let_def)
  have opt: "m_optimizedMosaicId ?m = m_optimizedMosaicId m" by (simp add: cmm_assign_def Let_def)
  show ?thesis
  proof (cases "mid = fst (Value ?s)")
    case True
    then have "loc = Loc_Value"
      using assms(2) hv by (auto simp: cmm_find_location_def cmm_empty_def Let_def split: if_splits)
    then have st: "m_storage ?m = ?s\<lparr>Value := (mid, a)\<rparr>" using True by (simp add: cmm_assign_def Let_def)
    then have "cmm_inv ?m" using assms(1) opt True sls by (auto intro: cmm_inv_cong [of m])
    then show ?thesis using opt st hv True by (auto simp: cmm_list_def cmm_view_def hasValue_def)
  next
    case False
    obtain n where n: "m_storage ?m = ?s\<lparr>pNextStorage := Some n\<rparr>" "sls_wf n" "1 \<le> ArraySize n"
        "map fst (sls_list n) = map fst (tail_list ?s)" "map_of (sls_list n) = (map_of (tail_list ?s))(mid \<mapsto> a)"
      using cmm_assign_tail [OF wf assms(2) False] by blast
    have "pNextStorage ?s \<noteq> None"
    proof
      assume "pNextStorage ?s = None"
      then have "sls_list n = []" using n(4) by (simp add: tail_list_def)
      with fun_cong [OF n(5), of mid] show False by simp
    qed
    then have "cmm_inv ?m" using assms(1) opt n by (auto intro: cmm_inv_cong [of m])
    then show ?thesis using opt n(1,5) hv False by (auto simp: cmm_list_def cmm_view_def hasValue_def fun_eq_iff)
  qed
qed

subsection \<open>Iteration\<close>

lemma cmm_size_length: "cmm_wf m \<Longrightarrow> cmm_size m = length (cmm_list m)"
  by (auto simp: cmm_size_def cmm_empty_def cmm_list_def cmm_wf_def tail_list_def sls_list_def sls_wf_def
      hasArray_def hasMap_def arraySize_def storage_map_def smap_size_def Let_def split: option.splits)

definition bi_remaining :: "FirstLevelStorage \<Rightarrow> basic_iterator \<Rightarrow> Mosaic list" where
  "bi_remaining s it =
     (case bi_stage it of
        Stage_Start \<Rightarrow> if hasValue s then Value s # tail_list s else []
      | Stage_Value \<Rightarrow> Value s # tail_list s
      | Stage_Array \<Rightarrow> drop (bi_arrayIndex it) (tail_list s)
      | Stage_Map \<Rightarrow> bi_mapIterator it
      | Stage_End \<Rightarrow> [])"

definition bi_valid :: "FirstLevelStorage \<Rightarrow> basic_iterator \<Rightarrow> bool" where
  "bi_valid s it \<longleftrightarrow>
     bi_current it = (case bi_remaining s it of [] \<Rightarrow> None | p # _ \<Rightarrow> Some p)
     \<and> (case bi_stage it of
          Stage_Start \<Rightarrow> False
        | Stage_Value \<Rightarrow> True
        | Stage_Array \<Rightarrow> (\<exists>n. pNextStorage s = Some n \<and> bi_arrayIndex it < ArraySize n)
        | Stage_Map \<Rightarrow> bi_mapIterator it \<noteq> []
        | Stage_End \<Rightarrow> True)"

lemma bi_setArray_valid:
  assumes "cmm_wf m" "s = m_storage m" "pNextStorage s = Some n" "bi_arrayIndex it < ArraySize n"
  shows "bi_valid s (bi_setArray s it) \<and> bi_remaining s (bi_setArray s it) = drop (bi_arrayIndex it) (tail_list s)"
proof -
  note n = tail_list_lookup [OF assms(1) assms(3) [unfolded assms(2)]]
  have "drop (bi_arrayIndex it) (tail_list s)
      = ArrayStorage n ! bi_arrayIndex it # drop (Suc (bi_arrayIndex it)) (tail_list s)"
    using n(1,2) assms by (subst Cons_nth_drop_Suc [symmetric]) (auto simp: nth_append)
  with assms(3,4) show ?thesis
    by (simp add: bi_setArray_def bi_valid_def bi_remaining_def storage_array_def)
qed

lemma bi_advance_valid:
  assumes "cmm_wf m" "s = m_storage m" "bi_valid s it" "bi_remaining s it = p # rest"
  shows "bi_stage it \<noteq> Stage_End \<and> bi_valid s (bi_advance s it) \<and> bi_remaining s (bi_advance s it) = rest"
proof (cases "bi_stage it")
  case Stage_Value
  then have rest: "rest = tail_list s" using assms(4) by (simp add: bi_remaining_def)
  show ?thesis
  proof (cases "pNextStorage s")
    case None
    with Stage_Value rest show ?thesis
      by (simp add: bi_advance_def bi_setEnd_def bi_valid_def bi_remaining_def hasArray_def tail_list_def Let_def)
  next
    case (Some n)
    moreover have "0 < ArraySize n" using tail_list_lookup(4) [OF assms(1)] Some assms(2) by fastforce
    ultimately show ?thesis
      using Stage_Value rest bi_setArray_valid [OF assms(1,2) Some, of "it\<lparr>bi_arrayIndex := 0\<rparr>"]
      by (simp add: bi_advance_def hasArray_def Let_def)
  qed
next
  case Stage_Array
  then obtain n where n: "pNextStorage s = Some n" "bi_arrayIndex it < ArraySize n"
    using assms(3) by (auto simp: bi_valid_def)
  note l = tail_list_lookup [OF assms(1) n(1) [unfolded assms(2)]]
  have rest: "rest = drop (Suc (bi_arrayIndex it)) (tail_list s)"
    using assms(4) Stage_Array by (simp add: bi_remaining_def drop_Suc) (metis drop_tl list.sel(3))
  show ?thesis
  proof (cases "Suc (bi_arrayIndex it) = ArraySize n")
    case True
    have "drop (ArraySize n) (tail_list s) = (case pMapStorage n of None \<Rightarrow> [] | Some mp \<Rightarrow> mp)"
      using l(1,2) assms(2) by simp
    then show ?thesis
      using Stage_Array n l(5) rest True
      by (auto simp: bi_advance_def bi_setEnd_def bi_setMap_def bi_valid_def bi_remaining_def arraySize_def
          hasMap_def storage_map_def sls_wf_def Let_def split: option.splits)
  next
    case False
    then show ?thesis
      using Stage_Array n rest
        bi_setArray_valid [OF assms(1,2) n(1), of "it\<lparr>bi_arrayIndex := bi_arrayIndex it + 1\<rparr>"]
      by (simp add: bi_advance_def arraySize_def Let_def)
  qed
qed (use assms(3,4) in \<open>auto simp: bi_valid_def bi_remaining_def bi_advance_def bi_setEnd_def bi_setMap_def Let_def
      split: list.splits\<close>)

lemma bi_collect_ok:
  assumes "cmm_wf m" "s = m_storage m"
  shows "bi_valid s it \<Longrightarrow> length (bi_remaining s it) \<le> fuel \<Longrightarrow> bi_collect fuel s it = Inr (bi_remaining s it)"
proof (induction fuel arbitrary: it)
  case 0
  then show ?case by (simp add: bi_valid_def)
next
  case (Suc fuel)
  show ?case
  proof (cases "bi_remaining s it")
    case Nil
    with Suc.prems show ?thesis by (simp add: bi_valid_def)
  next
    case (Cons p rest)
    then have "bi_current it = Some p" using Suc.prems(1) by (simp add: bi_valid_def)
    moreover have "bi_collect fuel s (bi_advance s it) = Inr rest"
      using bi_advance_valid [OF assms Suc.prems(1) Cons] Suc.IH [of "bi_advance s it"] Suc.prems(2) Cons by simp
    ultimately show ?thesis
      using bi_advance_valid [OF assms Suc.prems(1) Cons] Cons by (simp add: bi_next_def)
  qed
qed

lemma cmm_iterate_ok:
  assumes "cmm_wf m"
  shows "cmm_iterate m = Inr (cmm_list m)"
proof -
  let ?s = "m_storage m"
  have "bi_valid ?s (bi_begin ?s) \<and> bi_remaining ?s (bi_begin ?s) = cmm_list m"
    by (simp add: bi_begin_def bi_advance_def bi_setEnd_def bi_valid_def bi_remaining_def cmm_list_def)
  with bi_collect_ok [OF assms refl, of "bi_begin ?s" "cmm_size m"] cmm_size_length [OF assms] show ?thesis
    by (simp add: cmm_iterate_def)
qed

subsection \<open>The contract of the map\<close>

text \<open>
  What the clients of the map rely on: the view after every operation, when an insertion throws,
  and that an iteration lists the view. The lemmas are the ones of the loops over the map.
\<close>

locale optimized_map =
  fixes view :: "'m \<Rightarrow> MosaicId \<rightharpoonup> Amount"
    and inv :: "'m \<Rightarrow> bool"
    and opt :: "'m \<Rightarrow> MosaicId"
    and insert :: "Mosaic \<Rightarrow> 'm \<Rightarrow> exn + 'm"
    and erase :: "MosaicId \<Rightarrow> 'm \<Rightarrow> 'm"
    and optimize :: "MosaicId \<Rightarrow> 'm \<Rightarrow> exn + 'm"
    and iterate :: "'m \<Rightarrow> exn + Mosaic list"
  assumes insert_ok: "inv m \<Longrightarrow> fst p \<noteq> 0 \<Longrightarrow> fst p \<notin> dom (view m) \<Longrightarrow>
      \<exists>m'. insert p m = Inr m' \<and> inv m' \<and> opt m' = opt m \<and> view m' = (view m)(fst p \<mapsto> snd p)"
    and insert_throws: "inv m \<Longrightarrow> fst p = 0 \<or> fst p \<in> dom (view m) \<Longrightarrow> insert p m = Inl Invalid_Argument"
    and erase_ok: "inv m \<Longrightarrow> inv (erase k m) \<and> opt (erase k m) = opt m \<and> view (erase k m) = (view m)(k := None)"
    and optimize_ok: "inv m \<Longrightarrow> \<exists>m'. optimize k m = Inr m' \<and> inv m' \<and> opt m' = k \<and> view m' = view m"
    and iterate_ok: "inv m \<Longrightarrow> \<exists>xs. iterate m = Inr xs \<and> map_of xs = view m \<and> distinct (map fst xs)
      \<and> 0 \<notin> fst ` set xs"
begin

lemma insert_loop:
  assumes "inv m" "distinct (map fst xs)" "0 \<notin> fst ` set xs" "fst ` set xs \<inter> dom (view m) = {}"
  shows "\<exists>m'. rfold insert xs m = Inr m' \<and> inv m' \<and> opt m' = opt m \<and> view m' = view m ++ map_of xs"
  using assms
proof (induction xs arbitrary: m)
  case (Cons p xs)
  then obtain m1 where m1: "insert p m = Inr m1" "inv m1" "opt m1 = opt m" "view m1 = (view m)(fst p \<mapsto> snd p)"
    using insert_ok [of m p] by auto
  have "fst ` set xs \<inter> dom (view m1) = {}" using Cons.prems m1(4) by auto
  with Cons.IH [OF m1(2)] Cons.prems obtain m' where
    m': "rfold insert xs m1 = Inr m'" "inv m'" "opt m' = opt m1" "view m' = view m1 ++ map_of xs" by auto
  have "fst p \<notin> dom (map_of xs)" using Cons.prems(2) by (simp add: dom_map_of_conv_image_fst)
  then have "view m1 ++ map_of xs = view m ++ map_of (p # xs)"
    by (auto simp: m1(4) map_add_def fun_eq_iff domIff split: option.splits)
  then have "view m' = view m ++ map_of (p # xs)" by (simp only: m'(4))
  then show ?case using m1(1,3) m'(1-3) by (simp del: map_of.simps)
qed simp

lemma insert_loop_throws:
  assumes "inv m" "distinct (map fst xs)" "0 \<notin> fst ` set xs" "fst ` set xs \<inter> dom (view m) \<noteq> {}"
  shows "rfold insert xs m = Inl Invalid_Argument"
  using assms
proof (induction xs arbitrary: m)
  case (Cons p xs)
  show ?case
  proof (cases "fst p \<in> dom (view m)")
    case True
    with Cons.prems insert_throws show ?thesis by simp
  next
    case False
    with Cons.prems obtain m1 where m1: "insert p m = Inr m1" "inv m1" "view m1 = (view m)(fst p \<mapsto> snd p)"
      using insert_ok [of m p] by auto
    have "fst ` set xs \<inter> dom (view m1) \<noteq> {}" using Cons.prems(4) False m1(3) by auto
    with Cons m1 show ?thesis by simp
  qed
qed simp

end

lemma cmm_iterate_view:
  "cmm_inv m \<Longrightarrow> \<exists>xs. cmm_iterate m = Inr xs \<and> map_of xs = cmm_view m \<and> distinct (map fst xs)
      \<and> 0 \<notin> fst ` set xs"
  using cmm_iterate_ok [of m] cmm_list_distinct [of m] cmm_list_nonzero [of m]
  by (intro exI [of _ "cmm_list m"]) (simp add: cmm_inv_def cmm_view_def)

interpretation cmm: optimized_map cmm_view cmm_inv m_optimizedMosaicId cmm_insert cmm_erase cmm_optimize cmm_iterate
proof
  show "\<exists>m'. cmm_insert p m = Inr m' \<and> cmm_inv m' \<and> m_optimizedMosaicId m' = m_optimizedMosaicId m
      \<and> cmm_view m' = (cmm_view m)(fst p \<mapsto> snd p)"
    if "cmm_inv m" "fst p \<noteq> 0" "fst p \<notin> dom (cmm_view m)" for m p
    using that by (rule cmm_insert_inv)
  show "cmm_insert p m = Inl Invalid_Argument" if "cmm_inv m" "fst p = 0 \<or> fst p \<in> dom (cmm_view m)" for m p
    using cmm_inv_wf [OF that(1)] that(2) by (rule cmm_insert_throws)
  show "cmm_inv (cmm_erase k m) \<and> m_optimizedMosaicId (cmm_erase k m) = m_optimizedMosaicId m
      \<and> cmm_view (cmm_erase k m) = (cmm_view m)(k := None)" if "cmm_inv m" for m k
    using cmm_erase_inv [OF that] cmm_erase_view [OF cmm_inv_wf [OF that]] by blast
qed (fact cmm_optimize_ok, fact cmm_iterate_view)

subsection \<open>Histories of the map\<close>

lemma cmm_new_inv [simp, intro]: "cmm_inv cmm_new" and cmm_new_view [simp]: "cmm_view cmm_new = Map.empty"
  and cmm_new_opt [simp]: "m_optimizedMosaicId cmm_new = 0"
  by (simp_all add: cmm_new_def cmm_inv_def cmm_wf_def cmm_front_ok_def cmm_view_def cmm_list_def tail_list_def
      hasValue_def Let_def)

text \<open>The calls a client makes; an insertion that throws leaves the map as it was.\<close>

datatype cmm_call = Call_insert Mosaic | Call_erase MosaicId | Call_optimize MosaicId

fun cmm_step :: "cmm_call \<Rightarrow> CompactMosaicMap \<Rightarrow> CompactMosaicMap" where
  "cmm_step (Call_insert p) m = (case cmm_insert p m of Inl _ \<Rightarrow> m | Inr m' \<Rightarrow> m')"
| "cmm_step (Call_erase k) m = cmm_erase k m"
| "cmm_step (Call_optimize k) m = (case cmm_optimize k m of Inl _ \<Rightarrow> m | Inr m' \<Rightarrow> m')"

text \<open>The specification: a finite map and the optimized mosaic.\<close>

fun spec_step :: "cmm_call \<Rightarrow> (MosaicId \<rightharpoonup> Amount) \<times> MosaicId \<Rightarrow> (MosaicId \<rightharpoonup> Amount) \<times> MosaicId" where
  "spec_step (Call_insert p) (f, k0) =
     (if fst p = 0 \<or> f (fst p) \<noteq> None then (f, k0) else (f(fst p \<mapsto> snd p), k0))"
| "spec_step (Call_erase k) (f, k0) = (f(k := None), k0)"
| "spec_step (Call_optimize k) (f, k0) = (f, k)"

lemma cmm_step_refines:
  assumes "cmm_inv m"
  shows "cmm_inv (cmm_step c m) \<and> (cmm_view (cmm_step c m), m_optimizedMosaicId (cmm_step c m))
     = spec_step c (cmm_view m, m_optimizedMosaicId m)"
proof (cases c)
  case (Call_insert p)
  show ?thesis
  proof (cases "fst p = 0 \<or> fst p \<in> dom (cmm_view m)")
    case True
    with cmm.insert_throws [OF assms True] assms Call_insert show ?thesis by (auto simp: domIff)
  next
    case False
    with cmm.insert_ok [OF assms, of p] Call_insert show ?thesis by auto
  qed
next
  case (Call_erase k)
  with cmm.erase_ok [OF assms] show ?thesis by simp
next
  case (Call_optimize k)
  with cmm.optimize_ok [OF assms, of k] show ?thesis by auto
qed

lemma cmm_run_refines:
  assumes "cmm_inv m"
  shows "cmm_inv (fold cmm_step cs m)
    \<and> (cmm_view (fold cmm_step cs m), m_optimizedMosaicId (fold cmm_step cs m))
      = fold spec_step cs (cmm_view m, m_optimizedMosaicId m)"
  using assms
proof (induction cs arbitrary: m)
  case (Cons c cs)
  from Cons.IH [of "cmm_step c m"] cmm_step_refines [OF Cons.prems, of c] show ?case by simp
qed simp

lemma IsLessThan_sorted:
  assumes "cmm_inv m"
  shows "sorted_wrt (IsLessThan (m_optimizedMosaicId m)) (map fst (cmm_list m))"
proof (cases "cmm_list m")
  case (Cons v rest)
  let ?o = "m_optimizedMosaicId m"
  have r: "sorted_wrt (<) (map fst rest)" "?o \<notin> fst ` set rest" "fst v \<notin> fst ` set rest"
      "fst v = ?o \<or> (\<forall>k \<in> fst ` set rest. fst v < k)"
    using assms Cons
    by (auto simp: cmm_inv_def cmm_wf_def cmm_list_def cmm_front_ok_def smap_inv_def Let_def split: if_splits)
  have "sorted_wrt (IsLessThan ?o) (map fst rest)"
    using r(1) by (rule sorted_wrt_mono_rel [rotated]) (use r(2) in \<open>auto simp: IsLessThan_def\<close>)
  moreover have "IsLessThan ?o (fst v) k" if "k \<in> fst ` set rest" for k
    using r(2,3,4) that by (auto simp: IsLessThan_def)
  ultimately show ?thesis by (simp add: Cons)
qed simp

text \<open>
  C25. Whatever calls a client has made on a new map, the map behaves as the finite map that the same
  calls build: a lookup returns the mosaic of the finite map, the size is its number of mosaics,
  and a range-based for loop ends normally and lists each of its mosaics once, first the
  optimized one when it is present and the others by increasing id.
\<close>

theorem compact_map_refines_finite_map:
  "case fold spec_step cs (Map.empty, 0) of (f, k0) \<Rightarrow>
     let m = fold cmm_step cs cmm_new
     in cmm_find m k = map_option (Pair k) (f k) \<and> cmm_size m = card (dom f)
        \<and> (\<exists>xs. cmm_iterate m = Inr xs \<and> map_of xs = f \<and> sorted_wrt (IsLessThan k0) (map fst xs))"
proof -
  let ?m = "fold cmm_step cs cmm_new"
  have r: "cmm_inv ?m" "fold spec_step cs (Map.empty, 0) = (cmm_view ?m, m_optimizedMosaicId ?m)"
    using cmm_run_refines [OF cmm_new_inv, of cs] by simp_all
  show ?thesis
    using cmm_find_view [OF cmm_inv_wf [OF r(1)], of k] cmm_size_length [OF cmm_inv_wf [OF r(1)]]
      cmm_iterate_ok [OF cmm_inv_wf [OF r(1)]] IsLessThan_sorted [OF r(1)]
      card_dom_map_of [OF cmm_list_distinct [OF cmm_inv_wf [OF r(1)]]]
    by (simp add: r(2) cmm_view_def)
qed

text \<open>
  The order in which a map is iterated does not depend on its history: two maps that were built by
  different calls but hold the same mosaics and are optimized for the same mosaic are iterated
  identically.
\<close>

theorem compact_map_iteration_canonical:
  assumes "fold spec_step cs1 (Map.empty, 0) = fold spec_step cs2 (Map.empty, 0)"
  shows "cmm_iterate (fold cmm_step cs1 cmm_new) = cmm_iterate (fold cmm_step cs2 cmm_new)"
proof -
  have inv: "cmm_inv (fold cmm_step cs cmm_new)" for cs
    using cmm_run_refines [OF cmm_new_inv] by blast
  have "cmm_list (fold cmm_step cs1 cmm_new) = cmm_list (fold cmm_step cs2 cmm_new)"
    using cmm_run_refines [OF cmm_new_inv, of cs1] cmm_run_refines [OF cmm_new_inv, of cs2] assms
    by (intro cmm_list_canonical) (auto simp: prod_eq_iff)
  with cmm_iterate_ok [OF cmm_inv_wf [OF inv]] show ?thesis by simp
qed

theorem compact_map_iteration_canonical_witness:
  "fold spec_step [Call_insert (7, 5), Call_insert (2, 6), Call_optimize 7] (Map.empty, 0)
     = fold spec_step [Call_optimize 7, Call_insert (2, 6), Call_insert (7, 5)] (Map.empty, 0)
   \<and> cmm_iterate (fold cmm_step [Call_insert (7, 5), Call_insert (2, 6), Call_optimize 7] cmm_new)
     = cmm_iterate (fold cmm_step [Call_optimize 7, Call_insert (2, 6), Call_insert (7, 5)] cmm_new)"
proof -
  have "fold spec_step [Call_insert (7, 5), Call_insert (2, 6), Call_optimize 7] (Map.empty, 0)
     = fold spec_step [Call_optimize 7, Call_insert (2, 6), Call_insert (7, 5)] (Map.empty, 0)"
    by (simp add: fun_upd_twist)
  from compact_map_iteration_canonical [OF this] this show ?thesis by (rule conjI [rotated])
qed

text \<open>
  An insertion into a map throws exactly when the mosaic id is the reserved id 0 or already has an
  entry, and then it throws \<open>catapult_invalid_argument\<close>; otherwise it ends normally and the map
  has one mosaic more.
\<close>

theorem compact_map_insert_throws:
  "let m = fold cmm_step cs cmm_new
   in case cmm_insert p m of
        Inl e \<Rightarrow> e = Invalid_Argument \<and> (fst p = 0 \<or> fst p \<in> dom (cmm_find m))
      | Inr m' \<Rightarrow> fst p \<noteq> 0 \<and> cmm_find m (fst p) = None \<and> cmm_find m' (fst p) = Some p
          \<and> cmm_size m' = cmm_size m + 1"
proof -
  let ?m = "fold cmm_step cs cmm_new"
  have inv: "cmm_inv ?m" using cmm_run_refines [OF cmm_new_inv] by blast
  note wf = cmm_inv_wf [OF inv]
  show ?thesis
  proof (cases "fst p = 0 \<or> fst p \<in> dom (cmm_view ?m)")
    case True
    with cmm.insert_throws [OF inv True] cmm_find_view [OF wf] show ?thesis by auto
  next
    case False
    then obtain m' where m': "cmm_insert p ?m = Inr m'" "cmm_inv m'" "cmm_view m' = (cmm_view ?m)(fst p \<mapsto> snd p)"
      using cmm.insert_ok [OF inv] by blast
    have "card (dom (cmm_view m')) = card (dom (cmm_view ?m)) + 1"
      using False m'(3) by (simp add: cmm_view_def finite_dom_map_of)
    then have "cmm_size m' = cmm_size ?m + 1"
      using cmm_size_length wf cmm_inv_wf [OF m'(2)] card_dom_map_of cmm_list_distinct
      unfolding cmm_view_def by metis
    with False m' cmm_find_view [OF wf] cmm_find_view [OF cmm_inv_wf [OF m'(2)]] show ?thesis
      by (auto simp: domIff Let_def)
  qed
qed

end
