(* ===== verification/AccountBalances.thy ===== *)
theory AccountBalances
  imports CompactMosaicMap
begin

section \<open>Account balances (catapult/state/AccountBalances)\<close>

text \<open>
  The balances of an account: a compact mosaic map and a second copy of its optimized mosaic id.
  Amounts are 64-bit words and \<open>credit\<close> wraps, as the code does. The theorems show that the
  component implements a total function from mosaic ids to amounts, on every branch, and that a
  copy is iterated like its original.
\<close>

subsection \<open>State and operations\<close>

record AccountBalances =
  m_balances :: CompactMosaicMap
  ab_m_optimizedMosaicId :: MosaicId

definition ab_new :: AccountBalances where
  "ab_new = \<lparr>m_balances = cmm_new, ab_m_optimizedMosaicId = 0\<rparr>"

definition IsZero :: "Amount \<Rightarrow> bool" where
  "IsZero amount \<longleftrightarrow> 0 = amount"

definition ab_size :: "AccountBalances \<Rightarrow> nat" where
  "ab_size b = cmm_size (m_balances b)"

definition ab_optimizedMosaicId :: "AccountBalances \<Rightarrow> MosaicId" where
  "ab_optimizedMosaicId b = ab_m_optimizedMosaicId b"

text \<open>\<open>begin()\<close> to \<open>end()\<close>.\<close>

definition ab_iterate :: "AccountBalances \<Rightarrow> exn + Mosaic list" where
  "ab_iterate b = cmm_iterate (m_balances b)"

definition ab_get :: "AccountBalances \<Rightarrow> MosaicId \<Rightarrow> Amount" where
  "ab_get b mosaicId = (case cmm_find (m_balances b) mosaicId of None \<Rightarrow> 0 | Some mosaic \<Rightarrow> snd mosaic)"

definition ab_optimize :: "MosaicId \<Rightarrow> AccountBalances \<Rightarrow> exn + AccountBalances" where
  "ab_optimize mid b =
     rbind (cmm_optimize mid (m_balances b))
       (\<lambda>balances. Inr (b\<lparr>m_balances := balances, ab_m_optimizedMosaicId := mid\<rparr>))"

definition credit :: "MosaicId \<Rightarrow> Amount \<Rightarrow> AccountBalances \<Rightarrow> exn + AccountBalances" where
  "credit mosaicId amount b =
     (if IsZero amount then Inr b
      else case cmm_find_location (m_balances b) mosaicId of
             None \<Rightarrow>
               rbind (cmm_insert (mosaicId, amount) (m_balances b))
                 (\<lambda>balances. Inr (b\<lparr>m_balances := balances\<rparr>))
           | Some iter \<Rightarrow>
               let second = snd (cmm_at (m_balances b) mosaicId iter)
               in Inr (b\<lparr>m_balances := cmm_assign (m_balances b) mosaicId iter (second + amount)\<rparr>))"

definition debit :: "MosaicId \<Rightarrow> Amount \<Rightarrow> AccountBalances \<Rightarrow> exn + AccountBalances" where
  "debit mosaicId amount b =
     (if IsZero amount then Inr b
      else case cmm_find_location (m_balances b) mosaicId of
             None \<Rightarrow> Inl Runtime_Error
           | Some iter \<Rightarrow>
               let second = snd (cmm_at (m_balances b) mosaicId iter)
               in if amount > second then Inl Runtime_Error
                  else
                    let balances = cmm_assign (m_balances b) mosaicId iter (second - amount)
                    in Inr (b\<lparr>m_balances :=
                              (if IsZero (second - amount) then cmm_erase mosaicId balances else balances)\<rparr>))"

text \<open>Copy assignment of \<open>src\<close> to \<open>b\<close>, and the copy constructor, which assigns to a new object.\<close>

definition ab_assign :: "AccountBalances \<Rightarrow> AccountBalances \<Rightarrow> exn + AccountBalances" where
  "ab_assign src b =
     (let b = b\<lparr>ab_m_optimizedMosaicId := ab_optimizedMosaicId src\<rparr>
      in rbind (cmm_optimize (ab_m_optimizedMosaicId b) (m_balances b)) (\<lambda>balances.
         rbind (ab_iterate src) (\<lambda>pairs.
         rbind (rfold cmm_insert pairs balances) (\<lambda>balances.
         Inr (b\<lparr>m_balances := balances\<rparr>)))))"

definition ab_copy :: "AccountBalances \<Rightarrow> exn + AccountBalances" where
  "ab_copy src = ab_assign src ab_new"

subsection \<open>Invariant\<close>

definition ab_inv :: "AccountBalances \<Rightarrow> bool" where
  "ab_inv b \<longleftrightarrow> cmm_inv (m_balances b) \<and> m_optimizedMosaicId (m_balances b) = ab_m_optimizedMosaicId b"

lemma ab_new_inv [simp, intro]: "ab_inv ab_new"
  by (simp add: ab_inv_def ab_new_def)

lemma ab_get_view:
  "ab_inv b \<Longrightarrow> ab_get b k = (case cmm_view (m_balances b) k of None \<Rightarrow> 0 | Some a \<Rightarrow> a)"
  by (simp add: ab_get_def ab_inv_def cmm_find_view cmm_inv_wf split: option.splits)

lemma cmm_location_view:
  assumes "cmm_inv m"
  shows "cmm_find_location m k = None \<longleftrightarrow> cmm_view m k = None"
    and "cmm_find_location m k = Some loc \<Longrightarrow> cmm_view m k = Some (snd (cmm_at m k loc))"
  using cmm_find_view [OF cmm_inv_wf [OF assms], of k]
  by (cases "cmm_view m k"; auto simp: cmm_find_def)+

text \<open>The specification of one call on the function of balances, with the exception it throws.\<close>

definition spec_credit :: "MosaicId \<Rightarrow> Amount \<Rightarrow> (MosaicId \<Rightarrow> Amount) \<Rightarrow> exn + (MosaicId \<Rightarrow> Amount)" where
  "spec_credit k a f =
     (if a = 0 then Inr f else if k = 0 then Inl Invalid_Argument else Inr (f(k := f k + a)))"

definition spec_debit :: "MosaicId \<Rightarrow> Amount \<Rightarrow> (MosaicId \<Rightarrow> Amount) \<Rightarrow> exn + (MosaicId \<Rightarrow> Amount)" where
  "spec_debit k a f =
     (if a = 0 then Inr f else if f k < a then Inl Runtime_Error else Inr (f(k := f k - a)))"

lemma cmm_view_zero: "cmm_inv m \<Longrightarrow> cmm_view m 0 = None"
  using cmm_list_nonzero [of m] by (simp add: cmm_inv_def cmm_view_def map_of_eq_None_iff)

lemma ab_inv_update:
  "ab_inv b \<Longrightarrow> cmm_inv m \<Longrightarrow> m_optimizedMosaicId m = m_optimizedMosaicId (m_balances b) \<Longrightarrow>
     ab_inv (b\<lparr>m_balances := m\<rparr>)"
  by (simp add: ab_inv_def)

lemma credit_cases:
  assumes "ab_inv b" "a \<noteq> 0"
  shows "if k = 0 then credit k a b = Inl Invalid_Argument
     else \<exists>m. credit k a b = Inr (b\<lparr>m_balances := m\<rparr>) \<and> ab_inv (b\<lparr>m_balances := m\<rparr>)
        \<and> cmm_view m = (cmm_view (m_balances b))(k \<mapsto> ab_get b k + a)"
proof -
  let ?m = "m_balances b"
  have inv: "cmm_inv ?m" using assms(1) by (simp add: ab_inv_def)
  show ?thesis
  proof (cases "cmm_find_location ?m k")
    case None
    then have view: "cmm_view ?m k = None" using cmm_location_view [OF inv] by blast
    show ?thesis
    proof (cases "k = 0")
      case True
      with None assms(2) cmm.insert_throws [OF inv, of "(k, a)"] show ?thesis
        by (simp add: credit_def IsZero_def)
    next
      case False
      then obtain m where "cmm_insert (k, a) ?m = Inr m" "cmm_inv m"
          "m_optimizedMosaicId m = m_optimizedMosaicId ?m" "cmm_view m = (cmm_view ?m)(k \<mapsto> a)"
        using cmm.insert_ok [OF inv, of "(k, a)"] view by auto
      with None False assms view ab_inv_update [OF assms(1)] show ?thesis
        by (auto simp: credit_def IsZero_def ab_get_view)
    qed
  next
    case (Some loc)
    then have "k \<noteq> 0" using cmm_location_view [OF inv] cmm_view_zero [OF inv] by force
    with Some assms cmm_assign_ok [OF inv Some] ab_inv_update [OF assms(1)] cmm_location_view(2) [OF inv Some]
    show ?thesis by (auto simp: credit_def IsZero_def ab_get_view Let_def)
  qed
qed

lemma debit_cases:
  assumes "ab_inv b" "a \<noteq> 0"
  shows "if ab_get b k < a then debit k a b = Inl Runtime_Error
     else \<exists>m. debit k a b = Inr (b\<lparr>m_balances := m\<rparr>) \<and> ab_inv (b\<lparr>m_balances := m\<rparr>)
        \<and> cmm_view m = (cmm_view (m_balances b))(k := (if ab_get b k = a then None else Some (ab_get b k - a)))"
proof -
  let ?m = "m_balances b"
  have inv: "cmm_inv ?m" using assms(1) by (simp add: ab_inv_def)
  show ?thesis
  proof (cases "cmm_find_location ?m k")
    case None
    then have "ab_get b k = 0" using cmm_location_view [OF inv, of k] assms(1) by (simp add: ab_get_view)
    with None assms(2) show ?thesis by (auto simp: debit_def IsZero_def word_gt_0)
  next
    case (Some loc)
    have get: "snd (cmm_at ?m k loc) = ab_get b k"
      using cmm_location_view(2) [OF inv Some] assms(1) by (simp add: ab_get_view)
    define m1 where "m1 = cmm_assign ?m k loc (ab_get b k - a)"
    have m1: "cmm_inv m1" "cmm_view m1 = (cmm_view ?m)(k \<mapsto> ab_get b k - a)"
        "m_optimizedMosaicId m1 = m_optimizedMosaicId ?m"
      using cmm_assign_ok [OF inv Some] by (simp_all add: m1_def)
    show ?thesis
    proof (cases "ab_get b k = a")
      case True
      have "debit k a b = Inr (b\<lparr>m_balances := cmm_erase k m1\<rparr>)"
        using Some assms(2) get True by (simp add: debit_def IsZero_def m1_def Let_def)
      with True cmm.erase_ok [OF m1(1), of k] m1 ab_inv_update [OF assms(1)] show ?thesis by auto
    next
      case False
      have "debit k a b = (if ab_get b k < a then Inl Runtime_Error else Inr (b\<lparr>m_balances := m1\<rparr>))"
        using Some assms(2) get False by (simp add: debit_def IsZero_def m1_def Let_def eq_diff_eq)
      with False m1 ab_inv_update [OF assms(1)] show ?thesis by auto
    qed
  qed
qed


lemma ab_get_fun: "ab_inv b \<Longrightarrow> ab_get b = (\<lambda>k. case cmm_view (m_balances b) k of None \<Rightarrow> 0 | Some a \<Rightarrow> a)"
  by (simp add: ab_get_view fun_eq_iff)

lemma credit_refines:
  assumes "ab_inv b"
  shows "map_sum id ab_get (credit k a b) = spec_credit k a (ab_get b)
    \<and> (\<forall>b'. credit k a b = Inr b' \<longrightarrow> ab_inv b' \<and> ab_m_optimizedMosaicId b' = ab_m_optimizedMosaicId b)"
proof (cases "a = 0")
  case True
  with assms show ?thesis by (auto simp: credit_def spec_credit_def IsZero_def)
next
  case False
  show ?thesis
  proof (cases "k = 0")
    case True
    with credit_cases [OF assms False, of k] False show ?thesis by (simp add: spec_credit_def)
  next
    case k: False
    with credit_cases [OF assms False, of k] obtain m where m: "credit k a b = Inr (b\<lparr>m_balances := m\<rparr>)"
        "ab_inv (b\<lparr>m_balances := m\<rparr>)" "cmm_view m = (cmm_view (m_balances b))(k \<mapsto> ab_get b k + a)"
      by auto
    have "ab_get (b\<lparr>m_balances := m\<rparr>) = (ab_get b)(k := ab_get b k + a)"
      using m(3) by (simp add: ab_get_fun [OF m(2)] ab_get_fun [OF assms] fun_eq_iff)
    with m False k show ?thesis by (simp add: spec_credit_def)
  qed
qed

lemma debit_refines:
  assumes "ab_inv b"
  shows "map_sum id ab_get (debit k a b) = spec_debit k a (ab_get b)
    \<and> (\<forall>b'. debit k a b = Inr b' \<longrightarrow> ab_inv b' \<and> ab_m_optimizedMosaicId b' = ab_m_optimizedMosaicId b)"
proof (cases "a = 0")
  case True
  with assms show ?thesis by (auto simp: debit_def spec_debit_def IsZero_def)
next
  case False
  show ?thesis
  proof (cases "ab_get b k < a")
    case True
    with debit_cases [OF assms False, of k] False show ?thesis by (simp add: spec_debit_def)
  next
    case k: False
    with debit_cases [OF assms False, of k] obtain m where m: "debit k a b = Inr (b\<lparr>m_balances := m\<rparr>)"
        "ab_inv (b\<lparr>m_balances := m\<rparr>)"
        "cmm_view m = (cmm_view (m_balances b))(k := (if ab_get b k = a then None else Some (ab_get b k - a)))"
      by auto
    have "ab_get (b\<lparr>m_balances := m\<rparr>) = (ab_get b)(k := ab_get b k - a)"
      using m(3) by (auto simp add: ab_get_fun [OF m(2)] ab_get_fun [OF assms] fun_eq_iff)
    with m False k show ?thesis by (simp add: spec_debit_def)
  qed
qed

lemma ab_optimize_refines:
  assumes "ab_inv b"
  shows "\<exists>b'. ab_optimize k b = Inr b' \<and> ab_inv b' \<and> ab_get b' = ab_get b \<and> ab_m_optimizedMosaicId b' = k
    \<and> cmm_view (m_balances b') = cmm_view (m_balances b)"
proof -
  obtain m where m: "cmm_optimize k (m_balances b) = Inr m" "cmm_inv m" "m_optimizedMosaicId m = k"
      "cmm_view m = cmm_view (m_balances b)"
    using cmm.optimize_ok assms by (auto simp: ab_inv_def)
  let ?b = "b\<lparr>m_balances := m, ab_m_optimizedMosaicId := k\<rparr>"
  have "ab_inv ?b" using m by (simp add: ab_inv_def)
  with m ab_get_fun [OF this] ab_get_fun [OF assms] show ?thesis by (simp add: ab_optimize_def)
qed

subsection \<open>Histories of an account's balances\<close>

datatype balance_call = Call_credit MosaicId Amount | Call_debit MosaicId Amount | Call_ab_optimize MosaicId

fun ab_call :: "balance_call \<Rightarrow> AccountBalances \<Rightarrow> exn + AccountBalances" where
  "ab_call (Call_credit k a) b = credit k a b"
| "ab_call (Call_debit k a) b = debit k a b"
| "ab_call (Call_ab_optimize k) b = ab_optimize k b"

fun ab_spec_call :: "balance_call \<Rightarrow> (MosaicId \<Rightarrow> Amount) \<Rightarrow> exn + (MosaicId \<Rightarrow> Amount)" where
  "ab_spec_call (Call_credit k a) f = spec_credit k a f"
| "ab_spec_call (Call_debit k a) f = spec_debit k a f"
| "ab_spec_call (Call_ab_optimize k) f = Inr f"

text \<open>A call that throws leaves the balances as they were.\<close>

definition ab_step :: "balance_call \<Rightarrow> AccountBalances \<Rightarrow> AccountBalances" where
  "ab_step c b = (case ab_call c b of Inl _ \<Rightarrow> b | Inr b' \<Rightarrow> b')"

definition ab_spec_step :: "balance_call \<Rightarrow> (MosaicId \<Rightarrow> Amount) \<Rightarrow> (MosaicId \<Rightarrow> Amount)" where
  "ab_spec_step c f = (case ab_spec_call c f of Inl _ \<Rightarrow> f | Inr f' \<Rightarrow> f')"

lemma ab_call_refines:
  assumes "ab_inv b"
  shows "map_sum id ab_get (ab_call c b) = ab_spec_call c (ab_get b)
    \<and> (\<forall>b'. ab_call c b = Inr b' \<longrightarrow> ab_inv b')"
proof (cases c)
  case (Call_ab_optimize k)
  with ab_optimize_refines [OF assms, of k] show ?thesis by auto
qed (use credit_refines [OF assms] debit_refines [OF assms] in auto)

lemma ab_run_refines:
  assumes "ab_inv b"
  shows "ab_inv (fold ab_step cs b) \<and> ab_get (fold ab_step cs b) = fold ab_spec_step cs (ab_get b)"
  using assms
proof (induction cs arbitrary: b)
  case (Cons c cs)
  have "ab_inv (ab_step c b) \<and> ab_get (ab_step c b) = ab_spec_step c (ab_get b)"
    using ab_call_refines [OF Cons.prems, of c]
    by (cases "ab_call c b"; cases "ab_spec_call c (ab_get b)") (auto simp: ab_step_def ab_spec_step_def Cons.prems)
  with Cons.IH [of "ab_step c b"] show ?case by simp
qed simp

lemma ab_new_get: "ab_get ab_new = (\<lambda>_. 0)"
  by (subst ab_get_fun [OF ab_new_inv]) (simp add: ab_new_def)

text \<open>
  C24. After any calls on new balances, \<open>get\<close> is the function from mosaic ids to amounts that the
  same calls build when amounts are added and subtracted modulo \<open>2 ^ 64\<close>, and the next call has the
  outcome that function demands: a nonzero credit throws exactly for the reserved mosaic id 0, a
  nonzero debit throws \<open>catapult_runtime_error\<close> exactly when it exceeds the balance.
\<close>

theorem balances_refine_function:
  "let b = fold ab_step cs ab_new; f = fold ab_spec_step cs (\<lambda>_. 0)
   in ab_get b = f \<and> map_sum id ab_get (ab_call c b) = ab_spec_call c f"
  using ab_run_refines [OF ab_new_inv, of cs] ab_call_refines [of "fold ab_step cs ab_new" c]
  by (simp add: ab_new_get)

text \<open>The balances that are iterated are never zero.\<close>

definition ab_nonzero :: "AccountBalances \<Rightarrow> bool" where
  "ab_nonzero b \<longleftrightarrow> 0 \<notin> snd ` set (cmm_list (m_balances b))"

lemma ab_nonzero_view: "ab_inv b \<Longrightarrow> ab_nonzero b \<longleftrightarrow> (\<forall>k. cmm_view (m_balances b) k \<noteq> Some 0)"
  using ran_distinct [OF cmm_list_distinct [OF cmm_inv_wf [of "m_balances b"]]]
  by (simp add: ab_nonzero_def ab_inv_def cmm_view_def ran_def) blast

text \<open>
  C29. Crediting an amount that does not overflow the balance and debiting it again ends normally
  and gives back the balances: the same mosaics in the same order with the same amounts, none of
  them zero.
\<close>

theorem debit_undoes_credit:
  assumes "ab_inv b" "ab_nonzero b" "k \<noteq> 0" "unat (ab_get b k) + unat a < 2 ^ 64"
  shows "\<exists>b1 b2. credit k a b = Inr b1 \<and> unat (ab_get b1 k) = unat (ab_get b k) + unat a \<and> ab_nonzero b1
    \<and> debit k a b1 = Inr b2 \<and> ab_iterate b2 = ab_iterate b \<and> ab_optimizedMosaicId b2 = ab_optimizedMosaicId b"
proof (cases "a = 0")
  case True
  with assms show ?thesis by (simp add: credit_def debit_def IsZero_def)
next
  case False
  let ?v = "cmm_view (m_balances b)"
  obtain m1 where m1: "credit k a b = Inr (b\<lparr>m_balances := m1\<rparr>)" "ab_inv (b\<lparr>m_balances := m1\<rparr>)"
      "cmm_view m1 = ?v(k \<mapsto> ab_get b k + a)"
    using credit_cases [OF assms(1) False, of k] assms(3) by auto
  let ?b1 = "b\<lparr>m_balances := m1\<rparr>"
  have sum: "unat (ab_get b k + a) = unat (ab_get b k) + unat a"
    using assms(4) by (intro word_add_no_wrap) simp
  have get1: "ab_get ?b1 k = ab_get b k + a" using ab_get_fun [OF m1(2)] m1(3) by simp
  have nz: "ab_get b k + a \<noteq> 0" using sum False by (metis add_is_0 unat_eq_0)
  have le: "a \<le> ab_get b k + a" using sum by (simp add: word_le_nat_alt)
  obtain m2 where m2: "debit k a ?b1 = Inr (b\<lparr>m_balances := m2\<rparr>)" "ab_inv (b\<lparr>m_balances := m2\<rparr>)"
      "cmm_view m2 = (cmm_view m1)(k := (if ab_get b k = 0 then None else Some (ab_get b k)))"
  proof -
    have "\<not> ab_get ?b1 k < a" using le by (simp add: get1 not_less)
    from debit_cases [OF m1(2) False, of k, unfolded if_not_P [OF this]] show ?thesis
      by (auto simp: get1 intro: that)
  qed
  have "?v k = (if ab_get b k = 0 then None else Some (ab_get b k))"
    using assms(2) by (auto simp: ab_get_view [OF assms(1)] ab_nonzero_view [OF assms(1)] split: option.splits)
  then have "cmm_view m2 = ?v" by (auto simp: m2(3) m1(3) fun_eq_iff)
  moreover have inv: "cmm_inv m2" "cmm_inv (m_balances b)" "m_optimizedMosaicId m2 = m_optimizedMosaicId (m_balances b)"
    using m2(2) assms(1) by (simp_all add: ab_inv_def)
  ultimately have "cmm_list m2 = cmm_list (m_balances b)" by (intro cmm_list_canonical)
  then have "ab_iterate (b\<lparr>m_balances := m2\<rparr>) = ab_iterate b"
    using cmm_iterate_ok cmm_inv_wf inv by (simp add: ab_iterate_def)
  moreover have "ab_nonzero ?b1"
    using assms(2) nz by (simp add: ab_nonzero_view [OF assms(1)] ab_nonzero_view [OF m1(2)] m1(3))
  ultimately show ?thesis using m1(1) m2(1) sum get1 by (simp add: ab_optimizedMosaicId_def)
qed

theorem debit_undoes_credit_witness:
  "\<exists>b1 b2. credit 7 5 (fold ab_step [Call_credit 7 100] ab_new) = Inr b1
    \<and> unat (ab_get b1 7) = unat (ab_get (fold ab_step [Call_credit 7 100] ab_new) 7) + unat (5 :: Amount)
    \<and> ab_nonzero b1 \<and> debit 7 5 b1 = Inr b2
    \<and> ab_iterate b2 = ab_iterate (fold ab_step [Call_credit 7 100] ab_new)
    \<and> ab_optimizedMosaicId b2 = ab_optimizedMosaicId (fold ab_step [Call_credit 7 100] ab_new)"
proof (rule debit_undoes_credit)
  show "ab_inv (fold ab_step [Call_credit 7 100] ab_new)" using ab_run_refines [OF ab_new_inv] by blast
  show "ab_nonzero (fold ab_step [Call_credit 7 100] ab_new)" by code_simp
  show "unat (ab_get (fold ab_step [Call_credit 7 100] ab_new) 7) + unat (5 :: Amount) < 2 ^ 64"
  proof -
    have "ab_get (fold ab_step [Call_credit 7 100] ab_new) 7 = 100" by code_simp
    then show ?thesis by simp
  qed
qed simp

lemma ab_assign_cases:
  assumes "ab_inv src" "ab_inv b"
  defines "vs \<equiv> cmm_view (m_balances src)" and "vb \<equiv> cmm_view (m_balances b)"
  shows "if dom vs \<inter> dom vb = {}
     then \<exists>b'. ab_assign src b = Inr b' \<and> ab_inv b' \<and> cmm_view (m_balances b') = vb ++ vs
       \<and> ab_m_optimizedMosaicId b' = ab_m_optimizedMosaicId src
     else ab_assign src b = Inl Invalid_Argument"
proof -
  let ?opt = "ab_m_optimizedMosaicId src"
  have inv: "cmm_inv (m_balances src)" "cmm_inv (m_balances b)" using assms by (simp_all add: ab_inv_def)
  obtain m1 where m1: "cmm_optimize ?opt (m_balances b) = Inr m1" "cmm_inv m1" "m_optimizedMosaicId m1 = ?opt"
      "cmm_view m1 = vb" using cmm.optimize_ok [OF inv(2)] vb_def by blast
  obtain xs where xs: "cmm_iterate (m_balances src) = Inr xs" "map_of xs = vs" "distinct (map fst xs)"
      "0 \<notin> fst ` set xs" using cmm.iterate_ok [OF inv(1)] vs_def by blast
  have dom: "fst ` set xs = dom vs" using xs(2) by (metis dom_map_of_conv_image_fst)
  have eq: "ab_assign src b = rbind (rfold cmm_insert xs m1)
      (\<lambda>m. Inr (b\<lparr>ab_m_optimizedMosaicId := ?opt, m_balances := m\<rparr>))"
    using m1(1) xs(1) by (simp add: ab_assign_def ab_optimizedMosaicId_def ab_iterate_def Let_def)
  show ?thesis
  proof (cases "dom vs \<inter> dom vb = {}")
    case True
    with cmm.insert_loop [OF m1(2) xs(3,4)] m1 xs(2) dom eq show ?thesis by (auto simp: ab_inv_def)
  next
    case False
    with cmm.insert_loop_throws [OF m1(2) xs(3,4)] m1(4) dom eq show ?thesis by simp
  qed
qed

text \<open>
  The copy constructor never throws: the copy of balances that any calls produced has the same
  optimized mosaic and is iterated like its original.
\<close>

theorem copy_iterates_like_original:
  "let b = fold ab_step cs ab_new
   in \<exists>b'. ab_copy b = Inr b' \<and> ab_iterate b' = ab_iterate b \<and> ab_get b' = ab_get b
        \<and> ab_optimizedMosaicId b' = ab_optimizedMosaicId b"
proof -
  let ?b = "fold ab_step cs ab_new"
  have inv: "ab_inv ?b" using ab_run_refines [OF ab_new_inv] by blast
  obtain b' where b': "ab_copy ?b = Inr b'" "ab_inv b'" "cmm_view (m_balances b') = cmm_view (m_balances ?b)"
      "ab_m_optimizedMosaicId b' = ab_m_optimizedMosaicId ?b"
    using ab_assign_cases [OF inv ab_new_inv] by (auto simp: ab_copy_def ab_new_def)
  have i: "cmm_inv (m_balances b')" "cmm_inv (m_balances ?b)"
    "m_optimizedMosaicId (m_balances b') = m_optimizedMosaicId (m_balances ?b)"
    using b'(2,4) inv by (auto simp: ab_inv_def)
  then have "ab_iterate b' = ab_iterate ?b"
    using cmm_list_canonical [OF i b'(3)] cmm_iterate_ok cmm_inv_wf by (simp add: ab_iterate_def)
  moreover have "ab_get b' = ab_get ?b" using b'(3) by (simp add: ab_get_fun b'(2) inv)
  ultimately show ?thesis using b'(1,4) by (simp add: ab_optimizedMosaicId_def)
qed

text \<open>
  C30. Copy assignment does not replace the balances it is applied to: it adds the entries of the
  other balances to them, and throws \<open>catapult_invalid_argument\<close> exactly when both hold some
  mosaic.
\<close>

theorem copy_assignment_merges:
  "let src = fold ab_step cs ab_new; b = fold ab_step ds ab_new;
       shared = (\<exists>k. cmm_find (m_balances src) k \<noteq> None \<and> cmm_find (m_balances b) k \<noteq> None)
   in case ab_assign src b of
        Inl e \<Rightarrow> e = Invalid_Argument \<and> shared
      | Inr b' \<Rightarrow> \<not> shared \<and> ab_get b' = (\<lambda>k. ab_get b k + ab_get src k)"
proof -
  let ?s = "fold ab_step cs ab_new" and ?b = "fold ab_step ds ab_new"
  let ?vs = "cmm_view (m_balances ?s)" and ?vb = "cmm_view (m_balances ?b)"
  have inv: "ab_inv ?s" "ab_inv ?b" using ab_run_refines [OF ab_new_inv] by blast+
  then have wf: "cmm_wf (m_balances ?s)" "cmm_wf (m_balances ?b)" by (simp_all add: ab_inv_def cmm_inv_wf)
  have shared: "(\<exists>k. cmm_find (m_balances ?s) k \<noteq> None \<and> cmm_find (m_balances ?b) k \<noteq> None)
      \<longleftrightarrow> dom ?vs \<inter> dom ?vb \<noteq> {}"
    by (auto simp: cmm_find_view [OF wf(1)] cmm_find_view [OF wf(2)])
  show ?thesis
  proof (cases "dom ?vs \<inter> dom ?vb = {}")
    case True
    then obtain b' where b': "ab_assign ?s ?b = Inr b'" "ab_inv b'" "cmm_view (m_balances b') = ?vb ++ ?vs"
      using ab_assign_cases [OF inv] by auto
    have "ab_get b' k = ab_get ?b k + ab_get ?s k" for k
      using True by (cases "?vs k"; cases "?vb k") (auto simp: ab_get_view b'(2) inv b'(3) map_add_def)
    with b'(1) True show ?thesis unfolding Let_def shared by (simp add: fun_eq_iff)
  next
    case False
    with ab_assign_cases [OF inv] show ?thesis unfolding Let_def shared by simp
  qed
qed

end
