(* ===== verification/AccountData.thy ===== *)
theory AccountData
  imports AccountBalances
begin

section \<open>Account state data (catapult/state)\<close>

text \<open>
  The parts of an account state besides the balances: a bounded stack that allocates its array on
  first use, the activity buckets and importance snapshots stored in such stacks, the supplemental
  public keys with their epoch ranges, grouped heights, and the functions on an account state. The
  capacity of a stack and the default value of its elements are arguments of its operations; the
  loops that shift the array are the generic array loops of the compact mosaic map.
\<close>

type_synonym Key = "256 word"
type_synonym VotingKey = "256 word"
type_synonym Importance = uint64
type_synonym ImportanceHeight = uint64
type_synonym FinalizationEpoch = uint32

subsection \<open>Bounded stacks (CompactArrayStack)\<close>

record 'a CompactArrayStack =
  m_pArray :: "'a list option"
  m_size :: nat

definition cas_new :: "'a CompactArrayStack" where
  "cas_new = \<lparr>m_pArray = None, m_size = 0\<rparr>"

text \<open>The values an iteration yields: always \<open>N\<close>, default values when there is no array.\<close>

definition cas_values :: "nat \<Rightarrow> 'a \<Rightarrow> 'a CompactArrayStack \<Rightarrow> 'a list" where
  "cas_values N def s = (case m_pArray s of None \<Rightarrow> replicate N def | Some a \<Rightarrow> a)"

definition cas_peek :: "'a CompactArrayStack \<Rightarrow> exn + 'a" where
  "cas_peek s = (if 0 = m_size s then Inl Out_Of_Range else Inr (hd (the (m_pArray s))))"

text \<open>Assignment through the reference that the non-const \<open>peek\<close> returns.\<close>

definition cas_set_top :: "'a \<Rightarrow> 'a CompactArrayStack \<Rightarrow> 'a CompactArrayStack" where
  "cas_set_top v s = s\<lparr>m_pArray := map_option (\<lambda>a. a[0 := v]) (m_pArray s)\<rparr>"

definition cas_shiftRight :: "'a CompactArrayStack \<Rightarrow> 'a CompactArrayStack" where
  "cas_shiftRight s = s\<lparr>m_pArray := map_option (\<lambda>a. shift_right (length a) 0 a) (m_pArray s)\<rparr>"

definition cas_push :: "nat \<Rightarrow> 'a \<Rightarrow> 'a \<Rightarrow> 'a CompactArrayStack \<Rightarrow> 'a CompactArrayStack" where
  "cas_push N def v s =
     (let s = cas_shiftRight s;
          s = (if m_size s < N then s\<lparr>m_size := m_size s + 1\<rparr> else s);
          a = (case m_pArray s of None \<Rightarrow> replicate N def | Some a \<Rightarrow> a)
      in s\<lparr>m_pArray := Some (a[0 := v])\<rparr>)"

definition cas_shiftLeft :: "'a CompactArrayStack \<Rightarrow> exn + 'a CompactArrayStack" where
  "cas_shiftLeft s =
     (case m_pArray s of
        None \<Rightarrow> Inl Out_Of_Range
      | Some a \<Rightarrow> Inr (s\<lparr>m_pArray := Some (shift_left 0 (length a) a)\<rparr>))"

definition cas_pop :: "'a \<Rightarrow> 'a CompactArrayStack \<Rightarrow> exn + 'a CompactArrayStack" where
  "cas_pop def s =
     rbind (cas_shiftLeft s) (\<lambda>s.
       let a = the (m_pArray s);
           s = s\<lparr>m_pArray := Some (a[length a - 1 := def]), m_size := m_size s - 1\<rparr>
       in Inr (if 0 = m_size s then s\<lparr>m_pArray := None\<rparr> else s))"

text \<open>Copy assignment of \<open>src\<close> to \<open>s\<close>.\<close>

definition cas_assign :: "'a CompactArrayStack \<Rightarrow> 'a CompactArrayStack \<Rightarrow> 'a CompactArrayStack" where
  "cas_assign src s =
     (let s = (case m_pArray src of Some a \<Rightarrow> s\<lparr>m_pArray := Some a\<rparr> | None \<Rightarrow> s)
      in s\<lparr>m_size := m_size src\<rparr>)"

subsection \<open>Activity buckets and importance snapshots\<close>

abbreviation (input) Activity_Bucket_History_Size :: nat where
  "Activity_Bucket_History_Size \<equiv> 7"

abbreviation (input) Importance_History_Size :: nat where
  "Importance_History_Size \<equiv> 3"

record HeightDetachedActivityBucket =
  TotalFeesPaid :: Amount
  BeneficiaryCount :: uint32
  RawScore :: uint64

record ActivityBucket = HeightDetachedActivityBucket +
  StartHeight :: ImportanceHeight

definition new_ActivityBucket :: ActivityBucket where
  "new_ActivityBucket = \<lparr>TotalFeesPaid = 0, BeneficiaryCount = 0, RawScore = 0, StartHeight = 0\<rparr>"

type_synonym AccountActivityBuckets = "ActivityBucket CompactArrayStack"

definition aab_values :: "AccountActivityBuckets \<Rightarrow> ActivityBucket list" where
  "aab_values b = cas_values Activity_Bucket_History_Size new_ActivityBucket b"

definition aab_empty :: "AccountActivityBuckets \<Rightarrow> bool" where
  "aab_empty b \<longleftrightarrow> list_all (\<lambda>bucket. 0 = StartHeight bucket) (aab_values b)"

definition aab_get :: "AccountActivityBuckets \<Rightarrow> ImportanceHeight \<Rightarrow> ActivityBucket" where
  "aab_get b height =
     (case List.find (\<lambda>bucket. StartHeight bucket = height) (aab_values b) of
        None \<Rightarrow> new_ActivityBucket | Some bucket \<Rightarrow> bucket)"

definition aab_push :: "AccountActivityBuckets \<Rightarrow> AccountActivityBuckets" where
  "aab_push b = cas_push Activity_Bucket_History_Size new_ActivityBucket new_ActivityBucket b"

definition aab_pop :: "AccountActivityBuckets \<Rightarrow> exn + AccountActivityBuckets" where
  "aab_pop b = cas_pop new_ActivityBucket b"

text \<open>
  The consumer is handed the bucket without its height: a function on the detached part, applied to
  a bucket by keeping its start height.
\<close>

definition update_detached ::
  "(HeightDetachedActivityBucket \<Rightarrow> HeightDetachedActivityBucket) \<Rightarrow> ActivityBucket \<Rightarrow> ActivityBucket" where
  "update_detached consumer bucket =
     HeightDetachedActivityBucket.extend (consumer (HeightDetachedActivityBucket.truncate bucket))
       (ActivityBucket.fields (StartHeight bucket))"

definition aab_tryUpdate ::
  "bool \<Rightarrow> ImportanceHeight \<Rightarrow> (HeightDetachedActivityBucket \<Rightarrow> HeightDetachedActivityBucket)
     \<Rightarrow> AccountActivityBuckets \<Rightarrow> exn + bool \<times> AccountActivityBuckets" where
  "aab_tryUpdate shouldCreateNewBucket height consumer b =
     (let lastHeight = StartHeight (hd (aab_values b))
      in if 0 \<noteq> lastHeight \<and> lastHeight > height then Inl Runtime_Error
         else if lastHeight < height \<and> \<not> shouldCreateNewBucket then Inr (False, b)
         else
           let b = (if lastHeight < height
                    then cas_push Activity_Bucket_History_Size new_ActivityBucket
                           (new_ActivityBucket\<lparr>StartHeight := height\<rparr>) b
                    else b)
           in rbind (cas_peek b) (\<lambda>bucket. Inr (True, cas_set_top (update_detached consumer bucket) b)))"

definition aab_update ::
  "ImportanceHeight \<Rightarrow> (HeightDetachedActivityBucket \<Rightarrow> HeightDetachedActivityBucket)
     \<Rightarrow> AccountActivityBuckets \<Rightarrow> exn + AccountActivityBuckets" where
  "aab_update height consumer b = rbind (aab_tryUpdate True height consumer b) (\<lambda>(_, b). Inr b)"

record ImportanceSnapshot =
  snapshot_Importance :: Importance
  snapshot_Height :: ImportanceHeight

definition new_ImportanceSnapshot :: ImportanceSnapshot where
  "new_ImportanceSnapshot = \<lparr>snapshot_Importance = 0, snapshot_Height = 0\<rparr>"

type_synonym AccountImportanceSnapshots = "ImportanceSnapshot CompactArrayStack"

definition ais_values :: "AccountImportanceSnapshots \<Rightarrow> ImportanceSnapshot list" where
  "ais_values s = cas_values Importance_History_Size new_ImportanceSnapshot s"

definition ais_empty :: "AccountImportanceSnapshots \<Rightarrow> bool" where
  "ais_empty s \<longleftrightarrow> list_all (\<lambda>snapshot. 0 = snapshot_Height snapshot) (ais_values s)"

definition ais_height :: "AccountImportanceSnapshots \<Rightarrow> ImportanceHeight" where
  "ais_height s = snapshot_Height (hd (ais_values s))"

definition ais_active :: "AccountImportanceSnapshots \<Rightarrow> bool" where
  "ais_active s \<longleftrightarrow> 0 \<noteq> ais_height s"

definition ais_current :: "AccountImportanceSnapshots \<Rightarrow> Importance" where
  "ais_current s = snapshot_Importance (hd (ais_values s))"

definition ais_get :: "AccountImportanceSnapshots \<Rightarrow> ImportanceHeight \<Rightarrow> Importance" where
  "ais_get s height =
     (case List.find (\<lambda>snapshot. snapshot_Height snapshot = height) (ais_values s) of
        None \<Rightarrow> 0 | Some snapshot \<Rightarrow> snapshot_Importance snapshot)"

definition ais_set ::
  "Importance \<Rightarrow> ImportanceHeight \<Rightarrow> AccountImportanceSnapshots \<Rightarrow> exn + AccountImportanceSnapshots" where
  "ais_set importance height s =
     (let lastHeight = ais_height s
      in if 0 \<noteq> lastHeight \<and> lastHeight \<ge> height then Inl Runtime_Error
         else Inr (cas_push Importance_History_Size new_ImportanceSnapshot
                     \<lparr>snapshot_Importance = importance, snapshot_Height = height\<rparr> s))"

definition ais_push :: "AccountImportanceSnapshots \<Rightarrow> AccountImportanceSnapshots" where
  "ais_push s = cas_push Importance_History_Size new_ImportanceSnapshot new_ImportanceSnapshot s"

definition ais_pop :: "AccountImportanceSnapshots \<Rightarrow> exn + AccountImportanceSnapshots" where
  "ais_pop s = cas_pop new_ImportanceSnapshot s"

subsection \<open>Supplemental public keys (AccountPublicKeys)\<close>

type_synonym PublicKeyAccessor = "Key option"

definition pka_is_set :: "PublicKeyAccessor \<Rightarrow> bool" where
  "pka_is_set p \<longleftrightarrow> (case p of None \<Rightarrow> False | Some key \<Rightarrow> 0 \<noteq> key)"

definition pka_get :: "PublicKeyAccessor \<Rightarrow> Key" where
  "pka_get p = (case p of None \<Rightarrow> 0 | Some key \<Rightarrow> key)"

definition pka_set :: "Key \<Rightarrow> PublicKeyAccessor \<Rightarrow> exn + PublicKeyAccessor" where
  "pka_set key p = (if p \<noteq> None then Inl Invalid_Argument else Inr (Some key))"

definition pka_unset :: "PublicKeyAccessor \<Rightarrow> PublicKeyAccessor" where
  "pka_unset p = None"

record PinnedVotingKey =
  pinned_VotingKey :: VotingKey
  StartEpoch :: FinalizationEpoch
  EndEpoch :: FinalizationEpoch

type_synonym PublicKeysAccessor = "PinnedVotingKey list option"

definition pks_getAll :: "PublicKeysAccessor \<Rightarrow> PinnedVotingKey list" where
  "pks_getAll p = (case p of None \<Rightarrow> [] | Some keys \<Rightarrow> keys)"

definition pks_size :: "PublicKeysAccessor \<Rightarrow> nat" where
  "pks_size p = (case p of None \<Rightarrow> 0 | Some keys \<Rightarrow> length keys)"

definition pks_upperBound :: "PublicKeysAccessor \<Rightarrow> FinalizationEpoch" where
  "pks_upperBound p = (case p of None \<Rightarrow> 0 | Some keys \<Rightarrow> EndEpoch (last keys))"

definition ContainsEpoch :: "PinnedVotingKey \<Rightarrow> FinalizationEpoch \<Rightarrow> bool" where
  "ContainsEpoch key epoch \<longleftrightarrow> StartEpoch key \<le> epoch \<and> epoch \<le> EndEpoch key"

text \<open>The index of the key of an epoch; \<open>None\<close> is the pair of the largest \<open>size_t\<close> and false.\<close>

fun index_of :: "('a \<Rightarrow> bool) \<Rightarrow> 'a list \<Rightarrow> nat option" where
  "index_of P [] = None"
| "index_of P (x # xs) = (if P x then Some 0 else map_option Suc (index_of P xs))"

definition pks_contains :: "PublicKeysAccessor \<Rightarrow> FinalizationEpoch \<Rightarrow> nat option" where
  "pks_contains p epoch =
     (case p of None \<Rightarrow> None | Some keys \<Rightarrow> index_of (\<lambda>key. ContainsEpoch key epoch) keys)"

definition pks_matches :: "PinnedVotingKey \<Rightarrow> PinnedVotingKey \<Rightarrow> bool" where
  "pks_matches key existingKey \<longleftrightarrow>
     pinned_VotingKey key = pinned_VotingKey existingKey
     \<and> StartEpoch key = StartEpoch existingKey \<and> EndEpoch key = EndEpoch existingKey"

definition pks_containsExact :: "PublicKeysAccessor \<Rightarrow> PinnedVotingKey \<Rightarrow> bool" where
  "pks_containsExact p key = (case p of None \<Rightarrow> False | Some keys \<Rightarrow> index_of (pks_matches key) keys \<noteq> None)"

definition EnsureNoOverlap :: "PinnedVotingKey list \<Rightarrow> PinnedVotingKey \<Rightarrow> exn + unit" where
  "EnsureNoOverlap keys key =
     (if list_ex (\<lambda>existingKey. ContainsEpoch key (StartEpoch existingKey)
                   \<or> ContainsEpoch key (EndEpoch existingKey) \<or> ContainsEpoch existingKey (StartEpoch key)) keys
      then Inl Invalid_Argument else Inr ())"

definition pks_add :: "PinnedVotingKey \<Rightarrow> PublicKeysAccessor \<Rightarrow> exn + PublicKeysAccessor" where
  "pks_add key p =
     (let keys = pks_getAll p
      in rbind (EnsureNoOverlap keys key) (\<lambda>_.
         let before = takeWhile (\<lambda>existingKey. \<not> StartEpoch existingKey > EndEpoch key) keys
         in Inr (Some (before @ key # drop (length before) keys))))"

definition pks_remove :: "PinnedVotingKey \<Rightarrow> PublicKeysAccessor \<Rightarrow> bool \<times> PublicKeysAccessor" where
  "pks_remove key p =
     (case p of
        None \<Rightarrow> (False, p)
      | Some keys \<Rightarrow>
          (case index_of (pks_matches key) keys of
             None \<Rightarrow> (False, p)
           | Some i \<Rightarrow>
               let keys = take i keys @ drop (Suc i) keys
               in (True, if keys = [] then None else Some keys)))"

record AccountPublicKeys =
  linked :: PublicKeyAccessor
  node :: PublicKeyAccessor
  vrf :: PublicKeyAccessor
  voting :: PublicKeysAccessor

definition apk_new :: AccountPublicKeys where
  "apk_new = \<lparr>linked = None, node = None, vrf = None, voting = None\<rparr>"

definition apk_mask :: "AccountPublicKeys \<Rightarrow> uint8" where
  "apk_mask k =
     or (or (if pka_is_set (linked k) then 1 else 0) (if pka_is_set (node k) then 2 else 0))
       (if pka_is_set (vrf k) then 4 else 0)"

subsection \<open>Account states (AccountState)\<close>

datatype AccountType = Unlinked | Main | Remote | Remote_Unlinked

record AccountState =
  as_Address :: Address
  AddressHeight :: Height
  PublicKey :: Key
  PublicKeyHeight :: Height
  as_AccountType :: AccountType
  SupplementalPublicKeys :: AccountPublicKeys
  ImportanceSnapshots :: AccountImportanceSnapshots
  ActivityBuckets :: AccountActivityBuckets
  Balances :: AccountBalances

definition new_AccountState :: "Address \<Rightarrow> Height \<Rightarrow> AccountState" where
  "new_AccountState address addressHeight =
     \<lparr>as_Address = address, AddressHeight = addressHeight, PublicKey = 0, PublicKeyHeight = 0,
      as_AccountType = Unlinked, SupplementalPublicKeys = apk_new, ImportanceSnapshots = cas_new,
      ActivityBuckets = cas_new, Balances = ab_new\<rparr>"

definition GetLinkedPublicKey :: "AccountState \<Rightarrow> Key" where
  "GetLinkedPublicKey a = pka_get (linked (SupplementalPublicKeys a))"

definition GetNodePublicKey :: "AccountState \<Rightarrow> Key" where
  "GetNodePublicKey a = pka_get (node (SupplementalPublicKeys a))"

definition GetVrfPublicKey :: "AccountState \<Rightarrow> Key" where
  "GetVrfPublicKey a = pka_get (vrf (SupplementalPublicKeys a))"

definition RequireAccountType :: "AccountState \<Rightarrow> AccountType \<Rightarrow> exn + unit" where
  "RequireAccountType a requiredAccountType =
     (if requiredAccountType = as_AccountType a then Inr () else Inl Runtime_Error)"

definition AreLinked :: "AccountState \<Rightarrow> AccountState \<Rightarrow> bool" where
  "AreLinked lhs rhs \<longleftrightarrow> GetLinkedPublicKey lhs = PublicKey rhs \<and> GetLinkedPublicKey rhs = PublicKey lhs"

definition IsRemote :: "AccountType \<Rightarrow> bool" where
  "IsRemote accountType = (case accountType of Remote \<Rightarrow> True | Remote_Unlinked \<Rightarrow> True | _ \<Rightarrow> False)"

definition HasHistoricalInformation :: "AccountState \<Rightarrow> bool" where
  "HasHistoricalInformation a \<longleftrightarrow> \<not> ais_empty (ImportanceSnapshots a) \<or> \<not> aab_empty (ActivityBuckets a)"

definition RequireLinkedRemoteAndMainAccounts :: "AccountState \<Rightarrow> AccountState \<Rightarrow> exn + unit" where
  "RequireLinkedRemoteAndMainAccounts remoteAccountState mainAccountState =
     rbind (RequireAccountType remoteAccountState Remote) (\<lambda>_.
     rbind (RequireAccountType mainAccountState Main) (\<lambda>_.
     if AreLinked mainAccountState remoteAccountState then Inr () else Inl Runtime_Error))"

definition ApplyFeeSurplus :: "Mosaic \<Rightarrow> ImportanceHeight \<Rightarrow> AccountState \<Rightarrow> exn + AccountState" where
  "ApplyFeeSurplus fee importanceHeight a =
     rbind (credit (fst fee) (snd fee) (Balances a)) (\<lambda>balances.
     rbind (aab_tryUpdate False importanceHeight
              (\<lambda>bucket. bucket\<lparr>TotalFeesPaid := TotalFeesPaid bucket - snd fee\<rparr>) (ActivityBuckets a)) (\<lambda>(_, buckets).
     Inr (a\<lparr>Balances := balances, ActivityBuckets := buckets\<rparr>)))"

subsection \<open>Grouped heights (catapult/model/HeightGrouping)\<close>

definition CalculateGroupedHeight :: "Height \<Rightarrow> uint64 \<Rightarrow> exn + uint64" where
  "CalculateGroupedHeight height grouping =
     (if 0 = grouping then Inl Invalid_Argument
      else
        let previousHeight = height - 1;
            groupedHeight = (previousHeight div grouping) * grouping
        in Inr (if groupedHeight < 1 then 1 else groupedHeight))"

record HeightGroupingFacade =
  m_groupedHeight :: uint64
  m_grouping :: uint64

definition hgf_checkHeight :: "uint64 \<Rightarrow> uint64 \<Rightarrow> exn + unit" where
  "hgf_checkHeight grouping groupedHeight =
     (let isHeightGroupingMultiple = (0 = groupedHeight mod grouping)
      in if 1 = groupedHeight \<or> (0 \<noteq> groupedHeight \<and> isHeightGroupingMultiple) then Inr () else Inl Invalid_Argument)"

definition new_HeightGroupingFacade :: "uint64 \<Rightarrow> uint64 \<Rightarrow> exn + HeightGroupingFacade" where
  "new_HeightGroupingFacade groupedHeight grouping =
     (if 0 = grouping then Inl Invalid_Argument
      else rbind (hgf_checkHeight grouping groupedHeight)
             (\<lambda>_. Inr \<lparr>m_groupedHeight = groupedHeight, m_grouping = grouping\<rparr>))"

definition hgf_previous :: "HeightGroupingFacade \<Rightarrow> size_t \<Rightarrow> uint64" where
  "hgf_previous f count =
     (let heightAdjustment = m_grouping f * count
      in if m_groupedHeight f > heightAdjustment then m_groupedHeight f - heightAdjustment else 1)"

definition hgf_next :: "HeightGroupingFacade \<Rightarrow> size_t \<Rightarrow> uint64" where
  "hgf_next f count =
     (let heightAdjustment = m_grouping f * count;
          nextHeight = m_groupedHeight f + heightAdjustment
      in if 1 = m_groupedHeight f \<and> 1 \<noteq> m_grouping f \<and> 0 \<noteq> count then nextHeight - 1 else nextHeight)"

subsection \<open>The bounded stack\<close>

definition cas_abs :: "'a CompactArrayStack \<Rightarrow> 'a list" where
  "cas_abs s = (case m_pArray s of None \<Rightarrow> [] | Some a \<Rightarrow> take (m_size s) a)"

definition cas_inv :: "nat \<Rightarrow> 'a \<Rightarrow> 'a CompactArrayStack \<Rightarrow> bool" where
  "cas_inv N def s \<longleftrightarrow>
     (case m_pArray s of
        None \<Rightarrow> m_size s = 0
      | Some a \<Rightarrow> 0 < m_size s \<and> m_size s \<le> N \<and> length a = N \<and> drop (m_size s) a = replicate (N - m_size s) def)"

lemma cas_size_abs: "cas_inv N def s \<Longrightarrow> m_size s = length (cas_abs s)"
  by (auto simp: cas_inv_def cas_abs_def split: option.splits)

lemma cas_values_abs:
  "cas_inv N def s \<Longrightarrow> cas_values N def s = cas_abs s @ replicate (N - length (cas_abs s)) def"
  by (auto simp: cas_inv_def cas_abs_def cas_values_def min_def split: option.splits)
    (metis append_take_drop_id)

lemma cas_abs_bound: "cas_inv N def s \<Longrightarrow> length (cas_abs s) \<le> N"
  by (auto simp: cas_inv_def cas_abs_def split: option.splits)

lemma cas_new_inv [simp]: "cas_inv N def cas_new" "cas_abs cas_new = []"
  by (simp_all add: cas_new_def cas_inv_def cas_abs_def)

lemma shift_right_front: "a \<noteq> [] \<Longrightarrow> (shift_right (length a) 0 a)[0 := v] = v # butlast a"
  by (subst shift_right_eq) (auto simp: butlast_conv_take neq_Nil_conv)

lemma shift_left_back: "a \<noteq> [] \<Longrightarrow> (shift_left 0 (length a) a)[length a - 1 := d] = tl a @ [d]"
proof -
  assume "a \<noteq> []"
  moreover from this have "drop (length a - 1) a = [last a]" by (cases a rule: rev_cases) auto
  ultimately show ?thesis by (subst shift_left_eq) (auto simp: drop_Suc list_update_append)
qed

lemma cas_push_ok:
  assumes "cas_inv N def s" "0 < N"
  shows "cas_inv N def (cas_push N def v s) \<and> cas_abs (cas_push N def v s) = take N (v # cas_abs s)"
proof (cases "m_pArray s")
  case None
  then have "cas_push N def v s = s\<lparr>m_pArray := Some (v # replicate (N - 1) def), m_size := 1\<rparr>"
    using assms by (cases N) (auto simp: cas_push_def cas_shiftRight_def cas_inv_def Let_def)
  with None assms(2) show ?thesis by (cases N) (auto simp: cas_inv_def cas_abs_def)
next
  case (Some a)
  then have a: "0 < m_size s" "m_size s \<le> N" "length a = N" "drop (m_size s) a = replicate (N - m_size s) def"
    using assms(1) by (auto simp: cas_inv_def)
  have eq: "cas_push N def v s = s\<lparr>m_pArray := Some (v # butlast a), m_size := min N (Suc (m_size s))\<rparr>"
  proof -
    have "a \<noteq> []" using a assms(2) by auto
    from shift_right_front [OF this, of v] Some a show ?thesis
      by (auto simp: cas_push_def cas_shiftRight_def Let_def)
  qed
  have "drop (min N (Suc (m_size s))) (v # butlast a) = replicate (N - min N (Suc (m_size s))) def"
  proof (cases "m_size s < N")
    case True
    then have "drop (m_size s) (butlast a) = butlast (drop (m_size s) a)" by (simp add: drop_butlast)
    with True a(4) show ?thesis by (simp add: butlast_conv_take)
  next
    case False
    with a show ?thesis by simp
  qed
  moreover have "take (min N (Suc (m_size s))) (v # butlast a) = take N (v # take (m_size s) a)"
    using a by (cases N) (auto simp: butlast_conv_take min_def)
  ultimately show ?thesis using Some a assms(2) by (simp add: eq cas_inv_def cas_abs_def)
qed

lemma cas_pop_ok:
  assumes "cas_inv N def s" "cas_abs s \<noteq> []"
  shows "\<exists>s'. cas_pop def s = Inr s' \<and> cas_inv N def s' \<and> cas_abs s' = tl (cas_abs s)"
proof -
  obtain a where Some: "m_pArray s = Some a" using assms by (auto simp: cas_abs_def split: option.splits)
  then have a: "0 < m_size s" "m_size s \<le> N" "length a = N" "drop (m_size s) a = replicate (N - m_size s) def"
    using assms(1) by (auto simp: cas_inv_def)
  have ne: "a \<noteq> []" using a by auto
  let ?s = "s\<lparr>m_pArray := Some (tl a @ [def]), m_size := m_size s - 1\<rparr>"
  have eq: "cas_pop def s = Inr (if m_size s = 1 then ?s\<lparr>m_pArray := None\<rparr> else ?s)"
    using Some a shift_left_back [OF ne, of def]
    by (simp add: cas_pop_def cas_shiftLeft_def shift_left_eq [of 0] Let_def)
  have d: "drop (m_size s - 1) (tl a @ [def]) = replicate (N - (m_size s - 1)) def"
  proof -
    have "drop (m_size s - 1) (tl a) = drop (m_size s) a" using a(1) by (cases "m_size s") (auto simp: drop_Suc)
    with a show ?thesis by (simp add: replicate_append_same Suc_diff_le)
  qed
  have "take (m_size s - 1) (tl a) = tl (take (m_size s) a)" using a(1) ne by (cases a; cases "m_size s") auto
  moreover have "tl (take 1 a) = []" using ne by (cases a) auto
  ultimately show ?thesis
    using eq Some a d by (auto simp: cas_inv_def cas_abs_def)
qed

lemma cas_pop_throws: "cas_inv N def s \<Longrightarrow> cas_abs s = [] \<Longrightarrow> cas_pop def s = Inl Out_Of_Range"
  by (auto simp: cas_inv_def cas_abs_def cas_pop_def cas_shiftLeft_def split: option.splits)

lemma cas_set_top_ok:
  assumes "cas_inv N def s" "cas_abs s \<noteq> []"
  shows "cas_inv N def (cas_set_top v s) \<and> cas_abs (cas_set_top v s) = v # tl (cas_abs s)"
proof -
  obtain a where Some: "m_pArray s = Some a" using assms by (auto simp: cas_abs_def split: option.splits)
  moreover have "a \<noteq> []" "0 < m_size s" using assms Some by (auto simp: cas_inv_def cas_abs_def)
  ultimately show ?thesis
    using assms by (cases a; cases "m_size s") (auto simp: cas_inv_def cas_abs_def cas_set_top_def)
qed

lemma cas_peek_abs: "cas_inv N def s \<Longrightarrow> cas_peek s = (if cas_abs s = [] then Inl Out_Of_Range else Inr (hd (cas_abs s)))"
  by (auto simp: cas_inv_def cas_abs_def cas_peek_def hd_take split: option.splits)

text \<open>The contract: a stack of at most \<open>N\<close> values that forgets the oldest ones.\<close>

locale bounded_stack =
  fixes N :: nat
    and abs :: "'s \<Rightarrow> 'a list"
    and inv :: "'s \<Rightarrow> bool"
    and push :: "'a \<Rightarrow> 's \<Rightarrow> 's"
    and pop :: "'s \<Rightarrow> exn + 's"
  assumes push_ok: "inv s \<Longrightarrow> inv (push v s) \<and> abs (push v s) = take N (v # abs s)"
    and pop_ok: "inv s \<Longrightarrow> abs s \<noteq> [] \<Longrightarrow> \<exists>s'. pop s = Inr s' \<and> inv s' \<and> abs s' = tl (abs s)"
    and pop_throws: "inv s \<Longrightarrow> abs s = [] \<Longrightarrow> pop s = Inl Out_Of_Range"
    and capacity: "0 < N"
begin

lemma pop_push: "inv s \<Longrightarrow> \<exists>s'. pop (push v s) = Inr s' \<and> inv s' \<and> abs s' = take (N - 1) (abs s)"
  using push_ok [of s v] pop_ok [of "push v s"] capacity by (cases N) auto

end

lemma cas_bounded_stack: "0 < N \<Longrightarrow> bounded_stack N cas_abs (cas_inv N def) (cas_push N def) (cas_pop def)"
  by unfold_locales (simp_all add: cas_push_ok cas_pop_ok cas_pop_throws)

interpretation aab: bounded_stack Activity_Bucket_History_Size cas_abs
  "cas_inv Activity_Bucket_History_Size new_ActivityBucket"
  "cas_push Activity_Bucket_History_Size new_ActivityBucket" aab_pop
  unfolding aab_pop_def by (rule cas_bounded_stack) simp

interpretation ais: bounded_stack Importance_History_Size cas_abs
  "cas_inv Importance_History_Size new_ImportanceSnapshot"
  "cas_push Importance_History_Size new_ImportanceSnapshot" ais_pop
  unfolding ais_pop_def by (rule cas_bounded_stack) simp


subsection \<open>Properties of the stacks\<close>

datatype 'a stack_call = Call_push 'a | Call_pop

text \<open>A pop that throws leaves the stack as it was.\<close>

fun cas_step :: "nat \<Rightarrow> 'a \<Rightarrow> 'a stack_call \<Rightarrow> 'a CompactArrayStack \<Rightarrow> 'a CompactArrayStack" where
  "cas_step N def (Call_push v) s = cas_push N def v s"
| "cas_step N def Call_pop s = (case cas_pop def s of Inl _ \<Rightarrow> s | Inr s' \<Rightarrow> s')"

fun stack_step :: "nat \<Rightarrow> 'a stack_call \<Rightarrow> 'a list \<Rightarrow> 'a list" where
  "stack_step N (Call_push v) xs = take N (v # xs)"
| "stack_step N Call_pop xs = tl xs"

lemma cas_step_refines:
  assumes "0 < N" "cas_inv N def s"
  shows "cas_inv N def (cas_step N def c s) \<and> cas_abs (cas_step N def c s) = stack_step N c (cas_abs s)"
proof (cases c)
  case (Call_push v)
  with cas_push_ok [OF assms(2,1)] show ?thesis by simp
next
  case Call_pop
  with assms(2) cas_pop_ok [OF assms(2)] cas_pop_throws [OF assms(2)] show ?thesis
    by (cases "cas_abs s = []") auto
qed

lemma cas_run_refines:
  assumes "0 < N" "cas_inv N def s"
  shows "cas_inv N def (fold (cas_step N def) cs s) \<and> cas_abs (fold (cas_step N def) cs s) = fold (stack_step N) cs (cas_abs s)"
  using assms(2)
proof (induction cs arbitrary: s)
  case (Cons c cs)
  with cas_step_refines [OF assms(1) Cons.prems, of c] show ?case by simp
qed simp

text \<open>
  C34. A compact array stack with room for \<open>N\<close> values behaves as a stack that keeps the newest \<open>N\<close>
  values: after any pushes and pops an iteration yields its values from the top, filled up with
  default values, the size is the number of values, and a pop throws exactly when there is none.
\<close>

theorem array_stack_refines_bounded_stack:
  assumes "0 < N"
  shows "let s = fold (cas_step N def) cs cas_new; xs = fold (stack_step N) cs []
    in cas_values N def s = xs @ replicate (N - length xs) def \<and> length xs \<le> N \<and> m_size s = length xs
       \<and> cas_peek s = (if xs = [] then Inl Out_Of_Range else Inr (hd xs))
       \<and> (cas_pop def s = Inl Out_Of_Range \<longleftrightarrow> xs = [])"
proof -
  let ?s = "fold (cas_step N def) cs cas_new"
  have r: "cas_inv N def ?s" "cas_abs ?s = fold (stack_step N) cs []"
    using cas_run_refines [OF assms, of "def" cas_new cs] by simp_all
  show ?thesis
    using cas_values_abs [OF r(1)] cas_abs_bound [OF r(1)] cas_size_abs [OF r(1)] cas_peek_abs [OF r(1)]
      cas_pop_ok [OF r(1)] cas_pop_throws [OF r(1)]
    by (auto simp: r(2) Let_def)
qed

theorem array_stack_refines_bounded_stack_witness:
  "let s = fold (cas_step 2 0) [Call_push 1, Call_push 2, Call_push 3, Call_pop] cas_new;
       xs = fold (stack_step 2) [Call_push 1, Call_push 2, Call_push 3, Call_pop] []
   in cas_values 2 0 s = xs @ replicate (2 - length xs) 0 \<and> length xs \<le> 2 \<and> m_size s = length xs
      \<and> cas_peek s = (if xs = [] then Inl Out_Of_Range else Inr (hd xs))
      \<and> (cas_pop (0 :: nat) s = Inl Out_Of_Range \<longleftrightarrow> xs = [])"
  by (rule array_stack_refines_bounded_stack) simp

text \<open>
  Copy assignment of a stack copies the values of its source only when the source holds any: an
  empty source leaves the old values of the target visible to an iteration.
\<close>

theorem array_stack_assign_keeps_old_values:
  "let src = fold (cas_step N def) cs cas_new; s = fold (cas_step N def) ds cas_new
   in 0 < N \<longrightarrow> cas_values N def (cas_assign src s) = (if m_size src = 0 then cas_values N def s else cas_values N def src)
      \<and> m_size (cas_assign src s) = m_size src"
proof -
  let ?src = "fold (cas_step N def) cs cas_new"
  have "0 < N \<Longrightarrow> cas_inv N def ?src" using cas_run_refines [of N "def" cas_new cs] by simp
  then show ?thesis
    by (auto simp: cas_assign_def cas_values_def cas_inv_def Let_def split: option.splits)
qed

theorem array_stack_assign_keeps_old_values_witness:
  "cas_values 2 0 (cas_assign cas_new (fold (cas_step 2 0) [Call_push (5 :: nat)] cas_new)) = [5, 0]"
  using array_stack_assign_keeps_old_values [of 2 0 "[]" "[Call_push (5 :: nat)]"]
  by (simp add: cas_push_def cas_shiftRight_def cas_values_def cas_new_def numeral_2_eq_2 Let_def)

subsection \<open>Properties of the buckets and snapshots\<close>

abbreviation aab_inv :: "AccountActivityBuckets \<Rightarrow> bool" where
  "aab_inv \<equiv> cas_inv Activity_Bucket_History_Size new_ActivityBucket"

lemma aab_values_abs: "aab_inv b \<Longrightarrow> aab_values b = cas_abs b @ replicate (7 - length (cas_abs b)) new_ActivityBucket"
  by (simp add: aab_values_def cas_values_abs)

lemma cas_values_push:
  assumes "cas_inv N def s" "0 < N"
  shows "cas_values N def (cas_push N def v s) = v # butlast (cas_values N def s)"
proof -
  have "cas_inv N def (cas_push N def v s)" "cas_abs (cas_push N def v s) = take N (v # cas_abs s)"
    using cas_push_ok [OF assms] by auto
  moreover have "take N (v # cas_abs s) @ replicate (N - length (take N (v # cas_abs s))) def
      = v # butlast (cas_abs s @ replicate (N - length (cas_abs s)) def)"
  proof (cases "length (cas_abs s) < N")
    case True
    then obtain n where "N - length (cas_abs s) = Suc n" by (metis Suc_diff_Suc)
    moreover have "butlast (replicate (Suc n) def) = replicate n def" by (induction n) auto
    ultimately show ?thesis using True by (auto simp: butlast_append)
  next
    case False
    with cas_abs_bound [OF assms(1)] assms(2) show ?thesis by (cases N) (auto simp: butlast_conv_take)
  qed
  ultimately show ?thesis using cas_values_abs assms(1) by metis
qed

lemma cas_values_length: "cas_inv N def s \<Longrightarrow> length (cas_values N def s) = N"
  using cas_abs_bound [of N "def" s] by (simp add: cas_values_abs)

lemma cas_values_set_top:
  assumes "cas_inv N def s" "cas_abs s \<noteq> []"
  shows "cas_values N def (cas_set_top v s) = v # tl (cas_values N def s)"
  using cas_set_top_ok [OF assms, of v] cas_values_abs assms
  by (metis append_Cons length_Cons length_tl list.exhaust_sel tl_append2)

lemma cas_values_pop:
  assumes "cas_inv N def s" "cas_abs s \<noteq> []"
  shows "\<exists>s'. cas_pop def s = Inr s' \<and> cas_inv N def s' \<and> cas_values N def s' = tl (cas_values N def s) @ [def]"
proof -
  obtain s' where s': "cas_pop def s = Inr s'" "cas_inv N def s'" "cas_abs s' = tl (cas_abs s)"
    using cas_pop_ok [OF assms] by blast
  have "N - length (cas_abs s') = Suc (N - length (cas_abs s))"
    using s'(3) assms(2) cas_abs_bound [OF assms(1)] by (cases "cas_abs s") (auto simp: Suc_diff_le)
  with s' assms show ?thesis
    by (auto simp: cas_values_abs replicate_append_same simp del: replicate_Suc)
      (simp add: replicate_append_same)
qed

lemma StartHeight_update_detached [simp]: "StartHeight (update_detached f b) = StartHeight b"
  by (simp add: update_detached_def ActivityBucket.defs HeightDetachedActivityBucket.defs)

lemma aab_tryUpdate_new:
  assumes "aab_inv b" "StartHeight (hd (aab_values b)) < height"
  shows "\<exists>b'. aab_tryUpdate True height f b = Inr (True, b') \<and> aab_inv b' \<and> cas_abs b' \<noteq> []
    \<and> aab_values b' = update_detached f (new_ActivityBucket\<lparr>StartHeight := height\<rparr>) # butlast (aab_values b)"
proof -
  let ?new = "new_ActivityBucket\<lparr>StartHeight := height\<rparr>"
  let ?p = "cas_push 7 new_ActivityBucket ?new b"
  have p: "aab_inv ?p" "cas_abs ?p \<noteq> []" "hd (cas_abs ?p) = ?new" using cas_push_ok [OF assms(1), of ?new] by auto
  have "aab_tryUpdate True height f b = Inr (True, cas_set_top (update_detached f ?new) ?p)"
    using assms(2) p cas_peek_abs [OF p(1)] by (auto simp: aab_tryUpdate_def Let_def)
  with cas_set_top_ok [OF p(1,2)] cas_values_set_top [OF p(1,2)] cas_values_push [OF assms(1), of ?new] show ?thesis
    by (simp add: aab_values_def)
qed

text \<open>
  Updating the activity of an account at a height. With the start height of the newest bucket: a
  lower height than a nonzero one throws; a higher one opens a new bucket, dropping the oldest, or
  changes nothing when no bucket may be created; otherwise the newest bucket is changed in place,
  keeping its start height, unless there is no bucket at all.
\<close>

theorem activity_update_cases:
  assumes "aab_inv b"
  shows "let lastHeight = StartHeight (hd (aab_values b));
             bucket = (if lastHeight < height then new_ActivityBucket\<lparr>StartHeight := height\<rparr> else hd (aab_values b));
             older = (if lastHeight < height then butlast (aab_values b) else tl (aab_values b))
    in case aab_tryUpdate create height f b of
         Inl e \<Rightarrow> (e = Runtime_Error \<and> 0 < lastHeight \<and> height < lastHeight)
           \<or> (e = Out_Of_Range \<and> height = 0 \<and> m_size b = 0)
       | Inr (updated, b') \<Rightarrow> aab_inv b' \<and> lastHeight \<le> height
           \<and> (if updated then aab_values b' = update_detached f bucket # older
              else b' = b \<and> lastHeight < height \<and> create = False)"
proof -
  let ?last = "StartHeight (hd (aab_values b))"
  let ?new = "new_ActivityBucket\<lparr>StartHeight := height\<rparr>"
  consider "0 < ?last" "height < ?last" | "?last < height" "\<not> create" | "?last < height" "create"
    | "?last = height" "cas_abs b = []" | "?last = height" "cas_abs b \<noteq> []"
    by (metis linorder_neqE word_gt_0 word_le_0_iff not_less)
  then show ?thesis
  proof cases
    case 3
    with aab_tryUpdate_new [OF assms 3(1), of f] show ?thesis by (auto simp: Let_def less_imp_le)
  next
    case 4
    then have "height = 0" "m_size b = 0"
      using aab_values_abs [OF assms] cas_size_abs [OF assms] by (simp_all add: new_ActivityBucket_def)
    with 4 cas_peek_abs [OF assms] show ?thesis by (simp add: aab_tryUpdate_def Let_def)
  next
    case 5
    have "hd (cas_abs b) = hd (aab_values b)" using 5 by (simp add: aab_values_abs [OF assms])
    with 5 cas_peek_abs [OF assms] cas_set_top_ok [OF assms 5(2)] cas_values_set_top [OF assms 5(2)] show ?thesis
      by (simp add: aab_tryUpdate_def aab_values_def Let_def)
  qed (auto simp: aab_tryUpdate_def assms Let_def)
qed

theorem activity_update_cases_witness:
  "let b = cas_new; lastHeight = StartHeight (hd (aab_values b));
       bucket = (if lastHeight < 5 then new_ActivityBucket\<lparr>StartHeight := 5\<rparr> else hd (aab_values b));
       older = (if lastHeight < 5 then butlast (aab_values b) else tl (aab_values b))
   in case aab_tryUpdate True 5 (\<lambda>x. x\<lparr>TotalFeesPaid := 9\<rparr>) b of
        Inl e \<Rightarrow> (e = Runtime_Error \<and> 0 < lastHeight \<and> 5 < lastHeight) \<or> (e = Out_Of_Range \<and> (5 :: ImportanceHeight) = 0 \<and> m_size b = 0)
      | Inr (updated, b') \<Rightarrow> aab_inv b' \<and> lastHeight \<le> 5
          \<and> (if updated then aab_values b' = update_detached (\<lambda>x. x\<lparr>TotalFeesPaid := 9\<rparr>) bucket # older
             else b' = b \<and> lastHeight < 5 \<and> True = False)"
  using activity_update_cases [OF cas_new_inv(1), where height = 5 and create = True and f = "\<lambda>x. x\<lparr>TotalFeesPaid := 9\<rparr>"] by (simp add: Let_def)

text \<open>
  Rolling back an update that opened a bucket: popping it ends normally and gives back the older
  buckets; only the oldest one is lost when the history was full.
\<close>

theorem activity_pop_undoes_update:
  assumes "aab_inv b" "StartHeight (hd (aab_values b)) < height"
  shows "\<exists>b1 b2. aab_update height f b = Inr b1 \<and> StartHeight (hd (aab_values b1)) = height
    \<and> aab_get b1 height = hd (aab_values b1) \<and> aab_pop b1 = Inr b2
    \<and> aab_values b2 = butlast (aab_values b) @ [new_ActivityBucket]"
proof -
  obtain b1 where b1: "aab_tryUpdate True height f b = Inr (True, b1)" "aab_inv b1" "cas_abs b1 \<noteq> []"
      "aab_values b1 = update_detached f (new_ActivityBucket\<lparr>StartHeight := height\<rparr>) # butlast (aab_values b)"
    using aab_tryUpdate_new [OF assms] by blast
  obtain b2 where "aab_pop b1 = Inr b2" "aab_values b2 = tl (aab_values b1) @ [new_ActivityBucket]"
    using cas_values_pop [OF b1(2,3)] by (auto simp: aab_pop_def aab_values_def)
  with b1 show ?thesis by (simp add: aab_update_def aab_get_def)
qed

theorem activity_pop_undoes_update_witness:
  "\<exists>b1 b2. aab_update 5 (\<lambda>x. x\<lparr>TotalFeesPaid := 9\<rparr>) cas_new = Inr b1 \<and> StartHeight (hd (aab_values b1)) = 5
    \<and> aab_get b1 5 = hd (aab_values b1) \<and> aab_pop b1 = Inr b2
    \<and> aab_values b2 = butlast (aab_values cas_new) @ [new_ActivityBucket]"
  by (rule activity_pop_undoes_update [OF cas_new_inv(1)])
     (simp add: aab_values_def cas_values_def cas_new_def new_ActivityBucket_def)

text \<open>
  Setting an importance throws exactly when a nonzero last height is not below the new one; otherwise the
  new importance is current, can be looked up at its height, and popping it gives back the older
  snapshots, except the oldest one of a full history.
\<close>

theorem importance_set_and_pop:
  assumes "cas_inv Importance_History_Size new_ImportanceSnapshot s"
  shows "case ais_set importance height s of
      Inl e \<Rightarrow> e = Runtime_Error \<and> ais_active s \<and> height \<le> ais_height s
    | Inr s1 \<Rightarrow> (ais_active s \<longrightarrow> ais_height s < height) \<and> ais_current s1 = importance \<and> ais_height s1 = height
        \<and> ais_get s1 height = importance
        \<and> (\<exists>s2. ais_pop s1 = Inr s2 \<and> ais_values s2 = butlast (ais_values s) @ [new_ImportanceSnapshot])"
proof (cases "ais_active s \<and> height \<le> ais_height s")
  case True
  then show ?thesis by (auto simp: ais_set_def ais_active_def)
next
  case False
  let ?v = "\<lparr>snapshot_Importance = importance, snapshot_Height = height\<rparr>"
  let ?p = "cas_push Importance_History_Size new_ImportanceSnapshot ?v s"
  have p: "cas_inv Importance_History_Size new_ImportanceSnapshot ?p" "cas_abs ?p \<noteq> []"
    using cas_push_ok [OF assms, of ?v] by auto
  have vals: "ais_values ?p = ?v # butlast (ais_values s)"
    using cas_values_push [OF assms, of ?v] by (simp add: ais_values_def)
  obtain s2 where "ais_pop ?p = Inr s2" "ais_values s2 = tl (ais_values ?p) @ [new_ImportanceSnapshot]"
    using cas_values_pop [OF p] by (auto simp: ais_pop_def ais_values_def)
  moreover have "ais_set importance height s = Inr ?p" using False by (auto simp: ais_set_def ais_active_def)
  ultimately show ?thesis
    using False vals by (auto simp: ais_current_def ais_height_def ais_get_def)
qed

theorem importance_set_and_pop_witness:
  "case ais_set 9 5 cas_new of
      Inl e \<Rightarrow> e = Runtime_Error \<and> ais_active cas_new \<and> 5 \<le> ais_height cas_new
    | Inr s1 \<Rightarrow> (ais_active cas_new \<longrightarrow> ais_height cas_new < 5) \<and> ais_current s1 = 9 \<and> ais_height s1 = 5
        \<and> ais_get s1 5 = 9
        \<and> (\<exists>s2. ais_pop s1 = Inr s2 \<and> ais_values s2 = butlast (ais_values cas_new) @ [new_ImportanceSnapshot])"
  by (rule importance_set_and_pop [OF cas_new_inv(1)])

subsection \<open>Voting keys\<close>

text \<open>The keys are kept in the order of their disjoint epoch ranges, and an empty vector is dropped.\<close>

definition pks_inv :: "PublicKeysAccessor \<Rightarrow> bool" where
  "pks_inv p \<longleftrightarrow> p \<noteq> Some [] \<and> (\<forall>k \<in> set (pks_getAll p). StartEpoch k \<le> EndEpoch k)
     \<and> sorted_wrt (\<lambda>a b. EndEpoch a < StartEpoch b) (pks_getAll p)"

lemma index_of_None: "index_of P xs = None \<longleftrightarrow> (\<forall>x \<in> set xs. \<not> P x)"
  by (induction xs) auto

lemma index_of_Some: "index_of P xs = Some i \<Longrightarrow> i < length xs \<and> P (xs ! i) \<and> (\<forall>j < i. \<not> P (xs ! j))"
proof (induction xs arbitrary: i)
  case (Cons x xs)
  then show ?case by (cases i) (auto simp: less_Suc_eq_0_disj split: if_splits)
qed simp

lemma EnsureNoOverlap_iff:
  assumes "\<forall>k \<in> set keys. StartEpoch k \<le> EndEpoch k" "StartEpoch key \<le> EndEpoch key"
  shows "EnsureNoOverlap keys key = (if \<exists>k \<in> set keys. \<exists>e. ContainsEpoch k e \<and> ContainsEpoch key e
    then Inl Invalid_Argument else Inr ())"
proof -
  have "(\<exists>e. ContainsEpoch k e \<and> ContainsEpoch key e) \<longleftrightarrow> (ContainsEpoch key (StartEpoch k)
      \<or> ContainsEpoch key (EndEpoch k) \<or> ContainsEpoch k (StartEpoch key))" if "k \<in> set keys" for k
    using assms that unfolding ContainsEpoch_def by (meson linear order_trans order_refl)
  then show ?thesis by (auto simp: EnsureNoOverlap_def list_ex_iff)
qed

lemma pks_insert_sorted:
  assumes "pks_inv p" "StartEpoch key \<le> EndEpoch key"
    "\<And>k e. k \<in> set (pks_getAll p) \<Longrightarrow> ContainsEpoch k e \<Longrightarrow> \<not> ContainsEpoch key e"
  defines "before \<equiv> takeWhile (\<lambda>k. \<not> StartEpoch k > EndEpoch key) (pks_getAll p)"
  defines "after \<equiv> dropWhile (\<lambda>k. \<not> StartEpoch k > EndEpoch key) (pks_getAll p)"
  shows "pks_getAll p = before @ after" "pks_add key p = Inr (Some (before @ key # after))"
    "pks_inv (Some (before @ key # after))"
proof -
  let ?keys = "pks_getAll p"
  show split: "?keys = before @ after" by (simp add: before_def after_def)
  have valid: "\<forall>k \<in> set ?keys. StartEpoch k \<le> EndEpoch k" using assms(1) by (simp add: pks_inv_def)
  then have "EnsureNoOverlap ?keys key = Inr ()" using assms(2,3) by (auto simp: EnsureNoOverlap_iff)
  then show "pks_add key p = Inr (Some (before @ key # after))"
    by (simp add: pks_add_def before_def after_def dropWhile_eq_drop [symmetric] Let_def)
  have b: "EndEpoch k < StartEpoch key" if "k \<in> set before" for k
  proof -
    have k: "k \<in> set ?keys" "\<not> EndEpoch key < StartEpoch k"
      using that set_takeWhileD [of k _ ?keys] unfolding before_def by blast+
    have "ContainsEpoch k (StartEpoch k)" "ContainsEpoch key (StartEpoch key)"
      using valid k(1) assms(2) by (auto simp: ContainsEpoch_def)
    then have "\<not> ContainsEpoch key (StartEpoch k)" "\<not> ContainsEpoch k (StartEpoch key)"
      using assms(3) [OF k(1)] by blast+
    with k(2) show ?thesis by (simp add: ContainsEpoch_def) (meson less_imp_le not_le)
  qed
  have sorted: "sorted_wrt (\<lambda>a b. EndEpoch a < StartEpoch b) (before @ after)"
    using assms(1) split by (simp add: pks_inv_def)
  have a: "EndEpoch key < StartEpoch k" if mem: "k \<in> set after" for k
  proof -
    obtain x xs where x: "after = x # xs" "EndEpoch key < StartEpoch x"
      using mem hd_dropWhile [of "\<lambda>k. \<not> StartEpoch k > EndEpoch key" ?keys]
      unfolding after_def [symmetric] by (cases after) auto
    have "StartEpoch x \<le> EndEpoch x" using valid split x(1) by simp
    then show ?thesis using mem x sorted by (auto simp: sorted_wrt_append intro: order_less_trans order_le_less_trans)
  qed
  show "pks_inv (Some (before @ key # after))"
  proof -
    have "\<forall>k \<in> set (before @ after). StartEpoch k \<le> EndEpoch k" using valid split by simp
    with sorted a b assms(2) show ?thesis by (auto simp: pks_inv_def pks_getAll_def [of "Some _"] sorted_wrt_append)
  qed
qed

text \<open>
  Adding a voting key whose epoch range is not empty throws exactly when its range meets the range
  of a key that is present. Otherwise the keys stay ordered by disjoint ranges, an epoch finds the
  new key exactly when it is in its range, and removing the key gives back the keys.
\<close>

theorem voting_key_add_and_remove:
  assumes "pks_inv p" "StartEpoch key \<le> EndEpoch key"
  shows "case pks_add key p of
      Inl e \<Rightarrow> e = Invalid_Argument \<and> (\<exists>k \<in> set (pks_getAll p). \<exists>e. ContainsEpoch k e \<and> ContainsEpoch key e)
    | Inr p' \<Rightarrow> pks_inv p' \<and> set (pks_getAll p') = insert key (set (pks_getAll p))
        \<and> (\<forall>e. ContainsEpoch key e \<longleftrightarrow> (\<exists>i. pks_contains p' e = Some i \<and> pks_getAll p' ! i = key))
        \<and> pks_remove key p' = (True, p)"
proof (cases "\<exists>k \<in> set (pks_getAll p). \<exists>e. ContainsEpoch k e \<and> ContainsEpoch key e")
  case True
  then show ?thesis
    using EnsureNoOverlap_iff [of "pks_getAll p" key] assms by (simp add: pks_add_def pks_inv_def)
next
  case False
  let ?before = "takeWhile (\<lambda>k. \<not> StartEpoch k > EndEpoch key) (pks_getAll p)"
  let ?after = "dropWhile (\<lambda>k. \<not> StartEpoch k > EndEpoch key) (pks_getAll p)"
  note ins = pks_insert_sorted [OF assms]
  have no: "\<not> ContainsEpoch key e" if "k \<in> set (pks_getAll p)" "ContainsEpoch k e" for k e using False that by blast
  define keys where "keys = ?before @ key # ?after"
  have keys: "pks_getAll p = ?before @ ?after" "pks_add key p = Inr (Some keys)" "pks_inv (Some keys)"
    using ins no unfolding keys_def by blast+
  have self: "ContainsEpoch key (StartEpoch key)" using assms(2) by (simp add: ContainsEpoch_def)
  have notin: "key \<notin> set (pks_getAll p)" using no self by blast
  have set: "set keys = insert key (set (pks_getAll p))"
  proof -
    have "set ?before \<union> set ?after = set (pks_getAll p)" by (metis set_append takeWhile_dropWhile_id)
    then show ?thesis by (auto simp: keys_def)
  qed
  have find: "ContainsEpoch key e \<longleftrightarrow> (\<exists>i. pks_contains (Some keys) e = Some i \<and> keys ! i = key)" for e
  proof
    assume e: "ContainsEpoch key e"
    then have "index_of (\<lambda>k. ContainsEpoch k e) keys \<noteq> None" by (auto simp: index_of_None keys_def)
    then obtain i where i: "index_of (\<lambda>k. ContainsEpoch k e) keys = Some i" by auto
    then have "keys ! i \<in> set keys" "ContainsEpoch (keys ! i) e" using index_of_Some by (metis nth_mem)+
    then have "keys ! i = key" using no e set by blast
    with i show "\<exists>i. pks_contains (Some keys) e = Some i \<and> keys ! i = key" by (simp add: pks_contains_def)
  next
    assume "\<exists>i. pks_contains (Some keys) e = Some i \<and> keys ! i = key"
    then show "ContainsEpoch key e" using index_of_Some by (force simp: pks_contains_def)
  qed
  have match: "pks_matches key k \<longleftrightarrow> k = key" for k by (auto simp: pks_matches_def)
  have "index_of (pks_matches key) keys = Some (length ?before)"
  proof -
    have "index_of (pks_matches key) (xs @ key # ys) = Some (length xs)" if "key \<notin> set xs" for xs ys
      using that by (induction xs) (auto simp: match)
    moreover have "key \<notin> set ?before" using notin keys(1) by (metis Un_iff set_append)
    ultimately show ?thesis by (simp add: keys_def)
  qed
  then have "pks_remove key (Some keys) = (True, if ?before @ ?after = [] then None else Some (?before @ ?after))"
    by (simp add: pks_remove_def keys_def Let_def)
  also have "(if ?before @ ?after = [] then None else Some (?before @ ?after)) = p"
    using assms(1) by (cases p) (auto simp: pks_getAll_def pks_inv_def simp flip: keys(1))
  finally show ?thesis
    using keys(2,3) find set by (simp add: pks_getAll_def [of "Some keys"])
qed

theorem voting_key_add_and_remove_witness:
  "\<exists>p'. pks_add \<lparr>pinned_VotingKey = 1, StartEpoch = 5, EndEpoch = 9\<rparr>
        (Some [\<lparr>pinned_VotingKey = 2, StartEpoch = 2, EndEpoch = 4\<rparr>]) = Inr p'
    \<and> pks_inv p' \<and> pks_remove \<lparr>pinned_VotingKey = 1, StartEpoch = 5, EndEpoch = 9\<rparr> p'
        = (True, Some [\<lparr>pinned_VotingKey = 2, StartEpoch = 2, EndEpoch = 4\<rparr>])"
proof -
  let ?k = "\<lparr>pinned_VotingKey = 1, StartEpoch = 5, EndEpoch = 9\<rparr>"
  let ?p = "Some [\<lparr>pinned_VotingKey = 2, StartEpoch = 2, EndEpoch = 4\<rparr>]"
  obtain p' where p': "pks_add ?k ?p = Inr p'"
    by (simp add: pks_add_def EnsureNoOverlap_def ContainsEpoch_def pks_getAll_def Let_def)
  have "pks_inv ?p" by (simp add: pks_inv_def pks_getAll_def)
  from voting_key_add_and_remove [OF this, of ?k] p' show ?thesis by simp
qed

subsection \<open>Grouped heights\<close>

text \<open>
  A grouped height is defined for every nonzero grouping. For a positive height it is the largest
  multiple of the grouping below the height, or 1 when that is 0; the facade always accepts it.
\<close>

theorem grouped_height_spec:
  assumes "0 < height"
  shows "case CalculateGroupedHeight height grouping of
      Inl e \<Rightarrow> e = Invalid_Argument \<and> grouping = 0
    | Inr g \<Rightarrow> grouping \<noteq> 0 \<and> unat g = max 1 ((unat height - 1) div unat grouping * unat grouping)
        \<and> unat height \<le> unat g + unat grouping \<and> (1 < height \<longrightarrow> g < height)
        \<and> (\<exists>f. new_HeightGroupingFacade g grouping = Inr f)"
proof (cases "grouping = 0")
  case True
  then show ?thesis by (simp add: CalculateGroupedHeight_def)
next
  case False
  define q where "q = (height - 1) div grouping * grouping"
  have h: "unat (height - 1) = unat height - 1" "0 < unat height"
    using assms by (auto simp: unat_minus_one word_gt_0 unat_gt_0)
  have g0: "0 < unat grouping" using False by (simp add: unat_gt_0)
  have le: "(unat height - 1) div unat grouping * unat grouping \<le> unat height - 1" by simp
  have q: "unat q = (unat height - 1) div unat grouping * unat grouping"
  proof -
    have "unat height < 2 ^ LENGTH(64)" by (rule unsigned_less)
    moreover have "unat ((height - 1) div grouping) * unat grouping \<le> unat height - 1"
      using h(1) by (simp add: unat_div)
    ultimately have "unat ((height - 1) div grouping) * unat grouping < 2 ^ LENGTH(64)" by linarith
    then show ?thesis unfolding q_def using h(1) by (simp add: unat_mult_lem [THEN iffD1] unat_div)
  qed
  have eq: "CalculateGroupedHeight height grouping = Inr (if q < 1 then 1 else q)"
    using False by (simp add: CalculateGroupedHeight_def q_def Let_def)
  have q1: "q < 1 \<longleftrightarrow> unat q = 0" by (simp add: word_less_nat_alt)
  have u: "unat (if q < 1 then 1 else q) = max 1 (unat q)" using q1 by auto
  define g where "g = (if q < 1 then 1 else q)"
  have g: "unat g = max 1 (unat q)" unfolding g_def by (rule u)
  have qle: "unat q \<le> unat height - 1" using q by simp
  have "unat height \<le> unat q + unat grouping"
    using q h(2) div_mult_mod_eq [of "unat height - 1" "unat grouping"] mod_less_divisor [OF g0, of "unat height - 1"]
    by linarith
  then have "unat height \<le> unat g + unat grouping" using g by linarith
  moreover have "g < height" if "1 < height"
  proof -
    have "1 < unat height" using that by (simp add: word_less_nat_alt)
    with qle g show ?thesis unfolding word_less_nat_alt by linarith
  qed
  moreover have "q mod grouping = 0"
    using q by (metis mod_mult_self2_is_0 unat_eq_0 unat_mod)
  then have "\<exists>f. new_HeightGroupingFacade g grouping = Inr f"
    using False q1 by (auto simp: g_def new_HeightGroupingFacade_def hgf_checkHeight_def)
  moreover have "CalculateGroupedHeight height grouping = Inr g" using eq by (simp add: g_def)
  ultimately show ?thesis using False g q by simp
qed

theorem grouped_height_spec_witness:
  "CalculateGroupedHeight 1000 359 = Inr 718 \<and> (\<exists>f. new_HeightGroupingFacade 718 359 = Inr f)"
proof -
  have "CalculateGroupedHeight 1000 359 = Inr 718" by (simp add: CalculateGroupedHeight_def Let_def)
  with grouped_height_spec [of 1000 359] show ?thesis by simp
qed

end
