(* ===== verification/DeltaSet.thy ===== *)
theory DeltaSet
  imports StlMap
begin

section \<open>Delta sets (catapult/deltaset)\<close>

text \<open>
  Every cache of the node keeps its data in a \<open>BaseSet\<close> and changes it through a
  \<open>BaseSetDelta\<close> that records added, removed and copied elements until they are committed.
  The model keeps the five members of the class. A pointer returned by the non-const \<open>find\<close>
  refers to the element in the copied or in the added elements; writing through it is
  \<open>bsd_store\<close>. The abstract view of a delta, \<open>bsd_view\<close>, is the map a reader sees.
\<close>

subsection \<open>Results and state\<close>

datatype InsertResult = Insert_Unremoved | Insert_Updated | Insert_Redundant | Insert_Inserted

datatype RemoveResult =
  Remove_None | Remove_Unmodified_And_Removed | Remove_Uninserted | Remove_Redundant | Remove_Removed

datatype MutabilityTag = MutableTypeTag | ImmutableTypeTag

record ('k, 'e) BaseSetDelta =
  originalElements :: "('k, 'e) smap"
  addedElements :: "('k, 'e) smap"
  removedElements :: "('k, 'e) smap"
  copiedElements :: "('k, 'e) smap"
  generationId :: uint32
  keyGenerationIdMap :: "('k, uint32) smap"

record ('k, 'e) DeltaElements =
  Added :: "('k, 'e) smap"
  Removed :: "('k, 'e) smap"
  Copied :: "('k, 'e) smap"

definition HasChanges :: "('k, 'e) DeltaElements \<Rightarrow> bool" where
  "HasChanges ds \<longleftrightarrow> \<not> (Added ds = [] \<and> Copied ds = [] \<and> Removed ds = [])"

definition bsd_new :: "('k, 'e) smap \<Rightarrow> ('k, 'e) BaseSetDelta" where
  "bsd_new original =
     \<lparr>originalElements = original, addedElements = smap_empty, removedElements = smap_empty,
      copiedElements = smap_empty, generationId = 1, keyGenerationIdMap = smap_empty\<rparr>"

text \<open>\<open>size_t\<close> arithmetic: the subtraction may wrap before the addition.\<close>

definition bsd_size :: "('k, 'e) BaseSetDelta \<Rightarrow> size_t" where
  "bsd_size d =
     of_nat (smap_size (originalElements d)) - of_nat (smap_size (removedElements d))
       + of_nat (smap_size (addedElements d))"

definition bsd_empty :: "('k, 'e) BaseSetDelta \<Rightarrow> bool" where
  "bsd_empty d \<longleftrightarrow> 0 = bsd_size d"

subsection \<open>Generations\<close>

definition bsd_markKey :: "'k::linorder \<Rightarrow> ('k, 'e) BaseSetDelta \<Rightarrow> ('k, 'e) BaseSetDelta" where
  "bsd_markKey key d = d\<lparr>keyGenerationIdMap := smap_put key (generationId d) (keyGenerationIdMap d)\<rparr>"

definition bsd_clearKey :: "'k::linorder \<Rightarrow> ('k, 'e) BaseSetDelta \<Rightarrow> ('k, 'e) BaseSetDelta" where
  "bsd_clearKey key d = d\<lparr>keyGenerationIdMap := smap_erase key (keyGenerationIdMap d)\<rparr>"

definition bsd_keyGenerationId :: "('k, 'e) BaseSetDelta \<Rightarrow> 'k \<Rightarrow> uint32" where
  "bsd_keyGenerationId d key =
     (case smap_find (keyGenerationIdMap d) key of None \<Rightarrow> 0 | Some g \<Rightarrow> g)"

definition bsd_incrementGenerationId :: "('k, 'e) BaseSetDelta \<Rightarrow> ('k, 'e) BaseSetDelta" where
  "bsd_incrementGenerationId d = d\<lparr>generationId := generationId d + 1\<rparr>"

subsection \<open>Find\<close>

definition bsd_find_original :: "('k, 'e) BaseSetDelta \<Rightarrow> 'k \<Rightarrow> 'e option" where
  "bsd_find_original d key = smap_find (originalElements d) key"

text \<open>\<open>Find\<close> over a const delta.\<close>

definition bsd_find_const ::
  "MutabilityTag \<Rightarrow> ('k, 'e) BaseSetDelta \<Rightarrow> 'k \<Rightarrow> 'e option" where
  "bsd_find_const tag d key =
     (if smap_contains (removedElements d) key then None
      else
        let original =
              (case tag of
                 ImmutableTypeTag \<Rightarrow> bsd_find_original d key
               | MutableTypeTag \<Rightarrow>
                   (case smap_find (copiedElements d) key of
                      Some e \<Rightarrow> Some e
                    | None \<Rightarrow> bsd_find_original d key))
        in case original of
             Some e \<Rightarrow> Some e
           | None \<Rightarrow> smap_find (addedElements d) key)"

text \<open>The mutable look up of an original element copies it on first access.\<close>

definition bsd_find_mutable ::
  "('k::linorder, 'e) BaseSetDelta \<Rightarrow> 'k \<Rightarrow> 'e option \<times> ('k, 'e) BaseSetDelta" where
  "bsd_find_mutable d key =
     (case smap_find (copiedElements d) key of
        Some e \<Rightarrow> (Some e, d)
      | None \<Rightarrow>
          (case bsd_find_original d key of
             None \<Rightarrow> (None, d)
           | Some e \<Rightarrow> (Some e, d\<lparr>copiedElements := smap_insert key e (copiedElements d)\<rparr>)))"

definition bsd_markFoundElement ::
  "MutabilityTag \<Rightarrow> 'k::linorder \<Rightarrow> ('k, 'e) BaseSetDelta \<Rightarrow> ('k, 'e) BaseSetDelta" where
  "bsd_markFoundElement tag key d =
     (case tag of MutableTypeTag \<Rightarrow> bsd_markKey key d | ImmutableTypeTag \<Rightarrow> d)"

definition bsd_find ::
  "MutabilityTag \<Rightarrow> ('k::linorder, 'e) BaseSetDelta \<Rightarrow> 'k \<Rightarrow> 'e option \<times> ('k, 'e) BaseSetDelta" where
  "bsd_find tag d key =
     (if smap_contains (removedElements d) key then (None, d)
      else
        let (original, d1) =
              (case tag of
                 ImmutableTypeTag \<Rightarrow> (bsd_find_original d key, d)
               | MutableTypeTag \<Rightarrow> bsd_find_mutable d key)
        in case original of
             Some e \<Rightarrow> (Some e, bsd_markFoundElement tag key d1)
           | None \<Rightarrow>
               (case smap_find (addedElements d1) key of
                  Some e \<Rightarrow> (Some e, bsd_markFoundElement tag key d1)
                | None \<Rightarrow> (None, d1)))"

text \<open>Assignment through the pointer of a found mutable element.\<close>

definition bsd_store ::
  "'k::linorder \<Rightarrow> 'e \<Rightarrow> ('k, 'e) BaseSetDelta \<Rightarrow> ('k, 'e) BaseSetDelta" where
  "bsd_store key e d =
     (if smap_contains (copiedElements d) key
      then d\<lparr>copiedElements := smap_put key e (copiedElements d)\<rparr>
      else d\<lparr>addedElements := smap_put key e (addedElements d)\<rparr>)"

definition bsd_contains :: "('k, 'e) BaseSetDelta \<Rightarrow> 'k \<Rightarrow> bool" where
  "bsd_contains d key \<longleftrightarrow>
     \<not> smap_contains (removedElements d) key
     \<and> (smap_contains (addedElements d) key \<or> smap_contains (originalElements d) key)"

subsection \<open>Insert\<close>

definition bsd_insert_mutable ::
  "'k::linorder \<Rightarrow> 'e \<Rightarrow> ('k, 'e) BaseSetDelta \<Rightarrow> InsertResult \<times> ('k, 'e) BaseSetDelta" where
  "bsd_insert_mutable key e d =
     (let d = bsd_markKey key d;
          toCopied = (\<lambda>d. d\<lparr>copiedElements := smap_insert key e (smap_erase key (copiedElements d))\<rparr>);
          toAdded = (\<lambda>d. d\<lparr>addedElements := smap_insert key e (smap_erase key (addedElements d))\<rparr>)
      in if smap_contains (removedElements d) key then
           let d = d\<lparr>removedElements := smap_erase key (removedElements d)\<rparr>
           in (Insert_Unremoved,
               if smap_contains (addedElements d) key then toAdded d else toCopied d)
         else if smap_contains (originalElements d) key then (Insert_Updated, toCopied d)
         else
           (if smap_contains (addedElements d) key then Insert_Updated else Insert_Inserted,
            toAdded d))"

definition bsd_insert_immutable ::
  "'k::linorder \<Rightarrow> 'e \<Rightarrow> ('k, 'e) BaseSetDelta \<Rightarrow> InsertResult \<times> ('k, 'e) BaseSetDelta" where
  "bsd_insert_immutable key e d =
     (if smap_contains (removedElements d) key then
        let d = (if smap_contains (addedElements d) key then bsd_markKey key d else bsd_clearKey key d)
        in (Insert_Unremoved, d\<lparr>removedElements := smap_erase key (removedElements d)\<rparr>)
      else if smap_contains (originalElements d) key \<or> smap_contains (addedElements d) key then
        (Insert_Redundant, d)
      else
        let d = bsd_markKey key d
        in (Insert_Inserted, d\<lparr>addedElements := smap_insert key e (addedElements d)\<rparr>))"

definition bsd_insert ::
  "MutabilityTag \<Rightarrow> 'k::linorder \<Rightarrow> 'e \<Rightarrow> ('k, 'e) BaseSetDelta \<Rightarrow> InsertResult \<times> ('k, 'e) BaseSetDelta" where
  "bsd_insert tag key e d =
     (case tag of
        MutableTypeTag \<Rightarrow> bsd_insert_mutable key e d
      | ImmutableTypeTag \<Rightarrow> bsd_insert_immutable key e d)"

subsection \<open>Remove\<close>

definition bsd_remove_immutable ::
  "'k::linorder \<Rightarrow> ('k, 'e) BaseSetDelta \<Rightarrow> RemoveResult \<times> ('k, 'e) BaseSetDelta" where
  "bsd_remove_immutable key d =
     (case smap_find (addedElements d) key of
        Some e \<Rightarrow>
          let d = bsd_markKey key d
          in (Remove_Uninserted, d\<lparr>removedElements := smap_insert key e (removedElements d)\<rparr>)
      | None \<Rightarrow>
          (case smap_find (originalElements d) key of
             Some e \<Rightarrow>
               let d = bsd_markKey key d
               in (Remove_Removed, d\<lparr>removedElements := smap_insert key e (removedElements d)\<rparr>)
           | None \<Rightarrow> (Remove_None, d)))"

definition bsd_remove_mutable ::
  "'k::linorder \<Rightarrow> ('k, 'e) BaseSetDelta \<Rightarrow> RemoveResult \<times> ('k, 'e) BaseSetDelta" where
  "bsd_remove_mutable key d =
     (case smap_find (copiedElements d) key of
        Some e \<Rightarrow>
          let d = bsd_markKey key d;
              d = d\<lparr>removedElements := smap_insert key e (removedElements d)\<rparr>
          in (Remove_Unmodified_And_Removed, d\<lparr>copiedElements := smap_erase key (copiedElements d)\<rparr>)
      | None \<Rightarrow> bsd_remove_immutable key d)"

definition bsd_remove ::
  "MutabilityTag \<Rightarrow> 'k::linorder \<Rightarrow> ('k, 'e) BaseSetDelta \<Rightarrow> RemoveResult \<times> ('k, 'e) BaseSetDelta" where
  "bsd_remove tag key d =
     (if smap_contains (removedElements d) key then (Remove_Redundant, d)
      else case tag of
             MutableTypeTag \<Rightarrow> bsd_remove_mutable key d
           | ImmutableTypeTag \<Rightarrow> bsd_remove_immutable key d)"

subsection \<open>Pending modifications\<close>

definition bsd_deltas :: "('k, 'e) BaseSetDelta \<Rightarrow> ('k, 'e) DeltaElements" where
  "bsd_deltas d = \<lparr>Added = addedElements d, Removed = removedElements d, Copied = copiedElements d\<rparr>"

definition bsd_reset :: "('k, 'e) BaseSetDelta \<Rightarrow> ('k, 'e) BaseSetDelta" where
  "bsd_reset d =
     d\<lparr>addedElements := smap_empty, removedElements := smap_empty, copiedElements := smap_empty,
       generationId := 1, keyGenerationIdMap := smap_empty\<rparr>"

subsection \<open>Commit\<close>

text \<open>One element of the loop over the copied elements: throws when the element is missing.\<close>

definition UpdateSet_copied :: "'k::linorder \<times> 'e \<Rightarrow> ('k, 'e) smap \<Rightarrow> exn + ('k, 'e) smap" where
  "UpdateSet_copied ke elements =
     (if \<not> smap_contains elements (fst ke) then Inl Invalid_Argument
      else Inr (smap_insert (fst ke) (snd ke) (smap_erase (fst ke) elements)))"

definition UpdateSet :: "('k::linorder, 'e) smap \<Rightarrow> ('k, 'e) DeltaElements \<Rightarrow> exn + ('k, 'e) smap" where
  "UpdateSet elements ds =
     (let elements = (if Added ds \<noteq> [] then smap_insert_range (Added ds) elements else elements)
      in rbind (rfold UpdateSet_copied (Copied ds) elements)
           (\<lambda>elements. Inr (fold (\<lambda>ke. smap_erase (fst ke)) (Removed ds) elements)))"

text \<open>\<open>OrderedSet\<close>: after the update, everything below the optional pruning boundary is erased.\<close>

type_synonym 'k PruningBoundary = "'k option"

definition PruneBaseSet :: "('k::linorder, 'e) smap \<Rightarrow> 'k \<Rightarrow> ('k, 'e) smap" where
  "PruneBaseSet elements boundary = smap_erase_below boundary elements"

definition OrderedSetCommitPolicy_Update ::
  "('k::linorder, 'e) smap \<Rightarrow> ('k, 'e) DeltaElements \<Rightarrow> 'k PruningBoundary \<Rightarrow> exn + ('k, 'e) smap" where
  "OrderedSetCommitPolicy_Update elements ds boundary =
     rbind (UpdateSet elements ds)
       (\<lambda>elements. Inr (case boundary of None \<Rightarrow> elements | Some b \<Rightarrow> PruneBaseSet elements b))"

text \<open>
  A base set and its attached delta. The weak pointer \<open>m_pWeakDelta\<close> is the optional delta:
  \<open>None\<close> when no attached delta is alive. The delta refers to the elements of the base set, so
  a commit changes what it sees as its original elements.
\<close>

record ('k, 'e) BaseSet =
  elements :: "('k, 'e) smap"
  weakDelta :: "('k, 'e) BaseSetDelta option"

definition bs_size :: "('k, 'e) BaseSet \<Rightarrow> nat" where
  "bs_size s = smap_size (elements s)"

definition bs_empty :: "('k, 'e) BaseSet \<Rightarrow> bool" where
  "bs_empty s \<longleftrightarrow> elements s = []"

definition bs_find :: "('k, 'e) BaseSet \<Rightarrow> 'k \<Rightarrow> 'e option" where
  "bs_find s key = smap_find (elements s) key"

definition bs_contains :: "('k, 'e) BaseSet \<Rightarrow> 'k \<Rightarrow> bool" where
  "bs_contains s key \<longleftrightarrow> smap_contains (elements s) key"

definition bs_rebase :: "('k, 'e) BaseSet \<Rightarrow> exn + ('k, 'e) BaseSet" where
  "bs_rebase s =
     (if weakDelta s \<noteq> None then Inl Runtime_Error
      else Inr (s\<lparr>weakDelta := Some (bsd_new (elements s))\<rparr>))"

definition bs_rebaseDetached :: "('k, 'e) BaseSet \<Rightarrow> ('k, 'e) BaseSetDelta" where
  "bs_rebaseDetached s = bsd_new (elements s)"

definition bs_commit_with ::
  "(('k, 'e) smap \<Rightarrow> ('k, 'e) DeltaElements \<Rightarrow> exn + ('k, 'e) smap)
     \<Rightarrow> ('k, 'e) BaseSet \<Rightarrow> exn + ('k, 'e) BaseSet" where
  "bs_commit_with policy s =
     (case weakDelta s of
        None \<Rightarrow> Inl Runtime_Error
      | Some d \<Rightarrow>
          rbind (policy (elements s) (bsd_deltas d))
            (\<lambda>elements'. Inr (s\<lparr>elements := elements',
                                weakDelta := Some ((bsd_reset d)\<lparr>originalElements := elements'\<rparr>)\<rparr>)))"

definition bs_commit :: "('k::linorder, 'e) BaseSet \<Rightarrow> exn + ('k, 'e) BaseSet" where
  "bs_commit s = bs_commit_with UpdateSet s"

definition os_commit :: "('k::linorder, 'e) BaseSet \<Rightarrow> 'k PruningBoundary \<Rightarrow> exn + ('k, 'e) BaseSet" where
  "os_commit s boundary = bs_commit_with (\<lambda>els ds. OrderedSetCommitPolicy_Update els ds boundary) s"

subsection \<open>Utilities\<close>

definition ContainsAny :: "('k, 'e) BaseSetDelta \<Rightarrow> 'k list \<Rightarrow> bool" where
  "ContainsAny container keys = list_ex (bsd_contains container) keys"

definition InsertAll ::
  "MutabilityTag \<Rightarrow> ('k::linorder \<times> 'e) list \<Rightarrow> ('k, 'e) BaseSetDelta \<Rightarrow> ('k, 'e) BaseSetDelta" where
  "InsertAll tag kvs container = fold (\<lambda>(k, e) d. snd (bsd_insert tag k e d)) kvs container"

definition RemoveAll ::
  "MutabilityTag \<Rightarrow> 'k::linorder list \<Rightarrow> ('k, 'e) BaseSetDelta \<Rightarrow> ('k, 'e) BaseSetDelta" where
  "RemoveAll tag keys container = fold (\<lambda>k d. snd (bsd_remove tag k d)) keys container"

subsection \<open>Iteration\<close>

text \<open>
  The forward iterator of \<open>BaseSetDeltaIterationView\<close>. The two STL iterators are the suffixes
  of the original and of the added elements that are still to be visited; \<open>iterCurrent\<close> is
  \<open>*m_iter\<close>, which in the original stage is an original or a copied element.
\<close>

datatype IterationStage = Stage_Original | Stage_Added

record ('k, 'e) DeltaIterator =
  iterPosition :: nat
  iterSize :: nat
  iterStage :: IterationStage
  iterOriginal :: "('k \<times> 'e) list"
  iterAdded :: "('k \<times> 'e) list"
  iterCurrent :: "('k \<times> 'e) option"

fun handleOriginalStage ::
  "('k, 'e) DeltaElements \<Rightarrow> ('k \<times> 'e) list \<Rightarrow> (('k \<times> 'e) list \<times> ('k \<times> 'e)) option" where
  "handleOriginalStage ds [] = None"
| "handleOriginalStage ds (ke # rest) =
     (if smap_contains (Removed ds) (fst ke) then handleOriginalStage ds rest
      else Some (ke # rest,
                 case smap_find (Copied ds) (fst ke) of
                   None \<Rightarrow> ke
                 | Some e \<Rightarrow> (fst ke, e)))"

fun handleAddedStage :: "('k, 'e) DeltaElements \<Rightarrow> ('k \<times> 'e) list \<Rightarrow> ('k \<times> 'e) list" where
  "handleAddedStage ds [] = []"
| "handleAddedStage ds (ke # rest) =
     (if smap_contains (Removed ds) (fst ke) then handleAddedStage ds rest else ke # rest)"

definition moveToAdded ::
  "('k, 'e) DeltaElements \<Rightarrow> ('k, 'e) DeltaIterator \<Rightarrow> ('k, 'e) DeltaIterator" where
  "moveToAdded ds it =
     (let rest = handleAddedStage ds (iterAdded it)
      in it\<lparr>iterAdded := rest, iterCurrent := (case rest of [] \<Rightarrow> None | ke # _ \<Rightarrow> Some ke)\<rparr>)"

definition moveToValidElement ::
  "('k, 'e) DeltaElements \<Rightarrow> ('k, 'e) DeltaIterator \<Rightarrow> ('k, 'e) DeltaIterator" where
  "moveToValidElement ds it =
     (case iterStage it of
        Stage_Original \<Rightarrow>
          (case handleOriginalStage ds (iterOriginal it) of
             Some (rest, ke) \<Rightarrow> it\<lparr>iterOriginal := rest, iterCurrent := Some ke\<rparr>
           | None \<Rightarrow>
               moveToAdded ds
                 (it\<lparr>iterOriginal := [], iterStage := Stage_Added, iterAdded := Added ds\<rparr>))
      | Stage_Added \<Rightarrow> moveToAdded ds it)"

definition iterator_begin :: "('k, 'e) BaseSetDelta \<Rightarrow> ('k, 'e) DeltaIterator" where
  "iterator_begin d =
     (let ds = bsd_deltas d; n = unat (bsd_size d);
          it = \<lparr>iterPosition = 0, iterSize = n, iterStage = Stage_Original,
                iterOriginal = originalElements d, iterAdded = [], iterCurrent = None\<rparr>
      in if 0 = n then it else moveToValidElement ds it)"

definition iterator_deref :: "('k, 'e) DeltaIterator \<Rightarrow> exn + ('k \<times> 'e) option" where
  "iterator_deref it =
     (if iterPosition it = iterSize it then Inl Out_Of_Range else Inr (iterCurrent it))"

definition incrementIterator :: "('k, 'e) DeltaIterator \<Rightarrow> ('k, 'e) DeltaIterator" where
  "incrementIterator it =
     (case iterStage it of
        Stage_Original \<Rightarrow> it\<lparr>iterOriginal := tl (iterOriginal it)\<rparr>
      | Stage_Added \<Rightarrow> it\<lparr>iterAdded := tl (iterAdded it)\<rparr>)"

definition iterator_next ::
  "('k, 'e) DeltaElements \<Rightarrow> ('k, 'e) DeltaIterator \<Rightarrow> exn + ('k, 'e) DeltaIterator" where
  "iterator_next ds it =
     (if iterPosition it = iterSize it then Inl Out_Of_Range
      else Inr (moveToValidElement ds (incrementIterator (it\<lparr>iterPosition := Suc (iterPosition it)\<rparr>))))"

text \<open>
  The range-based for loop over the view: \<open>it != end()\<close> compares positions. Reading through an
  iterator that points past the elements (\<open>Inr None\<close>) is undefined behaviour of the source and
  reported as \<open>Out_Of_Range\<close> here. The fuel is the number of positions left.
\<close>

fun iterate_from ::
  "nat \<Rightarrow> ('k, 'e) DeltaElements \<Rightarrow> ('k, 'e) DeltaIterator \<Rightarrow> exn + ('k \<times> 'e) list" where
  "iterate_from 0 ds it = (if iterPosition it = iterSize it then Inr [] else Inl Out_Of_Range)"
| "iterate_from (Suc n) ds it =
     (if iterPosition it = iterSize it then Inr []
      else rbind (iterator_deref it) (\<lambda>cur.
             case cur of
               None \<Rightarrow> Inl Out_Of_Range
             | Some ke \<Rightarrow>
                 rbind (iterator_next ds it) (\<lambda>it'.
                   rbind (iterate_from n ds it') (\<lambda>kes. Inr (ke # kes)))))"

definition iterate :: "('k, 'e) BaseSetDelta \<Rightarrow> exn + ('k \<times> 'e) list" where
  "iterate d = iterate_from (unat (bsd_size d)) (bsd_deltas d) (iterator_begin d)"

subsection \<open>The abstract view and the invariant\<close>

definition bsd_view :: "('k, 'e) BaseSetDelta \<Rightarrow> 'k \<Rightarrow> 'e option" where
  "bsd_view d key =
     (if smap_find (removedElements d) key \<noteq> None then None
      else case smap_find (copiedElements d) key of
             Some e \<Rightarrow> Some e
           | None \<Rightarrow>
               (case smap_find (originalElements d) key of
                  Some e \<Rightarrow> Some e
                | None \<Rightarrow> smap_find (addedElements d) key))"

text \<open>
  What holds of a single key, given its original, added, removed and copied elements: a copy is
  a copy of an original element that is not removed and only exists for mutable elements, an
  added element is no original one, and a removed element was there.
\<close>

definition bsd_key_inv ::
  "MutabilityTag \<Rightarrow> 'e option \<Rightarrow> 'e option \<Rightarrow> 'e option \<Rightarrow> 'e option \<Rightarrow> bool" where
  "bsd_key_inv tag original added removed copied \<longleftrightarrow>
     (copied \<noteq> None \<longrightarrow> original \<noteq> None \<and> removed = None \<and> tag = MutableTypeTag) \<and>
     (added \<noteq> None \<longrightarrow> original = None) \<and>
     (removed \<noteq> None \<longrightarrow> original \<noteq> None \<or> added \<noteq> None)"

definition bsd_inv :: "MutabilityTag \<Rightarrow> ('k::linorder, 'e) BaseSetDelta \<Rightarrow> bool" where
  "bsd_inv tag d \<longleftrightarrow>
     smap_inv (originalElements d) \<and> smap_inv (addedElements d) \<and>
     smap_inv (removedElements d) \<and> smap_inv (copiedElements d) \<and>
     (\<forall>key. bsd_key_inv tag (smap_find (originalElements d) key) (smap_find (addedElements d) key)
              (smap_find (removedElements d) key) (smap_find (copiedElements d) key))"

lemma bsd_inv_keyD:
  "bsd_inv tag d \<Longrightarrow>
     bsd_key_inv tag (smap_find (originalElements d) key) (smap_find (addedElements d) key)
       (smap_find (removedElements d) key) (smap_find (copiedElements d) key)"
  by (simp add: bsd_inv_def)

text \<open>An operation on one key only has to re-establish the invariant of that key.\<close>

lemma bsd_inv_updateI:
  assumes "bsd_inv tag d"
    and "originalElements d' = originalElements d"
    and "smap_inv (addedElements d')" "smap_inv (removedElements d')" "smap_inv (copiedElements d')"
    and "\<And>k. k \<noteq> key \<Longrightarrow> smap_find (addedElements d') k = smap_find (addedElements d) k"
    and "\<And>k. k \<noteq> key \<Longrightarrow> smap_find (removedElements d') k = smap_find (removedElements d) k"
    and "\<And>k. k \<noteq> key \<Longrightarrow> smap_find (copiedElements d') k = smap_find (copiedElements d) k"
    and "bsd_key_inv tag (smap_find (originalElements d) key) (smap_find (addedElements d') key)
           (smap_find (removedElements d') key) (smap_find (copiedElements d') key)"
  shows "bsd_inv tag d'"
  unfolding bsd_inv_def
proof (intro conjI allI)
  fix k
  show "bsd_key_inv tag (smap_find (originalElements d') k) (smap_find (addedElements d') k)
          (smap_find (removedElements d') k) (smap_find (copiedElements d') k)"
    using assms(2,6-9) bsd_inv_keyD [OF assms(1), of k] by (cases "k = key") auto
qed (use assms in \<open>auto simp: bsd_inv_def\<close>)

lemma bsd_inv_smap_inv:
  assumes "bsd_inv tag d"
  shows "smap_inv (originalElements d)" "smap_inv (addedElements d)"
    "smap_inv (removedElements d)" "smap_inv (copiedElements d)"
  using assms by (auto simp: bsd_inv_def)

lemmas bsd_op_defs =
  bsd_markKey_def bsd_clearKey_def bsd_find_original_def bsd_find_const_def bsd_find_mutable_def
  bsd_markFoundElement_def bsd_find_def bsd_store_def bsd_contains_def bsd_insert_mutable_def
  bsd_insert_immutable_def bsd_insert_def bsd_remove_immutable_def bsd_remove_mutable_def
  bsd_remove_def

lemma bsd_inv_new [simp, intro]: "smap_inv original \<Longrightarrow> bsd_inv tag (bsd_new original)"
  by (auto simp: bsd_inv_def bsd_new_def bsd_key_inv_def)

lemma bsd_new_original [simp]: "originalElements (bsd_new original) = original"
  by (simp add: bsd_new_def)

lemma bsd_view_new [simp]: "bsd_view (bsd_new original) = smap_find original"
  by (auto simp: bsd_view_def bsd_new_def fun_eq_iff split: option.splits)

lemma bsd_view_reset [simp]: "bsd_view (bsd_reset d) = smap_find (originalElements d)"
  by (auto simp: bsd_view_def bsd_reset_def fun_eq_iff split: option.splits)

lemma bsd_find_const_view: "bsd_inv tag d \<Longrightarrow> bsd_find_const tag d key = bsd_view d key"
  using bsd_inv_keyD [of tag d key]
  by (cases tag)
     (auto simp: bsd_find_const_def bsd_view_def bsd_find_original_def smap_contains_def
        bsd_key_inv_def split: option.splits)

lemma bsd_contains_view: "bsd_inv tag d \<Longrightarrow> bsd_contains d key \<longleftrightarrow> bsd_view d key \<noteq> None"
  using bsd_inv_keyD [of tag d key]
  by (auto simp: bsd_contains_def bsd_view_def smap_contains_def bsd_key_inv_def split: option.splits)

lemma bsd_find_inv:
  assumes "bsd_inv tag d"
  shows "bsd_inv tag (snd (bsd_find tag d key))"
  using bsd_inv_keyD [OF assms, of key] bsd_inv_smap_inv [OF assms]
  by (intro bsd_inv_updateI [OF assms, of _ key]; cases tag)
     (auto simp: bsd_op_defs bsd_key_inv_def smap_contains_def Let_def split: option.splits)

lemma bsd_find_view:
  assumes "bsd_inv tag d"
  shows "fst (bsd_find tag d key) = bsd_view d key"
    and "bsd_view (snd (bsd_find tag d key)) = bsd_view d"
  using bsd_inv_keyD [OF assms, of key]
  by (cases tag; auto simp: bsd_op_defs bsd_view_def smap_contains_def fun_eq_iff
        bsd_key_inv_def split: option.splits)+

lemma bsd_insert_inv:
  assumes "bsd_inv tag d"
  shows "bsd_inv tag (snd (bsd_insert tag key e d))"
  using bsd_inv_keyD [OF assms, of key] bsd_inv_smap_inv [OF assms]
  by (intro bsd_inv_updateI [OF assms, of _ key]; cases tag)
     (auto simp: bsd_op_defs bsd_key_inv_def smap_contains_def Let_def split: option.splits)

lemma bsd_insert_mutable_view:
  assumes "bsd_inv MutableTypeTag d"
  shows "bsd_view (snd (bsd_insert MutableTypeTag key e d)) = (bsd_view d)(key \<mapsto> e)"
  using bsd_inv_keyD [OF assms, of key]
  by (auto simp: bsd_op_defs bsd_view_def smap_contains_def bsd_key_inv_def Let_def fun_eq_iff split: option.splits)

lemma bsd_insert_mutable_result:
  assumes "bsd_inv MutableTypeTag d"
  shows "fst (bsd_insert MutableTypeTag key e d) =
       (if smap_contains (removedElements d) key then Insert_Unremoved
        else if bsd_view d key \<noteq> None then Insert_Updated
        else Insert_Inserted)"
  using bsd_inv_keyD [OF assms, of key]
  by (auto simp: bsd_op_defs bsd_view_def smap_contains_def bsd_key_inv_def Let_def split: option.splits)

text \<open>An immutable insert of a removed element brings back the element seen first.\<close>

definition bsd_first_seen :: "('k, 'e) BaseSetDelta \<Rightarrow> 'k \<Rightarrow> 'e option" where
  "bsd_first_seen d key =
     (case smap_find (originalElements d) key of
        Some e \<Rightarrow> Some e
      | None \<Rightarrow> smap_find (addedElements d) key)"

lemma bsd_insert_immutable_view:
  assumes "bsd_inv ImmutableTypeTag d"
  shows "bsd_view (snd (bsd_insert ImmutableTypeTag key e d)) =
           (bsd_view d)(key \<mapsto> (case bsd_first_seen d key of None \<Rightarrow> e | Some e' \<Rightarrow> e'))"
  using bsd_inv_keyD [OF assms, of key]
  by (auto simp: bsd_op_defs bsd_view_def bsd_first_seen_def smap_contains_def bsd_key_inv_def
       Let_def fun_eq_iff split: option.splits)

lemma bsd_remove_inv:
  assumes "bsd_inv tag d"
  shows "bsd_inv tag (snd (bsd_remove tag key d))"
  using bsd_inv_keyD [OF assms, of key] bsd_inv_smap_inv [OF assms]
  by (intro bsd_inv_updateI [OF assms, of _ key]; cases tag)
     (auto simp: bsd_op_defs bsd_key_inv_def smap_contains_def Let_def split: option.splits)

lemma bsd_remove_view:
  assumes "bsd_inv tag d"
  shows "bsd_view (snd (bsd_remove tag key d)) = (bsd_view d)(key := None)"
  using bsd_inv_keyD [OF assms, of key]
  by (cases tag; auto simp: bsd_op_defs bsd_view_def smap_contains_def bsd_key_inv_def Let_def fun_eq_iff
       split: option.splits)

lemma bsd_remove_result:
  assumes "bsd_inv tag d"
  shows "fst (bsd_remove tag key d) \<in> {Remove_None, Remove_Redundant} \<longleftrightarrow> bsd_view d key = None"
  using bsd_inv_keyD [OF assms, of key]
  by (cases tag; auto simp: bsd_op_defs bsd_view_def smap_contains_def bsd_key_inv_def Let_def
       split: option.splits)

text \<open>Writing through the pointer of a found element.\<close>

lemma bsd_store_inv:
  assumes "bsd_inv MutableTypeTag d" "bsd_view d key \<noteq> None"
  shows "bsd_inv MutableTypeTag (bsd_store key e (snd (bsd_find MutableTypeTag d key)))"
  using bsd_inv_keyD [OF assms(1), of key] bsd_inv_smap_inv [OF assms(1)] assms(2)
  by (intro bsd_inv_updateI [OF assms(1), of _ key])
     (auto simp: bsd_op_defs bsd_key_inv_def bsd_view_def smap_contains_def Let_def split: option.splits if_splits)

lemma bsd_store_view:
  assumes "bsd_inv MutableTypeTag d" "bsd_view d key \<noteq> None"
  shows "bsd_view (bsd_store key e (snd (bsd_find MutableTypeTag d key))) = (bsd_view d)(key \<mapsto> e)"
  using bsd_inv_keyD [OF assms(1), of key] assms(2)
  by (auto simp: bsd_op_defs bsd_key_inv_def bsd_view_def smap_contains_def Let_def fun_eq_iff split: option.splits)

subsection \<open>Size\<close>

lemma bsd_dom_view:
  assumes "bsd_inv tag d"
  shows "dom (bsd_view d) =
     (dom (smap_find (originalElements d)) \<union> dom (smap_find (addedElements d)))
       - dom (smap_find (removedElements d))"
proof (rule set_eqI)
  fix key
  show "key \<in> dom (bsd_view d) \<longleftrightarrow>
     key \<in> (dom (smap_find (originalElements d)) \<union> dom (smap_find (addedElements d)))
       - dom (smap_find (removedElements d))"
    using bsd_inv_keyD [OF assms, of key]
    by (auto simp: bsd_view_def bsd_key_inv_def split: option.splits)
qed

lemma bsd_card_view:
  assumes "bsd_inv tag d"
  shows "card (dom (bsd_view d)) + smap_size (removedElements d)
       = smap_size (originalElements d) + smap_size (addedElements d)"
proof -
  let ?O = "dom (smap_find (originalElements d))" and ?A = "dom (smap_find (addedElements d))"
    and ?R = "dom (smap_find (removedElements d))"
  have disj: "?O \<inter> ?A = {}" and sub: "?R \<subseteq> ?O \<union> ?A"
    using bsd_inv_keyD [OF assms] by (force simp: bsd_key_inv_def)+
  have "card (dom (bsd_view d)) = card (?O \<union> ?A) - card ?R"
    using sub by (simp add: bsd_dom_view [OF assms] card_Diff_subset)
  moreover have "card (?O \<union> ?A) = card ?O + card ?A"
    using disj by (simp add: card_Un_disjoint)
  moreover have "card ?R \<le> card (?O \<union> ?A)"
    using sub by (simp add: card_mono)
  ultimately show ?thesis
    using bsd_inv_smap_inv [OF assms] by (simp add: smap_size_card)
qed

lemma bsd_size_of_nat:
  assumes "bsd_inv tag d"
  shows "bsd_size d = of_nat (card (dom (bsd_view d)))"
proof -
  have "(of_nat (card (dom (bsd_view d))) :: size_t) + of_nat (smap_size (removedElements d))
      = of_nat (smap_size (originalElements d)) + of_nat (smap_size (addedElements d))"
    using bsd_card_view [OF assms] by (metis of_nat_add)
  then show ?thesis by (simp add: bsd_size_def algebra_simps)
qed

subsection \<open>Commit\<close>

lemma UpdateSet_copied_loop:
  assumes "smap_inv els" "smap_inv kvs" "dom (smap_find kvs) \<subseteq> dom (smap_find els)"
  shows "\<exists>els'. rfold UpdateSet_copied kvs els = Inr els' \<and> smap_inv els'
           \<and> smap_find els' = smap_find els ++ smap_find kvs"
  using assms
proof (induction kvs arbitrary: els)
  case Nil
  then show ?case by simp
next
  case (Cons kv kvs)
  obtain k v where kv: "kv = (k, v)" by fastforce
  define els1 where "els1 = smap_insert k v (smap_erase k els)"
  have step: "UpdateSet_copied kv els = Inr els1"
    using Cons.prems(3) by (auto simp: UpdateSet_copied_def kv smap_contains_def smap_find_def els1_def)
  have find: "smap_find els1 = (smap_find els)(k \<mapsto> v)" and inv: "smap_inv els1"
    using Cons.prems(1) by (auto simp: fun_eq_iff els1_def)
  have "dom (smap_find kvs) \<subseteq> dom (smap_find els1)"
    using Cons.prems(3) by (fastforce simp: kv smap_find_def find split: if_splits)
  then obtain els' where els': "rfold UpdateSet_copied kvs els1 = Inr els'" "smap_inv els'"
      "smap_find els' = smap_find els1 ++ smap_find kvs"
    using Cons.IH [of els1] Cons.prems(2) inv by (auto simp: kv)
  have "k \<notin> dom (smap_find kvs)"
    using Cons.prems(2) by (force simp: kv smap_find_def dest!: map_of_SomeD)
  then have "smap_find els1 ++ smap_find kvs = smap_find els ++ smap_find (kv # kvs)"
    by (auto simp: find kv smap_find_def map_add_def fun_eq_iff split: option.splits)
  with els' step show ?case by simp
qed

lemma UpdateSet_view:
  assumes "bsd_inv tag d"
  shows "\<exists>els'. UpdateSet (originalElements d) (bsd_deltas d) = Inr els'
           \<and> smap_inv els' \<and> smap_find els' = bsd_view d"
proof -
  let ?els = "smap_insert_range (addedElements d) (originalElements d)"
  note invs = bsd_inv_smap_inv [OF assms]
  have sub: "dom (smap_find (copiedElements d)) \<subseteq> dom (smap_find ?els)"
    using bsd_inv_keyD [OF assms]
    by (fastforce simp: smap_find_insert_range bsd_key_inv_def)
  obtain els' where els': "rfold UpdateSet_copied (copiedElements d) ?els = Inr els'" "smap_inv els'"
      "smap_find els' = smap_find ?els ++ smap_find (copiedElements d)"
    using UpdateSet_copied_loop [OF _ invs(4) sub] invs(1) by auto
  let ?fin = "fold smap_erase (map fst (removedElements d)) els'"
  have "UpdateSet (originalElements d) (bsd_deltas d) = Inr ?fin"
    using els'(1)
    by (auto simp: UpdateSet_def bsd_deltas_def smap_insert_range_def fold_map comp_def)
  moreover have "smap_inv ?fin"
    by (rule smap.inv_fold_erase [OF els'(2)])
  moreover have "smap_find ?fin = bsd_view d"
  proof
    fix key
    have "key \<in> set (map fst (removedElements d)) \<longleftrightarrow> smap_find (removedElements d) key \<noteq> None"
      by (metis map_of_eq_None_iff set_map smap_find_def)
    then show "smap_find ?fin key = bsd_view d key"
      using bsd_inv_keyD [OF assms, of key]
      by (auto simp: smap.find_fold_erase [OF els'(2)] els'(3) smap_find_insert_range bsd_view_def
           bsd_key_inv_def map_add_def smap_find_def [symmetric] split: option.splits)
  qed
  ultimately show ?thesis by blast
qed

lemma bs_find_smap: "bs_find s = smap_find (elements s)"
  by (simp add: bs_find_def fun_eq_iff)

lemma bs_commit_ok:
  assumes "weakDelta s = Some d" "originalElements d = elements s" "bsd_inv tag d"
  shows "\<exists>s' d'. bs_commit s = Inr s' \<and> smap_inv (elements s') \<and> bs_find s' = bsd_view d
           \<and> weakDelta s' = Some d' \<and> originalElements d' = elements s'
           \<and> bsd_inv tag d' \<and> bsd_view d' = bsd_view d \<and> \<not> HasChanges (bsd_deltas d')"
proof -
  obtain els' where "UpdateSet (elements s) (bsd_deltas d) = Inr els'" "smap_inv els'"
      "smap_find els' = bsd_view d"
    using UpdateSet_view [OF assms(3)] assms(2) by auto
  then show ?thesis
    using assms(1)
    by (auto simp: bs_commit_def bs_commit_with_def bs_find_def bsd_reset_def bsd_view_def
        bsd_inv_def bsd_key_inv_def bsd_deltas_def HasChanges_def smap_empty_def fun_eq_iff
        split: option.splits)
qed

lemma os_commit_ok:
  assumes "weakDelta s = Some d" "originalElements d = elements s" "bsd_inv tag d"
  shows "\<exists>s'. os_commit s boundary = Inr s' \<and> smap_inv (elements s')
           \<and> bs_find s' = (\<lambda>k. case boundary of
                 None \<Rightarrow> bsd_view d k
               | Some b \<Rightarrow> if k < b then None else bsd_view d k)"
proof -
  obtain els' where "UpdateSet (elements s) (bsd_deltas d) = Inr els'" "smap_inv els'"
      "smap_find els' = bsd_view d"
    using UpdateSet_view [OF assms(3)] assms(2) by auto
  then show ?thesis
    using assms(1)
    by (cases boundary)
       (auto simp: os_commit_def bs_commit_with_def bs_find_def OrderedSetCommitPolicy_Update_def
         PruneBaseSet_def smap_find_erase_below smap_erase_below_def [symmetric] fun_eq_iff
         intro: smap_inv_dropWhile [of _ "\<lambda>p. fst p < _", folded smap_erase_below_def])
qed

subsection \<open>Iteration\<close>

definition visible :: "('k, 'e) DeltaElements \<Rightarrow> 'k \<times> 'e \<Rightarrow> bool" where
  "visible ds ke \<longleftrightarrow> \<not> smap_contains (Removed ds) (fst ke)"

definition current_version :: "('k, 'e) DeltaElements \<Rightarrow> 'k \<times> 'e \<Rightarrow> 'k \<times> 'e" where
  "current_version ds ke =
     (case smap_find (Copied ds) (fst ke) of None \<Rightarrow> ke | Some e \<Rightarrow> (fst ke, e))"

definition visible_originals :: "('k, 'e) DeltaElements \<Rightarrow> ('k \<times> 'e) list \<Rightarrow> ('k \<times> 'e) list" where
  "visible_originals ds xs = map (current_version ds) (filter (visible ds) xs)"

text \<open>What is left to visit, and what the whole view is supposed to enumerate.\<close>

definition iter_rest :: "('k, 'e) DeltaElements \<Rightarrow> ('k, 'e) DeltaIterator \<Rightarrow> ('k \<times> 'e) list" where
  "iter_rest ds it =
     (case iterStage it of
        Stage_Original \<Rightarrow> visible_originals ds (iterOriginal it) @ filter (visible ds) (Added ds)
      | Stage_Added \<Rightarrow> filter (visible ds) (iterAdded it))"

definition view_elements :: "('k, 'e) BaseSetDelta \<Rightarrow> ('k \<times> 'e) list" where
  "view_elements d =
     visible_originals (bsd_deltas d) (originalElements d)
       @ filter (visible (bsd_deltas d)) (addedElements d)"

lemma handleOriginalStage_None:
  "handleOriginalStage ds xs = None \<Longrightarrow> visible_originals ds xs = []"
  by (induction ds xs rule: handleOriginalStage.induct)
     (auto simp: visible_originals_def visible_def split: if_splits)

lemma handleOriginalStage_Some:
  "handleOriginalStage ds xs = Some (rest, ke) \<Longrightarrow>
     visible_originals ds rest = visible_originals ds xs
     \<and> visible_originals ds xs = ke # visible_originals ds (tl rest)"
  by (induction ds xs rule: handleOriginalStage.induct)
     (auto simp: visible_originals_def visible_def current_version_def split: if_splits)

lemma handleAddedStage_filter:
  "handleAddedStage ds xs = dropWhile (\<lambda>ke. \<not> visible ds ke) xs"
  by (induction ds xs rule: handleAddedStage.induct) (auto simp: visible_def)

lemma filter_dropWhile_not: "filter P (dropWhile (\<lambda>x. \<not> P x) xs) = filter P xs"
  by (induction xs) auto

lemma dropWhile_not_cases:
  "(case dropWhile (\<lambda>x. \<not> P x) xs of [] \<Rightarrow> None | x # _ \<Rightarrow> Some x)
     = (case filter P xs of [] \<Rightarrow> None | x # _ \<Rightarrow> Some x)"
  by (induction xs) auto

lemma filter_tl_dropWhile_not: "filter P (tl (dropWhile (\<lambda>x. \<not> P x) xs)) = tl (filter P xs)"
  by (induction xs) auto

lemma moveToAdded_rest:
  assumes "iterStage it = Stage_Added"
  shows "iter_rest ds (moveToAdded ds it) = iter_rest ds it"
    and "iterCurrent (moveToAdded ds it) = (case iter_rest ds it of [] \<Rightarrow> None | ke # _ \<Rightarrow> Some ke)"
    and "iter_rest ds (incrementIterator (moveToAdded ds it)) = tl (iter_rest ds it)"
    and "iterPosition (moveToAdded ds it) = iterPosition it"
    and "iterSize (moveToAdded ds it) = iterSize it"
  using assms
  by (simp_all add: moveToAdded_def iter_rest_def incrementIterator_def handleAddedStage_filter
        filter_dropWhile_not filter_tl_dropWhile_not dropWhile_not_cases Let_def)

lemma moveToValidElement_rest:
  "iterCurrent (moveToValidElement ds it) = (case iter_rest ds it of [] \<Rightarrow> None | ke # _ \<Rightarrow> Some ke)"
  "iter_rest ds (incrementIterator (moveToValidElement ds it)) = tl (iter_rest ds it)"
  "iterPosition (moveToValidElement ds it) = iterPosition it"
  "iterSize (moveToValidElement ds it) = iterSize it"
proof -
  let ?m = "moveToValidElement ds it"
  let ?r = "case iter_rest ds it of [] \<Rightarrow> None | ke # _ \<Rightarrow> Some ke"
  have "iterCurrent ?m = ?r \<and> iter_rest ds (incrementIterator ?m) = tl (iter_rest ds it)
      \<and> iterPosition ?m = iterPosition it \<and> iterSize ?m = iterSize it"
  proof (cases "iterStage it")
    case Stage_Added
    then show ?thesis by (simp add: moveToValidElement_def moveToAdded_rest)
  next
    case Stage_Original
    show ?thesis
    proof (cases "handleOriginalStage ds (iterOriginal it)")
      case None
      let ?it = "it\<lparr>iterOriginal := [], iterStage := Stage_Added, iterAdded := Added ds\<rparr>"
      have "iter_rest ds ?it = iter_rest ds it"
        using Stage_Original handleOriginalStage_None [OF None] by (simp add: iter_rest_def)
      then show ?thesis
        using Stage_Original None moveToAdded_rest [of ?it ds] by (simp add: moveToValidElement_def)
    next
      case (Some p)
      then obtain rest ke where p: "handleOriginalStage ds (iterOriginal it) = Some (rest, ke)"
        by (cases p) auto
      then show ?thesis
        using Stage_Original handleOriginalStage_Some [OF p]
        by (simp add: moveToValidElement_def iter_rest_def incrementIterator_def)
    qed
  qed
  then show "iterCurrent ?m = ?r" "iter_rest ds (incrementIterator ?m) = tl (iter_rest ds it)"
    "iterPosition ?m = iterPosition it" "iterSize ?m = iterSize it" by auto
qed

lemma iterate_from_rest:
  assumes "n = length (iter_rest ds it)" "iterPosition it + n = iterSize it"
  shows "iterate_from n ds (moveToValidElement ds it) = Inr (iter_rest ds it)"
  using assms
proof (induction n arbitrary: it)
  case 0
  then show ?case by (simp add: moveToValidElement_rest)
next
  case (Suc n)
  let ?m = "moveToValidElement ds it"
  let ?next = "incrementIterator (?m\<lparr>iterPosition := Suc (iterPosition ?m)\<rparr>)"
  obtain ke rest where rest: "iter_rest ds it = ke # rest"
    using Suc.prems(1) by (cases "iter_rest ds it") auto
  have nrest: "iter_rest ds ?next = rest"
    using moveToValidElement_rest(2) [of ds it] rest
    by (simp add: incrementIterator_def iter_rest_def split: IterationStage.splits)
  have "iterate_from n ds (moveToValidElement ds ?next) = Inr rest"
    using Suc.IH [of ?next] Suc.prems nrest rest
    by (simp add: incrementIterator_def moveToValidElement_rest split: IterationStage.splits)
  then show ?case
    using Suc.prems rest
    by (simp add: moveToValidElement_rest iterator_deref_def iterator_next_def)
qed

lemma current_version_eq: "current_version ds ke = (key, e) \<longleftrightarrow>
   fst ke = key \<and> e = (case smap_find (Copied ds) key of None \<Rightarrow> snd ke | Some c \<Rightarrow> c)"
  by (cases ke) (auto simp: current_version_def split: option.splits)

lemma fst_current_version: "fst (current_version ds ke) = fst ke" "fst \<circ> current_version ds = fst"
  by (auto simp: current_version_def fun_eq_iff split: option.splits)

lemma set_visible_originals:
  "(key, e) \<in> set (visible_originals ds xs) \<longleftrightarrow>
     \<not> smap_contains (Removed ds) key \<and>
     (\<exists>e'. (key, e') \<in> set xs \<and> e = (case smap_find (Copied ds) key of None \<Rightarrow> e' | Some c \<Rightarrow> c))"
  unfolding visible_originals_def set_map image_iff set_filter
  by (subst eq_commute) (auto simp: visible_def current_version_eq split: option.splits)

lemma set_view_elements:
  assumes "bsd_inv tag d"
  shows "(key, e) \<in> set (view_elements d) \<longleftrightarrow> bsd_view d key = Some e"
  using bsd_inv_keyD [OF assms, of key]
  by (auto simp: view_elements_def set_visible_originals visible_def bsd_deltas_def smap_contains_def
      smap_find_in_set [OF bsd_inv_smap_inv(1) [OF assms], symmetric]
      smap_find_in_set [OF bsd_inv_smap_inv(2) [OF assms], symmetric]
      bsd_view_def bsd_key_inv_def split: option.splits)

lemma distinct_view_elements:
  assumes "bsd_inv tag d"
  shows "distinct (map fst (view_elements d))"
proof -
  have filt: "distinct (map fst xs) \<Longrightarrow> distinct (map fst (filter P xs))" for P and xs :: "('a \<times> 'b) list"
    by (induction xs) auto
  have "fst ` set (originalElements d) \<inter> fst ` set (addedElements d) = {}"
    using bsd_inv_keyD [OF assms]
    by (force simp: bsd_key_inv_def smap_find_def simp flip: dom_map_of_conv_image_fst)
  then show ?thesis
    using bsd_inv_smap_inv(1,2) [OF assms, THEN smap_inv_distinct]
    by (auto simp: view_elements_def visible_originals_def fst_current_version filt)
qed

lemma length_view_elements:
  assumes "bsd_inv tag d"
  shows "length (view_elements d) = card (dom (bsd_view d))"
proof -
  have "bsd_view d = map_of (view_elements d)"
  proof
    fix k
    show "bsd_view d k = map_of (view_elements d) k"
      using set_view_elements [OF assms, of k] map_of_eq_Some_iff [OF distinct_view_elements [OF assms], of k]
      by (metis not_None_eq)
  qed
  then show ?thesis using card_dom_map_of [OF distinct_view_elements [OF assms]] by simp
qed

lemma iterate_view_elements:
  assumes "bsd_inv tag d" "card (dom (bsd_view d)) < 2 ^ 64"
  shows "iterate d = Inr (view_elements d)"
proof -
  let ?it = "\<lparr>iterPosition = 0, iterSize = unat (bsd_size d), iterStage = Stage_Original,
               iterOriginal = originalElements d, iterAdded = [], iterCurrent = None\<rparr>"
  have n: "unat (bsd_size d) = length (view_elements d)"
    using assms(2) by (simp add: bsd_size_of_nat [OF assms(1)] length_view_elements [OF assms(1)]
        unat_of_nat_small)
  have rest: "iter_rest (bsd_deltas d) ?it = view_elements d"
    by (simp add: iter_rest_def view_elements_def bsd_deltas_def)
  show ?thesis
  proof (cases "view_elements d = []")
    case True
    with n show ?thesis by (simp add: iterate_def iterator_begin_def)
  next
    case False
    then show ?thesis
      using iterate_from_rest [of "unat (bsd_size d)" "bsd_deltas d" ?it] n rest
      by (simp add: iterate_def iterator_begin_def Let_def)
  qed
qed

subsection \<open>The interface of a mutable cache\<close>

text \<open>
  The caches built on a delta of mutable elements use it through five operations: a look up that
  hands out a pointer, an assignment through that pointer, an insert, a remove and the test for
  membership. The laws say what they do to the view. \<open>modify\<close> is the pattern the cache clients
  repeat: find an element and, if there is one, change it in place.
\<close>

locale mutable_cache =
  fixes view :: "'d \<Rightarrow> 'k \<Rightarrow> 'e option"
    and inv :: "'d \<Rightarrow> bool"
    and find :: "'d \<Rightarrow> 'k \<Rightarrow> 'e option \<times> 'd"
    and store :: "'k \<Rightarrow> 'e \<Rightarrow> 'd \<Rightarrow> 'd"
    and ins :: "'k \<Rightarrow> 'e \<Rightarrow> 'd \<Rightarrow> 'd"
    and rem :: "'k \<Rightarrow> 'd \<Rightarrow> 'd"
    and has :: "'d \<Rightarrow> 'k \<Rightarrow> bool"
  assumes find_result: "inv d \<Longrightarrow> fst (find d k) = view d k"
    and find_keeps: "inv d \<Longrightarrow> view (snd (find d k)) = view d"
    and find_inv: "inv d \<Longrightarrow> inv (snd (find d k))"
    and store_view: "inv d \<Longrightarrow> view d k \<noteq> None \<Longrightarrow> view (store k e (snd (find d k))) = (view d)(k \<mapsto> e)"
    and store_inv: "inv d \<Longrightarrow> view d k \<noteq> None \<Longrightarrow> inv (store k e (snd (find d k)))"
    and ins_view: "inv d \<Longrightarrow> view (ins k e d) = (view d)(k \<mapsto> e)"
    and ins_inv: "inv d \<Longrightarrow> inv (ins k e d)"
    and rem_view: "inv d \<Longrightarrow> view (rem k d) = (view d)(k := None)"
    and rem_inv: "inv d \<Longrightarrow> inv (rem k d)"
    and has_view: "inv d \<Longrightarrow> has d k \<longleftrightarrow> view d k \<noteq> None"
begin

definition modify :: "('e \<Rightarrow> 'e) \<Rightarrow> 'k \<Rightarrow> 'd \<Rightarrow> 'd" where
  "modify f k d = (case find d k of (None, d') \<Rightarrow> d' | (Some e, d') \<Rightarrow> store k (f e) d')"

lemma find_cases: "inv d \<Longrightarrow> find d k = (view d k, snd (find d k))"
  using find_result [of d k] by (cases "find d k") auto

lemma modify_view: "inv d \<Longrightarrow> view (modify f k d) = (view d)(k := map_option f (view d k))"
proof (cases "view d k")
  case None
  assume "inv d"
  with None find_cases [of d k] find_keeps [of d k] show ?thesis
    by (auto simp: modify_def fun_eq_iff split: prod.splits)
next
  case (Some e)
  assume "inv d"
  moreover have "find d k = (Some e, snd (find d k))"
    using find_cases [OF \<open>inv d\<close>, of k] Some by simp
  ultimately show ?thesis
    using store_view [of d k "f e"] Some by (auto simp: modify_def split: prod.splits)
qed

lemma modify_inv: "inv d \<Longrightarrow> inv (modify f k d)"
  using find_cases [of d k] find_inv [of d k] store_inv [of d k]
  by (auto simp: modify_def split: prod.splits option.splits) (metis option.distinct(1) snd_conv)+

lemma fold_modify_inv: "inv d \<Longrightarrow> inv (fold (modify f) ks d)"
  by (induction ks arbitrary: d) (auto simp: modify_inv)

lemma fold_modify_view:
  "inv d \<Longrightarrow> distinct ks \<Longrightarrow>
     view (fold (modify f) ks d) = (\<lambda>k. if k \<in> set ks then map_option f (view d k) else view d k)"
proof (induction ks arbitrary: d)
  case (Cons k ks)
  then show ?case by (auto simp: modify_inv modify_view fun_eq_iff)
qed simp

lemma fold_rem_inv: "inv d \<Longrightarrow> inv (fold rem ks d)"
  by (induction ks arbitrary: d) (auto simp: rem_inv)

lemma fold_rem_view:
  "inv d \<Longrightarrow> view (fold rem ks d) = (\<lambda>k. if k \<in> set ks then None else view d k)"
proof (induction ks arbitrary: d)
  case (Cons k ks)
  then show ?case by (auto simp: rem_inv rem_view fun_eq_iff)
qed simp

lemma upsert_view:
  assumes "inv d"
  shows "view (modify f k (if has d k then d else ins k e d))
       = (view d)(k \<mapsto> f (case view d k of None \<Rightarrow> e | Some e' \<Rightarrow> e'))"
proof (cases "view d k")
  case None
  then show ?thesis
    using assms modify_view [OF ins_inv [OF assms]] by (auto simp: has_view ins_view fun_eq_iff)
next
  case (Some e')
  then show ?thesis
    using assms modify_view [OF assms] by (auto simp: has_view)
qed

lemma upsert_inv: "inv d \<Longrightarrow> inv (modify f k (if has d k then d else ins k e d))"
  by (simp add: modify_inv ins_inv)

end

interpretation bsd: mutable_cache bsd_view "bsd_inv MutableTypeTag" "bsd_find MutableTypeTag" bsd_store
  "\<lambda>k e d. snd (bsd_insert MutableTypeTag k e d)" "\<lambda>k d. snd (bsd_remove MutableTypeTag k d)" bsd_contains
  by unfold_locales
     (simp_all add: bsd_find_view bsd_find_inv bsd_store_view bsd_store_inv bsd_insert_mutable_view
        bsd_insert_inv bsd_remove_view bsd_remove_inv bsd_contains_view)

subsection \<open>Properties\<close>

text \<open>Sequences of operations on a delta of mutable elements, and what they mean on a map.\<close>

datatype ('k, 'e) delta_op =
  Op_Insert 'k 'e | Op_Remove 'k | Op_Find 'k | Op_Assign 'k 'e | Op_NextGeneration

fun run_op :: "('k::linorder, 'e) delta_op \<Rightarrow> ('k, 'e) BaseSetDelta \<Rightarrow> ('k, 'e) BaseSetDelta" where
  "run_op (Op_Insert k e) d = snd (bsd_insert MutableTypeTag k e d)"
| "run_op (Op_Remove k) d = snd (bsd_remove MutableTypeTag k d)"
| "run_op (Op_Find k) d = snd (bsd_find MutableTypeTag d k)"
| "run_op (Op_Assign k e) d =
     (case bsd_find MutableTypeTag d k of (None, d') \<Rightarrow> d' | (Some _, d') \<Rightarrow> bsd_store k e d')"
| "run_op Op_NextGeneration d = bsd_incrementGenerationId d"

fun spec_op :: "('k, 'e) delta_op \<Rightarrow> ('k \<rightharpoonup> 'e) \<Rightarrow> ('k \<rightharpoonup> 'e)" where
  "spec_op (Op_Insert k e) m = m(k \<mapsto> e)"
| "spec_op (Op_Remove k) m = m(k := None)"
| "spec_op (Op_Find k) m = m"
| "spec_op (Op_Assign k e) m = (case m k of None \<Rightarrow> m | Some _ \<Rightarrow> m(k \<mapsto> e))"
| "spec_op Op_NextGeneration m = m"

text \<open>The keys that an operation marks with the current generation: an insert always, the others when there is an element.\<close>

fun touched :: "('k, 'e) delta_op \<Rightarrow> ('k \<rightharpoonup> 'e) \<Rightarrow> 'k set" where
  "touched (Op_Insert k e) m = {k}"
| "touched (Op_Remove k) m = (if m k = None then {} else {k})"
| "touched (Op_Find k) m = (if m k = None then {} else {k})"
| "touched (Op_Assign k e) m = (if m k = None then {} else {k})"
| "touched Op_NextGeneration m = {}"

fun touched_by :: "('k, 'e) delta_op list \<Rightarrow> ('k \<rightharpoonup> 'e) \<Rightarrow> 'k set" where
  "touched_by [] m = {}"
| "touched_by (op # ops) m = touched op m \<union> touched_by ops (spec_op op m)"

fun generations :: "('k, 'e) delta_op list \<Rightarrow> nat" where
  "generations [] = 0"
| "generations (op # ops) = (case op of Op_NextGeneration \<Rightarrow> Suc (generations ops) | _ \<Rightarrow> generations ops)"

lemma bsd_incrementGenerationId_view [simp]:
  "bsd_view (bsd_incrementGenerationId d) = bsd_view d"
  "bsd_inv tag (bsd_incrementGenerationId d) = bsd_inv tag d"
  by (simp_all add: bsd_incrementGenerationId_def bsd_view_def bsd_inv_def fun_eq_iff cong: option.case_cong)

lemma run_op_assign: "run_op (Op_Assign k e) d = bsd.modify (\<lambda>_. e) k d"
  by (simp add: bsd.modify_def)

lemma run_op_inv: "bsd_inv MutableTypeTag d \<Longrightarrow> bsd_inv MutableTypeTag (run_op op d)"
  by (cases op)
     (simp_all only: run_op_assign run_op.simps(1,2,3,5) bsd_insert_inv bsd_remove_inv bsd_find_inv
        bsd.modify_inv bsd_incrementGenerationId_view)

lemma run_op_view: "bsd_inv MutableTypeTag d \<Longrightarrow> bsd_view (run_op op d) = spec_op op (bsd_view d)"
proof (cases op)
  case (Op_Assign k e)
  assume "bsd_inv MutableTypeTag d"
  then show ?thesis
    unfolding Op_Assign run_op_assign
    by (subst bsd.modify_view) (auto simp: fun_eq_iff split: option.splits)
qed (simp_all add: bsd_insert_mutable_view bsd_remove_view bsd_find_view)

lemma run_op_original: "originalElements (run_op op d) = originalElements d"
  by (cases op) (auto simp: bsd_op_defs bsd_incrementGenerationId_def Let_def split: option.splits)

lemma run_ops:
  assumes "bsd_inv MutableTypeTag d"
  shows "bsd_inv MutableTypeTag (fold run_op ops d)
    \<and> bsd_view (fold run_op ops d) = fold spec_op ops (bsd_view d)
    \<and> originalElements (fold run_op ops d) = originalElements d"
  using assms by (induction ops arbitrary: d) (auto simp: run_op_inv run_op_view run_op_original)


text \<open>An operation marks exactly the keys it touches and leaves the others alone.\<close>

lemma run_op_marks:
  assumes "bsd_inv MutableTypeTag d"
  shows "generationId (run_op op d) = (case op of Op_NextGeneration \<Rightarrow> generationId d + 1 | _ \<Rightarrow> generationId d)"
    and "smap_find (keyGenerationIdMap (run_op op d)) k
      = (if k \<in> touched op (bsd_view d) then Some (generationId d) else smap_find (keyGenerationIdMap d) k)"
    and "k \<notin> touched op (bsd_view d) \<Longrightarrow> bsd_view (run_op op d) k = bsd_view d k"
proof -
  show "generationId (run_op op d) = (case op of Op_NextGeneration \<Rightarrow> generationId d + 1 | _ \<Rightarrow> generationId d)"
    by (cases op) (auto simp: bsd_op_defs bsd_incrementGenerationId_def Let_def split: option.splits)
  show "smap_find (keyGenerationIdMap (run_op op d)) k
      = (if k \<in> touched op (bsd_view d) then Some (generationId d) else smap_find (keyGenerationIdMap d) k)"
    using bsd_inv_keyD [OF assms]
    by (cases op) (force simp: bsd_op_defs bsd_incrementGenerationId_def bsd_view_def bsd_key_inv_def smap_contains_def Let_def
        split: option.splits if_splits)+
  show "bsd_view (run_op op d) k = bsd_view d k" if "k \<notin> touched op (bsd_view d)"
    using that unfolding run_op_view [OF assms] by (cases op) (auto split: if_splits option.splits)
qed

lemma touched_by_append: "touched_by (ops @ ops') m = touched_by ops m \<union> touched_by ops' (fold spec_op ops m)"
  by (induction ops arbitrary: m) auto

lemma run_ops_generation:
  assumes "bsd_inv MutableTypeTag d" "unat (generationId d) + generations ops < 2 ^ 32"
  shows "unat (generationId (fold run_op ops d)) = unat (generationId d) + generations ops"
  using assms
proof (induction ops arbitrary: d)
  case (Cons op ops)
  have "unat (generationId (run_op op d)) + generations ops = unat (generationId d) + generations (op # ops)"
    using Cons.prems(2) unfolding run_op_marks(1) [OF Cons.prems(1)] by (cases op) (simp_all add: unat_word_ariths)
  with Cons.IH [OF run_op_inv [OF Cons.prems(1), of op]] Cons.prems(2) show ?case by simp
qed simp

text \<open>Over any operations: a touched key has a generation of these operations, an untouched one is as before.\<close>

lemma run_ops_marks:
  assumes "bsd_inv MutableTypeTag d" "unat (generationId d) + generations ops < 2 ^ 32"
  shows "if k \<in> touched_by ops (bsd_view d)
    then generationId d \<le> bsd_keyGenerationId (fold run_op ops d) k
      \<and> bsd_keyGenerationId (fold run_op ops d) k \<le> generationId (fold run_op ops d)
    else bsd_keyGenerationId (fold run_op ops d) k = bsd_keyGenerationId d k \<and> bsd_view (fold run_op ops d) k = bsd_view d k"
  using assms
proof (induction ops arbitrary: d)
  case (Cons op ops)
  let ?d = "run_op op d"
  note marks = run_op_marks [OF Cons.prems(1), where op = op]
  have inv: "bsd_inv MutableTypeTag ?d" using Cons.prems(1) by (rule run_op_inv)
  have gen: "unat (generationId ?d) + generations ops = unat (generationId d) + generations (op # ops)"
    and le: "generationId d \<le> generationId ?d"
    using Cons.prems(2) unfolding marks(1) by (cases op; simp add: unat_word_ariths word_le_nat_alt)+
  then have bound: "unat (generationId ?d) + generations ops < 2 ^ 32" using Cons.prems(2) by simp
  have last: "generationId ?d \<le> generationId (fold run_op ops ?d)"
    using run_ops_generation [OF inv bound] by (simp add: word_le_nat_alt)
  note IH = Cons.IH [OF inv bound, unfolded run_op_view [OF Cons.prems(1)]]
  show ?case
  proof (cases "k \<in> touched_by ops (spec_op op (bsd_view d))")
    case True
    with IH le show ?thesis by auto
  next
    case False
    with IH marks(2,3) [of k] le last show ?thesis
      by (auto simp: bsd_keyGenerationId_def run_op_view [OF Cons.prems(1)] intro: order_trans)
  qed
qed simp

text \<open>
  C8. Refinement of the delta sets. A base set is rebased, any sequence of inserts, removes, look
  ups, assignments through found elements and generation changes runs on the attached delta, and
  the delta is committed. None of this throws, and the committed set holds exactly what the same
  sequence of updates does to a plain map; the delta then sees the committed elements and has no
  pending changes.
\<close>

theorem delta_commit_refines_map:
  assumes "smap_inv (elements s)" "weakDelta s = None"
  shows "\<exists>s1 d. bs_rebase s = Inr s1 \<and> weakDelta s1 = Some d \<and>
    (\<exists>s2 d2. bs_commit (s1\<lparr>weakDelta := Some (fold run_op ops d)\<rparr>) = Inr s2
       \<and> bs_find s2 = fold spec_op ops (bs_find s)
       \<and> weakDelta s2 = Some d2 \<and> bsd_view d2 = bs_find s2 \<and> \<not> HasChanges (bsd_deltas d2))"
proof -
  let ?d = "bsd_new (elements s)"
  let ?s1 = "s\<lparr>weakDelta := Some ?d\<rparr>"
  let ?dn = "fold run_op ops ?d"
  have "bs_rebase s = Inr ?s1" using assms(2) by (simp add: bs_rebase_def)
  moreover have ops: "bsd_inv MutableTypeTag ?dn" "bsd_view ?dn = fold spec_op ops (bs_find s)"
      "originalElements ?dn = elements s"
    using run_ops [OF bsd_inv_new [OF assms(1)], of ops]
    by (auto simp: bs_find_smap)
  moreover obtain s2 d2 where "bs_commit (?s1\<lparr>weakDelta := Some ?dn\<rparr>) = Inr s2"
      "bs_find s2 = bsd_view ?dn" "weakDelta s2 = Some d2" "bsd_view d2 = bsd_view ?dn"
      "\<not> HasChanges (bsd_deltas d2)"
    using bs_commit_ok [of "?s1\<lparr>weakDelta := Some ?dn\<rparr>" ?dn MutableTypeTag] ops by auto
  ultimately show ?thesis by auto
qed

theorem delta_commit_refines_map_witness:
  "let s = \<lparr>elements = [(1::nat, ''a''), (2, ''b'')], weakDelta = None\<rparr>;
       ops = [Op_Remove 1, Op_Assign 2 ''c'', Op_Insert 1 ''d'', Op_Insert 5 ''e'', Op_Remove 5]
   in (\<exists>s1 d. bs_rebase s = Inr s1 \<and> weakDelta s1 = Some d \<and>
     (\<exists>s2 d2. bs_commit (s1\<lparr>weakDelta := Some (fold run_op ops d)\<rparr>) = Inr s2
       \<and> bs_find s2 = fold spec_op ops (bs_find s)
       \<and> weakDelta s2 = Some d2 \<and> bsd_view d2 = bs_find s2 \<and> \<not> HasChanges (bsd_deltas d2)))"
proof -
  have "smap_inv [(1::nat, ''a''), (2, ''b'')]" by simp
  then show ?thesis
    unfolding Let_def by (intro delta_commit_refines_map) simp_all
qed

text \<open>
  The element count that the delta reports, computed in \<open>size_t\<close> arithmetic where the
  subtraction of the removed elements may wrap, is the number of elements a reader sees, for any
  delta in its invariant that holds fewer than \<open>2 ^ 64\<close> elements.
\<close>

theorem delta_size_counts_view:
  assumes "bsd_inv tag d" "card (dom (bsd_view d)) < 2 ^ 64"
  shows "unat (bsd_size d) = card (dom (bsd_view d))"
  using assms by (simp add: bsd_size_of_nat unat_of_nat_small)

theorem delta_size_counts_view_witness:
  "let d = snd (bsd_remove ImmutableTypeTag (7::nat)
              (snd (bsd_insert ImmutableTypeTag 7 ''x'' (bsd_new []))))
   in unat (bsd_size d) = card (dom (bsd_view d)) \<and> smap_size (originalElements d) < smap_size (removedElements d)"
proof -
  let ?d = "snd (bsd_remove ImmutableTypeTag (7::nat)
              (snd (bsd_insert ImmutableTypeTag 7 ''x'' (bsd_new []))))"
  have inv: "bsd_inv ImmutableTypeTag ?d"
    by (intro bsd_remove_inv bsd_insert_inv bsd_inv_new) simp
  have "bsd_view ?d = Map.empty"
    by (simp add: bsd_remove_view bsd_insert_inv bsd_insert_immutable_view fun_eq_iff)
  moreover have "smap_size (originalElements ?d) < smap_size (removedElements ?d)"
    by code_simp
  ultimately show ?thesis
    using delta_size_counts_view [OF inv] by simp
qed

text \<open>
  C28. Iterating over a delta visits every visible element exactly once and stops: the loop never
  advances past the end nor dereferences there. It yields first the original elements that are
  not removed, in the order of the base set and each in its current version, and then the added
  elements that are not removed, in their order; the keys it yields are distinct and the pairs are
  exactly the elements a reader sees. The delta holds fewer than \<open>2 ^ 64\<close> elements.
\<close>

theorem delta_iteration_enumerates_view:
  assumes "bsd_inv tag d" "card (dom (bsd_view d)) < 2 ^ 64"
  shows "\<exists>originals added. iterate d = Inr (originals @ added)
    \<and> map fst originals = filter (\<lambda>key. \<not> smap_contains (removedElements d) key) (map fst (originalElements d))
    \<and> added = filter (\<lambda>ke. \<not> smap_contains (removedElements d) (fst ke)) (addedElements d)
    \<and> distinct (map fst (originals @ added))
    \<and> (\<forall>key e. (key, e) \<in> set (originals @ added) \<longleftrightarrow> bsd_view d key = Some e)"
proof (intro exI conjI)
  let ?originals = "visible_originals (bsd_deltas d) (originalElements d)"
  let ?added = "filter (\<lambda>ke. \<not> smap_contains (removedElements d) (fst ke)) (addedElements d)"
  have view: "?originals @ ?added = view_elements d"
    by (simp add: view_elements_def visible_def [abs_def] bsd_deltas_def)
  show "iterate d = Inr (?originals @ ?added)" unfolding view by (rule iterate_view_elements [OF assms])
  show "map fst ?originals = filter (\<lambda>key. \<not> smap_contains (removedElements d) key) (map fst (originalElements d))"
    by (simp add: visible_originals_def fst_current_version filter_map comp_def visible_def [abs_def] bsd_deltas_def)
  show "distinct (map fst (?originals @ ?added))" unfolding view by (rule distinct_view_elements [OF assms(1)])
  show "\<forall>key e. (key, e) \<in> set (?originals @ ?added) \<longleftrightarrow> bsd_view d key = Some e"
    unfolding view using set_view_elements [OF assms(1)] by blast
qed simp

theorem delta_iteration_enumerates_view_witness:
  "let d = fold run_op [Op_Remove 1, Op_Assign 2 ''c'', Op_Insert 0 ''z''] (bsd_new [(1::nat, ''a''), (2, ''b'')])
   in \<exists>originals added. iterate d = Inr (originals @ added) \<and> map fst originals = [2] \<and> added = [(0, ''z'')]
      \<and> (\<forall>key e. (key, e) \<in> set (originals @ added) \<longleftrightarrow> bsd_view d key = Some e)
      \<and> iterate d = Inr [(2, ''c''), (0, ''z'')]"
proof -
  let ?d = "fold run_op [Op_Remove 1, Op_Assign 2 ''c'', Op_Insert 0 ''z''] (bsd_new [(1::nat, ''a''), (2, ''b'')])"
  have inv0: "bsd_inv MutableTypeTag (bsd_new [(1::nat, ''a''), (2, ''b'')])"
    by (rule bsd_inv_new) simp
  have inv: "bsd_inv MutableTypeTag ?d"
    using run_ops [OF inv0] by blast
  have "bsd_view ?d = fold spec_op [Op_Remove 1, Op_Assign 2 ''c'', Op_Insert 0 ''z'']
      (smap_find [(1::nat, ''a''), (2, ''b'')])"
    using run_ops [OF inv0] bsd_view_new by metis
  then have "dom (bsd_view ?d) \<subseteq> {0, 2}"
    by (auto simp: smap_find_def split: if_splits)
  then have "card (dom (bsd_view ?d)) < 2 ^ 64"
    using card_mono [of "{0, 2}" "dom (bsd_view ?d)"] by simp
  moreover have "iterate ?d = Inr [(2, ''c''), (0, ''z'')]" by code_simp
  moreover have "filter (\<lambda>key. \<not> smap_contains (removedElements ?d) key) (map fst (originalElements ?d)) = [2]"
    "filter (\<lambda>ke. \<not> smap_contains (removedElements ?d) (fst ke)) (addedElements ?d) = [(0, ''z'')]" by code_simp+
  ultimately show ?thesis
    unfolding Let_def using delta_iteration_enumerates_view [OF inv] by metis
qed

text \<open>
  C27. Generation ids never miss a change. Take a fresh delta of mutable elements, run any operations,
  start a new generation and run any further operations, with fewer than \<open>2 ^ 32 - 2\<close> generations in all.
  The keys whose id is at least the id of the new generation are exactly those that the further
  operations touched (inserted, or looked up, assigned or removed while there was an element), and every key with
  a smaller id still has the element it had when the generation started. The keys with the id zero are
  exactly those never touched since the delta was created, and they have the element of the base set.
\<close>

theorem delta_generations_sound:
  assumes "smap_inv original" "generations ops1 + generations ops2 + 2 < 2 ^ 32"
  defines "d1 \<equiv> bsd_incrementGenerationId (fold run_op ops1 (bsd_new original))"
    and "d2 \<equiv> fold run_op ops2 (bsd_incrementGenerationId (fold run_op ops1 (bsd_new original)))"
  shows "(generationId d1 \<le> bsd_keyGenerationId d2 key \<longleftrightarrow> key \<in> touched_by ops2 (bsd_view d1))
    \<and> (bsd_keyGenerationId d2 key < generationId d1 \<longrightarrow> bsd_view d2 key = bsd_view d1 key)
    \<and> (bsd_keyGenerationId d2 key = 0 \<longleftrightarrow> key \<notin> touched_by (ops1 @ ops2) (smap_find original))
    \<and> (bsd_keyGenerationId d2 key = 0 \<longrightarrow> bsd_view d2 key = smap_find original key)"
proof -
  let ?new = "bsd_new original" and ?d = "fold run_op ops1 (bsd_new original)"
  note inv0 = bsd_inv_new [OF assms(1), of MutableTypeTag]
  have new: "generationId ?new = 1" "bsd_keyGenerationId ?new key = 0"
    by (simp_all add: bsd_new_def bsd_keyGenerationId_def)
  have inv: "bsd_inv MutableTypeTag ?d" and view: "bsd_view ?d = fold spec_op ops1 (smap_find original)"
    using run_ops [OF inv0, of ops1] by simp_all
  have g: "unat (generationId ?d) = 1 + generations ops1"
    using run_ops_generation [OF inv0, of ops1] assms(2) by (simp add: new)
  have d1: "unat (generationId d1) = 2 + generations ops1" "bsd_view d1 = bsd_view ?d" "bsd_inv MutableTypeTag d1"
      "bsd_keyGenerationId d1 key = bsd_keyGenerationId ?d key"
    using g assms(2) inv
    by (simp_all add: d1_def bsd_keyGenerationId_def) (simp_all add: bsd_incrementGenerationId_def unat_word_ariths)
  have lt: "generationId ?d < generationId d1" "1 \<le> generationId d1" using g d1(1) by (simp_all add: word_less_nat_alt word_le_nat_alt)
  note first = run_ops_marks [OF inv0, of ops1 key, unfolded new bsd_view_new]
  note second = run_ops_marks [OF d1(3), of ops2 key]
  have "fold run_op ops2 d1 = d2" by (simp add: d1_def d2_def)
  with first second lt assms(2) d1 view show ?thesis
    by (auto simp: touched_by_append new split: if_splits)
qed

theorem delta_generations_sound_witness:
  "let d1 = bsd_incrementGenerationId (fold run_op [Op_Insert 3 ''c'', Op_Find 1] (bsd_new [(1::nat, ''a''), (2, ''b'')]));
       d2 = fold run_op [Op_Remove 1, Op_Find 9] d1
   in generationId d1 \<le> bsd_keyGenerationId d2 1 \<and> bsd_view d1 1 = Some ''a'' \<and> bsd_view d2 1 = None
     \<and> 0 < bsd_keyGenerationId d2 3 \<and> bsd_keyGenerationId d2 3 < generationId d1 \<and> bsd_view d2 3 = bsd_view d1 3
     \<and> bsd_keyGenerationId d2 2 = 0 \<and> bsd_view d2 2 = Some ''b''"
proof -
  let ?d1 = "bsd_incrementGenerationId (fold run_op [Op_Insert 3 ''c'', Op_Find 1] (bsd_new [(1::nat, ''a''), (2, ''b'')]))"
  let ?d2 = "fold run_op [Op_Remove 1, Op_Find 9] ?d1"
  have inv: "smap_inv [(1::nat, ''a''), (2, ''b'')]" by simp
  note sound = delta_generations_sound [OF inv, of "[Op_Insert 3 ''c'', Op_Find 1]" "[Op_Remove 1, Op_Find 9]"]
  have "bsd_view ?d1 1 = Some ''a''" "bsd_view ?d2 1 = None" "generationId ?d1 \<le> bsd_keyGenerationId ?d2 1"
      "0 < bsd_keyGenerationId ?d2 3" "bsd_keyGenerationId ?d2 3 < generationId ?d1" "bsd_keyGenerationId ?d2 2 = 0"
    by code_simp+
  moreover from calculation sound [of 3] sound [of 2]
  have "bsd_view ?d2 3 = bsd_view ?d1 3" "bsd_view ?d2 2 = Some ''b''" by (simp_all add: smap_find_def)
  ultimately show ?thesis unfolding Let_def by blast
qed

text \<open>
  Committing an ordered set with a pruning boundary succeeds and leaves exactly the visible
  elements of the delta that are not below the boundary; with no boundary it leaves all of them.
\<close>

theorem ordered_commit_prunes_below_boundary:
  assumes "weakDelta s = Some d" "originalElements d = elements s" "bsd_inv tag d"
  shows "\<exists>s'. os_commit s boundary = Inr s' \<and> smap_inv (elements s')
           \<and> bs_find s' = (\<lambda>k. case boundary of
                 None \<Rightarrow> bsd_view d k
               | Some b \<Rightarrow> if k < b then None else bsd_view d k)"
  using assms by (rule os_commit_ok)

theorem ordered_commit_prunes_below_boundary_witness:
  "let d = snd (bsd_insert ImmutableTypeTag 9 () (bsd_new [(1::nat, ()), (5, ())]));
       s = \<lparr>elements = [(1, ()), (5, ())], weakDelta = Some d\<rparr>
   in \<exists>s'. os_commit s (Some 5) = Inr s' \<and> smap_inv (elements s')
           \<and> bs_find s' = (\<lambda>k. if k < 5 then None else bsd_view d k)"
proof -
  let ?d = "snd (bsd_insert ImmutableTypeTag 9 () (bsd_new [(1::nat, ()), (5, ())]))"
  have "bsd_inv ImmutableTypeTag ?d"
    by (intro bsd_insert_inv bsd_inv_new) simp
  moreover have "originalElements ?d = [(1, ()), (5, ())]" by code_simp
  ultimately show ?thesis
    unfolding Let_def
    using ordered_commit_prunes_below_boundary
      [of "\<lparr>elements = [(1, ()), (5, ())], weakDelta = Some ?d\<rparr>" ?d ImmutableTypeTag "Some 5"]
    by simp
qed

end
