(* ===== verification/LockInfo.thy ===== *)
theory LockInfo
  imports DeltaSet
begin

section \<open>Lock info caches (plugins/txes/lock_shared)\<close>

text \<open>
  Hash locks and secret locks share their cache: a delta of lock histories by lock identifier and a
  second delta that groups the identifiers by the height at which their locks expire. The model is
  generic in the type of lock, a record that extends \<open>LockInfo\<close>, and in its \<open>GetLockIdentifier\<close>.
  The identifiers of a group are an \<open>unordered_set\<close>; the model iterates them in increasing order.
  \<open>back()\<close> of an empty list is undefined in the source; the invariant keeps every history of the
  cache nonempty, so \<open>last\<close> is only used where it is defined.
\<close>

subsection \<open>Lock infos and histories\<close>

datatype LockStatus = Unused | Used

record LockInfo =
  OwnerAddress :: Address
  MosaicId :: MosaicId
  Amount :: Amount
  EndHeight :: Height
  Status :: LockStatus

definition new_LockInfo :: "Address \<Rightarrow> MosaicId \<Rightarrow> Amount \<Rightarrow> Height \<Rightarrow> LockInfo" where
  "new_LockInfo ownerAddress mosaicId amount endHeight =
     \<lparr>OwnerAddress = ownerAddress, MosaicId = mosaicId, Amount = amount, EndHeight = endHeight, Status = Unused\<rparr>"

definition li_isActive :: "Height \<Rightarrow> 'a LockInfo_scheme \<Rightarrow> bool" where
  "li_isActive height l \<longleftrightarrow> height < EndHeight l \<and> Unused = Status l"

record 'l LockInfoHistory =
  lh_id :: Hash256
  lockInfos :: "'l list"

definition lh_new :: "Hash256 \<Rightarrow> 'l LockInfoHistory" where
  "lh_new i = \<lparr>lh_id = i, lockInfos = []\<rparr>"

definition lh_empty :: "'l LockInfoHistory \<Rightarrow> bool" where
  "lh_empty h \<longleftrightarrow> lockInfos h = []"

definition lh_historyDepth :: "'l LockInfoHistory \<Rightarrow> nat" where
  "lh_historyDepth h = length (lockInfos h)"

definition lh_push_back :: "('l \<Rightarrow> Hash256) \<Rightarrow> 'l \<Rightarrow> 'l LockInfoHistory \<Rightarrow> exn + 'l LockInfoHistory" where
  "lh_push_back GetLockIdentifier lockInfo h =
     (if lh_id h \<noteq> GetLockIdentifier lockInfo then Inl Invalid_Argument
      else Inr (h\<lparr>lockInfos := lockInfos h @ [lockInfo]\<rparr>))"

definition lh_pop_back :: "'l LockInfoHistory \<Rightarrow> exn + 'l LockInfoHistory" where
  "lh_pop_back h = (if lh_empty h then Inl Invalid_Argument else Inr (h\<lparr>lockInfos := butlast (lockInfos h)\<rparr>))"

definition lh_back :: "'l LockInfoHistory \<Rightarrow> 'l" where
  "lh_back h = last (lockInfos h)"

text \<open>Assignment through the reference that \<open>back()\<close> returns.\<close>

definition lh_set_back :: "'l \<Rightarrow> 'l LockInfoHistory \<Rightarrow> 'l LockInfoHistory" where
  "lh_set_back l h = h\<lparr>lockInfos := butlast (lockInfos h) @ [l]\<rparr>"

definition lh_isActive :: "Height \<Rightarrow> 'a LockInfo_scheme LockInfoHistory \<Rightarrow> bool" where
  "lh_isActive height h \<longleftrightarrow> \<not> lh_empty h \<and> li_isActive height (lh_back h)"

definition lh_prune :: "Height \<Rightarrow> 'a LockInfo_scheme LockInfoHistory \<Rightarrow> 'a LockInfo_scheme LockInfoHistory" where
  "lh_prune height h = h\<lparr>lockInfos := dropWhile (\<lambda>l. EndHeight l \<le> height) (lockInfos h)\<rparr>"

subsection \<open>Identifier groups (catapult/utils/IdentifierGroup)\<close>

record ('i, 'g) IdentifierGroup =
  group_key :: 'g
  group_identifiers :: "('i, unit) smap"

definition group_new :: "'g \<Rightarrow> ('i, 'g) IdentifierGroup" where
  "group_new key = \<lparr>group_key = key, group_identifiers = smap_empty\<rparr>"

definition identifiers :: "('i, 'g) IdentifierGroup \<Rightarrow> 'i list" where
  "identifiers g = map fst (group_identifiers g)"

definition group_empty :: "('i, 'g) IdentifierGroup \<Rightarrow> bool" where
  "group_empty g \<longleftrightarrow> group_identifiers g = []"

definition group_size :: "('i, 'g) IdentifierGroup \<Rightarrow> nat" where
  "group_size g = smap_size (group_identifiers g)"

definition group_add :: "'i::linorder \<Rightarrow> ('i, 'g) IdentifierGroup \<Rightarrow> ('i, 'g) IdentifierGroup" where
  "group_add identifier g = g\<lparr>group_identifiers := smap_insert identifier () (group_identifiers g)\<rparr>"

definition group_remove :: "'i::linorder \<Rightarrow> ('i, 'g) IdentifierGroup \<Rightarrow> ('i, 'g) IdentifierGroup" where
  "group_remove identifier g = g\<lparr>group_identifiers := smap_erase identifier (group_identifiers g)\<rparr>"

subsection \<open>Grouped sets (catapult/cache/IdentifierGroupCacheUtils)\<close>

type_synonym ('i, 'g) grouped_set = "('g, ('i, 'g) IdentifierGroup) BaseSetDelta"

definition AddIdentifierWithGroup ::
  "'g::linorder \<Rightarrow> 'i::linorder \<Rightarrow> ('i, 'g) grouped_set \<Rightarrow> ('i, 'g) grouped_set" where
  "AddIdentifierWithGroup key identifier groupedSet =
     (let groupedSet = (if \<not> bsd_contains groupedSet key
                        then snd (bsd_insert MutableTypeTag key (group_new key) groupedSet) else groupedSet)
      in case bsd_find MutableTypeTag groupedSet key of
           (None, groupedSet) \<Rightarrow> groupedSet
         | (Some grp, groupedSet) \<Rightarrow> bsd_store key (group_add identifier grp) groupedSet)"

text \<open>
  The loop over the identifiers of a group. The action may change the value it is handed, which is
  stored back in place, and a state of the caller.
\<close>

definition ForEachIdentifierWithGroup ::
  "('i::linorder, 'v) BaseSetDelta \<Rightarrow> ('i, 'g) grouped_set \<Rightarrow> 'g \<Rightarrow> ('v \<Rightarrow> 's \<Rightarrow> 'v \<times> 's) \<Rightarrow> 's
     \<Rightarrow> ('i, 'v) BaseSetDelta \<times> 's" where
  "ForEachIdentifierWithGroup st groupedSet key action s =
     (case bsd_find_const MutableTypeTag groupedSet key of
        None \<Rightarrow> (st, s)
      | Some grp \<Rightarrow>
          fold (\<lambda>identifier (st, s).
            case bsd_find MutableTypeTag st identifier of
              (None, st) \<Rightarrow> (st, s)
            | (Some v, st) \<Rightarrow> let (v', s') = action v s in (bsd_store identifier v' st, s'))
            (identifiers grp) (st, s))"

definition RemoveIdentifierWithGroup ::
  "'g::linorder \<Rightarrow> 'i::linorder \<Rightarrow> ('i, 'g) grouped_set \<Rightarrow> ('i, 'g) grouped_set" where
  "RemoveIdentifierWithGroup key identifier groupedSet =
     (case bsd_find MutableTypeTag groupedSet key of
        (None, groupedSet) \<Rightarrow> groupedSet
      | (Some grp, groupedSet) \<Rightarrow>
          let grp = group_remove identifier grp;
              groupedSet = bsd_store key grp groupedSet
          in if group_empty grp then snd (bsd_remove MutableTypeTag key groupedSet) else groupedSet)"

definition FindDeactivatingIdentifiersAtHeight ::
  "(Height \<Rightarrow> 'v \<Rightarrow> bool) \<Rightarrow> ('i::linorder, 'v) BaseSetDelta \<Rightarrow> ('i, Height) grouped_set \<Rightarrow> Height \<Rightarrow> 'i list" where
  "FindDeactivatingIdentifiersAtHeight isActive st groupedSet height =
     (case bsd_find_const MutableTypeTag groupedSet height of
        None \<Rightarrow> []
      | Some grp \<Rightarrow>
          filter (\<lambda>identifier.
            case bsd_find_const MutableTypeTag st identifier of
              None \<Rightarrow> False
            | Some v \<Rightarrow> \<not> isActive height v \<and> isActive (height - 1) v)
            (identifiers grp))"

subsection \<open>Cache mixins (catapult/cache/CacheMixins)\<close>

text \<open>\<open>CacheFindIterator::get\<close> throws when the iterator does not point to a value.\<close>

definition CacheFindIterator_get :: "'v option \<Rightarrow> exn + 'v" where
  "CacheFindIterator_get p = (case p of None \<Rightarrow> Inl Invalid_Argument | Some v \<Rightarrow> Inr v)"

definition mixin_isActive :: "(Height \<Rightarrow> 'v \<Rightarrow> bool) \<Rightarrow> ('k, 'v) BaseSetDelta \<Rightarrow> 'k \<Rightarrow> Height \<Rightarrow> bool" where
  "mixin_isActive isActive st key height =
     (case bsd_find_const MutableTypeTag st key of None \<Rightarrow> False | Some v \<Rightarrow> isActive height v)"

definition mixin_insert ::
  "MutabilityTag \<Rightarrow> 'k::linorder \<Rightarrow> 'v \<Rightarrow> ('k, 'v) BaseSetDelta \<Rightarrow> exn + ('k, 'v) BaseSetDelta" where
  "mixin_insert tag key v st =
     (let (result, st) = bsd_insert tag key v st
      in if Insert_Inserted = result \<or> Insert_Unremoved = result then Inr st else Inl Invalid_Argument)"

definition mixin_remove ::
  "MutabilityTag \<Rightarrow> 'k::linorder \<Rightarrow> ('k, 'v) BaseSetDelta \<Rightarrow> exn + ('k, 'v) BaseSetDelta" where
  "mixin_remove tag key st =
     (let (result, st) = bsd_remove tag key st
      in if Remove_None \<noteq> result \<and> Remove_Redundant \<noteq> result then Inr st else Inl Invalid_Argument)"

definition mixin_touch ::
  "(Height \<Rightarrow> 'v \<Rightarrow> bool) \<Rightarrow> Height \<Rightarrow> ('i::linorder, 'v) BaseSetDelta \<Rightarrow> ('i, Height) grouped_set
     \<Rightarrow> 'i list \<times> ('i, 'v) BaseSetDelta" where
  "mixin_touch isActive height st groupedSet =
     (let (st, _) = ForEachIdentifierWithGroup st groupedSet height (\<lambda>v s. (v, s)) ()
      in (FindDeactivatingIdentifiersAtHeight isActive st groupedSet height, st))"

subsection \<open>The lock info cache delta\<close>

record 'l LockInfoCacheDelta =
  lic_pDelta :: "(Hash256, 'l LockInfoHistory) BaseSetDelta"
  lic_pHeightGroupingDelta :: "(Hash256, Height) grouped_set"

definition lic_contains :: "'l LockInfoCacheDelta \<Rightarrow> Hash256 \<Rightarrow> bool" where
  "lic_contains c key = bsd_contains (lic_pDelta c) key"

definition lic_isActive :: "'a LockInfo_scheme LockInfoCacheDelta \<Rightarrow> Hash256 \<Rightarrow> Height \<Rightarrow> bool" where
  "lic_isActive c key height = mixin_isActive lh_isActive (lic_pDelta c) key height"

definition lic_insert ::
  "('a LockInfo_scheme \<Rightarrow> Hash256) \<Rightarrow> 'a LockInfo_scheme \<Rightarrow> 'a LockInfo_scheme LockInfoCacheDelta
     \<Rightarrow> exn + 'a LockInfo_scheme LockInfoCacheDelta" where
  "lic_insert GetLockIdentifier lockInfo c =
     (let lockIdentifier = GetLockIdentifier lockInfo;
          (iter, pDelta) = bsd_find MutableTypeTag (lic_pDelta c) lockIdentifier
      in rbind
           (case iter of
              Some history \<Rightarrow>
                rbind (lh_push_back GetLockIdentifier lockInfo history)
                  (\<lambda>history. Inr (bsd_store lockIdentifier history pDelta))
            | None \<Rightarrow>
                rbind (lh_push_back GetLockIdentifier lockInfo (lh_new lockIdentifier))
                  (\<lambda>history. Inr (snd (bsd_insert MutableTypeTag (lh_id history) history pDelta))))
           (\<lambda>pDelta.
              Inr (c\<lparr>lic_pDelta := pDelta,
                     lic_pHeightGroupingDelta :=
                       AddIdentifierWithGroup (EndHeight lockInfo) lockIdentifier (lic_pHeightGroupingDelta c)\<rparr>)))"

definition lic_remove ::
  "Hash256 \<Rightarrow> 'a LockInfo_scheme LockInfoCacheDelta \<Rightarrow> exn + 'a LockInfo_scheme LockInfoCacheDelta" where
  "lic_remove lockIdentifier c =
     (case bsd_find MutableTypeTag (lic_pDelta c) lockIdentifier of
        (None, _) \<Rightarrow> Inl Invalid_Argument
      | (Some history, pDelta) \<Rightarrow>
          let grouping = RemoveIdentifierWithGroup (EndHeight (lh_back history)) lockIdentifier
                           (lic_pHeightGroupingDelta c)
          in rbind (lh_pop_back history) (\<lambda>history.
             let pDelta = bsd_store lockIdentifier history pDelta;
                 pDelta = (if lh_empty history then snd (bsd_remove MutableTypeTag lockIdentifier pDelta) else pDelta)
             in Inr (c\<lparr>lic_pDelta := pDelta, lic_pHeightGroupingDelta := grouping\<rparr>)))"

text \<open>The consumer of the source is called with the locks of the returned list, in order.\<close>

definition lic_processUnusedExpiredLocks ::
  "Height \<Rightarrow> 'a LockInfo_scheme LockInfoCacheDelta \<Rightarrow> 'a LockInfo_scheme list \<times> 'a LockInfo_scheme LockInfoCacheDelta" where
  "lic_processUnusedExpiredLocks height c =
     (let (pDelta, consumed) =
            ForEachIdentifierWithGroup (lic_pDelta c) (lic_pHeightGroupingDelta c) height
              (\<lambda>history consumed.
                 (history, if Unused = Status (lh_back history) then consumed @ [lh_back history] else consumed)) []
      in (consumed, c\<lparr>lic_pDelta := pDelta\<rparr>))"

definition lic_prune ::
  "Height \<Rightarrow> 'a LockInfo_scheme LockInfoCacheDelta \<Rightarrow> 'a LockInfo_scheme LockInfoCacheDelta" where
  "lic_prune height c =
     (let (pDelta, pendingRemovalIds) =
            ForEachIdentifierWithGroup (lic_pDelta c) (lic_pHeightGroupingDelta c) height
              (\<lambda>history pendingRemovalIds.
                 let history = lh_prune height history
                 in (history, if lh_empty history then pendingRemovalIds @ [lh_id history] else pendingRemovalIds)) []
      in c\<lparr>lic_pDelta := fold (\<lambda>identifier st. snd (bsd_remove MutableTypeTag identifier st)) pendingRemovalIds pDelta,
           lic_pHeightGroupingDelta := snd (bsd_remove MutableTypeTag height (lic_pHeightGroupingDelta c))\<rparr>)"

subsection \<open>Loading and purging (LockInfoCacheStorage)\<close>

definition lic_LoadInto ::
  "('a LockInfo_scheme \<Rightarrow> Hash256) \<Rightarrow> 'a LockInfo_scheme LockInfoHistory \<Rightarrow> 'a LockInfo_scheme LockInfoCacheDelta
     \<Rightarrow> exn + 'a LockInfo_scheme LockInfoCacheDelta" where
  "lic_LoadInto GetLockIdentifier history c = rfold (lic_insert GetLockIdentifier) (lockInfos history) c"

text \<open>The loop of \<open>Purge\<close> ends when the removals end; \<open>None\<close> would mean that it does not.\<close>

partial_function (option) lic_Purge ::
  "Hash256 \<Rightarrow> 'a LockInfo_scheme LockInfoCacheDelta \<Rightarrow> (exn + 'a LockInfo_scheme LockInfoCacheDelta) option" where
  "lic_Purge i c =
     (if lic_contains c i then
        (case lic_remove i c of Inl e \<Rightarrow> Some (Inl e) | Inr c' \<Rightarrow> lic_Purge i c')
      else Some (Inr c))"

declare lic_Purge.simps [code]

subsection \<open>The view of the cache and its invariant\<close>

definition lic_locks :: "'l LockInfoCacheDelta \<Rightarrow> Hash256 \<Rightarrow> 'l list" where
  "lic_locks c k = (case bsd_view (lic_pDelta c) k of None \<Rightarrow> [] | Some h \<Rightarrow> lockInfos h)"

definition group_members :: "('i::linorder, 'g) grouped_set \<Rightarrow> 'g \<Rightarrow> 'i set" where
  "group_members gs key = (case bsd_view gs key of None \<Rightarrow> {} | Some g \<Rightarrow> set (identifiers g))"

definition grouped_set_inv :: "('i::linorder, 'g::linorder) grouped_set \<Rightarrow> bool" where
  "grouped_set_inv gs \<longleftrightarrow> bsd_inv MutableTypeTag gs
     \<and> (\<forall>key g. bsd_view gs key = Some g \<longrightarrow> smap_inv (group_identifiers g) \<and> \<not> group_empty g)"

definition lic_inv :: "('a LockInfo_scheme \<Rightarrow> Hash256) \<Rightarrow> 'a LockInfo_scheme LockInfoCacheDelta \<Rightarrow> bool" where
  "lic_inv gid c \<longleftrightarrow> bsd_inv MutableTypeTag (lic_pDelta c) \<and> grouped_set_inv (lic_pHeightGroupingDelta c)
     \<and> (\<forall>k h. bsd_view (lic_pDelta c) k = Some h \<longrightarrow> lh_id h = k \<and> \<not> lh_empty h \<and> (\<forall>l \<in> set (lockInfos h). gid l = k))"


subsection \<open>Grouped sets\<close>

definition group_ids :: "('i::linorder, 'g) grouped_set \<Rightarrow> 'g \<Rightarrow> 'i list" where
  "group_ids gs key = (case bsd_view gs key of None \<Rightarrow> [] | Some g \<Rightarrow> identifiers g)"

lemma group_members_ids: "group_members gs key = set (group_ids gs key)"
  by (simp add: group_members_def group_ids_def split: option.splits)

lemma grouped_set_invD: "grouped_set_inv gs \<Longrightarrow> bsd_inv MutableTypeTag gs"
  by (simp add: grouped_set_inv_def)

lemma group_ids_distinct: "grouped_set_inv gs \<Longrightarrow> distinct (group_ids gs key)"
  by (auto simp: grouped_set_inv_def group_ids_def identifiers_def smap_inv_distinct split: option.splits)

lemma set_identifiers_add: "set (identifiers (group_add i g)) = insert i (set (identifiers g))"
  by (auto simp: identifiers_def group_add_def smap_insert_def fst_set_smap_put smap_contains_def smap_find_def
      intro: rev_image_eqI dest!: map_of_SomeD split: option.splits)

lemma set_identifiers_remove: "set (identifiers (group_remove i g)) = set (identifiers g) - {i}"
  by (auto simp: identifiers_def group_remove_def smap_erase_def)

lemma group_empty_identifiers: "group_empty g \<longleftrightarrow> set (identifiers g) = {}"
  by (simp add: group_empty_def identifiers_def)

lemma group_add_smap_inv [simp]: "smap_inv (group_identifiers g) \<Longrightarrow> smap_inv (group_identifiers (group_add i g))"
  by (simp add: group_add_def)

lemma group_remove_smap_inv [simp]: "smap_inv (group_identifiers g) \<Longrightarrow> smap_inv (group_identifiers (group_remove i g))"
  by (simp add: group_remove_def)

lemma group_new_facts [simp]: "smap_inv (group_identifiers (group_new key))" "identifiers (group_new key) = []"
  by (simp_all add: group_new_def identifiers_def smap_empty_def)

lemma AddIdentifierWithGroup_ok:
  assumes "grouped_set_inv gs"
  shows "grouped_set_inv (AddIdentifierWithGroup key i gs)
    \<and> group_members (AddIdentifierWithGroup key i gs) = (group_members gs)(key := insert i (group_members gs key))"
proof -
  have inv: "bsd_inv MutableTypeTag gs" using assms by (rule grouped_set_invD)
  have eq: "AddIdentifierWithGroup key i gs = bsd.modify (group_add i) key
      (if bsd_contains gs key then gs else snd (bsd_insert MutableTypeTag key (group_new key) gs))"
    by (simp add: AddIdentifierWithGroup_def bsd.modify_def Let_def)
  have view: "bsd_view (AddIdentifierWithGroup key i gs)
      = (bsd_view gs)(key \<mapsto> group_add i (case bsd_view gs key of None \<Rightarrow> group_new key | Some g \<Rightarrow> g))"
    unfolding eq using bsd.upsert_view [OF inv] .
  have g: "smap_inv (group_identifiers (group_add i (case bsd_view gs key of None \<Rightarrow> group_new key | Some g \<Rightarrow> g)))"
    using assms by (auto simp: grouped_set_inv_def split: option.splits)
  have ne: "\<not> group_empty (group_add i g)" for g by (simp add: group_empty_identifiers set_identifiers_add)
  have "bsd_inv MutableTypeTag (AddIdentifierWithGroup key i gs)"
    unfolding eq using bsd.upsert_inv [OF inv] .
  with assms g ne have "grouped_set_inv (AddIdentifierWithGroup key i gs)"
    by (auto simp: grouped_set_inv_def view split: if_splits)
  moreover have "group_members (AddIdentifierWithGroup key i gs) = (group_members gs)(key := insert i (group_members gs key))"
    by (auto simp: group_members_def view set_identifiers_add fun_eq_iff split: option.splits)
  ultimately show ?thesis ..
qed

lemma RemoveIdentifierWithGroup_ok:
  assumes "grouped_set_inv gs"
  shows "grouped_set_inv (RemoveIdentifierWithGroup key i gs)
    \<and> group_members (RemoveIdentifierWithGroup key i gs) = (group_members gs)(key := group_members gs key - {i})"
proof -
  have inv: "bsd_inv MutableTypeTag gs" using assms by (rule grouped_set_invD)
  let ?m = "bsd.modify (group_remove i) key gs"
  have m: "bsd_inv MutableTypeTag ?m" "bsd_view ?m = (bsd_view gs)(key := map_option (group_remove i) (bsd_view gs key))"
    using inv by (simp_all add: bsd.modify_inv bsd.modify_view)
  show ?thesis
  proof (cases "bsd_view gs key")
    case None
    then have "RemoveIdentifierWithGroup key i gs = ?m"
      using bsd.find_cases [OF inv, of key]
      by (cases "bsd_find MutableTypeTag gs key") (simp add: RemoveIdentifierWithGroup_def bsd.modify_def)
    with None m assms show ?thesis
      by (auto simp: grouped_set_inv_def group_members_def fun_eq_iff)
  next
    case (Some g)
    let ?e = "group_empty (group_remove i g)"
    have eq: "RemoveIdentifierWithGroup key i gs = (if ?e then snd (bsd_remove MutableTypeTag key ?m) else ?m)"
      using bsd.find_cases [OF inv, of key] Some
      by (cases "bsd_find MutableTypeTag gs key") (simp add: RemoveIdentifierWithGroup_def bsd.modify_def Let_def)
    have view: "bsd_view (RemoveIdentifierWithGroup key i gs)
        = (bsd_view gs)(key := (if ?e then None else Some (group_remove i g)))"
      using m Some by (simp add: eq bsd.rem_view)
    have "bsd_inv MutableTypeTag (RemoveIdentifierWithGroup key i gs)"
      using m(1) by (simp add: eq bsd.rem_inv)
    with assms Some have "grouped_set_inv (RemoveIdentifierWithGroup key i gs)"
      by (auto simp: grouped_set_inv_def view split: if_splits)
    moreover have "set (identifiers g) - {i} = (if ?e then {} else set (identifiers (group_remove i g)))"
      by (simp add: group_empty_identifiers set_identifiers_remove)
    ultimately show ?thesis using Some by (auto simp: group_members_def view fun_eq_iff)
  qed
qed

text \<open>The loop over a group: what it does to the values and to the state of the caller.\<close>

lemma ForEachIdentifierWithGroup_loop:
  assumes "bsd_inv MutableTypeTag st" "distinct ids" "\<And>v s. fst (action v s) = f v"
  shows "\<exists>st'. fold (\<lambda>identifier (st, s).
            case bsd_find MutableTypeTag st identifier of
              (None, st) \<Rightarrow> (st, s)
            | (Some v, st) \<Rightarrow> let (v', s') = action v s in (bsd_store identifier v' st, s')) ids (st, s)
       = (st', fold (\<lambda>i s. case bsd_view st i of None \<Rightarrow> s | Some v \<Rightarrow> snd (action v s)) ids s)
    \<and> bsd_inv MutableTypeTag st'
    \<and> bsd_view st' = (\<lambda>k. if k \<in> set ids then map_option f (bsd_view st k) else bsd_view st k)"
  using assms(1,2)
proof (induction ids arbitrary: st s)
  case (Cons i ids)
  let ?st = "bsd.modify f i st"
  let ?s = "case bsd_view st i of None \<Rightarrow> s | Some v \<Rightarrow> snd (action v s)"
  have step: "(case bsd_find MutableTypeTag st i of
              (None, st) \<Rightarrow> (st, s)
            | (Some v, st) \<Rightarrow> let (v', s') = action v s in (bsd_store i v' st, s')) = (?st, ?s)"
    using bsd.find_cases [OF Cons.prems(1), of i] assms(3)
    by (cases "bsd_find MutableTypeTag st i"; cases "bsd_view st i")
       (simp_all add: bsd.modify_def Let_def case_prod_beta)
  have view: "bsd_view ?st = (bsd_view st)(i := map_option f (bsd_view st i))"
    using Cons.prems(1) by (rule bsd.modify_view)
  have same: "fold (\<lambda>i s. case bsd_view ?st i of None \<Rightarrow> s | Some v \<Rightarrow> snd (action v s)) ids s'
      = fold (\<lambda>i s. case bsd_view st i of None \<Rightarrow> s | Some v \<Rightarrow> snd (action v s)) ids s'" for s'
    using Cons.prems(2) by (intro fold_cong refl) (auto simp: view)
  obtain st' where st': "fold (\<lambda>identifier (st, s).
            case bsd_find MutableTypeTag st identifier of
              (None, st) \<Rightarrow> (st, s)
            | (Some v, st) \<Rightarrow> let (v', s') = action v s in (bsd_store identifier v' st, s')) ids (?st, ?s)
       = (st', fold (\<lambda>i s. case bsd_view st i of None \<Rightarrow> s | Some v \<Rightarrow> snd (action v s)) ids ?s)"
      "bsd_inv MutableTypeTag st'"
      "bsd_view st' = (\<lambda>k. if k \<in> set ids then map_option f (bsd_view ?st k) else bsd_view ?st k)"
    using Cons.IH [OF bsd.modify_inv [OF Cons.prems(1)], of f i ?s] Cons.prems(2) unfolding same by auto
  have "bsd_view st' = (\<lambda>k. if k \<in> set (i # ids) then map_option f (bsd_view st k) else bsd_view st k)"
    using Cons.prems(2) by (auto simp: st'(3) view fun_eq_iff)
  with st'(1,2) show ?case by (simp add: step)
qed simp

lemma ForEachIdentifierWithGroup_ok:
  assumes "bsd_inv MutableTypeTag st" "grouped_set_inv gs" "\<And>v s. fst (action v s) = f v"
  shows "\<exists>st'. ForEachIdentifierWithGroup st gs key action s
       = (st', fold (\<lambda>i s. case bsd_view st i of None \<Rightarrow> s | Some v \<Rightarrow> snd (action v s)) (group_ids gs key) s)
    \<and> bsd_inv MutableTypeTag st'
    \<and> bsd_view st' = (\<lambda>k. if k \<in> group_members gs key then map_option f (bsd_view st k) else bsd_view st k)"
proof (cases "bsd_view gs key")
  case None
  with assms show ?thesis
    by (simp add: ForEachIdentifierWithGroup_def bsd_find_const_view [OF grouped_set_invD] group_ids_def group_members_def)
next
  case (Some g)
  with ForEachIdentifierWithGroup_loop [OF assms(1) group_ids_distinct [OF assms(2), of key] assms(3)] assms(2)
  show ?thesis
    by (simp add: ForEachIdentifierWithGroup_def bsd_find_const_view [OF grouped_set_invD] group_ids_def group_members_def)
qed

subsection \<open>The operations on the view\<close>

lemma lic_invD:
  assumes "lic_inv gid c"
  shows "bsd_inv MutableTypeTag (lic_pDelta c)" "grouped_set_inv (lic_pHeightGroupingDelta c)"
  using assms by (simp_all add: lic_inv_def)

lemma lic_inv_historyD:
  assumes "lic_inv gid c" "bsd_view (lic_pDelta c) k = Some h"
  shows "lh_id h = k" "lockInfos h \<noteq> []" "l \<in> set (lockInfos h) \<Longrightarrow> gid l = k"
  using assms by (auto simp: lic_inv_def lh_empty_def)

lemma lic_locks_empty: "lic_inv gid c \<Longrightarrow> lic_locks c k = [] \<longleftrightarrow> bsd_view (lic_pDelta c) k = None"
  by (auto simp: lic_locks_def dest: lic_inv_historyD split: option.splits)

lemma lic_contains_locks: "lic_inv gid c \<Longrightarrow> lic_contains c k \<longleftrightarrow> lic_locks c k \<noteq> []"
  by (simp add: lic_contains_def lic_locks_empty bsd.has_view lic_invD)

abbreviation lic_members :: "'l LockInfoCacheDelta \<Rightarrow> Height \<Rightarrow> Hash256 set" where
  "lic_members c \<equiv> group_members (lic_pHeightGroupingDelta c)"

text \<open>A cache whose histories are those of another one except at one identifier.\<close>

lemma lic_inv_updateI:
  assumes "lic_inv gid c" "bsd_inv MutableTypeTag d" "grouped_set_inv gs"
    "bsd_view d = (bsd_view (lic_pDelta c))(k := (if ls = [] then None else Some \<lparr>lh_id = k, lockInfos = ls\<rparr>))"
    "\<And>l. l \<in> set ls \<Longrightarrow> gid l = k"
  shows "lic_inv gid (c\<lparr>lic_pDelta := d, lic_pHeightGroupingDelta := gs\<rparr>)
    \<and> lic_locks (c\<lparr>lic_pDelta := d, lic_pHeightGroupingDelta := gs\<rparr>) = (lic_locks c)(k := ls)"
proof
  show "lic_inv gid (c\<lparr>lic_pDelta := d, lic_pHeightGroupingDelta := gs\<rparr>)"
    using assms by (auto simp: lic_inv_def lh_empty_def split: if_splits)
  show "lic_locks (c\<lparr>lic_pDelta := d, lic_pHeightGroupingDelta := gs\<rparr>) = (lic_locks c)(k := ls)"
    using assms(4) by (simp add: lic_locks_def fun_eq_iff)
qed

lemma lic_insert_ok:
  assumes "lic_inv gid c"
  shows "\<exists>c'. lic_insert gid l c = Inr c' \<and> lic_inv gid c'
    \<and> lic_locks c' = (lic_locks c)(gid l := lic_locks c (gid l) @ [l])
    \<and> lic_members c' = (lic_members c)(EndHeight l := insert (gid l) (lic_members c (EndHeight l)))"
proof -
  let ?k = "gid l" and ?d = "lic_pDelta c"
  let ?gs = "AddIdentifierWithGroup (EndHeight l) (gid l) (lic_pHeightGroupingDelta c)"
  let ?ls = "lic_locks c ?k @ [l]"
  note inv = lic_invD [OF assms]
  note gs = AddIdentifierWithGroup_ok [OF inv(2), of "EndHeight l" "gid l"]
  obtain d1 where f: "bsd_find MutableTypeTag ?d ?k = (bsd_view ?d ?k, d1)"
    using bsd.find_cases [OF inv(1)] by metis
  have d1: "bsd_inv MutableTypeTag d1" "bsd_view d1 = bsd_view ?d"
    using bsd.find_inv [OF inv(1), of ?k] bsd.find_keeps [OF inv(1), of ?k] f by simp_all
  have gid: "gid l' = ?k" if "l' \<in> set ?ls" for l'
    using that lic_inv_historyD(3) [OF assms]
    by (cases "bsd_view ?d ?k") (auto simp: lic_locks_def)
  have "\<exists>d. lic_insert gid l c = Inr (c\<lparr>lic_pDelta := d, lic_pHeightGroupingDelta := ?gs\<rparr>) \<and> bsd_inv MutableTypeTag d
      \<and> bsd_view d = (bsd_view ?d)(?k := Some \<lparr>lh_id = ?k, lockInfos = ?ls\<rparr>)"
  proof (cases "bsd_view ?d ?k")
    case None
    then show ?thesis
      using f d1
      by (intro exI [of _ "snd (bsd_insert MutableTypeTag ?k \<lparr>lh_id = ?k, lockInfos = ?ls\<rparr> d1)"])
         (simp add: lic_insert_def lh_push_back_def lh_new_def bsd.ins_view bsd.ins_inv lic_locks_def Let_def)
  next
    case (Some h)
    then have h: "h\<lparr>lockInfos := lockInfos h @ [l]\<rparr> = \<lparr>lh_id = ?k, lockInfos = ?ls\<rparr>" "lh_id h = ?k"
      using lic_inv_historyD(1) [OF assms Some] by (simp_all add: lic_locks_def)
    show ?thesis
      using f Some h bsd.store_view [OF inv(1), of ?k] bsd.store_inv [OF inv(1), of ?k]
      by (intro exI [of _ "bsd_store ?k \<lparr>lh_id = ?k, lockInfos = ?ls\<rparr> d1"]) (simp add: lic_insert_def lh_push_back_def Let_def)
  qed
  then obtain d where d: "lic_insert gid l c = Inr (c\<lparr>lic_pDelta := d, lic_pHeightGroupingDelta := ?gs\<rparr>)"
      "bsd_inv MutableTypeTag d" "bsd_view d = (bsd_view ?d)(?k := Some \<lparr>lh_id = ?k, lockInfos = ?ls\<rparr>)" by blast
  have "lic_inv gid (c\<lparr>lic_pDelta := d, lic_pHeightGroupingDelta := ?gs\<rparr>)
      \<and> lic_locks (c\<lparr>lic_pDelta := d, lic_pHeightGroupingDelta := ?gs\<rparr>) = (lic_locks c)(?k := ?ls)"
    using d(3) by (intro lic_inv_updateI [OF assms d(2) conjunct1 [OF gs] _ gid]) simp_all
  with d(1) gs show ?thesis by simp
qed

lemma lic_remove_throws: "lic_inv gid c \<Longrightarrow> lic_locks c k = [] \<Longrightarrow> lic_remove k c = Inl Invalid_Argument"
  using bsd.find_cases [OF lic_invD(1), of gid c k]
  by (cases "bsd_find MutableTypeTag (lic_pDelta c) k") (simp add: lic_remove_def lic_locks_empty)

lemma lic_remove_ok:
  assumes "lic_inv gid c" "lic_locks c k \<noteq> []"
  shows "\<exists>c'. lic_remove k c = Inr c' \<and> lic_inv gid c' \<and> lic_locks c' = (lic_locks c)(k := butlast (lic_locks c k))
    \<and> lic_members c' = (let e = EndHeight (last (lic_locks c k)) in (lic_members c)(e := lic_members c e - {k}))"
proof -
  let ?d = "lic_pDelta c"
  note inv = lic_invD [OF assms(1)]
  obtain h where h: "bsd_view ?d k = Some h" using assms lic_locks_empty by blast
  have ls: "lic_locks c k = lockInfos h" using h by (simp add: lic_locks_def)
  let ?gs = "RemoveIdentifierWithGroup (EndHeight (lh_back h)) k (lic_pHeightGroupingDelta c)"
  note gs = RemoveIdentifierWithGroup_ok [OF inv(2), of "EndHeight (lh_back h)" k]
  let ?h = "\<lparr>lh_id = k, lockInfos = butlast (lockInfos h)\<rparr>"
  have h': "h\<lparr>lockInfos := butlast (lockInfos h)\<rparr> = ?h" using lic_inv_historyD(1) [OF assms(1) h] by simp
  let ?d1 = "bsd_store k ?h (snd (bsd_find MutableTypeTag ?d k))"
  let ?d2 = "if butlast (lockInfos h) = [] then snd (bsd_remove MutableTypeTag k ?d1) else ?d1"
  have d1: "bsd_inv MutableTypeTag ?d1" "bsd_view ?d1 = (bsd_view ?d)(k \<mapsto> ?h)"
    using bsd.store_view [OF inv(1), of k] bsd.store_inv [OF inv(1), of k] h by simp_all
  have d2: "bsd_inv MutableTypeTag ?d2"
      "bsd_view ?d2 = (bsd_view ?d)(k := (if butlast (lockInfos h) = [] then None else Some ?h))"
    using d1 by (auto simp: bsd.rem_inv bsd.rem_view)
  have gid: "gid l = k" if "l \<in> set (butlast (lockInfos h))" for l
    using that lic_inv_historyD(3) [OF assms(1) h] by (blast dest: in_set_butlastD)
  have "lic_remove k c = Inr (c\<lparr>lic_pDelta := ?d2, lic_pHeightGroupingDelta := ?gs\<rparr>)"
    using bsd.find_cases [OF inv(1), of k] h h' lic_inv_historyD(2) [OF assms(1) h]
    by (cases "bsd_find MutableTypeTag ?d k") (simp add: lic_remove_def lh_pop_back_def lh_empty_def Let_def)
  with lic_inv_updateI [OF assms(1) d2(1) conjunct1 [OF gs] d2(2) gid] gs show ?thesis
    by (simp add: ls lh_back_def Let_def)
qed

text \<open>The expired locks of a height: the most recent lock of every identifier of its group, if unused.\<close>

lemma fold_append_filter:
  "fold (\<lambda>i acc. if P i then acc @ [g i] else acc) is acc = acc @ map g (filter P is)"
  by (induction "is" arbitrary: acc) auto

lemma lic_process_ok:
  assumes "lic_inv gid c"
  shows "\<exists>c'. lic_processUnusedExpiredLocks height c
      = (map (\<lambda>k. last (lic_locks c k))
           (filter (\<lambda>k. lic_locks c k \<noteq> [] \<and> Status (last (lic_locks c k)) = Unused)
              (group_ids (lic_pHeightGroupingDelta c) height)), c')
    \<and> lic_inv gid c' \<and> lic_locks c' = lic_locks c \<and> lic_members c' = lic_members c"
proof -
  let ?d = "lic_pDelta c" and ?gs = "lic_pHeightGroupingDelta c"
  let ?action = "\<lambda>history consumed. (history :: 'a LockInfo_scheme LockInfoHistory,
      if Unused = Status (lh_back history) then consumed @ [lh_back history] else consumed)"
  note inv = lic_invD [OF assms]
  obtain d' where d': "ForEachIdentifierWithGroup ?d ?gs height ?action []
       = (d', fold (\<lambda>i s. case bsd_view ?d i of None \<Rightarrow> s | Some v \<Rightarrow> snd (?action v s)) (group_ids ?gs height) [])"
      "bsd_inv MutableTypeTag d'"
      "bsd_view d' = (\<lambda>k. if k \<in> group_members ?gs height then map_option (\<lambda>h. h) (bsd_view ?d k) else bsd_view ?d k)"
    using ForEachIdentifierWithGroup_ok [OF inv, of ?action "\<lambda>h. h" height "[]"] by auto
  have view: "bsd_view d' = bsd_view ?d" by (auto simp: d'(3) fun_eq_iff option.map_ident)
  let ?P = "\<lambda>k. lic_locks c k \<noteq> [] \<and> Status (last (lic_locks c k)) = Unused"
  have body: "(case bsd_view ?d i of None \<Rightarrow> s | Some v \<Rightarrow> snd (?action v s))
      = (if ?P i then s @ [last (lic_locks c i)] else s)" for i s
    using lic_inv_historyD(2) [OF assms, of i]
    by (auto simp: lic_locks_def lh_back_def split: option.splits)
  have "lic_processUnusedExpiredLocks height c
      = (map (\<lambda>k. last (lic_locks c k)) (filter ?P (group_ids ?gs height)), c\<lparr>lic_pDelta := d'\<rparr>)"
    using d'(1) unfolding body fold_append_filter
    by (simp add: lic_processUnusedExpiredLocks_def)
  moreover have "lic_inv gid (c\<lparr>lic_pDelta := d'\<rparr>)" using assms d'(2) view by (simp add: lic_inv_def)
  moreover have "lic_locks (c\<lparr>lic_pDelta := d'\<rparr>) = lic_locks c" by (simp add: lic_locks_def view fun_eq_iff)
  ultimately show ?thesis by simp
qed

lemma lic_prune_ok:
  assumes "lic_inv gid c"
  shows "lic_inv gid (lic_prune height c)
    \<and> lic_locks (lic_prune height c)
       = (\<lambda>k. if k \<in> lic_members c height then dropWhile (\<lambda>l. EndHeight l \<le> height) (lic_locks c k) else lic_locks c k)
    \<and> lic_members (lic_prune height c) = (lic_members c)(height := {})"
proof -
  let ?d = "lic_pDelta c" and ?gs = "lic_pHeightGroupingDelta c"
  let ?action = "\<lambda>history ids. let history = lh_prune height (history :: 'a LockInfo_scheme LockInfoHistory)
      in (history, if lh_empty history then ids @ [lh_id history] else ids)"
  note inv = lic_invD [OF assms]
  obtain d' where d': "ForEachIdentifierWithGroup ?d ?gs height ?action []
       = (d', fold (\<lambda>i s. case bsd_view ?d i of None \<Rightarrow> s | Some v \<Rightarrow> snd (?action v s)) (group_ids ?gs height) [])"
      "bsd_inv MutableTypeTag d'"
      "bsd_view d' = (\<lambda>k. if k \<in> group_members ?gs height then map_option (lh_prune height) (bsd_view ?d k) else bsd_view ?d k)"
    using ForEachIdentifierWithGroup_ok [OF inv, of ?action "lh_prune height" height "[]"] by (auto simp: Let_def)
  let ?ls = "\<lambda>k. dropWhile (\<lambda>l. EndHeight l \<le> height) (lic_locks c k)"
  let ?P = "\<lambda>k. lic_locks c k \<noteq> [] \<and> ?ls k = []"
  have body: "(case bsd_view ?d i of None \<Rightarrow> s | Some v \<Rightarrow> snd (?action v s)) = (if ?P i then s @ [i] else s)" for i s
    using lic_inv_historyD(1,2) [OF assms, of i]
    by (auto simp: lic_locks_def lh_prune_def lh_empty_def Let_def split: option.splits)
  define d2 where "d2 = fold (\<lambda>identifier st. snd (bsd_remove MutableTypeTag identifier st))
      (filter ?P (group_ids ?gs height)) d'"
  let ?gs2 = "snd (bsd_remove MutableTypeTag height ?gs)"
  have eq: "lic_prune height c = c\<lparr>lic_pDelta := d2, lic_pHeightGroupingDelta := ?gs2\<rparr>"
    using d'(1) unfolding body fold_append_filter by (simp add: lic_prune_def d2_def)
  have d2: "bsd_inv MutableTypeTag d2" using d'(2) unfolding d2_def by (rule bsd.fold_rem_inv)
  have view: "bsd_view d2 k = (if k \<in> group_members ?gs height
      then (if ?ls k = [] then None else Some \<lparr>lh_id = k, lockInfos = ?ls k\<rparr>) else bsd_view ?d k)" for k
  proof (cases "bsd_view ?d k")
    case None
    then show ?thesis by (simp add: d2_def bsd.fold_rem_view [OF d'(2)] d'(3) lic_locks_def)
  next
    case (Some h)
    then have "lic_locks c k = lockInfos h" "lh_prune height h = \<lparr>lh_id = k, lockInfos = ?ls k\<rparr>" "lockInfos h \<noteq> []"
      using lic_inv_historyD(1,2) [OF assms Some] by (simp_all add: lic_locks_def lh_prune_def)
    with Some show ?thesis
      by (simp add: d2_def bsd.fold_rem_view [OF d'(2)] d'(3) group_members_ids)
  qed
  have gs: "grouped_set_inv ?gs2" "group_members ?gs2 = (group_members ?gs)(height := {})"
    using inv(2) by (auto simp: grouped_set_inv_def group_members_def bsd.rem_inv bsd.rem_view fun_eq_iff split: if_splits)
  have "lh_id h = k \<and> \<not> lh_empty h \<and> (\<forall>l \<in> set (lockInfos h). gid l = k)" if "bsd_view d2 k = Some h" for k h
  proof (cases "k \<in> group_members ?gs height")
    case True
    then have h: "h = \<lparr>lh_id = k, lockInfos = ?ls k\<rparr>" "?ls k \<noteq> []" using that view [of k] by (auto split: if_splits)
    have "gid l = k" if "l \<in> set (?ls k)" for l
      using set_dropWhileD [OF that] lic_inv_historyD(3) [OF assms]
      by (cases "bsd_view ?d k") (auto simp: lic_locks_def)
    with h show ?thesis by (simp add: lh_empty_def)
  next
    case False
    with that view [of k] assms show ?thesis by (auto simp: lic_inv_def)
  qed
  then have "lic_inv gid (lic_prune height c)" using d2 gs(1) by (simp add: eq lic_inv_def)
  moreover have "lic_locks (lic_prune height c) k = (if k \<in> lic_members c height then ?ls k else lic_locks c k)" for k
  proof -
    have "lic_locks (lic_prune height c) k = (case bsd_view d2 k of None \<Rightarrow> [] | Some h \<Rightarrow> lockInfos h)"
      by (simp add: eq lic_locks_def)
    also have "\<dots> = (if k \<in> lic_members c height then ?ls k else lic_locks c k)"
      using lic_locks_def [of c k]
      by (cases "k \<in> lic_members c height"; cases "?ls k = []") (simp_all del: dropWhile_eq_Nil_conv add: view)
    finally show ?thesis .
  qed
  ultimately show ?thesis using gs(2) by (auto simp: eq)
qed

subsection \<open>The contract of the cache\<close>

text \<open>
  What the observers and the storage rely on: the locks of every identifier, oldest first, and the
  identifiers that are grouped at every height, after each operation.
\<close>

locale lock_cache =
  fixes inv :: "'c \<Rightarrow> bool"
    and locks :: "'c \<Rightarrow> Hash256 \<Rightarrow> 'l list"
    and members :: "'c \<Rightarrow> Height \<Rightarrow> Hash256 set"
    and gid :: "'l \<Rightarrow> Hash256"
    and end_height :: "'l \<Rightarrow> Height"
    and ins :: "'l \<Rightarrow> 'c \<Rightarrow> exn + 'c"
    and rem :: "Hash256 \<Rightarrow> 'c \<Rightarrow> exn + 'c"
  assumes ins_ok: "inv c \<Longrightarrow> \<exists>c'. ins l c = Inr c' \<and> inv c' \<and> locks c' = (locks c)(gid l := locks c (gid l) @ [l])
      \<and> members c' = (members c)(end_height l := insert (gid l) (members c (end_height l)))"
    and rem_ok: "inv c \<Longrightarrow> locks c k \<noteq> [] \<Longrightarrow>
      \<exists>c'. rem k c = Inr c' \<and> inv c' \<and> locks c' = (locks c)(k := butlast (locks c k))
        \<and> members c' = (let e = end_height (last (locks c k)) in (members c)(e := members c e - {k}))"
    and rem_throws: "inv c \<Longrightarrow> locks c k = [] \<Longrightarrow> rem k c = Inl Invalid_Argument"
begin

lemma insert_remove:
  assumes "inv c"
  shows "\<exists>c1 c2. ins l c = Inr c1 \<and> inv c1 \<and> rem (gid l) c1 = Inr c2 \<and> inv c2 \<and> locks c2 = locks c
    \<and> members c2 = (members c)(end_height l := members c (end_height l) - {gid l})"
proof -
  obtain c1 where c1: "ins l c = Inr c1" "inv c1" "locks c1 = (locks c)(gid l := locks c (gid l) @ [l])"
      "members c1 = (members c)(end_height l := insert (gid l) (members c (end_height l)))"
    using ins_ok [OF assms] by blast
  have "locks c1 (gid l) \<noteq> []" by (simp add: c1(3))
  from rem_ok [OF c1(2) this] obtain c2 where "rem (gid l) c1 = Inr c2" "inv c2"
      "locks c2 = (locks c1)(gid l := butlast (locks c1 (gid l)))"
      "members c2 = (let e = end_height (last (locks c1 (gid l))) in (members c1)(e := members c1 e - {gid l}))"
    by blast
  with c1 show ?thesis by (simp add: Let_def)
qed

lemma load_loop:
  assumes "inv c" "\<forall>l \<in> set ls. gid l = k"
  shows "\<exists>c'. rfold ins ls c = Inr c' \<and> inv c' \<and> locks c' = (locks c)(k := locks c k @ ls)
    \<and> (\<forall>h. members c' h = members c h \<union> {k | l. l \<in> set ls \<and> end_height l = h})"
  using assms
proof (induction ls arbitrary: c)
  case (Cons l ls)
  then obtain c1 where c1: "ins l c = Inr c1" "inv c1" "locks c1 = (locks c)(k := locks c k @ [l])"
      "members c1 = (members c)(end_height l := insert k (members c (end_height l)))"
    using ins_ok [OF Cons.prems(1), of l] by auto
  have "\<forall>l \<in> set ls. gid l = k" using Cons.prems(2) by simp
  from Cons.IH [OF c1(2) this] obtain c' where c': "rfold ins ls c1 = Inr c'" "inv c'"
      "locks c' = (locks c1)(k := locks c1 k @ ls)"
      "\<And>h. members c' h = members c1 h \<union> {k | l. l \<in> set ls \<and> end_height l = h}" by blast
  moreover have "members c1 h \<union> {k | l. l \<in> set ls \<and> end_height l = h}
      = members c h \<union> {k | l'. l' \<in> set (l # ls) \<and> end_height l' = h}" for h
    by (auto simp: c1(4))
  ultimately show ?case using c1(1,3) by (auto simp: fun_eq_iff)
qed simp

end

interpretation lic: lock_cache "lic_inv gid" lic_locks lic_members gid EndHeight "lic_insert gid" lic_remove
  for gid :: "'a LockInfo_scheme \<Rightarrow> Hash256"
  using lic_insert_ok lic_remove_ok lic_remove_throws by unfold_locales

text \<open>\<open>Purge\<close> always ends: each removal shortens the history.\<close>

lemma lic_Purge_ok:
  assumes "lic_inv gid c"
  shows "\<exists>c'. lic_Purge k c = Some (Inr c') \<and> lic_inv gid c' \<and> lic_locks c' = (lic_locks c)(k := [])
    \<and> lic_members c' = (\<lambda>h. lic_members c h - {k | l. l \<in> set (lic_locks c k) \<and> EndHeight l = h})"
  using assms
proof (induction "length (lic_locks c k)" arbitrary: c)
  case 0
  then show ?case by (simp add: lic_Purge.simps lic_contains_locks fun_eq_iff)
next
  case (Suc n)
  then have ne: "lic_locks c k \<noteq> []" by auto
  obtain c1 where c1: "lic_remove k c = Inr c1" "lic_inv gid c1" "lic_locks c1 = (lic_locks c)(k := butlast (lic_locks c k))"
      "lic_members c1 = (let e = EndHeight (last (lic_locks c k)) in (lic_members c)(e := lic_members c e - {k}))"
    using lic.rem_ok [OF Suc.prems ne] by blast
  have "n = length (lic_locks c1 k)" using Suc.hyps(2) by (simp add: c1(3))
  from Suc.hyps(1) [OF this c1(2)] obtain c' where c': "lic_Purge k c1 = Some (Inr c')" "lic_inv gid c'"
      "lic_locks c' = (lic_locks c1)(k := [])"
      "lic_members c' = (\<lambda>h. lic_members c1 h - {k | l. l \<in> set (lic_locks c1 k) \<and> EndHeight l = h})" by blast
  have "lic_locks c k = butlast (lic_locks c k) @ [last (lic_locks c k)]" using ne by simp
  then have "set (lic_locks c k) = insert (last (lic_locks c k)) (set (butlast (lic_locks c k)))"
    by (metis rotate1.simps(2) set_rotate1 list.simps(15) append_Cons append_Nil set_append Un_commute)
  then have "lic_members c' = (\<lambda>h. lic_members c h - {k | l. l \<in> set (lic_locks c k) \<and> EndHeight l = h})"
    by (auto simp: c'(4) c1(3,4) Let_def fun_eq_iff)
  moreover have "lic_Purge k c = lic_Purge k c1"
    using c1(1) lic_contains_locks [OF Suc.prems] ne by (simp add: lic_Purge.simps [of k c])
  ultimately show ?case using c' c1(3) by simp
qed


subsection \<open>Touching a height\<close>

text \<open>A look up of the locks that end at a height, as operations on the set of histories: it marks them and changes nothing.\<close>

definition touch_ops :: "('i::linorder, 'v) BaseSetDelta \<Rightarrow> ('i, 'g) grouped_set \<Rightarrow> 'g \<Rightarrow> ('i, 'v) delta_op list" where
  "touch_ops st gs key = map (\<lambda>i. case bsd_view st i of None \<Rightarrow> Op_Find i | Some v \<Rightarrow> Op_Assign i v) (group_ids gs key)"

lemma touch_loop:
  assumes "bsd_inv MutableTypeTag st" "bsd_view st = view"
  shows "fold (\<lambda>identifier (st, s).
            case bsd_find MutableTypeTag st identifier of
              (None, st) \<Rightarrow> (st, s)
            | (Some v, st) \<Rightarrow> let (v', s') = (v, s) in (bsd_store identifier v' st, s')) ids (st, s)
      = (fold run_op (map (\<lambda>i. case view i of None \<Rightarrow> Op_Find i | Some v \<Rightarrow> Op_Assign i v) ids) st, s)
    \<and> fold spec_op (map (\<lambda>i. case view i of None \<Rightarrow> Op_Find i | Some v \<Rightarrow> Op_Assign i v) ids) view = view
    \<and> touched_by (map (\<lambda>i. case view i of None \<Rightarrow> Op_Find i | Some v \<Rightarrow> Op_Assign i v) ids) view = set ids \<inter> dom view"
  using assms
proof (induction ids arbitrary: st)
  case (Cons i ids)
  let ?op = "case view i of None \<Rightarrow> Op_Find i | Some v \<Rightarrow> Op_Assign i v"
  have same: "spec_op ?op view = view" by (auto simp: fun_eq_iff split: option.splits)
  have step: "(case bsd_find MutableTypeTag st i of
              (None, st) \<Rightarrow> (st, s)
            | (Some v, st) \<Rightarrow> let (v', s') = (v, s) in (bsd_store i v' st, s')) = (run_op ?op st, s)"
    using bsd.find_cases [OF Cons.prems(1), of i] Cons.prems(2)
    by (cases "bsd_find MutableTypeTag st i"; cases "view i") simp_all
  have "bsd_view (run_op ?op st) = view" using run_op_view [OF Cons.prems(1), of ?op] Cons.prems(2) same by simp
  from Cons.IH [OF run_op_inv [OF Cons.prems(1)] this] show ?case
    using same by (auto simp: step split: option.splits)
qed simp

lemma mixin_touch_ops:
  assumes "bsd_inv MutableTypeTag st" "grouped_set_inv gs"
  shows "snd (mixin_touch isActive height st gs) = fold run_op (touch_ops st gs height) st"
    "fold spec_op (touch_ops st gs height) (bsd_view st) = bsd_view st"
    "touched_by (touch_ops st gs height) (bsd_view st) = {k \<in> group_members gs height. bsd_view st k \<noteq> None}"
proof -
  note loop = touch_loop [OF assms(1) refl, of "group_ids gs height" "()"]
  have "ForEachIdentifierWithGroup st gs height (\<lambda>v s. (v, s)) () = (fold run_op (touch_ops st gs height) st, ())"
    using loop bsd_find_const_view [OF grouped_set_invD [OF assms(2)], of height]
    by (cases "bsd_view gs height") (simp_all add: ForEachIdentifierWithGroup_def touch_ops_def group_ids_def)
  then show "snd (mixin_touch isActive height st gs) = fold run_op (touch_ops st gs height) st"
    by (simp add: mixin_touch_def)
  show "fold spec_op (touch_ops st gs height) (bsd_view st) = bsd_view st"
    "touched_by (touch_ops st gs height) (bsd_view st) = {k \<in> group_members gs height. bsd_view st k \<noteq> None}"
    using loop by (auto simp: touch_ops_def group_members_ids)
qed

subsection \<open>Properties\<close>

definition lic_new :: "'l LockInfoCacheDelta" where
  "lic_new = \<lparr>lic_pDelta = bsd_new smap_empty, lic_pHeightGroupingDelta = bsd_new smap_empty\<rparr>"

lemma lic_new_inv [simp, intro]: "lic_inv gid lic_new"
  by (simp add: lic_new_def lic_inv_def grouped_set_inv_def)

lemma lic_new_view [simp]: "lic_locks lic_new = (\<lambda>_. [])" "lic_members lic_new = (\<lambda>_. {})"
  by (simp_all add: lic_new_def lic_locks_def group_members_def fun_eq_iff)

text \<open>
  C31. Undoing a lock. Inserting a lock and removing its identifier ends normally and gives back the histories of all
  identifiers, whatever the cache holds. The identifier is afterwards not grouped at the end height of the lock and
  all other groups are as before; so the height groups are given back exactly when the identifier was not grouped
  at that height before.
\<close>

theorem lock_remove_undoes_insert:
  assumes "lic_inv gid c"
  shows "\<exists>c1 c2. lic_insert gid l c = Inr c1 \<and> lic_locks c1 = (lic_locks c)(gid l := lic_locks c (gid l) @ [l])
    \<and> lic_remove (gid l) c1 = Inr c2 \<and> lic_locks c2 = lic_locks c
    \<and> lic_members c2 = (lic_members c)(EndHeight l := lic_members c (EndHeight l) - {gid l})
    \<and> (lic_members c2 = lic_members c \<longleftrightarrow> gid l \<notin> lic_members c (EndHeight l))"
proof -
  obtain c1 c2 where c: "lic_insert gid l c = Inr c1" "lic_remove (gid l) c1 = Inr c2" "lic_locks c2 = lic_locks c"
      "lic_members c2 = (lic_members c)(EndHeight l := lic_members c (EndHeight l) - {gid l})"
    using lic.insert_remove [OF assms, of l] by blast
  moreover have "lic_locks c1 = (lic_locks c)(gid l := lic_locks c (gid l) @ [l])" using lic.ins_ok [OF assms, of l] c(1) by auto
  moreover have "lic_members c2 = lic_members c \<longleftrightarrow> gid l \<notin> lic_members c (EndHeight l)"
    unfolding c(4) by (auto simp: fun_eq_iff)
  ultimately show ?thesis by blast
qed

theorem lock_remove_undoes_insert_witness:
  "\<exists>c c1 c2. lic_insert (\<lambda>_. 7) (new_LockInfo 1 2 3 20) lic_new = Inr c \<and> lic_members c 20 = {7}
    \<and> lic_insert (\<lambda>_. 7) (new_LockInfo 1 2 4 30) c = Inr c1
    \<and> lic_locks c1 7 = [new_LockInfo 1 2 3 20, new_LockInfo 1 2 4 30] \<and> lic_remove 7 c1 = Inr c2
    \<and> lic_locks c2 = lic_locks c \<and> lic_members c2 = lic_members c"
proof -
  obtain c where c: "lic_insert (\<lambda>_. 7) (new_LockInfo 1 2 3 20) lic_new = Inr c" "lic_inv (\<lambda>_. 7) c"
      "lic_locks c 7 = [new_LockInfo 1 2 3 20]" "lic_members c = (\<lambda>_. {})(20 := {7})"
    using lic.ins_ok [OF lic_new_inv, of "\<lambda>_. 7" "new_LockInfo 1 2 3 20"] by (auto simp: new_LockInfo_def)
  have "7 \<notin> lic_members c (EndHeight (new_LockInfo 1 2 4 30))" by (simp add: c(4) new_LockInfo_def)
  with lock_remove_undoes_insert [OF c(2), of "new_LockInfo 1 2 4 30"] c show ?thesis by auto
qed

text \<open>
  C33. A removal forgets the expiration of older locks. When two locks of one identifier have the same
  end height and the newer one is removed, the older one is the current lock again but its
  identifier is no longer grouped at that height: it was reported as expired there before, and no
  lock of the identifier is afterwards.
\<close>

theorem lock_remove_loses_expiration:
  assumes "lic_inv gid c" "gid l1 = gid l2" "EndHeight l1 = EndHeight l2" "Status l1 = Unused"
    "lic_insert gid l1 c = Inr c1" "lic_insert gid l2 c1 = Inr c2" "lic_remove (gid l2) c2 = Inr c3"
  shows "lic_locks c3 = lic_locks c1 \<and> l1 \<in> set (fst (lic_processUnusedExpiredLocks (EndHeight l1) c1))
    \<and> (\<forall>l \<in> set (fst (lic_processUnusedExpiredLocks (EndHeight l1) c3)). gid l \<noteq> gid l1)"
proof -
  let ?k = "gid l1" and ?e = "EndHeight l1"
  have c1: "lic_inv gid c1" "lic_locks c1 ?k = lic_locks c ?k @ [l1]" "?k \<in> lic_members c1 ?e"
    using lic.ins_ok [OF assms(1), of l1] assms(5) by auto
  have c3: "lic_inv gid c3" "lic_locks c3 = lic_locks c1" "?k \<notin> lic_members c3 ?e"
    using lic.insert_remove [OF c1(1), of l2] assms(2,3,6,7) by auto
  have "l1 \<in> set (fst (lic_processUnusedExpiredLocks ?e c1))"
    using lic_process_ok [OF c1(1), of ?e] c1(2,3) assms(4)
    by (force simp: group_members_ids)
  moreover have "gid l \<noteq> ?k" if mem: "l \<in> set (fst (lic_processUnusedExpiredLocks ?e c3))" for l
  proof
    assume k: "gid l = ?k"
    obtain k where "l = last (lic_locks c3 k)" "lic_locks c3 k \<noteq> []" "k \<in> lic_members c3 ?e"
      using lic_process_ok [OF c3(1), of ?e] mem by (auto simp: group_members_ids)
    moreover from this have "gid l = k"
      using lic_inv_historyD(3) [OF c3(1)] by (auto simp: lic_locks_def split: option.splits)
    ultimately show False using k c3(3) by simp
  qed
  ultimately show ?thesis using c3(2) by blast
qed

theorem lock_remove_loses_expiration_witness:
  "\<exists>c1 c2 c3. lic_insert (\<lambda>_. 7) (new_LockInfo 1 2 3 20) lic_new = Inr c1
    \<and> lic_insert (\<lambda>_. 7) (new_LockInfo 1 2 4 20) c1 = Inr c2 \<and> lic_remove 7 c2 = Inr c3
    \<and> lic_locks c3 = lic_locks c1
    \<and> new_LockInfo 1 2 3 20 \<in> set (fst (lic_processUnusedExpiredLocks 20 c1))
    \<and> fst (lic_processUnusedExpiredLocks 20 c3) = []"
proof -
  let ?l1 = "new_LockInfo 1 2 3 20" and ?l2 = "new_LockInfo 1 2 4 20" and ?g = "\<lambda>_. 7"
  obtain c1 where c1: "lic_insert ?g ?l1 lic_new = Inr c1" "lic_inv ?g c1"
    using lic.ins_ok [OF lic_new_inv] by blast
  obtain c2 c3 where c2: "lic_insert ?g ?l2 c1 = Inr c2" "lic_remove 7 c2 = Inr c3"
    using lic.insert_remove [OF c1(2), of ?l2] by auto
  from lock_remove_loses_expiration [OF lic_new_inv _ _ _ c1(1) c2(1) c2(2)] c1(1) c2 show ?thesis
    by (auto simp: new_LockInfo_def)
qed

text \<open>
  Pruning at a height drops, from the history of every identifier grouped at that height, the
  leading locks that ended at or before it, forgets the identifiers whose history becomes empty and
  the group, and changes nothing else.
\<close>

theorem lock_prune_drops_expired:
  assumes "lic_inv gid c"
  shows "lic_inv gid (lic_prune height c)
    \<and> lic_locks (lic_prune height c) k
       = (if k \<in> lic_members c height then dropWhile (\<lambda>l. EndHeight l \<le> height) (lic_locks c k) else lic_locks c k)
    \<and> lic_contains (lic_prune height c) k = (lic_locks (lic_prune height c) k \<noteq> [])
    \<and> lic_members (lic_prune height c) = (lic_members c)(height := {})"
proof -
  note ok = lic_prune_ok [OF assms, of height]
  show ?thesis using ok lic_contains_locks [OF conjunct1 [OF ok], of k] by simp
qed

theorem lock_prune_drops_expired_witness:
  "\<exists>c. lic_insert (\<lambda>_. 7) (new_LockInfo 1 2 3 20) lic_new = Inr c \<and> lic_contains c 7
    \<and> \<not> lic_contains (lic_prune 20 c) 7 \<and> lic_members (lic_prune 20 c) 20 = {}"
proof -
  obtain c where c: "lic_insert (\<lambda>_. 7) (new_LockInfo 1 2 3 20) lic_new = Inr c" "lic_inv (\<lambda>_. 7) c"
      "lic_locks c 7 = [new_LockInfo 1 2 3 20]" "7 \<in> lic_members c 20"
    using lic.ins_ok [OF lic_new_inv, of "\<lambda>_. 7" "new_LockInfo 1 2 3 20"] by (auto simp: new_LockInfo_def)
  from lock_prune_drops_expired [OF c(2), of 20 7] c lic_contains_locks [OF c(2)] show ?thesis
    by (simp add: new_LockInfo_def)
qed

text \<open>
  The locks that expire at a height are, for each identifier of its group once and in the order of
  the group, the current lock if it is unused; finding them marks the histories as touched and changes
  neither histories nor groups.
\<close>

theorem lock_expired_are_current_unused:
  assumes "lic_inv gid c"
  shows "\<exists>ks c'. distinct ks \<and> set ks = {k \<in> lic_members c height. lic_locks c k \<noteq> [] \<and> Status (last (lic_locks c k)) = Unused}
    \<and> lic_processUnusedExpiredLocks height c = (map (\<lambda>k. last (lic_locks c k)) ks, c')
    \<and> lic_inv gid c' \<and> lic_locks c' = lic_locks c \<and> lic_members c' = lic_members c"
proof -
  let ?P = "\<lambda>k. lic_locks c k \<noteq> [] \<and> Status (last (lic_locks c k)) = Unused"
  let ?ks = "filter ?P (group_ids (lic_pHeightGroupingDelta c) height)"
  have "distinct ?ks" using group_ids_distinct [OF lic_invD(2) [OF assms]] by simp
  moreover have "set ?ks = {k \<in> lic_members c height. ?P k}" by (auto simp: group_members_ids)
  ultimately show ?thesis using lic_process_ok [OF assms, of height] by blast
qed

theorem lock_expired_are_current_unused_witness:
  "\<exists>c c'. lic_insert (\<lambda>_. 7) (new_LockInfo 1 2 3 20) lic_new = Inr c
    \<and> lic_processUnusedExpiredLocks 20 c = ([new_LockInfo 1 2 3 20], c') \<and> lic_locks c' = lic_locks c"
proof -
  obtain c where c: "lic_insert (\<lambda>_. 7) (new_LockInfo 1 2 3 20) lic_new = Inr c" "lic_inv (\<lambda>_. 7) c"
      "lic_locks c = (\<lambda>_. [])(7 := [new_LockInfo 1 2 3 20])" "lic_members c 20 = {7}"
    using lic.ins_ok [OF lic_new_inv, of "\<lambda>_. 7" "new_LockInfo 1 2 3 20"] by (auto simp: new_LockInfo_def)
  obtain ks c' where ks: "distinct ks" "set ks = {7}"
      "lic_processUnusedExpiredLocks 20 c = (map (\<lambda>k. last (lic_locks c k)) ks, c')" "lic_locks c' = lic_locks c"
    using lock_expired_are_current_unused [OF c(2), of 20] c(3,4) by (auto simp: new_LockInfo_def Collect_conv_if)
  from ks(1,2) have "ks = [7]" by (cases ks; cases "tl ks") auto
  with ks(3,4) c(1,3) show ?thesis by simp
qed

text \<open>
  C32. Loading a history into the cache and purging it terminates without an exception and removes
  every lock of its identifier, also those that were in the cache before.
\<close>

theorem lock_purge_after_load:
  assumes "lic_inv gid c" "\<forall>l \<in> set (lockInfos history). gid l = lh_id history"
  shows "\<exists>c1 c2. lic_LoadInto gid history c = Inr c1
    \<and> lic_locks c1 = (lic_locks c)(lh_id history := lic_locks c (lh_id history) @ lockInfos history)
    \<and> lic_Purge (lh_id history) c1 = Some (Inr c2)
    \<and> lic_locks c2 = (lic_locks c)(lh_id history := []) \<and> \<not> lic_contains c2 (lh_id history)"
proof -
  obtain c1 where c1: "lic_LoadInto gid history c = Inr c1" "lic_inv gid c1"
      "lic_locks c1 = (lic_locks c)(lh_id history := lic_locks c (lh_id history) @ lockInfos history)"
    using lic.load_loop [OF assms] by (auto simp: lic_LoadInto_def)
  obtain c2 where "lic_Purge (lh_id history) c1 = Some (Inr c2)" "lic_inv gid c2"
      "lic_locks c2 = (lic_locks c1)(lh_id history := [])"
    using lic_Purge_ok [OF c1(2)] by blast
  with c1 lic_contains_locks show ?thesis by fastforce
qed

theorem lock_purge_after_load_witness:
  "\<exists>c1 c2. lic_LoadInto (\<lambda>_. 7) \<lparr>lh_id = 7, lockInfos = [new_LockInfo 1 2 3 20]\<rparr> lic_new = Inr c1
    \<and> lic_locks c1 = (lic_locks lic_new)(7 := [new_LockInfo 1 2 3 20])
    \<and> lic_Purge 7 c1 = Some (Inr c2) \<and> lic_locks c2 = (lic_locks lic_new)(7 := []) \<and> \<not> lic_contains c2 7"
  using lock_purge_after_load [OF lic_new_inv, of "\<lparr>lh_id = 7, lockInfos = [new_LockInfo 1 2 3 20]\<rparr>" "\<lambda>_. 7"] by simp

end
