(* ===== verification/AccountStateCache.thy ===== *)
theory AccountStateCache
  imports AccountData LockInfo "HOL-Library.Product_Lexorder"
begin

section \<open>The account state cache (catapult/cache_core)\<close>

text \<open>
  The delta of the account state cache: the states by address, the addresses by public key, and the
  queued removals that a rollback commits. The address of a public key is a hash; the function
  \<open>PublicKeyToAddress\<close> is an argument of the operations that use it. High value accounts are not
  part of this model. A pointer into the cache that the mutable \<open>find\<close> returns refers to the state
  stored at its address; writing through it is \<open>asc_store\<close>.
\<close>

subsection \<open>State and operations\<close>

record Options =
  NetworkIdentifier :: uint8
  ImportanceGrouping :: uint64
  VotingSetGrouping :: uint64
  MinHarvesterBalance :: Amount
  MaxHarvesterBalance :: Amount
  MinVoterBalance :: Amount
  CurrencyMosaicId :: MosaicId
  HarvestingMosaicId :: MosaicId

record AccountStateCacheDelta =
  m_pStateByAddress :: "(Address, AccountState) BaseSetDelta"
  m_pKeyToAddress :: "(Key, Address) BaseSetDelta"
  m_options :: Options
  m_queuedRemoveByAddress :: "(Height \<times> Address, unit) smap"
  m_queuedRemoveByPublicKey :: "(Height \<times> Key, unit) smap"

datatype CommitRemovalsMode = Mode_Linked | Mode_Unlinked

definition asc_new :: "Options \<Rightarrow> (Address, AccountState) smap \<Rightarrow> (Key, Address) smap \<Rightarrow> AccountStateCacheDelta" where
  "asc_new options states keys =
     \<lparr>m_pStateByAddress = bsd_new states, m_pKeyToAddress = bsd_new keys, m_options = options,
      m_queuedRemoveByAddress = smap_empty, m_queuedRemoveByPublicKey = smap_empty\<rparr>"

definition asc_contains :: "AccountStateCacheDelta \<Rightarrow> Address \<Rightarrow> bool" where
  "asc_contains c address = bsd_contains (m_pStateByAddress c) address"

definition asc_contains_key :: "AccountStateCacheDelta \<Rightarrow> Key \<Rightarrow> bool" where
  "asc_contains_key c key = bsd_contains (m_pKeyToAddress c) key"

text \<open>The const accessors.\<close>

definition asc_find_const :: "AccountStateCacheDelta \<Rightarrow> Address \<Rightarrow> AccountState option" where
  "asc_find_const c address = bsd_find_const MutableTypeTag (m_pStateByAddress c) address"

definition asc_find_key_const :: "AccountStateCacheDelta \<Rightarrow> Key \<Rightarrow> AccountState option" where
  "asc_find_key_const c key =
     (case bsd_find_const ImmutableTypeTag (m_pKeyToAddress c) key of
        None \<Rightarrow> None
      | Some address \<Rightarrow> asc_find_const c address)"

definition asc_store :: "AccountState \<Rightarrow> AccountStateCacheDelta \<Rightarrow> AccountStateCacheDelta" where
  "asc_store a c = c\<lparr>m_pStateByAddress := bsd_store (as_Address a) a (m_pStateByAddress c)\<rparr>"

text \<open>The mutable accessors optimize the balances of what they find for the currency mosaic.\<close>

definition PrepareMutableIterator ::
  "AccountState option \<Rightarrow> AccountStateCacheDelta \<Rightarrow> exn + AccountState option \<times> AccountStateCacheDelta" where
  "PrepareMutableIterator iter c =
     (case iter of
        None \<Rightarrow> Inr (None, c)
      | Some a \<Rightarrow>
          rbind (ab_optimize (CurrencyMosaicId (m_options c)) (Balances a)) (\<lambda>balances.
            let a = a\<lparr>Balances := balances\<rparr> in Inr (Some a, asc_store a c)))"

definition asc_find :: "Address \<Rightarrow> AccountStateCacheDelta \<Rightarrow> exn + AccountState option \<times> AccountStateCacheDelta" where
  "asc_find address c =
     (let (iter, states) = bsd_find MutableTypeTag (m_pStateByAddress c) address
      in PrepareMutableIterator iter (c\<lparr>m_pStateByAddress := states\<rparr>))"

definition asc_find_key :: "Key \<Rightarrow> AccountStateCacheDelta \<Rightarrow> exn + AccountState option \<times> AccountStateCacheDelta" where
  "asc_find_key key c =
     (case bsd_find_const ImmutableTypeTag (m_pKeyToAddress c) key of
        None \<Rightarrow> PrepareMutableIterator None c
      | Some address \<Rightarrow> asc_find address c)"

text \<open>\<open>find(...).get()\<close>, which throws when there is no value.\<close>

definition asc_get :: "Address \<Rightarrow> AccountStateCacheDelta \<Rightarrow> exn + AccountState \<times> AccountStateCacheDelta" where
  "asc_get address c =
     rbind (asc_find address c) (\<lambda>(iter, c). rbind (CacheFindIterator_get iter) (\<lambda>a. Inr (a, c)))"

definition asc_get_key :: "Key \<Rightarrow> AccountStateCacheDelta \<Rightarrow> exn + AccountState \<times> AccountStateCacheDelta" where
  "asc_get_key key c =
     rbind (asc_find_key key c) (\<lambda>(iter, c). rbind (CacheFindIterator_get iter) (\<lambda>a. Inr (a, c)))"

definition asc_addAccount_state :: "AccountState \<Rightarrow> AccountStateCacheDelta \<Rightarrow> exn + AccountStateCacheDelta" where
  "asc_addAccount_state a c =
     (if asc_contains c (as_Address a) then Inr c
      else
        let c = (if 0 \<noteq> PublicKeyHeight a
                 then c\<lparr>m_pKeyToAddress := snd (bsd_insert ImmutableTypeTag (PublicKey a) (as_Address a) (m_pKeyToAddress c))\<rparr>
                 else c);
            c = c\<lparr>m_pStateByAddress := snd (bsd_insert MutableTypeTag (as_Address a) a (m_pStateByAddress c))\<rparr>;
            (iter, states) = bsd_find MutableTypeTag (m_pStateByAddress c) (as_Address a)
        in case iter of
             None \<Rightarrow> Inr (c\<lparr>m_pStateByAddress := states\<rparr>)
           | Some a \<Rightarrow>
               rbind (ab_optimize (CurrencyMosaicId (m_options c)) (Balances a)) (\<lambda>balances.
                 Inr (c\<lparr>m_pStateByAddress := bsd_store (as_Address a) (a\<lparr>Balances := balances\<rparr>) states\<rparr>)))"

definition asc_addAccount :: "Address \<Rightarrow> Height \<Rightarrow> AccountStateCacheDelta \<Rightarrow> exn + AccountStateCacheDelta" where
  "asc_addAccount address height c =
     (if asc_contains c address then Inr c else asc_addAccount_state (new_AccountState address height) c)"

definition asc_getAddress ::
  "(Key \<Rightarrow> uint8 \<Rightarrow> Address) \<Rightarrow> Key \<Rightarrow> AccountStateCacheDelta \<Rightarrow> Address \<times> AccountStateCacheDelta" where
  "asc_getAddress PublicKeyToAddress publicKey c =
     (case bsd_find_const ImmutableTypeTag (m_pKeyToAddress c) publicKey of
        Some address \<Rightarrow> (address, c)
      | None \<Rightarrow>
          let address = PublicKeyToAddress publicKey (NetworkIdentifier (m_options c))
          in (address, c\<lparr>m_pKeyToAddress := snd (bsd_insert ImmutableTypeTag publicKey address (m_pKeyToAddress c))\<rparr>))"

definition asc_addAccount_key ::
  "(Key \<Rightarrow> uint8 \<Rightarrow> Address) \<Rightarrow> Key \<Rightarrow> Height \<Rightarrow> AccountStateCacheDelta \<Rightarrow> exn + AccountStateCacheDelta" where
  "asc_addAccount_key PublicKeyToAddress publicKey height c =
     (let (address, c) = asc_getAddress PublicKeyToAddress publicKey c
      in rbind (asc_addAccount address height c) (\<lambda>c.
         rbind (CacheFindIterator_get (asc_find_const c address)) (\<lambda>accountStateConst.
         if 0 \<noteq> PublicKeyHeight accountStateConst then Inr c
         else rbind (asc_get address c) (\<lambda>(a, c).
              Inr (asc_store (a\<lparr>PublicKey := publicKey, PublicKeyHeight := height\<rparr>) c)))))"

definition asc_queueRemove :: "Address \<Rightarrow> Height \<Rightarrow> AccountStateCacheDelta \<Rightarrow> AccountStateCacheDelta" where
  "asc_queueRemove address height c =
     c\<lparr>m_queuedRemoveByAddress := smap_insert (height, address) () (m_queuedRemoveByAddress c)\<rparr>"

definition asc_queueRemove_key :: "Key \<Rightarrow> Height \<Rightarrow> AccountStateCacheDelta \<Rightarrow> AccountStateCacheDelta" where
  "asc_queueRemove_key publicKey height c =
     c\<lparr>m_queuedRemoveByPublicKey := smap_insert (height, publicKey) () (m_queuedRemoveByPublicKey c)\<rparr>"

definition asc_clearRemove :: "Address \<Rightarrow> Height \<Rightarrow> AccountStateCacheDelta \<Rightarrow> AccountStateCacheDelta" where
  "asc_clearRemove address height c =
     c\<lparr>m_queuedRemoveByAddress := smap_erase (height, address) (m_queuedRemoveByAddress c)\<rparr>"

definition asc_clearRemove_key :: "Key \<Rightarrow> Height \<Rightarrow> AccountStateCacheDelta \<Rightarrow> AccountStateCacheDelta" where
  "asc_clearRemove_key publicKey height c =
     c\<lparr>m_queuedRemoveByPublicKey := smap_erase (height, publicKey) (m_queuedRemoveByPublicKey c)\<rparr>"

definition asc_remove :: "Address \<Rightarrow> Height \<Rightarrow> AccountStateCacheDelta \<Rightarrow> exn + AccountStateCacheDelta" where
  "asc_remove address height c =
     rbind (asc_find address c) (\<lambda>(iter, c).
       case iter of
         None \<Rightarrow> Inr c
       | Some a \<Rightarrow>
           if height \<noteq> AddressHeight a then Inr c
           else
             let c = (if 0 \<noteq> PublicKeyHeight a
                      then c\<lparr>m_pKeyToAddress := snd (bsd_remove ImmutableTypeTag (PublicKey a) (m_pKeyToAddress c))\<rparr>
                      else c)
             in Inr (c\<lparr>m_pStateByAddress := snd (bsd_remove MutableTypeTag address (m_pStateByAddress c))\<rparr>))"

definition asc_remove_key ::
  "CommitRemovalsMode \<Rightarrow> Key \<Rightarrow> Height \<Rightarrow> AccountStateCacheDelta \<Rightarrow> exn + AccountStateCacheDelta" where
  "asc_remove_key mode publicKey height c =
     rbind (asc_find_key publicKey c) (\<lambda>(iter, c).
       case iter of
         None \<Rightarrow> Inr c
       | Some a \<Rightarrow>
           if height \<noteq> PublicKeyHeight a then Inr c
           else
             let c = c\<lparr>m_pKeyToAddress := snd (bsd_remove ImmutableTypeTag (PublicKey a) (m_pKeyToAddress c))\<rparr>
             in if Mode_Linked = mode \<and> PublicKeyHeight a = AddressHeight a
                then Inr (c\<lparr>m_pStateByAddress := snd (bsd_remove MutableTypeTag (as_Address a) (m_pStateByAddress c))\<rparr>)
                else Inr (asc_store (a\<lparr>PublicKeyHeight := 0, PublicKey := 0\<rparr>) c))"

definition asc_commitRemovals :: "CommitRemovalsMode \<Rightarrow> AccountStateCacheDelta \<Rightarrow> exn + AccountStateCacheDelta" where
  "asc_commitRemovals mode c =
     rbind (rfold (\<lambda>p. asc_remove (snd p) (fst p)) (map fst (m_queuedRemoveByAddress c)) c) (\<lambda>c.
     rbind (rfold (\<lambda>p. asc_remove_key mode (snd p) (fst p)) (map fst (m_queuedRemoveByPublicKey c)) c) (\<lambda>c.
     Inr (c\<lparr>m_queuedRemoveByAddress := smap_empty, m_queuedRemoveByPublicKey := smap_empty\<rparr>)))"

text \<open>
  The action is handed the state of the account or, for a remote account, of the account it is
  linked to; the state it returns is stored.
\<close>

definition ProcessForwardedAccountState ::
  "Address \<Rightarrow> (AccountState \<Rightarrow> 's \<Rightarrow> exn + AccountState \<times> 's) \<Rightarrow> 's \<Rightarrow> AccountStateCacheDelta
     \<Rightarrow> exn + 's \<times> AccountStateCacheDelta" where
  "ProcessForwardedAccountState address action s c =
     rbind (asc_get address c) (\<lambda>(a, c).
       if Remote \<noteq> as_AccountType a then
         rbind (action a s) (\<lambda>(a, s). Inr (s, asc_store a c))
       else
         rbind (asc_get_key (GetLinkedPublicKey a) c) (\<lambda>(linkedAccountState, c).
         rbind (RequireLinkedRemoteAndMainAccounts a linkedAccountState) (\<lambda>_.
         rbind (action linkedAccountState s) (\<lambda>(a, s). Inr (s, asc_store a c)))))"

subsection \<open>View and invariant\<close>

definition asc_states :: "AccountStateCacheDelta \<Rightarrow> Address \<rightharpoonup> AccountState" where
  "asc_states c = bsd_view (m_pStateByAddress c)"

definition asc_keys :: "AccountStateCacheDelta \<Rightarrow> Key \<rightharpoonup> Address" where
  "asc_keys c = bsd_view (m_pKeyToAddress c)"

definition asc_inv :: "AccountStateCacheDelta \<Rightarrow> bool" where
  "asc_inv c \<longleftrightarrow> bsd_inv MutableTypeTag (m_pStateByAddress c) \<and> bsd_inv ImmutableTypeTag (m_pKeyToAddress c)
     \<and> (\<forall>address a. asc_states c address = Some a \<longrightarrow> as_Address a = address \<and> ab_inv (Balances a))"

subsection \<open>Looking up and storing accounts\<close>

lemma smap_put_put: "smap_put k v (smap_put k w m) = smap_put k v m"
  by (induction m) auto

lemma smap_contains_put: "smap_contains (smap_put k v m) k' \<longleftrightarrow> k' = k \<or> smap_contains m k'"
  by (simp add: smap_contains_def)

lemma bsd_store_store: "bsd_store k v (bsd_store k w d) = bsd_store k v d"
  by (simp add: bsd_store_def smap_put_put smap_contains_put)

text \<open>The state that a mutable look up leaves behind: optimized for the currency mosaic.\<close>

definition optimized :: "MosaicId \<Rightarrow> AccountState \<Rightarrow> AccountState" where
  "optimized currency a =
     a\<lparr>Balances := (case ab_optimize currency (Balances a) of Inl _ \<Rightarrow> Balances a | Inr balances \<Rightarrow> balances)\<rparr>"

lemma optimized_balances:
  assumes "ab_inv (Balances a)"
  shows "ab_optimize currency (Balances a) = Inr (Balances (optimized currency a))"
    "ab_inv (Balances (optimized currency a))" "ab_get (Balances (optimized currency a)) = ab_get (Balances a)"
    "ab_optimizedMosaicId (Balances (optimized currency a)) = currency"
  using ab_optimize_refines [OF assms, of currency] by (auto simp: optimized_def ab_optimizedMosaicId_def)

lemma optimized_fields [simp]:
  "as_Address (optimized cur a) = as_Address a" "AddressHeight (optimized cur a) = AddressHeight a"
  "PublicKey (optimized cur a) = PublicKey a" "PublicKeyHeight (optimized cur a) = PublicKeyHeight a"
  "as_AccountType (optimized cur a) = as_AccountType a"
  "SupplementalPublicKeys (optimized cur a) = SupplementalPublicKeys a"
  by (simp_all add: optimized_def)

lemma optimized_eq: "optimized cur a = a\<lparr>Balances := Balances (optimized cur a)\<rparr>"
  by (simp add: optimized_def)

lemma optimized_idem: "ab_inv (Balances a) \<Longrightarrow> optimized cur (optimized cur a) = optimized cur a"
  using optimized_balances(2,4) [of a cur]
  by (simp add: optimized_def [of cur "optimized cur a"] ab_optimize_def cmm_optimize_def ab_inv_def ab_optimizedMosaicId_def)

abbreviation asc_currency :: "AccountStateCacheDelta \<Rightarrow> MosaicId" where
  "asc_currency c \<equiv> CurrencyMosaicId (m_options c)"

lemma asc_invD:
  assumes "asc_inv c"
  shows "bsd_inv MutableTypeTag (m_pStateByAddress c)" "bsd_inv ImmutableTypeTag (m_pKeyToAddress c)"
    "asc_states c address = Some a \<Longrightarrow> as_Address a = address"
    "asc_states c address = Some a \<Longrightarrow> ab_inv (Balances a)"
  using assms by (auto simp: asc_inv_def)

text \<open>What a client may do with the pointer of a found account: any state at the same address.\<close>

lemma asc_found:
  assumes "asc_inv c" "asc_states c address = Some a" "as_Address a' = address" "ab_inv (Balances a')"
  defines "c' \<equiv> c\<lparr>m_pStateByAddress := bsd_store address a' (snd (bsd_find MutableTypeTag (m_pStateByAddress c) address))\<rparr>"
  shows "asc_inv c'" "asc_states c' = (asc_states c)(address \<mapsto> a')" "asc_keys c' = asc_keys c"
    "asc_store a'' c' = c\<lparr>m_pStateByAddress := bsd_store (as_Address a'') a''
        (bsd_store address a' (snd (bsd_find MutableTypeTag (m_pStateByAddress c) address)))\<rparr>"
proof -
  note d = asc_invD(1) [OF assms(1)]
  have v: "bsd_view (m_pStateByAddress c) address \<noteq> None" using assms(2) by (simp add: asc_states_def)
  show states: "asc_states c' = (asc_states c)(address \<mapsto> a')"
    using bsd.store_view [OF d v] by (simp add: asc_states_def c'_def)
  show "asc_keys c' = asc_keys c" by (simp add: asc_keys_def c'_def)
  show "asc_inv c'"
    using assms(1,3,4) states bsd.store_inv [OF d v, of a']
    by (auto simp: asc_inv_def c'_def split: if_splits)
  show "asc_store a'' c' = c\<lparr>m_pStateByAddress := bsd_store (as_Address a'') a''
        (bsd_store address a' (snd (bsd_find MutableTypeTag (m_pStateByAddress c) address)))\<rparr>"
    by (simp add: asc_store_def c'_def)
qed

lemma asc_find_Some:
  assumes "asc_inv c" "asc_states c address = Some a"
  shows "asc_find address c = Inr (Some (optimized (asc_currency c) a),
     c\<lparr>m_pStateByAddress := bsd_store address (optimized (asc_currency c) a) (snd (bsd_find MutableTypeTag (m_pStateByAddress c) address))\<rparr>)"
proof -
  have "fst (bsd_find MutableTypeTag (m_pStateByAddress c) address) = Some a"
    using bsd.find_result [OF asc_invD(1) [OF assms(1)]] assms(2) by (simp add: asc_states_def)
  moreover obtain balances where "ab_optimize (asc_currency c) (Balances a) = Inr balances"
      "optimized (asc_currency c) a = a\<lparr>Balances := balances\<rparr>"
    using optimized_balances(1) [OF asc_invD(4) [OF assms], of "asc_currency c"] optimized_eq by blast
  ultimately show ?thesis
    using asc_invD(3) [OF assms]
    by (cases "bsd_find MutableTypeTag (m_pStateByAddress c) address")
       (simp add: asc_find_def PrepareMutableIterator_def asc_store_def Let_def)
qed

lemma asc_find_None:
  assumes "asc_inv c" "asc_states c address = None"
  shows "\<exists>c'. asc_find address c = Inr (None, c') \<and> asc_inv c' \<and> asc_states c' = asc_states c \<and> asc_keys c' = asc_keys c
    \<and> m_options c' = m_options c \<and> m_queuedRemoveByAddress c' = m_queuedRemoveByAddress c
    \<and> m_queuedRemoveByPublicKey c' = m_queuedRemoveByPublicKey c"
proof -
  let ?f = "bsd_find MutableTypeTag (m_pStateByAddress c) address"
  note d = asc_invD(1) [OF assms(1)]
  have f: "fst ?f = None" "bsd_view (snd ?f) = bsd_view (m_pStateByAddress c)" "bsd_inv MutableTypeTag (snd ?f)"
    using bsd.find_result [OF d] bsd.find_keeps [OF d] bsd.find_inv [OF d] assms(2) by (simp_all add: asc_states_def)
  then have "asc_find address c = Inr (None, c\<lparr>m_pStateByAddress := snd ?f\<rparr>)"
    by (cases ?f) (simp add: asc_find_def PrepareMutableIterator_def)
  with f assms show ?thesis by (auto simp: asc_inv_def asc_states_def asc_keys_def)
qed

subsection \<open>The contract for clients that change accounts\<close>

text \<open>
  A client gets an account, which throws when there is none, and writes a changed state back. The
  account it gets has been normalized; writing back replaces the state at its address.
\<close>

locale account_store =
  fixes inv :: "'c \<Rightarrow> bool"
    and states :: "'c \<Rightarrow> 'k \<rightharpoonup> 'a"
    and norm :: "'c \<Rightarrow> 'a \<Rightarrow> 'a"
    and get :: "'k \<Rightarrow> 'c \<Rightarrow> exn + 'a \<times> 'c"
    and store :: "'a \<Rightarrow> 'c \<Rightarrow> 'c"
    and valid :: "'k \<Rightarrow> 'a \<Rightarrow> bool"
  assumes get_throws: "inv c \<Longrightarrow> states c k = None \<Longrightarrow> get k c = Inl Invalid_Argument"
    and get_ok: "inv c \<Longrightarrow> states c k = Some a \<Longrightarrow> \<exists>c'. get k c = Inr (norm c a, c') \<and> inv c'
      \<and> states c' = (states c)(k \<mapsto> norm c a) \<and> (\<forall>a'. valid k a' \<longrightarrow> inv (store a' c') \<and> states (store a' c') = (states c)(k \<mapsto> a'))"
begin

definition update :: "'k \<Rightarrow> ('a \<Rightarrow> exn + 'a) \<Rightarrow> 'c \<Rightarrow> exn + 'c" where
  "update k f c = rbind (get k c) (\<lambda>(a, c). rbind (f a) (\<lambda>a. Inr (store a c)))"

lemma update_ok:
  assumes "inv c" "states c k = Some a" "f (norm c a) = Inr a'" "valid k a'"
  shows "\<exists>c'. update k f c = Inr c' \<and> inv c' \<and> states c' = (states c)(k \<mapsto> a')"
  using get_ok [OF assms(1,2)] assms(3,4) by (auto simp: update_def)

lemma update_throws:
  assumes "inv c"
  shows "states c k = None \<Longrightarrow> update k f c = Inl Invalid_Argument"
    and "states c k = Some a \<Longrightarrow> f (norm c a) = Inl e \<Longrightarrow> update k f c = Inl e"
  using get_throws [OF assms, of k] get_ok [OF assms, of k a] by (auto simp: update_def)

end

lemma asc_get_ok:
  assumes "asc_inv c" "asc_states c k = Some a"
  shows "\<exists>c'. asc_get k c = Inr (optimized (asc_currency c) a, c') \<and> asc_inv c'
      \<and> asc_states c' = (asc_states c)(k \<mapsto> optimized (asc_currency c) a) \<and> asc_keys c' = asc_keys c \<and> m_options c' = m_options c
      \<and> (\<forall>a'. as_Address a' = k \<and> ab_inv (Balances a') \<longrightarrow> asc_inv (asc_store a' c')
          \<and> asc_states (asc_store a' c') = (asc_states c)(k \<mapsto> a') \<and> asc_keys (asc_store a' c') = asc_keys c
          \<and> m_options (asc_store a' c') = m_options c)"
proof -
  let ?o = "optimized (asc_currency c) a"
  let ?c = "c\<lparr>m_pStateByAddress := bsd_store k ?o (snd (bsd_find MutableTypeTag (m_pStateByAddress c) k))\<rparr>"
  have o: "as_Address ?o = k" "ab_inv (Balances ?o)"
    using asc_invD(3,4) [OF assms] optimized_balances(2) by simp_all
  have "asc_get k c = Inr (?o, ?c)" by (simp add: asc_get_def asc_find_Some [OF assms] CacheFindIterator_get_def)
  moreover have "asc_inv (asc_store a' ?c) \<and> asc_states (asc_store a' ?c) = (asc_states c)(k \<mapsto> a')
      \<and> asc_keys (asc_store a' ?c) = asc_keys c \<and> m_options (asc_store a' ?c) = m_options c"
    if "as_Address a' = k" "ab_inv (Balances a')" for a'
    using asc_found [OF assms that] that(1) by (simp add: asc_found(4) [OF assms o] bsd_store_store)
  ultimately show ?thesis using asc_found(1-3) [OF assms o] by auto
qed

interpretation asc: account_store asc_inv asc_states "\<lambda>c. optimized (asc_currency c)" asc_get asc_store
  "\<lambda>k a. as_Address a = k \<and> ab_inv (Balances a)"
proof
  show "asc_get k c = Inl Invalid_Argument" if "asc_inv c" "asc_states c k = None" for c k
    using asc_find_None [OF that] by (auto simp: asc_get_def CacheFindIterator_get_def)
next
  fix c k a
  assume "asc_inv c" "asc_states c k = Some a"
  from asc_get_ok [OF this] show "\<exists>c'. asc_get k c = Inr (optimized (asc_currency c) a, c') \<and> asc_inv c'
      \<and> asc_states c' = (asc_states c)(k \<mapsto> optimized (asc_currency c) a)
      \<and> (\<forall>a'. as_Address a' = k \<and> ab_inv (Balances a') \<longrightarrow> asc_inv (asc_store a' c')
          \<and> asc_states (asc_store a' c') = (asc_states c)(k \<mapsto> a'))" by blast
qed


subsection \<open>Adding and removing accounts\<close>

lemma asc_addAccount_state_ok:
  assumes "asc_inv c" "asc_states c (as_Address a) = None" "ab_inv (Balances a)"
  shows "\<exists>c'. asc_addAccount_state a c = Inr c' \<and> asc_inv c' \<and> m_options c' = m_options c
    \<and> asc_states c' = (asc_states c)(as_Address a \<mapsto> optimized (asc_currency c) a)
    \<and> m_pKeyToAddress c' = (if 0 \<noteq> PublicKeyHeight a
        then snd (bsd_insert ImmutableTypeTag (PublicKey a) (as_Address a) (m_pKeyToAddress c)) else m_pKeyToAddress c)
    \<and> m_queuedRemoveByAddress c' = m_queuedRemoveByAddress c \<and> m_queuedRemoveByPublicKey c' = m_queuedRemoveByPublicKey c"
proof -
  let ?k = "as_Address a" and ?o = "optimized (asc_currency c) a"
  define d where "d = snd (bsd_insert MutableTypeTag ?k a (m_pStateByAddress c))"
  define c0 where "c0 = (if 0 \<noteq> PublicKeyHeight a
      then c\<lparr>m_pKeyToAddress := snd (bsd_insert ImmutableTypeTag (PublicKey a) ?k (m_pKeyToAddress c))\<rparr> else c)"
  note s = asc_invD(1) [OF assms(1)]
  have d: "bsd_inv MutableTypeTag d" "bsd_view d = (asc_states c)(?k \<mapsto> a)"
    using s by (simp_all add: d_def bsd_insert_inv bsd_insert_mutable_view asc_states_def)
  have v: "bsd_view d ?k \<noteq> None" by (simp add: d(2))
  have nc: "\<not> asc_contains c ?k" using assms(2) bsd_contains_view [OF s] by (simp add: asc_contains_def asc_states_def)
  obtain st where f: "bsd_find MutableTypeTag d ?k = (Some a, st)"
    using bsd.find_cases [OF d(1), of ?k] by (simp add: d(2))
  let ?d' = "bsd_store ?k ?o (snd (bsd_find MutableTypeTag d ?k))"
  obtain b where b: "ab_optimize (asc_currency c) (Balances a) = Inr b" "?o = a\<lparr>Balances := b\<rparr>"
    using optimized_balances(1) [OF assms(3)] optimized_eq by blast
  have c0: "m_pStateByAddress c0 = m_pStateByAddress c" "m_options c0 = m_options c" "asc_states c0 = asc_states c"
      "bsd_inv ImmutableTypeTag (m_pKeyToAddress c0)"
    using asc_invD(2) [OF assms(1)] by (simp_all add: c0_def asc_states_def bsd_insert_inv)
  have "asc_addAccount_state a c = Inr (c0\<lparr>m_pStateByAddress := ?d'\<rparr>)"
    using nc f [unfolded d_def] b
    by (simp add: asc_addAccount_state_def c0_def d_def Let_def)
  moreover have "asc_states (c0\<lparr>m_pStateByAddress := ?d'\<rparr>) = (asc_states c)(?k \<mapsto> ?o)"
    using bsd.store_view [OF d(1) v, of ?o] d(2) by (simp add: asc_states_def)
  moreover have "asc_inv (c0\<lparr>m_pStateByAddress := ?d'\<rparr>)"
    using calculation(2) assms(1) c0(4) bsd.store_inv [OF d(1) v, of ?o] optimized_balances(2) [OF assms(3)]
    by (auto simp: asc_inv_def split: if_splits)
  ultimately show ?thesis by (auto simp: c0_def)
qed

lemma new_AccountState_facts [simp]:
  "as_Address (new_AccountState address height) = address" "AddressHeight (new_AccountState address height) = height"
  "PublicKeyHeight (new_AccountState address height) = 0" "ab_inv (Balances (new_AccountState address height))"
  by (simp_all add: new_AccountState_def)

lemma asc_addAccount_ok:
  assumes "asc_inv c" "asc_states c address = None"
  shows "\<exists>c'. asc_addAccount address height c = Inr c' \<and> asc_inv c' \<and> m_options c' = m_options c
    \<and> asc_states c' = (asc_states c)(address \<mapsto> optimized (asc_currency c) (new_AccountState address height))
    \<and> m_pKeyToAddress c' = m_pKeyToAddress c
    \<and> m_queuedRemoveByAddress c' = m_queuedRemoveByAddress c \<and> m_queuedRemoveByPublicKey c' = m_queuedRemoveByPublicKey c"
proof -
  have "\<not> asc_contains c address"
    using assms bsd_contains_view [OF asc_invD(1) [OF assms(1)]] by (simp add: asc_contains_def asc_states_def)
  with asc_addAccount_state_ok [of c "new_AccountState address height"] assms show ?thesis
    by (simp add: asc_addAccount_def)
qed

lemma asc_contains_states: "asc_inv c \<Longrightarrow> asc_contains c address \<longleftrightarrow> asc_states c address \<noteq> None"
  using bsd_contains_view [OF asc_invD(1)] by (simp add: asc_contains_def asc_states_def)

lemma asc_remove_ok:
  assumes "asc_inv c" "asc_states c address = Some a" "AddressHeight a = height"
  shows "\<exists>c'. asc_remove address height c = Inr c' \<and> asc_inv c' \<and> asc_states c' = (asc_states c)(address := None)
    \<and> asc_keys c' = (if 0 \<noteq> PublicKeyHeight a then (asc_keys c)(PublicKey a := None) else asc_keys c)
    \<and> m_queuedRemoveByPublicKey c' = m_queuedRemoveByPublicKey c"
proof -
  let ?o = "optimized (asc_currency c) a"
  define c1 where "c1 = c\<lparr>m_pStateByAddress := bsd_store address ?o (snd (bsd_find MutableTypeTag (m_pStateByAddress c) address))\<rparr>"
  have o: "as_Address ?o = address" "ab_inv (Balances ?o)"
    using asc_invD(3,4) [OF assms(1,2)] optimized_balances(2) by simp_all
  have c1: "asc_inv c1" "asc_states c1 = (asc_states c)(address \<mapsto> ?o)" "asc_keys c1 = asc_keys c"
      "m_queuedRemoveByPublicKey c1 = m_queuedRemoveByPublicKey c"
    using asc_found(1-3) [OF assms(1,2) o] by (simp_all add: c1_def)
  define c2 where "c2 = (if 0 \<noteq> PublicKeyHeight a
      then c1\<lparr>m_pKeyToAddress := snd (bsd_remove ImmutableTypeTag (PublicKey a) (m_pKeyToAddress c1))\<rparr> else c1)"
  let ?c3 = "c2\<lparr>m_pStateByAddress := snd (bsd_remove MutableTypeTag address (m_pStateByAddress c2))\<rparr>"
  have "asc_remove address height c = Inr ?c3"
    using asc_find_Some [OF assms(1,2)] assms(3) unfolding c1_def [symmetric]
    by (simp add: asc_remove_def c2_def Let_def)
  moreover have "asc_states ?c3 = (asc_states c)(address := None)" "bsd_inv MutableTypeTag (m_pStateByAddress ?c3)"
    using c1(2) asc_invD(1) [OF c1(1)] by (auto simp: asc_states_def c2_def bsd_remove_view bsd_remove_inv)
  moreover have "asc_keys ?c3 = (if 0 \<noteq> PublicKeyHeight a then (asc_keys c)(PublicKey a := None) else asc_keys c)"
      "bsd_inv ImmutableTypeTag (m_pKeyToAddress ?c3)"
    using c1(3) asc_invD(2) [OF c1(1)] by (simp_all add: asc_keys_def c2_def bsd_remove_view bsd_remove_inv)
  moreover from calculation have "asc_inv ?c3" using assms(1) by (auto simp: asc_inv_def split: if_splits)
  ultimately show ?thesis using c1(4) by (auto simp: c2_def)
qed

subsection \<open>Properties\<close>

text \<open>
  An account found for modification always has its balances optimized for the currency mosaic and
  is otherwise unchanged: the same amounts of every mosaic and, whatever its history, the mosaics in
  the order of that optimization; the cache then holds exactly this state. When the account is
  missing nothing changes, and \<open>get\<close> throws.
\<close>

theorem account_find_optimizes:
  assumes "asc_inv c"
  shows "\<exists>iter c'. asc_find address c = Inr (iter, c') \<and> asc_inv c'
    \<and> asc_states c' = (asc_states c)(address := iter)
    \<and> (case asc_states c address of
         None \<Rightarrow> iter = None \<and> asc_get address c = Inl Invalid_Argument
       | Some a \<Rightarrow> (\<exists>b xs. iter = Some (a\<lparr>Balances := b\<rparr>) \<and> ab_get b = ab_get (Balances a)
           \<and> ab_optimizedMosaicId b = asc_currency c \<and> ab_iterate b = Inr xs
           \<and> sorted_wrt (IsLessThan (asc_currency c)) (map fst xs)))"
proof (cases "asc_states c address")
  case None
  with asc_find_None [OF assms None] asc.get_throws [OF assms None] show ?thesis by (auto simp: fun_eq_iff)
next
  case (Some a)
  let ?o = "optimized (asc_currency c) a" and ?b = "Balances (optimized (asc_currency c) a)"
  have inv: "ab_inv (Balances a)" using asc_invD(4) [OF assms Some] .
  note o = optimized_balances [OF inv, of "asc_currency c"]
  have cm: "cmm_inv (m_balances ?b)" "m_optimizedMosaicId (m_balances ?b) = asc_currency c"
    using o(2,4) by (simp_all add: ab_inv_def ab_optimizedMosaicId_def)
  have "ab_iterate ?b = Inr (cmm_list (m_balances ?b))"
    using cmm_iterate_ok [OF cmm_inv_wf [OF cm(1)]] by (simp add: ab_iterate_def)
  moreover have "sorted_wrt (IsLessThan (asc_currency c)) (map fst (cmm_list (m_balances ?b)))"
    using IsLessThan_sorted [OF cm(1)] by (simp add: cm(2))
  ultimately have "\<exists>b xs. Some ?o = Some (a\<lparr>Balances := b\<rparr>) \<and> ab_get b = ab_get (Balances a)
           \<and> ab_optimizedMosaicId b = asc_currency c \<and> ab_iterate b = Inr xs
           \<and> sorted_wrt (IsLessThan (asc_currency c)) (map fst xs)"
    using o(3,4) optimized_eq [of "asc_currency c" a] by blast
  with asc_find_Some [OF assms Some] asc_found(1,2) [OF assms Some, of ?o] o(2) asc_invD(3) [OF assms Some] Some
  show ?thesis by auto
qed

lemma smap_singleton: "smap_insert k v smap_empty = [(k, v)]"
  by (simp add: smap_insert_def smap_empty_def smap_contains_def)

text \<open>
  C35. Rolling back the creation of an account. Adding a missing account at a height, queueing its
  removal for the same height and committing the removals ends normally and gives back the accounts
  and the known public keys; nothing stays queued.
\<close>

theorem account_removal_undoes_addition:
  assumes "asc_inv c" "asc_states c address = None"
    "m_queuedRemoveByAddress c = smap_empty" "m_queuedRemoveByPublicKey c = smap_empty"
  shows "\<exists>c1 c2. asc_addAccount address height c = Inr c1 \<and> asc_contains c1 address
    \<and> asc_commitRemovals mode (asc_queueRemove address height c1) = Inr c2
    \<and> asc_states c2 = asc_states c \<and> asc_keys c2 = asc_keys c
    \<and> m_queuedRemoveByAddress c2 = smap_empty \<and> m_queuedRemoveByPublicKey c2 = smap_empty"
proof -
  let ?a = "optimized (asc_currency c) (new_AccountState address height)"
  obtain c1 where c1: "asc_addAccount address height c = Inr c1" "asc_inv c1"
      "asc_states c1 = (asc_states c)(address \<mapsto> ?a)" "m_pKeyToAddress c1 = m_pKeyToAddress c"
      "m_queuedRemoveByAddress c1 = m_queuedRemoveByAddress c" "m_queuedRemoveByPublicKey c1 = m_queuedRemoveByPublicKey c"
    using asc_addAccount_ok [OF assms(1,2), of height] by blast
  let ?q = "asc_queueRemove address height c1"
  have q: "asc_inv ?q" "asc_states ?q address = Some ?a" "asc_states ?q = asc_states c1" "asc_keys ?q = asc_keys c"
      "m_queuedRemoveByAddress ?q = [((height, address), ())]" "m_queuedRemoveByPublicKey ?q = smap_empty"
    using c1(2-6) assms(3,4)
    by (simp_all add: asc_queueRemove_def asc_inv_def asc_states_def asc_keys_def smap_singleton)
  obtain c2 where "asc_remove address height ?q = Inr c2" "asc_states c2 = (asc_states ?q)(address := None)"
      "asc_keys c2 = asc_keys ?q" "m_queuedRemoveByPublicKey c2 = smap_empty"
    using asc_remove_ok [OF q(1,2), of height] q(6) by auto
  then have "asc_commitRemovals mode ?q = Inr (c2\<lparr>m_queuedRemoveByAddress := smap_empty, m_queuedRemoveByPublicKey := smap_empty\<rparr>)"
      "asc_states c2 = asc_states c" "asc_keys c2 = asc_keys c"
    using q(3-6) c1(3) assms(2) by (auto simp: asc_commitRemovals_def smap_empty_def fun_eq_iff)
  with c1(1,2,3) asc_contains_states [OF c1(2)] show ?thesis
    by (auto simp: asc_states_def asc_keys_def)
qed

definition example_options :: Options where
  "example_options = \<lparr>NetworkIdentifier = 104, ImportanceGrouping = 720, VotingSetGrouping = 1440,
     MinHarvesterBalance = 10000, MaxHarvesterBalance = 50000000, MinVoterBalance = 3000000,
     CurrencyMosaicId = 7, HarvestingMosaicId = 7\<rparr>"

lemma asc_new_facts [simp]:
  "asc_inv (asc_new options smap_empty smap_empty)" "asc_states (asc_new options smap_empty keys) = Map.empty"
  "m_queuedRemoveByAddress (asc_new options states keys) = smap_empty"
  "m_queuedRemoveByPublicKey (asc_new options states keys) = smap_empty"
  by (simp_all add: asc_new_def asc_inv_def asc_states_def)

theorem account_removal_undoes_addition_witness:
  "\<exists>c1 c2. asc_addAccount 5 100 (asc_new example_options smap_empty smap_empty) = Inr c1 \<and> asc_contains c1 5
    \<and> asc_commitRemovals Mode_Linked (asc_queueRemove 5 100 c1) = Inr c2
    \<and> asc_states c2 = asc_states (asc_new example_options smap_empty smap_empty)
    \<and> asc_keys c2 = asc_keys (asc_new example_options smap_empty smap_empty)
    \<and> m_queuedRemoveByAddress c2 = smap_empty \<and> m_queuedRemoveByPublicKey c2 = smap_empty"
  by (rule account_removal_undoes_addition) simp_all

theorem account_find_optimizes_witness:
  "\<exists>c iter c'. asc_addAccount 5 100 (asc_new example_options smap_empty smap_empty) = Inr c
    \<and> asc_find 5 c = Inr (iter, c') \<and> iter \<noteq> None \<and> asc_states c' = (asc_states c)(5 := iter)"
proof -
  obtain c where c: "asc_addAccount 5 100 (asc_new example_options smap_empty smap_empty) = Inr c" "asc_inv c"
      "asc_states c 5 \<noteq> None"
    using asc_addAccount_ok [of "asc_new example_options smap_empty smap_empty" 5 100] by auto
  from account_find_optimizes [OF c(2), of 5] c(1,3) show ?thesis by (auto split: option.splits)
qed

lemma asc_new_keys [simp]:
  "asc_keys (asc_new options states smap_empty) = Map.empty" "m_options (asc_new options states keys) = options"
  "bsd_first_seen (m_pKeyToAddress (asc_new options states smap_empty)) key = None"
  "CurrencyMosaicId example_options = 7"
  by (simp_all add: asc_new_def asc_keys_def bsd_first_seen_def bsd_new_def bsd_view_def example_options_def fun_eq_iff)

lemma asc_find_key_Some:
  assumes "asc_inv c" "asc_keys c key = Some address"
  shows "asc_find_key key c = asc_find address c" "asc_find_key_const c key = asc_states c address"
  using assms bsd_find_const_view [OF asc_invD(2) [OF assms(1)]] bsd_find_const_view [OF asc_invD(1) [OF assms(1)]]
  by (simp_all add: asc_find_key_def asc_find_key_const_def asc_find_const_def asc_keys_def asc_states_def)

lemma asc_remove_key_linked:
  assumes "asc_inv c" "asc_keys c key = Some address" "asc_states c address = Some a" "PublicKey a = key"
    "PublicKeyHeight a = height" "AddressHeight a = height"
  shows "\<exists>c'. asc_remove_key Mode_Linked key height c = Inr c' \<and> asc_states c' = (asc_states c)(address := None)
    \<and> asc_keys c' = (asc_keys c)(key := None)"
proof -
  let ?o = "optimized (asc_currency c) a"
  define c1 where "c1 = c\<lparr>m_pStateByAddress := bsd_store address ?o (snd (bsd_find MutableTypeTag (m_pStateByAddress c) address))\<rparr>"
  have o: "as_Address ?o = address" "ab_inv (Balances ?o)" "as_Address a = address"
    using asc_invD(3,4) [OF assms(1,3)] optimized_balances(2) by simp_all
  have c1: "asc_inv c1" "asc_states c1 = (asc_states c)(address \<mapsto> ?o)" "asc_keys c1 = asc_keys c"
    using asc_found(1-3) [OF assms(1,3) o(1,2)] by (simp_all add: c1_def)
  let ?c2 = "c1\<lparr>m_pKeyToAddress := snd (bsd_remove ImmutableTypeTag key (m_pKeyToAddress c1)),
      m_pStateByAddress := snd (bsd_remove MutableTypeTag address (m_pStateByAddress c1))\<rparr>"
  have "asc_remove_key Mode_Linked key height c = Inr ?c2"
    using asc_find_Some [OF assms(1,3)] asc_find_key_Some(1) [OF assms(1,2)] assms(4-6) o(3) unfolding c1_def [symmetric]
    by (simp add: asc_remove_key_def Let_def)
  moreover have "asc_states ?c2 = (asc_states c)(address := None)"
    using c1(2) asc_invD(1) [OF c1(1)] by (simp add: asc_states_def bsd_remove_view)
  moreover have "asc_keys ?c2 = (asc_keys c)(key := None)"
    using c1(3) asc_invD(2) [OF c1(1)] by (simp add: asc_keys_def bsd_remove_view)
  ultimately show ?thesis by blast
qed

lemma asc_getAddress_new:
  assumes "asc_inv c" "asc_keys c key = None"
    "bsd_first_seen (m_pKeyToAddress c) key \<in> {None, Some (pka key (NetworkIdentifier (m_options c)))}"
  shows "\<exists>c'. asc_getAddress pka key c = (pka key (NetworkIdentifier (m_options c)), c') \<and> asc_inv c'
    \<and> asc_states c' = asc_states c \<and> asc_keys c' = (asc_keys c)(key \<mapsto> pka key (NetworkIdentifier (m_options c)))
    \<and> m_options c' = m_options c \<and> m_queuedRemoveByAddress c' = m_queuedRemoveByAddress c
    \<and> m_queuedRemoveByPublicKey c' = m_queuedRemoveByPublicKey c"
  using assms bsd_find_const_view [OF asc_invD(2) [OF assms(1)], of key]
    bsd_insert_immutable_view [OF asc_invD(2) [OF assms(1)], of key]
    bsd_insert_inv [OF asc_invD(2) [OF assms(1)], of key]
  by (auto simp: asc_getAddress_def asc_keys_def asc_inv_def asc_states_def Let_def)

text \<open>
  Adding an account by its public key. When neither the key nor its address is known, and the
  delta has not seen the key with another address before, the account is added with the key and can
  be found by it; queueing the removal of the key for the same height and committing gives back the
  accounts and the known keys.
\<close>

theorem account_key_removal_undoes_addition:
  assumes "asc_inv c" "asc_keys c key = None" "height \<noteq> 0"
    "asc_states c (PublicKeyToAddress key (NetworkIdentifier (m_options c))) = None"
    "bsd_first_seen (m_pKeyToAddress c) key \<in> {None, Some (PublicKeyToAddress key (NetworkIdentifier (m_options c)))}"
    "m_queuedRemoveByAddress c = smap_empty" "m_queuedRemoveByPublicKey c = smap_empty"
  shows "\<exists>c1 a c2. asc_addAccount_key PublicKeyToAddress key height c = Inr c1
    \<and> asc_find_key_const c1 key = Some a \<and> PublicKey a = key \<and> PublicKeyHeight a = height
    \<and> asc_commitRemovals Mode_Linked (asc_queueRemove_key key height c1) = Inr c2
    \<and> asc_states c2 = asc_states c \<and> asc_keys c2 = asc_keys c"
proof -
  let ?k = "PublicKeyToAddress key (NetworkIdentifier (m_options c))"
  obtain c0 where c0: "asc_getAddress PublicKeyToAddress key c = (?k, c0)" "asc_inv c0" "asc_states c0 = asc_states c"
      "asc_keys c0 = (asc_keys c)(key \<mapsto> ?k)" "m_queuedRemoveByAddress c0 = smap_empty" "m_queuedRemoveByPublicKey c0 = smap_empty"
    using asc_getAddress_new [where pka = PublicKeyToAddress, OF assms(1,2,5)] assms(6,7) by auto
  let ?new = "optimized (asc_currency c0) (new_AccountState ?k height)"
  obtain c1 where c1: "asc_addAccount ?k height c0 = Inr c1" "asc_inv c1" "asc_states c1 = (asc_states c)(?k \<mapsto> ?new)"
      "asc_keys c1 = asc_keys c0" "m_queuedRemoveByAddress c1 = smap_empty" "m_queuedRemoveByPublicKey c1 = smap_empty"
    using asc_addAccount_ok [OF c0(2), of ?k height] c0(3,5,6) assms(4) by (auto simp: asc_keys_def)
  have get: "asc_states c1 ?k = Some ?new" by (simp add: c1(3))
  let ?o = "optimized (asc_currency c1) ?new"
  define a where "a = ?o\<lparr>PublicKey := key, PublicKeyHeight := height\<rparr>"
  have inv: "ab_inv (Balances ?o)" using optimized_balances(2) new_AccountState_facts(4) by blast
  then have a: "as_Address a = ?k" "ab_inv (Balances a)" "PublicKey a = key" "PublicKeyHeight a = height" "AddressHeight a = height"
    by (simp_all add: a_def)
  let ?st = "c1\<lparr>m_pStateByAddress := bsd_store ?k ?o (snd (bsd_find MutableTypeTag (m_pStateByAddress c1) ?k))\<rparr>"
  let ?c2 = "c1\<lparr>m_pStateByAddress := bsd_store ?k a (snd (bsd_find MutableTypeTag (m_pStateByAddress c1) ?k))\<rparr>"
  have "asc_find_const c1 ?k = Some ?new"
    using bsd_find_const_view [OF asc_invD(1) [OF c1(2)]] get by (simp add: asc_find_const_def asc_states_def)
  moreover have "asc_get ?k c1 = Inr (?o, ?st)"
    by (simp add: asc_get_def asc_find_Some [OF c1(2) get] CacheFindIterator_get_def)
  moreover have "asc_store a ?st = ?c2" by (simp add: asc_store_def a(1) bsd_store_store)
  ultimately have add: "asc_addAccount_key PublicKeyToAddress key height c = Inr ?c2"
    using c0(1) c1(1) by (simp add: asc_addAccount_key_def CacheFindIterator_get_def a_def [symmetric])
  note c2 = asc_found(1-3) [OF c1(2) get a(1,2)]
  let ?q = "asc_queueRemove_key key height ?c2"
  have q: "asc_inv ?q" "asc_keys ?q key = Some ?k" "asc_states ?q ?k = Some a" "asc_states ?q = asc_states ?c2"
      "asc_keys ?q = asc_keys c0" "m_queuedRemoveByAddress ?q = []" "m_queuedRemoveByPublicKey ?q = [((height, key), ())]"
    using c2 c0(4) c1(4-6) by (simp_all add: asc_queueRemove_key_def asc_inv_def asc_states_def asc_keys_def smap_singleton smap_empty_def)
      (simp_all add: smap_insert_def smap_contains_def)
  obtain c3 where "asc_remove_key Mode_Linked key height ?q = Inr c3" "asc_states c3 = (asc_states ?q)(?k := None)"
      "asc_keys c3 = (asc_keys ?q)(key := None)"
    using asc_remove_key_linked [OF q(1,2,3) a(3,4,5)] by blast
  then have "asc_commitRemovals Mode_Linked ?q = Inr (c3\<lparr>m_queuedRemoveByAddress := smap_empty, m_queuedRemoveByPublicKey := smap_empty\<rparr>)"
      "asc_states c3 = asc_states c" "asc_keys c3 = asc_keys c"
    using q(4-7) c2(2) c1(3) c0(4) assms(2,4) by (auto simp: asc_commitRemovals_def fun_eq_iff)
  moreover have "asc_find_key_const ?c2 key = Some a"
    using asc_find_key_Some(2) [OF c2(1), of key ?k] c2(2,3) c1(4) c0(4) by simp
  ultimately show ?thesis using add a(3,4) by (auto simp: asc_states_def asc_keys_def)
qed

theorem account_key_removal_undoes_addition_witness:
  "\<exists>c1 a c2. asc_addAccount_key (\<lambda>key net. 9) 6 100 (asc_new example_options smap_empty smap_empty) = Inr c1
    \<and> asc_find_key_const c1 6 = Some a \<and> PublicKey a = 6 \<and> PublicKeyHeight a = 100
    \<and> asc_commitRemovals Mode_Linked (asc_queueRemove_key 6 100 c1) = Inr c2
    \<and> asc_states c2 = asc_states (asc_new example_options smap_empty smap_empty)
    \<and> asc_keys c2 = asc_keys (asc_new example_options smap_empty smap_empty)"
  by (rule account_key_removal_undoes_addition) simp_all

text \<open>
  The account that a call for an address forwards to, with its key and state in the cache: the account itself
  unless it is remote, and otherwise the main account that is known by the linked key of the remote account,
  if the two are linked to each other.
\<close>

definition forwards_to :: "AccountStateCacheDelta \<Rightarrow> Address \<Rightarrow> Address \<Rightarrow> AccountState \<Rightarrow> bool" where
  "forwards_to c address k b \<longleftrightarrow> asc_states c k = Some b \<and> (\<exists>a. asc_states c address = Some a
     \<and> (if as_AccountType a = Remote
        then asc_keys c (GetLinkedPublicKey a) = Some k \<and> as_AccountType b = Main
          \<and> GetLinkedPublicKey b = PublicKey a \<and> GetLinkedPublicKey a = PublicKey b
        else k = address))"

lemma RequireLinked_iff:
  "RequireLinkedRemoteAndMainAccounts a b = Inr () \<longleftrightarrow> as_AccountType a = Remote \<and> as_AccountType b = Main
     \<and> GetLinkedPublicKey b = PublicKey a \<and> GetLinkedPublicKey a = PublicKey b"
  by (auto simp: RequireLinkedRemoteAndMainAccounts_def RequireAccountType_def AreLinked_def)

lemma GetLinkedPublicKey_optimized [simp]: "GetLinkedPublicKey (optimized cur a) = GetLinkedPublicKey a"
  by (simp add: GetLinkedPublicKey_def)

lemma asc_get_key_ok:
  assumes "asc_inv c"
  shows "asc_keys c key = None \<Longrightarrow> asc_get_key key c = Inl Invalid_Argument"
    and "asc_keys c key = Some k \<Longrightarrow> asc_get_key key c = asc_get k c"
  using asc_find_key_Some(1) [OF assms, of key k] bsd_find_const_view [OF asc_invD(2) [OF assms], of key]
  by (simp_all add: asc_get_key_def asc_get_def asc_find_key_def PrepareMutableIterator_def CacheFindIterator_get_def asc_keys_def)

text \<open>What forwarding does once its target is known: the look up of the address, and a change of the target.\<close>

lemma forwarded_run:
  assumes "asc_inv c" "asc_states c address = Some a" "forwards_to c address k b"
  shows "\<exists>c2. ProcessForwardedAccountState address action s c
      = rbind (action (optimized (asc_currency c) b) s) (\<lambda>(t, s). Inr (s, asc_store t c2))
    \<and> (\<forall>t. asc_keys (asc_store t c2) = asc_keys c)
    \<and> (\<forall>t. as_Address t = k \<and> ab_inv (Balances t) \<longrightarrow> asc_inv (asc_store t c2)
        \<and> asc_states (asc_store t c2) = (asc_states c)(address \<mapsto> optimized (asc_currency c) a, k \<mapsto> t))"
proof -
  have keys: "asc_keys (asc_store t c) = asc_keys c" for t c by (simp add: asc_store_def asc_keys_def)
  have b: "asc_states c k = Some b" using assms(3) by (simp add: forwards_to_def)
  let ?o = "optimized (asc_currency c) a"
  obtain c1 where c1: "asc_get address c = Inr (?o, c1)" "asc_inv c1" "asc_states c1 = (asc_states c)(address \<mapsto> ?o)"
      "asc_keys c1 = asc_keys c" "m_options c1 = m_options c"
      "\<And>t. as_Address t = address \<and> ab_inv (Balances t) \<Longrightarrow> asc_inv (asc_store t c1) \<and> asc_states (asc_store t c1) = (asc_states c)(address \<mapsto> t)"
    using asc_get_ok [OF assms(1,2)] by blast
  show ?thesis
  proof (cases "as_AccountType a = Remote")
    case False
    with assms(2,3) b have "k = address" "b = a" by (auto simp: forwards_to_def)
    with False c1 keys show ?thesis by (intro exI [of _ c1]) (simp add: ProcessForwardedAccountState_def)
  next
    case True
    with assms(2,3) have l: "asc_keys c1 (GetLinkedPublicKey a) = Some k" "as_AccountType b = Main"
        "GetLinkedPublicKey b = PublicKey a" "GetLinkedPublicKey a = PublicKey b"
      by (auto simp: forwards_to_def c1(4))
    have "k \<noteq> address" using l(2) b True assms(2) by auto
    then have "asc_states c1 k = Some b" by (simp add: c1(3) b)
    from asc_get_ok [OF c1(2) this] obtain c2 where c2: "asc_get k c1 = Inr (optimized (asc_currency c) b, c2)" "asc_keys c2 = asc_keys c1"
        "\<And>t. as_Address t = k \<and> ab_inv (Balances t) \<Longrightarrow> asc_inv (asc_store t c2) \<and> asc_states (asc_store t c2) = (asc_states c1)(k \<mapsto> t)"
      by (auto simp: c1(5))
    have "RequireLinkedRemoteAndMainAccounts ?o (optimized (asc_currency c) b) = Inr ()"
      using True l by (simp add: RequireLinked_iff)
    with True c1(1,3,4) c2 keys asc_get_key_ok(2) [OF c1(2) l(1)] show ?thesis
      by (intro exI [of _ c2]) (simp add: ProcessForwardedAccountState_def)
  qed
qed

text \<open>The call only returns when there is a target.\<close>

lemma forwarded_target:
  assumes "asc_inv c" "ProcessForwardedAccountState address action s c = Inr r"
  shows "\<exists>k b. forwards_to c address k b"
proof -
  obtain a where a: "asc_states c address = Some a"
    using assms asc.get_throws by (cases "asc_states c address") (auto simp: ProcessForwardedAccountState_def)
  let ?o = "optimized (asc_currency c) a"
  obtain c1 where c1: "asc_get address c = Inr (?o, c1)" "asc_inv c1" "asc_states c1 = (asc_states c)(address \<mapsto> ?o)" "asc_keys c1 = asc_keys c"
    using asc_get_ok [OF assms(1) a] by blast
  show ?thesis
  proof (cases "as_AccountType a = Remote")
    case True
    then obtain l c2 where l: "asc_get_key (GetLinkedPublicKey a) c1 = Inr (l, c2)" "RequireLinkedRemoteAndMainAccounts ?o l = Inr ()"
      using assms(2) c1(1) by (auto simp: ProcessForwardedAccountState_def rbind_Inr_iff)
    obtain k where k: "asc_keys c1 (GetLinkedPublicKey a) = Some k"
      using l(1) asc_get_key_ok(1) [OF c1(2)] by (cases "asc_keys c1 (GetLinkedPublicKey a)") auto
    have get: "asc_get k c1 = Inr (l, c2)" using l(1) asc_get_key_ok(2) [OF c1(2) k] by simp
    then obtain b where b: "asc_states c1 k = Some b" using asc.get_throws [OF c1(2)] by (cases "asc_states c1 k") auto
    have "l = optimized (asc_currency c1) b" using asc_get_ok [OF c1(2) b] get by auto
    with l(2) have linked: "as_AccountType b = Main" "GetLinkedPublicKey b = PublicKey a" "GetLinkedPublicKey a = PublicKey b"
      by (auto simp: RequireLinked_iff)
    then have "asc_states c k = Some b" using b True by (auto simp: c1(3) split: if_splits)
    with linked k a True c1(4) have "forwards_to c address k b" by (auto simp: forwards_to_def)
    then show ?thesis by blast
  qed (use a in \<open>auto simp: forwards_to_def\<close>)
qed

text \<open>
  C36. Forwarding to a linked account. The call returns exactly when the address has an account, that account or, if it is
  remote, the main account stored under its linked key is the target, the two are then linked to each other by both
  public keys, and the action succeeds on the stored target (with its balances optimized for the currency mosaic, the amounts
  unchanged). Afterwards, for an action that keeps the address and the balances well formed, the cache holds the changed
  target at the address of the target; the account of the call is otherwise only optimized, and no other account and no
  known key is changed.
\<close>

theorem forwarded_account_is_linked:
  assumes "asc_inv c"
  shows "(\<forall>s' c'. ProcessForwardedAccountState address action s c = Inr (s', c') \<longrightarrow>
      (\<exists>a k b t. asc_states c address = Some a \<and> forwards_to c address k b \<and> action (optimized (asc_currency c) b) s = Inr (t, s')
        \<and> ab_get (Balances (optimized (asc_currency c) b)) = ab_get (Balances b) \<and> asc_keys c' = asc_keys c
        \<and> (as_Address t = k \<and> ab_inv (Balances t) \<longrightarrow> asc_inv c'
            \<and> asc_states c' = (asc_states c)(address \<mapsto> optimized (asc_currency c) a, k \<mapsto> t))))
    \<and> (\<forall>k b t s'. forwards_to c address k b \<and> action (optimized (asc_currency c) b) s = Inr (t, s')
        \<longrightarrow> (\<exists>c'. ProcessForwardedAccountState address action s c = Inr (s', c')))"
proof (intro conjI allI impI)
  fix s' c'
  assume run: "ProcessForwardedAccountState address action s c = Inr (s', c')"
  obtain k b where f: "forwards_to c address k b" using forwarded_target [OF assms run] by blast
  then obtain a where a: "asc_states c address = Some a" and b: "asc_states c k = Some b" by (auto simp: forwards_to_def)
  obtain c2 where c2: "ProcessForwardedAccountState address action s c
        = rbind (action (optimized (asc_currency c) b) s) (\<lambda>(t, s). Inr (s, asc_store t c2))"
      "\<forall>t. asc_keys (asc_store t c2) = asc_keys c"
      "\<forall>t. as_Address t = k \<and> ab_inv (Balances t) \<longrightarrow> asc_inv (asc_store t c2)
        \<and> asc_states (asc_store t c2) = (asc_states c)(address \<mapsto> optimized (asc_currency c) a, k \<mapsto> t)"
    using forwarded_run [OF assms a f, of action s] by blast
  obtain t where "action (optimized (asc_currency c) b) s = Inr (t, s')" "c' = asc_store t c2"
    using run unfolding c2(1) rbind_Inr_iff by auto
  with a f c2(2,3) optimized_balances(3) [OF asc_invD(4) [OF assms b]]
  show "\<exists>a k b t. asc_states c address = Some a \<and> forwards_to c address k b \<and> action (optimized (asc_currency c) b) s = Inr (t, s')
        \<and> ab_get (Balances (optimized (asc_currency c) b)) = ab_get (Balances b) \<and> asc_keys c' = asc_keys c
        \<and> (as_Address t = k \<and> ab_inv (Balances t) \<longrightarrow> asc_inv c'
            \<and> asc_states c' = (asc_states c)(address \<mapsto> optimized (asc_currency c) a, k \<mapsto> t))" by blast
next
  fix k b t s'
  assume f: "forwards_to c address k b \<and> action (optimized (asc_currency c) b) s = Inr (t, s')"
  then obtain a where "asc_states c address = Some a" by (auto simp: forwards_to_def)
  from forwarded_run [OF assms this, of k b action s] f show "\<exists>c'. ProcessForwardedAccountState address action s c = Inr (s', c')" by auto
qed

text \<open>A remote account with the key 50 at the address 5 and its main account with the key 60 at the address 6.\<close>

definition example_remote :: AccountState where
  "example_remote = (new_AccountState 5 100)\<lparr>PublicKey := 50, PublicKeyHeight := 100, as_AccountType := Remote,
     SupplementalPublicKeys := apk_new\<lparr>linked := Some 60\<rparr>\<rparr>"

definition example_main :: AccountState where
  "example_main = (new_AccountState 6 90)\<lparr>PublicKey := 60, PublicKeyHeight := 90, as_AccountType := Main,
     SupplementalPublicKeys := apk_new\<lparr>linked := Some 50\<rparr>\<rparr>"

definition example_linked :: AccountStateCacheDelta where
  "example_linked = asc_new example_options [(5, example_remote), (6, example_main)] [(50, 5), (60, 6)]"

lemma example_linked_facts:
  "asc_inv example_linked" "asc_states example_linked = [5 \<mapsto> example_remote, 6 \<mapsto> example_main]"
  "asc_keys example_linked = [50 \<mapsto> 5, 60 \<mapsto> 6]" "asc_currency example_linked = 7"
proof -
  show states: "asc_states example_linked = [5 \<mapsto> example_remote, 6 \<mapsto> example_main]"
    by (auto simp: example_linked_def asc_new_def asc_states_def smap_find_def fun_eq_iff)
  show "asc_keys example_linked = [50 \<mapsto> 5, 60 \<mapsto> 6]"
    by (auto simp: example_linked_def asc_new_def asc_keys_def smap_find_def fun_eq_iff)
  show "asc_currency example_linked = 7" by (simp add: example_linked_def)
  have "bsd_inv MutableTypeTag (m_pStateByAddress example_linked)" "bsd_inv ImmutableTypeTag (m_pKeyToAddress example_linked)"
    by (simp_all add: example_linked_def asc_new_def bsd_inv_new)
  then show "asc_inv example_linked"
    by (auto simp: asc_inv_def states example_remote_def example_main_def split: if_splits)
qed

lemma example_forwards: "forwards_to example_linked 5 6 example_main"
  by (simp add: forwards_to_def example_linked_facts example_remote_def example_main_def GetLinkedPublicKey_def pka_get_def)

theorem forwarded_account_is_linked_witness:
  "\<exists>c'. ProcessForwardedAccountState 5 (\<lambda>a s. Inr (a\<lparr>AddressHeight := 91\<rparr>, s + 1)) (0 :: nat) example_linked = Inr (1, c')
    \<and> asc_states c' = [5 \<mapsto> optimized 7 example_remote, 6 \<mapsto> (optimized 7 example_main)\<lparr>AddressHeight := 91\<rparr>]
    \<and> asc_keys c' = [50 \<mapsto> 5, 60 \<mapsto> 6]"
proof -
  let ?act = "\<lambda>a s :: nat. (Inr (a\<lparr>AddressHeight := 91\<rparr>, s + 1) :: exn + AccountState \<times> nat)"
  note ok = forwarded_account_is_linked [OF example_linked_facts(1), of 5 ?act 0]
  obtain c' where c': "ProcessForwardedAccountState 5 ?act 0 example_linked = Inr (1, c')"
    using ok example_forwards by auto
  have unique: "k = 6 \<and> b = example_main" if "forwards_to example_linked 5 k b" for k b
    using that by (auto simp: forwards_to_def example_linked_facts example_remote_def GetLinkedPublicKey_def pka_get_def split: if_splits)
  have main: "as_Address example_main = 6" "ab_inv (Balances (optimized 7 example_main))"
    using optimized_balances(2) [of example_main 7] by (simp_all add: example_main_def)
  obtain a k b t where r: "asc_states example_linked 5 = Some a" "forwards_to example_linked 5 k b"
      "?act (optimized 7 b) 0 = Inr (t, 1)" "asc_keys c' = asc_keys example_linked"
      "as_Address t = k \<and> ab_inv (Balances t) \<longrightarrow> asc_states c' = (asc_states example_linked)(5 \<mapsto> optimized 7 a, k \<mapsto> t)"
    using ok c' unfolding example_linked_facts(4) by blast
  then have "a = example_remote" "t = (optimized 7 example_main)\<lparr>AddressHeight := 91\<rparr>" "k = 6"
    using unique [OF r(2)] by (auto simp: example_linked_facts)
  with r(4,5) main c' show ?thesis by (auto simp: example_linked_facts fun_eq_iff)
qed

end
