(* ===== verification/Statements.thy ===== *)
theory Statements
  imports StlMap
begin

section \<open>Receipts and block statements (catapult/model)\<close>

text \<open>
  Observers record what they did in receipts. A builder collects them per source, a pair of the index
  of a transaction in its block and the index inside an aggregate, together with the alias resolutions
  that were made on the way. While a block is harvested the builder also has to forget the last
  transaction again (\<open>popSource\<close>). A receipt is one of the packed structures of Receipt.h; the
  type, the common header field, decides its place in a statement.
\<close>

subsection \<open>Receipts\<close>

datatype BasicReceiptType =
  Basic_Other | Basic_BalanceTransfer | Basic_BalanceCredit | Basic_BalanceDebit | Basic_ArtifactExpiry | Basic_Inflation
| Basic_Aggregate | Basic_AliasResolution

fun basic_receipt_code :: "BasicReceiptType \<Rightarrow> uint8" where
  "basic_receipt_code Basic_Other = 0x0"
| "basic_receipt_code Basic_BalanceTransfer = 0x1"
| "basic_receipt_code Basic_BalanceCredit = 0x2"
| "basic_receipt_code Basic_BalanceDebit = 0x3"
| "basic_receipt_code Basic_ArtifactExpiry = 0x4"
| "basic_receipt_code Basic_Inflation = 0x5"
| "basic_receipt_code Basic_Aggregate = 0xE"
| "basic_receipt_code Basic_AliasResolution = 0xF"

datatype FacilityCode =
  Facility_AccountLink | Facility_Aggregate | Facility_Core | Facility_LockHash | Facility_LockSecret | Facility_Metadata
| Facility_Mosaic | Facility_Multisig | Facility_Namespace | Facility_RestrictionAccount | Facility_RestrictionMosaic
| Facility_Transfer

fun facility_code :: "FacilityCode \<Rightarrow> uint8" where
  "facility_code Facility_AccountLink = 0x4C"
| "facility_code Facility_Aggregate = 0x41"
| "facility_code Facility_Core = 0x43"
| "facility_code Facility_LockHash = 0x48"
| "facility_code Facility_LockSecret = 0x52"
| "facility_code Facility_Metadata = 0x44"
| "facility_code Facility_Mosaic = 0x4D"
| "facility_code Facility_Multisig = 0x55"
| "facility_code Facility_Namespace = 0x4E"
| "facility_code Facility_RestrictionAccount = 0x50"
| "facility_code Facility_RestrictionMosaic = 0x51"
| "facility_code Facility_Transfer = 0x54"

type_synonym ReceiptType = uint16

unbundle bit_operations_syntax

definition MakeReceiptType :: "BasicReceiptType \<Rightarrow> FacilityCode \<Rightarrow> uint8 \<Rightarrow> ReceiptType" where
  "MakeReceiptType basicReceiptType facilityCode code =
     push_bit 12 (ucast (basic_receipt_code basicReceiptType AND 0x0F))
     OR push_bit 8 (ucast (code AND 0xF))
     OR ucast (facility_code facilityCode AND 0xFF)"

datatype Receipt =
  BalanceTransferReceipt (Receipt_Type: ReceiptType) (Receipt_MosaicId: MosaicId) (Receipt_Amount: Amount)
    (SenderAddress: Address) (ReceiptRecipientAddress: Address)
| BalanceChangeReceipt (Receipt_Type: ReceiptType) (Receipt_MosaicId: MosaicId) (Receipt_Amount: Amount)
    (TargetAddress: Address)
| InflationReceipt (Receipt_Type: ReceiptType) (Receipt_MosaicId: MosaicId) (Receipt_Amount: Amount)
| ArtifactExpiryReceipt (Receipt_Type: ReceiptType) (ArtifactId: uint64)

text \<open>The memory of a receipt: packed, integers little endian, addresses as byte arrays.\<close>

fun receipt_bytes :: "Receipt \<Rightarrow> uint8 list" where
  "receipt_bytes (BalanceTransferReceipt receiptType mosaicId amount sender recipient) =
     bytes_le 4 (72 :: uint32) @ bytes_le 2 (1 :: uint16) @ bytes_le 2 receiptType
     @ bytes_le 8 mosaicId @ bytes_le 8 amount @ array_bytes 24 sender @ array_bytes 24 recipient"
| "receipt_bytes (BalanceChangeReceipt receiptType mosaicId amount target) =
     bytes_le 4 (48 :: uint32) @ bytes_le 2 (1 :: uint16) @ bytes_le 2 receiptType
     @ bytes_le 8 mosaicId @ bytes_le 8 amount @ array_bytes 24 target"
| "receipt_bytes (InflationReceipt receiptType mosaicId amount) =
     bytes_le 4 (24 :: uint32) @ bytes_le 2 (1 :: uint16) @ bytes_le 2 receiptType
     @ bytes_le 8 mosaicId @ bytes_le 8 amount"
| "receipt_bytes (ArtifactExpiryReceipt receiptType artifactId) =
     bytes_le 4 (16 :: uint32) @ bytes_le 2 (1 :: uint16) @ bytes_le 2 receiptType @ bytes_le 8 artifactId"

subsection \<open>Sources\<close>

datatype ReceiptSource = ReceiptSource (PrimaryId: uint32) (SecondaryId: uint32)

definition source_less :: "ReceiptSource \<Rightarrow> ReceiptSource \<Rightarrow> bool" where
  "source_less s rhs \<longleftrightarrow>
     PrimaryId s < PrimaryId rhs \<or> (PrimaryId s = PrimaryId rhs \<and> SecondaryId s < SecondaryId rhs)"

instantiation ReceiptSource :: linorder
begin

definition less_ReceiptSource :: "ReceiptSource \<Rightarrow> ReceiptSource \<Rightarrow> bool" where
  "less_ReceiptSource = source_less"

definition less_eq_ReceiptSource :: "ReceiptSource \<Rightarrow> ReceiptSource \<Rightarrow> bool" where
  "less_eq_ReceiptSource s rhs \<longleftrightarrow> s < rhs \<or> s = rhs"

instance
proof
  fix x y z :: ReceiptSource
  show "x < y \<longleftrightarrow> x \<le> y \<and> \<not> y \<le> x" "x \<le> x" "x \<le> y \<Longrightarrow> y \<le> z \<Longrightarrow> x \<le> z" "x \<le> y \<or> y \<le> x"
    by (cases x; cases y; cases z; auto simp: source_less_def less_ReceiptSource_def less_eq_ReceiptSource_def)+
  show "x \<le> y \<Longrightarrow> y \<le> x \<Longrightarrow> x = y"
    by (cases x; cases y) (auto simp: source_less_def less_ReceiptSource_def less_eq_ReceiptSource_def)
qed

end

lemma PrimaryId_mono: "s \<le> s' \<Longrightarrow> PrimaryId s \<le> PrimaryId s'"
  by (auto simp: source_less_def less_ReceiptSource_def less_eq_ReceiptSource_def)

subsection \<open>Statements\<close>

record TransactionStatement =
  ts_source :: ReceiptSource
  ts_receipts :: "Receipt list"

definition new_TransactionStatement :: "ReceiptSource \<Rightarrow> TransactionStatement" where
  "new_TransactionStatement source = \<lparr>ts_source = source, ts_receipts = []\<rparr>"

definition ts_addReceipt :: "Receipt \<Rightarrow> TransactionStatement \<Rightarrow> TransactionStatement" where
  "ts_addReceipt receipt st =
     (let greater = (\<lambda>pReceipt. Receipt_Type pReceipt > Receipt_Type receipt)
      in st\<lparr>ts_receipts := takeWhile (\<lambda>r. \<not> greater r) (ts_receipts st) @ [receipt]
                          @ dropWhile (\<lambda>r. \<not> greater r) (ts_receipts st)\<rparr>)"

record ('u, 'r) ResolutionStatement =
  rs_unresolved :: 'u
  rs_entries :: "(ReceiptSource \<times> 'r) list"

definition new_ResolutionStatement :: "'u \<Rightarrow> ('u, 'r) ResolutionStatement" where
  "new_ResolutionStatement unresolved = \<lparr>rs_unresolved = unresolved, rs_entries = []\<rparr>"

definition rs_size :: "('u, 'r) ResolutionStatement \<Rightarrow> nat" where
  "rs_size st = length (rs_entries st)"

definition rs_addResolution ::
  "'r \<Rightarrow> ReceiptSource \<Rightarrow> ('u, 'r) ResolutionStatement \<Rightarrow> exn + ('u, 'r) ResolutionStatement" where
  "rs_addResolution resolved source st =
     (if rs_entries st \<noteq> [] \<and> source < fst (last (rs_entries st)) then Inl Invalid_Argument
      else if rs_entries st \<noteq> [] \<and> resolved = snd (last (rs_entries st)) then Inr st
      else Inr (st\<lparr>rs_entries := rs_entries st @ [(source, resolved)]\<rparr>))"

type_synonym UnresolvedAddress = Address
type_synonym UnresolvedMosaicId = uint64

record BlockStatement =
  TransactionStatements :: "(ReceiptSource, TransactionStatement) smap"
  AddressResolutionStatements :: "(UnresolvedAddress, (UnresolvedAddress, Address) ResolutionStatement) smap"
  MosaicResolutionStatements :: "(UnresolvedMosaicId, (UnresolvedMosaicId, MosaicId) ResolutionStatement) smap"

definition new_BlockStatement :: BlockStatement where
  "new_BlockStatement =
     \<lparr>TransactionStatements = smap_empty, AddressResolutionStatements = smap_empty, MosaicResolutionStatements = smap_empty\<rparr>"

definition CountTotalStatements :: "BlockStatement \<Rightarrow> nat" where
  "CountTotalStatements st =
     smap_size (TransactionStatements st) + smap_size (AddressResolutionStatements st)
     + smap_size (MosaicResolutionStatements st)"

definition CopyTransactionStatements ::
  "(ReceiptSource, TransactionStatement) smap \<Rightarrow> (ReceiptSource, TransactionStatement) smap \<Rightarrow> uint32
     \<Rightarrow> (ReceiptSource, TransactionStatement) smap" where
  "CopyTransactionStatements destination source maxSourcePrimaryId =
     fold (\<lambda>(key, value) destination.
             if PrimaryId key > maxSourcePrimaryId then destination
             else smap_insert key (fold ts_addReceipt (ts_receipts value) (new_TransactionStatement key)) destination)
       source destination"

definition CopyResolutionStatements ::
  "('u::linorder, ('u, 'r) ResolutionStatement) smap \<Rightarrow> ('u, ('u, 'r) ResolutionStatement) smap \<Rightarrow> uint32
     \<Rightarrow> exn + ('u, ('u, 'r) ResolutionStatement) smap" where
  "CopyResolutionStatements destination source maxSourcePrimaryId =
     rfold (\<lambda>(key, value) destination.
              rbind (rfold (\<lambda>(entrySource, resolvedValue) st.
                              if PrimaryId entrySource > maxSourcePrimaryId then Inr st
                              else rs_addResolution resolvedValue entrySource st)
                       (rs_entries value) (new_ResolutionStatement key))
                (\<lambda>st. if 0 = rs_size st then Inr destination else Inr (smap_insert key st destination)))
       source destination"

definition DeepCopyTo :: "BlockStatement \<Rightarrow> BlockStatement \<Rightarrow> uint32 \<Rightarrow> exn + BlockStatement" where
  "DeepCopyTo destination source maxSourcePrimaryId =
     rbind (CopyResolutionStatements (AddressResolutionStatements destination) (AddressResolutionStatements source) maxSourcePrimaryId)
       (\<lambda>addresses.
     rbind (CopyResolutionStatements (MosaicResolutionStatements destination) (MosaicResolutionStatements source) maxSourcePrimaryId)
       (\<lambda>mosaics.
     Inr \<lparr>TransactionStatements =
            CopyTransactionStatements (TransactionStatements destination) (TransactionStatements source) maxSourcePrimaryId,
          AddressResolutionStatements = addresses, MosaicResolutionStatements = mosaics\<rparr>))"

subsection \<open>The builder\<close>

record BlockStatementBuilder =
  m_activeSource :: ReceiptSource
  m_pStatement :: BlockStatement

definition new_BlockStatementBuilder :: BlockStatementBuilder where
  "new_BlockStatementBuilder = \<lparr>m_activeSource = ReceiptSource 0 0, m_pStatement = new_BlockStatement\<rparr>"

definition bsb_setSource :: "ReceiptSource \<Rightarrow> BlockStatementBuilder \<Rightarrow> BlockStatementBuilder" where
  "bsb_setSource source b = b\<lparr>m_activeSource := source\<rparr>"

definition bsb_popSource :: "BlockStatementBuilder \<Rightarrow> exn + BlockStatementBuilder" where
  "bsb_popSource b =
     (if 0 = PrimaryId (m_activeSource b) then Inr b
      else
        let b = bsb_setSource (ReceiptSource (PrimaryId (m_activeSource b) - 1) 0) b
        in rbind (DeepCopyTo new_BlockStatement (m_pStatement b) (PrimaryId (m_activeSource b))) (\<lambda>st.
           Inr (b\<lparr>m_pStatement := st\<rparr>)))"

definition bsb_addReceipt :: "Receipt \<Rightarrow> BlockStatementBuilder \<Rightarrow> BlockStatementBuilder" where
  "bsb_addReceipt receipt b =
     (let statements = TransactionStatements (m_pStatement b);
          statements = (case smap_find statements (m_activeSource b) of
              None \<Rightarrow> smap_insert (m_activeSource b) (ts_addReceipt receipt (new_TransactionStatement (m_activeSource b))) statements
            | Some st \<Rightarrow> smap_put (m_activeSource b) (ts_addReceipt receipt st) statements)
      in b\<lparr>m_pStatement := (m_pStatement b)\<lparr>TransactionStatements := statements\<rparr>\<rparr>)"

definition AddResolution ::
  "('u::linorder, ('u, 'r) ResolutionStatement) smap \<Rightarrow> ReceiptSource \<Rightarrow> 'u \<Rightarrow> 'r \<Rightarrow> exn + ('u, ('u, 'r) ResolutionStatement) smap" where
  "AddResolution statements source unresolved resolved =
     (case smap_find statements unresolved of
        None \<Rightarrow>
          rbind (rs_addResolution resolved source (new_ResolutionStatement unresolved)) (\<lambda>st.
            Inr (smap_insert unresolved st statements))
      | Some st \<Rightarrow> rbind (rs_addResolution resolved source st) (\<lambda>st. Inr (smap_put unresolved st statements)))"

definition bsb_addResolution_address ::
  "UnresolvedAddress \<Rightarrow> Address \<Rightarrow> BlockStatementBuilder \<Rightarrow> exn + BlockStatementBuilder" where
  "bsb_addResolution_address unresolved resolved b =
     rbind (AddResolution (AddressResolutionStatements (m_pStatement b)) (m_activeSource b) unresolved resolved) (\<lambda>statements.
       Inr (b\<lparr>m_pStatement := (m_pStatement b)\<lparr>AddressResolutionStatements := statements\<rparr>\<rparr>))"

definition bsb_addResolution_mosaic ::
  "UnresolvedMosaicId \<Rightarrow> MosaicId \<Rightarrow> BlockStatementBuilder \<Rightarrow> exn + BlockStatementBuilder" where
  "bsb_addResolution_mosaic unresolved resolved b =
     rbind (AddResolution (MosaicResolutionStatements (m_pStatement b)) (m_activeSource b) unresolved resolved) (\<lambda>statements.
       Inr (b\<lparr>m_pStatement := (m_pStatement b)\<lparr>MosaicResolutionStatements := statements\<rparr>\<rparr>))"

subsection \<open>Well-formed statements\<close>

text \<open>
  The invariant of a block statement: every statement is stored under its source or unresolved value,
  the receipts of a transaction are ordered by type, and the resolutions of a value are ordered by
  source, start somewhere and never repeat a value twice in a row.
\<close>

definition ts_wf :: "ReceiptSource \<Rightarrow> TransactionStatement \<Rightarrow> bool" where
  "ts_wf source st \<longleftrightarrow> ts_source st = source \<and> sorted (map Receipt_Type (ts_receipts st))"

definition entries_wf :: "(ReceiptSource \<times> 'r) list \<Rightarrow> bool" where
  "entries_wf es \<longleftrightarrow> sorted (map fst es) \<and> successively (\<lambda>a b. snd a \<noteq> snd b) es"

definition rs_wf :: "'u \<Rightarrow> ('u, 'r) ResolutionStatement \<Rightarrow> bool" where
  "rs_wf unresolved st \<longleftrightarrow> rs_unresolved st = unresolved \<and> rs_entries st \<noteq> [] \<and> entries_wf (rs_entries st)"

definition map_wf :: "('k::linorder \<Rightarrow> 'v \<Rightarrow> bool) \<Rightarrow> ('k, 'v) smap \<Rightarrow> bool" where
  "map_wf P m \<longleftrightarrow> smap_inv m \<and> (\<forall>(k, v) \<in> set m. P k v)"

definition bst_wf :: "BlockStatement \<Rightarrow> bool" where
  "bst_wf st \<longleftrightarrow> map_wf ts_wf (TransactionStatements st) \<and> map_wf rs_wf (AddressResolutionStatements st)
     \<and> map_wf rs_wf (MosaicResolutionStatements st)"

lemma map_wf_put: "map_wf P m \<Longrightarrow> P k v \<Longrightarrow> map_wf P (smap_put k v m)"
proof -
  assume m: "map_wf P m" and v: "P k v"
  have "smap_inv (smap_put k v m)" using m by (simp add: map_wf_def)
  moreover have "P k' v'" if "(k', v') \<in> set (smap_put k v m)" for k' v'
  proof -
    have "smap_find (smap_put k v m) k' = Some v'" using that smap_find_in_set [OF calculation] by blast
    then show ?thesis using m v by (auto simp: map_wf_def smap_find_in_set split: if_splits)
  qed
  ultimately show ?thesis by (auto simp: map_wf_def)
qed

lemma map_wf_find: "map_wf P m \<Longrightarrow> smap_find m k = Some v \<Longrightarrow> P k v"
  by (auto simp: map_wf_def smap_find_in_set)

subsection \<open>Copies keep the entries up to a source\<close>

lemma smap_insert_new: "smap_find m k = None \<Longrightarrow> smap_insert k v m = smap_put k v m"
  by (simp add: smap_insert_def smap_contains_def)

lemma smap_insert_end: "\<forall>k' \<in> fst ` set m. k' < k \<Longrightarrow> smap_insert k v m = m @ [(k, v)]"
proof -
  assume lt: "\<forall>k' \<in> fst ` set m. k' < k"
  have "smap_put k v m = m @ [(k, v)]" using lt by (induction m) auto
  moreover have "smap_find m k = None" using lt by (auto simp: smap_find_def map_of_eq_None_iff)
  ultimately show ?thesis by (simp add: smap_insert_new)
qed

lemma ts_addReceipt_end:
  "\<forall>r' \<in> set (ts_receipts st). Receipt_Type r' \<le> Receipt_Type r \<Longrightarrow>
     ts_addReceipt r st = st\<lparr>ts_receipts := ts_receipts st @ [r]\<rparr>"
  by (simp add: ts_addReceipt_def Let_def not_less takeWhile_eq_all_conv [THEN iffD2] dropWhile_eq_Nil_conv [THEN iffD2])

lemma copy_receipts:
  "sorted (map Receipt_Type (ts_receipts st @ rs)) \<Longrightarrow> fold ts_addReceipt rs st = st\<lparr>ts_receipts := ts_receipts st @ rs\<rparr>"
proof (induction rs arbitrary: st)
  case (Cons r rs)
  have "ts_addReceipt r st = st\<lparr>ts_receipts := ts_receipts st @ [r]\<rparr>"
    using Cons.prems by (intro ts_addReceipt_end) (auto simp: sorted_append)
  then show ?case using Cons.IH [of "ts_addReceipt r st"] Cons.prems by simp
qed simp

abbreviation upto :: "uint32 \<Rightarrow> (ReceiptSource \<times> 'a) list \<Rightarrow> (ReceiptSource \<times> 'a) list" where
  "upto n es \<equiv> filter (\<lambda>e. PrimaryId (fst e) \<le> n) es"

lemma copy_entries:
  assumes "entries_wf (rs_entries st @ es)"
  shows "rfold (\<lambda>(source, resolved) st. if PrimaryId source > n then Inr st else rs_addResolution resolved source st) es st
    = Inr (st\<lparr>rs_entries := rs_entries st @ upto n es\<rparr>)"
  using assms
proof (induction es arbitrary: st)
  case (Cons e es)
  show ?case
  proof (cases "PrimaryId (fst e) \<le> n")
    case True
    let ?st = "st\<lparr>rs_entries := rs_entries st @ [e]\<rparr>"
    have "rs_entries st \<noteq> [] \<Longrightarrow> fst (last (rs_entries st)) \<le> fst e \<and> snd (last (rs_entries st)) \<noteq> snd e"
      using Cons.prems by (auto simp: entries_wf_def sorted_append successively_append_iff)
    then have "rs_addResolution (snd e) (fst e) st = Inr ?st" by (auto simp: rs_addResolution_def)
    with True Cons.IH [of ?st] Cons.prems show ?thesis by (auto simp: case_prod_unfold)
  next
    case False
    have "PrimaryId (fst e) \<le> PrimaryId (fst e')" if "e' \<in> set es" for e'
      using Cons.prems that by (intro PrimaryId_mono) (auto simp: entries_wf_def sorted_append)
    with False have gt: "PrimaryId (fst e') > n" if "e' \<in> set (e # es)" for e' using that by fastforce
    have "rfold (\<lambda>(source, resolved) st. if PrimaryId source > n then Inr st else rs_addResolution resolved source st) es' st = Inr st"
      if "set es' \<subseteq> set (e # es)" for es'
      using that
    proof (induction es')
      case (Cons e' es')
      then show ?case using gt [of e'] by (simp add: case_prod_unfold)
    qed simp
    from this [of "e # es"] gt show ?thesis by (simp add: filter_empty_conv not_le)
  qed
qed simp

definition trunc_statement :: "uint32 \<Rightarrow> ('u, 'r) ResolutionStatement \<Rightarrow> ('u, 'r) ResolutionStatement" where
  "trunc_statement n st = st\<lparr>rs_entries := upto n (rs_entries st)\<rparr>"

definition trunc_resolutions ::
  "uint32 \<Rightarrow> ('u, ('u, 'r) ResolutionStatement) smap \<Rightarrow> ('u, ('u, 'r) ResolutionStatement) smap" where
  "trunc_resolutions n m = filter (\<lambda>(k, st). rs_entries st \<noteq> []) (map (\<lambda>(k, st). (k, trunc_statement n st)) m)"

lemma copy_transactions:
  "map_wf ts_wf (dest @ m) \<Longrightarrow> CopyTransactionStatements dest m n = dest @ upto n m"
proof (induction m arbitrary: dest)
  case (Cons p m)
  obtain k v where p: "p = (k, v)" by force
  have v: "ts_source v = k" "sorted (map Receipt_Type (ts_receipts v))" "\<forall>k' \<in> fst ` set dest. k' < k"
    using Cons.prems by (auto simp: p map_wf_def ts_wf_def smap_inv_def sorted_wrt_append)
  have "fold ts_addReceipt (ts_receipts v) (new_TransactionStatement k) = v"
    using copy_receipts [of "new_TransactionStatement k" "ts_receipts v"] v by (simp add: new_TransactionStatement_def)
  moreover have "map_wf ts_wf (dest @ m)"
    using Cons.prems by (auto simp: map_wf_def smap_inv_def sorted_wrt_append)
  ultimately show ?case
    using Cons.IH [of "dest @ [p]"] Cons.IH [of dest] Cons.prems smap_insert_end [OF v(3)]
    by (auto simp: CopyTransactionStatements_def p not_less)
qed (simp add: CopyTransactionStatements_def)

lemma copy_resolutions:
  assumes "smap_inv (dest @ m)" "\<forall>(k, v) \<in> set m. rs_wf k v"
  shows "CopyResolutionStatements dest m n = Inr (dest @ trunc_resolutions n m)"
  using assms
proof (induction m arbitrary: dest)
  case (Cons p m)
  obtain k v where p: "p = (k, v)" by force
  have v: "rs_unresolved v = k" "entries_wf (rs_entries v)" "\<forall>k' \<in> fst ` set dest. k' < k"
    using Cons.prems by (auto simp: p rs_wf_def smap_inv_def sorted_wrt_append)
  let ?v = "v\<lparr>rs_entries := upto n (rs_entries v)\<rparr>"
  have e: "rfold (\<lambda>(source, resolved) st. if PrimaryId source > n then Inr st else rs_addResolution resolved source st)
      (rs_entries v) (new_ResolutionStatement k) = Inr ?v"
    using copy_entries [of "new_ResolutionStatement k" "rs_entries v" n] v by (simp add: new_ResolutionStatement_def)
  have inv: "smap_inv (dest @ m)" "smap_inv ((dest @ [(k, ?v)]) @ m)"
    using Cons.prems(1) by (auto simp: p smap_inv_def sorted_wrt_append)
  have wf: "\<forall>(k, v) \<in> set m. rs_wf k v" using Cons.prems(2) by simp
  show ?case
  proof (cases "upto n (rs_entries v) = []")
    case True
    then show ?thesis using Cons.IH [OF inv(1) wf] e
      by (simp add: CopyResolutionStatements_def trunc_resolutions_def p rs_size_def trunc_statement_def)
  next
    case False
    then show ?thesis using Cons.IH [OF inv(2) wf] e smap_insert_end [OF v(3), of ?v]
      by (simp add: CopyResolutionStatements_def trunc_resolutions_def p rs_size_def trunc_statement_def)
  qed
qed (simp add: CopyResolutionStatements_def trunc_resolutions_def)

definition trunc :: "uint32 \<Rightarrow> BlockStatement \<Rightarrow> BlockStatement" where
  "trunc n st =
     \<lparr>TransactionStatements = upto n (TransactionStatements st),
      AddressResolutionStatements = trunc_resolutions n (AddressResolutionStatements st),
      MosaicResolutionStatements = trunc_resolutions n (MosaicResolutionStatements st)\<rparr>"

lemma DeepCopyTo_trunc: "bst_wf st \<Longrightarrow> DeepCopyTo new_BlockStatement st n = Inr (trunc n st)"
  using copy_transactions [of "[]" "TransactionStatements st" n]
    copy_resolutions [of "[]" "AddressResolutionStatements st" n]
    copy_resolutions [of "[]" "MosaicResolutionStatements st" n]
  by (simp add: bst_wf_def map_wf_def DeepCopyTo_def trunc_def new_BlockStatement_def smap_empty_def)

subsection \<open>Additions at a later source are forgotten by the copy\<close>

lemma upto_put: "\<not> PrimaryId s \<le> n \<Longrightarrow> upto n (smap_put s v m) = upto n m"
  by (induction s v m rule: smap_put.induct) auto

lemma trunc_resolutions_find:
  assumes "smap_inv m"
  shows "smap_inv (trunc_resolutions n m)"
    "smap_find (trunc_resolutions n m) k
       = (case smap_find m k of None \<Rightarrow> None
          | Some st \<Rightarrow> if rs_entries (trunc_statement n st) = [] then None else Some (trunc_statement n st))" (is "?l = ?r")
proof -
  show inv: "smap_inv (trunc_resolutions n m)"
    using assms by (simp add: smap_inv_def trunc_resolutions_def sorted_wrt_map sorted_wrt_filter case_prod_unfold)
  have "(k, st') \<in> set (trunc_resolutions n m)
      \<longleftrightarrow> rs_entries st' \<noteq> [] \<and> (\<exists>st. (k, st) \<in> set m \<and> st' = trunc_statement n st)" for st'
    by (force simp: trunc_resolutions_def)
  then have l: "?l = Some st' \<longleftrightarrow> rs_entries st' \<noteq> [] \<and> (\<exists>st. smap_find m k = Some st \<and> st' = trunc_statement n st)" for st'
    unfolding smap_find_in_set [OF inv] smap_find_in_set [OF assms] .
  have "?l = Some st' \<longleftrightarrow> ?r = Some st'" for st'
    unfolding l by (cases "smap_find m k") auto
  then show "?l = ?r" by (cases ?r; cases ?l) auto
qed

lemma trunc_resolutions_put:
  assumes "smap_inv m"
    "case smap_find m k of None \<Rightarrow> rs_entries (trunc_statement n v) = [] | Some st \<Rightarrow> trunc_statement n v = trunc_statement n st"
  shows "trunc_resolutions n (smap_put k v m) = trunc_resolutions n m"
proof (rule smap_eqI)
  show "smap_find (trunc_resolutions n (smap_put k v m)) = smap_find (trunc_resolutions n m)"
  proof
    fix k'
    show "smap_find (trunc_resolutions n (smap_put k v m)) k' = smap_find (trunc_resolutions n m) k'"
      using assms by (cases "k' = k") (auto simp: trunc_resolutions_find(2) split: option.splits)
  qed
qed (use assms(1) in \<open>simp_all add: trunc_resolutions_find(1)\<close>)

lemma ts_wf_add: "ts_wf s st \<Longrightarrow> ts_wf s (ts_addReceipt r st)"
proof -
  have "sorted (map Receipt_Type (takeWhile (\<lambda>x. \<not> Receipt_Type r < Receipt_Type x) xs @ [r]
      @ dropWhile (\<lambda>x. \<not> Receipt_Type r < Receipt_Type x) xs))" if "sorted (map Receipt_Type xs)" for xs
    using that
  proof (induction xs)
    case (Cons x xs)
    have "set (takeWhile (\<lambda>x. \<not> Receipt_Type r < Receipt_Type x) xs) \<union> set (dropWhile (\<lambda>x. \<not> Receipt_Type r < Receipt_Type x) xs) \<subseteq> set xs"
      by (auto dest: set_takeWhileD set_dropWhileD)
    with Cons show ?case by fastforce
  qed simp
  then show "ts_wf s st \<Longrightarrow> ts_wf s (ts_addReceipt r st)" by (simp add: ts_wf_def ts_addReceipt_def Let_def)
qed

lemma sorted_last: "sorted (map f es) \<Longrightarrow> e \<in> set es \<Longrightarrow> f e \<le> f (last es)"
  by (induction es) auto

lemma rs_add_wf:
  assumes "rs_unresolved st = u" "entries_wf (rs_entries st)" "rs_addResolution x s st = Inr st'"
  shows "rs_wf u st' \<and> (\<not> PrimaryId s \<le> n \<longrightarrow> trunc_statement n st' = trunc_statement n st)"
proof (cases "rs_entries st \<noteq> [] \<and> x = snd (last (rs_entries st))")
  case True
  then show ?thesis using assms by (auto simp: rs_addResolution_def rs_wf_def split: if_splits)
next
  case False
  then have st': "st' = st\<lparr>rs_entries := rs_entries st @ [(s, x)]\<rparr>"
      "rs_entries st \<noteq> [] \<Longrightarrow> fst (last (rs_entries st)) \<le> s"
    using assms(3) by (auto simp: rs_addResolution_def split: if_splits)
  have "fst e \<le> s" if "e \<in> set (rs_entries st)" for e
    using sorted_last [of fst, OF _ that] st'(2) assms(2) that by (fastforce simp: entries_wf_def)
  with False assms(1,2) show ?thesis
    by (auto simp: st'(1) rs_wf_def entries_wf_def trunc_statement_def sorted_append successively_append_iff)
qed

lemma AddResolution_wf:
  assumes "map_wf rs_wf m" "AddResolution m s u x = Inr m'"
  shows "map_wf rs_wf m' \<and> (\<not> PrimaryId s \<le> n \<longrightarrow> trunc_resolutions n m' = trunc_resolutions n m)"
proof -
  define st where "st = (case smap_find m u of None \<Rightarrow> new_ResolutionStatement u | Some st \<Rightarrow> st)"
  have m: "smap_inv m" using assms(1) by (simp add: map_wf_def)
  have st: "rs_unresolved st = u" "entries_wf (rs_entries st)"
    using map_wf_find [OF assms(1), of u]
    by (auto simp: st_def new_ResolutionStatement_def rs_wf_def entries_wf_def split: option.splits)
  obtain st' where st': "rs_addResolution x s st = Inr st'" "m' = smap_put u st' m"
    using assms(2) by (auto simp: AddResolution_def st_def rbind_Inr_iff smap_insert_new split: option.splits)
  from rs_add_wf [OF st st'(1), of n]
  have st'': "rs_wf u st'" "\<not> PrimaryId s \<le> n \<Longrightarrow> trunc_statement n st' = trunc_statement n st" by auto
  have "trunc_resolutions n m' = trunc_resolutions n m" if "\<not> PrimaryId s \<le> n"
    unfolding st'(2) using st''(2) [OF that] that
    by (intro trunc_resolutions_put [OF m])
       (auto simp: st_def new_ResolutionStatement_def trunc_statement_def split: option.splits)
  with map_wf_put [OF assms(1) st''(1)] st'(2) show ?thesis by simp
qed

subsection \<open>What is recorded at a source and forgotten with it\<close>

text \<open>
  A log of records that can be cut back: an operation recorded at a later source does not change what a
  cut keeps. Any sequence of such operations is undone by the cut.
\<close>

locale cut_log =
  fixes inv :: "'b \<Rightarrow> bool"
    and cut :: "'b \<Rightarrow> 'k"
    and step :: "'o \<Rightarrow> 'b \<Rightarrow> exn + 'b"
    and later :: "'b \<Rightarrow> bool"
    and stays :: "'o \<Rightarrow> bool"
  assumes step_keeps: "inv b \<Longrightarrow> later b \<Longrightarrow> stays op \<Longrightarrow> step op b = Inr b' \<Longrightarrow> inv b' \<and> later b' \<and> cut b' = cut b"
begin

lemma steps_keep:
  "inv b \<Longrightarrow> later b \<Longrightarrow> \<forall>op \<in> set ops. stays op \<Longrightarrow> rfold step ops b = Inr b' \<Longrightarrow> inv b' \<and> later b' \<and> cut b' = cut b"
proof (induction ops arbitrary: b)
  case (Cons op ops)
  then obtain b1 where "step op b = Inr b1" "rfold step ops b1 = Inr b'" by (auto simp: rbind_Inr_iff)
  with Cons.IH [of b1] Cons.prems step_keeps [of b op b1] show ?case by auto
qed simp

end

datatype BuilderOp =
  Op_setSource ReceiptSource
| Op_addReceipt Receipt
| Op_addResolution_address UnresolvedAddress Address
| Op_addResolution_mosaic UnresolvedMosaicId MosaicId

fun run_op :: "BuilderOp \<Rightarrow> BlockStatementBuilder \<Rightarrow> exn + BlockStatementBuilder" where
  "run_op (Op_setSource source) b = Inr (bsb_setSource source b)"
| "run_op (Op_addReceipt receipt) b = Inr (bsb_addReceipt receipt b)"
| "run_op (Op_addResolution_address unresolved resolved) b = bsb_addResolution_address unresolved resolved b"
| "run_op (Op_addResolution_mosaic unresolved resolved) b = bsb_addResolution_mosaic unresolved resolved b"

fun within_source :: "uint32 \<Rightarrow> BuilderOp \<Rightarrow> bool" where
  "within_source p (Op_setSource source) \<longleftrightarrow> PrimaryId source = p"
| "within_source p _ \<longleftrightarrow> True"

lemma run_op_wf:
  assumes "bst_wf (m_pStatement b)" "run_op op b = Inr b'"
  shows "bst_wf (m_pStatement b')"
    "\<not> PrimaryId (m_activeSource b) \<le> n \<Longrightarrow> trunc n (m_pStatement b') = trunc n (m_pStatement b)"
    "within_source (PrimaryId (m_activeSource b)) op \<Longrightarrow> PrimaryId (m_activeSource b') = PrimaryId (m_activeSource b)"
proof -
  have "bst_wf (m_pStatement b') \<and> (\<not> PrimaryId (m_activeSource b) \<le> n \<longrightarrow> trunc n (m_pStatement b') = trunc n (m_pStatement b))
    \<and> (within_source (PrimaryId (m_activeSource b)) op \<longrightarrow> PrimaryId (m_activeSource b') = PrimaryId (m_activeSource b))"
  proof (cases op)
    case (Op_setSource source)
    then show ?thesis using assms by (auto simp: bsb_setSource_def)
  next
    case (Op_addReceipt receipt)
    let ?s = "m_activeSource b" and ?m = "TransactionStatements (m_pStatement b)"
    obtain st where st: "ts_wf ?s st" "m_pStatement b' = (m_pStatement b)\<lparr>TransactionStatements := smap_put ?s st ?m\<rparr>"
      "m_activeSource b' = ?s"
    proof (cases "smap_find ?m ?s")
      case None
      then show ?thesis using that [of "ts_addReceipt receipt (new_TransactionStatement ?s)"] assms(2) Op_addReceipt
          ts_wf_add [of ?s "new_TransactionStatement ?s" receipt]
        by (auto simp: bsb_addReceipt_def smap_insert_new ts_wf_def new_TransactionStatement_def)
    next
      case (Some st)
      moreover have "ts_wf ?s st" using map_wf_find [OF _ Some] assms(1) by (auto simp: bst_wf_def)
      ultimately show ?thesis using that [of "ts_addReceipt receipt st"] assms(2) Op_addReceipt ts_wf_add
        by (auto simp: bsb_addReceipt_def)
    qed
    then show ?thesis using assms(1) by (auto simp: bst_wf_def map_wf_put trunc_def upto_put)
  next
    case (Op_addResolution_address u r)
    then show ?thesis using assms AddResolution_wf [of _ "m_activeSource b" u r _ n]
      by (auto simp: bsb_addResolution_address_def rbind_Inr_iff bst_wf_def trunc_def)
  next
    case (Op_addResolution_mosaic u r)
    then show ?thesis using assms AddResolution_wf [of _ "m_activeSource b" u r _ n]
      by (auto simp: bsb_addResolution_mosaic_def rbind_Inr_iff bst_wf_def trunc_def)
  qed
  then show "bst_wf (m_pStatement b')"
    "\<not> PrimaryId (m_activeSource b) \<le> n \<Longrightarrow> trunc n (m_pStatement b') = trunc n (m_pStatement b)"
    "within_source (PrimaryId (m_activeSource b)) op \<Longrightarrow> PrimaryId (m_activeSource b') = PrimaryId (m_activeSource b)"
    by auto
qed

interpretation bsb: cut_log "\<lambda>b. bst_wf (m_pStatement b)" "\<lambda>b. trunc (p - 1) (m_pStatement b)" run_op
  "\<lambda>b. PrimaryId (m_activeSource b) = p \<and> p \<noteq> 0" "within_source p"
  for p
proof
  fix b op b'
  assume *: "bst_wf (m_pStatement b)" "PrimaryId (m_activeSource b) = p \<and> p \<noteq> 0" "within_source p op" "run_op op b = Inr b'"
  have "\<not> p \<le> p - 1" using *(2) measure_unat [of p] by (simp add: word_le_nat_alt)
  with run_op_wf [OF *(1,4)] * show "bst_wf (m_pStatement b') \<and> (PrimaryId (m_activeSource b') = p \<and> p \<noteq> 0)
      \<and> trunc (p - 1) (m_pStatement b') = trunc (p - 1) (m_pStatement b)" by auto
qed

text \<open>A statement in which nothing was recorded after a source.\<close>

definition bst_upto :: "uint32 \<Rightarrow> BlockStatement \<Rightarrow> bool" where
  "bst_upto n st \<longleftrightarrow> (\<forall>(source, _) \<in> set (TransactionStatements st). PrimaryId source \<le> n)
     \<and> (\<forall>(_, rs) \<in> set (AddressResolutionStatements st). \<forall>(source, _) \<in> set (rs_entries rs). PrimaryId source \<le> n)
     \<and> (\<forall>(_, rs) \<in> set (MosaicResolutionStatements st). \<forall>(source, _) \<in> set (rs_entries rs). PrimaryId source \<le> n)"

lemma trunc_resolutions_upto:
  assumes "map_wf rs_wf m" "\<forall>(_, rs) \<in> set m. \<forall>(source, _) \<in> set (rs_entries rs). PrimaryId source \<le> n"
  shows "trunc_resolutions n m = m"
proof -
  have "map (\<lambda>(k, st). (k, trunc_statement n st)) m = m"
  proof (rule map_idI)
    fix p
    assume "p \<in> set m"
    then have "upto n (rs_entries (snd p)) = rs_entries (snd p)"
      using bspec [OF assms(2)] by (fastforce simp: filter_id_conv case_prod_unfold)
    then show "(case p of (k, st) \<Rightarrow> (k, trunc_statement n st)) = p" by (simp add: trunc_statement_def case_prod_unfold)
  qed
  then show ?thesis using assms(1) by (auto simp: trunc_resolutions_def filter_id_conv map_wf_def rs_wf_def)
qed

lemma trunc_upto: "bst_wf st \<Longrightarrow> bst_upto n st \<Longrightarrow> trunc n st = st"
  using trunc_resolutions_upto [of "AddressResolutionStatements st" n] trunc_resolutions_upto [of "MosaicResolutionStatements st" n]
  by (simp add: trunc_def bst_wf_def bst_upto_def filter_id_conv case_prod_unfold)

subsection \<open>Properties\<close>

text \<open>
  C37. Popping a source forgets exactly what was recorded at it. Start from a well-formed statement in
  which nothing was recorded after the primary source \<open>p - 1\<close>, make \<open>p\<close> the active source and record
  any sequence of receipts and resolutions, moving among the secondary sources of \<open>p\<close>. If no recording
  is rejected, \<open>popSource\<close> ends normally, gives back the original statement and makes \<open>p - 1\<close> active.
\<close>

theorem popSource_forgets_source:
  assumes "bst_wf (m_pStatement b)" "bst_upto (p - 1) (m_pStatement b)" "p \<noteq> 0"
    and "\<forall>op \<in> set ops. within_source p op"
    and "rfold run_op ops (bsb_setSource (ReceiptSource p s) b) = Inr b'"
  shows "bsb_popSource b' = Inr \<lparr>m_activeSource = ReceiptSource (p - 1) 0, m_pStatement = m_pStatement b\<rparr>"
proof -
  have b': "bst_wf (m_pStatement b')" "PrimaryId (m_activeSource b') = p" "trunc (p - 1) (m_pStatement b') = m_pStatement b"
    using bsb.steps_keep [OF _ _ assms(4,5)] assms(1,3) trunc_upto [OF assms(1,2)] by (auto simp: bsb_setSource_def)
  then show ?thesis
    using assms(3) DeepCopyTo_trunc [OF b'(1), of "p - 1"] by (simp add: bsb_popSource_def bsb_setSource_def)
qed

definition example_builder :: BlockStatementBuilder where
  "example_builder = \<lparr>m_activeSource = ReceiptSource 1 0, m_pStatement = new_BlockStatement
     \<lparr>TransactionStatements := [(ReceiptSource 1 0, \<lparr>ts_source = ReceiptSource 1 0, ts_receipts = [InflationReceipt 3 4 5]\<rparr>)]\<rparr>\<rparr>"

definition example_ops :: "BuilderOp list" where
  "example_ops = [Op_addReceipt (InflationReceipt 9 4 5), Op_addResolution_mosaic 7 8, Op_setSource (ReceiptSource 2 3),
     Op_addReceipt (InflationReceipt 2 4 5), Op_addResolution_address 7 8]"

lemma example_ops_run: "\<exists>b'. rfold run_op example_ops (bsb_setSource (ReceiptSource 2 0) example_builder) = Inr b'"
  by (simp add: example_ops_def example_builder_def bsb_setSource_def new_BlockStatement_def bsb_addReceipt_def smap_find_def
      smap_empty_def smap_insert_def smap_contains_def bsb_addResolution_mosaic_def bsb_addResolution_address_def AddResolution_def
      rs_addResolution_def new_ResolutionStatement_def)

theorem popSource_forgets_source_witness:
  "\<exists>b'. rfold run_op example_ops (bsb_setSource (ReceiptSource 2 0) example_builder) = Inr b'
    \<and> bsb_popSource b' = Inr example_builder"
proof -
  obtain b' where b': "rfold run_op example_ops (bsb_setSource (ReceiptSource 2 0) example_builder) = Inr b'"
    using example_ops_run by blast
  have "bst_wf (m_pStatement example_builder)" "bst_upto 1 (m_pStatement example_builder)"
    by (simp_all add: example_builder_def new_BlockStatement_def bst_wf_def map_wf_def ts_wf_def smap_empty_def bst_upto_def)
  moreover have "\<forall>op \<in> set example_ops. within_source 2 op" by (simp add: example_ops_def)
  ultimately have "bsb_popSource b' = Inr \<lparr>m_activeSource = ReceiptSource 1 0, m_pStatement = m_pStatement example_builder\<rparr>"
    using popSource_forgets_source [of example_builder 2 example_ops 0 b'] b' by simp
  with b' show ?thesis by (simp add: example_builder_def)
qed

end
