(* ===== verification/LockObservers.thy ===== *)
theory LockObservers
  imports AccountStateCache Statements "HOL-Library.List_Lexorder" "HOL-Library.Multiset"
begin

section \<open>Observers and validators of the lock plugins (plugins/txes/lock_hash, lock_secret, lock_shared)\<close>

text \<open>
  Locking mosaics and giving them back. A hash lock bonds an aggregate transaction and is returned to
  its owner when the aggregate completes; a secret lock goes to its recipient when the secret is
  proved; a lock that expires goes to the harvester (hash) or back to its owner (secret). The state
  that observers work on is \<open>ObserverContext\<close>: the caches of the two kinds of locks and of the
  accounts, the notification mode, the height, the alias resolvers and the optional statement
  builder. Resolvers and hash functions are arguments or fields of the model, as they are
  callbacks and cryptography. An exception aborts the observer; its partial effects are not kept
  because the source then discards the cache delta.
\<close>

subsection \<open>Lock infos\<close>

type_synonym LockHashAlgorithm = uint8

definition Op_Sha3_256 :: LockHashAlgorithm where "Op_Sha3_256 = 0"
definition Op_Hash_160 :: LockHashAlgorithm where "Op_Hash_160 = 1"
definition Op_Hash_256 :: LockHashAlgorithm where "Op_Hash_256 = 2"

record HashLockInfo = LockInfo +
  Hash :: Hash256

record SecretLockInfo = LockInfo +
  HashAlgorithm :: LockHashAlgorithm
  Secret :: Hash256
  RecipientAddress :: Address
  CompositeHash :: Hash256

definition new_HashLockInfo :: "Address \<Rightarrow> MosaicId \<Rightarrow> Amount \<Rightarrow> Height \<Rightarrow> Hash256 \<Rightarrow> HashLockInfo" where
  "new_HashLockInfo ownerAddress mosaicId amount endHeight hash =
     LockInfo.LockInfo.extend (new_LockInfo ownerAddress mosaicId amount endHeight) (HashLockInfo.fields hash)"

definition new_SecretLockInfo ::
  "Address \<Rightarrow> MosaicId \<Rightarrow> Amount \<Rightarrow> Height \<Rightarrow> LockHashAlgorithm \<Rightarrow> Hash256 \<Rightarrow> Address \<Rightarrow> SecretLockInfo" where
  "new_SecretLockInfo ownerAddress mosaicId amount endHeight hashAlgorithm secret recipientAddress =
     LockInfo.LockInfo.extend (new_LockInfo ownerAddress mosaicId amount endHeight)
       (SecretLockInfo.fields hashAlgorithm secret recipientAddress 0)"

text \<open>The hash functions of the source. A shorter hash is copied to the front of the zeroed result.\<close>

record LockHashes =
  Sha3_256 :: "uint8 list \<Rightarrow> Hash256"
  Bitcoin160 :: "uint8 list \<Rightarrow> 160 word"
  Sha256Double :: "uint8 list \<Rightarrow> Hash256"

definition CalculateHash :: "LockHashes \<Rightarrow> LockHashAlgorithm \<Rightarrow> uint8 list \<Rightarrow> exn + Hash256" where
  "CalculateHash hs hashAlgorithm buffer =
     (if hashAlgorithm = Op_Sha3_256 then Inr (Sha3_256 hs buffer)
      else if hashAlgorithm = Op_Hash_160 then Inr (push_bit 96 (ucast (Bitcoin160 hs buffer)))
      else if hashAlgorithm = Op_Hash_256 then Inr (Sha256Double hs buffer)
      else Inl Invalid_Argument)"

definition CalculateSecretLockInfoHash :: "LockHashes \<Rightarrow> Hash256 \<Rightarrow> Address \<Rightarrow> Hash256" where
  "CalculateSecretLockInfoHash hs secret recipient = Sha3_256 hs (array_bytes 32 secret @ array_bytes 24 recipient)"

subsection \<open>Notifications\<close>

record UnresolvedMosaic =
  um_MosaicId :: UnresolvedMosaicId
  um_Amount :: Amount

record BaseLockNotification =
  ln_Owner :: Address
  ln_Mosaic :: UnresolvedMosaic
  ln_Duration :: BlockDuration

record HashLockNotification = BaseLockNotification +
  hln_Hash :: Hash256

record SecretLockNotification = BaseLockNotification +
  sln_HashAlgorithm :: LockHashAlgorithm
  sln_Secret :: Hash256
  sln_Recipient :: UnresolvedAddress

record ProofSecretNotification =
  psn_HashAlgorithm :: LockHashAlgorithm
  psn_Secret :: Hash256
  psn_Proof :: "uint8 list"

record ProofPublicationNotification =
  ppn_Owner :: Address
  ppn_HashAlgorithm :: LockHashAlgorithm
  ppn_Secret :: Hash256
  ppn_Recipient :: UnresolvedAddress

type_synonym EntityType = uint16

datatype BasicEntityType = Entity_Other | Entity_Transaction | Entity_Block

fun basic_entity_code :: "BasicEntityType \<Rightarrow> uint16" where
  "basic_entity_code Entity_Other = 0"
| "basic_entity_code Entity_Transaction = 1"
| "basic_entity_code Entity_Block = 2"

definition MakeEntityType :: "BasicEntityType \<Rightarrow> FacilityCode \<Rightarrow> uint8 \<Rightarrow> EntityType" where
  "MakeEntityType basicEntityType facilityCode code =
     push_bit 14 (basic_entity_code basicEntityType AND 0x03)
     OR push_bit 8 (ucast (code AND 0xF))
     OR ucast (facility_code facilityCode AND 0xFF)"

definition Entity_Type_Aggregate_Bonded :: EntityType where
  "Entity_Type_Aggregate_Bonded = MakeEntityType Entity_Transaction Facility_Aggregate 2"

record TransactionNotification =
  tn_Sender :: Address
  tn_TransactionHash :: Hash256
  tn_TransactionType :: EntityType
  tn_Deadline :: uint64

subsection \<open>The observer context\<close>

datatype NotifyMode = Commit | Rollback

record ResolverContext =
  m_mosaicResolver :: "UnresolvedMosaicId \<Rightarrow> MosaicId"
  m_addressResolver :: "UnresolvedAddress \<Rightarrow> Address"

record ObserverContext =
  oc_Height :: Height
  oc_Mode :: NotifyMode
  oc_Resolvers :: ResolverContext
  oc_HashLocks :: "HashLockInfo LockInfoCacheDelta"
  oc_SecretLocks :: "SecretLockInfo LockInfoCacheDelta"
  oc_Accounts :: AccountStateCacheDelta
  pBlockStatementBuilder :: "BlockStatementBuilder option"

text \<open>The bound resolvers of the context capture what they resolve when there is a statement builder.\<close>

definition oc_resolve_mosaic :: "UnresolvedMosaicId \<Rightarrow> ObserverContext \<Rightarrow> exn + MosaicId \<times> ObserverContext" where
  "oc_resolve_mosaic unresolved ctx =
     (let resolved = m_mosaicResolver (oc_Resolvers ctx) unresolved
      in case pBlockStatementBuilder ctx of
           None \<Rightarrow> Inr (resolved, ctx)
         | Some b \<Rightarrow>
             if resolved \<noteq> unresolved then
               rbind (bsb_addResolution_mosaic unresolved resolved b) (\<lambda>b. Inr (resolved, ctx\<lparr>pBlockStatementBuilder := Some b\<rparr>))
             else Inr (resolved, ctx))"

definition oc_resolve_address :: "UnresolvedAddress \<Rightarrow> ObserverContext \<Rightarrow> exn + Address \<times> ObserverContext" where
  "oc_resolve_address unresolved ctx =
     (let resolved = m_addressResolver (oc_Resolvers ctx) unresolved
      in case pBlockStatementBuilder ctx of
           None \<Rightarrow> Inr (resolved, ctx)
         | Some b \<Rightarrow>
             if resolved \<noteq> unresolved then
               rbind (bsb_addResolution_address unresolved resolved b) (\<lambda>b. Inr (resolved, ctx\<lparr>pBlockStatementBuilder := Some b\<rparr>))
             else Inr (resolved, ctx))"

definition osb_addReceipt :: "Receipt \<Rightarrow> ObserverContext \<Rightarrow> ObserverContext" where
  "osb_addReceipt receipt ctx =
     (case pBlockStatementBuilder ctx of
        None \<Rightarrow> ctx
      | Some b \<Rightarrow> ctx\<lparr>pBlockStatementBuilder := Some (bsb_addReceipt receipt b)\<rparr>)"

definition Receipt_Type_LockHash_Created :: ReceiptType where
  "Receipt_Type_LockHash_Created = MakeReceiptType Basic_BalanceDebit Facility_LockHash 1"

definition Receipt_Type_LockHash_Completed :: ReceiptType where
  "Receipt_Type_LockHash_Completed = MakeReceiptType Basic_BalanceCredit Facility_LockHash 2"

definition Receipt_Type_LockHash_Expired :: ReceiptType where
  "Receipt_Type_LockHash_Expired = MakeReceiptType Basic_BalanceCredit Facility_LockHash 3"

definition Receipt_Type_LockSecret_Created :: ReceiptType where
  "Receipt_Type_LockSecret_Created = MakeReceiptType Basic_BalanceDebit Facility_LockSecret 1"

definition Receipt_Type_LockSecret_Completed :: ReceiptType where
  "Receipt_Type_LockSecret_Completed = MakeReceiptType Basic_BalanceCredit Facility_LockSecret 2"

definition Receipt_Type_LockSecret_Expired :: ReceiptType where
  "Receipt_Type_LockSecret_Expired = MakeReceiptType Basic_BalanceCredit Facility_LockSecret 3"

subsection \<open>Creating locks\<close>

definition HashLockObserver :: "HashLockNotification \<Rightarrow> ObserverContext \<Rightarrow> exn + ObserverContext" where
  "HashLockObserver notification ctx =
     (if Commit = oc_Mode ctx then
        let endHeight = oc_Height ctx + ln_Duration notification
        in rbind (oc_resolve_mosaic (um_MosaicId (ln_Mosaic notification)) ctx) (\<lambda>(mosaicId, ctx).
           rbind (lic_insert Hash
                    (new_HashLockInfo (ln_Owner notification) mosaicId (um_Amount (ln_Mosaic notification)) endHeight
                       (hln_Hash notification))
                    (oc_HashLocks ctx)) (\<lambda>locks.
           Inr (osb_addReceipt
                  (BalanceChangeReceipt Receipt_Type_LockHash_Created mosaicId (um_Amount (ln_Mosaic notification))
                     (ln_Owner notification))
                  (ctx\<lparr>oc_HashLocks := locks\<rparr>))))
      else rbind (lic_remove (hln_Hash notification) (oc_HashLocks ctx)) (\<lambda>locks. Inr (ctx\<lparr>oc_HashLocks := locks\<rparr>)))"

definition SecretLockObserver :: "LockHashes \<Rightarrow> SecretLockNotification \<Rightarrow> ObserverContext \<Rightarrow> exn + ObserverContext" where
  "SecretLockObserver hs notification ctx =
     (if Commit = oc_Mode ctx then
        let endHeight = oc_Height ctx + ln_Duration notification
        in rbind (oc_resolve_mosaic (um_MosaicId (ln_Mosaic notification)) ctx) (\<lambda>(mosaicId, ctx).
           rbind (oc_resolve_address (sln_Recipient notification) ctx) (\<lambda>(recipient, ctx).
           let lockInfo = new_SecretLockInfo (ln_Owner notification) mosaicId (um_Amount (ln_Mosaic notification)) endHeight
                            (sln_HashAlgorithm notification) (sln_Secret notification) recipient;
               lockInfo = lockInfo\<lparr>CompositeHash := CalculateSecretLockInfoHash hs (Secret lockInfo) (RecipientAddress lockInfo)\<rparr>
           in rbind (lic_insert CompositeHash lockInfo (oc_SecretLocks ctx)) (\<lambda>locks.
              Inr (osb_addReceipt
                     (BalanceChangeReceipt Receipt_Type_LockSecret_Created mosaicId (um_Amount (ln_Mosaic notification))
                        (ln_Owner notification))
                     (ctx\<lparr>oc_SecretLocks := locks\<rparr>)))))
      else rbind (oc_resolve_address (sln_Recipient notification) ctx) (\<lambda>(recipient, ctx).
           rbind (lic_remove (CalculateSecretLockInfoHash hs (sln_Secret notification) recipient) (oc_SecretLocks ctx)) (\<lambda>locks.
           Inr (ctx\<lparr>oc_SecretLocks := locks\<rparr>))))"

subsection \<open>Completing locks\<close>

text \<open>
  The shared observer is a template over a traits class: the cache with its update, the receipt type,
  the key of a notification and the account that a lock is paid to.
\<close>

definition LockStatusAccountBalanceObserver ::
  "(ObserverContext \<Rightarrow> 'a LockInfo_scheme LockInfoCacheDelta) \<Rightarrow> ('a LockInfo_scheme LockInfoCacheDelta \<Rightarrow> ObserverContext \<Rightarrow> ObserverContext)
     \<Rightarrow> ReceiptType \<Rightarrow> ('n \<Rightarrow> ObserverContext \<Rightarrow> exn + Hash256 \<times> ObserverContext) \<Rightarrow> ('a LockInfo_scheme \<Rightarrow> Address)
     \<Rightarrow> 'n \<Rightarrow> ObserverContext \<Rightarrow> exn + ObserverContext" where
  "LockStatusAccountBalanceObserver sub set_sub receiptType NotificationToKey DestinationAccount notification ctx =
     rbind (NotificationToKey notification ctx) (\<lambda>(key, ctx).
     let (lockInfoIter, pDelta) = bsd_find MutableTypeTag (lic_pDelta (sub ctx)) key
     in rbind (CacheFindIterator_get lockInfoIter) (\<lambda>history.
     let lockInfo = lh_back history
     in rbind (asc_get (DestinationAccount lockInfo) (oc_Accounts ctx)) (\<lambda>(accountState, accounts).
     if Rollback = oc_Mode ctx then
       let history = lh_set_back (lockInfo\<lparr>Status := Unused\<rparr>) history
       in rbind (debit (MosaicId lockInfo) (Amount lockInfo) (Balances accountState)) (\<lambda>balances.
          Inr (set_sub ((sub ctx)\<lparr>lic_pDelta := bsd_store key history pDelta\<rparr>)
                 (ctx\<lparr>oc_Accounts := asc_store (accountState\<lparr>Balances := balances\<rparr>) accounts\<rparr>)))
     else
       let history = lh_set_back (lockInfo\<lparr>Status := Used\<rparr>) history
       in rbind (credit (MosaicId lockInfo) (Amount lockInfo) (Balances accountState)) (\<lambda>balances.
          Inr (osb_addReceipt (BalanceChangeReceipt receiptType (MosaicId lockInfo) (Amount lockInfo) (as_Address accountState))
                 (set_sub ((sub ctx)\<lparr>lic_pDelta := bsd_store key history pDelta\<rparr>)
                   (ctx\<lparr>oc_Accounts := asc_store (accountState\<lparr>Balances := balances\<rparr>) accounts\<rparr>)))))))"

definition CompletedAggregateObserver :: "TransactionNotification \<Rightarrow> ObserverContext \<Rightarrow> exn + ObserverContext" where
  "CompletedAggregateObserver notification ctx =
     (if Entity_Type_Aggregate_Bonded \<noteq> tn_TransactionType notification then Inr ctx
      else LockStatusAccountBalanceObserver oc_HashLocks (\<lambda>locks ctx. ctx\<lparr>oc_HashLocks := locks\<rparr>)
             Receipt_Type_LockHash_Completed (\<lambda>notification ctx. Inr (tn_TransactionHash notification, ctx))
             OwnerAddress notification ctx)"

definition proof_key :: "LockHashes \<Rightarrow> ProofPublicationNotification \<Rightarrow> ObserverContext \<Rightarrow> exn + Hash256 \<times> ObserverContext" where
  "proof_key hs notification ctx =
     rbind (oc_resolve_address (ppn_Recipient notification) ctx) (\<lambda>(recipient, ctx).
       Inr (CalculateSecretLockInfoHash hs (ppn_Secret notification) recipient, ctx))"

definition ProofObserver :: "LockHashes \<Rightarrow> ProofPublicationNotification \<Rightarrow> ObserverContext \<Rightarrow> exn + ObserverContext" where
  "ProofObserver hs notification ctx =
     LockStatusAccountBalanceObserver oc_SecretLocks (\<lambda>locks ctx. ctx\<lparr>oc_SecretLocks := locks\<rparr>)
       Receipt_Type_LockSecret_Completed (proof_key hs) RecipientAddress notification ctx"

subsection \<open>Expiring locks\<close>

definition expire_consumer ::
  "NotifyMode \<Rightarrow> ReceiptType \<Rightarrow> 'a LockInfo_scheme \<Rightarrow> AccountState \<Rightarrow> Receipt list \<Rightarrow> exn + AccountState \<times> Receipt list" where
  "expire_consumer mode receiptType lockInfo accountState receipts =
     (if Rollback = mode then
        rbind (debit (MosaicId lockInfo) (Amount lockInfo) (Balances accountState)) (\<lambda>balances.
          Inr (accountState\<lparr>Balances := balances\<rparr>, receipts))
      else
        rbind (credit (MosaicId lockInfo) (Amount lockInfo) (Balances accountState)) (\<lambda>balances.
          Inr (accountState\<lparr>Balances := balances\<rparr>,
               receipts @ [BalanceChangeReceipt receiptType (MosaicId lockInfo) (Amount lockInfo) (as_Address accountState)])))"

text \<open>\<open>memcmp\<close> of two receipts is the lexicographic order of their bytes.\<close>

definition sort_receipts :: "Receipt list \<Rightarrow> Receipt list" where
  "sort_receipts receipts = sort_key receipt_bytes receipts"

definition ExpiredLockInfoObserver ::
  "(ObserverContext \<Rightarrow> 'a LockInfo_scheme LockInfoCacheDelta) \<Rightarrow> ('a LockInfo_scheme LockInfoCacheDelta \<Rightarrow> ObserverContext \<Rightarrow> ObserverContext)
     \<Rightarrow> ReceiptType
     \<Rightarrow> ('a LockInfo_scheme \<Rightarrow> (AccountState \<Rightarrow> Receipt list \<Rightarrow> exn + AccountState \<times> Receipt list)
           \<Rightarrow> Receipt list \<Rightarrow> AccountStateCacheDelta \<Rightarrow> exn + Receipt list \<times> AccountStateCacheDelta)
     \<Rightarrow> ObserverContext \<Rightarrow> exn + ObserverContext" where
  "ExpiredLockInfoObserver sub set_sub receiptType ownerAccountStateDispatcher ctx =
     (let (expired, locks) = lic_processUnusedExpiredLocks (oc_Height ctx) (sub ctx)
      in rbind (rfold (\<lambda>lockInfo (receipts, accounts).
                  ownerAccountStateDispatcher lockInfo (expire_consumer (oc_Mode ctx) receiptType lockInfo) receipts accounts)
                  expired ([], oc_Accounts ctx)) (\<lambda>(receipts, accounts).
         Inr (fold osb_addReceipt (sort_receipts receipts) (set_sub locks (ctx\<lparr>oc_Accounts := accounts\<rparr>)))))"

definition ExpiredHashLockInfoObserver :: "Address \<Rightarrow> ObserverContext \<Rightarrow> exn + ObserverContext" where
  "ExpiredHashLockInfoObserver Harvester ctx =
     ExpiredLockInfoObserver oc_HashLocks (\<lambda>locks ctx. ctx\<lparr>oc_HashLocks := locks\<rparr>) Receipt_Type_LockHash_Expired
       (\<lambda>lockInfo accountStateConsumer receipts accounts.
          if oc_Height ctx \<noteq> EndHeight lockInfo then Inr (receipts, accounts)
          else ProcessForwardedAccountState Harvester accountStateConsumer receipts accounts) ctx"

definition ExpiredSecretLockInfoObserver ::
  "Height list \<Rightarrow> Height list \<Rightarrow> ObserverContext \<Rightarrow> exn + ObserverContext" where
  "ExpiredSecretLockInfoObserver skipHeights forceHeights ctx =
     (if oc_Height ctx \<in> set skipHeights then Inr ctx
      else ExpiredLockInfoObserver oc_SecretLocks (\<lambda>locks ctx. ctx\<lparr>oc_SecretLocks := locks\<rparr>) Receipt_Type_LockSecret_Expired
        (\<lambda>lockInfo accountStateConsumer receipts accounts.
           if oc_Height ctx = EndHeight lockInfo \<or> oc_Height ctx \<in> set forceHeights then
             rbind (asc_get (OwnerAddress lockInfo) accounts) (\<lambda>(accountState, accounts).
             rbind (accountStateConsumer accountState receipts) (\<lambda>(accountState, receipts).
             Inr (receipts, asc_store accountState accounts)))
           else Inr (receipts, accounts)) ctx)"

subsection \<open>Validators\<close>

datatype ValidationResult =
  Success
| Failure_LockHash_Invalid_Mosaic_Id | Failure_LockHash_Invalid_Mosaic_Amount | Failure_LockHash_Hash_Already_Exists
| Failure_LockHash_Unknown_Hash | Failure_LockHash_Inactive_Hash | Failure_LockHash_Invalid_Duration
| Failure_LockSecret_Invalid_Hash_Algorithm | Failure_LockSecret_Hash_Already_Exists
| Failure_LockSecret_Proof_Size_Out_Of_Bounds | Failure_LockSecret_Secret_Mismatch | Failure_LockSecret_Unknown_Composite_Key
| Failure_LockSecret_Inactive_Secret | Failure_LockSecret_Hash_Algorithm_Mismatch | Failure_LockSecret_Invalid_Duration

definition LockDurationValidator :: "ValidationResult \<Rightarrow> BlockDuration \<Rightarrow> BlockDuration \<Rightarrow> ValidationResult" where
  "LockDurationValidator failureResult maxDuration duration =
     (if 0 \<noteq> duration \<and> duration \<le> maxDuration then Success else failureResult)"

definition HashLockMosaicValidator :: "MosaicId \<Rightarrow> Amount \<Rightarrow> UnresolvedMosaic \<Rightarrow> ResolverContext \<Rightarrow> ValidationResult" where
  "HashLockMosaicValidator currencyMosaicId lockedFundsPerAggregate mosaic resolvers =
     (if lockedFundsPerAggregate \<noteq> um_Amount mosaic then Failure_LockHash_Invalid_Mosaic_Amount
      else if currencyMosaicId \<noteq> m_mosaicResolver resolvers (um_MosaicId mosaic) then Failure_LockHash_Invalid_Mosaic_Id
      else Success)"

definition HashLockCacheUniqueValidator :: "HashLockNotification \<Rightarrow> ObserverContext \<Rightarrow> ValidationResult" where
  "HashLockCacheUniqueValidator notification ctx =
     (if lic_isActive (oc_HashLocks ctx) (hln_Hash notification) (oc_Height ctx) then Failure_LockHash_Hash_Already_Exists
      else Success)"

definition AggregateHashPresentValidator :: "TransactionNotification \<Rightarrow> ObserverContext \<Rightarrow> ValidationResult" where
  "AggregateHashPresentValidator notification ctx =
     (if Entity_Type_Aggregate_Bonded \<noteq> tn_TransactionType notification then Success
      else if \<not> lic_contains (oc_HashLocks ctx) (tn_TransactionHash notification) then Failure_LockHash_Unknown_Hash
      else if \<not> lic_isActive (oc_HashLocks ctx) (tn_TransactionHash notification) (oc_Height ctx)
           then Failure_LockHash_Inactive_Hash
      else Success)"

definition ValidateLessThanOrEqual :: "'v::linorder \<Rightarrow> 'v \<Rightarrow> ValidationResult \<Rightarrow> ValidationResult" where
  "ValidateLessThanOrEqual v maxValue failureResult = (if v \<le> maxValue then Success else failureResult)"

definition SecretLockHashAlgorithmValidator :: "LockHashAlgorithm \<Rightarrow> ValidationResult" where
  "SecretLockHashAlgorithmValidator hashAlgorithm =
     ValidateLessThanOrEqual hashAlgorithm Op_Hash_256 Failure_LockSecret_Invalid_Hash_Algorithm"

definition SecretLockCacheUniqueValidator ::
  "LockHashes \<Rightarrow> Height list \<Rightarrow> SecretLockNotification \<Rightarrow> ObserverContext \<Rightarrow> ValidationResult" where
  "SecretLockCacheUniqueValidator hs skipHeights notification ctx =
     (if oc_Height ctx \<in> set skipHeights then Success
      else
        let key = CalculateSecretLockInfoHash hs (sln_Secret notification)
                    (m_addressResolver (oc_Resolvers ctx) (sln_Recipient notification))
        in if lic_isActive (oc_SecretLocks ctx) key (oc_Height ctx) then Failure_LockSecret_Hash_Already_Exists else Success)"

definition ProofSecretValidator ::
  "LockHashes \<Rightarrow> uint16 \<Rightarrow> uint16 \<Rightarrow> ProofSecretNotification \<Rightarrow> exn + ValidationResult" where
  "ProofSecretValidator hs minProofSize maxProofSize notification =
     (if ValidateLessThanOrEqual (psn_HashAlgorithm notification) Op_Hash_256 Failure_LockSecret_Invalid_Hash_Algorithm \<noteq> Success
      then Inr Failure_LockSecret_Invalid_Hash_Algorithm
      else if length (psn_Proof notification) < unat minProofSize \<or> length (psn_Proof notification) > unat maxProofSize
      then Inr Failure_LockSecret_Proof_Size_Out_Of_Bounds
      else rbind (CalculateHash hs (psn_HashAlgorithm notification) (psn_Proof notification)) (\<lambda>secret.
           Inr (if psn_Secret notification = secret then Success else Failure_LockSecret_Secret_Mismatch)))"

definition ProofValidator :: "LockHashes \<Rightarrow> ProofPublicationNotification \<Rightarrow> ObserverContext \<Rightarrow> exn + ValidationResult" where
  "ProofValidator hs notification ctx =
     (let key = CalculateSecretLockInfoHash hs (ppn_Secret notification)
                  (m_addressResolver (oc_Resolvers ctx) (ppn_Recipient notification))
      in if \<not> lic_contains (oc_SecretLocks ctx) key then Inr Failure_LockSecret_Unknown_Composite_Key
         else if \<not> lic_isActive (oc_SecretLocks ctx) key (oc_Height ctx) then Inr Failure_LockSecret_Inactive_Secret
         else rbind (CacheFindIterator_get (bsd_find_const MutableTypeTag (lic_pDelta (oc_SecretLocks ctx)) key)) (\<lambda>history.
              if HashAlgorithm (lh_back history) \<noteq> ppn_HashAlgorithm notification
              then Inr Failure_LockSecret_Hash_Algorithm_Mismatch
              else Inr Success))"

subsection \<open>Writing back the most recent lock\<close>

lemma lic_find_back:
  assumes "lic_inv gid c" "lic_locks c key \<noteq> []"
  shows "\<exists>h d. bsd_find MutableTypeTag (lic_pDelta c) key = (Some h, d) \<and> lh_back h = last (lic_locks c key)
    \<and> (\<forall>l. gid l = key \<longrightarrow>
         (let c' = c\<lparr>lic_pDelta := bsd_store key (lh_set_back l h) d\<rparr>
          in lic_inv gid c' \<and> lic_locks c' = (lic_locks c)(key := butlast (lic_locks c key) @ [l]) \<and> lic_members c' = lic_members c))"
proof -
  note inv = lic_invD [OF assms(1)]
  obtain h where h: "bsd_view (lic_pDelta c) key = Some h" using assms lic_locks_empty by blast
  have ls: "lockInfos h = lic_locks c key" "lh_id h = key"
    using h lic_inv_historyD(1) [OF assms(1) h] by (simp_all add: lic_locks_def)
  let ?d = "snd (bsd_find MutableTypeTag (lic_pDelta c) key)"
  have f: "bsd_find MutableTypeTag (lic_pDelta c) key = (Some h, ?d)"
    using bsd.find_result [OF inv(1), of key] h by (metis prod.collapse)
  have "lic_inv gid (c\<lparr>lic_pDelta := bsd_store key (lh_set_back l h) ?d\<rparr>)
      \<and> lic_locks (c\<lparr>lic_pDelta := bsd_store key (lh_set_back l h) ?d\<rparr>) = (lic_locks c)(key := butlast (lic_locks c key) @ [l])"
    if "gid l = key" for l
  proof -
    have b: "lh_set_back l h = \<lparr>lh_id = key, lockInfos = butlast (lic_locks c key) @ [l]\<rparr>" using ls by (simp add: lh_set_back_def)
    have v: "bsd_view (lic_pDelta c) key \<noteq> None" using h by simp
    have "gid l' = key" if "l' \<in> set (butlast (lic_locks c key) @ [l])" for l'
      using that \<open>gid l = key\<close> lic_inv_historyD(3) [OF assms(1) h] ls(1) by (auto dest: in_set_butlastD)
    then show ?thesis
      using lic_inv_updateI [OF assms(1) bsd.store_inv [OF inv(1) v, of "lh_set_back l h"] inv(2),
          of key "butlast (lic_locks c key) @ [l]"] bsd.store_view [OF inv(1) v, of "lh_set_back l h"] b
      by simp
  qed
  then show ?thesis
    by (intro exI [of _ h] exI [of _ ?d] conjI f) (simp_all add: Let_def lh_back_def ls(1))
qed

lemma lic_gid_last:
  assumes "lic_inv gid c" "lic_locks c key \<noteq> []"
  shows "gid (last (lic_locks c key)) = key"
proof -
  obtain h where h: "bsd_view (lic_pDelta c) key = Some h" using assms lic_locks_empty by blast
  then show ?thesis using lic_inv_historyD(3) [OF assms(1) h] assms(2) by (simp add: lic_locks_def)
qed

lemma osb_addReceipt_fields [simp]:
  "oc_Height (osb_addReceipt r ctx) = oc_Height ctx" "oc_Mode (osb_addReceipt r ctx) = oc_Mode ctx"
  "oc_Resolvers (osb_addReceipt r ctx) = oc_Resolvers ctx" "oc_HashLocks (osb_addReceipt r ctx) = oc_HashLocks ctx"
  "oc_SecretLocks (osb_addReceipt r ctx) = oc_SecretLocks ctx" "oc_Accounts (osb_addReceipt r ctx) = oc_Accounts ctx"
  by (simp_all add: osb_addReceipt_def split: option.splits)

subsection \<open>Completing locks: the template and its two instances\<close>

text \<open>What an observer does to an account that a lock is paid to, or taken back from.\<close>

definition pay :: "NotifyMode \<Rightarrow> MosaicId \<Rightarrow> Amount \<Rightarrow> AccountBalances \<Rightarrow> exn + AccountBalances" where
  "pay mode = (case mode of Commit \<Rightarrow> credit | Rollback \<Rightarrow> debit)"

definition status_after :: "NotifyMode \<Rightarrow> LockStatus" where
  "status_after mode = (case mode of Commit \<Rightarrow> Used | Rollback \<Rightarrow> Unused)"

lemma pay_inv:
  assumes "ab_inv b" "pay mode k a b = Inr b'"
  shows "ab_inv b'"
proof -
  have "credit k a b = Inr b' \<or> debit k a b = Inr b'" using assms(2) by (cases mode) (simp_all add: pay_def)
  then show ?thesis using credit_refines [OF assms(1)] debit_refines [OF assms(1)] by blast
qed

lemma credit_ok:
  assumes "ab_inv b" "k \<noteq> 0"
  shows "\<exists>b'. credit k a b = Inr b' \<and> ab_inv b' \<and> ab_get b' = (ab_get b)(k := ab_get b k + a)"
proof -
  have "map_sum id ab_get (credit k a b) = Inr ((ab_get b)(k := ab_get b k + a))"
    using credit_refines [OF assms(1), of k a, THEN conjunct1] assms(2) by (auto simp: spec_credit_def)
  with credit_refines [OF assms(1), of k a, THEN conjunct2] show ?thesis by (cases "credit k a b") auto
qed

lemma debit_ok:
  assumes "ab_inv b" "a \<le> ab_get b k"
  shows "\<exists>b'. debit k a b = Inr b' \<and> ab_inv b' \<and> ab_get b' = (ab_get b)(k := ab_get b k - a)"
proof -
  have "map_sum id ab_get (debit k a b) = Inr ((ab_get b)(k := ab_get b k - a))"
    using debit_refines [OF assms(1), of k a, THEN conjunct1] assms(2) by (auto simp: spec_debit_def)
  with debit_refines [OF assms(1), of k a, THEN conjunct2] show ?thesis by (cases "debit k a b") auto
qed

locale lock_traits =
  fixes sub :: "ObserverContext \<Rightarrow> 'a LockInfo_scheme LockInfoCacheDelta"
    and set_sub :: "'a LockInfo_scheme LockInfoCacheDelta \<Rightarrow> ObserverContext \<Rightarrow> ObserverContext"
    and gid :: "'a LockInfo_scheme \<Rightarrow> Hash256"
    and to_key :: "'n \<Rightarrow> ObserverContext \<Rightarrow> exn + Hash256 \<times> ObserverContext"
    and dest :: "'a LockInfo_scheme \<Rightarrow> Address"
  assumes sub_set: "sub (set_sub ls ctx) = ls" "sub (ctx\<lparr>oc_Accounts := acc\<rparr>) = sub ctx"
      "sub (osb_addReceipt r ctx) = sub ctx" "oc_Accounts (set_sub ls ctx) = oc_Accounts ctx"
      "oc_Mode (set_sub ls ctx) = oc_Mode ctx" "oc_Height (set_sub ls ctx) = oc_Height ctx"
      "oc_Resolvers (set_sub ls ctx) = oc_Resolvers ctx"
    and to_key: "to_key n ctx = Inr (key, ctx') \<Longrightarrow> \<exists>b. ctx' = ctx\<lparr>pBlockStatementBuilder := b\<rparr>"
    and sub_builder: "sub (ctx\<lparr>pBlockStatementBuilder := b\<rparr>) = sub ctx"
    and status: "gid (l\<lparr>Status := s\<rparr>) = gid l" "dest (l\<lparr>Status := s\<rparr>) = dest l"
begin

lemma observe_ok:
  fixes ctx
  defines "acc \<equiv> oc_Accounts ctx"
  assumes "lic_inv gid (sub ctx)" "asc_inv acc" "to_key n ctx = Inr (key, ctx1)" "lic_locks (sub ctx) key \<noteq> []"
    and l: "l = last (lic_locks (sub ctx) key)"
    and a: "asc_states acc (dest l) = Some a"
    and pay: "pay (oc_Mode ctx) (MosaicId l) (Amount l) (Balances (optimized (asc_currency acc) a)) = Inr b"
  shows "\<exists>ctx'. LockStatusAccountBalanceObserver sub set_sub receiptType to_key dest n ctx = Inr ctx'
    \<and> lic_inv gid (sub ctx') \<and> lic_members (sub ctx') = lic_members (sub ctx)
    \<and> lic_locks (sub ctx') = (lic_locks (sub ctx))(key := butlast (lic_locks (sub ctx) key) @ [l\<lparr>Status := status_after (oc_Mode ctx)\<rparr>])
    \<and> asc_inv (oc_Accounts ctx') \<and> m_options (oc_Accounts ctx') = m_options acc
    \<and> asc_states (oc_Accounts ctx') = (asc_states acc)(dest l \<mapsto> (optimized (asc_currency acc) a)\<lparr>Balances := b\<rparr>)
    \<and> oc_Mode ctx' = oc_Mode ctx \<and> oc_Height ctx' = oc_Height ctx \<and> oc_Resolvers ctx' = oc_Resolvers ctx"
proof -
  let ?o = "optimized (asc_currency acc) a"
  obtain h d where h: "bsd_find MutableTypeTag (lic_pDelta (sub ctx)) key = (Some h, d)" "lh_back h = l"
      "\<And>l'. gid l' = key \<Longrightarrow>
         (let c' = (sub ctx)\<lparr>lic_pDelta := bsd_store key (lh_set_back l' h) d\<rparr>
          in lic_inv gid c' \<and> lic_locks c' = (lic_locks (sub ctx))(key := butlast (lic_locks (sub ctx) key) @ [l'])
             \<and> lic_members c' = lic_members (sub ctx))"
    using lic_find_back [OF assms(2,5)] l by blast
  have "gid (l\<lparr>Status := s\<rparr>) = key" for s using lic_gid_last [OF assms(2,5)] l by (simp add: status)
  note h3 = h(3) [OF this, unfolded Let_def]
  obtain acc' where acc': "asc_get (dest l) acc = Inr (?o, acc')"
      "\<And>a'. as_Address a' = dest l \<Longrightarrow> ab_inv (Balances a') \<Longrightarrow> asc_inv (asc_store a' acc')
          \<and> asc_states (asc_store a' acc') = (asc_states acc)(dest l \<mapsto> a') \<and> m_options (asc_store a' acc') = m_options acc"
    using asc_get_ok [OF assms(3) a] by blast
  obtain bl where ctx1: "ctx1 = ctx\<lparr>pBlockStatementBuilder := bl\<rparr>" using to_key [OF assms(4)] by blast
  have "as_Address a = dest l" "ab_inv (Balances a)" using asc_invD [OF assms(3)] a by auto
  then have st: "as_Address (?o\<lparr>Balances := b\<rparr>) = dest l" "ab_inv (Balances (?o\<lparr>Balances := b\<rparr>))"
    using pay_inv [OF optimized_balances(2) pay] by simp_all
  show ?thesis
  proof (cases "oc_Mode ctx")
    case Commit
    with pay have "credit (MosaicId l) (Amount l) (Balances ?o) = Inr b" by (simp add: pay_def)
    with Commit show ?thesis using assms(4) h(1,2) acc'(1) acc'(2) [OF st] h3 [of Used]
      by (simp add: LockStatusAccountBalanceObserver_def ctx1 sub_builder CacheFindIterator_get_def Let_def sub_set
          status_after_def acc_def [symmetric])
  next
    case Rollback
    with pay have "debit (MosaicId l) (Amount l) (Balances ?o) = Inr b" by (simp add: pay_def)
    with Rollback show ?thesis using assms(4) h(1,2) acc'(1) acc'(2) [OF st] h3 [of Unused]
      by (simp add: LockStatusAccountBalanceObserver_def ctx1 sub_builder CacheFindIterator_get_def Let_def sub_set
          status_after_def acc_def [symmetric])
  qed
qed

end

lemma oc_builder_refl: "\<exists>b. ctx = ctx\<lparr>pBlockStatementBuilder := b\<rparr>"
  by (rule exI [of _ "pBlockStatementBuilder ctx"]) simp

lemma Balances_update_trans:
  "a2\<lparr>Balances := x\<rparr> = a1 \<Longrightarrow> a1\<lparr>Balances := y\<rparr> = a \<Longrightarrow> a2\<lparr>Balances := y\<rparr> = (a :: AccountState)"
  by auto

context lock_traits
begin

text \<open>The outcome of an observation: the last lock gets a status, the account new balances, nothing else changes.\<close>

definition observed :: "ObserverContext \<Rightarrow> Hash256 \<Rightarrow> LockStatus \<Rightarrow> AccountState \<Rightarrow> (MosaicId \<Rightarrow> Amount) \<Rightarrow> ObserverContext \<Rightarrow> bool" where
  "observed ctx key s a f ctx' \<longleftrightarrow>
     (let l = last (lic_locks (sub ctx) key)
      in lic_inv gid (sub ctx') \<and> lic_members (sub ctx') = lic_members (sub ctx)
       \<and> lic_locks (sub ctx') = (lic_locks (sub ctx))(key := butlast (lic_locks (sub ctx) key) @ [l\<lparr>Status := s\<rparr>])
       \<and> asc_inv (oc_Accounts ctx') \<and> oc_Resolvers ctx' = oc_Resolvers ctx
       \<and> (\<exists>a'. asc_states (oc_Accounts ctx') = (asc_states (oc_Accounts ctx))(dest l \<mapsto> a') \<and> ab_get (Balances a') = f
            \<and> a'\<lparr>Balances := Balances a\<rparr> = a))"

lemma observed_payI:
  assumes "lic_inv gid (sub ctx)" "asc_inv (oc_Accounts ctx)" "to_key n ctx = Inr (key, ctx1)" "lic_locks (sub ctx) key \<noteq> []"
    and "asc_states (oc_Accounts ctx) (dest l) = Some a" "l = last (lic_locks (sub ctx) key)"
    and "\<And>b. ab_inv b \<Longrightarrow> ab_get b = ab_get (Balances a) \<Longrightarrow> \<exists>b'. pay (oc_Mode ctx) (MosaicId l) (Amount l) b = Inr b' \<and> ab_get b' = f"
  shows "\<exists>ctx'. LockStatusAccountBalanceObserver sub set_sub receiptType to_key dest n ctx = Inr ctx'
    \<and> observed ctx key (status_after (oc_Mode ctx)) a f ctx'"
proof -
  let ?o = "optimized (asc_currency (oc_Accounts ctx)) a"
  have a: "ab_inv (Balances a)" using asc_invD(4) [OF assms(2,5)] .
  obtain b where b: "pay (oc_Mode ctx) (MosaicId l) (Amount l) (Balances ?o) = Inr b" "ab_get b = f"
    using assms(7) [OF optimized_balances(2,3) [OF a]] by blast
  moreover have "(?o\<lparr>Balances := b\<rparr>)\<lparr>Balances := Balances a\<rparr> = a" by (simp add: optimized_def)
  ultimately show ?thesis
    using observe_ok [OF assms(1-4,6,5) b(1), of receiptType] unfolding observed_def Let_def assms(6) by fastforce
qed

lemma commit_ok:
  assumes "lic_inv gid (sub ctx)" "asc_inv (oc_Accounts ctx)" "oc_Mode ctx = Commit" "to_key n ctx = Inr (key, ctx1)"
    and "lic_locks (sub ctx) key \<noteq> []" "l = last (lic_locks (sub ctx) key)"
    and "asc_states (oc_Accounts ctx) (dest l) = Some a" "MosaicId l \<noteq> 0"
  shows "\<exists>ctx'. LockStatusAccountBalanceObserver sub set_sub receiptType to_key dest n ctx = Inr ctx'
    \<and> observed ctx key Used a ((ab_get (Balances a))(MosaicId l := ab_get (Balances a) (MosaicId l) + Amount l)) ctx'"
proof -
  have "\<exists>b'. pay (oc_Mode ctx) (MosaicId l) (Amount l) b = Inr b'
      \<and> ab_get b' = (ab_get (Balances a))(MosaicId l := ab_get (Balances a) (MosaicId l) + Amount l)"
    if "ab_inv b" "ab_get b = ab_get (Balances a)" for b
    using credit_ok [OF that(1) assms(8), of "Amount l"] that(2) assms(3) by (auto simp: pay_def)
  from observed_payI [OF assms(1,2,4,5,7,6) this, of receiptType] show ?thesis by (simp add: assms(3) status_after_def)
qed

lemma rollback_ok:
  assumes "lic_inv gid (sub ctx)" "asc_inv (oc_Accounts ctx)" "oc_Mode ctx = Rollback" "to_key n ctx = Inr (key, ctx1)"
    and "lic_locks (sub ctx) key \<noteq> []" "l = last (lic_locks (sub ctx) key)"
    and "asc_states (oc_Accounts ctx) (dest l) = Some a" "Amount l \<le> ab_get (Balances a) (MosaicId l)"
  shows "\<exists>ctx'. LockStatusAccountBalanceObserver sub set_sub receiptType to_key dest n ctx = Inr ctx'
    \<and> observed ctx key Unused a ((ab_get (Balances a))(MosaicId l := ab_get (Balances a) (MosaicId l) - Amount l)) ctx'"
proof -
  have "\<exists>b'. pay (oc_Mode ctx) (MosaicId l) (Amount l) b = Inr b'
      \<and> ab_get b' = (ab_get (Balances a))(MosaicId l := ab_get (Balances a) (MosaicId l) - Amount l)"
    if "ab_inv b" "ab_get b = ab_get (Balances a)" for b
    using debit_ok [OF that(1), of "Amount l" "MosaicId l"] that(2) assms(3,8) by (auto simp: pay_def)
  from observed_payI [OF assms(1,2,4,5,7,6) this, of receiptType] show ?thesis by (simp add: assms(3) status_after_def)
qed

text \<open>A rollback undoes the observation of an unused lock.\<close>

lemma rollback_undoes:
  assumes "observed ctx key Used a ((ab_get (Balances a))(MosaicId l := ab_get (Balances a) (MosaicId l) + Amount l)) ctx1"
    and "l = last (lic_locks (sub ctx) key)" "lic_locks (sub ctx) key \<noteq> []" "Status l = Unused"
    and "unat (ab_get (Balances a) (MosaicId l)) + unat (Amount l) < 2 ^ 64"
    and "sub ctx1' = sub ctx1" "oc_Accounts ctx1' = oc_Accounts ctx1" "oc_Mode ctx1' = Rollback" "to_key n ctx1' = Inr (key, ctx0)"
  shows "\<exists>ctx2 a2. LockStatusAccountBalanceObserver sub set_sub receiptType to_key dest n ctx1' = Inr ctx2
    \<and> lic_locks (sub ctx2) = lic_locks (sub ctx) \<and> lic_members (sub ctx2) = lic_members (sub ctx)
    \<and> asc_states (oc_Accounts ctx2) = (asc_states (oc_Accounts ctx))(dest l \<mapsto> a2)
    \<and> ab_get (Balances a2) = ab_get (Balances a) \<and> a2\<lparr>Balances := Balances a\<rparr> = a"
proof -
  let ?x = "ab_get (Balances a) (MosaicId l)"
  obtain a1 where o: "lic_inv gid (sub ctx1)" "lic_members (sub ctx1) = lic_members (sub ctx)" "asc_inv (oc_Accounts ctx1)"
      "lic_locks (sub ctx1) = (lic_locks (sub ctx))(key := butlast (lic_locks (sub ctx) key) @ [l\<lparr>Status := Used\<rparr>])"
      "asc_states (oc_Accounts ctx1) = (asc_states (oc_Accounts ctx))(dest l \<mapsto> a1)"
      "ab_get (Balances a1) = (ab_get (Balances a))(MosaicId l := ?x + Amount l)" "a1\<lparr>Balances := Balances a\<rparr> = a"
    using assms(1) unfolding observed_def Let_def assms(2) by blast
  have le: "Amount l \<le> ?x + Amount l" using assms(5) word_add_no_wrap [of ?x "Amount l"] by (simp add: word_le_nat_alt)
  have l1: "l\<lparr>Status := Used\<rparr> = last (lic_locks (sub ctx1') key)" "lic_locks (sub ctx1') key \<noteq> []" by (simp_all add: assms(6) o(4))
  let ?l = "l\<lparr>Status := Used\<rparr>"
  have a1: "asc_states (oc_Accounts ctx1') (dest ?l) = Some a1" "Amount ?l \<le> ab_get (Balances a1) (MosaicId ?l)"
      "(ab_get (Balances a1))(MosaicId ?l := ab_get (Balances a1) (MosaicId ?l) - Amount ?l) = ab_get (Balances a)"
    using le by (simp_all add: assms(7) o(5,6) status)
  have inv: "lic_inv gid (sub ctx1')" "asc_inv (oc_Accounts ctx1')" using o(1,3) by (simp_all add: assms(6,7))
  obtain ctx2 where "LockStatusAccountBalanceObserver sub set_sub receiptType to_key dest n ctx1' = Inr ctx2"
      "observed ctx1' key Unused a1 (ab_get (Balances a)) ctx2"
    using rollback_ok [OF inv assms(8,9) l1(2,1) a1(1,2), of receiptType] unfolding a1(3) by blast
  moreover have "(l\<lparr>Status := Used\<rparr>)\<lparr>Status := Unused\<rparr> = l" using assms(4) by simp
  moreover from this have "butlast (lic_locks (sub ctx) key) @ [(l\<lparr>Status := Used\<rparr>)\<lparr>Status := Unused\<rparr>] = lic_locks (sub ctx) key"
    using assms(2,3) by simp
  moreover have "a2\<lparr>Balances := Balances a\<rparr> = a" if "a2\<lparr>Balances := Balances a1\<rparr> = a1" for a2
    using Balances_update_trans [OF that o(7)] .
  ultimately show ?thesis
    unfolding observed_def Let_def l1(1) [symmetric] assms(6,7) o(2,4,5) by (auto simp: status fun_upd_idem)
qed

end

interpretation hash_traits: lock_traits oc_HashLocks "\<lambda>locks ctx. ctx\<lparr>oc_HashLocks := locks\<rparr>" Hash
  "\<lambda>notification ctx. Inr (tn_TransactionHash notification, ctx)" OwnerAddress
  by unfold_locales (auto simp: oc_builder_refl)

lemma oc_resolve_address_keeps:
  "oc_resolve_address u ctx = Inr (r, ctx') \<Longrightarrow> r = m_addressResolver (oc_Resolvers ctx) u \<and> (\<exists>b. ctx' = ctx\<lparr>pBlockStatementBuilder := b\<rparr>)"
  by (auto simp: oc_resolve_address_def Let_def rbind_Inr_iff split: option.splits if_splits intro: exI [of _ "pBlockStatementBuilder ctx"])

lemma oc_resolve_mosaic_keeps:
  "oc_resolve_mosaic u ctx = Inr (r, ctx') \<Longrightarrow> r = m_mosaicResolver (oc_Resolvers ctx) u \<and> (\<exists>b. ctx' = ctx\<lparr>pBlockStatementBuilder := b\<rparr>)"
  by (auto simp: oc_resolve_mosaic_def Let_def rbind_Inr_iff split: option.splits if_splits intro: exI [of _ "pBlockStatementBuilder ctx"])

lemma oc_resolve_unbuilt: "pBlockStatementBuilder ctx = None \<Longrightarrow> oc_resolve_address u ctx = Inr (m_addressResolver (oc_Resolvers ctx) u, ctx)"
  by (simp add: oc_resolve_address_def)

interpretation secret_traits: lock_traits oc_SecretLocks "\<lambda>locks ctx. ctx\<lparr>oc_SecretLocks := locks\<rparr>" CompositeHash
  "proof_key hs" RecipientAddress for hs
proof
  fix n ctx key ctx'
  assume "proof_key hs n ctx = Inr (key, ctx')"
  then show "\<exists>b. ctx' = ctx\<lparr>pBlockStatementBuilder := b\<rparr>"
    using oc_resolve_address_keeps by (auto simp: proof_key_def rbind_Inr_iff)
qed auto

lemma lic_isActive_locks:
  assumes "lic_inv gid c"
  shows "lic_isActive c key height \<longleftrightarrow> lic_locks c key \<noteq> [] \<and> li_isActive height (last (lic_locks c key))"
  using bsd_find_const_view [OF lic_invD(1) [OF assms]]
  by (auto simp: lic_isActive_def mixin_isActive_def lic_locks_def lh_isActive_def lh_empty_def lh_back_def split: option.splits)

subsection \<open>Properties of completed locks\<close>

text \<open>
  C18. A hash lock is paid back exactly once. When the validator accepts a bonded aggregate, completing it
  ends normally, credits the locked amount to the owner of the lock, touches no other account and no
  other lock; afterwards the same aggregate is rejected with an inactive hash at every height.
\<close>

theorem hash_lock_paid_once:
  fixes ctx n
  defines "acc \<equiv> oc_Accounts ctx" and "locks \<equiv> lic_locks (oc_HashLocks ctx)"
  defines "l \<equiv> last (locks (tn_TransactionHash n))"
  assumes "lic_inv Hash (oc_HashLocks ctx)" "asc_inv acc" "oc_Mode ctx = Commit"
    and "tn_TransactionType n = Entity_Type_Aggregate_Bonded" "AggregateHashPresentValidator n ctx = Success"
    and "asc_states acc (OwnerAddress l) = Some a" "MosaicId l \<noteq> 0"
  shows "\<exists>ctx' a'. CompletedAggregateObserver n ctx = Inr ctx'
    \<and> asc_states (oc_Accounts ctx') = (asc_states acc)(OwnerAddress l \<mapsto> a')
    \<and> ab_get (Balances a') = (ab_get (Balances a))(MosaicId l := ab_get (Balances a) (MosaicId l) + Amount l)
    \<and> a'\<lparr>Balances := Balances a\<rparr> = a
    \<and> (\<forall>key. key \<noteq> tn_TransactionHash n \<longrightarrow> lic_locks (oc_HashLocks ctx') key = locks key)
    \<and> (\<forall>height. AggregateHashPresentValidator n (ctx'\<lparr>oc_Height := height\<rparr>) = Failure_LockHash_Inactive_Hash)"
proof -
  let ?key = "tn_TransactionHash n"
  have ne: "lic_locks (oc_HashLocks ctx) ?key \<noteq> []"
    using assms(7,8) lic_contains_locks [OF assms(4)] by (auto simp: AggregateHashPresentValidator_def split: if_splits)
  obtain ctx' where ctx': "CompletedAggregateObserver n ctx = Inr ctx'"
      "hash_traits.observed ctx ?key Used a
         ((ab_get (Balances a))(MosaicId l := ab_get (Balances a) (MosaicId l) + Amount l)) ctx'"
    using hash_traits.commit_ok [of ctx n ?key ctx l a Receipt_Type_LockHash_Completed] assms(4-7,9,10) ne
    by (auto simp: CompletedAggregateObserver_def acc_def l_def locks_def)
  have "lic_inv Hash (oc_HashLocks ctx')" using ctx'(2) by (simp add: hash_traits.observed_def Let_def)
  then have "AggregateHashPresentValidator n (ctx'\<lparr>oc_Height := height\<rparr>) = Failure_LockHash_Inactive_Hash" for height
    using assms(7) ctx'(2) by (simp add: AggregateHashPresentValidator_def lic_contains_locks lic_isActive_locks
        hash_traits.observed_def Let_def li_isActive_def)
  with ctx' show ?thesis by (auto simp: hash_traits.observed_def Let_def acc_def l_def locks_def)
qed

text \<open>
  C39. Undoing a proof. Publishing the proof of an unused secret lock and rolling it back ends normally and
  gives back all locks, all balances of the recipient and every other account, when the credited
  balance does not overflow; the rollback runs without a statement builder.
\<close>

theorem secret_proof_rollback:
  fixes ctx n hs
  defines "acc \<equiv> oc_Accounts ctx" and "locks \<equiv> lic_locks (oc_SecretLocks ctx)"
  assumes "lic_inv CompositeHash (oc_SecretLocks ctx)" "asc_inv acc" "oc_Mode ctx = Commit"
    and "proof_key hs n ctx = Inr (key, ctx0)" "locks key \<noteq> []" "Status (last (locks key)) = Unused"
    and "asc_states acc (RecipientAddress (last (locks key))) = Some a" "MosaicId (last (locks key)) \<noteq> 0"
    and "unat (ab_get (Balances a) (MosaicId (last (locks key)))) + unat (Amount (last (locks key))) < 2 ^ 64"
  shows "\<exists>ctx1 ctx2 a2. ProofObserver hs n ctx = Inr ctx1
    \<and> ProofObserver hs n (ctx1\<lparr>oc_Mode := Rollback, pBlockStatementBuilder := None\<rparr>) = Inr ctx2
    \<and> lic_locks (oc_SecretLocks ctx2) = locks \<and> lic_members (oc_SecretLocks ctx2) = lic_members (oc_SecretLocks ctx)
    \<and> asc_states (oc_Accounts ctx2) = (asc_states acc)(RecipientAddress (last (locks key)) \<mapsto> a2)
    \<and> ab_get (Balances a2) = ab_get (Balances a) \<and> a2\<lparr>Balances := Balances a\<rparr> = a"
proof -
  obtain ctx1 where ctx1: "ProofObserver hs n ctx = Inr ctx1"
      "secret_traits.observed ctx key Used a ((ab_get (Balances a))(MosaicId (last (locks key)) :=
         ab_get (Balances a) (MosaicId (last (locks key))) + Amount (last (locks key)))) ctx1"
    using secret_traits.commit_ok [OF assms(3) assms(4) [unfolded acc_def] assms(5,6) assms(7) [unfolded locks_def] refl
        assms(9,10) [unfolded acc_def locks_def], of Receipt_Type_LockSecret_Completed]
    by (auto simp: ProofObserver_def locks_def)
  let ?ctx = "ctx1\<lparr>oc_Mode := Rollback, pBlockStatementBuilder := None\<rparr>"
  have "oc_Resolvers ctx1 = oc_Resolvers ctx" using ctx1(2) by (simp add: secret_traits.observed_def Let_def)
  then have "proof_key hs n ?ctx = Inr (key, ?ctx)"
    using assms(6) oc_resolve_address_keeps by (auto simp: proof_key_def rbind_Inr_iff oc_resolve_unbuilt)
  from secret_traits.rollback_undoes [OF ctx1(2) [unfolded locks_def] refl assms(7) [unfolded locks_def] assms(8,11) [unfolded locks_def]
      _ _ _ this, of Receipt_Type_LockSecret_Completed]
  show ?thesis using ctx1(1) by (auto simp: ProofObserver_def acc_def locks_def)
qed

subsection \<open>Expired secret locks\<close>

definition expired_receipt :: "'a LockInfo_scheme \<Rightarrow> Receipt" where
  "expired_receipt l = BalanceChangeReceipt Receipt_Type_LockSecret_Expired (MosaicId l) (Amount l) (OwnerAddress l)"

text \<open>The amount of a mosaic that a list of locks owes to an address, modulo \<open>2 ^ 64\<close>.\<close>

definition owed :: "'a LockInfo_scheme list \<Rightarrow> Address \<Rightarrow> MosaicId \<Rightarrow> Amount" where
  "owed ls address mosaicId = sum_list (map Amount (filter (\<lambda>l. OwnerAddress l = address \<and> MosaicId l = mosaicId) ls))"

definition repaid :: "'a LockInfo_scheme list \<Rightarrow> AccountStateCacheDelta \<Rightarrow> AccountStateCacheDelta \<Rightarrow> bool" where
  "repaid ls acc acc' \<longleftrightarrow>
     (\<forall>address. case asc_states acc address of
        None \<Rightarrow> asc_states acc' address = None
      | Some a \<Rightarrow> \<exists>a'. asc_states acc' address = Some a' \<and> a'\<lparr>Balances := Balances a\<rparr> = a
                   \<and> (\<forall>m. ab_get (Balances a') m = ab_get (Balances a) m + owed ls address m))"

definition dispatch_owner ::
  "(SecretLockInfo \<Rightarrow> bool) \<Rightarrow> SecretLockInfo \<Rightarrow> (AccountState \<Rightarrow> Receipt list \<Rightarrow> exn + AccountState \<times> Receipt list)
     \<Rightarrow> Receipt list \<Rightarrow> AccountStateCacheDelta \<Rightarrow> exn + Receipt list \<times> AccountStateCacheDelta" where
  "dispatch_owner expiring l accountStateConsumer receipts accounts =
     (if expiring l then
        rbind (asc_get (OwnerAddress l) accounts) (\<lambda>(accountState, accounts).
        rbind (accountStateConsumer accountState receipts) (\<lambda>(accountState, receipts).
        Inr (receipts, asc_store accountState accounts)))
      else Inr (receipts, accounts))"

lemma dispatch_owner_ok:
  assumes "asc_inv acc" "asc_states acc (OwnerAddress l) = Some a" "MosaicId l \<noteq> 0" "expiring l"
  shows "\<exists>acc'. dispatch_owner expiring l (expire_consumer Commit Receipt_Type_LockSecret_Expired l) rs acc
      = Inr (rs @ [expired_receipt l], acc') \<and> asc_inv acc' \<and> repaid [l] acc acc'"
proof -
  let ?o = "optimized (asc_currency acc) a"
  have a: "ab_inv (Balances a)" "as_Address a = OwnerAddress l" using asc_invD(4,3) [OF assms(1,2)] .
  obtain b where b: "credit (MosaicId l) (Amount l) (Balances ?o) = Inr b" "ab_inv b"
      "ab_get b = (ab_get (Balances ?o))(MosaicId l := ab_get (Balances ?o) (MosaicId l) + Amount l)"
    using credit_ok [OF optimized_balances(2) [OF a(1), of "asc_currency acc"] assms(3), of "Amount l"] by blast
  let ?a = "?o\<lparr>Balances := b\<rparr>"
  obtain acc1 where acc1: "asc_get (OwnerAddress l) acc = Inr (?o, acc1)" "asc_inv (asc_store ?a acc1)"
      "asc_states (asc_store ?a acc1) = (asc_states acc)(OwnerAddress l \<mapsto> ?a)"
    using asc.get_ok [OF assms(1,2)] a(2) b(2) by auto
  have "?a\<lparr>Balances := Balances a\<rparr> = a" by (simp add: optimized_def)
  then have "repaid [l] acc (asc_store ?a acc1)"
    using assms(2) optimized_balances(3) [OF a(1), of "asc_currency acc"] b(3)
    by (auto simp: repaid_def acc1(3) owed_def split: option.splits)
  with acc1(1,2) b(1) assms(4) a(2) show ?thesis
    by (simp add: dispatch_owner_def expire_consumer_def expired_receipt_def)
qed

lemma repaid_refl: "repaid [] acc acc"
  by (auto simp: repaid_def owed_def split: option.splits)

lemma repaidD:
  assumes "repaid ls acc acc'"
  shows "asc_states acc address = None \<Longrightarrow> asc_states acc' address = None"
    and "asc_states acc address = Some a \<Longrightarrow> \<exists>a'. asc_states acc' address = Some a' \<and> a'\<lparr>Balances := Balances a\<rparr> = a
      \<and> (\<forall>m. ab_get (Balances a') m = ab_get (Balances a) m + owed ls address m)"
  using spec [OF assms [unfolded repaid_def], of address] by simp_all

lemma repaid_trans:
  assumes "repaid ls acc acc1" "repaid ls' acc1 acc2"
  shows "repaid (ls @ ls') acc acc2"
  unfolding repaid_def
proof
  fix address
  show "case asc_states acc address of None \<Rightarrow> asc_states acc2 address = None
      | Some a \<Rightarrow> \<exists>a'. asc_states acc2 address = Some a' \<and> a'\<lparr>Balances := Balances a\<rparr> = a
          \<and> (\<forall>m. ab_get (Balances a') m = ab_get (Balances a) m + owed (ls @ ls') address m)"
  proof (cases "asc_states acc address")
    case None
    then show ?thesis using repaidD(1) [OF assms(2) repaidD(1) [OF assms(1) None]] by simp
  next
    case (Some a)
    obtain a1 where a1: "asc_states acc1 address = Some a1" "a1\<lparr>Balances := Balances a\<rparr> = a"
        "\<And>m. ab_get (Balances a1) m = ab_get (Balances a) m + owed ls address m"
      using repaidD(2) [OF assms(1) Some] by blast
    obtain a2 where a2: "asc_states acc2 address = Some a2" "a2\<lparr>Balances := Balances a1\<rparr> = a1"
        "\<And>m. ab_get (Balances a2) m = ab_get (Balances a1) m + owed ls' address m"
      using repaidD(2) [OF assms(2) a1(1)] by blast
    show ?thesis using Some a1(3) a2(1,3) Balances_update_trans [OF a2(2) a1(2)] by (simp add: owed_def add.assoc)
  qed
qed

lemma repaid_dom: "repaid ls acc acc' \<Longrightarrow> asc_states acc address \<noteq> None \<Longrightarrow> asc_states acc' address \<noteq> None"
  using repaidD(2) [of ls acc acc' address] by (cases "asc_states acc address") auto

lemma expire_loop:
  assumes "asc_inv acc" "\<forall>l \<in> set ls. expiring l \<longrightarrow> asc_states acc (OwnerAddress l) \<noteq> None \<and> MosaicId l \<noteq> 0"
  shows "\<exists>acc'. rfold (\<lambda>l (rs, acc). dispatch_owner expiring l (expire_consumer Commit Receipt_Type_LockSecret_Expired l) rs acc)
      ls (rs, acc) = Inr (rs @ map expired_receipt (filter expiring ls), acc') \<and> asc_inv acc' \<and> repaid (filter expiring ls) acc acc'"
  using assms
proof (induction ls arbitrary: rs acc)
  case Nil
  then show ?case by (simp add: repaid_refl)
next
  case (Cons l ls)
  show ?case
  proof (cases "expiring l")
    case False
    then show ?thesis using Cons by (simp add: dispatch_owner_def)
  next
    case True
    then obtain a where a: "asc_states acc (OwnerAddress l) = Some a" "MosaicId l \<noteq> 0" using Cons.prems(2) by auto
    obtain acc1 where acc1: "dispatch_owner expiring l (expire_consumer Commit Receipt_Type_LockSecret_Expired l) rs acc
        = Inr (rs @ [expired_receipt l], acc1)" "asc_inv acc1" "repaid [l] acc acc1"
      using dispatch_owner_ok [where expiring = expiring, OF Cons.prems(1) a True] by blast
    have "\<forall>l \<in> set ls. expiring l \<longrightarrow> asc_states acc1 (OwnerAddress l) \<noteq> None \<and> MosaicId l \<noteq> 0"
      using Cons.prems(2) repaid_dom [OF acc1(3)] by simp
    from Cons.IH [OF acc1(2) this, of "rs @ [expired_receipt l]"] True acc1(1) repaid_trans [OF acc1(3)]
    show ?thesis by fastforce
  qed
qed

lemma fold_osb_addReceipt:
  "fold osb_addReceipt rs ctx = ctx\<lparr>pBlockStatementBuilder := map_option (fold bsb_addReceipt rs) (pBlockStatementBuilder ctx)\<rparr>"
proof (induction rs arbitrary: ctx)
  case Nil
  then show ?case by (simp add: option.map_id0 [unfolded id_def])
next
  case (Cons r rs)
  then show ?case by (cases "pBlockStatementBuilder ctx") (simp_all add: osb_addReceipt_def)
qed

text \<open>
  C19. Expired secret locks are repaid. At a height that is not skipped, committing the expiration ends
  normally when the owners of the expiring locks exist, and credits every account with exactly the sum
  of the amounts of its expiring locks, mosaic by mosaic. The expiring locks are the unused current locks
  grouped at the height that end there, or all of them at a forced height. The locks stay as they are, and
  every repayment is recorded in a receipt, in the order of the bytes of the receipts.
\<close>

theorem expired_secret_locks_repaid:
  fixes ctx forceHeights
  defines "expired \<equiv> fst (lic_processUnusedExpiredLocks (oc_Height ctx) (oc_SecretLocks ctx))"
  defines "expiring \<equiv> filter (\<lambda>l. oc_Height ctx = EndHeight l \<or> oc_Height ctx \<in> set forceHeights) expired"
  assumes "lic_inv CompositeHash (oc_SecretLocks ctx)" "asc_inv (oc_Accounts ctx)" "oc_Mode ctx = Commit"
    and "oc_Height ctx \<notin> set skipHeights"
    and "\<forall>l \<in> set expiring. asc_states (oc_Accounts ctx) (OwnerAddress l) \<noteq> None \<and> MosaicId l \<noteq> 0"
  shows "\<exists>ctx'. ExpiredSecretLockInfoObserver skipHeights forceHeights ctx = Inr ctx'
    \<and> repaid expiring (oc_Accounts ctx) (oc_Accounts ctx')
    \<and> lic_locks (oc_SecretLocks ctx') = lic_locks (oc_SecretLocks ctx)
    \<and> pBlockStatementBuilder ctx'
        = map_option (fold bsb_addReceipt (sort_receipts (map expired_receipt expiring))) (pBlockStatementBuilder ctx)"
proof -
  let ?e = "\<lambda>l. oc_Height ctx = EndHeight l \<or> oc_Height ctx \<in> set forceHeights"
  obtain locks where p: "lic_processUnusedExpiredLocks (oc_Height ctx) (oc_SecretLocks ctx) = (expired, locks)"
      "lic_locks locks = lic_locks (oc_SecretLocks ctx)"
    using lic_process_ok [OF assms(3), of "oc_Height ctx"] by (auto simp: expired_def)
  have "\<forall>l \<in> set expired. ?e l \<longrightarrow> asc_states (oc_Accounts ctx) (OwnerAddress l) \<noteq> None \<and> MosaicId l \<noteq> 0"
    using assms(7) by (simp add: expiring_def)
  from expire_loop [OF assms(4) this, of "[]"] obtain acc' where acc':
      "rfold (\<lambda>l (rs, acc). dispatch_owner ?e l (expire_consumer Commit Receipt_Type_LockSecret_Expired l) rs acc)
         expired ([], oc_Accounts ctx) = Inr (map expired_receipt expiring, acc')" "repaid expiring (oc_Accounts ctx) acc'"
    by (auto simp: expiring_def)
  have "ExpiredSecretLockInfoObserver skipHeights forceHeights ctx
      = Inr (fold osb_addReceipt (sort_receipts (map expired_receipt expiring)) (ctx\<lparr>oc_Accounts := acc', oc_SecretLocks := locks\<rparr>))"
    using acc'(1) p(1) assms(5,6)
    by (simp add: ExpiredSecretLockInfoObserver_def ExpiredLockInfoObserver_def dispatch_owner_def)
  then show ?thesis using acc'(2) p(2) by (simp add: fold_osb_addReceipt)
qed

subsection \<open>The order of receipts\<close>

lemma receipt_bytes_inj: "inj_on receipt_bytes {r. is_BalanceChangeReceipt r}"
proof (rule inj_onI)
  fix r r'
  assume *: "r \<in> {r. is_BalanceChangeReceipt r}" "r' \<in> {r. is_BalanceChangeReceipt r}" "receipt_bytes r = receipt_bytes r'"
  then obtain t m a d t' m' a' d' where r: "r = BalanceChangeReceipt t m a d" "r' = BalanceChangeReceipt t' m' a' d'"
    by (auto simp: is_BalanceChangeReceipt_def)
  have "bytes_le 2 t = bytes_le 2 t'" "bytes_le 8 m = bytes_le 8 m'" "bytes_le 8 a = bytes_le 8 a'" "array_bytes 24 d = array_bytes 24 d'"
    using *(3) by (simp_all add: r)
  then show "r = r'"
    using bytes_le_inj [of 2 t t'] bytes_le_inj [of 8 m m'] bytes_le_inj [of 8 a a'] array_bytes_inj [of 24 d d'] by (simp add: r)
qed

lemma filter_eq_mset: "mset xs = mset ys \<Longrightarrow> filter (\<lambda>y. x = y) xs = filter (\<lambda>y. x = y) ys"
  by (metis mset_filter replicate_length_filter size_mset)

text \<open>
  The receipts of expired locks are recorded in a deterministic order. Whatever order the unordered
  set of identifiers delivers the expired locks in, sorting the receipts by their memory gives the same
  sequence.
\<close>

theorem expired_receipts_deterministic:
  assumes "mset rs = mset rs'" "\<forall>r \<in> set rs. is_BalanceChangeReceipt r"
  shows "sort_receipts rs = sort_receipts rs'"
  unfolding sort_receipts_def
proof (rule properties_for_sort_key)
  show m: "mset (sort_key receipt_bytes rs') = mset rs" using assms(1) by simp
  fix k
  assume "k \<in> set (sort_key receipt_bytes rs')"
  have set: "set rs' = set rs" using assms(1) by (metis mset_eq_setD)
  have eq: "(receipt_bytes k = receipt_bytes r) = (k = r)" if "r \<in> set rs" for r
    using receipt_bytes_inj that assms(2) \<open>k \<in> _\<close> set by (auto dest: inj_onD)
  have "filter (\<lambda>x. receipt_bytes k = receipt_bytes x) (sort_key receipt_bytes rs') = filter (\<lambda>x. k = x) (sort_key receipt_bytes rs')"
    using eq set by (intro filter_cong) auto
  also have "\<dots> = filter (\<lambda>x. k = x) rs" by (rule filter_eq_mset [OF m])
  also have "\<dots> = filter (\<lambda>x. receipt_bytes k = receipt_bytes x) rs" using eq by (intro filter_cong) auto
  finally show "filter (\<lambda>x. receipt_bytes k = receipt_bytes x) (sort_key receipt_bytes rs')
      = filter (\<lambda>x. receipt_bytes k = receipt_bytes x) rs" .
qed simp

theorem expired_receipts_deterministic_witness:
  "sort_receipts [BalanceChangeReceipt 7 1 2 3, BalanceChangeReceipt 7 256 1 4]
     = sort_receipts [BalanceChangeReceipt 7 256 1 4, BalanceChangeReceipt 7 1 2 3]"
  by (rule expired_receipts_deterministic) auto

subsection \<open>Witnesses\<close>

definition example_accounts :: AccountStateCacheDelta where
  "example_accounts = asc_new example_options [(5, new_AccountState 5 1)] smap_empty"

lemma example_accounts_ok [simp]:
  "asc_inv example_accounts" "asc_states example_accounts = [5 \<mapsto> new_AccountState 5 1]"
  by (simp_all add: example_accounts_def asc_new_def asc_inv_def asc_states_def smap_find_def fun_eq_iff)

definition example_hash_lock :: HashLockInfo where
  "example_hash_lock = new_HashLockInfo 5 9 100 50 77"

definition example_secret_lock :: SecretLockInfo where
  "example_secret_lock = (new_SecretLockInfo 5 9 100 50 0 77 5)\<lparr>CompositeHash := 7\<rparr>"

definition example_hashes :: LockHashes where
  "example_hashes = \<lparr>Sha3_256 = (\<lambda>_. 7), Bitcoin160 = (\<lambda>_. 0), Sha256Double = (\<lambda>_. 0)\<rparr>"

definition example_context :: "HashLockInfo LockInfoCacheDelta \<Rightarrow> SecretLockInfo LockInfoCacheDelta \<Rightarrow> ObserverContext" where
  "example_context hl sl = \<lparr>oc_Height = 50, oc_Mode = Commit, oc_Resolvers = \<lparr>m_mosaicResolver = id, m_addressResolver = id\<rparr>,
     oc_HashLocks = hl, oc_SecretLocks = sl, oc_Accounts = example_accounts, pBlockStatementBuilder = None\<rparr>"

lemma example_locks:
  "\<exists>hl. lic_insert Hash example_hash_lock lic_new = Inr hl \<and> lic_inv Hash hl \<and> lic_locks hl = (\<lambda>_. [])(77 := [example_hash_lock])"
  "\<exists>sl. lic_insert CompositeHash example_secret_lock lic_new = Inr sl \<and> lic_inv CompositeHash sl
     \<and> lic_locks sl = (\<lambda>_. [])(7 := [example_secret_lock]) \<and> lic_members sl = (\<lambda>_. {})(50 := {7})"
proof -
  have "Hash example_hash_lock = 77" by (simp add: example_hash_lock_def new_HashLockInfo_def LockInfo.LockInfo.defs HashLockInfo.defs)
  then show "\<exists>hl. lic_insert Hash example_hash_lock lic_new = Inr hl \<and> lic_inv Hash hl \<and> lic_locks hl = (\<lambda>_. [])(77 := [example_hash_lock])"
    using lic.ins_ok [of Hash lic_new example_hash_lock] by auto
  have "CompositeHash example_secret_lock = 7" "EndHeight example_secret_lock = 50"
    by (simp_all add: example_secret_lock_def new_SecretLockInfo_def LockInfo.LockInfo.defs SecretLockInfo.defs new_LockInfo_def)
  then show "\<exists>sl. lic_insert CompositeHash example_secret_lock lic_new = Inr sl \<and> lic_inv CompositeHash sl
     \<and> lic_locks sl = (\<lambda>_. [])(7 := [example_secret_lock]) \<and> lic_members sl = (\<lambda>_. {})(50 := {7})"
    using lic.ins_ok [of CompositeHash lic_new example_secret_lock] by auto
qed

lemma example_lock_fields [simp]:
  "OwnerAddress example_hash_lock = 5" "MosaicId example_hash_lock = 9" "EndHeight example_hash_lock = 50"
  "Status example_hash_lock = Unused" "OwnerAddress example_secret_lock = 5" "MosaicId example_secret_lock = 9"
  "Amount example_secret_lock = 100" "EndHeight example_secret_lock = 50" "Status example_secret_lock = Unused"
  "RecipientAddress example_secret_lock = 5"
  by (simp_all add: example_hash_lock_def new_HashLockInfo_def example_secret_lock_def new_SecretLockInfo_def new_LockInfo_def
      LockInfo.LockInfo.defs HashLockInfo.defs SecretLockInfo.defs)

lemma ab_get_new_account: "ab_get (Balances (new_AccountState address height)) = (\<lambda>_. 0)"
  by (simp add: new_AccountState_def ab_new_get)

theorem hash_lock_paid_once_witness:
  "\<exists>hl ctx'. lic_insert Hash example_hash_lock lic_new = Inr hl
    \<and> CompletedAggregateObserver \<lparr>tn_Sender = 1, tn_TransactionHash = 77, tn_TransactionType = Entity_Type_Aggregate_Bonded, tn_Deadline = 0\<rparr>
        ((example_context hl lic_new)\<lparr>oc_Height := 40\<rparr>) = Inr ctx'
    \<and> AggregateHashPresentValidator
        \<lparr>tn_Sender = 1, tn_TransactionHash = 77, tn_TransactionType = Entity_Type_Aggregate_Bonded, tn_Deadline = 0\<rparr> (ctx'\<lparr>oc_Height := 41\<rparr>)
        = Failure_LockHash_Inactive_Hash"
proof -
  obtain hl where hl: "lic_insert Hash example_hash_lock lic_new = Inr hl" "lic_inv Hash hl"
      "lic_locks hl = (\<lambda>_. [])(77 := [example_hash_lock])"
    using example_locks(1) by blast
  let ?n = "\<lparr>tn_Sender = 1, tn_TransactionHash = 77, tn_TransactionType = Entity_Type_Aggregate_Bonded, tn_Deadline = 0\<rparr>"
  let ?ctx = "(example_context hl lic_new)\<lparr>oc_Height := 40\<rparr>"
  have p: "lic_inv Hash (oc_HashLocks ?ctx)" "asc_inv (oc_Accounts ?ctx)" "oc_Mode ?ctx = Commit"
      "tn_TransactionType ?n = Entity_Type_Aggregate_Bonded"
    using hl(2) by (simp_all add: example_context_def)
  have v: "AggregateHashPresentValidator ?n ?ctx = Success"
    using hl by (simp add: AggregateHashPresentValidator_def example_context_def lic_contains_locks lic_isActive_locks li_isActive_def)
  have "asc_states (oc_Accounts ?ctx) (OwnerAddress (last (lic_locks (oc_HashLocks ?ctx) (tn_TransactionHash ?n))))
      = Some (new_AccountState 5 1)" "MosaicId (last (lic_locks (oc_HashLocks ?ctx) (tn_TransactionHash ?n))) \<noteq> 0"
    using hl(3) by (simp_all add: example_context_def)
  from hash_lock_paid_once [OF p v this] hl(1) show ?thesis by blast
qed

theorem secret_proof_rollback_witness:
  "\<exists>sl ctx1 ctx2. lic_insert CompositeHash example_secret_lock lic_new = Inr sl
    \<and> ProofObserver example_hashes \<lparr>ppn_Owner = 1, ppn_HashAlgorithm = 0, ppn_Secret = 77, ppn_Recipient = 5\<rparr>
        (example_context lic_new sl) = Inr ctx1
    \<and> ProofObserver example_hashes \<lparr>ppn_Owner = 1, ppn_HashAlgorithm = 0, ppn_Secret = 77, ppn_Recipient = 5\<rparr>
        (ctx1\<lparr>oc_Mode := Rollback, pBlockStatementBuilder := None\<rparr>) = Inr ctx2
    \<and> lic_locks (oc_SecretLocks ctx2) = lic_locks sl"
proof -
  obtain sl where sl: "lic_insert CompositeHash example_secret_lock lic_new = Inr sl" "lic_inv CompositeHash sl"
      "lic_locks sl = (\<lambda>_. [])(7 := [example_secret_lock])"
    using example_locks(2) by blast
  let ?n = "\<lparr>ppn_Owner = 1, ppn_HashAlgorithm = 0, ppn_Secret = 77, ppn_Recipient = 5\<rparr>"
  let ?ctx = "example_context lic_new sl"
  have "proof_key example_hashes ?n ?ctx = Inr (7, ?ctx)"
    by (simp add: proof_key_def oc_resolve_address_def example_context_def CalculateSecretLockInfoHash_def example_hashes_def)
  from secret_proof_rollback [OF _ _ _ this, of "new_AccountState 5 1"] sl show ?thesis
    by (auto simp: example_context_def ab_get_new_account)
qed

theorem expired_secret_locks_repaid_witness:
  "\<exists>sl ctx'. lic_insert CompositeHash example_secret_lock lic_new = Inr sl
    \<and> ExpiredSecretLockInfoObserver [] [] (example_context lic_new sl) = Inr ctx'
    \<and> repaid [example_secret_lock] example_accounts (oc_Accounts ctx')"
proof -
  obtain sl where sl: "lic_insert CompositeHash example_secret_lock lic_new = Inr sl" "lic_inv CompositeHash sl"
      "lic_locks sl = (\<lambda>_. [])(7 := [example_secret_lock])" "lic_members sl = (\<lambda>_. {})(50 := {7})"
    using example_locks(2) by blast
  let ?ctx = "example_context lic_new sl"
  have "set (group_ids (lic_pHeightGroupingDelta sl) 50) = {7}" "distinct (group_ids (lic_pHeightGroupingDelta sl) 50)"
    using sl(4) group_ids_distinct [OF lic_invD(2) [OF sl(2)]] by (simp_all add: group_members_ids [symmetric])
  then have "group_ids (lic_pHeightGroupingDelta sl) 50 = [7]"
    by (cases "group_ids (lic_pHeightGroupingDelta sl) 50"; cases "tl (group_ids (lic_pHeightGroupingDelta sl) 50)") auto
  then have "fst (lic_processUnusedExpiredLocks 50 sl) = [example_secret_lock]"
    using lic_process_ok [OF sl(2), of 50] sl(3) by auto
  with expired_secret_locks_repaid [of ?ctx "[]" "[]"] sl show ?thesis by (auto simp: example_context_def)
qed

end
