(* ===== verification/Merkle.thy ===== *)
theory Merkle
  imports Prelude
begin

section \<open>Merkle hashes (catapult/crypto/MerkleHashBuilder)\<close>

text \<open>
  The builder collects hashes and reduces them in place, level by level, to a single hash. The hash
  function is an argument: \<open>Sha3_256\<close> of a list of hashes stands for the digest of their
  concatenated bytes. The consumer of \<open>Final\<close>, a callback, is the list of the hashes it was given.
  Sizes and indexes are natural numbers: the 32 bit loop index of the source does not wrap for fewer
  than \<open>2 ^ 32\<close> hashes.
\<close>

subsection \<open>Definitions\<close>

type_synonym MerkleHashBuilder = "Hash256 list"

definition mhb_update :: "Hash256 \<Rightarrow> MerkleHashBuilder \<Rightarrow> MerkleHashBuilder" where
  "mhb_update hash m_hashes = m_hashes @ [hash]"

text \<open>The inner loop: one level of the tree is hashed pairwise into the front of the same array.\<close>

function FinalRound ::
  "(Hash256 list \<Rightarrow> Hash256) \<Rightarrow> nat \<Rightarrow> nat \<Rightarrow> Hash256 list \<Rightarrow> Hash256 list \<Rightarrow> nat \<times> Hash256 list \<times> Hash256 list" where
  "FinalRound Sha3_256 i numRemainingHashes hashes consumed =
     (if i < numRemainingHashes then
        (if i + 1 < numRemainingHashes then
           let hash = Sha3_256 [hashes ! i, hashes ! (i + 1)]
           in FinalRound Sha3_256 (i + 2) numRemainingHashes (hashes[i div 2 := hash]) (consumed @ [hash])
         else
           let hash = Sha3_256 [hashes ! i, hashes ! i]
           in FinalRound Sha3_256 (i + 2) (numRemainingHashes + 1) (hashes[i div 2 := hash]) (consumed @ [hash]))
      else (numRemainingHashes, hashes, consumed))"
  by pat_completeness auto
termination
  by (relation "measure (\<lambda>(_, i, n, _, _). n + 1 - i)") auto

declare FinalRound.simps [simp del]

lemma FinalRound_end: "n \<le> i \<Longrightarrow> FinalRound sha i n hs cs = (n, hs, cs)"
  by (simp add: FinalRound.simps)

lemma FinalRound_count:
  "i \<le> n \<Longrightarrow> even i \<Longrightarrow> fst (FinalRound sha i n hs cs) = n + n mod 2"
proof (induction sha i n hs cs rule: FinalRound.induct)
  case (1 sha i n hs cs)
  consider (pair) "i + 1 < n" | (odd) "n = i + 1" | (finished) "n = i" using "1.prems" by linarith
  then show ?case
  proof cases
    case pair
    then show ?thesis using 1 by (subst FinalRound.simps) (simp add: Let_def)
  next
    case odd
    moreover have "n mod 2 = 1" using odd "1.prems"(2) by presburger
    ultimately show ?thesis by (subst FinalRound.simps) (simp add: Let_def FinalRound_end)
  next
    case finished
    moreover have "n mod 2 = 0" using finished "1.prems"(2) by presburger
    ultimately show ?thesis by (simp add: FinalRound_end)
  qed
qed

text \<open>The outer loop ends because a level of more than one hash shrinks.\<close>

function FinalLoop ::
  "(Hash256 list \<Rightarrow> Hash256) \<Rightarrow> nat \<Rightarrow> Hash256 list \<Rightarrow> Hash256 list \<Rightarrow> Hash256 list \<times> Hash256 list" where
  "FinalLoop Sha3_256 numRemainingHashes hashes consumed =
     (if 1 < numRemainingHashes then
        let consumed = (if numRemainingHashes mod 2 = 1 then consumed @ [hashes ! (numRemainingHashes - 1)] else consumed);
            (n, hashes', consumed') = FinalRound Sha3_256 0 numRemainingHashes hashes consumed
        in FinalLoop Sha3_256 (n div 2) hashes' consumed'
      else (hashes, consumed))"
  by pat_completeness auto
termination
proof (relation "measure (\<lambda>(_, n, _, _). n)", goal_cases)
  case (2 sha n hs cs cs' r n' r' hs' cs'')
  then have "n' = n + n mod 2" using FinalRound_count [of 0 n sha hs cs'] by (metis dvd_0_right fst_conv zero_le)
  moreover have "(n + n mod 2) div 2 < n" using 2(1) by presburger
  ultimately show ?case by simp
qed simp

declare FinalLoop.simps [simp del]

definition Final :: "(Hash256 list \<Rightarrow> Hash256) \<Rightarrow> Hash256 list \<Rightarrow> Hash256 \<times> Hash256 list" where
  "Final Sha3_256 hashes =
     (if hashes = [] then (0, [0])
      else let (hashes', consumed) = FinalLoop Sha3_256 (length hashes) hashes hashes in (hashes' ! 0, consumed))"

definition mhb_final_hash :: "(Hash256 list \<Rightarrow> Hash256) \<Rightarrow> MerkleHashBuilder \<Rightarrow> Hash256" where
  "mhb_final_hash Sha3_256 m_hashes = fst (Final Sha3_256 m_hashes)"

definition mhb_final_tree :: "(Hash256 list \<Rightarrow> Hash256) \<Rightarrow> MerkleHashBuilder \<Rightarrow> Hash256 list" where
  "mhb_final_tree Sha3_256 m_hashes = snd (Final Sha3_256 m_hashes)"

function TreeSize_loop :: "nat \<Rightarrow> nat \<Rightarrow> nat" where
  "TreeSize_loop i acc = (if 1 < i then TreeSize_loop ((i + 1) div 2) (acc + i) else acc)"
  by pat_completeness auto
termination
  by (relation "measure fst") auto

declare TreeSize_loop.simps [simp del]

definition TreeSize :: "nat \<Rightarrow> nat" where
  "TreeSize leafCount =
     (let adjustedLeafCount = (if 1 = leafCount then 1 else if leafCount mod 2 = 0 then leafCount else leafCount + 1);
          size = TreeSize_loop adjustedLeafCount 0
      in if 2 \<le> size then size + 1 else 1)"

subsection \<open>Reference: the levels of the tree\<close>

fun parents :: "(Hash256 list \<Rightarrow> Hash256) \<Rightarrow> Hash256 list \<Rightarrow> Hash256 list" where
  "parents sha (a # b # hs) = sha [a, b] # parents sha hs"
| "parents sha [a] = [sha [a, a]]"
| "parents sha [] = []"

lemma length_parents: "length (parents sha hs) = (length hs + 1) div 2"
  by (induction sha hs rule: parents.induct) auto

text \<open>The root of a nonempty list, and its nodes level by level, odd levels padded with their last node.\<close>

function merkle_root :: "(Hash256 list \<Rightarrow> Hash256) \<Rightarrow> Hash256 list \<Rightarrow> Hash256" where
  "merkle_root sha hs = (if 1 < length hs then merkle_root sha (parents sha hs) else hd hs)"
  by pat_completeness auto
termination
  by (relation "measure (\<lambda>(_, hs). length hs)") (auto simp: length_parents)

definition pad :: "Hash256 list \<Rightarrow> Hash256 list" where
  "pad hs = (if odd (length hs) then hs @ [last hs] else hs)"

function merkle_nodes :: "(Hash256 list \<Rightarrow> Hash256) \<Rightarrow> Hash256 list \<Rightarrow> Hash256 list" where
  "merkle_nodes sha hs = (if 1 < length hs then pad hs @ merkle_nodes sha (parents sha hs) else hs)"
  by pat_completeness auto
termination
  by (relation "measure (\<lambda>(_, hs). length hs)") (auto simp: length_parents)

declare merkle_root.simps [simp del] merkle_nodes.simps [simp del]

lemma take_drop_pair:
  assumes "i + 1 < n" "n \<le> length hs"
  shows "take (n - i) (drop i hs) = hs ! i # hs ! (i + 1) # take (n - (i + 2)) (drop (i + 2) hs)"
proof -
  have "drop i hs = hs ! i # hs ! (i + 1) # drop (i + 2) hs"
    using assms by (simp add: Cons_nth_drop_Suc [symmetric])
  moreover have "n - i = Suc (Suc (n - (i + 2)))" using assms by simp
  ultimately show ?thesis by simp
qed

lemma FinalRound_level:
  assumes "i \<le> n" "even i" "n \<le> length hs"
  shows "\<exists>hs'. FinalRound sha i n hs cs = (n + n mod 2, hs', cs @ parents sha (take (n - i) (drop i hs)))
    \<and> length hs' = length hs
    \<and> take ((n + 1) div 2) hs' = take (i div 2) hs @ parents sha (take (n - i) (drop i hs))"
  using assms
proof (induction sha i n hs cs rule: FinalRound.induct)
  case (1 sha i n hs cs)
  consider (pair) "i + 1 < n" | (odd) "n = i + 1" | (finished) "i = n" using "1.prems" by linarith
  then show ?case
  proof cases
    case pair
    let ?h = "sha [hs ! i, hs ! (i + 1)]"
    let ?hs = "hs[i div 2 := ?h]"
    have d: "drop (i + 2) ?hs = drop (i + 2) hs" by (rule drop_update_cancel) simp
    have t: "take ((i + 2) div 2) ?hs = take (i div 2) hs @ [?h]"
      using pair "1.prems" by (simp add: take_Suc_conv_app_nth)
    have i: "i < n" using pair by simp
    obtain hs' where "FinalRound sha (i + 2) n ?hs (cs @ [?h])
          = (n + n mod 2, hs', (cs @ [?h]) @ parents sha (take (n - (i + 2)) (drop (i + 2) hs)))"
        "length hs' = length hs"
        "take ((n + 1) div 2) hs' = take (i div 2) hs @ [?h] @ parents sha (take (n - (i + 2)) (drop (i + 2) hs))"
      using "1.IH"(1) [OF i pair refl] pair "1.prems" unfolding d t by auto
    then show ?thesis
      using i pair "1.prems" by (subst FinalRound.simps) (simp add: Let_def take_drop_pair [OF pair])
  next
    case odd
    have "take (n - i) (drop i hs) = [hs ! i]" using odd "1.prems" by (simp add: take_Suc_conv_app_nth take_Suc hd_drop_conv_nth)
    moreover have "(n + 1) div 2 = Suc (i div 2)" "n mod 2 = 1" using odd "1.prems"(2) by presburger+
    ultimately show ?thesis using odd "1.prems"
      by (subst FinalRound.simps) (simp add: Let_def FinalRound_end take_Suc_conv_app_nth)
  next
    case finished
    moreover have "(n + 1) div 2 = i div 2" "n mod 2 = 0" using finished "1.prems"(2) by presburger+
    ultimately show ?thesis by (simp add: FinalRound_end)
  qed
qed

lemma FinalLoop_levels:
  assumes "0 < n" "n \<le> length hs" 
  shows "\<exists>hs'. FinalLoop sha n hs (cs @ take n hs) = (hs', cs @ merkle_nodes sha (take n hs))
    \<and> hs' ! 0 = merkle_root sha (take n hs)"
  using assms
proof (induction n arbitrary: hs cs rule: less_induct)
  case (less n)
  let ?hs = "take n hs"
  show ?case
  proof (cases "1 < n")
    case False
    then have "n = 1" "hs \<noteq> []" using less.prems by auto
    then show ?thesis using less.prems
      by (subst FinalLoop.simps) (auto simp: merkle_root.simps merkle_nodes.simps hd_conv_nth)
  next
    case True
    have len: "length ?hs = n" using less.prems by simp
    let ?cs = "if n mod 2 = 1 then (cs @ ?hs) @ [hs ! (n - 1)] else cs @ ?hs"
    have "last ?hs = hs ! (n - 1)" using less.prems by (subst last_conv_nth) auto
    then have cs: "?cs = cs @ pad ?hs" using len by (auto simp: pad_def odd_iff_mod_2_eq_one)
    obtain hs' where r: "FinalRound sha 0 n hs ?cs = (n + n mod 2, hs', ?cs @ parents sha ?hs)"
        "length hs' = length hs" "take ((n + 1) div 2) hs' = parents sha ?hs"
      using FinalRound_level [of 0 n hs sha ?cs] less.prems by auto
    have m: "(n + n mod 2) div 2 = (n + 1) div 2" by presburger
    have lt: "(n + 1) div 2 < n" "0 < (n + 1) div 2" "(n + 1) div 2 \<le> length hs'" using True less.prems r(2) by auto
    from less.IH [OF this, of "cs @ pad ?hs"] True r show ?thesis
      unfolding FinalLoop.simps [of sha n] merkle_root.simps [of sha ?hs] merkle_nodes.simps [of sha ?hs] len Let_def
      unfolding cs by (simp add: m)
  qed
qed

lemma merkle_nodes_ends:
  assumes "hs \<noteq> []"
  shows "take (length hs) (merkle_nodes sha hs) = hs \<and> merkle_nodes sha hs \<noteq> []
    \<and> last (merkle_nodes sha hs) = merkle_root sha hs"
  using assms
proof (induction sha hs rule: merkle_nodes.induct)
  case (1 sha hs)
  show ?case
  proof (cases "1 < length hs")
    case False
    then obtain a where "hs = [a]" using "1.prems" by (cases hs) auto
    then show ?thesis by (simp add: merkle_nodes.simps merkle_root.simps)
  next
    case True
    then have "parents sha hs \<noteq> []" using length_parents [of sha hs] by auto
    from "1.IH" [OF True this] True show ?thesis
      by (subst (1 2 3) merkle_nodes.simps) (auto simp: pad_def merkle_root.simps [of sha hs])
  qed
qed

subsection \<open>Properties\<close>

text \<open>
  C38. The in-place reduction computes the merkle tree. For every list of hashes the builder ends; the
  root of an empty list is the zero hash, that of a nonempty list is obtained by hashing each level
  pairwise, an odd last node with itself, until one node is left. The collected tree holds the levels
  from the leaves to the root, each odd level followed by a copy of its last node, so it starts with
  the leaves and ends with the root. The index of the loop is a natural number here; the source has 32 bits, which are
  enough for fewer than \<open>2 ^ 32\<close> hashes.
\<close>

theorem merkle_final_computes_tree:
  "mhb_final_hash sha hs = (if hs = [] then 0 else merkle_root sha hs)
    \<and> mhb_final_tree sha hs = (if hs = [] then [0] else merkle_nodes sha hs)
    \<and> take (length hs) (mhb_final_tree sha hs) = hs
    \<and> last (mhb_final_tree sha hs) = mhb_final_hash sha hs"
proof (cases "hs = []")
  case True
  then show ?thesis by (simp add: mhb_final_hash_def mhb_final_tree_def Final_def)
next
  case False
  then obtain hs' where "FinalLoop sha (length hs) hs hs = (hs', merkle_nodes sha hs)" "hs' ! 0 = merkle_root sha hs"
    using FinalLoop_levels [of "length hs" hs sha "[]"] by auto
  then have "mhb_final_hash sha hs = merkle_root sha hs" "mhb_final_tree sha hs = merkle_nodes sha hs"
    using False by (simp_all add: mhb_final_hash_def mhb_final_tree_def Final_def)
  then show ?thesis using False merkle_nodes_ends [of hs sha] by simp
qed

text \<open>The number of nodes depends on the number of leaves only.\<close>

function node_count :: "nat \<Rightarrow> nat" where
  "node_count n = (if 1 < n then n + n mod 2 + node_count ((n + 1) div 2) else n)"
  by pat_completeness auto
termination
  by (relation "measure id") auto

declare node_count.simps [simp del]

lemma length_merkle_nodes: "length (merkle_nodes sha hs) = node_count (length hs)"
proof (induction sha hs rule: merkle_nodes.induct)
  case (1 sha hs)
  then show ?case
    by (subst merkle_nodes.simps, subst node_count.simps) (auto simp: length_parents pad_def odd_iff_mod_2_eq_one)
qed

lemma small_tree_sizes: "TreeSize 5 = 12" "TreeSize 6 = 12" "node_count 5 = 13" "node_count 6 = 13"
  by (simp_all add: TreeSize_def TreeSize_loop.simps node_count.simps)

text \<open>
  The announced size of a merkle tree can be too small: for five or six leaves \<open>TreeSize\<close> gives
  12, while the tree that the builder produces from any five or six hashes has 13 nodes, because the
  second level, of three nodes, is padded too.
\<close>

theorem merkle_TreeSize_too_small:
  assumes "length hs \<in> {5, 6}"
  shows "TreeSize (length hs) = 12 \<and> length (mhb_final_tree sha hs) = 13"
proof -
  have "length (mhb_final_tree sha hs) = node_count (length hs)"
    using assms FinalLoop_levels [of "length hs" hs sha "[]"]
    by (auto simp: mhb_final_tree_def Final_def length_merkle_nodes)
  moreover have "length hs = 5 \<or> length hs = 6" using assms by simp
  ultimately show ?thesis using small_tree_sizes by metis
qed

theorem merkle_TreeSize_too_small_witness:
  "TreeSize 6 = 12 \<and> length (mhb_final_tree (\<lambda>hs. sum_list hs) [1, 2, 3, 4, 5, 6]) = 13"
  using merkle_TreeSize_too_small [of "[1, 2, 3, 4, 5, 6]" "\<lambda>hs. sum_list hs"] by (simp add: numeral_eq_Suc)

end
