(* ===== verification/TreePath.thy ===== *)
theory TreePath
  imports Prelude
begin

section \<open>Paths of tree nodes (catapult/tree/TreeNodePath)\<close>

text \<open>
  A path in a patricia tree is a sequence of nibbles that is kept in bytes. A sub path shares the byte
  layout of its parent: it starts in the middle of a byte when its offset is odd, which the field
  \<open>m_adjustment\<close> records, and the unused nibbles of its first and last byte are arbitrary. Sizes and
  offsets are natural numbers; the accesses the source makes without a check are only specified within
  the bounds of the invariant \<open>tnp_inv\<close>.
\<close>

unbundle bit_operations_syntax

subsection \<open>Definitions\<close>

record TreeNodePath =
  m_size :: nat
  m_adjustment :: nat
  m_path :: "uint8 list"

definition CalculateByteSize :: "nat \<Rightarrow> nat \<Rightarrow> nat" where
  "CalculateByteSize offset sz = sz div 2 + (if 0 = offset mod 2 \<and> 0 = sz mod 2 then 0 else 1)"

definition tnp_new :: TreeNodePath where
  "tnp_new = \<lparr>m_size = 0, m_adjustment = 0, m_path = []\<rparr>"

definition tnp_of_bytes :: "uint8 list \<Rightarrow> TreeNodePath" where
  "tnp_of_bytes key = \<lparr>m_size = 2 * length key, m_adjustment = 0, m_path = key\<rparr>"

definition tnp_of_scalar :: "uint64 \<Rightarrow> TreeNodePath" where
  "tnp_of_scalar key = \<lparr>m_size = 2 * 8, m_adjustment = 0, m_path = rev (bytes_le 8 key)\<rparr>"

definition tnp_sub :: "uint8 list \<Rightarrow> nat \<Rightarrow> nat \<Rightarrow> TreeNodePath" where
  "tnp_sub path offset sz =
     \<lparr>m_size = sz, m_adjustment = offset mod 2,
      m_path = (if 0 = sz then replicate (CalculateByteSize offset sz) 0
                else take (CalculateByteSize offset sz) (drop (offset div 2) path))\<rparr>"

definition tnp_empty :: "TreeNodePath \<Rightarrow> bool" where
  "tnp_empty p \<longleftrightarrow> 0 = m_size p"

definition tnp_size :: "TreeNodePath \<Rightarrow> nat" where
  "tnp_size p = m_size p"

definition nibbleAt :: "TreeNodePath \<Rightarrow> nat \<Rightarrow> uint8" where
  "nibbleAt p index =
     (let index = index + m_adjustment p;
          byte = m_path p ! (index div 2)
      in if 0 = index mod 2 then drop_bit 4 (byte AND 0xF0) else byte AND 0x0F)"

definition subpath :: "TreeNodePath \<Rightarrow> nat \<Rightarrow> nat \<Rightarrow> TreeNodePath" where
  "subpath p offset sz = tnp_sub (m_path p) (offset + m_adjustment p) sz"

definition subpath_from :: "TreeNodePath \<Rightarrow> nat \<Rightarrow> TreeNodePath" where
  "subpath_from p offset = subpath p offset (tnp_size p - offset)"

function FindFirstDifference_loop :: "TreeNodePath \<Rightarrow> TreeNodePath \<Rightarrow> nat \<Rightarrow> nat" where
  "FindFirstDifference_loop lhs rhs index =
     (if index < tnp_size lhs \<and> index < tnp_size rhs \<and> nibbleAt lhs index = nibbleAt rhs index
      then FindFirstDifference_loop lhs rhs (index + 1) else index)"
  by pat_completeness auto
termination
  by (relation "measure (\<lambda>(lhs, _, index). tnp_size lhs - index)") auto

declare FindFirstDifference_loop.simps [simp del]

definition FindFirstDifferenceIndex :: "TreeNodePath \<Rightarrow> TreeNodePath \<Rightarrow> nat" where
  "FindFirstDifferenceIndex lhs rhs = FindFirstDifference_loop lhs rhs 0"

definition tnp_eq :: "TreeNodePath \<Rightarrow> TreeNodePath \<Rightarrow> bool" where
  "tnp_eq lhs rhs \<longleftrightarrow> tnp_size lhs = tnp_size rhs \<and> tnp_size lhs = FindFirstDifferenceIndex lhs rhs"

record JoinBuilder =
  m_index :: nat
  jb_path :: "uint8 list"

definition new_JoinBuilder :: "nat \<Rightarrow> JoinBuilder" where
  "new_JoinBuilder sz = \<lparr>m_index = 0, jb_path = replicate sz 0\<rparr>"

definition addNibble :: "uint8 \<Rightarrow> JoinBuilder \<Rightarrow> JoinBuilder" where
  "addNibble nibble b =
     (let i = m_index b div 2
      in b\<lparr>jb_path := (jb_path b)[i := jb_path b ! i OR (if 0 \<noteq> m_index b mod 2 then nibble AND 0x0F else push_bit 4 nibble)],
           m_index := m_index b + 1\<rparr>)"

definition addNibbles :: "TreeNodePath \<Rightarrow> JoinBuilder \<Rightarrow> JoinBuilder" where
  "addNibbles path b = fold (\<lambda>i. addNibble (nibbleAt path i)) [0..<tnp_size path] b"

definition Join :: "TreeNodePath \<Rightarrow> TreeNodePath \<Rightarrow> TreeNodePath" where
  "Join lhs rhs =
     (let joinedPathSize = tnp_size lhs + tnp_size rhs;
          builder = addNibbles rhs (addNibbles lhs (new_JoinBuilder ((joinedPathSize + 1) div 2)))
      in tnp_sub (jb_path builder) 0 joinedPathSize)"

definition Join_nibble :: "TreeNodePath \<Rightarrow> uint8 \<Rightarrow> TreeNodePath \<Rightarrow> TreeNodePath" where
  "Join_nibble lhs nibble rhs =
     (let joinedPathSize = tnp_size lhs + 1 + tnp_size rhs;
          builder = addNibbles rhs (addNibble nibble (addNibbles lhs (new_JoinBuilder ((joinedPathSize + 1) div 2))))
      in tnp_sub (jb_path builder) 0 joinedPathSize)"

subsection \<open>Nibbles of bytes\<close>

type_synonym nibble = "4 word"

definition tnp_inv :: "TreeNodePath \<Rightarrow> bool" where
  "tnp_inv p \<longleftrightarrow> m_adjustment p \<le> 1 \<and> m_size p + m_adjustment p \<le> 2 * length (m_path p)"

text \<open>The nibble at a position of a byte array, high nibble first, and the nibbles of a path.\<close>

definition nib :: "uint8 list \<Rightarrow> nat \<Rightarrow> nibble" where
  "nib bs i = (if even i then ucast (drop_bit 4 (bs ! (i div 2))) else ucast (bs ! (i div 2)))"

definition nibbles :: "TreeNodePath \<Rightarrow> nibble list" where
  "nibbles p = map (\<lambda>i. nib (m_path p) (i + m_adjustment p)) [0..<m_size p]"

lemma length_nibbles [simp]: "length (nibbles p) = tnp_size p"
  by (simp add: nibbles_def tnp_size_def)

lemma lo_nibble: "b AND 0x0F = (ucast (ucast b :: nibble) :: uint8)"
proof -
  have "b AND 0x0F = take_bit 4 b" by (simp add: take_bit_eq_mask mask_eq_exp_minus_1)
  also have "\<dots> = ucast (ucast b :: nibble)" by (intro bit_word_eqI) (auto simp: bit_take_bit_iff bit_ucast_iff)
  finally show ?thesis .
qed

lemma hi_nibble: "drop_bit 4 (b AND 0xF0) = (ucast (ucast (drop_bit 4 b) :: nibble) :: uint8)"
proof -
  have "drop_bit 4 (b AND 0xF0) = drop_bit 4 b AND 0x0F" by (simp add: drop_bit_and)
  then show ?thesis by (simp add: lo_nibble)
qed

lemma nibbleAt_nibbles: "i < tnp_size p \<Longrightarrow> nibbleAt p i = ucast (nibbles p ! i)"
  by (simp add: nibbleAt_def nibbles_def nib_def tnp_size_def Let_def hi_nibble lo_nibble even_iff_mod_2_eq_zero eq_commute [of 0])


lemma ucast_nibble [simp]: "ucast (ucast (a :: nibble) :: uint8) = a"
  by (intro bit_word_eqI) (auto simp: bit_ucast_iff)

lemma ucast_nibble_inj: "(ucast (a :: nibble) :: uint8) = ucast b \<longleftrightarrow> a = b"
  using ucast_nibble by metis

subsection \<open>Sub paths and comparison\<close>

fun first_diff :: "'a list \<Rightarrow> 'a list \<Rightarrow> nat" where
  "first_diff (x # xs) (y # ys) = (if x = y then Suc (first_diff xs ys) else 0)"
| "first_diff _ _ = 0"

lemma first_diff_le: "first_diff xs ys \<le> length xs" "first_diff xs ys \<le> length ys"
  by (induction xs ys rule: first_diff.induct) auto

lemma first_diff_take: "take (first_diff xs ys) xs = take (first_diff xs ys) ys"
  by (induction xs ys rule: first_diff.induct) auto

lemma first_diff_nth:
  "first_diff xs ys < length xs \<Longrightarrow> first_diff xs ys < length ys \<Longrightarrow> xs ! first_diff xs ys \<noteq> ys ! first_diff xs ys"
  by (induction xs ys rule: first_diff.induct) (auto split: if_splits)

lemma tnp_sub_nibbles:
  assumes "offset + sz \<le> 2 * length path"
  shows "tnp_inv (tnp_sub path offset sz) \<and> nibbles (tnp_sub path offset sz) = map (\<lambda>i. nib path (i + offset)) [0..<sz]"
proof -
  have m: "offset mod 2 = 0 \<or> offset mod 2 = 1" "sz mod 2 = 0 \<or> sz mod 2 = 1"
      "2 * (sz div 2) + sz mod 2 = sz" "2 * (offset div 2) + offset mod 2 = offset"
    by (simp_all add: mod_2_eq_odd)
  have size: "sz + offset mod 2 \<le> 2 * CalculateByteSize offset sz"
    unfolding CalculateByteSize_def using m by (elim disjE) (simp_all, (linarith+)?)
  have len: "CalculateByteSize offset sz \<le> length path - offset div 2" if "sz \<noteq> 0"
    unfolding CalculateByteSize_def using m assms that by (elim disjE) (simp_all, (linarith+)?)
  have "nib (take (CalculateByteSize offset sz) (drop (offset div 2) path)) (i + offset mod 2) = nib path (i + offset)" if "i < sz" for i
  proof -
    have "(i + offset mod 2) div 2 < CalculateByteSize offset sz" using that size by linarith
    moreover have "offset div 2 + (i + offset mod 2) div 2 = (i + offset) div 2" by presburger
    moreover have "offset div 2 \<le> length path" using assms by linarith
    ultimately show ?thesis by (simp add: nib_def)
  qed
  with size len show ?thesis by (auto simp: tnp_inv_def nibbles_def tnp_sub_def)
qed

lemma nibbles_subpath:
  assumes "tnp_inv p" "offset + sz \<le> tnp_size p"
  shows "tnp_inv (subpath p offset sz)" "nibbles (subpath p offset sz) = take sz (drop offset (nibbles p))"
proof -
  have "offset + m_adjustment p + sz \<le> 2 * length (m_path p)" using assms by (simp add: tnp_inv_def tnp_size_def)
  note sub = tnp_sub_nibbles [OF this]
  show "tnp_inv (subpath p offset sz)" using sub by (simp add: subpath_def)
  show "nibbles (subpath p offset sz) = take sz (drop offset (nibbles p))"
    using sub assms(2) by (intro nth_equalityI) (auto simp: subpath_def nibbles_def tnp_size_def tnp_sub_def add_ac)
qed

lemma nibbles_new: "tnp_inv tnp_new" "nibbles tnp_new = []"
  by (simp_all add: tnp_new_def tnp_inv_def nibbles_def)

lemma loop_first_diff:
  "i \<le> tnp_size lhs \<Longrightarrow> i \<le> tnp_size rhs \<Longrightarrow>
     FindFirstDifference_loop lhs rhs i = i + first_diff (drop i (nibbles lhs)) (drop i (nibbles rhs))"
proof (induction lhs rhs i rule: FindFirstDifference_loop.induct)
  case (1 lhs rhs i)
  show ?case
  proof (cases "i < tnp_size lhs \<and> i < tnp_size rhs")
    case True
    then have d: "drop i (nibbles lhs) = nibbles lhs ! i # drop (Suc i) (nibbles lhs)"
        "drop i (nibbles rhs) = nibbles rhs ! i # drop (Suc i) (nibbles rhs)"
      by (simp_all add: Cons_nth_drop_Suc)
    show ?thesis using 1 True
      by (subst FindFirstDifference_loop.simps) (simp add: d nibbleAt_nibbles ucast_nibble_inj)
  next
    case False
    then have "drop i (nibbles lhs) = [] \<or> drop i (nibbles rhs) = []" using "1.prems" by auto
    then have "first_diff (drop i (nibbles lhs)) (drop i (nibbles rhs)) = 0" by (auto elim: first_diff.elims)
    then show ?thesis using False by (subst FindFirstDifference_loop.simps) auto
  qed
qed

lemma FindFirstDifferenceIndex_first_diff: "FindFirstDifferenceIndex lhs rhs = first_diff (nibbles lhs) (nibbles rhs)"
  using loop_first_diff [of 0 lhs rhs] by (simp add: FindFirstDifferenceIndex_def)

lemma tnp_eq_nibbles: "tnp_eq lhs rhs \<longleftrightarrow> nibbles lhs = nibbles rhs"
proof -
  have "xs = ys" if "length xs = length ys" "length xs = first_diff xs ys" for xs ys :: "nibble list"
    using that first_diff_take [of xs ys] by simp
  moreover have "first_diff xs xs = length xs" for xs :: "nibble list" by (induction xs) auto
  ultimately show ?thesis
    unfolding tnp_eq_def FindFirstDifferenceIndex_first_diff by (metis length_nibbles)
qed

subsection \<open>Joins\<close>

definition jb_inv :: "nat \<Rightarrow> nibble list \<Rightarrow> JoinBuilder \<Rightarrow> bool" where
  "jb_inv n ns b \<longleftrightarrow> m_index b = length ns \<and> length (jb_path b) = n
     \<and> (\<forall>i < 2 * n. nib (jb_path b) i = (if i < length ns then ns ! i else 0))"

lemma nibble_or:
  "(ucast (b OR push_bit 4 c) :: nibble) = ucast b" "(ucast (b OR (c AND 0x0F)) :: nibble) = ucast b OR ucast c"
  "(ucast (drop_bit 4 (b OR push_bit 4 c)) :: nibble) = ucast (drop_bit 4 b) OR ucast c"
  "(ucast (drop_bit 4 (b OR (c AND 0x0F))) :: nibble) = ucast (drop_bit 4 (b :: uint8))"
  by (intro bit_word_eqI; auto simp: lo_nibble bit_ucast_iff bit_or_iff bit_push_bit_iff bit_drop_bit_eq)+

lemma addNibble_inv:
  assumes "jb_inv n ns b" "length ns < 2 * n"
  shows "jb_inv n (ns @ [ucast c]) (addNibble c b)"
proof -
  let ?k = "length ns"
  have b: "m_index b = ?k" "length (jb_path b) = n" "nib (jb_path b) ?k = 0"
    using assms by (simp_all add: jb_inv_def)
  have "nib (jb_path (addNibble c b)) i = (if i = ?k then ucast c else nib (jb_path b) i)" if "i < 2 * n" for i
  proof (cases "i div 2 = ?k div 2")
    case True
    then have "i = ?k \<or> (i \<noteq> ?k \<and> even i \<noteq> even ?k)" by presburger
    moreover have "?k div 2 < n" using assms(2) by linarith
    ultimately show ?thesis using True b
      by (auto simp: addNibble_def nib_def Let_def nibble_or odd_iff_mod_2_eq_one simp del: drop_bit_or split: if_splits)
  next
    case False
    then show ?thesis using b by (auto simp: addNibble_def nib_def Let_def)
  qed
  then show ?thesis using assms by (auto simp: jb_inv_def addNibble_def Let_def nth_append)
qed

lemma addNibbles_inv:
  assumes "jb_inv n ns b" "length ns + tnp_size p \<le> 2 * n"
  shows "jb_inv n (ns @ nibbles p) (addNibbles p b)"
proof -
  have "jb_inv n (ns @ take k (nibbles p)) (fold (\<lambda>i. addNibble (nibbleAt p i)) [0..<k] b)" if "k \<le> tnp_size p" for k
    using that
  proof (induction k)
    case (Suc k)
    then have "jb_inv n ((ns @ take k (nibbles p)) @ [ucast (nibbleAt p k)]) (addNibble (nibbleAt p k)
        (fold (\<lambda>i. addNibble (nibbleAt p i)) [0..<k] b))"
      using assms(2) by (intro addNibble_inv) auto
    then show ?case using Suc.prems by (simp add: nibbleAt_nibbles take_Suc_conv_app_nth)
  qed (use assms in simp)
  from this [of "tnp_size p"] show ?thesis by (simp add: addNibbles_def)
qed

lemma new_JoinBuilder_inv: "jb_inv n [] (new_JoinBuilder n)"
  by (auto simp: jb_inv_def new_JoinBuilder_def nib_def)

lemma jb_nibbles:
  assumes "jb_inv n ns b" "length ns \<le> 2 * n"
  shows "tnp_inv (tnp_sub (jb_path b) 0 (length ns)) \<and> nibbles (tnp_sub (jb_path b) 0 (length ns)) = ns"
proof -
  have "0 + length ns \<le> 2 * length (jb_path b)" using assms by (simp add: jb_inv_def)
  from tnp_sub_nibbles [OF this] assms show ?thesis by (auto simp: jb_inv_def intro: nth_equalityI)
qed

lemma nibbles_Join: "tnp_inv (Join lhs rhs) \<and> nibbles (Join lhs rhs) = nibbles lhs @ nibbles rhs"
proof -
  let ?n = "(tnp_size lhs + tnp_size rhs + 1) div 2"
  have "jb_inv ?n ([] @ nibbles lhs) (addNibbles lhs (new_JoinBuilder ?n))"
    by (intro addNibbles_inv new_JoinBuilder_inv) simp
  then have "jb_inv ?n (nibbles lhs @ nibbles rhs) (addNibbles rhs (addNibbles lhs (new_JoinBuilder ?n)))"
    by (intro addNibbles_inv) simp_all
  from jb_nibbles [OF this] show ?thesis by (simp add: Join_def Let_def)
qed

lemma nibbles_Join_nibble:
  "tnp_inv (Join_nibble lhs c rhs) \<and> nibbles (Join_nibble lhs c rhs) = nibbles lhs @ [ucast c] @ nibbles rhs"
proof -
  let ?n = "(tnp_size lhs + 1 + tnp_size rhs + 1) div 2"
  have "jb_inv ?n ([] @ nibbles lhs) (addNibbles lhs (new_JoinBuilder ?n))"
    by (intro addNibbles_inv new_JoinBuilder_inv) simp
  then have "jb_inv ?n (nibbles lhs @ [ucast c]) (addNibble c (addNibbles lhs (new_JoinBuilder ?n)))"
    by (intro addNibble_inv) simp_all
  then have "jb_inv ?n ((nibbles lhs @ [ucast c]) @ nibbles rhs) (addNibbles rhs (addNibble c (addNibbles lhs (new_JoinBuilder ?n))))"
    by (intro addNibbles_inv) simp_all
  from jb_nibbles [OF this] show ?thesis by (simp add: Join_nibble_def Let_def)
qed

subsection \<open>The contract of paths\<close>

text \<open>
  What the tree needs of paths: every operation is the corresponding one on lists of nibbles, and a path
  that was split at one of its nibbles can be joined again.
\<close>

locale nibble_path =
  fixes inv :: "'p \<Rightarrow> bool"
    and nibs :: "'p \<Rightarrow> nibble list"
    and at :: "'p \<Rightarrow> nat \<Rightarrow> uint8"
    and sub :: "'p \<Rightarrow> nat \<Rightarrow> nat \<Rightarrow> 'p"
    and join :: "'p \<Rightarrow> uint8 \<Rightarrow> 'p \<Rightarrow> 'p"
    and eq :: "'p \<Rightarrow> 'p \<Rightarrow> bool"
  assumes at: "i < length (nibs p) \<Longrightarrow> at p i = ucast (nibs p ! i)"
    and sub: "inv p \<Longrightarrow> offset + sz \<le> length (nibs p) \<Longrightarrow> inv (sub p offset sz) \<and> nibs (sub p offset sz) = take sz (drop offset (nibs p))"
    and join: "inv (join p c q) \<and> nibs (join p c q) = nibs p @ [ucast c] @ nibs q"
    and eq: "eq p q \<longleftrightarrow> nibs p = nibs q"
begin

lemma split_join:
  assumes "inv p" "i < length (nibs p)"
  shows "eq (join (sub p 0 i) (at p i) (sub p (i + 1) (length (nibs p) - (i + 1)))) p"
proof -
  have "nibs (join (sub p 0 i) (at p i) (sub p (i + 1) (length (nibs p) - (i + 1)))) = take i (nibs p) @ [nibs p ! i] @ drop (i + 1) (nibs p)"
    using join [of "sub p 0 i" "at p i"] sub [OF assms(1), of 0 i] sub [OF assms(1), of "i + 1" "length (nibs p) - (i + 1)"] at [OF assms(2)] assms(2)
    by simp
  also have "\<dots> = nibs p" using id_take_nth_drop [OF assms(2)] by simp
  finally show ?thesis by (simp add: eq)
qed

end

interpretation tnp: nibble_path tnp_inv nibbles nibbleAt subpath Join_nibble tnp_eq
  using nibbleAt_nibbles nibbles_subpath nibbles_Join_nibble tnp_eq_nibbles by unfold_locales (auto simp: length_nibbles)

subsection \<open>The encoding of paths in hashes (TreeNode.cpp)\<close>

text \<open>
  The digest of a node starts with its encoded path, fed to the hash builder through a buffer of eight
  bytes. The builder is the list of the bytes it was given.
\<close>

function UpdateEncodedKey_loop ::
  "TreeNodePath \<Rightarrow> nat \<Rightarrow> nat \<Rightarrow> uint8 list \<Rightarrow> uint8 list \<Rightarrow> nat \<times> uint8 list \<times> uint8 list" where
  "UpdateEncodedKey_loop path i counter buffer builder =
     (if i < tnp_size path then
        let buffer = buffer[counter := push_bit 4 (nibbleAt path i) + nibbleAt path (i + 1)];
            counter = counter + 1
        in if length buffer = counter
           then UpdateEncodedKey_loop path (i + 2) 0 buffer (builder @ buffer)
           else UpdateEncodedKey_loop path (i + 2) counter buffer builder
      else (counter, buffer, builder))"
  by pat_completeness auto
termination
  by (relation "measure (\<lambda>(path, i, _). tnp_size path - i)") auto

declare UpdateEncodedKey_loop.simps [simp del]

definition UpdateEncodedKey :: "uint8 list \<Rightarrow> TreeNodePath \<Rightarrow> bool \<Rightarrow> uint8 list" where
  "UpdateEncodedKey builder path isLeaf =
     (let buffer = (replicate 8 0)[0 := if isLeaf then 0x20 else 0];
          (i, buffer) = (if 1 = tnp_size path mod 2 then (1, buffer[0 := (buffer ! 0 OR 0x10) OR nibbleAt path 0]) else (0, buffer));
          (counter, buffer, builder) = UpdateEncodedKey_loop path i 1 buffer builder
      in if 0 \<noteq> counter then builder @ take counter buffer else builder)"

text \<open>Reference: a flag byte, which holds the first nibble of an odd path, and the other nibbles in pairs.\<close>

fun pack :: "nibble list \<Rightarrow> uint8 list" where
  "pack (a # b # ns) = (push_bit 4 (ucast a) + ucast b) # pack ns"
| "pack _ = []"

definition encoded_key :: "nibble list \<Rightarrow> bool \<Rightarrow> uint8 list" where
  "encoded_key ns isLeaf =
     (let flag = (if isLeaf then 0x20 else 0)
      in if odd (length ns) then ((flag OR 0x10) OR ucast (hd ns)) # pack (tl ns) else flag # pack ns)"

lemma pack_drop:
  assumes "i + 1 < length ns"
  shows "pack (drop i ns) = (push_bit 4 (ucast (ns ! i)) + ucast (ns ! (i + 1))) # pack (drop (i + 2) ns)"
proof -
  have "drop i ns = ns ! i # ns ! (i + 1) # drop (i + 2) ns" using assms by (simp add: Cons_nth_drop_Suc)
  then show ?thesis by simp
qed

lemma UpdateEncodedKey_loop_pack:
  assumes "even (tnp_size p - i)" "i \<le> tnp_size p" "counter < length buffer"
  shows "case UpdateEncodedKey_loop p i counter buffer builder of (counter', buffer', builder') \<Rightarrow>
     builder' @ take counter' buffer' = builder @ take counter buffer @ pack (drop i (nibbles p))"
  using assms
proof (induction p i counter buffer builder rule: UpdateEncodedKey_loop.induct)
  case (1 p i counter buffer builder)
  show ?case
  proof (cases "i < tnp_size p")
    case False
    then show ?thesis using "1.prems" by (subst UpdateEncodedKey_loop.simps) simp
  next
    case True
    have "tnp_size p - i \<noteq> 1" using "1.prems"(1) by (metis odd_one)
    then have i: "i + 1 < tnp_size p" using True by linarith
    let ?byte = "push_bit 4 (nibbleAt p i) + nibbleAt p (i + 1)"
    let ?buffer = "buffer[counter := ?byte]"
    have t: "take (counter + 1) ?buffer = take counter buffer @ [?byte]"
      using "1.prems"(3) by (simp add: take_Suc_conv_app_nth)
    have p: "pack (drop i (nibbles p)) = ?byte # pack (drop (i + 2) (nibbles p))"
      using pack_drop [of i "nibbles p"] i by (simp add: nibbleAt_nibbles)
    have e: "even (tnp_size p - (i + 2))" "i + 2 \<le> tnp_size p" using "1.prems"(1) i by auto
    show ?thesis
    proof (cases "length ?buffer = counter + 1")
      case full: True
      then have b: "buffer[counter := push_bit 4 (nibbleAt p i) + nibbleAt p (Suc i)]
            = take counter buffer @ [push_bit 4 (nibbleAt p i) + nibbleAt p (Suc i)]" "length buffer = Suc counter" using t by simp_all
      have "0 < length ?buffer" using full by linarith
      from "1.IH"(1) [OF True refl refl full e this] show ?thesis
        by (subst UpdateEncodedKey_loop.simps) (simp add: True Let_def p b split: prod.splits)
    next
      case False
      then have "counter + 1 < length ?buffer" using "1.prems"(3) by simp
      from "1.IH"(2) [OF True refl refl False e this] False t show ?thesis
        by (subst UpdateEncodedKey_loop.simps) (simp add: True Let_def p split: prod.splits)
    qed
  qed
qed

lemma UpdateEncodedKey_encoded: "UpdateEncodedKey builder p isLeaf = builder @ encoded_key (nibbles p) isLeaf"
proof -
  define flag :: uint8 where "flag = (if isLeaf then 0x20 else 0)"
  define i where "i = (if odd (tnp_size p) then 1 else 0 :: nat)"
  define b0 where "b0 = (if odd (tnp_size p) then (flag OR 0x10) OR nibbleAt p 0 else flag)"
  obtain counter buffer builder' where l: "UpdateEncodedKey_loop p i 1 ((replicate 8 0)[0 := b0]) builder = (counter, buffer, builder')"
    by (metis prod_cases3)
  have "even (tnp_size p - i)" "i \<le> tnp_size p" by (auto simp: i_def odd_pos Suc_leI)
  from UpdateEncodedKey_loop_pack [OF this, of 1 "(replicate 8 0)[0 := b0]" builder]
  have "builder' @ take counter buffer = builder @ [b0] @ pack (drop i (nibbles p))"
    using l by (simp add: numeral_eq_Suc)
  moreover have "UpdateEncodedKey builder p isLeaf = builder' @ take counter buffer"
    using l by (auto simp: UpdateEncodedKey_def Let_def i_def b0_def flag_def odd_iff_mod_2_eq_one split: if_splits)
  moreover have "[b0] @ pack (drop i (nibbles p)) = encoded_key (nibbles p) isLeaf"
  proof (cases "odd (tnp_size p)")
    case True
    then obtain n ns where "nibbles p = n # ns" by (cases "nibbles p") (auto simp: length_nibbles [symmetric] simp del: length_nibbles)
    with True show ?thesis using nibbleAt_nibbles [of 0 p]
      by (auto simp: encoded_key_def b0_def i_def flag_def Let_def length_nibbles [symmetric] simp del: length_nibbles)
  qed (simp add: encoded_key_def b0_def i_def flag_def Let_def)
  ultimately show ?thesis by simp
qed

lemma byte_nibbles:
  "ucast (push_bit 4 (ucast (a :: nibble)) + ucast (b :: nibble) :: uint8) = b"
  "ucast (drop_bit 4 (push_bit 4 (ucast (a :: nibble)) + ucast (b :: nibble) :: uint8)) = a"
proof -
  have "(push_bit 4 (ucast a) + ucast b :: uint8) = push_bit 4 (ucast a) OR ucast b"
    by (rule disjunctive_add) (auto simp: bit_push_bit_iff bit_ucast_iff dest: bit_imp_le_length)
  then show "ucast (push_bit 4 (ucast a) + ucast b :: uint8) = b" "ucast (drop_bit 4 (push_bit 4 (ucast a) + ucast b :: uint8)) = a"
    by (simp_all, (intro bit_word_eqI; auto simp: bit_ucast_iff bit_or_iff bit_push_bit_iff bit_drop_bit_eq dest: bit_imp_le_length)+)
qed

lemma pack_inj: "even (length ns) \<Longrightarrow> even (length ms) \<Longrightarrow> pack ns = pack ms \<Longrightarrow> ns = ms"
proof (induction ns arbitrary: ms rule: pack.induct, goal_cases)
  case (1 a b ns ms)
  then obtain c d ms' where ms: "ms = c # d # ms'" by (cases ms rule: pack.cases) auto
  with 1 show ?case using byte_nibbles [of a b] byte_nibbles [of c d] by auto
next
  case (2 ms)
  then show ?case by (cases ms rule: pack.cases) auto
qed auto

text \<open>The flag byte tells leaves from branches and odd from even paths.\<close>

lemma flag_bits:
  fixes n :: nibble
  shows "bit (((if l then 0x20 else 0) OR 0x10) OR ucast n :: uint8) 5 = l" "bit (((if l then 0x20 else 0) OR 0x10) OR ucast n :: uint8) 4"
    "bit ((if l then 0x20 else 0) :: uint8) 5 = l" "\<not> bit ((if l then 0x20 else 0) :: uint8) 4"
    "ucast (((if l then 0x20 else 0) OR 0x10) OR ucast n :: uint8) = n"
proof -
  have "((if l then 0x20 else 0) OR 0x10 :: uint8) = push_bit 4 (if l then 3 else 1)" by simp
  then show "ucast (((if l then 0x20 else 0) OR 0x10) OR ucast n :: uint8) = n"
    by (simp only:) (intro bit_word_eqI; auto simp: bit_ucast_iff bit_or_iff bit_push_bit_iff)
qed (auto simp: bit_or_iff bit_ucast_iff dest: bit_imp_le_length)

lemma encoded_key_inj:
  assumes "encoded_key ns l = encoded_key ms k"
  shows "ns = ms \<and> l = k"
proof -
  have h: "hd (encoded_key ns l) = hd (encoded_key ms k)" "tl (encoded_key ns l) = tl (encoded_key ms k)" using assms by simp_all
  have p: "odd (length ns) = bit (hd (encoded_key ns l)) 4" "l = bit (hd (encoded_key ns l)) 5" for ns l
    using flag_bits by (auto simp: encoded_key_def Let_def)
  have lk: "l = k" and par: "odd (length ns) = odd (length ms)" using p [where ns = ns and l = l] p [where ns = ms and l = k] h(1) by simp_all
  have "ns = ms"
  proof (cases "odd (length ns)")
    case True
    then have "ns \<noteq> []" "ms \<noteq> []" using par by auto
    moreover have "hd ns = hd ms"
      using h(1) True par flag_bits(5) [of l "hd ns"] flag_bits(5) [of k "hd ms"] by (simp add: encoded_key_def Let_def)
    moreover have "tl ns = tl ms"
      using h(2) True par by (intro pack_inj) (auto simp: encoded_key_def Let_def)
    ultimately show ?thesis by (metis list.collapse)
  next
    case False
    then show ?thesis using h(2) par by (intro pack_inj) (auto simp: encoded_key_def Let_def)
  qed
  with lk show ?thesis by simp
qed

subsection \<open>Properties\<close>

text \<open>
  C40. Paths are lists of nibbles. On paths within their bounds the first difference, the comparison, sub
  paths and joins of the byte representation, whatever its adjustment and unused nibbles, are those of
  the nibble lists; splitting a path around one of its nibbles and joining the parts gives an equal path.
\<close>

theorem tree_path_refines_nibbles:
  assumes "tnp_inv p" "i < tnp_size p"
  shows "nibbleAt p i = ucast (nibbles p ! i)
    \<and> nibbles (subpath p 0 i) = take i (nibbles p) \<and> nibbles (subpath_from p i) = drop i (nibbles p)
    \<and> nibbles (Join p q) = nibbles p @ nibbles q
    \<and> FindFirstDifferenceIndex p q = first_diff (nibbles p) (nibbles q)
    \<and> (tnp_eq p q \<longleftrightarrow> nibbles p = nibbles q)
    \<and> tnp_eq (Join_nibble (subpath p 0 i) (nibbleAt p i) (subpath_from p (i + 1))) p"
  using assms tnp.at tnp.sub [OF assms(1), of 0 i] tnp.sub [OF assms(1), of i "tnp_size p - i"] nibbles_Join tnp.split_join
  by (auto simp: subpath_from_def FindFirstDifferenceIndex_first_diff tnp_eq_nibbles)

theorem tree_path_refines_nibbles_witness:
  "nibbles (subpath_from (tnp_of_bytes [0x12, 0x34, 0x56]) 3) = [4, 5, 6]"
proof -
  have "tnp_inv (tnp_of_bytes [0x12, 0x34, 0x56])" "3 < tnp_size (tnp_of_bytes [0x12, 0x34, 0x56])"
    by (simp_all add: tnp_inv_def tnp_of_bytes_def tnp_size_def)
  from tree_path_refines_nibbles [OF this, of tnp_new]
  show ?thesis by (simp add: nibbles_def tnp_of_bytes_def nib_def upt_rec)
qed

text \<open>
  The encoded path that starts the digest of a node, written in chunks of eight bytes, is the flag byte
  followed by the packed nibbles, and it determines both the path and the kind of the node.
\<close>

theorem encoded_key_determines_path:
  "UpdateEncodedKey builder p isLeaf = builder @ encoded_key (nibbles p) isLeaf
    \<and> (UpdateEncodedKey builder p isLeaf = UpdateEncodedKey builder q isLeaf' \<longleftrightarrow> tnp_eq p q \<and> isLeaf = isLeaf')"
  using encoded_key_inj by (auto simp: UpdateEncodedKey_encoded tnp_eq_nibbles)

end
