(* ===== verification/PatriciaTree.thy ===== *)
theory PatriciaTree
  imports TreePath
begin

section \<open>The patricia tree of the state hash (catapult/tree)\<close>

text \<open>
  A compact patricia tree over keys of a fixed number of nibbles. A node is empty, a leaf or a branch with
  a shared path and sixteen links; a link is a hash and, when the child has been loaded or built, the child
  itself, otherwise the child is read from a data source, which is an argument. The root hash is part of
  the block header, so it must only depend on the contents of the tree.

  Paths are lists of nibbles: the operations that the tree uses were shown to be those of lists in the
  theory of paths. The nibbles that index the links are four bit words, so the sixteen links are functions on
  them. The hashes that the source caches in its nodes are recomputed. The digest is the argument
  \<open>Sha3_256\<close>. Accesses past the end of a path, undefined in the source, are the exception \<open>Out_Of_Range\<close>;
  the theorems show that they do not happen for keys of one length.
\<close>

subsection \<open>Nodes\<close>

type_synonym path = "nibble list"

datatype 'n BranchTreeNode =
  BranchTreeNode (b_path: path) (b_links: "nibble \<Rightarrow> Hash256") (b_linkedNodes: "nibble \<Rightarrow> 'n option") (b_linkSet: "nibble \<Rightarrow> bool")

datatype TreeNode = EmptyNode | LeafNode (leaf_path: path) (leaf_value: Hash256) | BranchNode (as_branch: "TreeNode BranchTreeNode")

definition all_nibbles :: "nibble list" where
  "all_nibbles = map word_of_nat [0..<16]"

definition CalculateLeafTreeNodeHash :: "(uint8 list \<Rightarrow> Hash256) \<Rightarrow> path \<Rightarrow> Hash256 \<Rightarrow> Hash256" where
  "CalculateLeafTreeNodeHash Sha3_256 path v = Sha3_256 (encoded_key path True @ array_bytes 32 v)"

text \<open>A branch whose linked nodes have been replaced by their hashes.\<close>

definition hashed_link :: "Hash256 BranchTreeNode \<Rightarrow> nibble \<Rightarrow> Hash256" where
  "hashed_link b index = (case b_linkedNodes b index of Some hash \<Rightarrow> hash | None \<Rightarrow> b_links b index)"

definition branch_hash :: "(uint8 list \<Rightarrow> Hash256) \<Rightarrow> Hash256 BranchTreeNode \<Rightarrow> Hash256" where
  "branch_hash Sha3_256 b =
     Sha3_256 (encoded_key (b_path b) False @ concat (map (\<lambda>i. array_bytes 32 (hashed_link b i)) all_nibbles))"

primrec node_hash :: "(uint8 list \<Rightarrow> Hash256) \<Rightarrow> TreeNode \<Rightarrow> Hash256" where
  "node_hash Sha3_256 EmptyNode = 0"
| "node_hash Sha3_256 (LeafNode path v) = CalculateLeafTreeNodeHash Sha3_256 path v"
| "node_hash Sha3_256 (BranchNode b) = branch_hash Sha3_256 (map_BranchTreeNode (node_hash Sha3_256) b)"

definition new_BranchTreeNode :: "path \<Rightarrow> TreeNode BranchTreeNode" where
  "new_BranchTreeNode path = BranchTreeNode path (\<lambda>_. 0) (\<lambda>_. None) (\<lambda>_. False)"

definition numLinks :: "TreeNode BranchTreeNode \<Rightarrow> nat" where
  "numLinks b = length (filter (b_linkSet b) all_nibbles)"

definition link :: "(uint8 list \<Rightarrow> Hash256) \<Rightarrow> TreeNode BranchTreeNode \<Rightarrow> nibble \<Rightarrow> Hash256" where
  "link Sha3_256 b index =
     (case b_linkedNodes b index of Some linkedNode \<Rightarrow> node_hash Sha3_256 linkedNode | None \<Rightarrow> b_links b index)"

definition linkedNode :: "TreeNode BranchTreeNode \<Rightarrow> nibble \<Rightarrow> TreeNode" where
  "linkedNode b index = (case b_linkedNodes b index of Some linkedNode \<Rightarrow> linkedNode | None \<Rightarrow> EmptyNode)"

definition highestLinkIndex :: "TreeNode BranchTreeNode \<Rightarrow> nibble" where
  "highestLinkIndex b = last (filter (b_linkSet b) all_nibbles)"

definition b_setPath :: "path \<Rightarrow> TreeNode BranchTreeNode \<Rightarrow> TreeNode BranchTreeNode" where
  "b_setPath path b = BranchTreeNode path (b_links b) (b_linkedNodes b) (b_linkSet b)"

definition setLink_hash :: "Hash256 \<Rightarrow> nibble \<Rightarrow> TreeNode BranchTreeNode \<Rightarrow> TreeNode BranchTreeNode" where
  "setLink_hash hash index b =
     BranchTreeNode (b_path b) ((b_links b)(index := hash)) ((b_linkedNodes b)(index := None)) ((b_linkSet b)(index := True))"

definition setLink :: "TreeNode \<Rightarrow> nibble \<Rightarrow> TreeNode BranchTreeNode \<Rightarrow> TreeNode BranchTreeNode" where
  "setLink node index b =
     BranchTreeNode (b_path b) (b_links b) ((b_linkedNodes b)(index := Some node)) ((b_linkSet b)(index := True))"

definition clearLink :: "nibble \<Rightarrow> TreeNode BranchTreeNode \<Rightarrow> TreeNode BranchTreeNode" where
  "clearLink index b =
     (let b = setLink_hash 0 index b
      in BranchTreeNode (b_path b) (b_links b) (b_linkedNodes b) ((b_linkSet b)(index := False)))"

definition compactLinks :: "(uint8 list \<Rightarrow> Hash256) \<Rightarrow> TreeNode BranchTreeNode \<Rightarrow> TreeNode BranchTreeNode" where
  "compactLinks Sha3_256 b =
     BranchTreeNode (b_path b) (\<lambda>i. case b_linkedNodes b i of None \<Rightarrow> b_links b i | Some n \<Rightarrow> node_hash Sha3_256 n)
       (\<lambda>_. None) (b_linkSet b)"

fun node_path :: "TreeNode \<Rightarrow> path" where
  "node_path (LeafNode path _) = path"
| "node_path (BranchNode b) = b_path b"
| "node_path EmptyNode = []"

fun node_setPath :: "path \<Rightarrow> TreeNode \<Rightarrow> exn + TreeNode" where
  "node_setPath path (LeafNode _ v) = Inr (LeafNode path v)"
| "node_setPath path (BranchNode b) = Inr (BranchNode (b_setPath path b))"
| "node_setPath path EmptyNode = Inl Runtime_Error"

subsection \<open>The tree\<close>

text \<open>Reading a child: from memory if it is there, else from the data source.\<close>

definition getLinkedNode ::
  "(uint8 list \<Rightarrow> Hash256) \<Rightarrow> (Hash256 \<Rightarrow> TreeNode) \<Rightarrow> TreeNode BranchTreeNode \<Rightarrow> nibble \<Rightarrow> TreeNode" where
  "getLinkedNode Sha3_256 get b index =
     (case linkedNode b index of EmptyNode \<Rightarrow> get (link Sha3_256 b index) | n \<Rightarrow> n)"

definition branchLeafNode :: "path \<Rightarrow> Hash256 \<Rightarrow> path \<Rightarrow> Hash256 \<Rightarrow> exn + TreeNode BranchTreeNode" where
  "branchLeafNode leafPath leafValue newPath newValue =
     (let differenceIndex = first_diff leafPath newPath
      in if differenceIndex < length leafPath \<and> differenceIndex < length newPath then
           let sharedPath = take differenceIndex leafPath;
               node1 = LeafNode (drop (differenceIndex + 1) leafPath) leafValue;
               node2 = LeafNode (drop (differenceIndex + 1) newPath) newValue
           in Inr (setLink node2 (newPath ! differenceIndex)
                (setLink node1 (leafPath ! differenceIndex) (new_BranchTreeNode sharedPath)))
         else Inl Out_Of_Range)"

function set_node :: "(uint8 list \<Rightarrow> Hash256) \<Rightarrow> (Hash256 \<Rightarrow> TreeNode) \<Rightarrow> TreeNode \<Rightarrow> path \<Rightarrow> Hash256 \<Rightarrow> exn + TreeNode"
  and updateBranchLink :: "(uint8 list \<Rightarrow> Hash256) \<Rightarrow> (Hash256 \<Rightarrow> TreeNode) \<Rightarrow> TreeNode BranchTreeNode \<Rightarrow> path \<Rightarrow> Hash256
    \<Rightarrow> exn + TreeNode BranchTreeNode"
  and insertNewPairIntoBranch :: "(uint8 list \<Rightarrow> Hash256) \<Rightarrow> (Hash256 \<Rightarrow> TreeNode) \<Rightarrow> TreeNode BranchTreeNode \<Rightarrow> path \<Rightarrow> nat
    \<Rightarrow> path \<Rightarrow> Hash256 \<Rightarrow> exn + TreeNode BranchTreeNode"
where
  "set_node Sha3_256 get node newPath newValue =
     (case node of
        EmptyNode \<Rightarrow> Inr (LeafNode newPath newValue)
      | LeafNode leafPath leafValue \<Rightarrow>
          if leafPath = newPath then Inr (LeafNode newPath newValue)
          else rbind (branchLeafNode leafPath leafValue newPath newValue) (\<lambda>b. Inr (BranchNode b))
      | BranchNode b \<Rightarrow> rbind (updateBranchLink Sha3_256 get b newPath newValue) (\<lambda>b. Inr (BranchNode b)))"
| "updateBranchLink Sha3_256 get b newPath newValue =
     (let branchPath = b_path b;
          differenceIndex = first_diff branchPath newPath
      in if branchPath \<noteq> [] \<and> differenceIndex = length branchPath
         then insertNewPairIntoBranch Sha3_256 get b [] 0 (drop differenceIndex newPath) newValue
         else insertNewPairIntoBranch Sha3_256 get b branchPath differenceIndex newPath newValue)"
| "insertNewPairIntoBranch Sha3_256 get b branchPath differenceIndex newPath newValue =
     (if differenceIndex < length newPath then
        let isBranchPathConsumed = (branchPath = []);
            nextNode = (if isBranchPathConsumed then getLinkedNode Sha3_256 get b (newPath ! 0) else EmptyNode)
        in rbind (set_node Sha3_256 get nextNode (drop (differenceIndex + 1) newPath) newValue) (\<lambda>updatedNextNode.
             if isBranchPathConsumed then Inr (setLink updatedNextNode (newPath ! 0) b)
             else
               let newBranchNode = setLink updatedNextNode (newPath ! differenceIndex)
                                     (new_BranchTreeNode (take differenceIndex branchPath));
                   branchLinkIndex = branchPath ! differenceIndex;
                   b = b_setPath (drop (differenceIndex + 1) branchPath) b
               in Inr (setLink (BranchNode b) branchLinkIndex newBranchNode))
      else Inl Out_Of_Range)"
  by pat_completeness auto
termination
  by (relation "measure (\<lambda>x. case x of Inl (_, _, _, p, _) \<Rightarrow> 3 * length p + 2
       | Inr (Inl (_, _, _, p, _)) \<Rightarrow> 3 * length p + 1 | Inr (Inr (_, _, _, _, _, p, _)) \<Rightarrow> 3 * length p)") auto

declare set_node.simps [simp del] updateBranchLink.simps [simp del] insertNewPairIntoBranch.simps [simp del]

definition unsetBranchLink ::
  "(uint8 list \<Rightarrow> Hash256) \<Rightarrow> (Hash256 \<Rightarrow> TreeNode) \<Rightarrow> nibble \<Rightarrow> TreeNode BranchTreeNode \<Rightarrow> exn + TreeNode" where
  "unsetBranchLink Sha3_256 get linkIndex b =
     (let b = clearLink linkIndex b
      in if 1 \<noteq> numLinks b then Inr (BranchNode b)
         else
           let lastLinkIndex = highestLinkIndex b;
               referencedNode = getLinkedNode Sha3_256 get b lastLinkIndex
           in node_setPath (b_path b @ [lastLinkIndex] @ node_path referencedNode) referencedNode)"

text \<open>
  Removing a key. The result is \<open>None\<close> when the key was not found, else the updated node and the flag
  \<open>canMerge\<close>: only the branch next to the removed leaf may be collapsed.
\<close>

function unset_node ::
  "(uint8 list \<Rightarrow> Hash256) \<Rightarrow> (Hash256 \<Rightarrow> TreeNode) \<Rightarrow> TreeNode \<Rightarrow> path \<Rightarrow> bool \<Rightarrow> exn + (TreeNode \<times> bool) option" where
  "unset_node Sha3_256 get node keyPath canMerge =
     (if node = EmptyNode then Inr None
      else
        let differenceIndex = first_diff (node_path node) keyPath
        in if differenceIndex = length keyPath then Inr (Some (EmptyNode, canMerge))
           else case node of
             BranchNode b \<Rightarrow>
               let nodeLinkIndex = keyPath ! differenceIndex;
                   nextNode = getLinkedNode Sha3_256 get b nodeLinkIndex
               in if nextNode = EmptyNode then Inr None
                  else rbind (unset_node Sha3_256 get nextNode (drop (differenceIndex + 1) keyPath) canMerge) (\<lambda>result.
                    case result of
                      None \<Rightarrow> Inr None
                    | Some (updatedNextNode, canMerge) \<Rightarrow>
                        rbind (if canMerge then unsetBranchLink Sha3_256 get nodeLinkIndex b
                               else Inr (BranchNode (setLink updatedNextNode nodeLinkIndex b))) (\<lambda>updatedNode.
                        Inr (Some (updatedNode, False))))
           | _ \<Rightarrow> Inr None)"
  by pat_completeness auto
termination
proof (relation "measure (\<lambda>(_, _, _, p, _). length p)", goal_cases)
  case (2 sha get node p canMerge d b i n)
  then have "d < length p" using first_diff_le(2) [of "node_path node" p] by simp
  then show ?case by simp
qed simp

declare unset_node.simps [simp del]

text \<open>Looking up a key: its value or \<open>(0, False)\<close>, and the nodes on the way as a proof.\<close>

function lookup_node ::
  "(uint8 list \<Rightarrow> Hash256) \<Rightarrow> (Hash256 \<Rightarrow> TreeNode) \<Rightarrow> TreeNode \<Rightarrow> path \<Rightarrow> TreeNode list \<Rightarrow> exn + (Hash256 \<times> bool) \<times> TreeNode list" where
  "lookup_node Sha3_256 get node keyPath nodePath =
     (if node = EmptyNode then Inr ((0, False), nodePath)
      else
        let nodePath = nodePath @ [node];
            differenceIndex = first_diff (node_path node) keyPath
        in case node of
             BranchNode b \<Rightarrow>
               if differenceIndex < length keyPath then
                 let nextNode = getLinkedNode Sha3_256 get b (keyPath ! differenceIndex)
                 in if nextNode = EmptyNode then Inr ((0, False), nodePath)
                    else lookup_node Sha3_256 get nextNode (drop (differenceIndex + 1) keyPath) nodePath
               else Inl Out_Of_Range
           | _ \<Rightarrow> Inr (if differenceIndex = length keyPath then (leaf_value node, True) else (0, False), nodePath))"
  by pat_completeness auto
termination
  by (relation "measure (\<lambda>(_, _, _, p, _). length p)") auto

declare lookup_node.simps [simp del]

subsection \<open>Well-formed trees and their contents\<close>

text \<open>
  A node over keys of \<open>n\<close> nibbles: a leaf holds the whole key; the path of a branch is shorter, at least two
  links are set, each leads to a node over the rest of the key whose hash is the hash of the link, and the
  links that are not set lead nowhere.
\<close>

declare conj_cong [fundef_cong]

function wf_node :: "(uint8 list \<Rightarrow> Hash256) \<Rightarrow> (Hash256 \<Rightarrow> TreeNode) \<Rightarrow> nat \<Rightarrow> TreeNode \<Rightarrow> bool" where
  "wf_node sha get n EmptyNode \<longleftrightarrow> False"
| "wf_node sha get n (LeafNode p v) \<longleftrightarrow> length p = n"
| "wf_node sha get n (BranchNode b) \<longleftrightarrow> length (b_path b) < n \<and> 2 \<le> numLinks b
     \<and> (\<forall>i. if b_linkSet b i
            then wf_node sha get (n - length (b_path b) - 1) (getLinkedNode sha get b i)
              \<and> link sha b i = node_hash sha (getLinkedNode sha get b i)
            else getLinkedNode sha get b i = EmptyNode \<and> link sha b i = 0)"
  by pat_completeness auto
termination
  by (relation "measure (\<lambda>(_, _, n, _). n)") auto

declare wf_node.simps(3) [simp del]

text \<open>The contents of a node: the value of every key of \<open>n\<close> nibbles.\<close>

function entries :: "(uint8 list \<Rightarrow> Hash256) \<Rightarrow> (Hash256 \<Rightarrow> TreeNode) \<Rightarrow> nat \<Rightarrow> TreeNode \<Rightarrow> path \<rightharpoonup> Hash256" where
  "entries sha get n EmptyNode = (\<lambda>_. None)"
| "entries sha get n (LeafNode p v) = [p \<mapsto> v]"
| "entries sha get n (BranchNode b) =
     (\<lambda>q. if length (b_path b) < n \<and> length q = n \<and> take (length (b_path b)) q = b_path b
          then entries sha get (n - length (b_path b) - 1) (getLinkedNode sha get b (q ! length (b_path b)))
                 (drop (length (b_path b) + 1) q)
          else None)"
  by pat_completeness auto
termination
  by (relation "measure (\<lambda>(_, _, n, _). n)") auto

declare entries.simps(3) [simp del]

lemma set_all_nibbles: "set all_nibbles = UNIV" "distinct all_nibbles"
proof -
  have "i \<in> set all_nibbles" for i :: nibble
  proof -
    obtain k where "i = word_of_nat k" "k < 16" by (cases i rule: word_nat_cases) simp
    then show ?thesis by (auto simp: all_nibbles_def)
  qed
  then show "set all_nibbles = UNIV" by blast
  have "inj_on (word_of_nat :: nat \<Rightarrow> nibble) {0..<16}"
    by (rule inj_on_inverseI [of _ unat]) (simp add: unat_of_nat_small)
  then show "distinct all_nibbles" by (simp add: all_nibbles_def distinct_map)
qed

lemma numLinks_card: "numLinks b = card {i. b_linkSet b i}"
  using distinct_card [of "filter (b_linkSet b) all_nibbles"] set_all_nibbles by (simp add: numLinks_def)

lemma wf_nonempty: "wf_node sha get n node \<Longrightarrow> node \<noteq> EmptyNode"
  by auto

lemma getLinkedNode_setLink:
  "node \<noteq> EmptyNode \<Longrightarrow> getLinkedNode sha get (setLink node i b) j = (if j = i then node else getLinkedNode sha get b j)"
  by (cases node) (auto simp: getLinkedNode_def setLink_def linkedNode_def link_def split: TreeNode.splits option.splits)

lemma link_setLink: "link sha (setLink node i b) j = (if j = i then node_hash sha node else link sha b j)"
  by (simp add: link_def setLink_def split: option.splits)

lemma setLink_simps [simp]:
  "b_path (setLink node i b) = b_path b" "b_linkSet (setLink node i b) = (b_linkSet b)(i := True)"
  "b_path (new_BranchTreeNode p) = p" "b_linkSet (new_BranchTreeNode p) = (\<lambda>_. False)"
  "b_path (b_setPath p b) = p" "b_linkSet (b_setPath p b) = b_linkSet b"
  by (simp_all add: setLink_def new_BranchTreeNode_def b_setPath_def)

lemma setPath_simps [simp]:
  "getLinkedNode sha get (b_setPath p b) = getLinkedNode sha get b" "link sha (b_setPath p b) = link sha b"
  "numLinks (b_setPath p b) = numLinks b"
  by (simp_all add: getLinkedNode_def b_setPath_def linkedNode_def link_def numLinks_def fun_eq_iff split: TreeNode.splits option.splits)

lemma entries_length: "entries sha get n node q = Some v \<Longrightarrow> wf_node sha get n node \<Longrightarrow> length q = n"
  by (cases node) (auto simp: entries.simps(3) split: if_splits)

text \<open>Below a branch, a key of the contents is the path of the branch, a nibble and a key of the child.\<close>

lemma entries_branch:
  assumes "length (b_path b) < n"
  shows "entries sha get n (BranchNode b) (b_path b @ i # r)
    = (if length r = n - length (b_path b) - 1
       then entries sha get (n - length (b_path b) - 1) (getLinkedNode sha get b i) r else None)"
  using assms by (auto simp: entries.simps(3))

lemma entries_branchE:
  assumes "entries sha get n (BranchNode b) q = Some v"
  obtains i r where "q = b_path b @ i # r" "length q = n" "length (b_path b) < n"
    "entries sha get (n - length (b_path b) - 1) (getLinkedNode sha get b i) r = Some v"
proof -
  have q: "length (b_path b) < n" "length q = n" "take (length (b_path b)) q = b_path b"
      "entries sha get (n - length (b_path b) - 1) (getLinkedNode sha get b (q ! length (b_path b)))
         (drop (length (b_path b) + 1) q) = Some v"
    using assms by (auto simp: entries.simps(3) split: if_splits)
  have "q = b_path b @ q ! length (b_path b) # drop (length (b_path b) + 1) q"
    using id_take_nth_drop [of "length (b_path b)" q] q(1-3) by simp
  with q that show ?thesis by blast
qed

lemma wf_entries_nonempty:
  "wf_node sha get n node \<Longrightarrow> \<exists>q v. entries sha get n node q = Some v"
proof (induction sha get n node rule: wf_node.induct)
  case (3 sha get n b)
  then have n: "2 \<le> numLinks b" and l: "length (b_path b) < n" by (simp_all add: wf_node.simps(3))
  then have "filter (b_linkSet b) all_nibbles \<noteq> []" by (auto simp: numLinks_def)
  then obtain i where i: "b_linkSet b i" by (auto simp: filter_empty_conv)
  with "3.prems" have w: "wf_node sha get (n - length (b_path b) - 1) (getLinkedNode sha get b i)"
    by (auto simp: wf_node.simps(3) split: if_splits)
  then obtain r v where r: "entries sha get (n - length (b_path b) - 1) (getLinkedNode sha get b i) r = Some v"
    using "3.IH" [OF l n i] by blast
  with entries_branch [OF l, of sha get i r] entries_length [OF r w] show ?case by auto
qed auto

lemma first_diff_refl: "first_diff xs xs = length xs"
  by (induction xs) auto

lemma first_diff_eq_length: "length xs = length ys \<Longrightarrow> first_diff xs ys = length ys \<longleftrightarrow> xs = ys"
  using first_diff_take [of xs ys] first_diff_refl [of xs] by (metis order_refl take_all)

text \<open>What a lookup answers for a value or its absence.\<close>

definition found :: "Hash256 option \<Rightarrow> Hash256 \<times> bool" where
  "found v = (case v of Some v \<Rightarrow> (v, True) | None \<Rightarrow> (0, False))"

text \<open>The cases of a lookup and of a removal.\<close>

lemma lookup_cases:
  "lookup_node sha get EmptyNode p acc = Inr ((0, False), acc)"
  "lookup_node sha get (LeafNode q u) p acc = Inr (if first_diff q p = length p then (u, True) else (0, False), acc @ [LeafNode q u])"
  "first_diff (b_path b) p < length p \<Longrightarrow> lookup_node sha get (BranchNode b) p acc
    = (if getLinkedNode sha get b (p ! first_diff (b_path b) p) = EmptyNode then Inr ((0, False), acc @ [BranchNode b])
       else lookup_node sha get (getLinkedNode sha get b (p ! first_diff (b_path b) p)) (drop (first_diff (b_path b) p + 1) p)
              (acc @ [BranchNode b]))"
  by (subst lookup_node.simps, simp add: Let_def)+

lemma unset_cases:
  "unset_node sha get EmptyNode p cm = Inr None"
  "unset_node sha get (LeafNode q u) p cm = Inr (if first_diff q p = length p then Some (EmptyNode, cm) else None)"
  "first_diff (b_path b) p < length p \<Longrightarrow> unset_node sha get (BranchNode b) p cm
    = (if getLinkedNode sha get b (p ! first_diff (b_path b) p) = EmptyNode then Inr None
       else rbind (unset_node sha get (getLinkedNode sha get b (p ! first_diff (b_path b) p)) (drop (first_diff (b_path b) p + 1) p) cm)
         (\<lambda>result. case result of
            None \<Rightarrow> Inr None
          | Some (c, cm) \<Rightarrow>
              rbind (if cm then unsetBranchLink sha get (p ! first_diff (b_path b) p) b
                     else Inr (BranchNode (setLink c (p ! first_diff (b_path b) p) b))) (\<lambda>node. Inr (Some (node, False)))))"
  by (subst unset_node.simps, simp add: Let_def)+

locale node_reader =
  fixes sha :: "uint8 list \<Rightarrow> Hash256" and get :: "Hash256 \<Rightarrow> TreeNode"
  assumes get_zero: "get 0 = EmptyNode"
begin

lemma new_branch [simp]: "getLinkedNode sha get (new_BranchTreeNode p) i = EmptyNode" "link sha (new_BranchTreeNode p) i = 0"
  by (simp_all add: getLinkedNode_def linkedNode_def link_def new_BranchTreeNode_def get_zero)

text \<open>A new branch with two children.\<close>

lemma two_links:
  fixes p
  assumes "wf_node sha get m c" "wf_node sha get m d" "i \<noteq> j"
  defines "b \<equiv> setLink d j (setLink c i (new_BranchTreeNode p))"
  shows "wf_node sha get (length p + 1 + m) (BranchNode b)"
    and "entries sha get (length p + 1 + m) (BranchNode b) q
      = (if length q = length p + 1 + m \<and> take (length p) q = p
         then (if q ! length p = i then entries sha get m c (drop (length p + 1) q)
               else if q ! length p = j then entries sha get m d (drop (length p + 1) q) else None)
         else None)"
proof -
  note ne = wf_nonempty [OF assms(1)] wf_nonempty [OF assms(2)]
  have links: "{k. b_linkSet b k} = {i, j}" "\<And>k. b_linkSet b k = (k = i \<or> k = j)" by (auto simp: b_def)
  have child: "getLinkedNode sha get b k = (if k = j then d else if k = i then c else EmptyNode)"
      "link sha b k = (if k = j then node_hash sha d else if k = i then node_hash sha c else 0)" for k
    using ne by (simp_all add: b_def getLinkedNode_setLink link_setLink)
  have p: "b_path b = p" by (simp add: b_def)
  show "wf_node sha get (length p + 1 + m) (BranchNode b)"
    using assms(1-3) by (simp add: wf_node.simps(3) numLinks_card links(2) child p) (simp add: links(1) [unfolded links(2)])
  show "entries sha get (length p + 1 + m) (BranchNode b) q
      = (if length q = length p + 1 + m \<and> take (length p) q = p
         then (if q ! length p = i then entries sha get m c (drop (length p + 1) q)
               else if q ! length p = j then entries sha get m d (drop (length p + 1) q) else None)
         else None)"
    using assms(3) by (auto simp: entries.simps(3) child p)
qed

text \<open>Replacing or adding a child of a branch.\<close>

lemma set_child:
  assumes "wf_node sha get n (BranchNode b)" "wf_node sha get (n - length (b_path b) - 1) c"
  shows "wf_node sha get n (BranchNode (setLink c i b))"
    and "length q = n \<Longrightarrow> entries sha get n (BranchNode (setLink c i b)) q
      = (if take (length (b_path b)) q = b_path b \<and> q ! length (b_path b) = i
         then entries sha get (n - length (b_path b) - 1) c (drop (length (b_path b) + 1) q)
         else entries sha get n (BranchNode b) q)"
proof -
  have "numLinks b \<le> numLinks (setLink c i b)" unfolding numLinks_card by (rule card_mono) auto
  with assms show "wf_node sha get n (BranchNode (setLink c i b))"
    using wf_nonempty [OF assms(2)] by (auto simp: wf_node.simps(3) getLinkedNode_setLink link_setLink split: if_splits)
  show "length q = n \<Longrightarrow> entries sha get n (BranchNode (setLink c i b)) q
      = (if take (length (b_path b)) q = b_path b \<and> q ! length (b_path b) = i
         then entries sha get (n - length (b_path b) - 1) c (drop (length (b_path b) + 1) q)
         else entries sha get n (BranchNode b) q)"
    using assms(1) wf_nonempty [OF assms(2)] by (auto simp: entries.simps(3) wf_node.simps(3) getLinkedNode_setLink)
qed


lemma wf_branchD:
  assumes "wf_node sha get n (BranchNode b)"
  shows "length (b_path b) < n" "2 \<le> numLinks b"
    "b_linkSet b i \<Longrightarrow> wf_node sha get (n - length (b_path b) - 1) (getLinkedNode sha get b i)"
    "\<not> b_linkSet b i \<Longrightarrow> getLinkedNode sha get b i = EmptyNode"
  using assms by (auto simp: wf_node.simps(3) split: if_splits)

lemma wf_setPath:
  assumes "wf_node sha get n (BranchNode b)" "m = n - length (b_path b) - 1 + length p + 1"
  shows "wf_node sha get m (BranchNode (b_setPath p b))"
  using assms by (auto simp: wf_node.simps(3) split: if_splits)

lemma take_nth_drop_eq: "length p < length q \<Longrightarrow> take (length p) q = p \<Longrightarrow> q = p @ q ! length p # drop (length p + 1) q"
  using id_take_nth_drop [of "length p" q] by simp

text \<open>Splitting a leaf.\<close>

lemma branchLeafNode_ok:
  assumes "length p = n" "length q = n" "p \<noteq> q"
  shows "\<exists>b. branchLeafNode p u q v = Inr b \<and> wf_node sha get n (BranchNode b)
    \<and> entries sha get n (BranchNode b) = [p \<mapsto> u, q \<mapsto> v]"
proof -
  let ?d = "first_diff p q"
  have d: "?d < n"
  proof (rule ccontr)
    assume "\<not> ?d < n"
    then have "?d = n" using first_diff_le(1) [of p q] assms(1) by simp
    then show False using first_diff_take [of p q] assms by simp
  qed
  then have ne: "p ! ?d \<noteq> q ! ?d" using first_diff_nth [of p q] assms by simp
  let ?b = "setLink (LeafNode (drop (?d + 1) q) v) (q ! ?d) (setLink (LeafNode (drop (?d + 1) p) u) (p ! ?d)
      (new_BranchTreeNode (take ?d p)))"
  have b: "branchLeafNode p u q v = Inr ?b" using d assms by (simp add: branchLeafNode_def Let_def)
  have len: "length (take ?d p) + 1 + (n - ?d - 1) = n" using d assms by simp
  have wf: "wf_node sha get (n - ?d - 1) (LeafNode (drop (?d + 1) p) u)" "wf_node sha get (n - ?d - 1) (LeafNode (drop (?d + 1) q) v)"
    using assms by simp_all
  note two = two_links [OF wf ne, of "take ?d p", unfolded len]
  have p: "p = take ?d p @ p ! ?d # drop (?d + 1) p" "q = take ?d p @ q ! ?d # drop (?d + 1) q"
    using id_take_nth_drop [of ?d p] id_take_nth_drop [of ?d q] first_diff_take [of p q] d assms by simp_all
  have "entries sha get n (BranchNode ?b) r = [p \<mapsto> u, q \<mapsto> v] r" for r
  proof (cases "length r = n \<and> take ?d r = take ?d p")
    case True
    then have "r = take ?d p @ r ! ?d # drop (?d + 1) r" using id_take_nth_drop [of ?d r] d by simp
    then have "(r = p) = (r ! ?d = p ! ?d \<and> drop (?d + 1) r = drop (?d + 1) p)" "(r = q) = (r ! ?d = q ! ?d \<and> drop (?d + 1) r = drop (?d + 1) q)"
      using p by (metis append_same_eq list.inject same_append_eq)+
    with True show ?thesis unfolding two(2) using ne d assms by auto
  next
    case False
    then have "r \<noteq> p" "r \<noteq> q" using assms first_diff_take [of p q] by auto
    with False show ?thesis unfolding two(2) using d assms by auto
  qed
  with b two(1) show ?thesis by blast
qed


text \<open>Pushing a branch below a shorter path.\<close>

lemma take_split_eq:
  assumes "d < length p" "length p \<le> length q"
  shows "take (length p) q = p \<longleftrightarrow> take d q = take d p \<and> q ! d = p ! d \<and> take (length p - d - 1) (drop (d + 1) q) = drop (d + 1) p"
proof -
  have p: "p = take d p @ p ! d # drop (d + 1) p" using id_take_nth_drop [OF assms(1)] by simp
  have dq: "d < length q" using assms by simp
  have "length p = d + 1 + (length p - d - 1)" using assms(1) by simp
  then have "take (length p) q = take (d + 1) q @ take (length p - d - 1) (drop (d + 1) q)" by (metis take_add)
  also have "take (d + 1) q = take d q @ [q ! d]" using dq by (simp add: take_Suc_conv_app_nth)
  finally have q: "take (length p) q = take d q @ q ! d # take (length p - d - 1) (drop (d + 1) q)" by simp
  have "length (take d q) = length (take d p)" using assms dq by simp
  then show ?thesis using p q by (metis append_eq_append_conv list.inject)
qed

lemma entries_push:
  assumes "d < length (b_path b)" "length (b_path b) < n" "length q = n" "take d q = take d (b_path b)" "q ! d = b_path b ! d"
  shows "entries sha get (n - d - 1) (BranchNode (b_setPath (drop (d + 1) (b_path b)) b)) (drop (d + 1) q)
    = entries sha get n (BranchNode b) q"
proof -
  have "n - d - 1 - (length (b_path b) - (d + 1)) - 1 = n - length (b_path b) - 1"
      "drop (length (b_path b) - (d + 1) + 1) (drop (d + 1) q) = drop (length (b_path b) + 1) q"
      "drop (d + 1) q ! (length (b_path b) - (d + 1)) = q ! length (b_path b)"
    using assms(1-3) by (simp_all only: drop_drop nth_drop) (rule arg_cong [of _ _ "\<lambda>k. drop k q"] arg_cong [of _ _ "\<lambda>k. q ! k"], simp | simp)+
  moreover have "take (length (b_path b) - (d + 1)) (drop (d + 1) q) = drop (d + 1) (b_path b) \<longleftrightarrow> take (length (b_path b)) q = b_path b"
    using take_split_eq [OF assms(1), of q] assms(2-5) by simp
  ultimately show ?thesis using assms(1-3) by (auto simp: entries.simps(3))
qed

lemma push_branch:
  fixes v
  assumes "wf_node sha get n (BranchNode b)" "d < length (b_path b)" "length p = n" "take d p = take d (b_path b)" "p ! d \<noteq> b_path b ! d"
  defines "c \<equiv> setLink (BranchNode (b_setPath (drop (d + 1) (b_path b)) b)) (b_path b ! d)
      (setLink (LeafNode (drop (d + 1) p) v) (p ! d) (new_BranchTreeNode (take d (b_path b))))"
  shows "wf_node sha get n (BranchNode c) \<and> entries sha get n (BranchNode c) = (entries sha get n (BranchNode b))(p \<mapsto> v)"
proof -
  let ?P = "b_path b"
  have n: "length ?P < n" using wf_branchD(1) [OF assms(1)] .
  have len: "length (take d ?P) + 1 + (n - d - 1) = n" using assms(2) n by simp
  have wf: "wf_node sha get (n - d - 1) (LeafNode (drop (d + 1) p) v)" "wf_node sha get (n - d - 1) (BranchNode (b_setPath (drop (d + 1) ?P) b))"
    using assms(2,3) n by (auto intro!: wf_setPath [OF assms(1)])
  note two = two_links [OF wf assms(5), of "take d ?P", folded c_def, unfolded len]
  have "entries sha get n (BranchNode c) q = ((entries sha get n (BranchNode b))(p \<mapsto> v)) q" for q
  proof (cases "length q = n \<and> take d q = take d ?P")
    case True
    then have q: "q = take d ?P @ q ! d # drop (d + 1) q" using id_take_nth_drop [of d q] assms(2) n by simp
    have "p = take d ?P @ p ! d # drop (d + 1) p" using id_take_nth_drop [of d p] assms(2-4) n by simp
    with q have eq: "(q = p) = (q ! d = p ! d \<and> drop (d + 1) q = drop (d + 1) p)" by (metis list.inject same_append_eq)
    have miss: "entries sha get n (BranchNode b) q = None" if "q ! d \<noteq> ?P ! d"
      using that take_split_eq [OF assms(2), of q] True n by (auto simp: entries.simps(3))
    show ?thesis unfolding two(2) using True eq miss assms(2,5) n entries_push [OF assms(2) n, of q] by auto
  next
    case False
    then have "q \<noteq> p" using assms(3,4) by auto
    moreover have "entries sha get n (BranchNode b) q = None"
      using False take_split_eq [OF assms(2), of q] n by (auto simp: entries.simps(3))
    ultimately show ?thesis unfolding two(2) using False assms(2) n by auto
  qed
  with two(1) show ?thesis by blast
qed

text \<open>Setting a key below a branch.\<close>

lemma extend_child:
  assumes "wf_node sha get n (BranchNode b)" "length p = n" "take (length (b_path b)) p = b_path b"
  defines "m \<equiv> n - length (b_path b) - 1" and "i \<equiv> p ! length (b_path b)"
  assumes "wf_node sha get m c" "entries sha get m c = (entries sha get m (getLinkedNode sha get b i))(drop (length (b_path b) + 1) p := w)"
  shows "entries sha get n (BranchNode (setLink c i b)) = (entries sha get n (BranchNode b))(p := w)"
proof
  fix q
  have n: "length (b_path b) < n" using wf_branchD(1) [OF assms(1)] .
  show "entries sha get n (BranchNode (setLink c i b)) q = ((entries sha get n (BranchNode b))(p := w)) q"
  proof (cases "length q = n")
    case False
    then show ?thesis using assms(2) by (auto simp: entries.simps(3))
  next
    case True
    have eq: "q = p \<longleftrightarrow> drop (length (b_path b) + 1) q = drop (length (b_path b) + 1) p"
      if "take (length (b_path b)) q = b_path b" "q ! length (b_path b) = i"
      using take_nth_drop_eq [of "b_path b" q] take_nth_drop_eq [of "b_path b" p] that assms(2,3) n True unfolding i_def by metis
    have "q \<noteq> p" if "\<not> (take (length (b_path b)) q = b_path b \<and> q ! length (b_path b) = i)"
      using that assms(3) unfolding i_def by auto
    moreover have "entries sha get n (BranchNode b) q = entries sha get m (getLinkedNode sha get b i) (drop (length (b_path b) + 1) q)"
      if "take (length (b_path b)) q = b_path b" "q ! length (b_path b) = i"
      using that True n by (simp add: entries.simps(3) m_def)
    ultimately show ?thesis
      using set_child(2) [OF assms(1) assms(6) [unfolded m_def] True, of i] eq assms(7) by (auto simp: m_def)
  qed
qed

lemma set_node_ok:
  assumes "node = EmptyNode \<or> wf_node sha get n node" "length p = n"
  shows "\<exists>node'. set_node sha get node p v = Inr node' \<and> wf_node sha get n node'
    \<and> entries sha get n node' = (entries sha get n node)(p \<mapsto> v)"
  using assms
proof (induction n arbitrary: node p rule: less_induct)
  case (less n)
  show ?case
  proof (cases node)
    case EmptyNode
    then show ?thesis using less.prems by (auto simp: set_node.simps)
  next
    case (LeafNode q u)
    then show ?thesis using less.prems branchLeafNode_ok [of q n p u v]
      by (cases "q = p") (auto simp: set_node.simps fun_eq_iff)
  next
    case (BranchNode b)
    let ?P = "b_path b" and ?d = "first_diff (b_path b) p"
    have wf: "wf_node sha get n (BranchNode b)" using less.prems BranchNode by simp
    have n: "length ?P < n" using wf_branchD(1) [OF wf] .
    show ?thesis
    proof (cases "?d = length ?P")
      case True
      let ?i = "p ! length ?P" and ?m = "n - length ?P - 1"
      have pre: "take (length ?P) p = ?P" using first_diff_take [of ?P p] True by simp
      have "getLinkedNode sha get b ?i = EmptyNode \<or> wf_node sha get ?m (getLinkedNode sha get b ?i)"
        using wf_branchD(3,4) [OF wf] by blast
      moreover have "?m < n" "length (drop (length ?P + 1) p) = ?m" using n less.prems(2) by simp_all
      ultimately obtain c where c: "set_node sha get (getLinkedNode sha get b ?i) (drop (length ?P + 1) p) v = Inr c"
          "wf_node sha get ?m c" "entries sha get ?m c = (entries sha get ?m (getLinkedNode sha get b ?i))(drop (length ?P + 1) p \<mapsto> v)"
        using less.IH by blast
      have "updateBranchLink sha get b p v = insertNewPairIntoBranch sha get b [] 0 (drop (length ?P) p) v"
        using True by (cases "?P = []") (simp_all add: updateBranchLink.simps)
      also have "\<dots> = Inr (setLink c ?i b)"
        using c(1) n less.prems(2) by (simp add: insertNewPairIntoBranch.simps)
      finally show ?thesis
        using set_child(1) [OF wf c(2)] extend_child [OF wf less.prems(2) pre c(2,3)] BranchNode by (simp add: set_node.simps fun_upd_def)
    next
      case False
      then have d: "?d < length ?P" using first_diff_le(1) [of ?P p] by simp
      then have "?P \<noteq> []" "?d < length p" "p ! ?d \<noteq> ?P ! ?d" "take ?d p = take ?d ?P"
        using n less.prems(2) first_diff_nth [of ?P p] first_diff_take [of ?P p] by auto
      with d False show ?thesis using push_branch [OF wf d less.prems(2), of v] BranchNode
        by (simp add: set_node.simps updateBranchLink.simps insertNewPairIntoBranch.simps Let_def fun_upd_def)
    qed
  qed
qed

text \<open>
  Where a key is longer than the keys of a node, as after following a link past a path that does not match,
  nothing is found.
\<close>

lemma next_node:
  assumes "wf_node sha get n (BranchNode b)" "getLinkedNode sha get b i \<noteq> EmptyNode"
  shows "wf_node sha get (n - length (b_path b) - 1) (getLinkedNode sha get b i)" "n - length (b_path b) - 1 < n"
  using wf_branchD [OF assms(1)] assms(2) by auto

lemma mismatch:
  assumes "wf_node sha get n (BranchNode b)" "n \<le> length p" "first_diff (b_path b) p = length (b_path b) \<Longrightarrow> n < length p"
  shows "n - length (b_path b) - 1 < length (drop (first_diff (b_path b) p + 1) p)" "first_diff (b_path b) p < length p"
  using assms(2,3) wf_branchD(1) [OF assms(1)] first_diff_le(1) [of "b_path b" p] by (cases "first_diff (b_path b) p = length (b_path b)"; simp)+

lemma lookup_node_long:
  assumes "wf_node sha get n node" "n < length p"
  shows "\<exists>ns. lookup_node sha get node p acc = Inr ((0, False), ns)"
  using assms
proof (induction n arbitrary: node p acc rule: less_induct)
  case (less n)
  show ?case
  proof (cases node)
    case (LeafNode q u)
    then show ?thesis using less.prems first_diff_le(1) [of q p] by (auto simp: lookup_cases)
  next
    case (BranchNode b)
    let ?c = "getLinkedNode sha get b (p ! first_diff (b_path b) p)"
    have wf: "wf_node sha get n (BranchNode b)" using less.prems BranchNode by simp
    note d = mismatch [OF wf less_imp_le [OF less.prems(2)] less.prems(2)]
    show ?thesis
    proof (cases "?c = EmptyNode")
      case False
      then show ?thesis
        using less.IH [OF next_node(2) next_node(1) d(1), OF wf False wf False, of "acc @ [BranchNode b]"] d(2) BranchNode
        by (simp add: lookup_cases)
    qed (use d(2) BranchNode in \<open>simp add: lookup_cases\<close>)
  qed (use less.prems in simp)
qed

lemma unset_node_long:
  assumes "wf_node sha get n node" "n < length p"
  shows "unset_node sha get node p cm = Inr None"
  using assms
proof (induction n arbitrary: node p cm rule: less_induct)
  case (less n)
  show ?case
  proof (cases node)
    case (LeafNode q u)
    then show ?thesis using less.prems first_diff_le(1) [of q p] by (auto simp: unset_cases)
  next
    case (BranchNode b)
    let ?c = "getLinkedNode sha get b (p ! first_diff (b_path b) p)"
    have wf: "wf_node sha get n (BranchNode b)" using less.prems BranchNode by simp
    note d = mismatch [OF wf less_imp_le [OF less.prems(2)] less.prems(2)]
    show ?thesis
    proof (cases "?c = EmptyNode")
      case False
      then show ?thesis
        using less.IH [OF next_node(2) next_node(1) d(1), OF wf False wf False, of cm] d(2) BranchNode
        by (simp add: unset_cases)
    qed (use d(2) BranchNode in \<open>simp add: unset_cases\<close>)
  qed (use less.prems in simp)
qed

text \<open>How a key of the right length meets a branch: either it does not match the path, or it goes on below the link.\<close>

lemma branch_key:
  assumes "wf_node sha get n (BranchNode b)" "length p = n"
  obtains (no) "first_diff (b_path b) p < length (b_path b)" "entries sha get n (BranchNode b) p = None"
  | (yes) "first_diff (b_path b) p = length (b_path b)" "take (length (b_path b)) p = b_path b"
      "entries sha get n (BranchNode b) p = entries sha get (n - length (b_path b) - 1)
         (getLinkedNode sha get b (p ! length (b_path b))) (drop (length (b_path b) + 1) p)"
proof (cases "first_diff (b_path b) p = length (b_path b)")
  case True
  then have "take (length (b_path b)) p = b_path b" using first_diff_take [of "b_path b" p] by simp
  with True yes show thesis using wf_branchD(1) [OF assms(1)] assms(2) by (simp add: entries.simps(3))
next
  case False
  then have d: "first_diff (b_path b) p < length (b_path b)" using first_diff_le(1) [of "b_path b" p] by simp
  then have "b_path b ! first_diff (b_path b) p \<noteq> p ! first_diff (b_path b) p"
    using first_diff_nth [of "b_path b" p] wf_branchD(1) [OF assms(1)] assms(2) by simp
  then have "take (length (b_path b)) p \<noteq> b_path b" using d by (metis nth_take)
  with d no show thesis by (simp add: entries.simps(3))
qed

lemma lookup_node_ok:
  assumes "node = EmptyNode \<or> wf_node sha get n node" "length p = n"
  shows "\<exists>ns. lookup_node sha get node p acc = Inr (found (entries sha get n node p), ns)"
  using assms
proof (induction n arbitrary: node p acc rule: less_induct)
  case (less n)
  show ?case
  proof (cases node)
    case EmptyNode
    then show ?thesis by (simp add: lookup_cases found_def)
  next
    case (LeafNode q u)
    have "first_diff q p = length p \<longleftrightarrow> p = q"
      using first_diff_eq_length [of q p] less.prems LeafNode by auto
    then show ?thesis using LeafNode by (auto simp: lookup_cases found_def)
  next
    case (BranchNode b)
    let ?c = "getLinkedNode sha get b (p ! first_diff (b_path b) p)"
    have wf: "wf_node sha get n (BranchNode b)" using less.prems BranchNode by simp
    have dl: "first_diff (b_path b) p < length p" using wf_branchD(1) [OF wf] less.prems(2) first_diff_le(1) [of "b_path b" p] by simp
    have step: "lookup_node sha get node p acc
      = (if ?c = EmptyNode then Inr ((0, False), acc @ [node])
         else lookup_node sha get ?c (drop (first_diff (b_path b) p + 1) p) (acc @ [node]))"
      using dl BranchNode by (simp add: lookup_cases)
    from wf less.prems(2) show ?thesis
    proof (cases rule: branch_key)
      case no
      have d: "n - length (b_path b) - 1 < length (drop (first_diff (b_path b) p + 1) p)"
        using mismatch(1) [OF wf, of p] no less.prems(2) by simp
      show ?thesis using step no(2) BranchNode lookup_node_long [OF next_node(1) [OF wf] d] by (auto simp: found_def)
    next
      case yes
      have "?c = EmptyNode \<or> wf_node sha get (n - length (b_path b) - 1) ?c" using next_node(1) [OF wf] by blast
      moreover have "n - length (b_path b) - 1 < n" "length (drop (first_diff (b_path b) p + 1) p) = n - length (b_path b) - 1"
        using wf_branchD(1) [OF wf] less.prems(2) yes(1) by simp_all
      ultimately obtain ns where "lookup_node sha get ?c (drop (first_diff (b_path b) p + 1) p) (acc @ [node])
          = Inr (found (entries sha get (n - length (b_path b) - 1) ?c (drop (first_diff (b_path b) p + 1) p)), ns)"
        using less.IH by blast
      then show ?thesis using step yes BranchNode by (cases "?c = EmptyNode") (auto simp: found_def)
    qed
  qed
qed

end

context node_reader
begin

text \<open>Merging the last child of a branch into the branch.\<close>

lemma merge_ok:
  assumes "wf_node sha get m c"
  shows "\<exists>c'. node_setPath (P @ [j] @ node_path c) c = Inr c' \<and> wf_node sha get (length P + 1 + m) c'
    \<and> (\<forall>q. entries sha get (length P + 1 + m) c' q
         = (if length q = length P + 1 + m \<and> take (length P) q = P \<and> q ! length P = j
            then entries sha get m c (drop (length P + 1) q) else None))"
proof (cases c)
  case (LeafNode r v)
  have "q = P @ j # r \<longleftrightarrow> length q = length P + 1 + m \<and> take (length P) q = P \<and> q ! length P = j \<and> drop (length P + 1) q = r" for q
  proof
    assume "length q = length P + 1 + m \<and> take (length P) q = P \<and> q ! length P = j \<and> drop (length P + 1) q = r"
    then show "q = P @ j # r" using take_nth_drop_eq [of P q] by simp
  qed (use assms LeafNode in simp)
  then show ?thesis using assms LeafNode by simp
next
  case (BranchNode b)
  let ?R = "P @ j # b_path b" and ?n = "length P + 1 + m"
  have b: "length (b_path b) < m" using wf_branchD(1) [of m b] assms BranchNode by simp
  have "b_setPath (drop (length P + 1) ?R) (b_setPath ?R b) = b" by (simp add: b_setPath_def)
  moreover have "take (length ?R) q = ?R \<longleftrightarrow> take (length P) q = P \<and> q ! length P = j \<and> take (length (b_path b)) (drop (length P + 1) q) = b_path b"
    if "length q = ?n" for q
    using take_split_eq [of "length P" ?R q] that b by simp
  ultimately have "entries sha get ?n (BranchNode (b_setPath ?R b)) q
      = (if length q = ?n \<and> take (length P) q = P \<and> q ! length P = j then entries sha get m (BranchNode b) (drop (length P + 1) q) else None)" for q
    using entries_push [of "length P" "b_setPath ?R b" ?n q] b by (auto simp: entries.simps(3) [of _ _ _ "b_setPath ?R b"])
  moreover have "wf_node sha get ?n (BranchNode (b_setPath ?R b))"
    using wf_setPath [of m b ?n ?R] assms BranchNode b by simp
  ultimately show ?thesis using BranchNode by simp
qed (use assms in simp)

lemma clearLink_simps [simp]:
  "b_path (clearLink i b) = b_path b" "b_linkSet (clearLink i b) = (b_linkSet b)(i := False)"
  "getLinkedNode sha get (clearLink i b) j = (if j = i then EmptyNode else getLinkedNode sha get b j)"
  "link sha (clearLink i b) j = (if j = i then 0 else link sha b j)"
  by (simp_all add: clearLink_def setLink_hash_def getLinkedNode_def linkedNode_def link_def get_zero split: option.splits TreeNode.splits)

lemma unsetBranchLink_ok:
  assumes "wf_node sha get n (BranchNode b)" "b_linkSet b i"
  shows "\<exists>node. unsetBranchLink sha get i b = Inr node \<and> wf_node sha get n node
    \<and> (\<forall>q. entries sha get n node q
         = (if take (length (b_path b)) q = b_path b \<and> q ! length (b_path b) = i then None else entries sha get n (BranchNode b) q))"
proof -
  let ?b = "clearLink i b" and ?m = "n - length (b_path b) - 1"
  have n: "length (b_path b) < n" using wf_branchD(1) [OF assms(1)] .
  have links: "{j. b_linkSet ?b j} = {j. b_linkSet b j} - {i}" by auto
  have num: "numLinks ?b = numLinks b - 1" unfolding numLinks_card links using assms(2) by simp
  have ent: "entries sha get n (BranchNode ?b) q
      = (if take (length (b_path b)) q = b_path b \<and> q ! length (b_path b) = i then None else entries sha get n (BranchNode b) q)" for q
    by (auto simp: entries.simps(3))
  show ?thesis
  proof (cases "numLinks ?b = 1")
    case False
    have "wf_node sha get n (BranchNode ?b)"
      using assms(1) False num by (auto simp: wf_node.simps(3) split: if_splits)
    with False ent show ?thesis by (simp add: unsetBranchLink_def)
  next
    case True
    let ?j = "highestLinkIndex ?b"
    obtain k where k: "filter (b_linkSet ?b) all_nibbles = [k]" using True unfolding numLinks_def by (metis One_nat_def length_0_conv length_Suc_conv)
    then have "?j = k" by (simp add: highestLinkIndex_def)
    moreover have "set (filter (b_linkSet ?b) all_nibbles) = {k}" unfolding k by simp
    then have "{j. b_linkSet ?b j} = {k}" unfolding set_filter set_all_nibbles(1) by simp
    ultimately have j: "b_linkSet ?b j \<longleftrightarrow> j = ?j" for j by blast
    from j [of ?j] have "?j \<noteq> i" "b_linkSet b ?j" by (auto split: if_splits)
    then have wf: "wf_node sha get ?m (getLinkedNode sha get ?b ?j)" using wf_branchD(3) [OF assms(1)] by simp
    obtain c where c: "node_setPath (b_path ?b @ [?j] @ node_path (getLinkedNode sha get ?b ?j)) (getLinkedNode sha get ?b ?j) = Inr c"
        "wf_node sha get n c"
        "\<And>q. entries sha get n c q = (if length q = n \<and> take (length (b_path b)) q = b_path b \<and> q ! length (b_path b) = ?j
            then entries sha get ?m (getLinkedNode sha get ?b ?j) (drop (length (b_path b) + 1) q) else None)"
      using merge_ok [OF wf, of "b_path b" ?j] n by auto
    have none: "getLinkedNode sha get ?b j = EmptyNode" if "j \<noteq> ?j" for j
      using that wf_branchD(4) [OF assms(1), of j] j [of j] by auto
    have "entries sha get n c q = entries sha get n (BranchNode ?b) q" for q
      unfolding c(3) using n none by (auto simp: entries.simps(3))
    with True c(1,2) ent show ?thesis by (simp add: unsetBranchLink_def Let_def)
  qed
qed

text \<open>Where the removed child was a leaf, exactly its key is gone.\<close>

lemma leaf_removed:
  assumes "wf_node sha get n (BranchNode b)" "length p = n" "take (length (b_path b)) p = b_path b"
    "getLinkedNode sha get b (p ! length (b_path b)) = LeafNode (drop (length (b_path b) + 1) p) u"
    "\<And>q. f q = (if take (length (b_path b)) q = b_path b \<and> q ! length (b_path b) = p ! length (b_path b) then None
      else entries sha get n (BranchNode b) q)"
  shows "f = (entries sha get n (BranchNode b))(p := None)"
proof
  fix q
  have n: "length (b_path b) < n" using wf_branchD(1) [OF assms(1)] .
  show "f q = ((entries sha get n (BranchNode b))(p := None)) q"
  proof (cases "length q = n \<and> take (length (b_path b)) q = b_path b \<and> q ! length (b_path b) = p ! length (b_path b)")
    case True
    then have "q = p" if "drop (length (b_path b) + 1) q = drop (length (b_path b) + 1) p"
      using that take_nth_drop_eq [of "b_path b" q] take_nth_drop_eq [of "b_path b" p] n assms(2,3) by metis
    with True show ?thesis using assms(4) n unfolding assms(5) by (auto simp: entries.simps(3))
  next
    case False
    then have "q \<noteq> p" using assms(2,3) by auto
    with False show ?thesis unfolding assms(5) by (auto simp: entries.simps(3))
  qed
qed

text \<open>Removing a key: nothing where it is absent, the empty node for a leaf, else a node without the key.\<close>

lemma unset_node_ok:
  assumes "node = EmptyNode \<or> wf_node sha get n node" "length p = n"
  shows "(entries sha get n node p = None \<longrightarrow> unset_node sha get node p True = Inr None)
    \<and> (entries sha get n node p \<noteq> None \<longrightarrow>
         (\<exists>u. node = LeafNode p u \<and> unset_node sha get node p True = Inr (Some (EmptyNode, True)))
       \<or> (\<exists>b node'. node = BranchNode b \<and> unset_node sha get node p True = Inr (Some (node', False)) \<and> wf_node sha get n node'
             \<and> entries sha get n node' = (entries sha get n node)(p := None)))"
  using assms
proof (induction n arbitrary: node p rule: less_induct)
  case (less n)
  show ?case
  proof (cases node)
    case EmptyNode
    then show ?thesis by (simp add: unset_cases)
  next
    case (LeafNode q u)
    have "first_diff q p = length p \<longleftrightarrow> p = q"
      using first_diff_eq_length [of q p] less.prems LeafNode by auto
    then show ?thesis using LeafNode by (auto simp: unset_cases)
  next
    case (BranchNode b)
    let ?i = "p ! first_diff (b_path b) p" and ?m = "n - length (b_path b) - 1" and ?r = "drop (first_diff (b_path b) p + 1) p"
    let ?c = "getLinkedNode sha get b ?i"
    have wf: "wf_node sha get n (BranchNode b)" using less.prems BranchNode by simp
    have dl: "first_diff (b_path b) p < length p" using wf_branchD(1) [OF wf] less.prems(2) first_diff_le(1) [of "b_path b" p] by simp
    note step = unset_cases(3) [OF dl, of sha get True]
    from wf less.prems(2) show ?thesis
    proof (cases rule: branch_key)
      case no
      have d: "?m < length ?r" using mismatch(1) [OF wf, of p] no less.prems(2) by simp
      show ?thesis unfolding BranchNode step using no(2) unset_node_long [OF next_node(1) [OF wf] d] by simp
    next
      case yes
      have ih: "?c = EmptyNode \<or> wf_node sha get ?m ?c" using next_node(1) [OF wf] by blast
      have m: "?m < n" "length ?r = ?m" using wf_branchD(1) [OF wf] less.prems(2) yes(1) by simp_all
      note ih = less.IH [OF m(1) ih m(2)]
      have e: "entries sha get n (BranchNode b) p = entries sha get ?m ?c ?r" using yes by simp
      show ?thesis
      proof (cases "entries sha get ?m ?c ?r")
        case None
        with ih have "unset_node sha get ?c ?r True = Inr None" by blast
        with None e show ?thesis unfolding BranchNode step by simp
      next
        case (Some v)
        then have ne: "?c \<noteq> EmptyNode" by auto
        have set: "b_linkSet b ?i" using wf_branchD(4) [OF wf, of ?i] ne by blast
        have pre: "take (length (b_path b)) p = b_path b" "?i = p ! length (b_path b)" "?r = drop (length (b_path b) + 1) p"
          using yes by simp_all
        from Some have "entries sha get ?m ?c ?r \<noteq> None" by simp
        with ih consider
            (leaf) u where "?c = LeafNode ?r u" "unset_node sha get ?c ?r True = Inr (Some (EmptyNode, True))"
          | (branch) c' where "unset_node sha get ?c ?r True = Inr (Some (c', False))" "wf_node sha get ?m c'"
              "entries sha get ?m c' = (entries sha get ?m ?c)(?r := None)" by blast
        then show ?thesis
        proof cases
          case leaf
          obtain node' where node': "unsetBranchLink sha get ?i b = Inr node'" "wf_node sha get n node'"
              "\<And>q. entries sha get n node' q = (if take (length (b_path b)) q = b_path b \<and> q ! length (b_path b) = ?i then None else entries sha get n (BranchNode b) q)"
            using unsetBranchLink_ok [OF wf set] by blast
          have "entries sha get n node' = (entries sha get n (BranchNode b))(p := None)"
            by (rule leaf_removed [OF wf less.prems(2) pre(1) leaf(1) [unfolded pre(2,3)] node'(3) [unfolded pre(2)]])
          then show ?thesis unfolding BranchNode step using leaf(2) ne node'(1,2) e Some by (simp add: fun_upd_def)
        next
          case branch
          have "entries sha get n (BranchNode (setLink c' ?i b)) = (entries sha get n (BranchNode b))(p := None)"
            unfolding pre(2) by (rule extend_child [OF wf less.prems(2) pre(1) branch(2,3) [unfolded pre(2,3)]])
          then show ?thesis unfolding BranchNode step using branch(1) set_child(1) [OF wf branch(2)] ne e Some by (simp add: fun_upd_def)
        qed
      qed
    qed
  qed
qed

end

subsection \<open>The hash of a node and its contents\<close>

text \<open>The hash of a branch is computed from its path and the hashes of its links.\<close>

lemma hashed_link_map: "hashed_link (map_BranchTreeNode (node_hash sha) b) i = link sha b i"
  by (cases b) (auto simp: hashed_link_def link_def split: option.splits)

lemma branch_node_hash:
  "node_hash sha (BranchNode b) = sha (encoded_key (b_path b) False @ concat (map (\<lambda>i. array_bytes 32 (link sha b i)) all_nibbles))"
  by (simp add: branch_hash_def hashed_link_map BranchTreeNode.map_sel)

text \<open>The contents of a branch determine its path, and the contents of the children.\<close>

lemma branch_two_keys:
  assumes "wf_node sha get n (BranchNode b)"
  obtains q q' where "entries sha get n (BranchNode b) q \<noteq> None" "entries sha get n (BranchNode b) q' \<noteq> None"
    "q ! length (b_path b) \<noteq> q' ! length (b_path b)"
proof -
  have l: "length (b_path b) < n" using assms by (simp add: wf_node.simps(3))
  have key: "\<exists>r. entries sha get n (BranchNode b) (b_path b @ i # r) \<noteq> None" if "b_linkSet b i" for i
  proof -
    have w: "wf_node sha get (n - length (b_path b) - 1) (getLinkedNode sha get b i)"
      using assms that by (auto simp: wf_node.simps(3) split: if_splits)
    then obtain r v where r: "entries sha get (n - length (b_path b) - 1) (getLinkedNode sha get b i) r = Some v"
      using wf_entries_nonempty by blast
    with entries_branch [OF l, of sha get i r] entries_length [OF r w] show ?thesis by auto
  qed
  have "2 \<le> card {i. b_linkSet b i}" using assms by (simp add: wf_node.simps(3) numLinks_card)
  then obtain S where "S \<subseteq> {i. b_linkSet b i}" "card S = 2" by (metis obtain_subset_with_card_n)
  then obtain i j where "b_linkSet b i" "b_linkSet b j" "i \<noteq> j" by (auto simp: card_2_iff)
  then obtain r s where "entries sha get n (BranchNode b) (b_path b @ i # r) \<noteq> None"
      "entries sha get n (BranchNode b) (b_path b @ j # s) \<noteq> None" "i \<noteq> j"
    using key by blast
  then show thesis using that [of "b_path b @ i # r" "b_path b @ j # s"] by simp
qed

lemma branch_prefix: "entries sha get n (BranchNode b) q \<noteq> None \<Longrightarrow> take (length (b_path b)) q = b_path b \<and> length q = n \<and> length (b_path b) < n"
  by (auto simp: entries.simps(3) split: if_splits)

lemma branch_path_le:
  assumes "wf_node sha get n (BranchNode a)" "entries sha get n (BranchNode a) = entries sha' get' n (BranchNode b)"
  shows "length (b_path b) \<le> length (b_path a)"
proof (rule ccontr)
  assume "\<not> length (b_path b) \<le> length (b_path a)"
  then have l: "length (b_path a) < length (b_path b)" by simp
  obtain q q' where q: "entries sha get n (BranchNode a) q \<noteq> None" "entries sha get n (BranchNode a) q' \<noteq> None"
      and ne: "q ! length (b_path a) \<noteq> q' ! length (b_path a)"
    by (rule branch_two_keys [OF assms(1)])
  have "r ! length (b_path a) = b_path b ! length (b_path a)" if "entries sha get n (BranchNode a) r \<noteq> None" for r
  proof -
    have "entries sha' get' n (BranchNode b) r \<noteq> None" using that assms(2) by simp
    then have "take (length (b_path b)) r = b_path b" using branch_prefix by blast
    then show ?thesis using l by (metis nth_take)
  qed
  from this [OF q(1)] this [OF q(2)] have "q ! length (b_path a) = q' ! length (b_path a)" by simp
  with ne show False by simp
qed

lemma branch_path_eq:
  assumes "wf_node sha get n (BranchNode a)" "wf_node sha' get' n (BranchNode b)"
    "entries sha get n (BranchNode a) = entries sha' get' n (BranchNode b)"
  shows "b_path a = b_path b"
proof -
  have l: "length (b_path a) = length (b_path b)"
    using branch_path_le [OF assms(1,3)] branch_path_le [OF assms(2) assms(3) [symmetric]] by simp
  obtain q where q: "entries sha get n (BranchNode a) q \<noteq> None" by (rule branch_two_keys [OF assms(1)])
  then have q': "entries sha' get' n (BranchNode b) q \<noteq> None" using assms(3) by simp
  have "take (length (b_path a)) q = b_path a" "take (length (b_path b)) q = b_path b"
    using branch_prefix [OF q] branch_prefix [OF q'] by blast+
  with l show ?thesis by metis
qed

lemma branch_child_eq:
  assumes "wf_node sha get n (BranchNode a)" "wf_node sha' get' n (BranchNode b)"
    "entries sha get n (BranchNode a) = entries sha' get' n (BranchNode b)"
  shows "entries sha get (n - length (b_path a) - 1) (getLinkedNode sha get a i)
    = entries sha' get' (n - length (b_path b) - 1) (getLinkedNode sha' get' b i)"
proof
  fix r
  note p = branch_path_eq [OF assms]
  have l: "length (b_path a) < n" "length (b_path b) < n" using assms(1,2) by (simp_all add: wf_node.simps(3))
  have short: "entries s g m c r = None" if "c = EmptyNode \<or> wf_node s g m c" "length r \<noteq> m" for s g m c
    using that entries_length [of s g m c r] by (cases "entries s g m c r") auto
  have child: "getLinkedNode sha get a i = EmptyNode \<or> wf_node sha get (n - length (b_path a) - 1) (getLinkedNode sha get a i)"
      "getLinkedNode sha' get' b i = EmptyNode \<or> wf_node sha' get' (n - length (b_path b) - 1) (getLinkedNode sha' get' b i)"
    using assms(1,2) by (auto simp: wf_node.simps(3) split: if_splits)
  show "entries sha get (n - length (b_path a) - 1) (getLinkedNode sha get a i) r
    = entries sha' get' (n - length (b_path b) - 1) (getLinkedNode sha' get' b i) r"
  proof (cases "length r = n - length (b_path a) - 1")
    case True
    then show ?thesis using entries_branch [OF l(1), of sha get i r] entries_branch [OF l(2), of sha' get' i r] assms(3) p by simp
  next
    case False
    then show ?thesis using short [OF child(1)] short [OF child(2)] p by simp
  qed
qed

text \<open>Nodes with the same contents have the same hash, wherever their children are kept.\<close>

lemma hash_canonical:
  assumes "a = EmptyNode \<or> wf_node sha get n a" "b = EmptyNode \<or> wf_node sha get' n b"
    "entries sha get n a = entries sha get' n b"
  shows "node_hash sha a = node_hash sha b"
  using assms
proof (induction n arbitrary: a b rule: less_induct)
  case (less n)
  show ?case
  proof (cases "a = EmptyNode \<or> b = EmptyNode")
    case True
    then show ?thesis using less.prems wf_entries_nonempty by (metis entries.simps(1) option.distinct(1))
  next
    case False
    then have wf: "wf_node sha get n a" "wf_node sha get' n b" using less.prems by simp_all
    consider (ll) p v q u where "a = LeafNode p v" "b = LeafNode q u" | (lb) p v d where "a = LeafNode p v" "b = BranchNode d"
      | (bl) p v d where "a = BranchNode d" "b = LeafNode p v" | (bb) c d where "a = BranchNode c" "b = BranchNode d"
      using False by (cases a; cases b) auto
    then show ?thesis
    proof cases
      case ll
      then show ?thesis using less.prems(3) by (auto simp: fun_eq_iff split: if_splits)
    next
      case lb
      then show ?thesis using branch_two_keys [of sha get' n d] wf less.prems(3) by (metis entries.simps(2) fun_upd_apply)
    next
      case bl
      then show ?thesis using branch_two_keys [of sha get n d] wf less.prems(3) by (metis entries.simps(2) fun_upd_apply)
    next
      case bb
      have e: "entries sha get n (BranchNode c) = entries sha get' n (BranchNode d)" using less.prems(3) bb by simp
      have w: "wf_node sha get n (BranchNode c)" "wf_node sha get' n (BranchNode d)" using wf bb by simp_all
      note p = branch_path_eq [OF w e]
      have "link sha c i = link sha d i" for i
      proof -
        let ?c = "getLinkedNode sha get c i" and ?d = "getLinkedNode sha get' d i" and ?m = "n - length (b_path c) - 1"
        have c: "?c = EmptyNode \<and> link sha c i = 0 \<or> wf_node sha get ?m ?c \<and> link sha c i = node_hash sha ?c"
            "?d = EmptyNode \<and> link sha d i = 0 \<or> wf_node sha get' ?m ?d \<and> link sha d i = node_hash sha ?d" "?m < n"
          using w p by (auto simp: wf_node.simps(3) split: if_splits)
        then have "node_hash sha ?c = node_hash sha ?d"
          using less.IH [OF c(3), of ?c ?d] branch_child_eq [OF w e, of i] p by auto
        then show ?thesis using c(1,2) by auto
      qed
      then show ?thesis using p bb by (simp add: branch_node_hash del: node_hash.simps)
    qed
  qed
qed

end
