(* ===== verification/TreeStore.thy ===== *)
theory TreeStore
  imports PatriciaTree
begin

section \<open>Stored trees and their deltas (catapult/tree)\<close>

text \<open>
  A tree is a root node over a data source. A memory data source keeps leaves and branches by their hash; the
  data source of a delta reads through such a memory to the data source of the base tree. Saving a tree
  writes its loaded nodes bottom up, each with its links reduced to hashes, so that the tree can be loaded
  again from its root hash alone.

  The hash maps are association lists in the order of insertion, which is one of the orders in which the
  source may visit them. A data source that several objects share by reference is passed to each operation.
  The type of the data source of a base tree is a parameter with its operations \<open>get\<close> and \<open>put\<close> (\<open>set\<close> in the source).
\<close>

subsection \<open>Data sources\<close>

record MemoryDataSource =
  m_leafNodes :: "(Hash256 \<times> path \<times> Hash256) list"
  m_branchNodes :: "(Hash256 \<times> TreeNode BranchTreeNode) list"

definition new_MemoryDataSource :: MemoryDataSource where
  "new_MemoryDataSource = \<lparr>m_leafNodes = [], m_branchNodes = []\<rparr>"

definition mds_size :: "MemoryDataSource \<Rightarrow> nat" where
  "mds_size ds = length (m_leafNodes ds) + length (m_branchNodes ds)"

definition mds_get :: "MemoryDataSource \<Rightarrow> Hash256 \<Rightarrow> TreeNode" where
  "mds_get ds hash =
     (case map_of (m_leafNodes ds) hash of
        Some (path, v) \<Rightarrow> LeafNode path v
      | None \<Rightarrow> (case map_of (m_branchNodes ds) hash of Some b \<Rightarrow> BranchNode b | None \<Rightarrow> EmptyNode))"

definition mds_forEach :: "MemoryDataSource \<Rightarrow> TreeNode list" where
  "mds_forEach ds = map (\<lambda>(_, path, v). LeafNode path v) (m_leafNodes ds) @ map (\<lambda>(_, b). BranchNode b) (m_branchNodes ds)"

text \<open>\<open>emplace\<close> of a hash map: an existing entry is kept.\<close>

definition emplace :: "'k \<Rightarrow> 'v \<Rightarrow> ('k \<times> 'v) list \<Rightarrow> ('k \<times> 'v) list" where
  "emplace k v m = (if map_of m k = None then m @ [(k, v)] else m)"

definition mds_set_leaf :: "(uint8 list \<Rightarrow> Hash256) \<Rightarrow> path \<Rightarrow> Hash256 \<Rightarrow> MemoryDataSource \<Rightarrow> MemoryDataSource" where
  "mds_set_leaf Sha3_256 path v ds =
     ds\<lparr>m_leafNodes := emplace (node_hash Sha3_256 (LeafNode path v)) (path, v) (m_leafNodes ds)\<rparr>"

definition mds_set_branch :: "(uint8 list \<Rightarrow> Hash256) \<Rightarrow> TreeNode BranchTreeNode \<Rightarrow> MemoryDataSource \<Rightarrow> MemoryDataSource" where
  "mds_set_branch Sha3_256 b ds = ds\<lparr>m_branchNodes := emplace (node_hash Sha3_256 (BranchNode b)) b (m_branchNodes ds)\<rparr>"

definition mds_clear :: "MemoryDataSource \<Rightarrow> MemoryDataSource" where
  "mds_clear ds = ds\<lparr>m_leafNodes := [], m_branchNodes := []\<rparr>"

text \<open>Saving a node of either kind; an empty node is never saved.\<close>

fun mds_set :: "(uint8 list \<Rightarrow> Hash256) \<Rightarrow> TreeNode \<Rightarrow> MemoryDataSource \<Rightarrow> MemoryDataSource" where
  "mds_set Sha3_256 (LeafNode path v) ds = mds_set_leaf Sha3_256 path v ds"
| "mds_set Sha3_256 (BranchNode b) ds = mds_set_branch Sha3_256 b ds"
| "mds_set Sha3_256 EmptyNode ds = ds"

text \<open>The read through data source: its own memory first, then the backing data source.\<close>

definition rt_get :: "(Hash256 \<Rightarrow> TreeNode) \<Rightarrow> MemoryDataSource \<Rightarrow> Hash256 \<Rightarrow> TreeNode" where
  "rt_get backing_get memory hash =
     (let node = mds_get memory hash in if node \<noteq> EmptyNode then node else backing_get hash)"

subsection \<open>Trees\<close>

text \<open>
  \<open>EncodePath\<close> is the path of the encoded key and \<open>EncodeValue\<close> the encoder of values. Below, the two encoders of
  the caches: keys plain or hashed, values hashed.
\<close>

definition plain_EncodeValue :: "(uint8 list \<Rightarrow> Hash256) \<Rightarrow> ('v \<Rightarrow> uint8 list) \<Rightarrow> 'v \<Rightarrow> Hash256" where
  "plain_EncodeValue Sha3_256 SerializeValue v = Sha3_256 (SerializeValue v)"

definition hashed_EncodeKey :: "(uint8 list \<Rightarrow> Hash256) \<Rightarrow> ('k \<Rightarrow> uint8 list) \<Rightarrow> 'k \<Rightarrow> TreeNodePath" where
  "hashed_EncodeKey Sha3_256 SerializeKey key = tnp_of_bytes (array_bytes 32 (Sha3_256 (SerializeKey key)))"

definition pt_set ::
  "(uint8 list \<Rightarrow> Hash256) \<Rightarrow> ('k \<Rightarrow> TreeNodePath) \<Rightarrow> ('v \<Rightarrow> Hash256) \<Rightarrow> (Hash256 \<Rightarrow> TreeNode) \<Rightarrow> 'k \<Rightarrow> 'v \<Rightarrow> TreeNode \<Rightarrow> exn + TreeNode" where
  "pt_set Sha3_256 EncodePath EncodeValue get key v rootNode =
     set_node Sha3_256 get rootNode (nibbles (EncodePath key)) (EncodeValue v)"

definition pt_unset ::
  "(uint8 list \<Rightarrow> Hash256) \<Rightarrow> ('k \<Rightarrow> TreeNodePath) \<Rightarrow> (Hash256 \<Rightarrow> TreeNode) \<Rightarrow> 'k \<Rightarrow> TreeNode \<Rightarrow> exn + bool \<times> TreeNode" where
  "pt_unset Sha3_256 EncodePath get key rootNode =
     rbind (unset_node Sha3_256 get rootNode (nibbles (EncodePath key)) True) (\<lambda>result.
       Inr (case result of None \<Rightarrow> (False, rootNode) | Some (updatedNode, _) \<Rightarrow> (True, updatedNode)))"

definition pt_lookup ::
  "(uint8 list \<Rightarrow> Hash256) \<Rightarrow> ('k \<Rightarrow> TreeNodePath) \<Rightarrow> (Hash256 \<Rightarrow> TreeNode) \<Rightarrow> 'k \<Rightarrow> TreeNode list \<Rightarrow> TreeNode
    \<Rightarrow> exn + (Hash256 \<times> bool) \<times> TreeNode list" where
  "pt_lookup Sha3_256 EncodePath get key nodePath rootNode =
     lookup_node Sha3_256 get rootNode (nibbles (EncodePath key)) nodePath"

definition pt_tryLoad :: "(Hash256 \<Rightarrow> TreeNode) \<Rightarrow> Hash256 \<Rightarrow> TreeNode \<Rightarrow> bool \<times> TreeNode" where
  "pt_tryLoad get rootHash rootNode =
     (let node = get rootHash in if node = EmptyNode then (False, rootNode) else (True, node))"

text \<open>The nodes that \<open>saveAll\<close> writes, in order: the loaded children of a branch before the branch itself.\<close>

primrec saveAll_nodes :: "(uint8 list \<Rightarrow> Hash256) \<Rightarrow> TreeNode \<Rightarrow> TreeNode list" where
  "saveAll_nodes Sha3_256 EmptyNode = []"
| "saveAll_nodes Sha3_256 (LeafNode path v) = [LeafNode path v]"
| "saveAll_nodes Sha3_256 (BranchNode b) =
     concat (map (\<lambda>i. case b_linkedNodes (map_BranchTreeNode (saveAll_nodes Sha3_256) b) i of None \<Rightarrow> [] | Some nodes \<Rightarrow> nodes) all_nibbles)
     @ [BranchNode (compactLinks Sha3_256 b)]"

definition pt_saveAll :: "(uint8 list \<Rightarrow> Hash256) \<Rightarrow> TreeNode \<Rightarrow> MemoryDataSource \<Rightarrow> MemoryDataSource" where
  "pt_saveAll Sha3_256 rootNode ds = fold (mds_set Sha3_256) (saveAll_nodes Sha3_256 rootNode) ds"

subsection \<open>Deltas\<close>

record BasePatriciaTreeDelta =
  d_memory :: MemoryDataSource
  m_baseRootHash :: Hash256
  d_tree :: TreeNode

definition bptd_new :: "(Hash256 \<Rightarrow> TreeNode) \<Rightarrow> Hash256 \<Rightarrow> BasePatriciaTreeDelta" where
  "bptd_new backing_get rootHash =
     \<lparr>d_memory = new_MemoryDataSource, m_baseRootHash = rootHash,
      d_tree = snd (pt_tryLoad (rt_get backing_get new_MemoryDataSource) rootHash EmptyNode)\<rparr>"

definition bptd_root :: "(uint8 list \<Rightarrow> Hash256) \<Rightarrow> BasePatriciaTreeDelta \<Rightarrow> Hash256" where
  "bptd_root Sha3_256 d = node_hash Sha3_256 (d_tree d)"

definition bptd_get :: "(Hash256 \<Rightarrow> TreeNode) \<Rightarrow> BasePatriciaTreeDelta \<Rightarrow> Hash256 \<Rightarrow> TreeNode" where
  "bptd_get backing_get d = rt_get backing_get (d_memory d)"

definition bptd_reset :: "(Hash256 \<Rightarrow> TreeNode) \<Rightarrow> Hash256 \<Rightarrow> BasePatriciaTreeDelta \<Rightarrow> exn + BasePatriciaTreeDelta" where
  "bptd_reset backing_get rootHash d =
     (if 0 = rootHash then Inr (d\<lparr>d_tree := EmptyNode, m_baseRootHash := rootHash\<rparr>)
      else case pt_tryLoad (bptd_get backing_get d) rootHash (d_tree d) of
             (False, _) \<Rightarrow> Inl Runtime_Error
           | (True, node) \<Rightarrow> Inr (d\<lparr>d_tree := node, m_baseRootHash := rootHash\<rparr>))"

definition bptd_set ::
  "(uint8 list \<Rightarrow> Hash256) \<Rightarrow> ('k \<Rightarrow> TreeNodePath) \<Rightarrow> ('v \<Rightarrow> Hash256) \<Rightarrow> (Hash256 \<Rightarrow> TreeNode) \<Rightarrow> 'k \<Rightarrow> 'v \<Rightarrow> BasePatriciaTreeDelta
    \<Rightarrow> exn + BasePatriciaTreeDelta" where
  "bptd_set Sha3_256 EncodePath EncodeValue backing_get key v d =
     rbind (pt_set Sha3_256 EncodePath EncodeValue (bptd_get backing_get d) key v (d_tree d)) (\<lambda>t. Inr (d\<lparr>d_tree := t\<rparr>))"

definition bptd_unset ::
  "(uint8 list \<Rightarrow> Hash256) \<Rightarrow> ('k \<Rightarrow> TreeNodePath) \<Rightarrow> (Hash256 \<Rightarrow> TreeNode) \<Rightarrow> 'k \<Rightarrow> BasePatriciaTreeDelta
    \<Rightarrow> exn + bool \<times> BasePatriciaTreeDelta" where
  "bptd_unset Sha3_256 EncodePath backing_get key d =
     rbind (pt_unset Sha3_256 EncodePath (bptd_get backing_get d) key (d_tree d)) (\<lambda>(r, t). Inr (r, d\<lparr>d_tree := t\<rparr>))"

definition bptd_setCheckpoint :: "(uint8 list \<Rightarrow> Hash256) \<Rightarrow> BasePatriciaTreeDelta \<Rightarrow> BasePatriciaTreeDelta" where
  "bptd_setCheckpoint Sha3_256 d = d\<lparr>d_memory := pt_saveAll Sha3_256 (d_tree d) (d_memory d)\<rparr>"

definition bptd_copyPendingChangesTo :: "(TreeNode \<Rightarrow> 'd \<Rightarrow> 'd) \<Rightarrow> BasePatriciaTreeDelta \<Rightarrow> 'd \<Rightarrow> 'd" where
  "bptd_copyPendingChangesTo put d dataSource = fold put (mds_forEach (d_memory d)) dataSource"

definition bptd_copyRootTo :: "(uint8 list \<Rightarrow> Hash256) \<Rightarrow> (Hash256 \<Rightarrow> TreeNode) \<Rightarrow> BasePatriciaTreeDelta \<Rightarrow> TreeNode" where
  "bptd_copyRootTo Sha3_256 backing_get d =
     (let rootHash = bptd_root Sha3_256 d in if 0 = rootHash then EmptyNode else bptd_get backing_get d rootHash)"

subsection \<open>Base trees\<close>

text \<open>The weak pointer to the attached delta is the delta itself while it is alive.\<close>

record 'd BasePatriciaTree =
  m_dataSource :: 'd
  m_tree :: TreeNode
  m_pWeakDelta :: "BasePatriciaTreeDelta option"

definition bpt_new :: "'d \<Rightarrow> 'd BasePatriciaTree" where
  "bpt_new dataSource = \<lparr>m_dataSource = dataSource, m_tree = EmptyNode, m_pWeakDelta = None\<rparr>"

definition bpt_load :: "('d \<Rightarrow> Hash256 \<Rightarrow> TreeNode) \<Rightarrow> 'd \<Rightarrow> Hash256 \<Rightarrow> exn + 'd BasePatriciaTree" where
  "bpt_load get dataSource rootHash =
     (let t = bpt_new dataSource
      in case pt_tryLoad (get dataSource) rootHash (m_tree t) of
           (False, _) \<Rightarrow> Inl Runtime_Error
         | (True, node) \<Rightarrow> Inr (t\<lparr>m_tree := node\<rparr>))"

definition bpt_root :: "(uint8 list \<Rightarrow> Hash256) \<Rightarrow> 'd BasePatriciaTree \<Rightarrow> Hash256" where
  "bpt_root Sha3_256 t = node_hash Sha3_256 (m_tree t)"

definition bpt_rebaseDetached :: "(uint8 list \<Rightarrow> Hash256) \<Rightarrow> ('d \<Rightarrow> Hash256 \<Rightarrow> TreeNode) \<Rightarrow> 'd BasePatriciaTree \<Rightarrow> BasePatriciaTreeDelta" where
  "bpt_rebaseDetached Sha3_256 get t = bptd_new (get (m_dataSource t)) (bpt_root Sha3_256 t)"

definition bpt_rebase :: "(uint8 list \<Rightarrow> Hash256) \<Rightarrow> ('d \<Rightarrow> Hash256 \<Rightarrow> TreeNode) \<Rightarrow> 'd BasePatriciaTree \<Rightarrow> exn + 'd BasePatriciaTree" where
  "bpt_rebase Sha3_256 get t =
     (case m_pWeakDelta t of
        Some _ \<Rightarrow> Inl Runtime_Error
      | None \<Rightarrow> Inr (t\<lparr>m_pWeakDelta := Some (bptd_new (get (m_dataSource t)) (bpt_root Sha3_256 t))\<rparr>))"

definition bpt_commit ::
  "(uint8 list \<Rightarrow> Hash256) \<Rightarrow> ('d \<Rightarrow> Hash256 \<Rightarrow> TreeNode) \<Rightarrow> (TreeNode \<Rightarrow> 'd \<Rightarrow> 'd) \<Rightarrow> 'd BasePatriciaTree \<Rightarrow> exn + 'd BasePatriciaTree" where
  "bpt_commit Sha3_256 get put t =
     (case m_pWeakDelta t of
        None \<Rightarrow> Inl Runtime_Error
      | Some pDelta \<Rightarrow>
          let pDelta = bptd_setCheckpoint Sha3_256 pDelta;
              dataSource = bptd_copyPendingChangesTo put pDelta (m_dataSource t);
              root = bptd_copyRootTo Sha3_256 (get dataSource) pDelta
          in rbind (bptd_reset (get dataSource) (bptd_root Sha3_256 pDelta) pDelta) (\<lambda>pDelta.
               Inr (t\<lparr>m_dataSource := dataSource, m_tree := root, m_pWeakDelta := Some pDelta\<rparr>)))"

subsection \<open>Reading the same tree from another data source\<close>

lemma wf_child:
  assumes "wf_node sha get n (BranchNode b)"
  shows "b_linkSet b i \<Longrightarrow> wf_node sha get (n - length (b_path b) - 1) (getLinkedNode sha get b i)"
    "b_linkSet b i \<Longrightarrow> link sha b i = node_hash sha (getLinkedNode sha get b i)"
    "\<not> b_linkSet b i \<Longrightarrow> getLinkedNode sha get b i = EmptyNode" "\<not> b_linkSet b i \<Longrightarrow> link sha b i = 0"
  using assms by (auto simp: wf_node.simps(3) split: if_splits)

text \<open>More stored nodes do not change a tree.\<close>

lemma more_nodes:
  assumes "a = EmptyNode \<or> wf_node sha get n a" "\<And>h. get h \<noteq> EmptyNode \<Longrightarrow> get' h = get h" "get' 0 = EmptyNode"
  shows "(a = EmptyNode \<or> wf_node sha get' n a) \<and> entries sha get' n a = entries sha get n a"
  using assms(1)
proof (induction n arbitrary: a rule: less_induct)
  case (less n)
  show ?case
  proof (cases a)
    case (BranchNode b)
    then have wf: "wf_node sha get n (BranchNode b)" using less.prems by simp
    have child: "getLinkedNode sha get' b i = getLinkedNode sha get b i" for i
    proof (cases "b_linkSet b i")
      case True
      then have "getLinkedNode sha get b i \<noteq> EmptyNode" using wf_nonempty [OF wf_child(1) [OF wf]] by blast
      then show ?thesis using assms(2) [of "link sha b i"] by (auto simp: getLinkedNode_def split: TreeNode.splits)
    next
      case False
      note wf_child(3,4) [OF wf False]
      then show ?thesis using assms(3) by (auto simp: getLinkedNode_def split: TreeNode.splits)
    qed
    let ?m = "n - length (b_path b) - 1"
    have m: "?m < n" using wf by (simp add: wf_node.simps(3))
    have ih: "(getLinkedNode sha get b i = EmptyNode \<or> wf_node sha get' ?m (getLinkedNode sha get b i))
        \<and> entries sha get' ?m (getLinkedNode sha get b i) = entries sha get ?m (getLinkedNode sha get b i)" for i
      using less.IH [OF m, of "getLinkedNode sha get b i"] wf_child(1,3) [OF wf, of i] by blast
    have ent: "entries sha get' ?m (getLinkedNode sha get b i) = entries sha get ?m (getLinkedNode sha get b i)" for i using ih by blast
    have "wf_node sha get' n (BranchNode b)" using wf ih unfolding wf_node.simps(3) child by (metis wf_nonempty)
    moreover have "entries sha get' n (BranchNode b) = entries sha get n (BranchNode b)"
      unfolding entries.simps(3) child ent ..
    ultimately show ?thesis using BranchNode by simp
  qed (use less.prems in auto)
qed

text \<open>A node as it is saved.\<close>

fun compact_node :: "(uint8 list \<Rightarrow> Hash256) \<Rightarrow> TreeNode \<Rightarrow> TreeNode" where
  "compact_node sha (BranchNode b) = BranchNode (compactLinks sha b)"
| "compact_node sha node = node"

lemma compactLinks_simps [simp]:
  "b_path (compactLinks sha b) = b_path b" "b_linkSet (compactLinks sha b) = b_linkSet b" "numLinks (compactLinks sha b) = numLinks b"
  "link sha (compactLinks sha b) i = link sha b i" "getLinkedNode sha get (compactLinks sha b) i = get (link sha b i)"
  by (simp_all add: compactLinks_def numLinks_def link_def getLinkedNode_def linkedNode_def split: option.splits)

lemma compact_hash [simp]: "node_hash sha (compact_node sha a) = node_hash sha a"
  by (cases a) (simp_all add: branch_node_hash del: node_hash.simps(3))

lemma compact_saved: "a \<noteq> EmptyNode \<Longrightarrow> compact_node sha a \<in> set (saveAll_nodes sha a)"
  by (cases a) auto

lemma linked_saved:
  assumes "b_linkedNodes b i = Some c"
  shows "set (saveAll_nodes sha c) \<subseteq> set (saveAll_nodes sha (BranchNode b))"
proof -
  let ?f = "\<lambda>i. case b_linkedNodes (map_BranchTreeNode (saveAll_nodes sha) b) i of None \<Rightarrow> [] | Some nodes \<Rightarrow> nodes"
  have "?f i = saveAll_nodes sha c" using assms by (cases b) simp
  moreover have "set (?f i) \<subseteq> set (concat (map ?f all_nibbles))" unfolding set_concat using set_all_nibbles(1) by auto
  ultimately show ?thesis by auto
qed

lemma saved_child:
  assumes "\<And>c. c \<in> set (saveAll_nodes sha (BranchNode b)) \<Longrightarrow> get (node_hash sha c) = c" "get 0 = EmptyNode"
  shows "get (link sha b i) = getLinkedNode sha get b i
    \<or> (\<exists>c. b_linkedNodes b i = Some c \<and> getLinkedNode sha get b i = c \<and> get (link sha b i) = compact_node sha c)"
proof (cases "linkedNode b i = EmptyNode")
  case False
  then obtain c where c: "b_linkedNodes b i = Some c" "c \<noteq> EmptyNode" by (auto simp: linkedNode_def split: option.splits)
  then have "get (node_hash sha (compact_node sha c)) = compact_node sha c"
    using assms(1) compact_saved [OF c(2)] linked_saved [OF c(1)] by blast
  with c show ?thesis by (auto simp: link_def getLinkedNode_def linkedNode_def split: TreeNode.splits)
qed (simp add: getLinkedNode_def)

text \<open>A saved tree can be read from its hashes alone.\<close>

lemma compact_ok:
  assumes "wf_node sha get n a" "\<And>c. c \<in> set (saveAll_nodes sha a) \<Longrightarrow> get (node_hash sha c) = c" "get 0 = EmptyNode"
  shows "wf_node sha get n (compact_node sha a) \<and> entries sha get n (compact_node sha a) = entries sha get n a"
  using assms(1,2)
proof (induction n arbitrary: a rule: less_induct)
  case (less n)
  show ?case
  proof (cases a)
    case (BranchNode b)
    let ?m = "n - length (b_path b) - 1"
    have wf: "wf_node sha get n (BranchNode b)" using less.prems BranchNode by simp
    then have m: "?m < n" by (simp add: wf_node.simps(3))
    have child: "(b_linkSet b i \<longrightarrow> wf_node sha get ?m (get (link sha b i)) \<and> link sha b i = node_hash sha (get (link sha b i)))
        \<and> (\<not> b_linkSet b i \<longrightarrow> get (link sha b i) = EmptyNode \<and> link sha b i = 0)
        \<and> entries sha get ?m (get (link sha b i)) = entries sha get ?m (getLinkedNode sha get b i)" for i
    proof -
      let ?c = "getLinkedNode sha get b i"
      have w: "if b_linkSet b i then wf_node sha get ?m ?c \<and> link sha b i = node_hash sha ?c else ?c = EmptyNode \<and> link sha b i = 0"
        using wf_child [OF wf, of i] by simp
      show ?thesis
      proof (cases "get (link sha b i) = ?c")
        case True
        then show ?thesis using w by (auto split: if_splits)
      next
        case False
        then have c: "b_linkedNodes b i = Some ?c" "get (link sha b i) = compact_node sha ?c"
          using saved_child [of sha b get i] less.prems(2) assms(3) BranchNode by auto
        show ?thesis
        proof (cases "b_linkSet b i")
          case True
          then have "wf_node sha get ?m ?c" using w by simp
          moreover have "\<And>k. k \<in> set (saveAll_nodes sha ?c) \<Longrightarrow> get (node_hash sha k) = k"
            using less.prems(2) linked_saved [OF c(1)] BranchNode by blast
          ultimately have "wf_node sha get ?m (compact_node sha ?c)" "entries sha get ?m (compact_node sha ?c) = entries sha get ?m ?c"
            using less.IH [OF m] by blast+
          then show ?thesis unfolding c(2) using w True by simp
        next
          case False
          then show ?thesis using w assms(3) by simp
        qed
      qed
    qed
    have ent: "entries sha get ?m (get (link sha b i)) = entries sha get ?m (getLinkedNode sha get b i)" for i using child by blast
    have "wf_node sha get n (BranchNode (compactLinks sha b))"
      using wf child unfolding wf_node.simps(3) compactLinks_simps by auto
    moreover have "entries sha get n (BranchNode (compactLinks sha b)) = entries sha get n (BranchNode b)"
      unfolding entries.simps(3) compactLinks_simps ent ..
    ultimately show ?thesis using BranchNode by simp
  qed (use less.prems in auto)
qed

subsection \<open>The interface of a data source\<close>

text \<open>Nodes whose hashes are not zero and do not collide, with each other or with the nodes that can be read.\<close>

definition no_collision :: "(uint8 list \<Rightarrow> Hash256) \<Rightarrow> (Hash256 \<Rightarrow> TreeNode) \<Rightarrow> TreeNode list \<Rightarrow> bool" where
  "no_collision sha get nodes \<longleftrightarrow> (\<forall>c\<in>set nodes. c \<noteq> EmptyNode \<and> node_hash sha c \<noteq> 0 \<and> get (node_hash sha c) \<in> {EmptyNode, c}
     \<and> (\<forall>c'\<in>set nodes. node_hash sha c' = node_hash sha c \<longrightarrow> c' = c))"

text \<open>
  What a tree relies on: saving a node makes a node readable under its hash, the new one or the one that was
  there, and changes nothing else.
\<close>

locale data_source =
  fixes sha :: "uint8 list \<Rightarrow> Hash256" and get :: "'d \<Rightarrow> Hash256 \<Rightarrow> TreeNode" and put :: "TreeNode \<Rightarrow> 'd \<Rightarrow> 'd"
  assumes put_other: "h \<noteq> node_hash sha node \<Longrightarrow> get (put node d) h = get d h"
    and put_same: "node \<noteq> EmptyNode \<Longrightarrow> get (put node d) (node_hash sha node) = node
      \<or> get d (node_hash sha node) \<noteq> EmptyNode \<and> get (put node d) (node_hash sha node) = get d (node_hash sha node)"
begin

lemma put_nodes:
  assumes "no_collision sha (get d) nodes"
  shows "(\<forall>c\<in>set nodes. get (fold put nodes d) (node_hash sha c) = c)
    \<and> (\<forall>h. h \<notin> node_hash sha ` set nodes \<longrightarrow> get (fold put nodes d) h = get d h)
    \<and> (\<forall>h. get d h \<noteq> EmptyNode \<longrightarrow> get (fold put nodes d) h = get d h)"
  using assms
proof (induction nodes arbitrary: d)
  case (Cons c nodes)
  have c: "c \<noteq> EmptyNode" "get d (node_hash sha c) \<in> {EmptyNode, c}"
    using Cons.prems by (auto simp: no_collision_def)
  have get: "get (put c d) h = (if h = node_hash sha c then c else get d h)" for h
    using put_other [of h c d] put_same [OF c(1), of d] c(2) by auto
  have "no_collision sha (get (put c d)) nodes"
    using Cons.prems unfolding no_collision_def get by auto
  note ih = Cons.IH [OF this]
  have "get (fold put nodes (put c d)) (node_hash sha c) = c" using ih get [of "node_hash sha c"] c(1) by simp
  moreover have "get (fold put nodes (put c d)) h = get d h" if "get d h \<noteq> EmptyNode" for h
    using ih get [of h] c that by (cases "h = node_hash sha c") auto
  ultimately show ?case using ih unfolding get by auto
qed simp

lemma put_zero:
  assumes "no_collision sha (get d) nodes" "get d 0 = EmptyNode"
  shows "get (fold put nodes d) 0 = EmptyNode"
proof -
  have "0 \<notin> node_hash sha ` set nodes" using assms(1) unfolding no_collision_def by (metis imageE)
  then show ?thesis using put_nodes [OF assms(1)] assms(2) by simp
qed

text \<open>Saving a tree: it can be loaded from its root hash, with the same contents.\<close>

lemma save_load:
  fixes d a
  assumes "wf_node sha (get d) n a" "get d 0 = EmptyNode" "no_collision sha (get d) (saveAll_nodes sha a)"
  defines "d' \<equiv> fold put (saveAll_nodes sha a) d"
  shows "get d' (node_hash sha a) = compact_node sha a" "wf_node sha (get d') n (compact_node sha a)"
    "entries sha (get d') n (compact_node sha a) = entries sha (get d) n a"
proof -
  note put = put_nodes [OF assms(3), folded d'_def]
  have zero: "get d' 0 = EmptyNode" unfolding d'_def by (rule put_zero [OF assms(3,2)])
  have a: "wf_node sha (get d') n a" "entries sha (get d') n a = entries sha (get d) n a"
    using more_nodes [of a sha "get d" n "get d'"] put zero wf_nonempty [OF assms(1)] assms(1) by auto
  have "get d' (node_hash sha (compact_node sha a)) = compact_node sha a"
    using put compact_saved [OF wf_nonempty [OF assms(1)]] by blast
  then show "get d' (node_hash sha a) = compact_node sha a" by simp
  show "wf_node sha (get d') n (compact_node sha a)" "entries sha (get d') n (compact_node sha a) = entries sha (get d) n a"
    using compact_ok [OF a(1) _ zero] put a(2) by auto
qed

end

subsection \<open>The data sources of the program\<close>

lemma map_of_emplace: "map_of (emplace k v m) k' = (if k' = k \<and> map_of m k = None then Some v else map_of m k')"
  by (auto simp: emplace_def map_of_append map_add_def split: option.splits)

lemma mds_get_set_leaf:
  "mds_get (mds_set_leaf sha p v d) h
    = (if h = node_hash sha (LeafNode p v) \<and> map_of (m_leafNodes d) h = None then LeafNode p v else mds_get d h)"
  unfolding mds_get_def mds_set_leaf_def by (auto simp: map_of_emplace simp del: node_hash.simps split: option.splits)

lemma mds_get_set_branch:
  "mds_get (mds_set_branch sha b d) h
    = (if h = node_hash sha (BranchNode b) \<and> mds_get d h = EmptyNode then BranchNode b else mds_get d h)"
  unfolding mds_get_def mds_set_branch_def by (auto simp: map_of_emplace simp del: node_hash.simps split: option.splits)

lemma mds_leaf_some: "map_of (m_leafNodes d) h \<noteq> None \<Longrightarrow> mds_get d h \<noteq> EmptyNode"
  by (auto simp: mds_get_def)

text \<open>A leaf is found before a branch of the same hash.\<close>

lemma mds_get_set:
  "h \<noteq> node_hash sha node \<Longrightarrow> mds_get (mds_set sha node d) h = mds_get d h"
  "node \<noteq> EmptyNode \<Longrightarrow> mds_get (mds_set sha node d) (node_hash sha node) = node
     \<or> mds_get d (node_hash sha node) \<noteq> EmptyNode \<and> mds_get (mds_set sha node d) (node_hash sha node) = mds_get d (node_hash sha node)"
proof -
  show "mds_get (mds_set sha node d) h = mds_get d h" if "h \<noteq> node_hash sha node"
    using that by (cases node) (simp_all add: mds_get_set_leaf mds_get_set_branch del: node_hash.simps)
  show "mds_get (mds_set sha node d) (node_hash sha node) = node
     \<or> mds_get d (node_hash sha node) \<noteq> EmptyNode \<and> mds_get (mds_set sha node d) (node_hash sha node) = mds_get d (node_hash sha node)"
    if "node \<noteq> EmptyNode"
    using that mds_leaf_some [of d "node_hash sha node"]
    by (cases node) (simp_all add: mds_get_set_leaf mds_get_set_branch del: node_hash.simps)
qed

interpretation mds: data_source sha mds_get "mds_set sha" for sha
  by unfold_locales (rule mds_get_set, assumption)+

interpretation rt: data_source sha "\<lambda>(memory, backing_get). rt_get backing_get memory" "\<lambda>node (memory, backing_get). (mds_set sha node memory, backing_get)" for sha
proof unfold_locales
  fix node :: TreeNode and d :: "MemoryDataSource \<times> (Hash256 \<Rightarrow> TreeNode)"
  assume "node \<noteq> EmptyNode"
  from mds_get_set(2) [OF this, of sha "fst d"] this
  show "(case (case d of (memory, backing_get) \<Rightarrow> (mds_set sha node memory, backing_get)) of
        (memory, backing_get) \<Rightarrow> rt_get backing_get memory) (node_hash sha node) = node
      \<or> (case d of (memory, backing_get) \<Rightarrow> rt_get backing_get memory) (node_hash sha node) \<noteq> EmptyNode
        \<and> (case (case d of (memory, backing_get) \<Rightarrow> (mds_set sha node memory, backing_get)) of
              (memory, backing_get) \<Rightarrow> rt_get backing_get memory) (node_hash sha node)
          = (case d of (memory, backing_get) \<Rightarrow> rt_get backing_get memory) (node_hash sha node)"
    by (cases d) (auto simp: rt_get_def)
qed (auto simp: rt_get_def mds_get_set(1) split: prod.splits)

interpretation new_reader: node_reader sha "mds_get new_MemoryDataSource" for sha
  by unfold_locales (simp add: mds_get_def new_MemoryDataSource_def)

text \<open>Nodes are stored under their hashes.\<close>

definition mds_addressed :: "(uint8 list \<Rightarrow> Hash256) \<Rightarrow> MemoryDataSource \<Rightarrow> bool" where
  "mds_addressed sha ds \<longleftrightarrow> list_all (\<lambda>(h, path, v). h = node_hash sha (LeafNode path v)) (m_leafNodes ds)
     \<and> list_all (\<lambda>(h, b). h = node_hash sha (BranchNode b)) (m_branchNodes ds)"

lemma new_addressed: "mds_addressed sha new_MemoryDataSource"
  by (simp add: mds_addressed_def new_MemoryDataSource_def)

lemma set_addressed: "mds_addressed sha ds \<Longrightarrow> mds_addressed sha (mds_set sha node ds)"
  by (cases node) (auto simp: mds_addressed_def mds_set_leaf_def mds_set_branch_def emplace_def)

lemma save_addressed: "mds_addressed sha ds \<Longrightarrow> mds_addressed sha (fold (mds_set sha) nodes ds)"
  by (induction nodes arbitrary: ds) (auto intro: set_addressed)

lemma addressed_get:
  assumes "mds_addressed sha ds"
  shows "mds_get ds h \<noteq> EmptyNode \<Longrightarrow> mds_get ds h \<in> set (mds_forEach ds) \<and> node_hash sha (mds_get ds h) = h"
    and "c \<in> set (mds_forEach ds) \<Longrightarrow> mds_get ds (node_hash sha c) \<noteq> EmptyNode"
proof -
  show "mds_get ds h \<in> set (mds_forEach ds) \<and> node_hash sha (mds_get ds h) = h" if "mds_get ds h \<noteq> EmptyNode"
  proof (cases "map_of (m_leafNodes ds) h")
    case (Some pv)
    obtain p v where [simp]: "pv = (p, v)" by (cases pv)
    from Some have "(h, p, v) \<in> set (m_leafNodes ds)" using map_of_SomeD by fastforce
    then show ?thesis using assms Some by (force simp: mds_addressed_def mds_get_def mds_forEach_def list_all_iff)
  next
    case None
    with that obtain b where b: "map_of (m_branchNodes ds) h = Some b" by (auto simp: mds_get_def split: option.splits)
    then have "(h, b) \<in> set (m_branchNodes ds)" using map_of_SomeD by fastforce
    then show ?thesis using assms None b by (force simp: mds_addressed_def mds_get_def mds_forEach_def list_all_iff)
  qed
  show "mds_get ds (node_hash sha c) \<noteq> EmptyNode" if c: "c \<in> set (mds_forEach ds)"
  proof -
    consider p v where "(node_hash sha c, p, v) \<in> set (m_leafNodes ds)" | b where "(node_hash sha c, b) \<in> set (m_branchNodes ds)"
      using assms c unfolding mds_addressed_def mds_forEach_def list_all_iff set_append set_map Un_iff image_iff by fast
    then show ?thesis
    proof cases
      case 1
      then have "map_of (m_leafNodes ds) (node_hash sha c) \<noteq> None" unfolding map_of_eq_None_iff by force
      then show ?thesis by (rule mds_leaf_some)
    next
      case 2
      then have "map_of (m_branchNodes ds) (node_hash sha c) \<noteq> None" unfolding map_of_eq_None_iff by force
      then show ?thesis by (auto simp: mds_get_def split: option.splits)
    qed
  qed
qed

lemma rt_idem: "rt_get (rt_get bk memory) memory = rt_get bk memory"
  by (auto simp: rt_get_def Let_def fun_eq_iff)

lemma rt_fold: "fold (\<lambda>node (memory, backing_get). (mds_set sha node memory, backing_get)) nodes (memory, bk) = (fold (mds_set sha) nodes memory, bk)"
  by (induction nodes arbitrary: memory) simp_all

text \<open>Saving a tree to the memory of a read through data source.\<close>

lemma rt_save_load:
  fixes memory bk a
  assumes "wf_node sha (rt_get bk memory) n a" "rt_get bk memory 0 = EmptyNode" "no_collision sha (rt_get bk memory) (saveAll_nodes sha a)"
  defines "memory' \<equiv> pt_saveAll sha a memory"
  shows "rt_get bk memory' (node_hash sha a) = compact_node sha a" "wf_node sha (rt_get bk memory') n (compact_node sha a)"
    "entries sha (rt_get bk memory') n (compact_node sha a) = entries sha (rt_get bk memory) n a" "rt_get bk memory' 0 = EmptyNode"
  using rt.save_load [of sha "(memory, bk)" n a] rt.put_zero [of sha "(memory, bk)" "saveAll_nodes sha a"] assms(1-3)
  by (simp_all add: rt_fold memory'_def pt_saveAll_def)

context data_source
begin

text \<open>After the pending nodes have been copied the base data source reads what the delta reads.\<close>

lemma copy_pending:
  assumes "mds_addressed sha (d_memory d)" "no_collision sha (get ds) (mds_forEach (d_memory d))"
  shows "get (bptd_copyPendingChangesTo put d ds) = bptd_get (get ds) d"
    "bptd_get (get (bptd_copyPendingChangesTo put d ds)) d = bptd_get (get ds) d"
proof -
  note put = put_nodes [OF assms(2)]
  show eq: "get (bptd_copyPendingChangesTo put d ds) = bptd_get (get ds) d"
  proof
    fix h
    show "get (bptd_copyPendingChangesTo put d ds) h = bptd_get (get ds) d h"
    proof (cases "mds_get (d_memory d) h = EmptyNode")
      case True
      then have "h \<notin> node_hash sha ` set (mds_forEach (d_memory d))" using addressed_get(2) [OF assms(1)] by auto
      then show ?thesis using put True by (simp add: bptd_copyPendingChangesTo_def bptd_get_def rt_get_def)
    next
      case False
      let ?c = "mds_get (d_memory d) h"
      have "get (fold put (mds_forEach (d_memory d)) ds) (node_hash sha ?c) = ?c" "node_hash sha ?c = h"
        using addressed_get(1) [OF assms(1) False] put by blast+
      then show ?thesis using False by (simp add: bptd_copyPendingChangesTo_def bptd_get_def rt_get_def)
    qed
  qed
  show "bptd_get (get (bptd_copyPendingChangesTo put d ds)) d = bptd_get (get ds) d"
    unfolding eq by (simp add: bptd_get_def rt_idem)
qed

lemma commit_ok:
  fixes t d
  defines "d1 \<equiv> bptd_setCheckpoint sha d"
  assumes "m_pWeakDelta t = Some d" "get (m_dataSource t) 0 = EmptyNode" "mds_get (d_memory d) 0 = EmptyNode" "mds_addressed sha (d_memory d)"
    "d_tree d = EmptyNode \<or> wf_node sha (bptd_get (get (m_dataSource t)) d) n (d_tree d)"
    "no_collision sha (bptd_get (get (m_dataSource t)) d) (saveAll_nodes sha (d_tree d))"
    "no_collision sha (get (m_dataSource t)) (mds_forEach (d_memory d1))"
  shows "\<exists>t' d'. bpt_commit sha get put t = Inr t' \<and> bpt_root sha t' = bptd_root sha d
    \<and> (m_tree t' = EmptyNode \<or> wf_node sha (get (m_dataSource t')) n (m_tree t'))
    \<and> entries sha (get (m_dataSource t')) n (m_tree t') = entries sha (bptd_get (get (m_dataSource t)) d) n (d_tree d)
    \<and> m_pWeakDelta t' = Some d' \<and> d_tree d' = m_tree t' \<and> m_baseRootHash d' = bptd_root sha d
    \<and> bptd_get (get (m_dataSource t')) d' = get (m_dataSource t')"
proof -
  let ?ds = "bptd_copyPendingChangesTo put d1 (m_dataSource t)"
  have addr: "mds_addressed sha (d_memory d1)"
    using save_addressed [OF assms(5)] by (simp add: d1_def bptd_setCheckpoint_def pt_saveAll_def)
  have d1: "d_tree d1 = d_tree d" "bptd_root sha d1 = bptd_root sha d" by (simp_all add: d1_def bptd_setCheckpoint_def bptd_root_def)
  note copy = copy_pending [OF addr assms(8)]
  show ?thesis
  proof (cases "d_tree d = EmptyNode")
    case True
    have "bptd_root sha d = 0" using True by (simp add: bptd_root_def)
    then show ?thesis using assms(2) True copy(1) d1
      by (simp add: bpt_commit_def Let_def bptd_copyRootTo_def bptd_reset_def bpt_root_def flip: d1_def) (simp add: bptd_get_def copy rt_idem)
  next
    case False
    then have wf: "wf_node sha (rt_get (get (m_dataSource t)) (d_memory d)) n (d_tree d)" using assms(6) by (simp add: bptd_get_def)
    have zero: "rt_get (get (m_dataSource t)) (d_memory d) 0 = EmptyNode" using assms(3,4) by (simp add: rt_get_def)
    note sl = rt_save_load [OF wf zero assms(7) [unfolded bptd_get_def]]
    have mem: "d_memory d1 = pt_saveAll sha (d_tree d) (d_memory d)" by (simp add: d1_def bptd_setCheckpoint_def)
    have nz: "bptd_root sha d \<noteq> 0"
      using assms(7) compact_saved [OF False, of sha] compact_hash [of sha "d_tree d"] unfolding no_collision_def bptd_root_def by metis
    have root: "bptd_get (get ?ds) d1 (bptd_root sha d) = compact_node sha (d_tree d)"
      using sl(1) unfolding copy(2) unfolding bptd_get_def mem bptd_root_def .
    have ne: "compact_node sha (d_tree d) \<noteq> EmptyNode" using False by (cases "d_tree d") auto
    let ?d = "d1\<lparr>d_tree := compact_node sha (d_tree d), m_baseRootHash := bptd_root sha d\<rparr>"
    let ?t = "t\<lparr>m_dataSource := ?ds, m_tree := compact_node sha (d_tree d), m_pWeakDelta := Some ?d\<rparr>"
    have "bptd_reset (get ?ds) (bptd_root sha d) d1 = Inr ?d"
      using nz root ne by (simp add: bptd_reset_def pt_tryLoad_def)
    then have "bpt_commit sha get put t = Inr ?t"
      using assms(2) nz root by (simp add: bpt_commit_def Let_def bptd_copyRootTo_def d1 flip: d1_def)
    moreover have "bptd_get (get ?ds) ?d = get ?ds" using copy by (simp add: bptd_get_def)
    moreover have "get ?ds = rt_get (get (m_dataSource t)) (pt_saveAll sha (d_tree d) (d_memory d))"
      unfolding copy(1) unfolding bptd_get_def mem ..
    ultimately show ?thesis using sl(2,3) by (simp add: bpt_root_def bptd_root_def bptd_get_def)
  qed
qed

end

subsection \<open>What the root hash identifies\<close>

definition leaf_input :: "path \<Rightarrow> Hash256 \<Rightarrow> uint8 list" where
  "leaf_input p v = encoded_key p True @ array_bytes 32 v"

definition branch_input :: "(uint8 list \<Rightarrow> Hash256) \<Rightarrow> TreeNode BranchTreeNode \<Rightarrow> uint8 list" where
  "branch_input sha b = encoded_key (b_path b) False @ concat (map (\<lambda>i. array_bytes 32 (link sha b i)) all_nibbles)"

lemma node_hash_inputs:
  "node_hash sha (LeafNode p v) = sha (leaf_input p v)" "node_hash sha (BranchNode b) = sha (branch_input sha b)"
  by (simp_all add: leaf_input_def CalculateLeafTreeNodeHash_def branch_input_def branch_node_hash del: node_hash.simps(3))

text \<open>The byte strings that were hashed for the nodes of a tree.\<close>

function hash_inputs :: "(uint8 list \<Rightarrow> Hash256) \<Rightarrow> (Hash256 \<Rightarrow> TreeNode) \<Rightarrow> nat \<Rightarrow> TreeNode \<Rightarrow> uint8 list set" where
  "hash_inputs sha get n EmptyNode = {}"
| "hash_inputs sha get n (LeafNode p v) = {leaf_input p v}"
| "hash_inputs sha get n (BranchNode b) = insert (branch_input sha b)
     (\<Union>i. if length (b_path b) < n then hash_inputs sha get (n - length (b_path b) - 1) (getLinkedNode sha get b i) else {})"
  by pat_completeness auto
termination
  by (relation "measure (\<lambda>(_, _, n, _). n)") auto

declare hash_inputs.simps(3) [simp del]

lemma concat_blocks_inj:
  assumes "\<And>x. length (f x) = k" "\<And>x. length (g x) = k" "concat (map f xs) = concat (map g xs)" "x \<in> set xs"
  shows "f x = g x"
  using assms(3,4)
proof (induction xs)
  case (Cons y ys)
  then have "f y = g y" "concat (map f ys) = concat (map g ys)" using assms(1,2) by (simp_all add: append_eq_append_conv)
  with Cons show ?case by auto
qed simp

lemma length_branch_links: "length (concat (map (\<lambda>i. array_bytes 32 (f i)) all_nibbles)) = 512"
  by (simp add: length_concat comp_def all_nibbles_def sum_list_triv)

lemma node_input_inj:
  "leaf_input p v = leaf_input q u \<Longrightarrow> p = q \<and> v = u"
  "branch_input sha b = branch_input sha' c \<Longrightarrow> b_path b = b_path c \<and> link sha b = link sha' c"
  "leaf_input p v \<noteq> branch_input sha b"
proof -
  show "p = q \<and> v = u" if "leaf_input p v = leaf_input q u"
    using that encoded_key_inj [of p True q True] array_bytes_inj [of 32 v u] by (auto simp: leaf_input_def append_eq_append_conv)
  show "b_path b = b_path c \<and> link sha b = link sha' c" if "branch_input sha b = branch_input sha' c"
  proof -
    from that have eq: "encoded_key (b_path b) False = encoded_key (b_path c) False"
        "concat (map (\<lambda>i. array_bytes 32 (link sha b i)) all_nibbles) = concat (map (\<lambda>i. array_bytes 32 (link sha' c i)) all_nibbles)"
      unfolding branch_input_def using append_eq_append_conv length_branch_links by metis+
    have "link sha b i = link sha' c i" for i
      using concat_blocks_inj [OF _ _ eq(2), of 32 i] set_all_nibbles(1) array_bytes_inj [of 32 "link sha b i" "link sha' c i"] by simp
    then show ?thesis using encoded_key_inj [OF eq(1)] by auto
  qed
  have "hd (leaf_input p v) = hd (encoded_key p True)" "hd (branch_input sha b) = hd (encoded_key (b_path b) False)"
    by (auto simp: leaf_input_def branch_input_def encoded_key_def Let_def)
  moreover have "bit (hd (encoded_key p l)) 5 = l" for p l using flag_bits by (auto simp: encoded_key_def Let_def)
  ultimately show "leaf_input p v \<noteq> branch_input sha b" by metis
qed

lemma hash_input_in: "wf_node sha get n a \<Longrightarrow> \<exists>x\<in>hash_inputs sha get n a. node_hash sha a = sha x"
  by (cases a) (auto simp: node_hash_inputs hash_inputs.simps(3) simp del: node_hash.simps)

lemma child_inputs: "length (b_path b) < n \<Longrightarrow> hash_inputs sha get (n - length (b_path b) - 1) (getLinkedNode sha get b i) \<subseteq> hash_inputs sha get n (BranchNode b)"
  by (auto simp: hash_inputs.simps(3))

text \<open>Where the hashed strings of two trees do not collide, equal hashes mean equal contents.\<close>

lemma hash_injective:
  assumes "a = EmptyNode \<or> wf_node sha get n a" "b = EmptyNode \<or> wf_node sha get' n b" "node_hash sha a = node_hash sha b"
    "inj_on sha (hash_inputs sha get n a \<union> hash_inputs sha get' n b)" "0 \<notin> sha ` (hash_inputs sha get n a \<union> hash_inputs sha get' n b)"
  shows "entries sha get n a = entries sha get' n b"
  using assms
proof (induction n arbitrary: a b rule: less_induct)
  case (less n)
  let ?I = "hash_inputs sha get n a \<union> hash_inputs sha get' n b"
  have nz: "node_hash sha c \<noteq> 0" if "wf_node sha g n c" "hash_inputs sha g n c \<subseteq> ?I" for g c
    using hash_input_in [OF that(1)] that(2) less.prems(5) by force
  show ?case
  proof (cases "a = EmptyNode \<or> b = EmptyNode")
    case True
    moreover have "a \<noteq> EmptyNode \<Longrightarrow> node_hash sha a \<noteq> 0" "b \<noteq> EmptyNode \<Longrightarrow> node_hash sha b \<noteq> 0"
      using less.prems(1,2) nz [of get a] nz [of get' b] by blast+
    ultimately have "a = EmptyNode" "b = EmptyNode" using less.prems(3) by force+
    then show ?thesis by simp
  next
    case False
    then have wf: "wf_node sha get n a" "wf_node sha get' n b" using less.prems by simp_all
    have inj: "x = y" if "sha x = sha y" "x \<in> ?I" "y \<in> ?I" for x y using inj_onD [OF less.prems(4)] that by blast
    consider (ll) p v q u where "a = LeafNode p v" "b = LeafNode q u" | (lb) p v d where "a = LeafNode p v" "b = BranchNode d"
      | (bl) p v d where "a = BranchNode d" "b = LeafNode p v" | (bb) c d where "a = BranchNode c" "b = BranchNode d"
      using False by (cases a; cases b) auto
    then show ?thesis
    proof cases
      case ll
      have "leaf_input p v = leaf_input q u"
        by (rule inj) (use ll less.prems(3) in \<open>simp_all add: node_hash_inputs hash_inputs.simps(3) del: node_hash.simps\<close>)
      then show ?thesis using ll node_input_inj(1) [of p v q u] by simp
    next
      case lb
      have "leaf_input p v = branch_input sha d"
        by (rule inj) (use lb less.prems(3) in \<open>simp_all add: node_hash_inputs hash_inputs.simps(3) del: node_hash.simps\<close>)
      then show ?thesis using node_input_inj(3) by blast
    next
      case bl
      have "branch_input sha d = leaf_input p v"
        by (rule inj) (use bl less.prems(3) in \<open>simp_all add: node_hash_inputs hash_inputs.simps(3) del: node_hash.simps\<close>)
      then show ?thesis using node_input_inj(3) by metis
    next
      case bb
      have "branch_input sha c = branch_input sha d"
        by (rule inj) (use bb less.prems(3) in \<open>simp_all add: node_hash_inputs hash_inputs.simps(3) del: node_hash.simps\<close>)
      then have p: "b_path c = b_path d" and l: "link sha c = link sha d" using node_input_inj(2) by blast+
      have w: "wf_node sha get n (BranchNode c)" "wf_node sha get' n (BranchNode d)" using wf bb by simp_all
      let ?m = "n - length (b_path c) - 1"
      have m: "length (b_path c) < n" "?m < n" using w by (simp_all add: wf_node.simps(3))
      have "entries sha get ?m (getLinkedNode sha get c i) = entries sha get' ?m (getLinkedNode sha get' d i)" for i
      proof (rule less.IH [OF m(2)])
        show "getLinkedNode sha get c i = EmptyNode \<or> wf_node sha get ?m (getLinkedNode sha get c i)"
          using wf_child(1,3) [OF w(1), of i] by blast
        show "getLinkedNode sha get' d i = EmptyNode \<or> wf_node sha get' ?m (getLinkedNode sha get' d i)"
          using wf_child(1,3) [OF w(2), of i] p by auto
        have sub: "hash_inputs sha get ?m (getLinkedNode sha get c i) \<union> hash_inputs sha get' ?m (getLinkedNode sha get' d i) \<subseteq> ?I"
          using child_inputs [OF m(1), of sha get i] child_inputs [of d n sha get' i] m(1) bb p by auto
        show "inj_on sha (hash_inputs sha get ?m (getLinkedNode sha get c i) \<union> hash_inputs sha get' ?m (getLinkedNode sha get' d i))"
            "0 \<notin> sha ` (hash_inputs sha get ?m (getLinkedNode sha get c i) \<union> hash_inputs sha get' ?m (getLinkedNode sha get' d i))"
          using inj_on_subset [OF less.prems(4) sub] less.prems(5) sub by auto
        have hash: "node_hash sha (getLinkedNode sha g e i) = link sha e i" if "wf_node sha g n (BranchNode e)" for g e
          using wf_child [OF that, of i] by (cases "b_linkSet e i") auto
        show "node_hash sha (getLinkedNode sha get c i) = node_hash sha (getLinkedNode sha get' d i)"
          using hash [OF w(1)] hash [OF w(2)] l by simp
      qed
      then show ?thesis using bb p by (simp add: entries.simps(3) fun_eq_iff)
    qed
  qed
qed

subsection \<open>The contents of a delta tree\<close>

definition tree_ok :: "(uint8 list \<Rightarrow> Hash256) \<Rightarrow> (Hash256 \<Rightarrow> TreeNode) \<Rightarrow> nat \<Rightarrow> BasePatriciaTreeDelta \<Rightarrow> bool" where
  "tree_ok sha bk n t \<longleftrightarrow> bk 0 = EmptyNode \<and> mds_get (d_memory t) 0 = EmptyNode \<and> mds_addressed sha (d_memory t)
     \<and> (d_tree t = EmptyNode \<or> wf_node sha (bptd_get bk t) n (d_tree t))"

definition contents :: "(uint8 list \<Rightarrow> Hash256) \<Rightarrow> (Hash256 \<Rightarrow> TreeNode) \<Rightarrow> nat \<Rightarrow> BasePatriciaTreeDelta \<Rightarrow> path \<rightharpoonup> Hash256" where
  "contents sha bk n t = entries sha (bptd_get bk t) n (d_tree t)"

lemma tree_ok_reader: "tree_ok sha bk n t \<Longrightarrow> node_reader (bptd_get bk t)"
  by unfold_locales (simp add: tree_ok_def bptd_get_def rt_get_def)

lemma bptd_get_update [simp]: "bptd_get bk (t\<lparr>d_tree := r\<rparr>) = bptd_get bk t"
  by (simp add: bptd_get_def)

text \<open>Setting, removing and looking up a key are the operations of a map.\<close>

lemma pt_unset_ok:
  assumes "node_reader get" "r = EmptyNode \<or> wf_node sha get n r" "tnp_size (EncodePath k) = n"
  shows "\<exists>r'. pt_unset sha EncodePath get k r = Inr (entries sha get n r (nibbles (EncodePath k)) \<noteq> None, r')
    \<and> (r' = EmptyNode \<or> wf_node sha get n r') \<and> entries sha get n r' = (entries sha get n r)(nibbles (EncodePath k) := None)"
proof -
  let ?p = "nibbles (EncodePath k)"
  have "length ?p = n" using assms(3) by simp
  note un = node_reader.unset_node_ok [OF assms(1,2) this]
  show ?thesis
  proof (cases "entries sha get n r ?p")
    case None
    then show ?thesis using un assms(2) by (auto simp: pt_unset_def fun_eq_iff)
  next
    case (Some v)
    then have "entries sha get n r ?p \<noteq> None" by simp
    with un consider u where "r = LeafNode ?p u" "unset_node sha get r ?p True = Inr (Some (EmptyNode, True))"
      | r' where "unset_node sha get r ?p True = Inr (Some (r', False))" "wf_node sha get n r'"
          "entries sha get n r' = (entries sha get n r)(?p := None)" by blast
    then show ?thesis using Some by cases (auto simp: pt_unset_def fun_eq_iff)
  qed
qed

lemma bptd_set_ok:
  assumes "tree_ok sha bk n t" "tnp_size (EncodePath k) = n"
  shows "\<exists>t'. bptd_set sha EncodePath EncodeValue bk k v t = Inr t' \<and> tree_ok sha bk n t' \<and> d_memory t' = d_memory t
    \<and> contents sha bk n t' = (contents sha bk n t)(nibbles (EncodePath k) \<mapsto> EncodeValue v)"
proof -
  have len: "length (nibbles (EncodePath k)) = n" using assms(2) by simp
  have r: "d_tree t = EmptyNode \<or> wf_node sha (bptd_get bk t) n (d_tree t)" using assms(1) by (simp add: tree_ok_def)
  obtain r where "set_node sha (bptd_get bk t) (d_tree t) (nibbles (EncodePath k)) (EncodeValue v) = Inr r"
      "wf_node sha (bptd_get bk t) n r"
      "entries sha (bptd_get bk t) n r = (entries sha (bptd_get bk t) n (d_tree t))(nibbles (EncodePath k) \<mapsto> EncodeValue v)"
    using node_reader.set_node_ok [OF tree_ok_reader [OF assms(1)] r len] by blast
  then show ?thesis using assms(1)
    by (intro exI [of _ "t\<lparr>d_tree := r\<rparr>"]) (simp add: bptd_set_def pt_set_def tree_ok_def contents_def)
qed

lemma bptd_unset_ok:
  assumes "tree_ok sha bk n t" "tnp_size (EncodePath k) = n"
  shows "\<exists>t'. bptd_unset sha EncodePath bk k t = Inr (contents sha bk n t (nibbles (EncodePath k)) \<noteq> None, t') \<and> tree_ok sha bk n t'
    \<and> d_memory t' = d_memory t \<and> contents sha bk n t' = (contents sha bk n t)(nibbles (EncodePath k) := None)"
proof -
  have r: "d_tree t = EmptyNode \<or> wf_node sha (bptd_get bk t) n (d_tree t)" using assms(1) by (simp add: tree_ok_def)
  obtain r where "pt_unset sha EncodePath (bptd_get bk t) k (d_tree t)
        = Inr (entries sha (bptd_get bk t) n (d_tree t) (nibbles (EncodePath k)) \<noteq> None, r)"
      "r = EmptyNode \<or> wf_node sha (bptd_get bk t) n r"
      "entries sha (bptd_get bk t) n r = (entries sha (bptd_get bk t) n (d_tree t))(nibbles (EncodePath k) := None)"
    using pt_unset_ok [where EncodePath = EncodePath and k = k, OF tree_ok_reader [OF assms(1)] r assms(2)] by blast
  then show ?thesis using assms(1)
    by (intro exI [of _ "t\<lparr>d_tree := r\<rparr>"]) (simp add: bptd_unset_def tree_ok_def contents_def)
qed

text \<open>A checkpoint keeps the tree.\<close>

lemma bptd_setCheckpoint_ok:
  assumes "tree_ok sha bk n t" "no_collision sha (bptd_get bk t) (saveAll_nodes sha (d_tree t))"
  shows "tree_ok sha bk n (bptd_setCheckpoint sha t)" "contents sha bk n (bptd_setCheckpoint sha t) = contents sha bk n t"
proof -
  let ?m = "pt_saveAll sha (d_tree t) (d_memory t)"
  have zero: "rt_get bk (d_memory t) 0 = EmptyNode" using assms(1) by (simp add: tree_ok_def rt_get_def)
  note put = rt.put_nodes [of sha "(d_memory t, bk)" "saveAll_nodes sha (d_tree t)"] rt.put_zero [of sha "(d_memory t, bk)" "saveAll_nodes sha (d_tree t)"]
  have more: "rt_get bk ?m h = rt_get bk (d_memory t) h" if "rt_get bk (d_memory t) h \<noteq> EmptyNode" for h
    using put(1) assms(2) that by (simp add: rt_fold pt_saveAll_def bptd_get_def)
  have zero': "rt_get bk ?m 0 = EmptyNode" using put(2) assms(2) zero by (simp add: rt_fold pt_saveAll_def bptd_get_def)
  then have "mds_get ?m 0 = EmptyNode" by (simp add: rt_get_def Let_def split: if_splits)
  moreover have "mds_addressed sha ?m" using assms(1) by (simp add: tree_ok_def pt_saveAll_def save_addressed)
  moreover have "(d_tree t = EmptyNode \<or> wf_node sha (rt_get bk ?m) n (d_tree t))
      \<and> entries sha (rt_get bk ?m) n (d_tree t) = entries sha (rt_get bk (d_memory t)) n (d_tree t)"
    using assms(1) more_nodes [where get = "rt_get bk (d_memory t)" and get' = "rt_get bk ?m", OF _ more zero', of "d_tree t" sha n]
    by (simp add: tree_ok_def bptd_get_def)
  ultimately show "tree_ok sha bk n (bptd_setCheckpoint sha t)" "contents sha bk n (bptd_setCheckpoint sha t) = contents sha bk n t"
    using assms(1) by (simp_all add: tree_ok_def contents_def bptd_setCheckpoint_def bptd_get_def)
qed

lemma tree_ok_new: "bk 0 = EmptyNode \<Longrightarrow> tree_ok sha bk n (bptd_new bk 0)"
  by (simp add: tree_ok_def bptd_new_def new_addressed pt_tryLoad_def rt_get_def) (simp add: new_MemoryDataSource_def mds_get_def)

subsection \<open>Properties\<close>

text \<open>
  C16. Setting, removing and looking up a key in a well-formed tree, whatever part of it is in memory, never
  fails and is the operation of a finite map from paths to values. The removal reports whether the key was there.
\<close>

theorem patricia_tree_refines_map:
  assumes "get 0 = EmptyNode" "rootNode = EmptyNode \<or> wf_node Sha3_256 get n rootNode" "tnp_size (EncodePath key) = n"
  defines "m \<equiv> entries Sha3_256 get n rootNode" and "p \<equiv> nibbles (EncodePath key)"
  shows "(\<exists>t. pt_set Sha3_256 EncodePath EncodeValue get key v rootNode = Inr t \<and> wf_node Sha3_256 get n t
      \<and> entries Sha3_256 get n t = m(p \<mapsto> EncodeValue v))
    \<and> (\<exists>t. pt_unset Sha3_256 EncodePath get key rootNode = Inr (m p \<noteq> None, t) \<and> (t = EmptyNode \<or> wf_node Sha3_256 get n t)
      \<and> entries Sha3_256 get n t = m(p := None))
    \<and> (\<exists>ns. pt_lookup Sha3_256 EncodePath get key [] rootNode = Inr (found (m p), ns))"
proof -
  have reader: "node_reader get" by unfold_locales (rule assms(1))
  have len: "length (nibbles (EncodePath key)) = n" using assms(3) by simp
  show ?thesis
    using node_reader.set_node_ok [OF reader assms(2) len, of "EncodeValue v"] pt_unset_ok [where EncodePath = EncodePath and k = key, OF reader assms(2,3)]
      node_reader.lookup_node_ok [OF reader assms(2) len, of "[]"]
    unfolding m_def p_def pt_set_def pt_lookup_def by (intro conjI)
qed

theorem patricia_tree_refines_map_witness:
  "\<exists>t. pt_set (\<lambda>_. 1) tnp_of_bytes id (mds_get new_MemoryDataSource) [0x34] 5 (LeafNode [1, 2] 7) = Inr t
    \<and> entries (\<lambda>_. 1) (mds_get new_MemoryDataSource) 2 t = [[1, 2] \<mapsto> 7, [3, 4] \<mapsto> 5]"
proof -
  have path: "nibbles (tnp_of_bytes [0x34]) = [3, 4]" by (simp add: nibbles_def tnp_of_bytes_def nib_def upt_rec)
  have "mds_get new_MemoryDataSource 0 = EmptyNode" "tnp_size (tnp_of_bytes [0x34]) = 2"
      "LeafNode [1, 2] 7 = EmptyNode \<or> wf_node (\<lambda>_. 1) (mds_get new_MemoryDataSource) 2 (LeafNode [1, 2] 7)"
    by (simp_all add: mds_get_def new_MemoryDataSource_def tnp_of_bytes_def tnp_size_def)
  from patricia_tree_refines_map [where EncodePath = tnp_of_bytes and EncodeValue = id and v = 5, OF this(1,3,2)]
  show ?thesis unfolding path by auto
qed

text \<open>
  C9. The root hash identifies the tree. Two well-formed trees over keys of one length, each over its own data
  source and built in any order, have the same root hash if and only if they have the same contents, provided
  that the digest has no collision and no zero on the byte strings that were hashed for the two trees.
\<close>

theorem root_hash_identifies_contents:
  assumes "a = EmptyNode \<or> wf_node Sha3_256 get n a" "b = EmptyNode \<or> wf_node Sha3_256 get' n b"
    and "inj_on Sha3_256 (hash_inputs Sha3_256 get n a \<union> hash_inputs Sha3_256 get' n b)"
    and "0 \<notin> Sha3_256 ` (hash_inputs Sha3_256 get n a \<union> hash_inputs Sha3_256 get' n b)"
  shows "node_hash Sha3_256 a = node_hash Sha3_256 b \<longleftrightarrow> entries Sha3_256 get n a = entries Sha3_256 get' n b"
  using hash_canonical [OF assms(1,2)] hash_injective [OF assms(1,2) _ assms(3,4)] by blast

theorem root_hash_identifies_contents_witness:
  "node_hash (\<lambda>bs. ucast (hd bs)) (LeafNode [1] 5) \<noteq> node_hash (\<lambda>bs. ucast (hd bs)) (LeafNode [2] 5)"
proof -
  let ?sha = "\<lambda>bs :: uint8 list. ucast (hd bs) :: Hash256" and ?get = "mds_get new_MemoryDataSource"
  have hd: "hd (leaf_input [1] 5) = 0x31" "hd (leaf_input [2] 5) = 0x32"
    by (simp_all add: leaf_input_def encoded_key_def)
  then have sha: "?sha (leaf_input [1] 5) = 0x31" "?sha (leaf_input [2] 5) = 0x32" by simp_all
  then have inj: "inj_on ?sha (hash_inputs ?sha ?get 1 (LeafNode [1] 5) \<union> hash_inputs ?sha ?get 1 (LeafNode [2] 5))"
      "0 \<notin> ?sha ` (hash_inputs ?sha ?get 1 (LeafNode [1] 5) \<union> hash_inputs ?sha ?get 1 (LeafNode [2] 5))"
    by (simp_all add: inj_on_def)
  have "entries ?sha ?get 1 (LeafNode [1] 5) [1] \<noteq> entries ?sha ?get 1 (LeafNode [2] 5) [1]" by simp
  then have ne: "entries ?sha ?get 1 (LeafNode [1] 5) \<noteq> entries ?sha ?get 1 (LeafNode [2] 5)" by metis
  have "LeafNode [1] 5 = EmptyNode \<or> wf_node ?sha ?get 1 (LeafNode [1] 5)" "LeafNode [2] 5 = EmptyNode \<or> wf_node ?sha ?get 1 (LeafNode [2] 5)"
    by simp_all
  from root_hash_identifies_contents [OF this inj] ne show ?thesis by blast
qed

text \<open>
  C17. A commit publishes the delta. The nodes of the delta are saved, copied to the data source of the base
  and reloaded from the root hash; if no two different nodes among them and the stored ones have the same hash,
  the commit succeeds, the base tree has the root and the contents of the delta, and the delta goes on from it.
\<close>

theorem commit_publishes_delta:
  assumes "m_pWeakDelta t = Some d" "tree_ok Sha3_256 (mds_get (m_dataSource t)) n d"
    and "no_collision Sha3_256 (bptd_get (mds_get (m_dataSource t)) d) (saveAll_nodes Sha3_256 (d_tree d))"
    and "no_collision Sha3_256 (mds_get (m_dataSource t)) (mds_forEach (d_memory (bptd_setCheckpoint Sha3_256 d)))"
  shows "\<exists>t' d'. bpt_commit Sha3_256 mds_get (mds_set Sha3_256) t = Inr t' \<and> bpt_root Sha3_256 t' = bptd_root Sha3_256 d
    \<and> (m_tree t' = EmptyNode \<or> wf_node Sha3_256 (mds_get (m_dataSource t')) n (m_tree t'))
    \<and> entries Sha3_256 (mds_get (m_dataSource t')) n (m_tree t') = contents Sha3_256 (mds_get (m_dataSource t)) n d
    \<and> m_pWeakDelta t' = Some d' \<and> bptd_root Sha3_256 d' = bptd_root Sha3_256 d \<and> m_baseRootHash d' = bptd_root Sha3_256 d"
proof -
  have d: "mds_get (m_dataSource t) 0 = EmptyNode" "mds_get (d_memory d) 0 = EmptyNode" "mds_addressed Sha3_256 (d_memory d)"
      "d_tree d = EmptyNode \<or> wf_node Sha3_256 (bptd_get (mds_get (m_dataSource t)) d) n (d_tree d)"
    using assms(2) by (simp_all add: tree_ok_def)
  show ?thesis
    using mds.commit_ok [OF assms(1) d assms(3,4)] unfolding contents_def bpt_root_def bptd_root_def by fastforce
qed

theorem commit_publishes_delta_witness:
  "\<exists>t'. bpt_commit (\<lambda>_. 1) mds_get (mds_set (\<lambda>_. 1))
      ((bpt_new new_MemoryDataSource)\<lparr>m_pWeakDelta := Some \<lparr>d_memory = new_MemoryDataSource, m_baseRootHash = 0, d_tree = LeafNode [1, 2] 7\<rparr>\<rparr>)
        = Inr t' \<and> bpt_root (\<lambda>_. 1) t' = 1"
proof -
  let ?d = "\<lparr>d_memory = new_MemoryDataSource, m_baseRootHash = 0, d_tree = LeafNode [1, 2] 7\<rparr>"
  let ?t = "(bpt_new new_MemoryDataSource)\<lparr>m_pWeakDelta := Some ?d\<rparr>"
  have empty: "mds_get new_MemoryDataSource h = EmptyNode" for h by (simp add: mds_get_def new_MemoryDataSource_def)
  have t: "m_pWeakDelta ?t = Some ?d" "m_dataSource ?t = new_MemoryDataSource" by (simp_all add: bpt_new_def)
  have "tree_ok (\<lambda>_. 1) (mds_get (m_dataSource ?t)) 2 ?d" unfolding t by (simp add: tree_ok_def empty new_addressed)
  moreover have "no_collision (\<lambda>_. 1) (bptd_get (mds_get (m_dataSource ?t)) ?d) (saveAll_nodes (\<lambda>_. 1) (d_tree ?d))"
    unfolding t by (simp add: no_collision_def bptd_get_def rt_get_def empty CalculateLeafTreeNodeHash_def)
  moreover have "no_collision (\<lambda>_. 1) (mds_get (m_dataSource ?t)) (mds_forEach (d_memory (bptd_setCheckpoint (\<lambda>_. 1) ?d)))"
    unfolding t
    by (simp add: bptd_setCheckpoint_def pt_saveAll_def mds_set_leaf_def mds_forEach_def emplace_def no_collision_def empty CalculateLeafTreeNodeHash_def)
       (simp add: new_MemoryDataSource_def)
  moreover have "bptd_root (\<lambda>_. 1) ?d = 1" by (simp add: bptd_root_def CalculateLeafTreeNodeHash_def)
  ultimately show ?thesis using commit_publishes_delta [OF t(1)] by metis
qed

end
