(* ===== verification/MerkleRoot.thy ===== *)
theory MerkleRoot
  imports DeltaSet TreeStore
begin

section \<open>The merkle root of a cache (catapult/cache)\<close>

text \<open>
  A cache delta keeps a patricia tree beside its delta set. When the state hash of a block is needed, only
  the elements whose generation id is recent enough are applied to the tree. This theory joins the delta
  sets and the trees: after every update the tree holds, for each element of the set, what was right at the
  height of the last update that followed a change or a look up of the element. An element whose activity
  depends on the height (a lock or a namespace that expires) leaves the tree only when it is touched.

  The set and the tree are shared by reference; they are passed and returned. A tree pointer that is null is
  \<open>None\<close>. The keys are hashed (\<open>SerializerHashedKeyEncoder\<close>) with the serializer as an argument.
\<close>

subsection \<open>Definitions\<close>

text \<open>
  \<open>isActive\<close> is the member function of the element type, if it has one, and \<open>Is_Deactivation_Destructive\<close> its
  constant.
\<close>

definition IsActive :: "('v \<Rightarrow> Height \<Rightarrow> bool) option \<Rightarrow> bool \<Rightarrow> 'v \<Rightarrow> Height \<Rightarrow> bool" where
  "IsActive isActive Is_Deactivation_Destructive v height =
     (case isActive of None \<Rightarrow> True | Some f \<Rightarrow> \<not> Is_Deactivation_Destructive \<or> f v height)"

definition needsApplication :: "('k, 'v) BaseSetDelta \<Rightarrow> uint32 \<Rightarrow> 'k \<Rightarrow> bool" where
  "needsApplication elems minGenerationId key =
     (let generationId = bsd_keyGenerationId elems key; maxGenerationId = BaseSetDelta.generationId elems
      in minGenerationId \<le> generationId \<and> generationId \<le> maxGenerationId)"

definition handleModification ::
  "('k \<Rightarrow> 'v \<Rightarrow> 't \<Rightarrow> exn + 't) \<Rightarrow> ('k \<Rightarrow> 't \<Rightarrow> exn + bool \<times> 't) \<Rightarrow> ('v \<Rightarrow> bool) \<Rightarrow> 'k \<times> 'v \<Rightarrow> 't \<Rightarrow> exn + 't" where
  "handleModification tree_set tree_unset active kv tree =
     (if active (snd kv) then tree_set (fst kv) (snd kv) tree else rbind (tree_unset (fst kv) tree) (\<lambda>(_, tree). Inr tree))"

definition ApplyDeltasToTree ::
  "('k \<Rightarrow> 'v \<Rightarrow> 't \<Rightarrow> exn + 't) \<Rightarrow> ('k \<Rightarrow> 't \<Rightarrow> exn + bool \<times> 't) \<Rightarrow> ('v \<Rightarrow> bool)
    \<Rightarrow> ('k, 'v) BaseSetDelta \<Rightarrow> uint32 \<Rightarrow> 't \<Rightarrow> exn + 't" where
  "ApplyDeltasToTree tree_set tree_unset active elems minGenerationId tree =
     (let deltas = bsd_deltas elems; needed = (\<lambda>kv. needsApplication elems minGenerationId (fst kv))
      in rbind (rfold (handleModification tree_set tree_unset active) (filter needed (Added deltas)) tree) (\<lambda>tree.
         rbind (rfold (handleModification tree_set tree_unset active) (filter needed (Copied deltas)) tree) (\<lambda>tree.
         rfold (\<lambda>kv tree. rbind (tree_unset (fst kv) tree) (\<lambda>(_, tree). Inr tree)) (filter needed (Removed deltas)) tree)))"

record PatriciaTreeDeltaMixin =
  m_pTree :: "BasePatriciaTreeDelta option"
  m_nextGenerationId :: uint32

definition new_PatriciaTreeDeltaMixin :: "('k, 'v) BaseSetDelta \<Rightarrow> BasePatriciaTreeDelta option \<Rightarrow> PatriciaTreeDeltaMixin" where
  "new_PatriciaTreeDeltaMixin elems pTree = \<lparr>m_pTree = pTree, m_nextGenerationId = BaseSetDelta.generationId elems\<rparr>"

definition supportsMerkleRoot :: "PatriciaTreeDeltaMixin \<Rightarrow> bool" where
  "supportsMerkleRoot mixin \<longleftrightarrow> m_pTree mixin \<noteq> None"

definition tryGetMerkleRoot :: "(uint8 list \<Rightarrow> Hash256) \<Rightarrow> PatriciaTreeDeltaMixin \<Rightarrow> Hash256 \<times> bool" where
  "tryGetMerkleRoot Sha3_256 mixin = (case m_pTree mixin of Some t \<Rightarrow> (bptd_root Sha3_256 t, True) | None \<Rightarrow> (0, False))"

definition setApplyCheckpoint ::
  "(uint8 list \<Rightarrow> Hash256) \<Rightarrow> ('k, 'v) BaseSetDelta \<Rightarrow> BasePatriciaTreeDelta \<Rightarrow> PatriciaTreeDeltaMixin
    \<Rightarrow> ('k, 'v) BaseSetDelta \<times> PatriciaTreeDeltaMixin" where
  "setApplyCheckpoint Sha3_256 elems tree mixin =
     (let elems = bsd_incrementGenerationId elems
      in (elems, mixin\<lparr>m_nextGenerationId := BaseSetDelta.generationId elems, m_pTree := Some (bptd_setCheckpoint Sha3_256 tree)\<rparr>))"

definition updateMerkleRoot ::
  "(uint8 list \<Rightarrow> Hash256) \<Rightarrow> ('k \<Rightarrow> uint8 list) \<Rightarrow> ('v \<Rightarrow> uint8 list) \<Rightarrow> ('v \<Rightarrow> Height \<Rightarrow> bool) option \<Rightarrow> bool
    \<Rightarrow> (Hash256 \<Rightarrow> TreeNode) \<Rightarrow> Height \<Rightarrow> ('k, 'v) BaseSetDelta \<times> PatriciaTreeDeltaMixin
    \<Rightarrow> exn + ('k, 'v) BaseSetDelta \<times> PatriciaTreeDeltaMixin" where
  "updateMerkleRoot Sha3_256 SerializeKey SerializeValue isActive destructive backing_get height s =
     (case m_pTree (snd s) of
        None \<Rightarrow> Inr s
      | Some pTree \<Rightarrow>
          rbind (ApplyDeltasToTree
              (bptd_set Sha3_256 (hashed_EncodeKey Sha3_256 SerializeKey) (plain_EncodeValue Sha3_256 SerializeValue) backing_get)
              (bptd_unset Sha3_256 (hashed_EncodeKey Sha3_256 SerializeKey) backing_get)
              (\<lambda>v. IsActive isActive destructive v height) (fst s) (m_nextGenerationId (snd s)) pTree)
            (\<lambda>pTree. Inr (setApplyCheckpoint Sha3_256 (fst s) pTree (snd s))))"

definition setMerkleRoot ::
  "(uint8 list \<Rightarrow> Hash256) \<Rightarrow> (Hash256 \<Rightarrow> TreeNode) \<Rightarrow> Hash256 \<Rightarrow> ('k, 'v) BaseSetDelta \<times> PatriciaTreeDeltaMixin
    \<Rightarrow> exn + ('k, 'v) BaseSetDelta \<times> PatriciaTreeDeltaMixin" where
  "setMerkleRoot Sha3_256 backing_get merkleRoot s =
     (case m_pTree (snd s) of
        None \<Rightarrow> Inl Runtime_Error
      | Some pTree \<Rightarrow>
          rbind (bptd_reset backing_get merkleRoot pTree) (\<lambda>pTree. Inr (setApplyCheckpoint Sha3_256 (fst s) pTree (snd s))))"

subsection \<open>A tree as a map\<close>

text \<open>
  What the application of deltas relies on: a tree whose contents are a map from paths to values, with total
  operations.
\<close>

locale state_tree =
  fixes ok :: "'t \<Rightarrow> bool" and cont :: "'t \<Rightarrow> 'p \<Rightarrow> Hash256 option" and pth :: "'k::linorder \<Rightarrow> 'p" and val :: "'v \<Rightarrow> Hash256"
    and tree_set :: "'k \<Rightarrow> 'v \<Rightarrow> 't \<Rightarrow> exn + 't" and tree_unset :: "'k \<Rightarrow> 't \<Rightarrow> exn + bool \<times> 't" and same :: "'t \<Rightarrow> 't \<Rightarrow> bool"
  assumes set_law: "ok t \<Longrightarrow> \<exists>t'. tree_set k v t = Inr t' \<and> ok t' \<and> same t t' \<and> cont t' = (cont t)(pth k \<mapsto> val v)"
    and unset_law: "ok t \<Longrightarrow> \<exists>r t'. tree_unset k t = Inr (r, t') \<and> ok t' \<and> same t t' \<and> cont t' = (cont t)(pth k := None)"
    and same_refl: "same t t" and same_trans: "same t t' \<Longrightarrow> same t' t'' \<Longrightarrow> same t t''"
begin

text \<open>What is written for an element.\<close>

lemma handleModification_ok:
  "ok t \<Longrightarrow> \<exists>t'. handleModification tree_set tree_unset active kv t = Inr t' \<and> ok t' \<and> same t t'
     \<and> cont t' = (cont t)(pth (fst kv) := (if active (snd kv) then Some (val (snd kv)) else None))"
  using set_law [of t "fst kv" "snd kv"] unset_law [of t "fst kv"] by (auto simp: handleModification_def)

lemma unset_ok:
  "ok t \<Longrightarrow> \<exists>t'. rbind (tree_unset k t) (\<lambda>(_, t). Inr t) = Inr t' \<and> ok t' \<and> same t t' \<and> cont t' = (cont t)(pth k := None)"
  using unset_law [of t k] by auto

lemma loop_ok:
  assumes "\<And>kv t. ok t \<Longrightarrow> \<exists>t'. f kv t = Inr t' \<and> ok t' \<and> same t t' \<and> cont t' = (cont t)(pth (fst kv) := g (snd kv))"
    and "inj pth" "distinct (map fst kvs)" "ok t"
  shows "\<exists>t'. rfold f kvs t = Inr t' \<and> ok t' \<and> same t t'
    \<and> (\<forall>k. cont t' (pth k) = (case map_of kvs k of None \<Rightarrow> cont t (pth k) | Some v \<Rightarrow> g v))
    \<and> (\<forall>p. p \<notin> range pth \<longrightarrow> cont t' p = cont t p)"
  using assms(3,4)
proof (induction kvs arbitrary: t)
  case (Cons kv kvs)
  obtain t1 where t1: "f kv t = Inr t1" "ok t1" "same t t1" "cont t1 = (cont t)(pth (fst kv) := g (snd kv))"
    using assms(1) [OF Cons.prems(2)] by blast
  obtain t' where t': "rfold f kvs t1 = Inr t'" "ok t'" "same t1 t'"
      "\<And>k. cont t' (pth k) = (case map_of kvs k of None \<Rightarrow> cont t1 (pth k) | Some v \<Rightarrow> g v)"
      "\<And>p. p \<notin> range pth \<Longrightarrow> cont t' p = cont t1 p"
    using Cons.IH [OF _ t1(2)] Cons.prems(1) by auto
  have "map_of kvs (fst kv) = None" using Cons.prems(1) by (simp add: map_of_eq_None_iff)
  moreover have "pth k = pth k' \<longleftrightarrow> k = k'" for k k' using assms(2) by (simp add: inj_eq)
  ultimately have "cont t' (pth k) = (case map_of (kv # kvs) k of None \<Rightarrow> cont t (pth k) | Some v \<Rightarrow> g v)" for k
    unfolding t'(4) t1(4) by (cases kv) (auto split: option.splits)
  moreover have "cont t' p = cont t p" if "p \<notin> range pth" for p using t'(5) [OF that] that unfolding t1(4) by auto
  ultimately show ?case using t1(1) t'(1,2) same_trans [OF t1(3) t'(3)] by auto
qed (auto simp: same_refl)

end

subsection \<open>The keys a delta set has marked\<close>

lemma smap_find_filter_key: "smap_find (filter (\<lambda>kv. P (fst kv)) kvs) k = (if P k then smap_find kvs k else None)"
  unfolding smap_find_def by (induction kvs) auto

text \<open>A marked key of a set of mutable elements is among the pending modifications.\<close>

definition bsd_marked_inv :: "('k::linorder, 'v) BaseSetDelta \<Rightarrow> bool" where
  "bsd_marked_inv d \<longleftrightarrow> (\<forall>k. smap_find (keyGenerationIdMap d) k \<noteq> None
     \<longrightarrow> smap_find (addedElements d) k \<noteq> None \<or> smap_find (copiedElements d) k \<noteq> None \<or> smap_find (removedElements d) k \<noteq> None)"

lemma run_op_marked_inv:
  assumes "bsd_inv MutableTypeTag d" "bsd_marked_inv d"
  shows "bsd_marked_inv (run_op op d)"
  unfolding bsd_marked_inv_def
proof (intro allI)
  fix k
  have "smap_find (keyGenerationIdMap d) k \<noteq> None
     \<longrightarrow> smap_find (addedElements d) k \<noteq> None \<or> smap_find (copiedElements d) k \<noteq> None \<or> smap_find (removedElements d) k \<noteq> None"
    using assms(2) unfolding bsd_marked_inv_def by blast
  then show "smap_find (keyGenerationIdMap (run_op op d)) k \<noteq> None
     \<longrightarrow> smap_find (addedElements (run_op op d)) k \<noteq> None \<or> smap_find (copiedElements (run_op op d)) k \<noteq> None
       \<or> smap_find (removedElements (run_op op d)) k \<noteq> None"
    using bsd_inv_keyD [OF assms(1), of k]
    by (cases op) (auto simp: bsd_op_defs bsd_incrementGenerationId_def bsd_key_inv_def smap_contains_def Let_def split: option.splits if_splits)
qed

subsection \<open>Applying the deltas\<close>

text \<open>What the tree holds for an element of the set, or its absence.\<close>

definition state_value :: "('v \<Rightarrow> bool) \<Rightarrow> ('v \<Rightarrow> Hash256) \<Rightarrow> 'v option \<Rightarrow> Hash256 option" where
  "state_value active val e = (case e of None \<Rightarrow> None | Some v \<Rightarrow> if active v then Some (val v) else None)"

lemma pending_value:
  assumes "bsd_inv MutableTypeTag d"
    "smap_find (addedElements d) k \<noteq> None \<or> smap_find (copiedElements d) k \<noteq> None \<or> smap_find (removedElements d) k \<noteq> None"
  shows "(case smap_find (removedElements d) k of
      None \<Rightarrow> (case smap_find (copiedElements d) k of
         None \<Rightarrow> (case smap_find (addedElements d) k of None \<Rightarrow> x | Some v \<Rightarrow> if active v then Some (val v) else None)
       | Some v \<Rightarrow> if active v then Some (val v) else None)
    | Some v \<Rightarrow> None) = state_value active val (bsd_view d k)"
  using assms(2) bsd_inv_keyD [OF assms(1), of k] unfolding bsd_view_def state_value_def bsd_key_inv_def
  by (cases "smap_find (removedElements d) k"; cases "smap_find (copiedElements d) k"; cases "smap_find (addedElements d) k") auto

context state_tree
begin

lemma ApplyDeltasToTree_ok:
  assumes "inj pth" "ok t" "bsd_inv MutableTypeTag d" "bsd_marked_inv d" "g \<noteq> 0"
  shows "\<exists>t'. ApplyDeltasToTree tree_set tree_unset active d g t = Inr t' \<and> ok t' \<and> same t t'
    \<and> (\<forall>k. cont t' (pth k) = (if needsApplication d g k then state_value active val (bsd_view d k) else cont t (pth k))) \<and> (\<forall>p. p \<notin> range pth \<longrightarrow> cont t' p = cont t p)"
proof -
  let ?f = "\<lambda>kvs. filter (\<lambda>kv. needsApplication d g (fst kv)) kvs" and ?g = "\<lambda>v. if active v then Some (val v) else None"
  have dist: "distinct (map fst (?f kvs))" if "smap_inv kvs" for kvs
    using smap_inv_distinct [OF that] by (rule distinct_map_filter)
  note invs = bsd_inv_smap_inv [OF assms(3)]
  obtain t1 where t1: "rfold (handleModification tree_set tree_unset active) (?f (addedElements d)) t = Inr t1" "ok t1" "same t t1"
      "\<And>k. cont t1 (pth k) = (case map_of (?f (addedElements d)) k of None \<Rightarrow> cont t (pth k) | Some v \<Rightarrow> ?g v)"
      "\<And>p. p \<notin> range pth \<Longrightarrow> cont t1 p = cont t p"
    using loop_ok [where f = "handleModification tree_set tree_unset active" and g = ?g, OF handleModification_ok assms(1) dist [OF invs(2)] assms(2)] by blast
  obtain t2 where t2: "rfold (handleModification tree_set tree_unset active) (?f (copiedElements d)) t1 = Inr t2" "ok t2" "same t1 t2"
      "\<And>k. cont t2 (pth k) = (case map_of (?f (copiedElements d)) k of None \<Rightarrow> cont t1 (pth k) | Some v \<Rightarrow> ?g v)"
      "\<And>p. p \<notin> range pth \<Longrightarrow> cont t2 p = cont t1 p"
    using loop_ok [where f = "handleModification tree_set tree_unset active" and g = ?g, OF handleModification_ok assms(1) dist [OF invs(4)] t1(2)] by blast
  obtain t3 where t3: "rfold (\<lambda>kv t. rbind (tree_unset (fst kv) t) (\<lambda>(_, t). Inr t)) (?f (removedElements d)) t2 = Inr t3" "ok t3" "same t2 t3"
      "\<And>k. cont t3 (pth k) = (case map_of (?f (removedElements d)) k of None \<Rightarrow> cont t2 (pth k) | Some v \<Rightarrow> None)"
      "\<And>p. p \<notin> range pth \<Longrightarrow> cont t3 p = cont t2 p"
    using loop_ok [where f = "\<lambda>kv t. rbind (tree_unset (fst kv) t) (\<lambda>(_, t). Inr t)" and g = "\<lambda>_. None", OF unset_ok assms(1) dist [OF invs(3)] t2(2)] by blast
  have "cont t3 (pth k) = (if needsApplication d g k then state_value active val (bsd_view d k) else cont t (pth k))" for k
  proof (cases "needsApplication d g k")
    case True
    then have "smap_find (keyGenerationIdMap d) k \<noteq> None"
      using assms(5) by (auto simp: needsApplication_def bsd_keyGenerationId_def Let_def word_le_0_iff split: option.splits)
    then have "smap_find (addedElements d) k \<noteq> None \<or> smap_find (copiedElements d) k \<noteq> None \<or> smap_find (removedElements d) k \<noteq> None"
      using assms(4) unfolding bsd_marked_inv_def by blast
    from pending_value [OF assms(3) this] True show ?thesis
      unfolding t3(4) t2(4) t1(4) smap_find_def [symmetric] smap_find_filter_key by simp
  next
    case False
    then show ?thesis unfolding t3(4) t2(4) t1(4) smap_find_def [symmetric] smap_find_filter_key by simp
  qed
  moreover have "cont t3 p = cont t p" if "p \<notin> range pth" for p using t3(5) t2(5) t1(5) that by simp
  moreover have "ApplyDeltasToTree tree_set tree_unset active d g t = Inr t3"
    using t1(1) t2(1) t3(1) by (simp add: ApplyDeltasToTree_def bsd_deltas_def)
  ultimately show ?thesis using t3(2) same_trans [OF same_trans [OF t1(3) t2(3)] t3(3)] by blast
qed

end

text \<open>The hashed keys have sixty-four nibbles.\<close>

lemma hashed_EncodeKey_size: "tnp_size (hashed_EncodeKey sha SerializeKey k) = 64"
  by (simp add: hashed_EncodeKey_def tnp_of_bytes_def tnp_size_def)

interpretation merkle_tree: state_tree "tree_ok sha bk 64" "contents sha bk 64" "\<lambda>k. nibbles (hashed_EncodeKey sha SerializeKey k)"
  "plain_EncodeValue sha SerializeValue"
  "bptd_set sha (hashed_EncodeKey sha SerializeKey) (plain_EncodeValue sha SerializeValue) bk"
  "bptd_unset sha (hashed_EncodeKey sha SerializeKey) bk" "\<lambda>t t'. d_memory t = d_memory t'"
  for sha bk SerializeKey SerializeValue
proof unfold_locales
  fix t k v
  assume "tree_ok sha bk 64 t"
  from bptd_set_ok [where EncodePath = "hashed_EncodeKey sha SerializeKey" and k = k, OF this hashed_EncodeKey_size,
      of "plain_EncodeValue sha SerializeValue" v]
  show "\<exists>t'. bptd_set sha (hashed_EncodeKey sha SerializeKey) (plain_EncodeValue sha SerializeValue) bk k v t = Inr t' \<and>
      tree_ok sha bk 64 t' \<and> d_memory t = d_memory t' \<and> contents sha bk 64 t'
        = (contents sha bk 64 t)(nibbles (hashed_EncodeKey sha SerializeKey k) \<mapsto> plain_EncodeValue sha SerializeValue v)" by auto
next
  fix t k
  assume "tree_ok sha bk 64 t"
  from bptd_unset_ok [where EncodePath = "hashed_EncodeKey sha SerializeKey" and k = k, OF this hashed_EncodeKey_size]
  show "\<exists>r t'. bptd_unset sha (hashed_EncodeKey sha SerializeKey) bk k t = Inr (r, t') \<and>
      tree_ok sha bk 64 t' \<and> d_memory t = d_memory t' \<and> contents sha bk 64 t'
        = (contents sha bk 64 t)(nibbles (hashed_EncodeKey sha SerializeKey k) := None)" by auto
qed auto

unbundle bit_operations_syntax

lemma byte_of_nibbles:
  fixes a b :: uint8
  assumes "(ucast (drop_bit 4 a) :: nibble) = ucast (drop_bit 4 b)" "(ucast a :: nibble) = ucast b"
  shows "a = b"
proof (rule bit_word_eqI)
  fix i
  assume i: "i < LENGTH(8)"
  have "bit (ucast (drop_bit 4 a) :: nibble) (i - 4) = bit (ucast (drop_bit 4 b) :: nibble) (i - 4)" "bit (ucast a :: nibble) i = bit (ucast b :: nibble) i"
    using assms by simp_all
  then show "bit a i = bit b i" using i by (cases "i < 4") (auto simp: bit_ucast_iff bit_drop_bit_eq)
qed

lemma tnp_of_bytes_inj:
  assumes "nibbles (tnp_of_bytes xs) = nibbles (tnp_of_bytes ys)" "length xs = length ys"
  shows "xs = ys"
proof (rule nth_equalityI [OF assms(2)])
  fix i
  assume i: "i < length xs"
  have nib: "nib xs j = nib ys j" if "j < 2 * length xs" for j
    using arg_cong [OF assms(1), of "\<lambda>ns. ns ! j"] that assms(2) by (simp add: nibbles_def tnp_of_bytes_def)
  then show "xs ! i = ys ! i" using nib [of "2 * i"] nib [of "2 * i + 1"] i by (intro byte_of_nibbles) (simp_all add: nib_def)
qed

lemma hashed_path_inj: "inj (\<lambda>k. sha (SerializeKey k)) \<Longrightarrow> inj (\<lambda>k. nibbles (hashed_EncodeKey sha SerializeKey k))"
  using tnp_of_bytes_inj array_bytes_inj [of 32] by (fastforce simp: inj_on_def hashed_EncodeKey_def)

subsection \<open>Runs of a cache delta\<close>

text \<open>
  A cache delta runs: operations on the set, and updates of the merkle root at any heights, recorded in a list of
  steps. The steps assume of the digest that the nodes that an update saves do not collide, and that the
  generation id, a 32 bit counter of the updates, does not wrap around.
\<close>

definition saved_nodes_ok :: "(uint8 list \<Rightarrow> Hash256) \<Rightarrow> (Hash256 \<Rightarrow> TreeNode) \<Rightarrow> PatriciaTreeDeltaMixin \<Rightarrow> PatriciaTreeDeltaMixin \<Rightarrow> bool" where
  "saved_nodes_ok sha bk m m' = (case (m_pTree m, m_pTree m') of
     (Some t, Some t') \<Rightarrow> no_collision sha (bptd_get bk t) (saveAll_nodes sha (d_tree t')) | _ \<Rightarrow> True)"

datatype ('k, 'v) merkle_step = Modify "('k, 'v) delta_op" | Update Height

inductive merkle_run ::
  "(uint8 list \<Rightarrow> Hash256) \<Rightarrow> ('k::linorder \<Rightarrow> uint8 list) \<Rightarrow> ('v \<Rightarrow> uint8 list) \<Rightarrow> ('v \<Rightarrow> Height \<Rightarrow> bool) option \<Rightarrow> bool
    \<Rightarrow> (Hash256 \<Rightarrow> TreeNode) \<Rightarrow> ('k, 'v) BaseSetDelta \<times> PatriciaTreeDeltaMixin \<Rightarrow> ('k, 'v) merkle_step list
    \<Rightarrow> ('k, 'v) BaseSetDelta \<times> PatriciaTreeDeltaMixin \<Rightarrow> bool"
  for sha SerializeKey SerializeValue isActive destructive bk s where
  start: "merkle_run sha SerializeKey SerializeValue isActive destructive bk s [] s"
| modify: "merkle_run sha SerializeKey SerializeValue isActive destructive bk s steps (d, m) \<Longrightarrow> op \<noteq> Op_NextGeneration
    \<Longrightarrow> merkle_run sha SerializeKey SerializeValue isActive destructive bk s (steps @ [Modify op]) (run_op op d, m)"
| update: "merkle_run sha SerializeKey SerializeValue isActive destructive bk s steps (d, m)
    \<Longrightarrow> updateMerkleRoot sha SerializeKey SerializeValue isActive destructive bk height (d, m) = Inr (d', m')
    \<Longrightarrow> saved_nodes_ok sha bk m m' \<Longrightarrow> generationId d \<noteq> - 1
    \<Longrightarrow> merkle_run sha SerializeKey SerializeValue isActive destructive bk s (steps @ [Update height]) (d', m')"

text \<open>
  What the steps mean, without generation ids and trees: the elements, the keys touched since the last
  update, and for each key the height of the update that last wrote it (at first the height for which
  the base tree has it).
\<close>

record ('k, 'v) tracked =
  tracked_view :: "'k \<rightharpoonup> 'v"
  pending :: "'k set"
  applied :: "'k \<Rightarrow> Height"

definition tracked_start :: "('k, 'v) smap \<Rightarrow> ('k \<Rightarrow> Height) \<Rightarrow> ('k, 'v) tracked" where
  "tracked_start original heights = \<lparr>tracked_view = smap_find original, pending = {}, applied = heights\<rparr>"

fun track_step :: "('k, 'v) merkle_step \<Rightarrow> ('k, 'v) tracked \<Rightarrow> ('k, 'v) tracked" where
  "track_step (Modify op) s =
     s\<lparr>tracked_view := spec_op op (tracked_view s), pending := pending s \<union> touched op (tracked_view s)\<rparr>"
| "track_step (Update height) s = s\<lparr>pending := {}, applied := (\<lambda>k. if k \<in> pending s then height else applied s k)\<rparr>"

text \<open>What the tree is to hold for a key: the value of its element if that was active at the height of its last write.\<close>

definition tracked_value :: "('v \<Rightarrow> Height \<Rightarrow> bool) \<Rightarrow> ('v \<Rightarrow> Hash256) \<Rightarrow> ('k, 'v) tracked \<Rightarrow> 'k \<Rightarrow> Hash256 option" where
  "tracked_value active val s k = state_value (\<lambda>v. active v (applied s k)) val (tracked_view s k)"

text \<open>Every element is as active at a height as it was when it was last written, or it has been touched since the last update.\<close>

definition expirations_touched :: "('v \<Rightarrow> Height \<Rightarrow> bool) \<Rightarrow> Height \<Rightarrow> ('k, 'v) tracked \<Rightarrow> bool" where
  "expirations_touched active height s \<longleftrightarrow>
     (\<forall>k v. tracked_view s k = Some v \<longrightarrow> k \<in> pending s \<or> active v (applied s k) = active v height)"

text \<open>It holds of itself where the height does not matter: no activity, or a deactivation that is not destructive.\<close>

lemma non_destructive_touched: "isActive = None \<or> \<not> destructive \<Longrightarrow> expirations_touched (IsActive isActive destructive) height s"
  by (cases isActive) (simp_all add: expirations_touched_def IsActive_def)

text \<open>Then an update leaves exactly the elements that are active at its height.\<close>

lemma touched_value:
  assumes "expirations_touched active height s"
  shows "tracked_value active val (track_step (Update height) s) k = state_value (\<lambda>v. active v height) val (tracked_view s k)"
  using assms by (auto simp: tracked_value_def expirations_touched_def state_value_def split: option.splits)

text \<open>Operations in a row, and that more of them never hurt.\<close>

lemma track_step_modifies:
  "tracked_view (fold track_step (map Modify ops) s) = fold spec_op ops (tracked_view s)"
  "pending (fold track_step (map Modify ops) s) = pending s \<union> touched_by ops (tracked_view s)"
  "applied (fold track_step (map Modify ops) s) = applied s"
  by (induction ops arbitrary: s) auto

lemma expirations_touched_modify:
  "expirations_touched active height s \<Longrightarrow> expirations_touched active height (track_step (Modify op) s)"
  by (cases op) (auto simp: expirations_touched_def split: if_splits option.splits)

text \<open>The tree is right for every key that is not pending, and the pending keys are those that need an application.\<close>

definition tracks ::
  "(uint8 list \<Rightarrow> Hash256) \<Rightarrow> ('k::linorder \<Rightarrow> uint8 list) \<Rightarrow> ('v \<Rightarrow> uint8 list) \<Rightarrow> ('v \<Rightarrow> Height \<Rightarrow> bool) \<Rightarrow> (Hash256 \<Rightarrow> TreeNode)
    \<Rightarrow> ('k, 'v) tracked \<Rightarrow> ('k, 'v) BaseSetDelta \<Rightarrow> BasePatriciaTreeDelta \<Rightarrow> uint32 \<Rightarrow> bool" where
  "tracks sha SerializeKey SerializeValue active bk s d t g \<longleftrightarrow>
     bsd_inv MutableTypeTag d \<and> bsd_marked_inv d \<and> g \<noteq> 0 \<and> g \<le> generationId d
     \<and> (\<forall>k i. smap_find (keyGenerationIdMap d) k = Some i \<longrightarrow> i \<le> generationId d)
     \<and> tracked_view s = bsd_view d \<and> pending s = {k. needsApplication d g k} \<and> tree_ok sha bk 64 t
     \<and> (\<forall>k. k \<notin> pending s \<longrightarrow> contents sha bk 64 t (nibbles (hashed_EncodeKey sha SerializeKey k))
          = tracked_value active (plain_EncodeValue sha SerializeValue) s k)
     \<and> (\<forall>p. p \<notin> range (\<lambda>k. nibbles (hashed_EncodeKey sha SerializeKey k)) \<longrightarrow> contents sha bk 64 t p = None)"

lemma tracks_modify:
  assumes "tracks sha SerializeKey SerializeValue active bk s d t g" "op \<noteq> Op_NextGeneration"
  shows "tracks sha SerializeKey SerializeValue active bk (track_step (Modify op) s) (run_op op d) t g"
proof -
  have inv: "bsd_inv MutableTypeTag d" and g: "g \<le> generationId d" and view: "tracked_view s = bsd_view d"
    using assms(1) by (simp_all add: tracks_def)
  have gen: "generationId (run_op op d) = generationId d"
    using assms(2) unfolding run_op_marks(1) [OF inv] by (cases op) simp_all
  note marks = run_op_marks(2,3) [OF inv, where op = op]
  have ids: "i \<le> generationId (run_op op d)" if "smap_find (keyGenerationIdMap (run_op op d)) k = Some i" for k i
    using marks(1) [of k] that assms(1) unfolding gen tracks_def by (auto split: if_splits)
  have pend: "needsApplication (run_op op d) g k \<longleftrightarrow> needsApplication d g k \<or> k \<in> touched op (bsd_view d)" for k
    using marks(1) [of k] g unfolding needsApplication_def bsd_keyGenerationId_def gen by (auto simp: Let_def)
  have "tracked_value active val (track_step (Modify op) s) k = tracked_value active val s k" if "k \<notin> touched op (bsd_view d)" for val k
    using marks(2) [OF that] run_op_view [OF inv, of op] by (simp add: tracked_value_def view)
  then show ?thesis using assms(1) ids run_op_inv [OF inv, of op] run_op_view [OF inv, of op] run_op_marked_inv [OF inv, of op] g
    unfolding tracks_def gen pend by auto
qed

lemma mixin_update_ok:
  assumes "tracks sha SerializeKey SerializeValue (IsActive isActive destructive) bk s d t g" "inj (\<lambda>k. sha (SerializeKey k))"
  shows "\<exists>t1 t'. updateMerkleRoot sha SerializeKey SerializeValue isActive destructive bk height (d, \<lparr>m_pTree = Some t, m_nextGenerationId = g\<rparr>)
      = Inr (bsd_incrementGenerationId d, \<lparr>m_pTree = Some t', m_nextGenerationId = generationId d + 1\<rparr>)
    \<and> t' = bptd_setCheckpoint sha t1 \<and> d_tree t' = d_tree t1 \<and> d_memory t1 = d_memory t \<and> tree_ok sha bk 64 t1
    \<and> (\<forall>k. contents sha bk 64 t1 (nibbles (hashed_EncodeKey sha SerializeKey k))
        = tracked_value (IsActive isActive destructive) (plain_EncodeValue sha SerializeValue) (track_step (Update height) s) k)
    \<and> (\<forall>p. p \<notin> range (\<lambda>k. nibbles (hashed_EncodeKey sha SerializeKey k)) \<longrightarrow> contents sha bk 64 t1 p = None)"
proof -
  let ?active = "IsActive isActive destructive" and ?val = "plain_EncodeValue sha SerializeValue"
  have T: "tree_ok sha bk 64 t" "bsd_inv MutableTypeTag d" "bsd_marked_inv d" "g \<noteq> 0"
    and S: "tracked_view s = bsd_view d" "pending s = {k. needsApplication d g k}"
      "\<And>k. k \<notin> pending s \<Longrightarrow> contents sha bk 64 t (nibbles (hashed_EncodeKey sha SerializeKey k)) = tracked_value ?active ?val s k"
      "\<And>p. p \<notin> range (\<lambda>k. nibbles (hashed_EncodeKey sha SerializeKey k)) \<Longrightarrow> contents sha bk 64 t p = None"
    using assms(1) unfolding tracks_def by blast+
  obtain t1 where t1: "ApplyDeltasToTree (bptd_set sha (hashed_EncodeKey sha SerializeKey) ?val bk)
        (bptd_unset sha (hashed_EncodeKey sha SerializeKey) bk) (\<lambda>v. ?active v height) d g t = Inr t1" "tree_ok sha bk 64 t1" "d_memory t = d_memory t1"
      "\<And>k. contents sha bk 64 t1 (nibbles (hashed_EncodeKey sha SerializeKey k))
        = (if needsApplication d g k then state_value (\<lambda>v. ?active v height) ?val (bsd_view d k)
           else contents sha bk 64 t (nibbles (hashed_EncodeKey sha SerializeKey k)))"
      "\<And>p. p \<notin> range (\<lambda>k. nibbles (hashed_EncodeKey sha SerializeKey k)) \<Longrightarrow> contents sha bk 64 t1 p = contents sha bk 64 t p"
    using merkle_tree.ApplyDeltasToTree_ok [OF hashed_path_inj [OF assms(2)] T, where active = "\<lambda>v. ?active v height"] by blast
  have "contents sha bk 64 t1 (nibbles (hashed_EncodeKey sha SerializeKey k)) = tracked_value ?active ?val (track_step (Update height) s) k" for k
    using S(3) [of k] unfolding t1(4) S(2) tracked_value_def by (simp add: S(1,2))
  then show ?thesis using t1(1-3,5) S(4)
    by (intro exI [of _ t1] exI [of _ "bptd_setCheckpoint sha t1"])
       (simp add: updateMerkleRoot_def setApplyCheckpoint_def bptd_setCheckpoint_def bsd_incrementGenerationId_def)
qed

lemma next_generation_le:
  fixes g i :: uint32
  assumes "g \<noteq> - 1" "i \<le> g"
  shows "\<not> g + 1 \<le> i" "g + 1 \<noteq> 0" "i \<le> g + 1"
proof -
  have "1 + g \<noteq> 0" using assms(1) by (metis add.commute add_eq_0_iff)
  then have "unat (g + 1) = Suc (unat g)" "g + 1 \<noteq> 0" using unatSuc [of g] by (simp_all add: add.commute)
  then show "\<not> g + 1 \<le> i" "g + 1 \<noteq> 0" "i \<le> g + 1" using assms(2) by (simp_all add: word_le_nat_alt)
qed

lemma tracks_update:
  assumes "tracks sha SerializeKey SerializeValue active bk s d t g" "generationId d \<noteq> - 1" "tree_ok sha bk 64 t'"
    "\<And>k. contents sha bk 64 t' (nibbles (hashed_EncodeKey sha SerializeKey k))
      = tracked_value active (plain_EncodeValue sha SerializeValue) (track_step (Update height) s) k"
    "\<And>p. p \<notin> range (\<lambda>k. nibbles (hashed_EncodeKey sha SerializeKey k)) \<Longrightarrow> contents sha bk 64 t' p = None"
  shows "tracks sha SerializeKey SerializeValue active bk (track_step (Update height) s) (bsd_incrementGenerationId d) t' (generationId d + 1)"
proof -
  note le = next_generation_le(1,3) [OF assms(2)] next_generation_le(2) [OF assms(2) order_refl]
  have D: "bsd_inv MutableTypeTag d" "bsd_marked_inv d" "\<And>k i. smap_find (keyGenerationIdMap d) k = Some i \<Longrightarrow> i \<le> generationId d"
      "tracked_view s = bsd_view d"
    using assms(1) unfolding tracks_def by blast+
  have I: "bsd_marked_inv (bsd_incrementGenerationId d) = bsd_marked_inv d" "generationId (bsd_incrementGenerationId d) = generationId d + 1"
      "keyGenerationIdMap (bsd_incrementGenerationId d) = keyGenerationIdMap d"
    by (simp_all add: bsd_incrementGenerationId_def bsd_marked_inv_def)
  have "\<not> needsApplication (bsd_incrementGenerationId d) (generationId d + 1) k" for k
    using D(3) [of k] le(1,3) by (auto simp: needsApplication_def bsd_keyGenerationId_def I word_le_0_iff split: option.splits)
  with D I assms(3-5) le show ?thesis unfolding tracks_def by auto
qed

lemma run_tracks:
  assumes "merkle_run sha SerializeKey SerializeValue isActive destructive bk (d0, \<lparr>m_pTree = Some t0, m_nextGenerationId = g0\<rparr>) steps r"
    "tracks sha SerializeKey SerializeValue (IsActive isActive destructive) bk s0 d0 t0 g0" "inj (\<lambda>k. sha (SerializeKey k))"
  shows "\<exists>d t g. r = (d, \<lparr>m_pTree = Some t, m_nextGenerationId = g\<rparr>)
    \<and> tracks sha SerializeKey SerializeValue (IsActive isActive destructive) bk (fold track_step steps s0) d t g"
  using assms(1)
proof (induction rule: merkle_run.induct)
  case start
  then show ?case using assms(2) by simp
next
  case (modify steps d m op)
  then show ?case using tracks_modify by fastforce
next
  case (update steps d m height d' m')
  let ?s = "fold track_step steps s0"
  from update obtain t g where m: "m = \<lparr>m_pTree = Some t, m_nextGenerationId = g\<rparr>"
      and tr: "tracks sha SerializeKey SerializeValue (IsActive isActive destructive) bk ?s d t g" by blast
  obtain t1 t' where u: "d' = bsd_incrementGenerationId d" "m' = \<lparr>m_pTree = Some t', m_nextGenerationId = generationId d + 1\<rparr>"
      "t' = bptd_setCheckpoint sha t1" "d_tree t' = d_tree t1" "d_memory t1 = d_memory t" "tree_ok sha bk 64 t1"
      "\<And>k. contents sha bk 64 t1 (nibbles (hashed_EncodeKey sha SerializeKey k))
        = tracked_value (IsActive isActive destructive) (plain_EncodeValue sha SerializeValue) (track_step (Update height) ?s) k"
      "\<And>p. p \<notin> range (\<lambda>k. nibbles (hashed_EncodeKey sha SerializeKey k)) \<Longrightarrow> contents sha bk 64 t1 p = None"
    using mixin_update_ok [OF tr assms(3), of height] update.hyps(2) unfolding m by auto
  have "no_collision sha (bptd_get bk t1) (saveAll_nodes sha (d_tree t1))"
    using update.hyps(3) u(4,5) unfolding m u(2) by (simp add: saved_nodes_ok_def bptd_get_def)
  note cp = bptd_setCheckpoint_ok [OF u(6) this, folded u(3)]
  have "tracks sha SerializeKey SerializeValue (IsActive isActive destructive) bk (track_step (Update height) ?s) d' t' (generationId d + 1)"
    using tracks_update [OF tr update.hyps(4) cp(1), unfolded cp(2), OF u(7,8)] unfolding u(1) .
  then show ?case unfolding u(2) by auto
qed

text \<open>A fresh cache delta whose tree agrees with the elements of the base set, each at the height of its last write.\<close>

definition consistent_start ::
  "(uint8 list \<Rightarrow> Hash256) \<Rightarrow> ('k::linorder \<Rightarrow> uint8 list) \<Rightarrow> ('v \<Rightarrow> uint8 list) \<Rightarrow> ('v \<Rightarrow> Height \<Rightarrow> bool) \<Rightarrow> (Hash256 \<Rightarrow> TreeNode)
    \<Rightarrow> ('k, 'v) smap \<Rightarrow> ('k \<Rightarrow> Height) \<Rightarrow> BasePatriciaTreeDelta \<Rightarrow> bool" where
  "consistent_start sha SerializeKey SerializeValue active bk original heights t \<longleftrightarrow> smap_inv original \<and> tree_ok sha bk 64 t
     \<and> (\<forall>k. contents sha bk 64 t (nibbles (hashed_EncodeKey sha SerializeKey k))
          = tracked_value active (plain_EncodeValue sha SerializeValue) (tracked_start original heights) k)
     \<and> (\<forall>p. p \<notin> range (\<lambda>k. nibbles (hashed_EncodeKey sha SerializeKey k)) \<longrightarrow> contents sha bk 64 t p = None)"

lemma start_tracks:
  assumes "consistent_start sha SerializeKey SerializeValue active bk original heights t"
  shows "tracks sha SerializeKey SerializeValue active bk (tracked_start original heights) (bsd_new original) t 1"
proof -
  have "\<not> needsApplication (bsd_new original) 1 k" "bsd_marked_inv (bsd_new original)" for k
    by (simp_all add: needsApplication_def bsd_keyGenerationId_def bsd_marked_inv_def bsd_new_def)
  with assms show ?thesis
    unfolding consistent_start_def tracks_def by (auto simp: tracked_start_def) (simp_all add: bsd_new_def)
qed

lemma new_mixin: "new_PatriciaTreeDeltaMixin (bsd_new original) pTree = \<lparr>m_pTree = pTree, m_nextGenerationId = 1\<rparr>"
  by (simp add: new_PatriciaTreeDeltaMixin_def bsd_new_def)

text \<open>What an update does at the end of a run.\<close>

lemma run_update:
  assumes "consistent_start sha SerializeKey SerializeValue (IsActive isActive destructive) bk original heights t0"
    "inj (\<lambda>k. sha (SerializeKey k))"
    "merkle_run sha SerializeKey SerializeValue isActive destructive bk
      (bsd_new original, new_PatriciaTreeDeltaMixin (bsd_new original) (Some t0)) steps (d, m)"
  defines "s \<equiv> fold track_step steps (tracked_start original heights)"
  shows "\<exists>t t1 d' m'. m_pTree m = Some t \<and> updateMerkleRoot sha SerializeKey SerializeValue isActive destructive bk height (d, m) = Inr (d', m')
    \<and> m_pTree m' = Some (bptd_setCheckpoint sha t1) \<and> bsd_view d = tracked_view s \<and> bsd_view d' = tracked_view s
    \<and> d_memory t1 = d_memory t \<and> tree_ok sha bk 64 t1
    \<and> (\<forall>k. contents sha bk 64 t1 (nibbles (hashed_EncodeKey sha SerializeKey k))
        = tracked_value (IsActive isActive destructive) (plain_EncodeValue sha SerializeValue) (track_step (Update height) s) k)
    \<and> (\<forall>p. p \<notin> range (\<lambda>k. nibbles (hashed_EncodeKey sha SerializeKey k)) \<longrightarrow> contents sha bk 64 t1 p = None)"
proof -
  obtain t g where m: "m = \<lparr>m_pTree = Some t, m_nextGenerationId = g\<rparr>"
      and tr: "tracks sha SerializeKey SerializeValue (IsActive isActive destructive) bk s d t g"
    using run_tracks [OF assms(3) [unfolded new_mixin] start_tracks [OF assms(1)] assms(2)] unfolding s_def by auto
  moreover have "bsd_view d = tracked_view s" using tr by (simp add: tracks_def)
  ultimately show ?thesis using mixin_update_ok [OF tr assms(2), of height] by auto
qed

subsection \<open>Properties\<close>

text \<open>
  C7. Incremental merkle roots are right. Take a fresh cache delta over a base whose tree agrees with its
  elements, each at the height at which it was last written, and run any operations on its set and any updates
  of its merkle root in between, at any heights. A further update succeeds and leaves the elements alone. Provided the
  nodes it saves do not collide, the tree then has a value under the path of a key exactly for the elements that
  were active at the height of the last update before which they were touched (inserted, or looked up, assigned
  or removed while present), this update included, and it is the value of the current element; it has nothing
  else. In particular it has exactly the elements that are active at the height of the update, if every element that
  became active or inactive since its last write has been touched, as it always is for elements whose
  activity does not depend on the height. The digest has no collisions on the serialized keys.
\<close>

theorem merkle_root_tracks_state:
  assumes "consistent_start Sha3_256 SerializeKey SerializeValue (IsActive isActive destructive) bk original heights t0"
    and "inj (\<lambda>k. Sha3_256 (SerializeKey k))"
    and "merkle_run Sha3_256 SerializeKey SerializeValue isActive destructive bk
      (bsd_new original, new_PatriciaTreeDeltaMixin (bsd_new original) (Some t0)) steps (d, m)"
  defines "s \<equiv> fold track_step steps (tracked_start original heights)"
  shows "\<exists>d' m' t'. updateMerkleRoot Sha3_256 SerializeKey SerializeValue isActive destructive bk height (d, m) = Inr (d', m')
    \<and> m_pTree m' = Some t' \<and> bsd_view d' = bsd_view d \<and> bsd_view d = tracked_view s
    \<and> (saved_nodes_ok Sha3_256 bk m m' \<longrightarrow> tree_ok Sha3_256 bk 64 t'
        \<and> (\<forall>k. contents Sha3_256 bk 64 t' (nibbles (hashed_EncodeKey Sha3_256 SerializeKey k))
              = state_value (\<lambda>v. IsActive isActive destructive v (if k \<in> pending s then height else applied s k))
                  (plain_EncodeValue Sha3_256 SerializeValue) (bsd_view d k))
        \<and> (expirations_touched (IsActive isActive destructive) height s
            \<longrightarrow> (\<forall>k. contents Sha3_256 bk 64 t' (nibbles (hashed_EncodeKey Sha3_256 SerializeKey k))
              = state_value (\<lambda>v. IsActive isActive destructive v height) (plain_EncodeValue Sha3_256 SerializeValue) (bsd_view d k)))
        \<and> (\<forall>p. p \<notin> range (\<lambda>k. nibbles (hashed_EncodeKey Sha3_256 SerializeKey k)) \<longrightarrow> contents Sha3_256 bk 64 t' p = None))"
proof -
  let ?s = "track_step (Update height) s" and ?active = "IsActive isActive destructive" and ?val = "plain_EncodeValue Sha3_256 SerializeValue"
  obtain t t1 d' m' where u: "m_pTree m = Some t" "updateMerkleRoot Sha3_256 SerializeKey SerializeValue isActive destructive bk height (d, m) = Inr (d', m')"
      "m_pTree m' = Some (bptd_setCheckpoint Sha3_256 t1)" "bsd_view d = tracked_view s" "bsd_view d' = tracked_view s"
      "d_memory t1 = d_memory t" "tree_ok Sha3_256 bk 64 t1"
      "\<forall>k. contents Sha3_256 bk 64 t1 (nibbles (hashed_EncodeKey Sha3_256 SerializeKey k)) = tracked_value ?active ?val ?s k"
      "\<forall>p. p \<notin> range (\<lambda>k. nibbles (hashed_EncodeKey Sha3_256 SerializeKey k)) \<longrightarrow> contents Sha3_256 bk 64 t1 p = None"
    using run_update [OF assms(1-3), of height] unfolding s_def by blast
  have "no_collision Sha3_256 (bptd_get bk t1) (saveAll_nodes Sha3_256 (d_tree t1))" if "saved_nodes_ok Sha3_256 bk m m'"
    using that u(1,3,6) by (simp add: saved_nodes_ok_def bptd_get_def bptd_setCheckpoint_def)
  note saved = bptd_setCheckpoint_ok [OF u(7) this]
  have "tracked_value ?active ?val ?s k
      = state_value (\<lambda>v. ?active v (if k \<in> pending s then height else applied s k)) ?val (bsd_view d k)" for k
    by (simp add: tracked_value_def u(4))
  moreover note touched_value [of ?active height s ?val]
  ultimately show ?thesis using saved u
    by (intro exI [of _ d'] exI [of _ m'] exI [of _ "bptd_setCheckpoint Sha3_256 t1"]) (simp add: u(4))
qed

text \<open>
  C1. The state determines the merkle root. Two nodes with their own databases, base elements and trees run
  their own operations and updates on a cache, at their own heights, and end up with the same elements.
  Then an update at the same height gives both the same merkle root, whatever the histories were,
  provided that on each node every element that became active or inactive since it was last written has
  been touched since the last update. This proviso is void for elements whose activity does not depend on the
  height; the caches of locks, whose deactivation is destructive, meet it by touching every height (\<open>lock_touch_covers_expirations\<close>
  in the root theory). The digest has no collisions on the serialized keys.
\<close>

theorem merkle_root_same_state_same_root:
  assumes "consistent_start Sha3_256 SerializeKey SerializeValue (IsActive isActive destructive) bk1 original1 heights1 t1"
    and "consistent_start Sha3_256 SerializeKey SerializeValue (IsActive isActive destructive) bk2 original2 heights2 t2"
    and "inj (\<lambda>k. Sha3_256 (SerializeKey k))"
    and "merkle_run Sha3_256 SerializeKey SerializeValue isActive destructive bk1
      (bsd_new original1, new_PatriciaTreeDeltaMixin (bsd_new original1) (Some t1)) steps1 (d1, m1)"
    and "merkle_run Sha3_256 SerializeKey SerializeValue isActive destructive bk2
      (bsd_new original2, new_PatriciaTreeDeltaMixin (bsd_new original2) (Some t2)) steps2 (d2, m2)"
    and "bsd_view d1 = bsd_view d2"
    and "expirations_touched (IsActive isActive destructive) height (fold track_step steps1 (tracked_start original1 heights1))"
    and "expirations_touched (IsActive isActive destructive) height (fold track_step steps2 (tracked_start original2 heights2))"
  shows "\<exists>d1' m1' d2' m2' root. updateMerkleRoot Sha3_256 SerializeKey SerializeValue isActive destructive bk1 height (d1, m1) = Inr (d1', m1')
    \<and> updateMerkleRoot Sha3_256 SerializeKey SerializeValue isActive destructive bk2 height (d2, m2) = Inr (d2', m2')
    \<and> tryGetMerkleRoot Sha3_256 m1' = (root, True) \<and> tryGetMerkleRoot Sha3_256 m2' = (root, True)"
proof -
  let ?pth = "\<lambda>k. nibbles (hashed_EncodeKey Sha3_256 SerializeKey k)"
    and ?val = "\<lambda>k. state_value (\<lambda>v. IsActive isActive destructive v height) (plain_EncodeValue Sha3_256 SerializeValue) (bsd_view d1 k)"
  obtain s d1' m1' where u1: "updateMerkleRoot Sha3_256 SerializeKey SerializeValue isActive destructive bk1 height (d1, m1) = Inr (d1', m1')"
      "m_pTree m1' = Some (bptd_setCheckpoint Sha3_256 s)" "tree_ok Sha3_256 bk1 64 s"
      "\<forall>k. contents Sha3_256 bk1 64 s (?pth k) = ?val k" "\<forall>p. p \<notin> range ?pth \<longrightarrow> contents Sha3_256 bk1 64 s p = None"
    using run_update [OF assms(1,3,4), of height] unfolding touched_value [OF assms(7)] by metis
  obtain r d2' m2' where u2: "updateMerkleRoot Sha3_256 SerializeKey SerializeValue isActive destructive bk2 height (d2, m2) = Inr (d2', m2')"
      "m_pTree m2' = Some (bptd_setCheckpoint Sha3_256 r)" "tree_ok Sha3_256 bk2 64 r"
      "\<forall>k. contents Sha3_256 bk2 64 r (?pth k) = ?val k" "\<forall>p. p \<notin> range ?pth \<longrightarrow> contents Sha3_256 bk2 64 r p = None"
    using run_update [OF assms(2,3,5), of height] unfolding touched_value [OF assms(8)] assms(6) by metis
  have "contents Sha3_256 bk1 64 s p = contents Sha3_256 bk2 64 r p" for p
    using u1(4,5) u2(4,5) by (cases "p \<in> range ?pth") auto
  then have "entries Sha3_256 (bptd_get bk1 s) 64 (d_tree s) = entries Sha3_256 (bptd_get bk2 r) 64 (d_tree r)"
    by (auto simp: contents_def)
  with u1(3) u2(3) have "bptd_root Sha3_256 s = bptd_root Sha3_256 r"
    unfolding tree_ok_def bptd_root_def by (intro hash_canonical) auto
  then have "tryGetMerkleRoot Sha3_256 m1' = (bptd_root Sha3_256 s, True)" "tryGetMerkleRoot Sha3_256 m2' = (bptd_root Sha3_256 s, True)"
    using u1(2) u2(2) by (simp_all add: tryGetMerkleRoot_def bptd_root_def bptd_setCheckpoint_def)
  with u1(1) u2(1) show ?thesis by blast
qed

text \<open>
  A small cache for the examples: two keys, an empty base, and bytes as values that are active below the height they
  name and leave the state then.
\<close>

definition example_sha :: "uint8 list \<Rightarrow> Hash256" where
  "example_sha bs = (if hd bs = 0 then 1 else 2)"

definition example_key :: "bool \<Rightarrow> uint8 list" where
  "example_key k = [if k then 1 else 0]"

definition example_expiry :: "uint8 \<Rightarrow> Height \<Rightarrow> bool" where
  "example_expiry v height \<longleftrightarrow> height < ucast v"

definition example_tree :: BasePatriciaTreeDelta where
  "example_tree = bptd_new (mds_get new_MemoryDataSource) 0"

abbreviation example_mixin :: PatriciaTreeDeltaMixin where
  "example_mixin \<equiv> new_PatriciaTreeDeltaMixin (bsd_new ([] :: (bool, uint8) smap)) (Some example_tree)"

abbreviation example_update ::
  "Height \<Rightarrow> (bool, uint8) BaseSetDelta \<times> PatriciaTreeDeltaMixin \<Rightarrow> exn + (bool, uint8) BaseSetDelta \<times> PatriciaTreeDeltaMixin" where
  "example_update \<equiv> updateMerkleRoot example_sha example_key (\<lambda>v. [v]) (Some example_expiry) True (mds_get new_MemoryDataSource)"

abbreviation example_run :: "(bool, uint8) merkle_step list \<Rightarrow> (bool, uint8) BaseSetDelta \<times> PatriciaTreeDeltaMixin \<Rightarrow> bool" where
  "example_run \<equiv> merkle_run example_sha example_key (\<lambda>v. [v]) (Some example_expiry) True (mds_get new_MemoryDataSource)
     (bsd_new [], example_mixin)"

text \<open>The set with one element, its generations, and the tree with its leaf.\<close>

definition example_delta :: "uint32 \<Rightarrow> uint32 \<Rightarrow> uint8 \<Rightarrow> (bool, uint8) BaseSetDelta" where
  "example_delta g i v = \<lparr>originalElements = [], addedElements = [(True, v)], removedElements = [], copiedElements = [],
     generationId = g, keyGenerationIdMap = [(True, i)]\<rparr>"

definition example_leaf :: "uint8 \<Rightarrow> BasePatriciaTreeDelta" where
  "example_leaf v = bptd_setCheckpoint example_sha (example_tree\<lparr>d_tree :=
     LeafNode (nibbles (hashed_EncodeKey example_sha example_key True)) (plain_EncodeValue example_sha (\<lambda>v. [v]) v)\<rparr>)"

lemma mds_get_new [simp]: "mds_get new_MemoryDataSource h = EmptyNode"
  by (simp add: mds_get_def new_MemoryDataSource_def)

lemma example_tree_empty: "d_tree example_tree = EmptyNode" "d_memory example_tree = new_MemoryDataSource"
  by (simp_all add: example_tree_def bptd_new_def pt_tryLoad_def rt_get_def)

lemma example_sha_nonzero: "example_sha bs \<noteq> 0"
  by (simp add: example_sha_def)

lemma example_start: "consistent_start example_sha example_key (\<lambda>v :: uint8. [v]) active (mds_get new_MemoryDataSource) [] heights example_tree"
  unfolding consistent_start_def tree_ok_def contents_def
  by (simp add: example_tree_empty tracked_value_def tracked_start_def state_value_def new_addressed)

lemma example_inj: "inj (\<lambda>k. example_sha (example_key k))"
  by (simp add: inj_on_def example_sha_def example_key_def)

lemma example_insert:
  "run_op (Op_Insert True v) (bsd_new []) = example_delta 1 1 v" "run_op (Op_Insert True w) (example_delta g i v) = example_delta g g w"
  by (simp_all add: example_delta_def bsd_op_defs bsd_new_def smap_contains_def smap_insert_def smap_erase_def smap_empty_def Let_def)

lemma example_find: "run_op (Op_Find True) (example_delta g i v) = example_delta g g v"
  by (simp add: example_delta_def bsd_op_defs smap_contains_def Let_def smap_find_def)

lemma example_view: "bsd_view (example_delta g i v) = [True \<mapsto> v]"
  by (auto simp: example_delta_def bsd_view_def smap_find_def fun_eq_iff)

lemmas example_update_defs = updateMerkleRoot_def ApplyDeltasToTree_def bsd_deltas_def needsApplication_def bsd_keyGenerationId_def
  smap_find_def handleModification_def IsActive_def example_expiry_def setApplyCheckpoint_def bsd_incrementGenerationId_def example_delta_def
  saved_nodes_ok_def no_collision_def bptd_get_def rt_get_def CalculateLeafTreeNodeHash_def example_sha_nonzero

text \<open>The first update writes the element, one that follows a look up after its expiration removes it.\<close>

lemma example_write:
  assumes "height < ucast v"
  shows "example_update height (example_delta 1 1 v, example_mixin)
      = Inr (example_delta 2 1 v, \<lparr>m_pTree = Some (example_leaf v), m_nextGenerationId = 2\<rparr>)"
    "saved_nodes_ok example_sha (mds_get new_MemoryDataSource) example_mixin
       \<lparr>m_pTree = Some (example_leaf v), m_nextGenerationId = 2\<rparr>"
  using assms unfolding new_mixin
  by (simp_all add: example_update_defs bptd_set_def pt_set_def example_tree_empty set_node.simps example_leaf_def bptd_setCheckpoint_def)

lemma example_erase:
  assumes "ucast v \<le> height"
  shows "\<exists>t. d_tree t = EmptyNode \<and> example_update height (example_delta 2 2 v, \<lparr>m_pTree = Some (example_leaf v), m_nextGenerationId = 2\<rparr>)
      = Inr (example_delta 3 2 v, \<lparr>m_pTree = Some t, m_nextGenerationId = 3\<rparr>)"
proof -
  have "\<not> height < ucast v" using assms by simp
  then show ?thesis
    by (simp add: example_update_defs bptd_unset_def pt_unset_def unset_node.simps example_leaf_def bptd_setCheckpoint_def first_diff_refl)
qed

lemma example_runs:
  "example_run [Modify (Op_Insert True v)] (example_delta 1 1 v, example_mixin)"
  "example_run [Modify (Op_Insert True w), Modify (Op_Insert True v)] (example_delta 1 1 v, example_mixin)"
  "height < ucast v \<Longrightarrow> example_run [Modify (Op_Insert True v), Update height]
     (example_delta 2 1 v, \<lparr>m_pTree = Some (example_leaf v), m_nextGenerationId = 2\<rparr>)"
  "height < ucast v \<Longrightarrow> example_run [Modify (Op_Insert True v), Update height, Modify (Op_Find True)]
     (example_delta 2 2 v, \<lparr>m_pTree = Some (example_leaf v), m_nextGenerationId = 2\<rparr>)"
proof -
  have step: "example_run (steps @ [Modify op]) (run_op op d, m)" if "example_run steps (d, m)" "op \<noteq> Op_NextGeneration" for steps op d m
    using that by (rule merkle_run.modify)
  show one: "example_run [Modify (Op_Insert True v)] (example_delta 1 1 v, example_mixin)" for v
    using step [OF merkle_run.start, of "Op_Insert True v"] unfolding example_insert by simp
  show "example_run [Modify (Op_Insert True w), Modify (Op_Insert True v)] (example_delta 1 1 v, example_mixin)"
    using step [OF one [of w], of "Op_Insert True v"] unfolding example_insert by simp
  show upd: "example_run [Modify (Op_Insert True v), Update height] (example_delta 2 1 v, \<lparr>m_pTree = Some (example_leaf v), m_nextGenerationId = 2\<rparr>)"
    if "height < ucast v"
    using merkle_run.update [OF one [of v] example_write [OF that]] by (simp add: example_delta_def)
  show "example_run [Modify (Op_Insert True v), Update height, Modify (Op_Find True)]
      (example_delta 2 2 v, \<lparr>m_pTree = Some (example_leaf v), m_nextGenerationId = 2\<rparr>)" if "height < ucast v"
    using step [OF upd [OF that], of "Op_Find True"] unfolding example_find by simp
qed

theorem merkle_root_tracks_state_witness:
  "\<exists>d m d1 m1 t1 d2 m2 t2. example_update 1 (example_delta 1 1 5, example_mixin) = Inr (d1, m1) \<and> m_pTree m1 = Some t1
    \<and> contents example_sha (mds_get new_MemoryDataSource) 64 t1 (nibbles (hashed_EncodeKey example_sha example_key True)) = Some 2
    \<and> example_run [Modify (Op_Insert True 5), Update 1, Modify (Op_Find True)] (d, m)
    \<and> example_update 5 (d, m) = Inr (d2, m2) \<and> m_pTree m2 = Some t2 \<and> bsd_view d2 True = Some 5
    \<and> contents example_sha (mds_get new_MemoryDataSource) 64 t2 (nibbles (hashed_EncodeKey example_sha example_key True)) = None"
proof -
  let ?m = "\<lparr>m_pTree = Some (example_leaf 5), m_nextGenerationId = 2\<rparr>"
  let ?run = "[Modify (Op_Insert True 5), Update 1, Modify (Op_Find True)]"
  note wr = example_write [of 1 5]
  have first: "contents example_sha (mds_get new_MemoryDataSource) 64 (example_leaf 5) (nibbles (hashed_EncodeKey example_sha example_key True)) = Some 2"
    using merkle_root_tracks_state [OF example_start [of "IsActive (Some example_expiry) True" "\<lambda>_. 0"] example_inj example_runs(1) [of 5], of 1] wr
    by (simp add: example_view tracked_start_def state_value_def IsActive_def example_expiry_def plain_EncodeValue_def example_sha_def)
  obtain t where t: "d_tree t = EmptyNode" "example_update 5 (example_delta 2 2 5, ?m) = Inr (example_delta 3 2 5, \<lparr>m_pTree = Some t, m_nextGenerationId = 3\<rparr>)"
    using example_erase [of 5 5] by auto
  then have "saved_nodes_ok example_sha (mds_get new_MemoryDataSource) ?m \<lparr>m_pTree = Some t, m_nextGenerationId = 3\<rparr>"
    by (simp add: saved_nodes_ok_def no_collision_def)
  then have second: "contents example_sha (mds_get new_MemoryDataSource) 64 t (nibbles (hashed_EncodeKey example_sha example_key True)) = None"
    using merkle_root_tracks_state [OF example_start [of "IsActive (Some example_expiry) True" "\<lambda>_. 0"] example_inj example_runs(4) [of 1 5], of 5] t(2)
    by (simp add: example_view tracked_start_def state_value_def IsActive_def example_expiry_def)
  show ?thesis using first second wr t(2) example_runs(4) [of 1 5]
    by (intro exI [of _ "example_delta 2 2 5"] exI [of _ ?m] exI [of _ "example_delta 2 1 5"] exI [of _ "example_leaf 5"]
        exI [of _ "example_delta 3 2 5"] exI [of _ "\<lparr>m_pTree = Some t, m_nextGenerationId = 3\<rparr>"] exI [of _ t]) (simp add: example_view)
qed

theorem merkle_root_same_state_same_root_witness:
  "\<exists>d1 m1 d2 m2 d1' m1' d2' m2' root. example_run [Modify (Op_Insert True 9), Update 1] (d1, m1)
    \<and> example_run [Modify (Op_Insert True 4), Modify (Op_Insert True 9)] (d2, m2)
    \<and> example_update 5 (d1, m1) = Inr (d1', m1') \<and> example_update 5 (d2, m2) = Inr (d2', m2')
    \<and> tryGetMerkleRoot example_sha m1' = (root, True) \<and> tryGetMerkleRoot example_sha m2' = (root, True)"
proof -
  have "expirations_touched (IsActive (Some example_expiry) True) 5
      (fold track_step [Modify (Op_Insert True 9), Update 1] (tracked_start [] (\<lambda>_. 0)))"
    "expirations_touched (IsActive (Some example_expiry) True) 5
      (fold track_step [Modify (Op_Insert True 4), Modify (Op_Insert True 9)] (tracked_start [] (\<lambda>_. 0)))"
    by (simp_all add: expirations_touched_def tracked_start_def IsActive_def example_expiry_def smap_find_def)
  from merkle_root_same_state_same_root [OF example_start example_start example_inj example_runs(3) example_runs(2) _ this]
  show ?thesis using example_runs(3) [of 1 9] example_runs(2) [of 4 9] by (simp add: example_view) blast
qed

end
