(* ===== verification/Processing.thy ===== *)
theory Processing
  imports LockObservers
begin

section \<open>Notifications and their processing (catapult/model, validators, observers, chain)\<close>

text \<open>
  A transaction or block is published as a sequence of notifications. Validators judge a notification,
  observers apply it to the cache or undo it. The theory models the types of notifications and validation results
  as the packed integers that they are, the aggregate and demultiplexing validators and observers that plugins are
  composed with, the subscribers that process and undo the notifications of one entity, and the execution and rollback
  of the entities of a block.

  A notification carries plugin data \<open>n_Data\<close> of any type. Validators, observers and the publisher (the
  notifications of an entity, a function of the entity alone) are arguments. The state is the cache delta that validator and observer
  contexts share. What observers write to a block statement is part of the theories of statements and locks.
\<close>

subsection \<open>Notification types\<close>

datatype NotificationChannel = Channel_None | Channel_Validator | Channel_Observer | Channel_All

fun channel_code :: "NotificationChannel \<Rightarrow> uint8" where
  "channel_code Channel_None = 0x00"
| "channel_code Channel_Validator = 0x01"
| "channel_code Channel_Observer = 0x02"
| "channel_code Channel_All = 0xFF"

type_synonym NotificationType = uint32

definition MakeNotificationType :: "NotificationChannel \<Rightarrow> FacilityCode \<Rightarrow> uint16 \<Rightarrow> NotificationType" where
  "MakeNotificationType channel facility code =
     push_bit 24 (ucast (channel_code channel)) OR push_bit 16 (ucast (facility_code facility)) OR ucast code"

definition IsSet :: "NotificationType \<Rightarrow> NotificationChannel \<Rightarrow> bool" where
  "IsSet type channel \<longleftrightarrow> ucast (channel_code channel) = (ucast (channel_code channel) AND drop_bit 24 type)"

definition SetNotificationChannel :: "NotificationChannel \<Rightarrow> NotificationType \<Rightarrow> NotificationType" where
  "SetNotificationChannel channel type = push_bit 24 (ucast (channel_code channel)) OR (0x00FFFFFF AND type)"

definition AreEqualExcludingChannel :: "NotificationType \<Rightarrow> NotificationType \<Rightarrow> bool" where
  "AreEqualExcludingChannel lhs rhs \<longleftrightarrow> 0x00FFFFFF AND lhs = 0x00FFFFFF AND rhs"

record 'd Notification =
  n_Type :: NotificationType
  n_Size :: size_t
  n_Data :: 'd

text \<open>A four byte type and an aligned eight byte size.\<close>

definition sizeof_Notification :: size_t where
  "sizeof_Notification = 16"

subsection \<open>Validation results\<close>

type_synonym ResultCode = uint32

definition Result_Success :: ResultCode where "Result_Success = 0x00000000"

definition Result_Neutral :: ResultCode where "Result_Neutral = 0x40000000"

definition Result_Failure :: ResultCode where "Result_Failure = 0x80000000"

definition MakeValidationResult :: "uint8 \<Rightarrow> uint8 \<Rightarrow> uint16 \<Rightarrow> uint8 \<Rightarrow> ResultCode" where
  "MakeValidationResult severity facility code flags =
     push_bit 30 (ucast severity AND 0x03) OR push_bit 24 (ucast flags AND 0x3F) OR push_bit 16 (ucast facility) OR ucast code"

definition GetSeverity :: "ResultCode \<Rightarrow> uint8" where
  "GetSeverity result = ucast (drop_bit 30 result)"

definition IsValidationResultSuccess :: "ResultCode \<Rightarrow> bool" where
  "IsValidationResultSuccess result \<longleftrightarrow> 0 = GetSeverity result"

definition IsValidationResultFailure :: "ResultCode \<Rightarrow> bool" where
  "IsValidationResultFailure result \<longleftrightarrow> 2 = GetSeverity result"

text \<open>The loop of the compare-and-exchange policy runs once when there is a single thread.\<close>

definition AggregateValidationResult :: "ResultCode \<Rightarrow> ResultCode \<Rightarrow> ResultCode" where
  "AggregateValidationResult aggregate v = (if GetSeverity aggregate \<ge> GetSeverity v then aggregate else v)"

subsection \<open>Aggregate validators and observers\<close>

type_synonym ('d, 's) validator = "'d Notification \<Rightarrow> 's \<Rightarrow> ResultCode"

type_synonym ('d, 's) observer = "NotifyMode \<Rightarrow> 'd Notification \<Rightarrow> 's \<Rightarrow> exn + 's"

fun aggregate_validate :: "(ResultCode \<Rightarrow> bool) \<Rightarrow> ('d, 's) validator list \<Rightarrow> ResultCode \<Rightarrow> ('d, 's) validator" where
  "aggregate_validate isSuppressedFailure [] aggregateResult notification s = aggregateResult"
| "aggregate_validate isSuppressedFailure (validator # validators) aggregateResult notification s =
     (let result = validator notification s
      in if isSuppressedFailure result then aggregate_validate isSuppressedFailure validators aggregateResult notification s
         else if IsValidationResultFailure result then result
         else aggregate_validate isSuppressedFailure validators (AggregateValidationResult aggregateResult result) notification s)"

definition AggregateValidator :: "(ResultCode \<Rightarrow> bool) \<Rightarrow> ('d, 's) validator list \<Rightarrow> ('d, 's) validator" where
  "AggregateValidator isSuppressedFailure validators = aggregate_validate isSuppressedFailure validators Result_Success"

definition ConditionalValidator :: "NotificationType \<Rightarrow> ('d, 's) validator \<Rightarrow> ('d, 's) validator" where
  "ConditionalValidator type validator notification s =
     (if AreEqualExcludingChannel type (n_Type notification) then validator notification s else Result_Success)"

definition AggregateObserver :: "('d, 's) observer list \<Rightarrow> ('d, 's) observer" where
  "AggregateObserver observers mode notification =
     rfold (\<lambda>observer. observer mode notification) (if Commit = mode then observers else rev observers)"

definition ConditionalObserver :: "NotificationType \<Rightarrow> ('d, 's) observer \<Rightarrow> ('d, 's) observer" where
  "ConditionalObserver type observer mode notification s =
     (if \<not> AreEqualExcludingChannel type (n_Type notification) then Inr s else observer mode notification s)"

subsection \<open>Processing and undoing the notifications of an entity\<close>

record ('d, 's) ProcessingNotificationSubscriber =
  pns_Cache :: 's
  m_notificationBuffers :: "'d Notification list"
  m_aggregateResult :: ResultCode
  m_isUndoEnabled :: bool

definition new_ProcessingNotificationSubscriber :: "'s \<Rightarrow> ('d, 's) ProcessingNotificationSubscriber" where
  "new_ProcessingNotificationSubscriber cache =
     \<lparr>pns_Cache = cache, m_notificationBuffers = [], m_aggregateResult = Result_Success, m_isUndoEnabled = False\<rparr>"

definition pns_enableUndo :: "('d, 's) ProcessingNotificationSubscriber \<Rightarrow> ('d, 's) ProcessingNotificationSubscriber" where
  "pns_enableUndo sub = sub\<lparr>m_isUndoEnabled := True\<rparr>"

definition pns_validate :: "('d, 's) validator \<Rightarrow> 'd Notification \<Rightarrow> ('d, 's) ProcessingNotificationSubscriber
    \<Rightarrow> ('d, 's) ProcessingNotificationSubscriber" where
  "pns_validate validator notification sub =
     (if \<not> IsSet (n_Type notification) Channel_Validator then sub
      else sub\<lparr>m_aggregateResult := AggregateValidationResult (m_aggregateResult sub) (validator notification (pns_Cache sub))\<rparr>)"

text \<open>\<open>ProcessingUndoNotificationSubscriber::notify\<close>: the notification is stored.\<close>

definition undo_notify :: "'d Notification \<Rightarrow> ('d, 's) ProcessingNotificationSubscriber
    \<Rightarrow> exn + ('d, 's) ProcessingNotificationSubscriber" where
  "undo_notify notification sub =
     (if n_Size notification < sizeof_Notification then Inl Invalid_Argument
      else if \<not> IsSet (n_Type notification) Channel_Observer then Inr sub
      else Inr (sub\<lparr>m_notificationBuffers := m_notificationBuffers sub @ [notification]\<rparr>))"

definition pns_observe :: "NotifyMode \<Rightarrow> ('d, 's) observer \<Rightarrow> 'd Notification \<Rightarrow> ('d, 's) ProcessingNotificationSubscriber
    \<Rightarrow> exn + ('d, 's) ProcessingNotificationSubscriber" where
  "pns_observe mode observer notification sub =
     (if \<not> IsSet (n_Type notification) Channel_Observer then Inr sub
      else rbind (observer mode notification (pns_Cache sub)) (\<lambda>cache.
        let sub = sub\<lparr>pns_Cache := cache\<rparr> in if \<not> m_isUndoEnabled sub then Inr sub else undo_notify notification sub))"

definition pns_notify :: "NotifyMode \<Rightarrow> ('d, 's) validator \<Rightarrow> ('d, 's) observer \<Rightarrow> 'd Notification
    \<Rightarrow> ('d, 's) ProcessingNotificationSubscriber \<Rightarrow> exn + ('d, 's) ProcessingNotificationSubscriber" where
  "pns_notify mode validator observer notification sub =
     (if n_Size notification < sizeof_Notification then Inl Invalid_Argument
      else if \<not> IsValidationResultSuccess (m_aggregateResult sub) then Inr sub
      else let sub = pns_validate validator notification sub
           in if \<not> IsValidationResultSuccess (m_aggregateResult sub) then Inr sub
              else pns_observe mode observer notification sub)"

definition undo_mode :: "NotifyMode \<Rightarrow> NotifyMode" where
  "undo_mode mode = (if Commit = mode then Rollback else Commit)"

definition pns_undo :: "NotifyMode \<Rightarrow> ('d, 's) observer \<Rightarrow> ('d, 's) ProcessingNotificationSubscriber
    \<Rightarrow> exn + ('d, 's) ProcessingNotificationSubscriber" where
  "pns_undo mode observer sub =
     (if \<not> m_isUndoEnabled sub then Inl Runtime_Error
      else rbind (rfold (observer (undo_mode mode)) (rev (m_notificationBuffers sub)) (pns_Cache sub)) (\<lambda>cache.
        Inr (sub\<lparr>pns_Cache := cache, m_notificationBuffers := []\<rparr>)))"

definition pns_publish :: "NotifyMode \<Rightarrow> ('d, 's) validator \<Rightarrow> ('d, 's) observer \<Rightarrow> 'd Notification list
    \<Rightarrow> ('d, 's) ProcessingNotificationSubscriber \<Rightarrow> exn + ('d, 's) ProcessingNotificationSubscriber" where
  "pns_publish mode validator observer notifications = rfold (pns_notify mode validator observer) notifications"

subsection \<open>Batches of entities\<close>

fun process_entities :: "('d, 's) validator \<Rightarrow> ('d, 's) observer \<Rightarrow> ('e \<Rightarrow> 'd Notification list) \<Rightarrow> 'e list
    \<Rightarrow> ('d, 's) ProcessingNotificationSubscriber \<Rightarrow> exn + ResultCode \<times> 's" where
  "process_entities validator observer publisher [] sub = Inr (Result_Success, pns_Cache sub)"
| "process_entities validator observer publisher (entityInfo # entityInfos) sub =
     rbind (pns_publish Commit validator observer (publisher entityInfo) sub) (\<lambda>sub.
       if \<not> IsValidationResultSuccess (m_aggregateResult sub) then Inr (m_aggregateResult sub, pns_Cache sub)
       else process_entities validator observer publisher entityInfos sub)"

definition BatchEntityProcessor :: "('d, 's) validator \<Rightarrow> ('d, 's) observer \<Rightarrow> ('e \<Rightarrow> 'd Notification list) \<Rightarrow> 'e list \<Rightarrow> 's
    \<Rightarrow> exn + ResultCode \<times> 's" where
  "BatchEntityProcessor validator observer publisher entityInfos cache =
     (if entityInfos = [] then Inr (Result_Neutral, cache)
      else process_entities validator observer publisher entityInfos (new_ProcessingNotificationSubscriber cache))"

subsection \<open>Blocks\<close>

text \<open>Two observers of entities: one notifies at once, the other, which rollbacks use, stores the notifications and notifies in reverse order.\<close>

definition NotificationObserverAdapter_notify :: "('d, 's) observer \<Rightarrow> ('e \<Rightarrow> 'd Notification list) \<Rightarrow> NotifyMode \<Rightarrow> 'e \<Rightarrow> 's \<Rightarrow> exn + 's" where
  "NotificationObserverAdapter_notify observer publisher mode entityInfo =
     rfold (\<lambda>notification s. if \<not> IsSet (n_Type notification) Channel_Observer then Inr s else observer mode notification s)
       (publisher entityInfo)"

definition ReverseNotificationObserverAdapter_notify :: "('d, 's) observer \<Rightarrow> ('e \<Rightarrow> 'd Notification list) \<Rightarrow> NotifyMode \<Rightarrow> 'e \<Rightarrow> 's \<Rightarrow> exn + 's" where
  "ReverseNotificationObserverAdapter_notify observer publisher mode entityInfo =
     rfold (observer mode) (rev (filter (\<lambda>notification. IsSet (n_Type notification) Channel_Observer) (publisher entityInfo)))"

definition ObserveAll :: "(NotifyMode \<Rightarrow> 'e \<Rightarrow> 's \<Rightarrow> exn + 's) \<Rightarrow> NotifyMode \<Rightarrow> 'e list \<Rightarrow> 's \<Rightarrow> exn + 's" where
  "ObserveAll observer mode entityInfos = rfold (observer mode) entityInfos"

definition ExecuteBlock :: "(NotifyMode \<Rightarrow> 'e \<Rightarrow> 's \<Rightarrow> exn + 's) \<Rightarrow> 'e list \<Rightarrow> 's \<Rightarrow> exn + 's" where
  "ExecuteBlock observer entityInfos = ObserveAll observer Commit entityInfos"

definition RollbackBlock :: "(NotifyMode \<Rightarrow> 'e \<Rightarrow> 's \<Rightarrow> exn + 's) \<Rightarrow> ('s \<Rightarrow> exn + 's) \<Rightarrow> 'e list \<Rightarrow> 's \<Rightarrow> exn + 's" where
  "RollbackBlock observer commitRemovals entityInfos cache =
     rbind (ObserveAll observer Rollback (rev entityInfos) cache) commitRemovals"

subsection \<open>Observers that can be rolled back\<close>

lemma rfold_single: "rfold f [x] = f x"
proof
  show "rfold f [x] s = f x s" for s by (cases "f x s") simp_all
qed

text \<open>The notifications that were committed in order, each at a state that was ready for it.\<close>

fun committed :: "('d, 's) observer \<Rightarrow> ('d Notification \<Rightarrow> 's \<Rightarrow> bool) \<Rightarrow> 'd Notification list \<Rightarrow> 's \<Rightarrow> 's \<Rightarrow> bool" where
  "committed observe ready [] s s' \<longleftrightarrow> s' = s"
| "committed observe ready (n # ns) s s' \<longleftrightarrow> ready n s \<and> (\<exists>s1. observe Commit n s = Inr s1 \<and> committed observe ready ns s1 s')"

lemma committed_append:
  "committed observe ready (ns @ ms) s s' \<longleftrightarrow> (\<exists>s1. committed observe ready ns s s1 \<and> committed observe ready ms s1 s')"
  by (induction ns arbitrary: s) auto

text \<open>
  What the processing of blocks relies on. An observer keeps an invariant and does not throw at states that are ready for its
  notification, and then its rollback is defined at every state that looks like the committed one, and leads back to a state that
  looks like the one before.
\<close>

locale reversible_observer =
  fixes observe :: "('d, 's) observer"
    and ready :: "'d Notification \<Rightarrow> 's \<Rightarrow> bool"
    and inv :: "'s \<Rightarrow> bool"
    and view :: "'s \<Rightarrow> 'v"
  assumes commits: "inv s \<Longrightarrow> ready n s \<Longrightarrow> \<exists>s'. observe Commit n s = Inr s' \<and> inv s'"
    and rolls_back: "inv s \<Longrightarrow> ready n s \<Longrightarrow> observe Commit n s = Inr s' \<Longrightarrow> inv u \<Longrightarrow> view u = view s'
      \<Longrightarrow> \<exists>t. observe Rollback n u = Inr t \<and> inv t \<and> view t = view s"
begin

lemma committed_inv: "committed observe ready ns s s' \<Longrightarrow> inv s \<Longrightarrow> inv s'"
  by (induction ns arbitrary: s) (use commits in \<open>fastforce+\<close>)

lemma unwinds:
  assumes "committed observe ready ns s s'" "inv s" "inv u" "view u = view s'"
  shows "\<exists>t. rfold (observe Rollback) (rev ns) u = Inr t \<and> inv t \<and> view t = view s"
  using assms
proof (induction ns arbitrary: s)
  case (Cons n ns)
  then obtain s1 where s1: "ready n s" "observe Commit n s = Inr s1" "committed observe ready ns s1 s'" by auto
  with commits Cons.prems(2) have "inv s1" by fastforce
  with Cons.IH [OF s1(3)] Cons.prems obtain t where t: "rfold (observe Rollback) (rev ns) u = Inr t" "inv t" "view t = view s1" by blast
  from rolls_back [OF Cons.prems(2) s1(1,2) t(2,3)] t(1) show ?case by (auto simp: rfold_append)
qed simp

end

text \<open>
  Validators that make states ready. Not every notification can be processed: the clients may have to rely on what is known of the notifications,
  for example that the accounts exist.
\<close>

abbreviation is_observed :: "'d Notification \<Rightarrow> bool" where
  "is_observed n \<equiv> IsSet (n_Type n) Channel_Observer"

locale validated_observer = reversible_observer observe ready inv view
  for observe :: "('d, 's) observer" and ready inv and view :: "'s \<Rightarrow> 'v" +
  fixes validate :: "('d, 's) validator" and expected :: "'d Notification \<Rightarrow> bool"
  assumes expected_size: "expected n \<Longrightarrow> sizeof_Notification \<le> n_Size n"
    and validated: "inv s \<Longrightarrow> expected n \<Longrightarrow> is_observed n
      \<Longrightarrow> (IsSet (n_Type n) Channel_Validator \<Longrightarrow> IsValidationResultSuccess (validate n s)) \<Longrightarrow> ready n s"
begin

lemma notify_failed:
  "expected n \<Longrightarrow> \<not> IsValidationResultSuccess (m_aggregateResult sub) \<Longrightarrow> pns_notify Commit validate observe n sub = Inr sub"
  using expected_size by (simp add: pns_notify_def not_less)

lemma notify_success:
  assumes "inv (pns_Cache sub)" "expected n" "IsValidationResultSuccess (m_aggregateResult sub)"
  shows "\<exists>sub'. pns_notify Commit validate observe n sub = Inr sub' \<and> m_isUndoEnabled sub' = m_isUndoEnabled sub
    \<and> (if IsValidationResultSuccess (m_aggregateResult sub')
       then committed observe ready (filter is_observed [n]) (pns_Cache sub) (pns_Cache sub')
         \<and> m_notificationBuffers sub' = m_notificationBuffers sub @ (if m_isUndoEnabled sub then filter is_observed [n] else [])
       else pns_Cache sub' = pns_Cache sub \<and> m_notificationBuffers sub' = m_notificationBuffers sub)"
proof -
  let ?sub = "pns_validate validate n sub"
  have keep: "pns_Cache ?sub = pns_Cache sub" "m_notificationBuffers ?sub = m_notificationBuffers sub" "m_isUndoEnabled ?sub = m_isUndoEnabled sub"
    by (simp_all add: pns_validate_def)
  have size: "\<not> n_Size n < sizeof_Notification" using expected_size [OF assms(2)] by simp
  show ?thesis
  proof (cases "IsValidationResultSuccess (m_aggregateResult ?sub) \<and> is_observed n")
    case False
    then show ?thesis using assms(3) size keep by (auto simp: pns_notify_def pns_observe_def Let_def)
  next
    case True
    have "IsValidationResultSuccess (validate n (pns_Cache sub))" if "IsSet (n_Type n) Channel_Validator"
      using True assms(3) that by (auto simp: pns_validate_def AggregateValidationResult_def IsValidationResultSuccess_def split: if_splits)
    with validated [OF assms(1,2)] True have ready: "ready n (pns_Cache sub)" by blast
    with commits [OF assms(1)] obtain s' where "observe Commit n (pns_Cache sub) = Inr s'" by blast
    with True ready show ?thesis using assms(3) size keep
      by (auto simp: pns_notify_def pns_observe_def undo_notify_def Let_def)
  qed
qed

lemma publish_steps:
  assumes "inv (pns_Cache sub)" "\<forall>n\<in>set ns. expected n" "IsValidationResultSuccess (m_aggregateResult sub)"
  shows "\<exists>sub' ps qs. pns_publish Commit validate observe ns sub = Inr sub' \<and> m_isUndoEnabled sub' = m_isUndoEnabled sub \<and> ns = ps @ qs
    \<and> committed observe ready (filter is_observed ps) (pns_Cache sub) (pns_Cache sub')
    \<and> m_notificationBuffers sub' = m_notificationBuffers sub @ (if m_isUndoEnabled sub then filter is_observed ps else [])
    \<and> (IsValidationResultSuccess (m_aggregateResult sub') \<longrightarrow> qs = [])"
  using assms
proof (induction ns arbitrary: sub)
  case Nil
  then show ?case by (simp add: pns_publish_def)
next
  case (Cons n ns)
  from notify_success [OF Cons.prems(1) _ Cons.prems(3), of n] Cons.prems(2)
  obtain sub1 where sub1: "pns_notify Commit validate observe n sub = Inr sub1" "m_isUndoEnabled sub1 = m_isUndoEnabled sub"
      "if IsValidationResultSuccess (m_aggregateResult sub1)
       then committed observe ready (filter is_observed [n]) (pns_Cache sub) (pns_Cache sub1)
         \<and> m_notificationBuffers sub1 = m_notificationBuffers sub @ (if m_isUndoEnabled sub then filter is_observed [n] else [])
       else pns_Cache sub1 = pns_Cache sub \<and> m_notificationBuffers sub1 = m_notificationBuffers sub" by auto
  have step: "pns_publish Commit validate observe (n # ns) sub = pns_publish Commit validate observe ns sub1"
    by (simp add: pns_publish_def sub1(1))
  show ?case
  proof (cases "IsValidationResultSuccess (m_aggregateResult sub1)")
    case True
    then have c: "committed observe ready (filter is_observed [n]) (pns_Cache sub) (pns_Cache sub1)"
        "m_notificationBuffers sub1 = m_notificationBuffers sub @ (if m_isUndoEnabled sub then filter is_observed [n] else [])"
      using sub1(3) by simp_all
    from Cons.IH [OF committed_inv [OF c(1) Cons.prems(1)] _ True] Cons.prems(2)
    obtain sub' ps qs where s: "pns_publish Commit validate observe ns sub1 = Inr sub'" "m_isUndoEnabled sub' = m_isUndoEnabled sub1" "ns = ps @ qs"
        "committed observe ready (filter is_observed ps) (pns_Cache sub1) (pns_Cache sub')"
        "m_notificationBuffers sub' = m_notificationBuffers sub1 @ (if m_isUndoEnabled sub1 then filter is_observed ps else [])"
        "IsValidationResultSuccess (m_aggregateResult sub') \<longrightarrow> qs = []" by auto
    have "committed observe ready (filter is_observed [n] @ filter is_observed ps) (pns_Cache sub) (pns_Cache sub')"
      unfolding committed_append using c(1) s(4) by blast
    then have "committed observe ready (filter is_observed (n # ps)) (pns_Cache sub) (pns_Cache sub')" by (simp split: if_splits)
    then show ?thesis unfolding step using s c(2) sub1(2) by (intro exI [of _ sub'] exI [of _ "n # ps"] exI [of _ qs]) auto
  next
    case False
    have "pns_publish Commit validate observe ns sub1 = Inr sub1"
      using Cons.prems(2) False by (induction ns) (auto simp: pns_publish_def notify_failed)
    then show ?thesis unfolding step using sub1 False by (intro exI [of _ sub1] exI [of _ "[]"] exI [of _ "n # ns"]) auto
  qed
qed

text \<open>Whether or not the notifications are accepted, undoing them leads back.\<close>

lemma undo_restores:
  assumes "inv s" "\<forall>n\<in>set ns. expected n"
  shows "\<exists>sub sub'. pns_publish Commit validate observe ns (pns_enableUndo (new_ProcessingNotificationSubscriber s)) = Inr sub
    \<and> inv (pns_Cache sub)
    \<and> pns_undo Commit observe sub = Inr sub' \<and> m_notificationBuffers sub' = [] \<and> inv (pns_Cache sub') \<and> view (pns_Cache sub') = view s"
proof -
  let ?sub = "pns_enableUndo (new_ProcessingNotificationSubscriber s) :: ('d, 's) ProcessingNotificationSubscriber"
  have new: "pns_Cache ?sub = s" "m_isUndoEnabled ?sub" "m_notificationBuffers ?sub = []" "IsValidationResultSuccess (m_aggregateResult ?sub)"
    by (simp_all add: pns_enableUndo_def new_ProcessingNotificationSubscriber_def IsValidationResultSuccess_def GetSeverity_def Result_Success_def)
  have inv0: "inv (pns_Cache ?sub)" using assms(1) new(1) by simp
  from publish_steps [OF inv0 assms(2) new(4)] obtain sub ps where sub: "pns_publish Commit validate observe ns ?sub = Inr sub" "m_isUndoEnabled sub"
      "committed observe ready (filter is_observed ps) s (pns_Cache sub)" "m_notificationBuffers sub = filter is_observed ps"
    by (auto simp: new(1-3))
  note inv = committed_inv [OF sub(3) assms(1)]
  from unwinds [OF sub(3) assms(1) inv refl]
  show ?thesis using sub(1,2,4) inv by (auto simp: pns_undo_def undo_mode_def)
qed

text \<open>A block that was accepted, rolled back by the reversing observer.\<close>

lemma process_steps:
  assumes "inv (pns_Cache sub)" "\<forall>e\<in>set es. \<forall>n\<in>set (publisher e). expected n" "IsValidationResultSuccess (m_aggregateResult sub)"
  shows "\<exists>r s' ps qs. process_entities validate observe publisher es sub = Inr (r, s') \<and> inv s' \<and> concat (map publisher es) = ps @ qs
    \<and> committed observe ready (filter is_observed ps) (pns_Cache sub) s' \<and> (IsValidationResultSuccess r \<longrightarrow> qs = [])"
  using assms
proof (induction es arbitrary: sub)
  case Nil
  then show ?case by simp
next
  case (Cons e es)
  have "\<forall>n\<in>set (publisher e). expected n" using Cons.prems(2) by simp
  from publish_steps [OF Cons.prems(1) this Cons.prems(3)]
  obtain sub1 ps qs where s: "pns_publish Commit validate observe (publisher e) sub = Inr sub1" "publisher e = ps @ qs"
      "committed observe ready (filter is_observed ps) (pns_Cache sub) (pns_Cache sub1)"
      "IsValidationResultSuccess (m_aggregateResult sub1) \<longrightarrow> qs = []" by blast
  note inv = committed_inv [OF s(3) Cons.prems(1)]
  show ?case
  proof (cases "IsValidationResultSuccess (m_aggregateResult sub1)")
    case True
    with Cons.IH [OF inv _ True] Cons.prems(2) obtain r s' ps' qs' where
        t: "process_entities validate observe publisher es sub1 = Inr (r, s')" "inv s'" "concat (map publisher es) = ps' @ qs'"
        "committed observe ready (filter is_observed ps') (pns_Cache sub1) s'" "IsValidationResultSuccess r \<longrightarrow> qs' = []" by auto
    have "committed observe ready (filter is_observed (publisher e @ ps')) (pns_Cache sub) s'"
      using s(2-4) True t(4) by (auto simp: committed_append)
    with s t True show ?thesis by (intro exI [of _ r] exI [of _ s'] exI [of _ "publisher e @ ps'"] exI [of _ qs']) auto
  next
    case False
    with s inv show ?thesis
      by (intro exI [of _ "m_aggregateResult sub1"] exI [of _ "pns_Cache sub1"] exI [of _ ps] exI [of _ "qs @ concat (map publisher es)"]) auto
  qed
qed

lemma rollback_entities:
  assumes "committed observe ready (filter is_observed (concat (map publisher es))) s s'" "inv s" "inv u" "view u = view s'"
  shows "\<exists>t. ObserveAll (ReverseNotificationObserverAdapter_notify observe publisher) Rollback (rev es) u = Inr t \<and> inv t \<and> view t = view s"
proof -
  have eq: "ObserveAll (ReverseNotificationObserverAdapter_notify observe publisher) Rollback (rev es) u
      = rfold (observe Rollback) (rev (filter is_observed (concat (map publisher es)))) u"
    by (induction es arbitrary: u)
       (simp_all add: ObserveAll_def rfold_append rfold_single rev_filter ReverseNotificationObserverAdapter_notify_def)
  show ?thesis unfolding eq by (rule unwinds [OF assms])
qed

lemma block_rollback_restores:
  assumes "inv s" "\<forall>e\<in>set es. \<forall>n\<in>set (publisher e). expected n"
  shows "\<exists>r s'. BatchEntityProcessor validate observe publisher es s = Inr (r, s') \<and> inv s'
    \<and> (IsValidationResultSuccess r \<longrightarrow> (\<exists>t. inv t \<and> view t = view s
         \<and> RollbackBlock (ReverseNotificationObserverAdapter_notify observe publisher) commitRemovals es s' = commitRemovals t))"
proof (cases "es = []")
  case True
  then show ?thesis using assms(1) by (auto simp: BatchEntityProcessor_def RollbackBlock_def ObserveAll_def)
next
  case False
  let ?sub = "new_ProcessingNotificationSubscriber s :: ('d, 's) ProcessingNotificationSubscriber"
  have new: "pns_Cache ?sub = s" "IsValidationResultSuccess (m_aggregateResult ?sub)"
    by (simp_all add: new_ProcessingNotificationSubscriber_def IsValidationResultSuccess_def GetSeverity_def Result_Success_def)
  have inv0: "inv (pns_Cache ?sub)" using assms(1) new(1) by simp
  from process_steps [OF inv0 assms(2) new(2)] obtain r s' ps qs where
      p: "process_entities validate observe publisher es ?sub = Inr (r, s')" "inv s'" "concat (map publisher es) = ps @ qs"
      "committed observe ready (filter is_observed ps) s s'" "IsValidationResultSuccess r \<longrightarrow> qs = []"
    by (auto simp: new(1))
  have "\<exists>t. inv t \<and> view t = view s
       \<and> RollbackBlock (ReverseNotificationObserverAdapter_notify observe publisher) commitRemovals es s' = commitRemovals t"
    if "IsValidationResultSuccess r"
    using rollback_entities [of publisher es s s' s'] p that assms(1) by (auto simp: RollbackBlock_def)
  with p(1,2) False show ?thesis by (auto simp: BatchEntityProcessor_def)
qed

end

subsection \<open>Single notifications\<close>

lemma aggregate_success:
  "IsValidationResultSuccess (aggregate_validate (\<lambda>_. False) vs agg n s) \<longleftrightarrow> IsValidationResultSuccess agg \<and> (\<forall>v\<in>set vs. IsValidationResultSuccess (v n s))"
proof (induction vs arbitrary: agg)
  case (Cons v vs)
  have zero: "\<not> x < (0 :: uint8)" for x by simp
  show ?case
  proof (cases "IsValidationResultFailure (v n s)")
    case True
    then show ?thesis by (auto simp: IsValidationResultFailure_def IsValidationResultSuccess_def Let_def)
  next
    case False
    then have "IsValidationResultSuccess (AggregateValidationResult agg (v n s)) \<longleftrightarrow> IsValidationResultSuccess agg \<and> IsValidationResultSuccess (v n s)"
      using zero by (auto simp: AggregateValidationResult_def IsValidationResultSuccess_def not_le)
    then show ?thesis using Cons.IH False by (auto simp: Let_def)
  qed
qed simp

lemma AggregateValidator_success:
  "IsValidationResultSuccess (AggregateValidator (\<lambda>_. False) vs n s) \<longleftrightarrow> (\<forall>v\<in>set vs. IsValidationResultSuccess (v n s))"
  unfolding AggregateValidator_def aggregate_success by (simp add: IsValidationResultSuccess_def GetSeverity_def Result_Success_def)

text \<open>One notification, when the results so far are successes.\<close>

lemma aggregate_of_success:
  "IsValidationResultSuccess a \<Longrightarrow> IsValidationResultSuccess (AggregateValidationResult a r) \<longleftrightarrow> IsValidationResultSuccess r"
  "IsValidationResultSuccess a \<Longrightarrow> IsValidationResultSuccess r \<Longrightarrow> AggregateValidationResult a r = a"
  by (auto simp: AggregateValidationResult_def IsValidationResultSuccess_def)

lemma notify_rejected:
  assumes "sizeof_Notification \<le> n_Size n" "IsValidationResultSuccess (m_aggregateResult sub)" "IsSet (n_Type n) Channel_Validator"
    "\<not> IsValidationResultSuccess (validate n (pns_Cache sub))"
  shows "\<exists>sub'. pns_notify mode validate observe n sub = Inr sub' \<and> \<not> IsValidationResultSuccess (m_aggregateResult sub')"
  using assms by (auto simp: pns_notify_def pns_validate_def aggregate_of_success(1) not_less)

lemma notify_only_validated:
  assumes "sizeof_Notification \<le> n_Size n" "IsValidationResultSuccess (m_aggregateResult sub)" "IsSet (n_Type n) Channel_Validator" "\<not> is_observed n"
    "IsValidationResultSuccess (validate n (pns_Cache sub))"
  shows "pns_notify mode validate observe n sub = Inr sub"
  using assms by (simp add: pns_notify_def pns_validate_def pns_observe_def aggregate_of_success not_less)

lemma notify_observed:
  assumes "sizeof_Notification \<le> n_Size n" "IsValidationResultSuccess (m_aggregateResult sub)" "IsSet (n_Type n) Channel_Validator" "is_observed n"
    "IsValidationResultSuccess (validate n (pns_Cache sub))" "observe mode n (pns_Cache sub) = Inr s'" "m_isUndoEnabled sub"
  shows "pns_notify mode validate observe n sub = Inr (sub\<lparr>pns_Cache := s', m_notificationBuffers := m_notificationBuffers sub @ [n]\<rparr>)"
  using assms by (simp add: pns_notify_def pns_validate_def pns_observe_def undo_notify_def aggregate_of_success not_less Let_def)

lemma publish_rejected:
  assumes "\<forall>n\<in>set ns. sizeof_Notification \<le> n_Size n" "\<not> IsValidationResultSuccess (m_aggregateResult sub)"
  shows "pns_publish mode validate observe ns sub = Inr sub"
  using assms by (induction ns) (auto simp: pns_publish_def pns_notify_def not_less)

lemma publish_only_validated:
  assumes "\<forall>n\<in>set ns. sizeof_Notification \<le> n_Size n \<and> IsSet (n_Type n) Channel_Validator \<and> \<not> is_observed n" "IsValidationResultSuccess (m_aggregateResult sub)"
  shows "if \<forall>n\<in>set ns. IsValidationResultSuccess (validate n (pns_Cache sub)) then pns_publish mode validate observe ns sub = Inr sub
    else \<exists>sub'. pns_publish mode validate observe ns sub = Inr sub' \<and> \<not> IsValidationResultSuccess (m_aggregateResult sub')"
  using assms(1)
proof (induction ns)
  case Nil
  then show ?case by (simp add: pns_publish_def)
next
  case (Cons n ns)
  show ?case
  proof (cases "IsValidationResultSuccess (validate n (pns_Cache sub))")
    case True
    then have "pns_notify mode validate observe n sub = Inr sub" using notify_only_validated assms(2) Cons.prems by auto
    then show ?thesis using Cons True by (auto simp: pns_publish_def split: if_splits)
  next
    case False
    have n: "sizeof_Notification \<le> n_Size n" "IsSet (n_Type n) Channel_Validator" using Cons.prems by auto
    obtain sub' where "pns_notify mode validate observe n sub = Inr sub'" "\<not> IsValidationResultSuccess (m_aggregateResult sub')"
      using notify_rejected [where validate = validate, OF n(1) assms(2) n(2) False] by blast
    moreover have "pns_publish mode validate observe ns sub' = Inr sub'" by (rule publish_rejected) (use calculation(2) Cons.prems in auto)
    ultimately show ?thesis using False by (auto simp: pns_publish_def)
  qed
qed

end
