(* ===== verification/UtCache.thy ===== *)
theory UtCache
  imports Processing
begin

section \<open>Unconfirmed transactions (catapult/cache\_tx and chain/UtUpdater)\<close>

text \<open>
  Unconfirmed transactions wait in a cache that keeps them in the order of their arrival, bounded in memory, with the memory that each
  signer uses. The updater applies them to an unconfirmed copy of the state, drops those that are not valid there, and applies all again when a block
  has changed the confirmed state. The theory models the cache, its view, and the updater on top of the processing of notifications.

  The set of transaction data, ordered by id, is a map from ids. An unordered map is a sorted map: nothing here iterates over one. Of a transaction only the fields that
  this code reads are named; \<open>tx_Payload\<close> is the rest, which the publisher uses. Locks are not part of the model: an updater call is one atomic step, as the source
  holds the writer lock of the cache during the call.
\<close>

subsection \<open>Account weights\<close>

record AccountWeights =
  m_accountWeights :: "(Key, uint64) smap"
  m_totalWeight :: uint64

definition aw_new :: AccountWeights where
  "aw_new = \<lparr>m_accountWeights = smap_empty, m_totalWeight = 0\<rparr>"

definition aw_weight :: "AccountWeights \<Rightarrow> Key \<Rightarrow> uint64" where
  "aw_weight w key = (case smap_find (m_accountWeights w) key of None \<Rightarrow> 0 | Some weight \<Rightarrow> weight)"

definition aw_increment :: "Key \<Rightarrow> uint64 \<Rightarrow> AccountWeights \<Rightarrow> AccountWeights" where
  "aw_increment key delta w =
     (if 0 = delta then w
      else w\<lparr>m_accountWeights := smap_put key (aw_weight w key + delta) (m_accountWeights w), m_totalWeight := m_totalWeight w + delta\<rparr>)"

definition aw_decrement :: "Key \<Rightarrow> uint64 \<Rightarrow> AccountWeights \<Rightarrow> exn + AccountWeights" where
  "aw_decrement key delta w =
     (let weight = aw_weight w key
      in if weight < delta then Inl Runtime_Error
         else
           let weight = weight - delta;
               w = w\<lparr>m_accountWeights := smap_put key weight (m_accountWeights w), m_totalWeight := m_totalWeight w - delta\<rparr>
           in Inr (if 0 = weight then w\<lparr>m_accountWeights := smap_erase key (m_accountWeights w)\<rparr> else w))"

definition aw_reset :: "AccountWeights \<Rightarrow> AccountWeights" where
  "aw_reset w = w\<lparr>m_accountWeights := smap_empty, m_totalWeight := 0\<rparr>"

subsection \<open>The cache\<close>

record 'x Transaction =
  tx_Size :: uint32
  tx_SignerPublicKey :: Key
  tx_Deadline :: uint64
  tx_MaxFee :: Amount
  tx_Payload :: 'x

record 'x TransactionInfo =
  pEntity :: "'x Transaction"
  EntityHash :: Hash256

definition CalculateTransactionFee :: "uint32 \<Rightarrow> 'x Transaction \<Rightarrow> Amount" where
  "CalculateTransactionFee feeMultiplier transaction = ucast feeMultiplier * ucast (tx_Size transaction)"

record 'x MemoryUtCache =
  muc_MaxResponseSize :: uint64
  muc_MaxCacheSize :: uint64
  m_idSequence :: size_t
  TransactionDataContainer :: "(size_t, 'x TransactionInfo) smap"
  CacheSize :: uint64
  IdLookup :: "(Hash256, size_t) smap"
  Weights :: AccountWeights

definition utc_new :: "uint64 \<Rightarrow> uint64 \<Rightarrow> 'x MemoryUtCache" where
  "utc_new maxResponseSize maxCacheSize = \<lparr>muc_MaxResponseSize = maxResponseSize, muc_MaxCacheSize = maxCacheSize, m_idSequence = 0,
     TransactionDataContainer = smap_empty, CacheSize = 0, IdLookup = smap_empty, Weights = aw_new\<rparr>"

definition utc_size :: "'x MemoryUtCache \<Rightarrow> nat" where
  "utc_size c = smap_size (TransactionDataContainer c)"

definition utc_contains :: "'x MemoryUtCache \<Rightarrow> Hash256 \<Rightarrow> bool" where
  "utc_contains c hash = smap_contains (IdLookup c) hash"

definition utc_memorySizeForAccount :: "'x MemoryUtCache \<Rightarrow> Key \<Rightarrow> uint64" where
  "utc_memorySizeForAccount c key = aw_weight (Weights c) key"

definition utc_add :: "'x TransactionInfo \<Rightarrow> 'x MemoryUtCache \<Rightarrow> bool \<times> 'x MemoryUtCache" where
  "utc_add transactionInfo c =
     (let transactionSize = ucast (tx_Size (pEntity transactionInfo))
      in if muc_MaxCacheSize c - CacheSize c < transactionSize then (False, c)
         else if smap_contains (IdLookup c) (EntityHash transactionInfo) then (False, c)
         else
           let idSequence = m_idSequence c + 1
           in (True, c\<lparr>m_idSequence := idSequence,
                       IdLookup := smap_insert (EntityHash transactionInfo) idSequence (IdLookup c),
                       TransactionDataContainer := smap_insert idSequence transactionInfo (TransactionDataContainer c),
                       Weights := aw_increment (tx_SignerPublicKey (pEntity transactionInfo)) transactionSize (Weights c),
                       CacheSize := CacheSize c + transactionSize\<rparr>))"

text \<open>The default constructed info that is returned for an unknown hash is \<open>None\<close>; an id without data would be dereferenced.\<close>

definition utc_remove :: "Hash256 \<Rightarrow> 'x MemoryUtCache \<Rightarrow> exn + 'x TransactionInfo option \<times> 'x MemoryUtCache" where
  "utc_remove hash c =
     (case smap_find (IdLookup c) hash of
        None \<Rightarrow> Inr (None, c)
      | Some i \<Rightarrow>
          (case smap_find (TransactionDataContainer c) i of
             None \<Rightarrow> Inl Out_Of_Range
           | Some erasedInfo \<Rightarrow>
               let transactionSize = ucast (tx_Size (pEntity erasedInfo))
               in rbind (aw_decrement (tx_SignerPublicKey (pEntity erasedInfo)) transactionSize (Weights c)) (\<lambda>weights.
                    Inr (Some erasedInfo, c\<lparr>Weights := weights, CacheSize := CacheSize c - transactionSize,
                      TransactionDataContainer := smap_erase i (TransactionDataContainer c), IdLookup := smap_erase hash (IdLookup c)\<rparr>))))"

definition utc_removeAll :: "'x MemoryUtCache \<Rightarrow> 'x TransactionInfo list \<times> 'x MemoryUtCache" where
  "utc_removeAll c = (map snd (TransactionDataContainer c),
     c\<lparr>CacheSize := 0, TransactionDataContainer := smap_empty, IdLookup := smap_empty, Weights := aw_reset (Weights c)\<rparr>)"

subsection \<open>The view\<close>

text \<open>The first four bytes of a hash in memory.\<close>

definition ToShortHash :: "Hash256 \<Rightarrow> uint32" where
  "ToShortHash hash = foldr (\<lambda>b acc. push_bit 8 acc OR ucast b) (take 4 (array_bytes 32 hash)) 0"

definition utc_shortHashes :: "'x MemoryUtCache \<Rightarrow> uint32 list" where
  "utc_shortHashes c = map (\<lambda>p. ToShortHash (EntityHash (snd p))) (TransactionDataContainer c)"

fun unknown_loop :: "uint64 \<Rightarrow> uint64 \<Rightarrow> uint32 \<Rightarrow> uint32 set \<Rightarrow> 'x TransactionInfo list \<Rightarrow> uint64 \<Rightarrow> 'x Transaction list \<Rightarrow> 'x Transaction list" where
  "unknown_loop maxResponseSize minDeadline minFeeMultiplier knownShortHashes [] totalSize transactions = transactions"
| "unknown_loop maxResponseSize minDeadline minFeeMultiplier knownShortHashes (data # rest) totalSize transactions =
     (if tx_Deadline (pEntity data) < minDeadline
      then unknown_loop maxResponseSize minDeadline minFeeMultiplier knownShortHashes rest totalSize transactions
      else if tx_MaxFee (pEntity data) < CalculateTransactionFee minFeeMultiplier (pEntity data)
      then unknown_loop maxResponseSize minDeadline minFeeMultiplier knownShortHashes rest totalSize transactions
      else if ToShortHash (EntityHash data) \<notin> knownShortHashes then
        let totalSize = totalSize + ucast (tx_Size (pEntity data))
        in if totalSize > maxResponseSize then transactions
           else unknown_loop maxResponseSize minDeadline minFeeMultiplier knownShortHashes rest totalSize (transactions @ [pEntity data])
      else unknown_loop maxResponseSize minDeadline minFeeMultiplier knownShortHashes rest totalSize transactions)"

definition utc_unknownTransactions :: "uint64 \<Rightarrow> uint32 \<Rightarrow> uint32 set \<Rightarrow> 'x MemoryUtCache \<Rightarrow> 'x Transaction list" where
  "utc_unknownTransactions minDeadline minFeeMultiplier knownShortHashes c =
     unknown_loop (muc_MaxResponseSize c) minDeadline minFeeMultiplier knownShortHashes (map snd (TransactionDataContainer c)) 0 []"

text \<open>The consumer of \<open>forEach\<close> that collects the first transactions, with the sum of the counts of their embedded transactions wrapping at 32 bits.\<close>

fun first_infos_loop :: "uint32 \<Rightarrow> ('x Transaction \<Rightarrow> uint32) \<Rightarrow> ('x TransactionInfo \<Rightarrow> bool) \<Rightarrow> 'x TransactionInfo list \<Rightarrow> uint32
    \<Rightarrow> 'x TransactionInfo list \<Rightarrow> 'x TransactionInfo list" where
  "first_infos_loop transactionLimit countRetriever accept [] totalTransactionsCount infos = infos"
| "first_infos_loop transactionLimit countRetriever accept (transactionInfo # rest) totalTransactionsCount infos =
     (let currentTransactionsCount = countRetriever (pEntity transactionInfo)
      in if totalTransactionsCount + currentTransactionsCount > transactionLimit then infos
         else if accept transactionInfo
         then first_infos_loop transactionLimit countRetriever accept rest (totalTransactionsCount + currentTransactionsCount) (infos @ [transactionInfo])
         else first_infos_loop transactionLimit countRetriever accept rest totalTransactionsCount infos)"

definition GetFirstTransactionInfoPointers :: "'x MemoryUtCache \<Rightarrow> uint32 \<Rightarrow> ('x Transaction \<Rightarrow> uint32) \<Rightarrow> ('x TransactionInfo \<Rightarrow> bool) \<Rightarrow> 'x TransactionInfo list" where
  "GetFirstTransactionInfoPointers c transactionLimit countRetriever accept =
     (if 0 \<noteq> transactionLimit then first_infos_loop transactionLimit countRetriever accept (map snd (TransactionDataContainer c)) 0 [] else [])"

subsection \<open>The updater\<close>

datatype UpdateType = Update_New | Update_Invalid | Update_Neutral

datatype TransactionSource = Source_New | Source_Reverted | Source_Existing

record ('x, 's) ApplyState =
  Modifier :: "'x MemoryUtCache"
  UnconfirmedCatapultCache :: 's
  failedTransactions :: "(Hash256 \<times> ResultCode) list"

record ('x, 'd, 's) ExecutionConfiguration =
  ec_validator :: "('d, 's) validator"
  ec_observer :: "('d, 's) observer"
  ec_publisher :: "'x TransactionInfo \<Rightarrow> 'd Notification list"
  ec_minFeeMultiplier :: uint32
  ec_throttle :: "'x TransactionInfo \<Rightarrow> TransactionSource \<Rightarrow> 's \<Rightarrow> 'x MemoryUtCache \<Rightarrow> bool"

definition Failure_Chain_Unconfirmed_Cache_Too_Full :: ResultCode where
  "Failure_Chain_Unconfirmed_Cache_Too_Full = MakeValidationResult 2 0xFF 7 0"

definition apply_info :: "('x, 'd, 's) ExecutionConfiguration \<Rightarrow> TransactionSource \<Rightarrow> ('x TransactionInfo \<Rightarrow> bool) \<Rightarrow> 'x TransactionInfo
    \<Rightarrow> ('x, 's) ApplyState \<Rightarrow> exn + UpdateType \<times> ('x, 's) ApplyState" where
  "apply_info config source accept utInfo s =
     (if \<not> accept utInfo then Inr (Update_Neutral, s)
      else if tx_MaxFee (pEntity utInfo) < CalculateTransactionFee (ec_minFeeMultiplier config) (pEntity utInfo) then Inr (Update_Neutral, s)
      else if ec_throttle config utInfo source (UnconfirmedCatapultCache s) (Modifier s) then
        Inr (Update_Neutral, s\<lparr>failedTransactions := failedTransactions s @ [(EntityHash utInfo, Failure_Chain_Unconfirmed_Cache_Too_Full)]\<rparr>)
      else
        let (added, modifier) = utc_add utInfo (Modifier s)
        in if \<not> added then Inr (Update_Neutral, s\<lparr>Modifier := modifier\<rparr>)
           else
             let s = s\<lparr>Modifier := modifier\<rparr>;
                 sub = pns_enableUndo (new_ProcessingNotificationSubscriber (UnconfirmedCatapultCache s))
             in rbind (pns_publish Commit (ec_validator config) (ec_observer config) (ec_publisher config utInfo) sub) (\<lambda>sub.
                if \<not> IsValidationResultSuccess (m_aggregateResult sub) then
                  let s = (if IsValidationResultFailure (m_aggregateResult sub)
                           then s\<lparr>failedTransactions := failedTransactions s @ [(EntityHash utInfo, m_aggregateResult sub)]\<rparr> else s)
                  in rbind (pns_undo Commit (ec_observer config) sub) (\<lambda>sub.
                     rbind (utc_remove (EntityHash utInfo) (Modifier s)) (\<lambda>(_, modifier).
                     Inr (Update_Invalid, s\<lparr>Modifier := modifier, UnconfirmedCatapultCache := pns_Cache sub\<rparr>)))
                else Inr (Update_New, s\<lparr>UnconfirmedCatapultCache := pns_Cache sub\<rparr>)))"

fun ut_apply :: "('x, 'd, 's) ExecutionConfiguration \<Rightarrow> TransactionSource \<Rightarrow> ('x TransactionInfo \<Rightarrow> bool) \<Rightarrow> 'x TransactionInfo list
    \<Rightarrow> ('x, 's) ApplyState \<Rightarrow> exn + UpdateType list \<times> ('x, 's) ApplyState" where
  "ut_apply config source accept [] s = Inr ([], s)"
| "ut_apply config source accept (utInfo # utInfos) s =
     rbind (apply_info config source accept utInfo s) (\<lambda>(result, s).
     rbind (ut_apply config source accept utInfos s) (\<lambda>(results, s). Inr (result # results, s)))"

text \<open>
  The unconfirmed copy of the state is gone (\<open>None\<close>) when the confirmed state has changed since. The state that the updater is handed with a block update is a new
  copy of the confirmed state.
\<close>

definition ut_update :: "('x, 'd, 's) ExecutionConfiguration \<Rightarrow> 'x TransactionInfo list \<Rightarrow> 'x MemoryUtCache \<Rightarrow> 's option
    \<Rightarrow> exn + UpdateType list \<times> 'x MemoryUtCache \<times> 's option \<times> (Hash256 \<times> ResultCode) list" where
  "ut_update config utInfos c unconfirmed =
     (case unconfirmed of
        None \<Rightarrow> Inr (map (\<lambda>_. Update_Neutral) utInfos, fold (\<lambda>utInfo c. snd (utc_add utInfo c)) utInfos c, None, [])
      | Some s \<Rightarrow>
          rbind (ut_apply config Source_New (\<lambda>_. True) utInfos \<lparr>Modifier = c, UnconfirmedCatapultCache = s, failedTransactions = []\<rparr>) (\<lambda>(results, a).
            Inr (results, Modifier a, Some (UnconfirmedCatapultCache a), failedTransactions a)))"

definition ut_update_block :: "('x, 'd, 's) ExecutionConfiguration \<Rightarrow> Hash256 set \<Rightarrow> 'x TransactionInfo list \<Rightarrow> 's \<Rightarrow> 'x MemoryUtCache
    \<Rightarrow> exn + 'x MemoryUtCache \<times> 's \<times> (Hash256 \<times> ResultCode) list" where
  "ut_update_block config confirmedTransactionHashes utInfos rebased c =
     (let (originalTransactionInfos, c) = utc_removeAll c
      in rbind (ut_apply config Source_Reverted (\<lambda>_. True) utInfos \<lparr>Modifier = c, UnconfirmedCatapultCache = rebased, failedTransactions = []\<rparr>) (\<lambda>(_, a).
         rbind (ut_apply config Source_Existing (\<lambda>info. EntityHash info \<notin> confirmedTransactionHashes) originalTransactionInfos a) (\<lambda>(_, a).
           Inr (Modifier a, UnconfirmedCatapultCache a, failedTransactions a))))"

subsection \<open>The invariant of the cache\<close>

definition utc_list :: "'x MemoryUtCache \<Rightarrow> 'x TransactionInfo list" where
  "utc_list c = map snd (TransactionDataContainer c)"

definition info_size :: "'x TransactionInfo \<Rightarrow> nat" where
  "info_size info = unat (tx_Size (pEntity info))"

definition sizes :: "'x TransactionInfo list \<Rightarrow> nat" where
  "sizes infos = sum_list (map info_size infos)"

abbreviation signed_by :: "Key \<Rightarrow> 'x TransactionInfo \<Rightarrow> bool" where
  "signed_by key info \<equiv> tx_SignerPublicKey (pEntity info) = key"

definition aw_inv :: "'x TransactionInfo list \<Rightarrow> AccountWeights \<Rightarrow> bool" where
  "aw_inv infos w \<longleftrightarrow> smap_inv (m_accountWeights w) \<and> (\<forall>key. unat (aw_weight w key) = sizes (filter (signed_by key) infos))
     \<and> unat (m_totalWeight w) = sizes infos"

definition utc_inv :: "'x MemoryUtCache \<Rightarrow> bool" where
  "utc_inv c \<longleftrightarrow> smap_inv (TransactionDataContainer c) \<and> smap_inv (IdLookup c)
     \<and> (\<forall>p\<in>set (TransactionDataContainer c). fst p \<le> m_idSequence c)
     \<and> (\<forall>h i. smap_find (IdLookup c) h = Some i \<longleftrightarrow> (\<exists>info. smap_find (TransactionDataContainer c) i = Some info \<and> EntityHash info = h))
     \<and> unat (CacheSize c) = sizes (utc_list c) \<and> CacheSize c \<le> muc_MaxCacheSize c \<and> aw_inv (utc_list c) (Weights c)"

lemma sizes_simps [simp]: "sizes [] = 0" "sizes (x # xs) = info_size x + sizes xs" "sizes (xs @ ys) = sizes xs + sizes ys"
  by (simp_all add: sizes_def)

lemma sizes_filter_le: "sizes (filter P xs) \<le> sizes xs"
  by (induction xs) auto

lemma sizes_filter_split: "sizes (filter P xs) + sizes (filter (\<lambda>x. \<not> P x) xs) = sizes xs"
  by (induction xs) auto

lemma unat_info_size [simp]: "unat (ucast (tx_Size (pEntity info)) :: uint64) = info_size info"
proof -
  have "unat (tx_Size (pEntity info)) < 2 ^ 64" using unsigned_less [of "tx_Size (pEntity info)", where ?'a = nat] by simp
  then show ?thesis by (simp add: info_size_def unsigned_ucast_eq take_bit_nat_eq_self)
qed

lemma aw_new_inv: "aw_inv [] aw_new"
  by (simp add: aw_inv_def aw_new_def aw_weight_def)

lemma aw_increment_inv:
  assumes "aw_inv infos w" "sizes infos + info_size info < 2 ^ 64"
  shows "aw_inv (infos @ [info]) (aw_increment (tx_SignerPublicKey (pEntity info)) (ucast (tx_Size (pEntity info))) w)"
proof -
  let ?k = "tx_SignerPublicKey (pEntity info)" and ?d = "ucast (tx_Size (pEntity info)) :: uint64"
  have d: "unat ?d = info_size info" by simp
  have "unat (aw_weight w ?k) + unat ?d < 2 ^ 64" "unat (m_totalWeight w) + unat ?d < 2 ^ 64"
    using assms sizes_filter_le [of "signed_by ?k" infos] by (simp_all add: aw_inv_def)
  then have plus: "unat (aw_weight w ?k + ?d) = unat (aw_weight w ?k) + info_size info" "unat (m_totalWeight w + ?d) = unat (m_totalWeight w) + info_size info"
    by (simp_all add: unat_word_ariths)
  show ?thesis
  proof (cases "?d = 0")
    case True
    then have "info_size info = 0" using d by simp
    then show ?thesis using assms(1) True by (simp add: aw_increment_def aw_inv_def)
  next
    case False
    have w: "aw_weight (aw_increment ?k ?d w) key = (if key = ?k then aw_weight w ?k + ?d else aw_weight w key)" for key
      using False by (simp add: aw_increment_def aw_weight_def)
    then show ?thesis using assms(1) plus False by (auto simp: aw_inv_def aw_increment_def)
  qed
qed

lemma aw_decrement_inv:
  assumes "aw_inv infos w" "unat (aw_weight w key) = sizes (filter (signed_by key) rest) + unat d"
    "\<And>k. k \<noteq> key \<Longrightarrow> sizes (filter (signed_by k) rest) = sizes (filter (signed_by k) infos)" "sizes infos = sizes rest + unat d"
  shows "\<exists>w'. aw_decrement key d w = Inr w' \<and> aw_inv rest w'"
proof -
  have le: "d \<le> aw_weight w key" "d \<le> m_totalWeight w" using assms by (simp_all add: aw_inv_def word_le_nat_alt)
  have minus: "unat (aw_weight w key - d) = sizes (filter (signed_by key) rest)" "unat (m_totalWeight w - d) = sizes rest"
    using le assms by (simp_all add: aw_inv_def unat_sub)
  let ?w = "w\<lparr>m_accountWeights := smap_put key (aw_weight w key - d) (m_accountWeights w), m_totalWeight := m_totalWeight w - d\<rparr>"
  let ?w' = "if 0 = aw_weight w key - d then ?w\<lparr>m_accountWeights := smap_erase key (m_accountWeights ?w)\<rparr> else ?w"
  have "aw_decrement key d w = Inr ?w'" using le(1) by (simp add: aw_decrement_def Let_def not_less)
  moreover have "aw_weight ?w' k = (if k = key then aw_weight w key - d else aw_weight w k)" for k
    by (simp add: aw_weight_def)
  then have "aw_inv rest ?w'" using assms(1,3) minus by (auto simp: aw_inv_def)
  ultimately show ?thesis by blast
qed

lemma smap_insert_last:
  assumes "\<forall>p\<in>set m. fst p < k"
  shows "smap_insert k v m = m @ [(k, v)]"
proof -
  have "smap_put k v m = m @ [(k, v)]" using assms by (induction m) (auto split: prod.splits)
  moreover have "\<not> smap_contains m k" using assms by (fastforce simp: smap_contains_def smap_find_def map_of_eq_None_iff)
  ultimately show ?thesis by (simp add: smap_insert_def)
qed

lemma utc_new_inv: "utc_inv (utc_new maxResponseSize maxCacheSize)" "utc_list (utc_new maxResponseSize maxCacheSize) = []"
  by (simp_all add: utc_inv_def utc_new_def utc_list_def smap_empty_def aw_new_inv)

lemma utc_contains_iff: "utc_inv c \<Longrightarrow> utc_contains c h \<longleftrightarrow> h \<in> EntityHash ` set (utc_list c)"
proof -
  assume inv: "utc_inv c"
  have "utc_contains c h \<longleftrightarrow> (\<exists>i info. smap_find (TransactionDataContainer c) i = Some info \<and> EntityHash info = h)"
    using inv unfolding utc_inv_def utc_contains_def smap_contains_def by blast
  also have "\<dots> \<longleftrightarrow> (\<exists>i info. (i, info) \<in> set (TransactionDataContainer c) \<and> EntityHash info = h)"
    using inv smap_find_in_set [of "TransactionDataContainer c"] unfolding utc_inv_def by blast
  finally show ?thesis by (force simp: utc_list_def)
qed

lemma word_less_next:
  fixes x :: size_t
  assumes "x \<noteq> - 1"
  shows "x < x + 1"
proof -
  have "unat (x + 1) \<noteq> 0" using assms max_word_wrap [of x] by (auto simp: unat_eq_0)
  moreover have "unat (x + 1) = Suc (unat x) mod 2 ^ 64" by (simp add: unat_word_ariths)
  moreover have "unat x < 2 ^ 64" using unsigned_less [of x, where ?'a = nat] by simp
  ultimately have "unat (x + 1) = Suc (unat x)" by (cases "Suc (unat x) = 2 ^ 64") simp_all
  then show ?thesis by (simp add: word_less_nat_alt)
qed

lemma find_filter: "List.find P xs = (case filter P xs of [] \<Rightarrow> None | x # _ \<Rightarrow> Some x)"
  by (induction xs) auto

lemma filter_key: "distinct (map fst m) \<Longrightarrow> (k, v) \<in> set m \<Longrightarrow> filter (\<lambda>p. fst p = k) m = [(k, v)]"
proof (induction m)
  case (Cons p m)
  show ?case
  proof (cases "fst p = k")
    case True
    then have "filter (\<lambda>p. fst p = k) m = []" using Cons.prems(1) by (auto simp: filter_empty_conv image_iff)
    moreover have "p = (k, v)" using True Cons.prems by (force simp: image_iff)
    ultimately show ?thesis by simp
  next
    case False
    then show ?thesis using Cons by auto
  qed
qed simp

definition utc_fits :: "'x TransactionInfo \<Rightarrow> 'x MemoryUtCache \<Rightarrow> bool" where
  "utc_fits info c \<longleftrightarrow> sizes (utc_list c) + info_size info \<le> unat (muc_MaxCacheSize c)"

lemma utc_fits_iff:
  assumes "utc_inv c"
  shows "muc_MaxCacheSize c - CacheSize c < ucast (tx_Size (pEntity info)) \<longleftrightarrow> \<not> utc_fits info c"
proof -
  have "unat (muc_MaxCacheSize c - CacheSize c) = unat (muc_MaxCacheSize c) - sizes (utc_list c)" "sizes (utc_list c) \<le> unat (muc_MaxCacheSize c)"
    using assms by (simp_all add: utc_inv_def unat_sub word_le_nat_alt)
  then show ?thesis by (auto simp: utc_fits_def word_less_nat_alt)
qed

lemma utc_add_ok:
  assumes "utc_inv c" "m_idSequence c \<noteq> - 1"
  shows "\<exists>c'. utc_add info c = (utc_fits info c \<and> \<not> utc_contains c (EntityHash info), c') \<and> utc_inv c'
    \<and> utc_list c' = utc_list c @ (if utc_fits info c \<and> \<not> utc_contains c (EntityHash info) then [info] else [])
    \<and> muc_MaxCacheSize c' = muc_MaxCacheSize c \<and> m_idSequence c' \<in> {m_idSequence c, m_idSequence c + 1}"
proof (cases "utc_fits info c \<and> \<not> utc_contains c (EntityHash info)")
  case False
  then show ?thesis using assms(1) utc_fits_iff [OF assms(1), of info] by (auto simp: utc_add_def utc_contains_def Let_def)
next
  case True
  let ?s = "ucast (tx_Size (pEntity info)) :: uint64" and ?i = "m_idSequence c + 1" and ?T = "TransactionDataContainer c" and ?h = "EntityHash info"
  let ?c = "c\<lparr>m_idSequence := ?i, IdLookup := smap_insert ?h ?i (IdLookup c), TransactionDataContainer := smap_insert ?i info ?T,
      Weights := aw_increment (tx_SignerPublicKey (pEntity info)) ?s (Weights c), CacheSize := CacheSize c + ?s\<rparr>"
  note inv = assms(1) [unfolded utc_inv_def]
  have add: "utc_add info c = (True, ?c)"
    using True utc_fits_iff [OF assms(1), of info] by (simp add: utc_add_def utc_contains_def Let_def)
  have less: "m_idSequence c < ?i" by (rule word_less_next [OF assms(2)])
  have "fst p < ?i" if "p \<in> set ?T" for p using inv that less by (auto intro: le_less_trans)
  then have T: "smap_insert ?i info ?T = ?T @ [(?i, info)]" using smap_insert_last [of ?T ?i info] by blast
  have new: "smap_find ?T ?i = None"
  proof (rule ccontr)
    assume "smap_find ?T ?i \<noteq> None"
    then obtain x where "(?i, x) \<in> set ?T" using map_of_SomeD by (fastforce simp: smap_find_def)
    then show False using inv less by fastforce
  qed
  have newh: "smap_find (IdLookup c) ?h = None" using True by (simp add: utc_contains_def smap_contains_def)
  have list: "utc_list ?c = utc_list c @ [info]" by (simp add: utc_list_def T)
  have fits: "sizes (utc_list c) + info_size info \<le> unat (muc_MaxCacheSize c)" using True by (simp add: utc_fits_def)
  then have lt: "sizes (utc_list c) + info_size info < 2 ^ 64" using unsigned_less [of "muc_MaxCacheSize c", where ?'a = nat] by simp
  have size: "unat (CacheSize c + ?s) = sizes (utc_list c) + info_size info" using inv lt by (simp add: unat_word_ariths)
  have "utc_inv ?c" unfolding utc_inv_def list
  proof (intro conjI)
    show "smap_inv (TransactionDataContainer ?c)" "smap_inv (IdLookup ?c)" using inv by simp_all
    show "\<forall>p\<in>set (TransactionDataContainer ?c). fst p \<le> m_idSequence ?c" using inv less by (auto simp: T intro: order_trans)
    show "\<forall>h i. smap_find (IdLookup ?c) h = Some i \<longleftrightarrow> (\<exists>info. smap_find (TransactionDataContainer ?c) i = Some info \<and> EntityHash info = h)"
    proof (intro allI)
      fix h i
      have find: "smap_find (IdLookup ?c) h = (if h = ?h then Some ?i else smap_find (IdLookup c) h)"
          "smap_find (TransactionDataContainer ?c) i = (if i = ?i then Some info else smap_find ?T i)"
        using new newh by simp_all
      have old: "smap_find (IdLookup c) h = Some i \<longleftrightarrow> (\<exists>info. smap_find ?T i = Some info \<and> EntityHash info = h)" for h i using inv by blast
      show "smap_find (IdLookup ?c) h = Some i \<longleftrightarrow> (\<exists>info. smap_find (TransactionDataContainer ?c) i = Some info \<and> EntityHash info = h)"
        unfolding find using old [of h i] old [of ?h i] new newh by (auto split: if_splits)
    qed
    show "unat (CacheSize ?c) = sizes (utc_list c @ [info])" using size by simp
    show "CacheSize ?c \<le> muc_MaxCacheSize ?c" using size fits by (simp add: word_le_nat_alt)
    show "aw_inv (utc_list c @ [info]) (Weights ?c)" using aw_increment_inv [OF _ lt] inv by simp
  qed
  then show ?thesis using add list True by simp
qed

lemma utc_remove_ok:
  assumes "utc_inv c"
  shows "\<exists>r c'. utc_remove h c = Inr (r, c') \<and> utc_inv c' \<and> utc_list c' = filter (\<lambda>info. EntityHash info \<noteq> h) (utc_list c)
    \<and> r = List.find (\<lambda>info. EntityHash info = h) (utc_list c)
    \<and> muc_MaxCacheSize c' = muc_MaxCacheSize c \<and> m_idSequence c' = m_idSequence c"
proof (cases "smap_find (IdLookup c) h")
  case None
  then have "h \<notin> EntityHash ` set (utc_list c)" using utc_contains_iff [OF assms, of h] by (simp add: utc_contains_def smap_contains_def)
  then have "filter (\<lambda>info. EntityHash info \<noteq> h) (utc_list c) = utc_list c" "List.find (\<lambda>info. EntityHash info = h) (utc_list c) = None"
    by (auto simp: filter_id_conv find_None_iff)
  then show ?thesis using None assms by (simp add: utc_remove_def)
next
  case (Some i)
  note inv = assms [unfolded utc_inv_def]
  let ?T = "TransactionDataContainer c"
  have si: "smap_inv ?T" and lookup: "\<And>h i. smap_find (IdLookup c) h = Some i \<longleftrightarrow> (\<exists>info. smap_find ?T i = Some info \<and> EntityHash info = h)"
    using inv by simp_all
  obtain info where info: "smap_find ?T i = Some info" "EntityHash info = h" using lookup Some by blast
  have find_set: "smap_find ?T j = Some x \<longleftrightarrow> (j, x) \<in> set ?T" for j x by (rule smap_find_in_set [OF si])
  have same: "EntityHash (snd p) = h \<longleftrightarrow> fst p = i" if "p \<in> set ?T" for p
  proof -
    have p: "smap_find ?T (fst p) = Some (snd p)" using that find_set by simp
    show ?thesis
    proof
      assume "EntityHash (snd p) = h"
      then have "smap_find (IdLookup c) h = Some (fst p)" using lookup p by blast
      then show "fst p = i" using Some by simp
    next
      assume "fst p = i"
      then show "EntityHash (snd p) = h" using p info by simp
    qed
  qed
  have erase: "map snd (smap_erase i ?T) = filter (\<lambda>info. EntityHash info \<noteq> h) (utc_list c)"
  proof -
    have "smap_erase i ?T = filter (\<lambda>p. EntityHash (snd p) \<noteq> h) ?T" unfolding smap_erase_def by (rule filter_cong) (use same in auto)
    then show ?thesis by (simp add: utc_list_def filter_map comp_def)
  qed
  let ?rest = "filter (\<lambda>info. EntityHash info \<noteq> h) (utc_list c)" and ?k = "tx_SignerPublicKey (pEntity info)" and ?s = "ucast (tx_Size (pEntity info)) :: uint64"
  have d: "distinct (map fst ?T)" by (rule smap_inv_distinct [OF si])
  have only: "filter (\<lambda>info. EntityHash info = h) (utc_list c) = [info]"
  proof -
    have "filter (\<lambda>p. EntityHash (snd p) = h) ?T = filter (\<lambda>p. fst p = i) ?T" by (rule filter_cong) (use same in auto)
    also have "\<dots> = [(i, info)]" using filter_key [OF d] info(1) find_set by blast
    finally show ?thesis by (simp add: utc_list_def filter_map comp_def)
  qed
  have f: "List.find (\<lambda>info. EntityHash info = h) (utc_list c) = Some info" by (simp add: find_filter only)
  have split: "sizes (filter P (utc_list c)) = sizes (filter P ?rest) + sizes (filter P [info])" for P
    using sizes_filter_split [of "\<lambda>info. EntityHash info = h" "filter P (utc_list c)"] arg_cong [OF only, of "filter P"]
    by (simp add: conj_commute)
  from split [of "\<lambda>_. True"] have total: "sizes (utc_list c) = sizes ?rest + unat ?s" by simp
  obtain w where w: "aw_decrement ?k ?s (Weights c) = Inr w" "aw_inv ?rest w"
  proof -
    have "aw_inv (utc_list c) (Weights c)" using inv by simp
    moreover have "unat (aw_weight (Weights c) ?k) = sizes (filter (signed_by ?k) ?rest) + unat ?s"
      using inv split [of "signed_by ?k"] by (simp add: aw_inv_def)
    moreover have "sizes (filter (signed_by k) ?rest) = sizes (filter (signed_by k) (utc_list c))" if "k \<noteq> ?k" for k
      using split [of "signed_by k"] that by auto
    ultimately show ?thesis using aw_decrement_inv [OF _ _ _ total] that by blast
  qed
  let ?c = "c\<lparr>Weights := w, CacheSize := CacheSize c - ?s, TransactionDataContainer := smap_erase i ?T, IdLookup := smap_erase h (IdLookup c)\<rparr>"
  have "utc_remove h c = Inr (Some info, ?c)" using Some info w(1) by (simp add: utc_remove_def Let_def)
  moreover have list: "utc_list ?c = ?rest" using erase by (simp add: utc_list_def)
  moreover have "utc_inv ?c" unfolding utc_inv_def list
  proof (intro conjI)
    show "smap_inv (TransactionDataContainer ?c)" "smap_inv (IdLookup ?c)" using inv by simp_all
    show "\<forall>p\<in>set (TransactionDataContainer ?c). fst p \<le> m_idSequence ?c" using inv by (auto simp: smap_erase_def)
    show "\<forall>g j. smap_find (IdLookup ?c) g = Some j \<longleftrightarrow> (\<exists>x. smap_find (TransactionDataContainer ?c) j = Some x \<and> EntityHash x = g)"
    proof (intro allI)
      fix g j
      have old: "smap_find (IdLookup c) g = Some j \<longleftrightarrow> (\<exists>x. smap_find ?T j = Some x \<and> EntityHash x = g)" by (rule lookup)
      show "smap_find (IdLookup ?c) g = Some j \<longleftrightarrow> (\<exists>x. smap_find (TransactionDataContainer ?c) j = Some x \<and> EntityHash x = g)"
        using old Some info same [of "(j, _)"] find_set by (auto split: if_splits)
    qed
    have le: "?s \<le> CacheSize c" using inv total by (simp add: word_le_nat_alt)
    then show size: "unat (CacheSize ?c) = sizes ?rest" using inv total by (simp add: unat_sub)
    show "CacheSize ?c \<le> muc_MaxCacheSize ?c" using inv size total by (simp add: word_le_nat_alt)
    show "aw_inv ?rest (Weights ?c)" using w(2) by simp
  qed
  ultimately show ?thesis using f by simp
qed

subsection \<open>Histories of the cache\<close>

datatype 'x ut_call = Ut_add "'x TransactionInfo" | Ut_remove Hash256 | Ut_removeAll

fun utc_call :: "'x ut_call \<Rightarrow> 'x MemoryUtCache \<Rightarrow> exn + 'x MemoryUtCache" where
  "utc_call (Ut_add info) c = Inr (snd (utc_add info c))"
| "utc_call (Ut_remove hash) c = rbind (utc_remove hash c) (\<lambda>(_, c). Inr c)"
| "utc_call Ut_removeAll c = Inr (snd (utc_removeAll c))"

text \<open>The specification: a list in the order of arrival, without two transactions of the same hash, bounded in total size.\<close>

fun ut_spec_call :: "nat \<Rightarrow> 'x ut_call \<Rightarrow> 'x TransactionInfo list \<Rightarrow> 'x TransactionInfo list" where
  "ut_spec_call maxSize (Ut_add info) l =
     (if sizes l + info_size info \<le> maxSize \<and> EntityHash info \<notin> EntityHash ` set l then l @ [info] else l)"
| "ut_spec_call maxSize (Ut_remove hash) l = filter (\<lambda>info. EntityHash info \<noteq> hash) l"
| "ut_spec_call maxSize Ut_removeAll l = []"

lemma utc_new_fields: "m_idSequence (utc_new r s) = 0" "muc_MaxCacheSize (utc_new r s) = s"
  by (simp_all add: utc_new_def)

lemma utc_removeAll_ok:
  assumes "utc_inv c"
  shows "fst (utc_removeAll c) = utc_list c" "utc_inv (snd (utc_removeAll c))" "utc_list (snd (utc_removeAll c)) = []"
    "muc_MaxCacheSize (snd (utc_removeAll c)) = muc_MaxCacheSize c" "m_idSequence (snd (utc_removeAll c)) = m_idSequence c"
  using assms by (simp_all add: utc_removeAll_def utc_list_def utc_inv_def aw_inv_def aw_reset_def aw_weight_def smap_empty_def)

lemma utc_call_ok:
  assumes "utc_inv c" "m_idSequence c \<noteq> - 1"
  shows "\<exists>c'. utc_call call c = Inr c' \<and> utc_inv c' \<and> utc_list c' = ut_spec_call (unat (muc_MaxCacheSize c)) call (utc_list c)
    \<and> muc_MaxCacheSize c' = muc_MaxCacheSize c \<and> unat (m_idSequence c') \<le> unat (m_idSequence c) + 1"
proof (cases call)
  case (Ut_add info)
  obtain c' where c': "utc_add info c = (utc_fits info c \<and> \<not> utc_contains c (EntityHash info), c')" "utc_inv c'"
      "utc_list c' = utc_list c @ (if utc_fits info c \<and> \<not> utc_contains c (EntityHash info) then [info] else [])"
      "muc_MaxCacheSize c' = muc_MaxCacheSize c" "m_idSequence c' \<in> {m_idSequence c, m_idSequence c + 1}"
    using utc_add_ok [OF assms, of info] by blast
  have "utc_list c' = ut_spec_call (unat (muc_MaxCacheSize c)) call (utc_list c)"
    unfolding c'(3) Ut_add utc_contains_iff [OF assms(1)] by (simp add: utc_fits_def)
  moreover have "unat (m_idSequence c') \<le> unat (m_idSequence c) + 1" using c'(5) by (elim insertE emptyE) (simp_all add: unat_word_ariths)
  ultimately show ?thesis using c'(1,2,4) Ut_add by (intro exI [of _ c']) simp
next
  case (Ut_remove hash)
  then show ?thesis using utc_remove_ok [OF assms(1), of hash] by auto
next
  case Ut_removeAll
  then show ?thesis using utc_removeAll_ok [OF assms(1)] by simp
qed

lemma utc_run_ok:
  assumes "utc_inv c" "unat (m_idSequence c) + length calls < 2 ^ 64"
  shows "\<exists>c'. rfold utc_call calls c = Inr c' \<and> utc_inv c' \<and> utc_list c' = fold (ut_spec_call (unat (muc_MaxCacheSize c))) calls (utc_list c)
    \<and> muc_MaxCacheSize c' = muc_MaxCacheSize c"
  using assms
proof (induction calls arbitrary: c)
  case (Cons call calls)
  have "m_idSequence c \<noteq> - 1"
  proof
    assume "m_idSequence c = - 1"
    then have "unat (m_idSequence c) = 2 ^ 64 - 1" by (simp add: unsigned_minus_1_eq_mask mask_eq_exp_minus_1)
    then show False using Cons.prems(2) by simp
  qed
  then obtain c1 where c1: "utc_call call c = Inr c1" "utc_inv c1" "utc_list c1 = ut_spec_call (unat (muc_MaxCacheSize c)) call (utc_list c)"
      "muc_MaxCacheSize c1 = muc_MaxCacheSize c" "unat (m_idSequence c1) \<le> unat (m_idSequence c) + 1"
    using utc_call_ok [OF Cons.prems(1)] by blast
  then show ?case using Cons.IH [OF c1(2)] Cons.prems(2) by auto
qed simp

text \<open>
  C14. The cache of unconfirmed transactions refines a list. After any calls of add, remove and removeAll, of which none throws, the cache holds exactly the
  transactions of the specification in the order of arrival; it knows the hash of a transaction if and only if it holds it; the memory that it reports
  is the sum of the sizes, never more than the limit; and the memory it reports for a signer is the sum of the sizes of his transactions.
\<close>

theorem ut_cache_refines_list:
  assumes "length calls < 2 ^ 64"
  shows "\<exists>c. rfold utc_call calls (utc_new maxResponseSize maxCacheSize) = Inr c
    \<and> map snd (TransactionDataContainer c) = fold (ut_spec_call (unat maxCacheSize)) calls []
    \<and> (\<forall>h. utc_contains c h \<longleftrightarrow> h \<in> EntityHash ` set (fold (ut_spec_call (unat maxCacheSize)) calls []))
    \<and> unat (CacheSize c) = sizes (fold (ut_spec_call (unat maxCacheSize)) calls []) \<and> CacheSize c \<le> maxCacheSize
    \<and> (\<forall>key. unat (utc_memorySizeForAccount c key) = sizes (filter (signed_by key) (fold (ut_spec_call (unat maxCacheSize)) calls [])))"
proof -
  let ?c = "utc_new maxResponseSize maxCacheSize"
  obtain c where c: "rfold utc_call calls ?c = Inr c" "utc_inv c" "utc_list c = fold (ut_spec_call (unat maxCacheSize)) calls []" "muc_MaxCacheSize c = maxCacheSize"
    using utc_run_ok [OF utc_new_inv(1), of maxResponseSize maxCacheSize calls] assms by (auto simp: utc_new_inv(2) utc_new_fields)
  note inv = c(2) [unfolded utc_inv_def aw_inv_def]
  show ?thesis
    using c utc_contains_iff [OF c(2)] inv unfolding utc_list_def [symmetric] utc_memorySizeForAccount_def by (intro exI [of _ c]) simp
qed

definition example_info :: "Hash256 \<Rightarrow> uint32 \<Rightarrow> nat TransactionInfo" where
  "example_info hash bytes = \<lparr>pEntity = \<lparr>tx_Size = bytes, tx_SignerPublicKey = 3, tx_Deadline = 100, tx_MaxFee = 5000, tx_Payload = 0\<rparr>, EntityHash = hash\<rparr>"

theorem ut_cache_refines_list_witness:
  "\<exists>c. rfold utc_call [Ut_add (example_info 11 60), Ut_add (example_info 12 50), Ut_add (example_info 13 40), Ut_remove 11, Ut_add (example_info 13 1)] (utc_new 1000 100) = Inr c
    \<and> map snd (TransactionDataContainer c) = [example_info 13 40] \<and> unat (utc_memorySizeForAccount c 3) = 40"
proof -
  let ?l = "[Ut_add (example_info 11 60), Ut_add (example_info 12 50), Ut_add (example_info 13 40), Ut_remove 11, Ut_add (example_info 13 1)]"
  have "length ?l < 2 ^ 64" by simp
  moreover have "fold (ut_spec_call (unat (100 :: uint64))) ?l [] = [example_info 13 40]" by (simp add: example_info_def info_size_def)
  moreover have "sizes (filter (signed_by 3) [example_info 13 40]) = 40" by (simp add: example_info_def info_size_def)
  ultimately show ?thesis using ut_cache_refines_list [of ?l 1000 100] by metis
qed

subsection \<open>The updater and the pool\<close>

lemma unat_less_not_max:
  fixes x :: size_t
  assumes "unat x + 1 < 2 ^ 64"
  shows "x \<noteq> - 1"
proof
  assume "x = - 1"
  then have "unat x = 2 ^ 64 - 1" by (simp add: unsigned_minus_1_eq_mask mask_eq_exp_minus_1)
  then show False using assms by simp
qed

text \<open>What the notifications of a transaction do to the view of a state, if all are accepted.\<close>

fun view_process :: "('d Notification \<Rightarrow> 'v \<Rightarrow> bool) \<Rightarrow> ('d Notification \<Rightarrow> 'v \<Rightarrow> 'v) \<Rightarrow> 'd Notification list \<Rightarrow> 'v \<Rightarrow> 'v option" where
  "view_process accepts effect [] v = Some v"
| "view_process accepts effect (n # ns) v =
     (if IsSet (n_Type n) Channel_Validator \<and> \<not> accepts n v then None
      else view_process accepts effect ns (if is_observed n then effect n v else v))"

lemma view_process_append: "view_process accepts effect (ns @ ms) v = Option.bind (view_process accepts effect ns v) (view_process accepts effect ms)"
  by (induction ns arbitrary: v) auto

text \<open>The transactions of a list can be executed one after the other at a state that looks like \<open>base\<close>, and the result looks like \<open>v\<close>.\<close>

definition pool_valid :: "('d Notification \<Rightarrow> 'v \<Rightarrow> bool) \<Rightarrow> ('d Notification \<Rightarrow> 'v \<Rightarrow> 'v) \<Rightarrow> ('x TransactionInfo \<Rightarrow> 'd Notification list)
    \<Rightarrow> 'v \<Rightarrow> 'x TransactionInfo list \<Rightarrow> 'v \<Rightarrow> bool" where
  "pool_valid accepts effect publisher base l v \<longleftrightarrow> view_process accepts effect (concat (map publisher l)) base = Some v"

definition accepted_infos :: "'x TransactionInfo list \<Rightarrow> UpdateType list \<Rightarrow> 'x TransactionInfo list" where
  "accepted_infos infos results = map fst (filter (\<lambda>p. snd p = Update_New) (zip infos results))"

text \<open>Batches of new transactions, one after the other.\<close>

definition ut_updates :: "('x, 'd, 's) ExecutionConfiguration \<Rightarrow> 'x TransactionInfo list list \<Rightarrow> 'x MemoryUtCache \<times> 's option
    \<Rightarrow> exn + 'x MemoryUtCache \<times> 's option" where
  "ut_updates config = rfold (\<lambda>infos (c, unconfirmed). rbind (ut_update config infos c unconfirmed) (\<lambda>(_, c, unconfirmed, _). Inr (c, unconfirmed)))"

text \<open>Validators and observers that are determined by the view.\<close>

locale viewed_observer = validated_observer observe ready inv view validate expected
  for observe :: "('d, 's) observer" and ready inv and view :: "'s \<Rightarrow> 'v" and validate :: "('d, 's) validator" and expected +
  fixes accepts :: "'d Notification \<Rightarrow> 'v \<Rightarrow> bool" and effect :: "'d Notification \<Rightarrow> 'v \<Rightarrow> 'v"
  assumes accepts_view: "inv s \<Longrightarrow> expected n \<Longrightarrow> IsSet (n_Type n) Channel_Validator \<Longrightarrow> IsValidationResultSuccess (validate n s) \<longleftrightarrow> accepts n (view s)"
    and effect_view: "inv s \<Longrightarrow> ready n s \<Longrightarrow> observe Commit n s = Inr s' \<Longrightarrow> view s' = effect n (view s)"
begin

lemma notify_view:
  assumes "inv (pns_Cache sub)" "expected n" "IsValidationResultSuccess (m_aggregateResult sub)" "pns_notify Commit validate observe n sub = Inr sub'"
  shows "if IsSet (n_Type n) Channel_Validator \<and> \<not> accepts n (view (pns_Cache sub)) then \<not> IsValidationResultSuccess (m_aggregateResult sub')
    else IsValidationResultSuccess (m_aggregateResult sub')
      \<and> view (pns_Cache sub') = (if is_observed n then effect n (view (pns_Cache sub)) else view (pns_Cache sub))"
proof -
  have agg: "m_aggregateResult (pns_validate validate n sub)
      = (if IsSet (n_Type n) Channel_Validator then AggregateValidationResult (m_aggregateResult sub) (validate n (pns_Cache sub)) else m_aggregateResult sub)"
    by (simp add: pns_validate_def)
  have ok: "IsValidationResultSuccess (AggregateValidationResult (m_aggregateResult sub) r) \<longleftrightarrow> IsValidationResultSuccess r" for r
    using assms(3) by (auto simp: AggregateValidationResult_def IsValidationResultSuccess_def)
  have keep: "m_aggregateResult sub' = m_aggregateResult (pns_validate validate n sub)"
    using assms(2-4) expected_size [OF assms(2)]
    by (auto simp: pns_notify_def pns_observe_def undo_notify_def Let_def rbind_Inr_iff split: if_splits)
  have succ: "IsValidationResultSuccess (m_aggregateResult sub') \<longleftrightarrow> \<not> (IsSet (n_Type n) Channel_Validator \<and> \<not> accepts n (view (pns_Cache sub)))"
    unfolding keep agg using assms(3) ok accepts_view [OF assms(1,2)] by simp
  obtain sub1 where sub1: "pns_notify Commit validate observe n sub = Inr sub1"
      "if IsValidationResultSuccess (m_aggregateResult sub1) then committed observe ready (filter is_observed [n]) (pns_Cache sub) (pns_Cache sub1) else True"
    using notify_success [OF assms(1-3)] by (auto split: if_splits)
  then have "committed observe ready (filter is_observed [n]) (pns_Cache sub) (pns_Cache sub')" if "IsValidationResultSuccess (m_aggregateResult sub')"
    using that assms(4) by simp
  then have "view (pns_Cache sub') = (if is_observed n then effect n (view (pns_Cache sub)) else view (pns_Cache sub))"
    if "IsValidationResultSuccess (m_aggregateResult sub')"
    using that effect_view [OF assms(1)] by (cases "is_observed n") auto
  with succ show ?thesis by simp
qed

lemma publish_view:
  assumes "inv (pns_Cache sub)" "\<forall>n\<in>set ns. expected n" "IsValidationResultSuccess (m_aggregateResult sub)"
    "pns_publish Commit validate observe ns sub = Inr sub'"
  shows "case view_process accepts effect ns (view (pns_Cache sub)) of
      None \<Rightarrow> \<not> IsValidationResultSuccess (m_aggregateResult sub')
    | Some v \<Rightarrow> IsValidationResultSuccess (m_aggregateResult sub') \<and> view (pns_Cache sub') = v"
  using assms
proof (induction ns arbitrary: sub)
  case Nil
  then show ?case by (simp add: pns_publish_def)
next
  case (Cons n ns)
  have exp: "expected n" using Cons.prems(2) by simp
  obtain sub1 where sub1: "pns_notify Commit validate observe n sub = Inr sub1" "pns_publish Commit validate observe ns sub1 = Inr sub'"
    using Cons.prems(4) by (auto simp: pns_publish_def rbind_Inr_iff)
  note v = notify_view [OF Cons.prems(1) exp Cons.prems(3) sub1(1)]
  show ?case
  proof (cases "IsValidationResultSuccess (m_aggregateResult sub1)")
    case True
    have "inv (pns_Cache sub1)"
      using notify_success [OF Cons.prems(1) exp Cons.prems(3)] sub1(1) True committed_inv Cons.prems(1) by auto
    from Cons.IH [OF this _ True sub1(2)] Cons.prems(2) v True show ?thesis by (auto split: if_splits)
  next
    case False
    have "pns_publish Commit validate observe ns sub1 = Inr sub1"
      using Cons.prems(2) False by (induction ns) (auto simp: pns_publish_def notify_failed)
    then show ?thesis using v False sub1(2) by (auto split: if_splits)
  qed
qed

text \<open>One transaction.\<close>

lemma apply_info_ok:
  assumes "utc_inv (Modifier a)" "inv (UnconfirmedCatapultCache a)" "m_idSequence (Modifier a) \<noteq> - 1"
    and "ec_validator config = validate" "ec_observer config = observe" "\<forall>n\<in>set (ec_publisher config info). expected n"
  shows "\<exists>r a'. apply_info config source accept info a = Inr (r, a') \<and> utc_inv (Modifier a') \<and> inv (UnconfirmedCatapultCache a')
    \<and> utc_list (Modifier a') = utc_list (Modifier a) @ (if r = Update_New then [info] else [])
    \<and> (if r = Update_New
       then view_process accepts effect (ec_publisher config info) (view (UnconfirmedCatapultCache a)) = Some (view (UnconfirmedCatapultCache a'))
       else view (UnconfirmedCatapultCache a') = view (UnconfirmedCatapultCache a))
    \<and> m_idSequence (Modifier a') \<in> {m_idSequence (Modifier a), m_idSequence (Modifier a) + 1}"
proof -
  obtain c where c: "utc_add info (Modifier a) = (utc_fits info (Modifier a) \<and> \<not> utc_contains (Modifier a) (EntityHash info), c)" "utc_inv c"
      "utc_list c = utc_list (Modifier a) @ (if utc_fits info (Modifier a) \<and> \<not> utc_contains (Modifier a) (EntityHash info) then [info] else [])"
      "m_idSequence c \<in> {m_idSequence (Modifier a), m_idSequence (Modifier a) + 1}"
    using utc_add_ok [OF assms(1,3), of info] by blast
  let ?s = "UnconfirmedCatapultCache a"
  let ?sub = "pns_enableUndo (new_ProcessingNotificationSubscriber ?s) :: ('d, 's) ProcessingNotificationSubscriber"
  obtain sub sub' where sub: "pns_publish Commit validate observe (ec_publisher config info) ?sub = Inr sub" "inv (pns_Cache sub)"
      "pns_undo Commit observe sub = Inr sub'" "inv (pns_Cache sub')" "view (pns_Cache sub') = view ?s"
    using undo_restores [OF assms(2,6)] by blast
  have new: "pns_Cache ?sub = ?s" "IsValidationResultSuccess (m_aggregateResult ?sub)"
    by (simp_all add: pns_enableUndo_def new_ProcessingNotificationSubscriber_def IsValidationResultSuccess_def GetSeverity_def Result_Success_def)
  have "inv (pns_Cache ?sub)" using assms(2) new(1) by simp
  from publish_view [OF this assms(6) new(2) sub(1)] have v: "case view_process accepts effect (ec_publisher config info) (view ?s) of
      None \<Rightarrow> \<not> IsValidationResultSuccess (m_aggregateResult sub)
    | Some v \<Rightarrow> IsValidationResultSuccess (m_aggregateResult sub) \<and> view (pns_Cache sub) = v" by (simp add: new(1))
  show ?thesis
  proof (cases "\<not> accept info \<or> tx_MaxFee (pEntity info) < CalculateTransactionFee (ec_minFeeMultiplier config) (pEntity info)
      \<or> ec_throttle config info source ?s (Modifier a) \<or> \<not> (utc_fits info (Modifier a) \<and> \<not> utc_contains (Modifier a) (EntityHash info))")
    case True
    then show ?thesis using assms(1,2) c by (auto simp: apply_info_def)
  next
    case False
    then have h: "EntityHash info \<notin> EntityHash ` set (utc_list (Modifier a))" using utc_contains_iff [OF assms(1)] by blast
    have list: "utc_list c = utc_list (Modifier a) @ [info]" using c(3) False by simp
    show ?thesis
    proof (cases "IsValidationResultSuccess (m_aggregateResult sub)")
      case True
      then show ?thesis using False assms(4,5) c(1,2,4) list sub(1,2) v by (auto simp: apply_info_def Let_def split: option.splits)
    next
      case failed: False
      obtain x c' where "utc_remove (EntityHash info) c = Inr (x, c')" "utc_inv c'"
          "utc_list c' = filter (\<lambda>i. EntityHash i \<noteq> EntityHash info) (utc_list c)" "m_idSequence c' = m_idSequence c"
        using utc_remove_ok [OF c(2)] by blast
      moreover have "filter (\<lambda>i. EntityHash i \<noteq> EntityHash info) (utc_list c) = utc_list (Modifier a)"
        using h by (simp add: list filter_id_conv) (metis imageI)
      ultimately show ?thesis using False failed assms(4,5) c(1,4) sub by (auto simp: apply_info_def Let_def)
    qed
  qed
qed

lemma ut_apply_ok:
  assumes "utc_inv (Modifier a)" "inv (UnconfirmedCatapultCache a)" "unat (m_idSequence (Modifier a)) + length infos < 2 ^ 64"
    and "ec_validator config = validate" "ec_observer config = observe" "\<forall>info\<in>set infos. \<forall>n\<in>set (ec_publisher config info). expected n"
    and "pool_valid accepts effect (ec_publisher config) base (utc_list (Modifier a)) (view (UnconfirmedCatapultCache a))"
  shows "\<exists>results a'. ut_apply config source accept infos a = Inr (results, a') \<and> length results = length infos
    \<and> utc_inv (Modifier a') \<and> inv (UnconfirmedCatapultCache a') \<and> utc_list (Modifier a') = utc_list (Modifier a) @ accepted_infos infos results
    \<and> unat (m_idSequence (Modifier a')) \<le> unat (m_idSequence (Modifier a)) + length infos
    \<and> pool_valid accepts effect (ec_publisher config) base (utc_list (Modifier a')) (view (UnconfirmedCatapultCache a'))"
  using assms
proof (induction infos arbitrary: a)
  case Nil
  then show ?case by (simp add: accepted_infos_def)
next
  case (Cons info infos)
  have id: "m_idSequence (Modifier a) \<noteq> - 1" by (rule unat_less_not_max) (use Cons.prems(3) in simp)
  have exp: "\<forall>n\<in>set (ec_publisher config info). expected n" using Cons.prems(6) by simp
  obtain r a1 where a1: "apply_info config source accept info a = Inr (r, a1)" "utc_inv (Modifier a1)" "inv (UnconfirmedCatapultCache a1)"
      "utc_list (Modifier a1) = utc_list (Modifier a) @ (if r = Update_New then [info] else [])"
      "if r = Update_New
       then view_process accepts effect (ec_publisher config info) (view (UnconfirmedCatapultCache a)) = Some (view (UnconfirmedCatapultCache a1))
       else view (UnconfirmedCatapultCache a1) = view (UnconfirmedCatapultCache a)"
      "m_idSequence (Modifier a1) \<in> {m_idSequence (Modifier a), m_idSequence (Modifier a) + 1}"
    using apply_info_ok [OF Cons.prems(1,2) id Cons.prems(4,5) exp, of source accept] by blast
  have id1: "unat (m_idSequence (Modifier a1)) \<le> unat (m_idSequence (Modifier a)) + 1" using a1(6) by (auto simp: unat_word_ariths)
  have pool: "pool_valid accepts effect (ec_publisher config) base (utc_list (Modifier a1)) (view (UnconfirmedCatapultCache a1))"
    using Cons.prems(7) a1(4,5) by (cases "r = Update_New") (simp_all add: pool_valid_def view_process_append)
  obtain results a' where "ut_apply config source accept infos a1 = Inr (results, a')" "length results = length infos"
      "utc_inv (Modifier a')" "inv (UnconfirmedCatapultCache a')" "utc_list (Modifier a') = utc_list (Modifier a1) @ accepted_infos infos results"
      "unat (m_idSequence (Modifier a')) \<le> unat (m_idSequence (Modifier a1)) + length infos"
      "pool_valid accepts effect (ec_publisher config) base (utc_list (Modifier a')) (view (UnconfirmedCatapultCache a'))"
    using Cons.IH [OF a1(2,3) _ Cons.prems(4,5) _ pool] id1 Cons.prems(3,6) by auto
  then show ?case using a1(1,4) id1 by (auto simp: accepted_infos_def)
qed

lemma update_ok_new:
  assumes "utc_inv c" "inv s" "unat (m_idSequence c) + length infos < 2 ^ 64"
    and "ec_validator config = validate" "ec_observer config = observe" "\<forall>info\<in>set infos. \<forall>n\<in>set (ec_publisher config info). expected n"
    and "pool_valid accepts effect (ec_publisher config) base (utc_list c) (view s)"
  shows "\<exists>results c' s' failed. ut_update config infos c (Some s) = Inr (results, c', Some s', failed) \<and> utc_inv c' \<and> inv s'
    \<and> utc_list c' = utc_list c @ accepted_infos infos results \<and> pool_valid accepts effect (ec_publisher config) base (utc_list c') (view s')
    \<and> unat (m_idSequence c') \<le> unat (m_idSequence c) + length infos"
proof -
  let ?a = "\<lparr>Modifier = c, UnconfirmedCatapultCache = s, failedTransactions = []\<rparr>"
  from ut_apply_ok [of ?a infos config base Source_New "\<lambda>_. True"] assms obtain results a' where
      "ut_apply config Source_New (\<lambda>_. True) infos ?a = Inr (results, a')" "utc_inv (Modifier a')" "inv (UnconfirmedCatapultCache a')"
      "utc_list (Modifier a') = utc_list c @ accepted_infos infos results"
      "pool_valid accepts effect (ec_publisher config) base (utc_list (Modifier a')) (view (UnconfirmedCatapultCache a'))"
      "unat (m_idSequence (Modifier a')) \<le> unat (m_idSequence c) + length infos" by auto
  then show ?thesis by (simp add: ut_update_def)
qed

lemma update_ok_block:
  assumes "utc_inv c" "inv s" "unat (m_idSequence c) + length infos + length (utc_list c) < 2 ^ 64"
    and "ec_validator config = validate" "ec_observer config = observe"
    and "\<forall>info\<in>set infos \<union> set (utc_list c). \<forall>n\<in>set (ec_publisher config info). expected n"
  shows "\<exists>c' s' failed. ut_update_block config confirmed infos s c = Inr (c', s', failed) \<and> utc_inv c' \<and> inv s'
    \<and> set (utc_list c') \<subseteq> set infos \<union> set (utc_list c) \<and> pool_valid accepts effect (ec_publisher config) (view s) (utc_list c') (view s')
    \<and> unat (m_idSequence c') \<le> unat (m_idSequence c) + length infos + length (utc_list c)"
proof -
  define c0 where "c0 = snd (utc_removeAll c)"
  have c0: "utc_removeAll c = (utc_list c, c0)" "utc_inv c0" "utc_list c0 = []" "m_idSequence c0 = m_idSequence c"
    using utc_removeAll_ok [OF assms(1)] by (simp_all add: c0_def prod_eq_iff)
  let ?a = "\<lparr>Modifier = c0, UnconfirmedCatapultCache = s, failedTransactions = []\<rparr>"
  have pool0: "pool_valid accepts effect (ec_publisher config) (view s) (utc_list (Modifier ?a)) (view (UnconfirmedCatapultCache ?a))"
    by (simp add: pool_valid_def c0(3))
  have exp: "\<forall>info\<in>set infos. \<forall>n\<in>set (ec_publisher config info). expected n" "\<forall>info\<in>set (utc_list c). \<forall>n\<in>set (ec_publisher config info). expected n"
    using assms(6) by blast+
  have sub: "set (accepted_infos xs rs) \<subseteq> set xs" for xs rs
    by (auto simp: accepted_infos_def dest: set_zip_leftD)
  from ut_apply_ok [OF _ _ _ assms(4,5) exp(1) pool0, of Source_Reverted "\<lambda>_. True"] assms(2,3) c0 obtain r1 a1 where
      a1: "ut_apply config Source_Reverted (\<lambda>_. True) infos ?a = Inr (r1, a1)" "utc_inv (Modifier a1)" "inv (UnconfirmedCatapultCache a1)"
      "utc_list (Modifier a1) = accepted_infos infos r1" "unat (m_idSequence (Modifier a1)) \<le> unat (m_idSequence c) + length infos"
      "pool_valid accepts effect (ec_publisher config) (view s) (utc_list (Modifier a1)) (view (UnconfirmedCatapultCache a1))" by auto
  let ?f = "\<lambda>info. EntityHash info \<notin> confirmed"
  from ut_apply_ok [OF a1(2,3) _ assms(4,5) exp(2) a1(6), of Source_Existing ?f] assms(3) a1(5) obtain r2 a2 where
      a2: "ut_apply config Source_Existing ?f (utc_list c) a1 = Inr (r2, a2)" "utc_inv (Modifier a2)" "inv (UnconfirmedCatapultCache a2)"
      "utc_list (Modifier a2) = utc_list (Modifier a1) @ accepted_infos (utc_list c) r2"
      "pool_valid accepts effect (ec_publisher config) (view s) (utc_list (Modifier a2)) (view (UnconfirmedCatapultCache a2))"
      "unat (m_idSequence (Modifier a2)) \<le> unat (m_idSequence (Modifier a1)) + length (utc_list c)" by auto
  have "set (utc_list (Modifier a2)) \<subseteq> set infos \<union> set (utc_list c)" unfolding a2(4) a1(4) using sub [of infos r1] sub [of "utc_list c" r2] by auto
  then show ?thesis using a1(1,5) a2 by (simp add: ut_update_block_def c0(1))
qed

lemma updates_ok:
  assumes "utc_inv c" "inv s" "unat (m_idSequence c) + sum_list (map length batches) < 2 ^ 64"
    and "ec_validator config = validate" "ec_observer config = observe" "\<forall>infos\<in>set batches. \<forall>info\<in>set infos. \<forall>n\<in>set (ec_publisher config info). expected n"
    and "pool_valid accepts effect (ec_publisher config) base (utc_list c) (view s)"
  shows "\<exists>c' s'. ut_updates config batches (c, Some s) = Inr (c', Some s') \<and> utc_inv c' \<and> inv s'
    \<and> pool_valid accepts effect (ec_publisher config) base (utc_list c') (view s')"
  using assms
proof (induction batches arbitrary: c s)
  case Nil
  then show ?case by (simp add: ut_updates_def)
next
  case (Cons infos batches)
  have exp: "\<forall>info\<in>set infos. \<forall>n\<in>set (ec_publisher config info). expected n" using Cons.prems(6) by simp
  have id: "unat (m_idSequence c) + length infos < 2 ^ 64" using Cons.prems(3) by simp
  from update_ok_new [OF Cons.prems(1,2) id Cons.prems(4,5) exp Cons.prems(7)]
  obtain results c1 s1 failed where u: "ut_update config infos c (Some s) = Inr (results, c1, Some s1, failed)" "utc_inv c1" "inv s1"
      "pool_valid accepts effect (ec_publisher config) base (utc_list c1) (view s1)" "unat (m_idSequence c1) \<le> unat (m_idSequence c) + length infos" by blast
  have "\<exists>c' s'. ut_updates config batches (c1, Some s1) = Inr (c', Some s') \<and> utc_inv c' \<and> inv s'
      \<and> pool_valid accepts effect (ec_publisher config) base (utc_list c') (view s')"
    by (rule Cons.IH [OF u(2,3) _ Cons.prems(4,5) _ u(4)]) (use u(5) Cons.prems(3,6) in auto)
  then show ?case by (simp add: ut_updates_def u(1))
qed

end

end
