(* ===== verification/References.thy ===== *)
theory References
  imports AccountStateCache
begin

section \<open>References into caches\<close>

text \<open>
  Observers keep references to elements of a cache and write through them after other calls on the cache.
  The theory holds the lemmas for this: which elements of a delta set can be written through a reference, which operations keep
  a reference valid, and what an observer does to an account that it refers to.
\<close>

subsection \<open>Elements of a delta set\<close>

text \<open>An element is live when it is not shared with the base set, so that it can be written through a reference.\<close>

definition bsd_live :: "('k, 'e) BaseSetDelta \<Rightarrow> 'k \<Rightarrow> bool" where
  "bsd_live d k \<longleftrightarrow> smap_find (removedElements d) k = None
     \<and> (smap_find (copiedElements d) k \<noteq> None \<or> smap_find (addedElements d) k \<noteq> None)"

lemma live_view: "bsd_inv MutableTypeTag d \<Longrightarrow> bsd_live d k \<Longrightarrow> bsd_view d k \<noteq> None"
  using bsd_inv_keyD [of MutableTypeTag d k] by (auto simp: bsd_live_def bsd_view_def bsd_key_inv_def split: option.splits)

lemma find_live:
  assumes "bsd_inv MutableTypeTag d"
  shows "bsd_view d k \<noteq> None \<Longrightarrow> bsd_live (snd (bsd_find MutableTypeTag d k)) k"
    "bsd_live d j \<Longrightarrow> bsd_live (snd (bsd_find MutableTypeTag d k)) j"
  using bsd_inv_keyD [OF assms, of k]
  by (auto simp: bsd_live_def bsd_op_defs bsd_view_def smap_contains_def bsd_key_inv_def split: option.splits if_splits)

lemma store_live:
  assumes "bsd_inv MutableTypeTag d" "bsd_live d k"
  shows "bsd_view (bsd_store k e d) = (bsd_view d)(k \<mapsto> e)" "bsd_inv MutableTypeTag (bsd_store k e d)"
    "bsd_live d j \<Longrightarrow> bsd_live (bsd_store k e d) j"
proof -
  note key = bsd_inv_keyD [OF assms(1), of k]
  show "bsd_view (bsd_store k e d) = (bsd_view d)(k \<mapsto> e)"
    using key assms(2) by (auto simp: bsd_live_def bsd_store_def bsd_view_def bsd_key_inv_def smap_contains_def fun_eq_iff split: option.splits)
  show "bsd_inv MutableTypeTag (bsd_store k e d)"
    using key assms(2) bsd_inv_smap_inv [OF assms(1)]
    by (intro bsd_inv_updateI [OF assms(1), of _ k]) (auto simp: bsd_live_def bsd_store_def bsd_key_inv_def smap_contains_def split: if_splits)
  show "bsd_live d j \<Longrightarrow> bsd_live (bsd_store k e d) j"
    by (auto simp: bsd_live_def bsd_store_def)
qed

lemma insert_live:
  assumes "bsd_inv MutableTypeTag d" "bsd_view d k = None"
  shows "\<exists>d'. mixin_insert MutableTypeTag k e d = Inr d' \<and> bsd_inv MutableTypeTag d' \<and> bsd_view d' = (bsd_view d)(k \<mapsto> e)
    \<and> (\<forall>j. bsd_live d j \<longrightarrow> bsd_live d' j)"
proof -
  let ?r = "bsd_insert MutableTypeTag k e d"
  have "fst ?r = Insert_Inserted \<or> fst ?r = Insert_Unremoved" using bsd_insert_mutable_result [OF assms(1), of k e] assms(2) by auto
  moreover have "bsd_live d j \<longrightarrow> bsd_live (snd ?r) j" for j
    by (auto simp: bsd_live_def bsd_op_defs smap_contains_def Let_def)
  ultimately show ?thesis
    using bsd_insert_inv [OF assms(1), of k e] bsd_insert_mutable_view [OF assms(1), of k e]
    by (intro exI [of _ "snd ?r"]) (auto simp: mixin_insert_def case_prod_unfold)
qed

lemma remove_live:
  assumes "bsd_inv MutableTypeTag d" "bsd_view d k \<noteq> None"
  shows "\<exists>d'. mixin_remove MutableTypeTag k d = Inr d' \<and> bsd_inv MutableTypeTag d' \<and> bsd_view d' = (bsd_view d)(k := None)
    \<and> (\<forall>j. j \<noteq> k \<longrightarrow> bsd_live d j \<longrightarrow> bsd_live d' j)"
proof -
  let ?r = "bsd_remove MutableTypeTag k d"
  have "fst ?r \<noteq> Remove_None" "fst ?r \<noteq> Remove_Redundant" using bsd_remove_result [OF assms(1), of k] assms(2) by auto
  moreover have "bsd_live d j \<longrightarrow> bsd_live (snd ?r) j" if "j \<noteq> k" for j
    using that by (auto simp: bsd_live_def bsd_op_defs smap_contains_def Let_def split: option.splits)
  ultimately show ?thesis
    using bsd_remove_inv [OF assms(1), of k] bsd_remove_view [OF assms(1), of k]
    by (intro exI [of _ "snd ?r"]) (auto simp: mixin_remove_def case_prod_unfold)
qed


subsection \<open>Accounts\<close>

text \<open>Writing through a reference to an account. A reference to an account that is gone is the exception \<open>Out_Of_Range\<close>.\<close>

definition asc_modify :: "(AccountState \<Rightarrow> exn + AccountState) \<Rightarrow> Address \<Rightarrow> AccountStateCacheDelta \<Rightarrow> exn + AccountStateCacheDelta" where
  "asc_modify f address c =
     (case asc_find_const c address of
        None \<Rightarrow> Inl Out_Of_Range
      | Some a \<Rightarrow> rbind (f a) (\<lambda>a. Inr (asc_store a c)))"

abbreviation asc_live :: "AccountStateCacheDelta \<Rightarrow> Address \<Rightarrow> bool" where
  "asc_live c \<equiv> bsd_live (m_pStateByAddress c)"

text \<open>All of a cache but the order of mosaics inside an account.\<close>

definition account_view :: "AccountState \<Rightarrow> AccountState \<times> (MosaicId \<Rightarrow> Amount)" where
  "account_view a = (a\<lparr>Balances := ab_new\<rparr>, ab_get (Balances a))"

definition asc_view :: "AccountStateCacheDelta \<Rightarrow> Address \<rightharpoonup> AccountState \<times> (MosaicId \<Rightarrow> Amount)" where
  "asc_view c address = map_option account_view (asc_states c address)"

definition asc_rest :: "AccountStateCacheDelta \<Rightarrow> (Key \<rightharpoonup> Address) \<times> Options \<times> (Height \<times> Address, unit) smap \<times> (Height \<times> Key, unit) smap" where
  "asc_rest c = (asc_keys c, m_options c, m_queuedRemoveByAddress c, m_queuedRemoveByPublicKey c)"

lemma account_view_optimized: "ab_inv (Balances a) \<Longrightarrow> account_view (optimized cur a) = account_view a"
  using optimized_balances(3) [of a cur] by (simp add: account_view_def) (simp add: optimized_def)

lemma asc_store_live:
  assumes "asc_inv c" "asc_live c (as_Address a)" "ab_inv (Balances a)"
  shows "asc_inv (asc_store a c)" "asc_states (asc_store a c) = (asc_states c)(as_Address a \<mapsto> a)" "asc_rest (asc_store a c) = asc_rest c"
    "asc_live c j \<Longrightarrow> asc_live (asc_store a c) j"
proof -
  note d = asc_invD(1) [OF assms(1)]
  show states: "asc_states (asc_store a c) = (asc_states c)(as_Address a \<mapsto> a)"
    using store_live(1) [OF d assms(2)] by (simp add: asc_states_def asc_store_def)
  show "asc_inv (asc_store a c)"
    using assms(1,3) states store_live(2) [OF d assms(2), of a] by (auto simp: asc_inv_def asc_store_def split: if_splits)
  show "asc_rest (asc_store a c) = asc_rest c" by (simp add: asc_rest_def asc_store_def asc_keys_def)
  show "asc_live c j \<Longrightarrow> asc_live (asc_store a c) j" using store_live(3) [OF d assms(2)] by (simp add: asc_store_def)
qed

lemma asc_modify_ok:
  assumes "asc_inv c" "asc_live c k" "asc_states c k = Some a" "f a = Inr a'" "as_Address a' = k" "ab_inv (Balances a')"
  shows "asc_modify f k c = Inr (asc_store a' c)"
  using assms(3,4) bsd_find_const_view [OF asc_invD(1) [OF assms(1)], of k]
  by (simp add: asc_modify_def asc_find_const_def asc_states_def)

lemma asc_find_live:
  assumes "asc_inv c"
  shows "\<exists>iter c'. asc_find k c = Inr (iter, c') \<and> asc_inv c' \<and> asc_view c' = asc_view c \<and> asc_rest c' = asc_rest c
    \<and> (iter = None \<longleftrightarrow> asc_states c k = None) \<and> (asc_states c k \<noteq> None \<longrightarrow> asc_live c' k) \<and> (\<forall>j. asc_live c j \<longrightarrow> asc_live c' j)"
proof (cases "asc_states c k")
  case None
  let ?f = "bsd_find MutableTypeTag (m_pStateByAddress c) k"
  note d = asc_invD(1) [OF assms]
  have f: "fst ?f = None" "bsd_view (snd ?f) = bsd_view (m_pStateByAddress c)" "bsd_inv MutableTypeTag (snd ?f)"
    using bsd.find_result [OF d] bsd.find_keeps [OF d] bsd.find_inv [OF d] None by (simp_all add: asc_states_def)
  then have "asc_find k c = Inr (None, c\<lparr>m_pStateByAddress := snd ?f\<rparr>)"
    by (cases ?f) (simp add: asc_find_def PrepareMutableIterator_def)
  with f assms None find_live(2) [OF d] show ?thesis
    by (auto simp: asc_inv_def asc_states_def asc_keys_def asc_view_def asc_rest_def fun_eq_iff)
next
  case (Some a)
  let ?o = "optimized (asc_currency c) a" and ?d = "snd (bsd_find MutableTypeTag (m_pStateByAddress c) k)"
  let ?c = "c\<lparr>m_pStateByAddress := bsd_store k ?o ?d\<rparr>"
  note d = asc_invD(1) [OF assms]
  have o: "as_Address ?o = k" "ab_inv (Balances ?o)" using asc_invD(3,4) [OF assms Some] optimized_balances(2) by simp_all
  have v: "bsd_view (m_pStateByAddress c) k \<noteq> None" using Some by (simp add: asc_states_def)
  have live: "bsd_live ?d k" "bsd_live (m_pStateByAddress c) j \<Longrightarrow> bsd_live ?d j" for j
    using find_live(1) [OF d v] find_live(2) [OF d] by blast+
  have "asc_view ?c = asc_view c"
    using asc_found(2) [OF assms Some o] account_view_optimized [OF asc_invD(4) [OF assms Some]] Some by (auto simp: asc_view_def fun_eq_iff)
  moreover have "asc_live ?c k" "asc_live c j \<Longrightarrow> asc_live ?c j" for j
    using store_live(3) [OF bsd_find_inv [OF d] live(1)] live by simp_all
  ultimately show ?thesis using asc_find_Some [OF assms Some] asc_found(1,3) [OF assms Some o] Some by (simp add: asc_rest_def)
qed

end
