(* ===== verification/Transfers.thy ===== *)
theory Transfers
  imports Processing References
begin

section \<open>Balance notifications (plugins/coresystem)\<close>

text \<open>
  The core system moves mosaics between accounts. The theory models the notifications of a transfer, of a
  debit and of a block, their validators and observers, and the demultiplexing aggregates that the plugin registers them in.
  It shows that they satisfy the contract of the processing of notifications, so that undoing and rolling back gives back all accounts,
  and that the total amount of a mosaic is conserved.
\<close>

subsection \<open>Notifications\<close>

datatype ('u, 'r) Resolvable = Unresolved 'u | Resolved 'r

definition resolvable_isResolved :: "('u, 'r) Resolvable \<Rightarrow> bool" where
  "resolvable_isResolved r \<longleftrightarrow> (case r of Unresolved _ \<Rightarrow> False | Resolved _ \<Rightarrow> True)"

definition resolved_address :: "ResolverContext \<Rightarrow> (UnresolvedAddress, Address) Resolvable \<Rightarrow> Address" where
  "resolved_address resolvers r = (case r of Resolved address \<Rightarrow> address | Unresolved u \<Rightarrow> m_addressResolver resolvers u)"

datatype AmountType = Amount_Static | Amount_Dynamic

record BasicBalanceNotification =
  bn_Sender :: "(UnresolvedAddress, Address) Resolvable"
  bn_MosaicId :: UnresolvedMosaicId
  bn_Amount :: Amount

record BalanceTransferNotification = BasicBalanceNotification +
  btn_Recipient :: "(UnresolvedAddress, Address) Resolvable"
  TransferAmountType :: AmountType

record BlockNotification =
  bkn_BlockType :: EntityType
  bkn_Harvester :: Address
  bkn_Beneficiary :: Address
  bkn_Timestamp :: uint64
  bkn_Difficulty :: uint64
  bkn_FeeMultiplier :: uint32
  bkn_TotalFee :: Amount
  bkn_NumTransactions :: uint32

text \<open>The structures that derive from \<open>Notification\<close>.\<close>

datatype core_data =
  Data_BalanceTransfer BalanceTransferNotification | Data_BalanceDebit BasicBalanceNotification | Data_Block BlockNotification

definition Core_Balance_Transfer_Notification :: NotificationType where
  "Core_Balance_Transfer_Notification = MakeNotificationType Channel_All Facility_Core 0x0003"

definition Core_Block_Notification :: NotificationType where
  "Core_Block_Notification = MakeNotificationType Channel_All Facility_Core 0x0005"

definition Core_Balance_Debit_Notification :: NotificationType where
  "Core_Balance_Debit_Notification = MakeNotificationType Channel_All Facility_Core 0x0008"

subsection \<open>State\<close>

record CatapultState =
  LastRecalculationHeight :: Height
  LastFinalizedHeight :: Height
  DynamicFeeMultiplier :: uint32
  NumTotalTransactions :: uint64

record core_state =
  cs_Accounts :: AccountStateCacheDelta
  dependentState :: CatapultState

subsection \<open>Observers\<close>

definition modify_balances :: "(AccountBalances \<Rightarrow> exn + AccountBalances) \<Rightarrow> AccountState \<Rightarrow> exn + AccountState" where
  "modify_balances f a = rbind (f (Balances a)) (\<lambda>b. Inr (a\<lparr>Balances := b\<rparr>))"

text \<open>Debit and credit state may be the same object.\<close>

definition Transfer :: "Address \<Rightarrow> Address \<Rightarrow> MosaicId \<Rightarrow> Amount \<Rightarrow> AccountStateCacheDelta \<Rightarrow> exn + AccountStateCacheDelta" where
  "Transfer debitAddress creditAddress mosaicId amount c =
     rbind (asc_modify (modify_balances (debit mosaicId amount)) debitAddress c)
       (asc_modify (modify_balances (credit mosaicId amount)) creditAddress)"

definition effective_amount :: "BalanceTransferNotification \<Rightarrow> uint32 \<Rightarrow> Amount" where
  "effective_amount notification multiplier =
     (if Amount_Dynamic = TransferAmountType notification then bn_Amount notification * ucast multiplier else bn_Amount notification)"

definition BalanceTransferObserver :: "ResolverContext \<Rightarrow> NotifyMode \<Rightarrow> BalanceTransferNotification \<Rightarrow> core_state \<Rightarrow> exn + core_state" where
  "BalanceTransferObserver resolvers mode notification s =
     (let sender = resolved_address resolvers (bn_Sender notification); recipient = resolved_address resolvers (btn_Recipient notification)
      in rbind (asc_find sender (cs_Accounts s)) (\<lambda>(senderIter, c).
         rbind (asc_find recipient c) (\<lambda>(recipientIter, c).
         rbind (CacheFindIterator_get senderIter) (\<lambda>_.
         rbind (CacheFindIterator_get recipientIter) (\<lambda>_.
           let effectiveAmount = effective_amount notification (DynamicFeeMultiplier (dependentState s));
               mosaicId = m_mosaicResolver resolvers (bn_MosaicId notification)
           in rbind (if Commit = mode then Transfer sender recipient mosaicId effectiveAmount c
                     else Transfer recipient sender mosaicId effectiveAmount c)
                (\<lambda>c. Inr (s\<lparr>cs_Accounts := c\<rparr>)))))))"

definition BalanceDebitObserver :: "ResolverContext \<Rightarrow> NotifyMode \<Rightarrow> BasicBalanceNotification \<Rightarrow> core_state \<Rightarrow> exn + core_state" where
  "BalanceDebitObserver resolvers mode notification s =
     (let sender = resolved_address resolvers (bn_Sender notification)
      in rbind (asc_find sender (cs_Accounts s)) (\<lambda>(senderIter, c).
         rbind (CacheFindIterator_get senderIter) (\<lambda>_.
           let mosaicId = m_mosaicResolver resolvers (bn_MosaicId notification)
           in rbind (if Commit = mode then asc_modify (modify_balances (debit mosaicId (bn_Amount notification))) sender c
                     else asc_modify (modify_balances (credit mosaicId (bn_Amount notification))) sender c)
                (\<lambda>c. Inr (s\<lparr>cs_Accounts := c\<rparr>)))))"

definition TotalTransactionsObserver :: "NotifyMode \<Rightarrow> BlockNotification \<Rightarrow> core_state \<Rightarrow> exn + core_state" where
  "TotalTransactionsObserver mode notification s =
     (let n = NumTotalTransactions (dependentState s)
      in Inr (s\<lparr>dependentState := dependentState s\<lparr>NumTotalTransactions :=
           if Commit = mode then n + ucast (bkn_NumTransactions notification) else n - ucast (bkn_NumTransactions notification)\<rparr>\<rparr>))"

subsection \<open>Validators\<close>

definition Failure_Core_Insufficient_Balance :: ResultCode where
  "Failure_Core_Insufficient_Balance = MakeValidationResult 2 (facility_code Facility_Core) 3 0"

definition TryGetEffectiveAmount :: "BalanceTransferNotification \<Rightarrow> uint32 \<Rightarrow> bool \<times> Amount" where
  "TryGetEffectiveAmount notification feeMultiplier =
     (if Amount_Static = TransferAmountType notification then (True, bn_Amount notification)
      else
        let effectiveAmount = bn_Amount notification * ucast feeMultiplier
        in if 0 = feeMultiplier then (True, effectiveAmount)
           else ((- 1 :: Amount) div ucast feeMultiplier \<ge> bn_Amount notification, effectiveAmount))"

definition FindAccountBalance :: "AccountStateCacheDelta \<Rightarrow> Address \<Rightarrow> MosaicId \<Rightarrow> Amount option" where
  "FindAccountBalance c address mosaicId = map_option (\<lambda>a. ab_get (Balances a) mosaicId) (asc_find_const c address)"

definition CheckBalance :: "ResolverContext \<Rightarrow> ('a BasicBalanceNotification_scheme \<Rightarrow> uint32 \<Rightarrow> bool \<times> Amount) \<Rightarrow> 'a BasicBalanceNotification_scheme
    \<Rightarrow> core_state \<Rightarrow> ResultCode" where
  "CheckBalance resolvers tryGetEffectiveAmount notification s =
     (let mosaicId = m_mosaicResolver resolvers (bn_MosaicId notification)
      in case FindAccountBalance (cs_Accounts s) (resolved_address resolvers (bn_Sender notification)) mosaicId of
           None \<Rightarrow> Failure_Core_Insufficient_Balance
         | Some amount \<Rightarrow>
             let (hasAmount, effectiveAmount) = tryGetEffectiveAmount notification (DynamicFeeMultiplier (dependentState s))
             in if hasAmount \<and> amount \<ge> effectiveAmount then Result_Success else Failure_Core_Insufficient_Balance)"

definition BalanceTransferValidator :: "ResolverContext \<Rightarrow> BalanceTransferNotification \<Rightarrow> core_state \<Rightarrow> ResultCode" where
  "BalanceTransferValidator resolvers = CheckBalance resolvers TryGetEffectiveAmount"

definition BalanceDebitValidator :: "ResolverContext \<Rightarrow> BasicBalanceNotification \<Rightarrow> core_state \<Rightarrow> ResultCode" where
  "BalanceDebitValidator resolvers = CheckBalance resolvers (\<lambda>notification _. (True, bn_Amount notification))"

text \<open>
  The aggregates of the core plugin, restricted to these validators and observers. The cast of a notification to the type
  that its type field names always succeeds for notifications that the plugins create; it is written as a case here.
\<close>

definition core_observer :: "ResolverContext \<Rightarrow> (core_data, core_state) observer" where
  "core_observer resolvers = AggregateObserver
     [ConditionalObserver Core_Balance_Debit_Notification (\<lambda>mode n s.
        case n_Data n of Data_BalanceDebit d \<Rightarrow> BalanceDebitObserver resolvers mode d s | _ \<Rightarrow> Inr s),
      ConditionalObserver Core_Balance_Transfer_Notification (\<lambda>mode n s.
        case n_Data n of Data_BalanceTransfer d \<Rightarrow> BalanceTransferObserver resolvers mode d s | _ \<Rightarrow> Inr s),
      ConditionalObserver Core_Block_Notification (\<lambda>mode n s.
        case n_Data n of Data_Block d \<Rightarrow> TotalTransactionsObserver mode d s | _ \<Rightarrow> Inr s)]"

definition core_validator :: "ResolverContext \<Rightarrow> (ResultCode \<Rightarrow> bool) \<Rightarrow> (core_data, core_state) validator" where
  "core_validator resolvers isSuppressedFailure = AggregateValidator isSuppressedFailure
     [ConditionalValidator Core_Balance_Debit_Notification (\<lambda>n s.
        case n_Data n of Data_BalanceDebit d \<Rightarrow> BalanceDebitValidator resolvers d s | _ \<Rightarrow> Result_Success),
      ConditionalValidator Core_Balance_Transfer_Notification (\<lambda>n s.
        case n_Data n of Data_BalanceTransfer d \<Rightarrow> BalanceTransferValidator resolvers d s | _ \<Rightarrow> Result_Success)]"

subsection \<open>What the observers do to the balances\<close>

type_synonym balance_view = "Address \<rightharpoonup> AccountState \<times> (MosaicId \<Rightarrow> Amount)"

definition bal :: "balance_view \<Rightarrow> Address \<Rightarrow> MosaicId \<Rightarrow> Amount" where
  "bal v address mosaicId = (case v address of None \<Rightarrow> 0 | Some (_, f) \<Rightarrow> f mosaicId)"

definition add_balance :: "Address \<Rightarrow> MosaicId \<Rightarrow> Amount \<Rightarrow> balance_view \<Rightarrow> balance_view" where
  "add_balance address mosaicId x v = v(address := map_option (\<lambda>(a, f). (a, f(mosaicId := f mosaicId + x))) (v address))"

lemma add_balance_commute: "add_balance a m x (add_balance b m y v) = add_balance b m y (add_balance a m x v)"
  by (auto simp: add_balance_def fun_eq_iff option.map_comp comp_def split_beta add_ac split: option.splits)

lemma add_balance_cancel [simp]: "add_balance a m x (add_balance a m (- x) v) = v" "add_balance a m (- x) (add_balance a m x v) = v"
  by (auto simp: add_balance_def fun_eq_iff option.map_comp comp_def split_beta option.map_ident split: option.splits intro: option.map_ident)

lemma bal_add_balance: "v a \<noteq> None \<Longrightarrow> bal (add_balance a m x v) b k = (if b = a \<and> k = m then bal v a m + x else bal v b k)"
  by (auto simp: bal_def add_balance_def split: option.splits)

lemma dom_add_balance [simp]: "dom (add_balance a m x v) = dom v"
  by (auto simp: add_balance_def split: if_splits)

lemma asc_view_None [simp]: "asc_view c a = None \<longleftrightarrow> asc_states c a = None"
  by (simp add: asc_view_def)

lemma asc_view_store:
  assumes "asc_inv c" "asc_live c (as_Address a)" "asc_states c (as_Address a) = Some a0"
    "b = a0\<lparr>Balances := Balances a\<rparr>" "b = a" "ab_get (Balances a) = (ab_get (Balances a0))(m := ab_get (Balances a0) m + x)" "ab_inv (Balances a)"
  shows "asc_view (asc_store a c) = add_balance (as_Address a) m x (asc_view c)"
proof -
  have "a0\<lparr>Balances := ab_new\<rparr> = a\<lparr>Balances := ab_new\<rparr>"
    using arg_cong [where f = "\<lambda>b. b\<lparr>Balances := ab_new\<rparr>", OF trans [OF sym [OF assms(4)] assms(5)]] by simp
  then show ?thesis
    using assms(3,6) by (auto simp: asc_view_def asc_store_live(2) [OF assms(1,2,7)] add_balance_def account_view_def fun_eq_iff)
qed

lemma modify_pays:
  assumes "asc_inv c" "asc_live c k" "asc_states c k \<noteq> None"
    and "\<And>b. ab_inv b \<Longrightarrow> ab_get b m = bal (asc_view c) k m
      \<Longrightarrow> \<exists>b'. f b = Inr b' \<and> ab_inv b' \<and> ab_get b' = (ab_get b)(m := ab_get b m + x)"
  shows "\<exists>c'. asc_modify (modify_balances f) k c = Inr c' \<and> asc_inv c' \<and> asc_view c' = add_balance k m x (asc_view c)
    \<and> asc_rest c' = asc_rest c \<and> (\<forall>j. asc_live c j \<longrightarrow> asc_live c' j)"
proof -
  obtain a where a: "asc_states c k = Some a" using assms(3) by blast
  note ai = asc_invD(3,4) [OF assms(1) a]
  have "ab_get (Balances a) m = bal (asc_view c) k m" by (simp add: bal_def asc_view_def a account_view_def)
  from assms(4) [OF ai(2) this] obtain b where b: "f (Balances a) = Inr b" "ab_inv b" "ab_get b = (ab_get (Balances a))(m := ab_get (Balances a) m + x)"
    by blast
  let ?a = "a\<lparr>Balances := b\<rparr>"
  have addr: "as_Address ?a = k" using ai(1) by simp
  have "asc_modify (modify_balances f) k c = Inr (asc_store ?a c)"
    by (rule asc_modify_ok [OF assms(1,2) a]) (simp_all add: modify_balances_def b ai(1))
  moreover have "asc_view (asc_store ?a c) = add_balance (as_Address ?a) m x (asc_view c)"
    by (rule asc_view_store) (use assms(1,2) a ai(1) b in simp_all)
  ultimately show ?thesis
    using asc_store_live [OF assms(1), of ?a] assms(2) b(2) ai(1) addr by (intro exI [of _ "asc_store ?a c"]) simp
qed

lemma modify_credit:
  assumes "asc_inv c" "asc_live c k" "asc_states c k \<noteq> None" "x = 0 \<or> m \<noteq> 0"
  shows "\<exists>c'. asc_modify (modify_balances (credit m x)) k c = Inr c' \<and> asc_inv c' \<and> asc_view c' = add_balance k m x (asc_view c)
    \<and> asc_rest c' = asc_rest c \<and> (\<forall>j. asc_live c j \<longrightarrow> asc_live c' j)"
proof (rule modify_pays [OF assms(1-3)])
  fix b
  assume b: "ab_inv b"
  show "\<exists>b'. credit m x b = Inr b' \<and> ab_inv b' \<and> ab_get b' = (ab_get b)(m := ab_get b m + x)"
  proof (cases "x = 0")
    case True
    then show ?thesis using b by (simp add: credit_def IsZero_def)
  next
    case False
    then show ?thesis using credit_ok [OF b] assms(4) by blast
  qed
qed

lemma modify_debit:
  assumes "asc_inv c" "asc_live c k" "asc_states c k \<noteq> None" "x \<le> bal (asc_view c) k m"
  shows "\<exists>c'. asc_modify (modify_balances (debit m x)) k c = Inr c' \<and> asc_inv c' \<and> asc_view c' = add_balance k m (- x) (asc_view c)
    \<and> asc_rest c' = asc_rest c \<and> (\<forall>j. asc_live c j \<longrightarrow> asc_live c' j)"
proof (rule modify_pays [OF assms(1-3)])
  fix b
  assume "ab_inv b" "ab_get b m = bal (asc_view c) k m"
  then show "\<exists>b'. debit m x b = Inr b' \<and> ab_inv b' \<and> ab_get b' = (ab_get b)(m := ab_get b m + - x)"
    using debit_ok [of b x m] assms(4) by simp
qed

lemma bal_mosaic_zero: "asc_inv c \<Longrightarrow> bal (asc_view c) k 0 = 0"
  using asc_invD(4) [of c k]
  by (auto simp: bal_def asc_view_def account_view_def ab_get_fun ab_inv_def cmm_view_zero split: option.splits)

lemma zero_or_mosaic: "asc_inv c \<Longrightarrow> x \<le> bal (asc_view c) k m \<Longrightarrow> x = 0 \<or> m \<noteq> 0"
  using bal_mosaic_zero [of c k] by auto

lemma Transfer_ok:
  assumes "asc_inv c" "asc_live c d" "asc_live c r" "asc_states c d \<noteq> None" "asc_states c r \<noteq> None" "x \<le> bal (asc_view c) d m"
  shows "\<exists>c'. Transfer d r m x c = Inr c' \<and> asc_inv c' \<and> asc_view c' = add_balance r m x (add_balance d m (- x) (asc_view c))
    \<and> asc_rest c' = asc_rest c"
proof -
  obtain c1 where c1: "asc_modify (modify_balances (debit m x)) d c = Inr c1" "asc_inv c1" "asc_view c1 = add_balance d m (- x) (asc_view c)"
      "asc_rest c1 = asc_rest c" "\<forall>j. asc_live c j \<longrightarrow> asc_live c1 j"
    using modify_debit [OF assms(1,2,4,6)] by blast
  have "asc_states c1 r \<noteq> None" using assms(5) dom_add_balance [of d m "- x" "asc_view c"] c1(3) by (metis asc_view_None domIff)
  with modify_credit [OF c1(2)] c1(5) assms(3) zero_or_mosaic [OF assms(1,6)]
  obtain c2 where "asc_modify (modify_balances (credit m x)) r c1 = Inr c2" "asc_inv c2" "asc_view c2 = add_balance r m x (asc_view c1)"
      "asc_rest c2 = asc_rest c1" by blast
  with c1 show ?thesis by (simp add: Transfer_def)
qed

definition core_view :: "core_state \<Rightarrow> balance_view \<times> ((Key \<rightharpoonup> Address) \<times> Options \<times> (Height \<times> Address, unit) smap \<times> (Height \<times> Key, unit) smap) \<times> CatapultState" where
  "core_view s = (asc_view (cs_Accounts s), asc_rest (cs_Accounts s), dependentState s)"

lemma transfer_observer:
  fixes n resolvers mode s
  defines "a \<equiv> resolved_address resolvers (bn_Sender n)" and "b \<equiv> resolved_address resolvers (btn_Recipient n)"
    and "m \<equiv> m_mosaicResolver resolvers (bn_MosaicId n)" and "x \<equiv> effective_amount n (DynamicFeeMultiplier (dependentState s))"
    and "d \<equiv> if mode = Commit then resolved_address resolvers (bn_Sender n) else resolved_address resolvers (btn_Recipient n)"
    and "r \<equiv> if mode = Commit then resolved_address resolvers (btn_Recipient n) else resolved_address resolvers (bn_Sender n)"
    and "c \<equiv> cs_Accounts s"
  assumes "asc_inv c" "asc_states c a \<noteq> None" "asc_states c b \<noteq> None" "x \<le> bal (asc_view c) d m"
  shows "\<exists>s'. BalanceTransferObserver resolvers mode n s = Inr s' \<and> asc_inv (cs_Accounts s')
    \<and> core_view s' = (add_balance r m x (add_balance d m (- x) (asc_view c)), asc_rest c, dependentState s)"
proof -
  obtain i c1 where c1: "asc_find a c = Inr (i, c1)" "asc_inv c1" "asc_view c1 = asc_view c" "asc_rest c1 = asc_rest c" "i \<noteq> None" "asc_live c1 a"
    using asc_find_live [OF assms(8), of a] assms(9) by auto
  have s1: "asc_states c1 a \<noteq> None" "asc_states c1 b \<noteq> None" using c1(3) assms(9,10) by (metis asc_view_None)+
  obtain j c2 where c2: "asc_find b c1 = Inr (j, c2)" "asc_inv c2" "asc_view c2 = asc_view c1" "asc_rest c2 = asc_rest c1" "j \<noteq> None"
      "asc_live c2 a" "asc_live c2 b"
    using asc_find_live [OF c1(2), of b] s1 c1(6) by auto
  have s2: "asc_states c2 a \<noteq> None" "asc_states c2 b \<noteq> None" using c2(3) s1 by (metis asc_view_None)+
  have dr: "asc_live c2 d" "asc_live c2 r" "asc_states c2 d \<noteq> None" "asc_states c2 r \<noteq> None" using c2(6,7) s2 by (auto simp: d_def r_def a_def b_def)
  obtain c3 where c3: "Transfer d r m x c2 = Inr c3" "asc_inv c3" "asc_view c3 = add_balance r m x (add_balance d m (- x) (asc_view c2))" "asc_rest c3 = asc_rest c2"
    using Transfer_ok [OF c2(2) dr] assms(11) c1(3) c2(3) by metis
  have "BalanceTransferObserver resolvers mode n s = Inr (s\<lparr>cs_Accounts := c3\<rparr>)"
    using c1(1,5) c2(1,5) c3(1) unfolding BalanceTransferObserver_def Let_def a_def [symmetric] b_def [symmetric] m_def [symmetric] x_def [symmetric] c_def [symmetric]
    by (cases mode) (auto simp: CacheFindIterator_get_def d_def r_def a_def b_def)
  then show ?thesis using c3 c1(3,4) c2(3,4) by (simp add: core_view_def)
qed

lemma debit_observer:
  fixes n resolvers mode s
  defines "a \<equiv> resolved_address resolvers (bn_Sender n)" and "m \<equiv> m_mosaicResolver resolvers (bn_MosaicId n)" and "c \<equiv> cs_Accounts s"
  assumes "asc_inv c" "asc_states c a \<noteq> None"
    and "if mode = Commit then bn_Amount n \<le> bal (asc_view c) a m else bn_Amount n = 0 \<or> m \<noteq> 0"
  shows "\<exists>s'. BalanceDebitObserver resolvers mode n s = Inr s' \<and> asc_inv (cs_Accounts s')
    \<and> core_view s' = (add_balance a m (if mode = Commit then - bn_Amount n else bn_Amount n) (asc_view c), asc_rest c, dependentState s)"
proof -
  obtain i c1 where c1: "asc_find a c = Inr (i, c1)" "asc_inv c1" "asc_view c1 = asc_view c" "asc_rest c1 = asc_rest c" "i \<noteq> None" "asc_live c1 a"
    using asc_find_live [OF assms(4), of a] assms(5) by auto
  have s1: "asc_states c1 a \<noteq> None" using c1(3) assms(5) by (metis asc_view_None)
  let ?x = "if mode = Commit then - bn_Amount n else bn_Amount n"
  obtain c2 where c2: "(if Commit = mode then asc_modify (modify_balances (debit m (bn_Amount n))) a c1
        else asc_modify (modify_balances (credit m (bn_Amount n))) a c1) = Inr c2"
      "asc_inv c2" "asc_view c2 = add_balance a m ?x (asc_view c)" "asc_rest c2 = asc_rest c1"
  proof (cases mode)
    case Commit
    then show ?thesis using modify_debit [OF c1(2,6) s1, of "bn_Amount n" m] assms(6) c1(3) that by auto
  next
    case Rollback
    then show ?thesis using modify_credit [OF c1(2,6) s1, of "bn_Amount n" m] assms(6) c1(3) that by auto
  qed
  have "BalanceDebitObserver resolvers mode n s = Inr (s\<lparr>cs_Accounts := c2\<rparr>)"
    using c1(1,5) c2(1) unfolding BalanceDebitObserver_def Let_def a_def [symmetric] m_def [symmetric] c_def [symmetric]
    by (auto simp: CacheFindIterator_get_def)
  then show ?thesis using c2 c1(4) by (simp add: core_view_def)
qed

subsection \<open>The total amount of a mosaic\<close>

definition total :: "balance_view \<Rightarrow> MosaicId \<Rightarrow> nat" where
  "total v mosaicId = (\<Sum>a\<in>dom v. unat (bal v a mosaicId))"

lemma total_add_balance:
  assumes "finite (dom v)" "v a \<noteq> None"
  shows "total (add_balance a m x v) k + unat (bal v a k) = total v k + unat (bal (add_balance a m x v) a k)"
proof -
  have a: "a \<in> dom v" using assms(2) by blast
  have "(\<Sum>b\<in>dom v - {a}. unat (bal (add_balance a m x v) b k)) = (\<Sum>b\<in>dom v - {a}. unat (bal v b k))"
    by (rule sum.cong) (auto simp: bal_add_balance [where v = v, OF assms(2)])
  then show ?thesis unfolding total_def dom_add_balance
    by (simp add: sum.remove [OF assms(1) a])
qed

lemma bal_le_total:
  assumes "finite (dom v)"
  shows "unat (bal v a m) \<le> total v m"
proof (cases "v a")
  case None
  then show ?thesis by (simp add: bal_def)
next
  case (Some y)
  then show ?thesis unfolding total_def using member_le_sum [of a "dom v" "\<lambda>a. unat (bal v a m)"] assms by blast
qed

lemma debit_total:
  assumes "finite (dom v)" "v d \<noteq> None" "x \<le> bal v d m"
  shows "total (add_balance d m (- x) v) k = (if k = m then total v m - unat x else total v k)"
proof -
  have "bal (add_balance d m (- x) v) d k = (if k = m then bal v d m - x else bal v d k)" using bal_add_balance [of v, OF assms(2)] by simp
  then show ?thesis
    using total_add_balance [OF assms(1,2), of m "- x" k] bal_le_total [OF assms(1), of d k] assms(3) word_le_nat_alt [of x "bal v d m"]
    by (auto simp: unat_sub)
qed

lemma transfer_total:
  assumes "finite (dom v)" "v d \<noteq> None" "v r \<noteq> None" "x \<le> bal v d m" "total v m < 2 ^ 64"
  shows "total (add_balance r m x (add_balance d m (- x) v)) k = total v k" "x \<le> bal (add_balance r m x (add_balance d m (- x) v)) r m"
proof -
  let ?v = "add_balance d m (- x) v"
  have v: "finite (dom ?v)" "?v r \<noteq> None" using assms(1,3) dom_add_balance [of d m "- x" v] by (simp, blast)
  have t: "total ?v m = total v m - unat x" using debit_total [OF assms(1,2,4), of m] by simp
  have le: "unat x \<le> total v m" using bal_le_total [OF assms(1), of d m] assms(4) word_le_nat_alt [of x "bal v d m"] by simp
  have no: "unat (bal ?v r m) + unat x < 2 ^ 64" using bal_le_total [OF v(1), of r m] t le assms(5) by simp
  then have plus: "unat (bal ?v r m + x) = unat (bal ?v r m) + unat x" by (simp add: unat_word_ariths)
  have b: "bal (add_balance r m x ?v) r k = (if k = m then bal ?v r m + x else bal ?v r k)" for k using bal_add_balance [of ?v, OF v(2)] by simp
  show "total (add_balance r m x ?v) k = total v k"
  proof (cases "k = m")
    case True
    then show ?thesis using total_add_balance [OF v, of m x k] b [of k] plus t le by simp
  next
    case False
    then show ?thesis using total_add_balance [OF v, of m x k] b [of k] debit_total [OF assms(1,2,4), of k] by simp
  qed
  show "x \<le> bal (add_balance r m x ?v) r m" using b [of m] plus by (simp add: word_le_nat_alt)
qed

subsection \<open>The contract of the processing\<close>

lemma finite_bsd_view: "finite (dom (bsd_view d))"
proof (rule finite_subset)
  show "dom (bsd_view d) \<subseteq> dom (smap_find (copiedElements d)) \<union> dom (smap_find (originalElements d)) \<union> dom (smap_find (addedElements d))"
    by (auto simp: bsd_view_def split: option.splits if_splits)
qed simp

lemma finite_asc_view: "finite (dom (asc_view c))"
proof -
  have "dom (asc_view c) = dom (bsd_view (m_pStateByAddress c))" by (auto simp: asc_view_def asc_states_def)
  then show ?thesis using finite_bsd_view by metis
qed

definition has_core_type :: "core_data Notification \<Rightarrow> bool" where
  "has_core_type n \<longleftrightarrow> n_Type n = (case n_Data n of Data_BalanceTransfer _ \<Rightarrow> Core_Balance_Transfer_Notification
     | Data_BalanceDebit _ \<Rightarrow> Core_Balance_Debit_Notification | Data_Block _ \<Rightarrow> Core_Block_Notification)"

lemma core_types:
  "AreEqualExcludingChannel Core_Balance_Transfer_Notification Core_Balance_Transfer_Notification"
  "AreEqualExcludingChannel Core_Balance_Debit_Notification Core_Balance_Debit_Notification"
  "AreEqualExcludingChannel Core_Block_Notification Core_Block_Notification"
  "\<not> AreEqualExcludingChannel Core_Balance_Transfer_Notification Core_Balance_Debit_Notification"
  "\<not> AreEqualExcludingChannel Core_Balance_Debit_Notification Core_Balance_Transfer_Notification"
  "\<not> AreEqualExcludingChannel Core_Balance_Transfer_Notification Core_Block_Notification"
  "\<not> AreEqualExcludingChannel Core_Block_Notification Core_Balance_Transfer_Notification"
  "\<not> AreEqualExcludingChannel Core_Balance_Debit_Notification Core_Block_Notification"
  "\<not> AreEqualExcludingChannel Core_Block_Notification Core_Balance_Debit_Notification"
  by code_simp+

lemma core_channels:
  "IsSet Core_Balance_Transfer_Notification Channel_Validator" "IsSet Core_Balance_Debit_Notification Channel_Validator"
  "IsSet Core_Block_Notification Channel_Validator" "IsSet Core_Balance_Transfer_Notification Channel_Observer"
  "IsSet Core_Balance_Debit_Notification Channel_Observer" "IsSet Core_Block_Notification Channel_Observer"
  by code_simp+

lemma core_observer_cases:
  assumes "has_core_type n"
  shows "core_observer resolvers mode n s = (case n_Data n of
      Data_BalanceTransfer d \<Rightarrow> BalanceTransferObserver resolvers mode d s
    | Data_BalanceDebit d \<Rightarrow> BalanceDebitObserver resolvers mode d s
    | Data_Block d \<Rightarrow> TotalTransactionsObserver mode d s)"
  using assms
  by (cases "n_Data n"; cases mode)
     (simp_all add: core_observer_def AggregateObserver_def ConditionalObserver_def has_core_type_def core_types rbind_def split: sum.splits)

lemma result_codes:
  "IsValidationResultFailure Failure_Core_Insufficient_Balance" "\<not> IsValidationResultFailure Result_Success" "IsValidationResultSuccess Result_Success"
  "\<not> IsValidationResultSuccess Failure_Core_Insufficient_Balance" "AggregateValidationResult Result_Success Result_Success = Result_Success"
  by code_simp+

lemma core_validator_cases:
  assumes "has_core_type n" "\<not> isSuppressedFailure Failure_Core_Insufficient_Balance"
  shows "core_validator resolvers isSuppressedFailure n s = (case n_Data n of
      Data_BalanceTransfer d \<Rightarrow> BalanceTransferValidator resolvers d s
    | Data_BalanceDebit d \<Rightarrow> BalanceDebitValidator resolvers d s
    | Data_Block d \<Rightarrow> Result_Success)"
proof -
  have cb: "CheckBalance resolvers f d s \<in> {Result_Success, Failure_Core_Insufficient_Balance}" for f and d :: "'b BasicBalanceNotification_scheme"
    by (auto simp: CheckBalance_def Let_def split: option.splits prod.splits)
  have two: "aggregate_validate isSuppressedFailure [v, w] Result_Success n s = (if v n s = Result_Success then w n s else v n s)"
    if "v n s \<in> {Result_Success, Failure_Core_Insufficient_Balance}" "w n s \<in> {Result_Success, Failure_Core_Insufficient_Balance}" for v w :: "(core_data, core_state) validator"
    using that assms(2) by (auto simp: result_codes Let_def)
  show ?thesis
    unfolding core_validator_def AggregateValidator_def
    by (subst two) (use assms(1) cb in \<open>auto simp: ConditionalValidator_def has_core_type_def core_types BalanceTransferValidator_def BalanceDebitValidator_def
      split: core_data.splits\<close>)
qed

text \<open>Accounts that are known to exist, and totals that fit into an amount.\<close>

definition core_inv :: "Address set \<Rightarrow> core_state \<Rightarrow> bool" where
  "core_inv known s \<longleftrightarrow> asc_inv (cs_Accounts s) \<and> known \<subseteq> dom (asc_view (cs_Accounts s))
     \<and> (\<forall>m. total (asc_view (cs_Accounts s)) m < 2 ^ 64)"

definition core_expected :: "ResolverContext \<Rightarrow> Address set \<Rightarrow> core_data Notification \<Rightarrow> bool" where
  "core_expected resolvers known n \<longleftrightarrow> has_core_type n \<and> sizeof_Notification \<le> n_Size n
     \<and> (case n_Data n of Data_BalanceTransfer d \<Rightarrow> resolved_address resolvers (btn_Recipient d) \<in> known | _ \<Rightarrow> True)"

definition core_ready :: "ResolverContext \<Rightarrow> core_data Notification \<Rightarrow> core_state \<Rightarrow> bool" where
  "core_ready resolvers n s \<longleftrightarrow> has_core_type n \<and> (let v = asc_view (cs_Accounts s) in case n_Data n of
       Data_BalanceTransfer d \<Rightarrow> asc_states (cs_Accounts s) (resolved_address resolvers (bn_Sender d)) \<noteq> None
         \<and> asc_states (cs_Accounts s) (resolved_address resolvers (btn_Recipient d)) \<noteq> None
         \<and> effective_amount d (DynamicFeeMultiplier (dependentState s)) \<le> bal v (resolved_address resolvers (bn_Sender d)) (m_mosaicResolver resolvers (bn_MosaicId d))
     | Data_BalanceDebit d \<Rightarrow> asc_states (cs_Accounts s) (resolved_address resolvers (bn_Sender d)) \<noteq> None
         \<and> bn_Amount d \<le> bal v (resolved_address resolvers (bn_Sender d)) (m_mosaicResolver resolvers (bn_MosaicId d))
     | Data_Block d \<Rightarrow> True)"

lemma core_inv_viewI:
  assumes "asc_inv (cs_Accounts t)" "core_view t = core_view s" "core_inv known s"
  shows "core_inv known t"
  using assms by (simp add: core_inv_def core_view_def)

lemma FindAccountBalance_bal:
  assumes "asc_inv c"
  shows "FindAccountBalance c a m = (if asc_states c a = None then None else Some (bal (asc_view c) a m))"
  using bsd_find_const_view [OF asc_invD(1) [OF assms], of a]
  by (auto simp: FindAccountBalance_def asc_find_const_def asc_view_def asc_states_def bal_def account_view_def split: option.splits)

lemma core_validated:
  assumes "core_inv known s" "core_expected resolvers known n" "\<not> isSuppressedFailure Failure_Core_Insufficient_Balance"
    and "IsValidationResultSuccess (core_validator resolvers isSuppressedFailure n s)"
  shows "core_ready resolvers n s"
proof -
  have t: "has_core_type n" using assms(2) by (simp add: core_expected_def)
  have inv: "asc_inv (cs_Accounts s)" using assms(1) by (simp add: core_inv_def)
  have kn: "a \<in> known \<Longrightarrow> \<exists>y. asc_states (cs_Accounts s) a = Some y" for a
    using assms(1) by (fastforce simp: core_inv_def asc_view_def)
  have eff: "snd (TryGetEffectiveAmount d f) = effective_amount d f" for d f
    by (cases "TransferAmountType d") (simp_all add: TryGetEffectiveAmount_def effective_amount_def Let_def)
  show ?thesis
    using assms(1,2,4) unfolding core_validator_cases [where isSuppressedFailure = isSuppressedFailure, OF t assms(3)]
    by (auto simp: core_ready_def core_expected_def core_inv_def t BalanceTransferValidator_def BalanceDebitValidator_def CheckBalance_def
        FindAccountBalance_bal [OF inv] Let_def result_codes kn eff [symmetric] split: core_data.splits if_splits prod.splits)
qed

lemma core_commits:
  assumes "core_inv known s" "core_ready resolvers n s"
  shows "\<exists>s'. core_observer resolvers Commit n s = Inr s' \<and> core_inv known s'
    \<and> (\<forall>u. core_inv known u \<longrightarrow> core_view u = core_view s'
        \<longrightarrow> (\<exists>t. core_observer resolvers Rollback n u = Inr t \<and> asc_inv (cs_Accounts t) \<and> core_view t = core_view s))"
proof -
  have t: "has_core_type n" using assms(2) by (simp add: core_ready_def)
  let ?v = "asc_view (cs_Accounts s)"
  have inv: "asc_inv (cs_Accounts s)" "known \<subseteq> dom ?v" "\<And>m. total ?v m < 2 ^ 64" using assms(1) by (simp_all add: core_inv_def)
  note fin = finite_asc_view [of "cs_Accounts s"]
  show ?thesis
  proof (cases "n_Data n")
    case (Data_BalanceTransfer d)
    let ?a = "resolved_address resolvers (bn_Sender d)" and ?b = "resolved_address resolvers (btn_Recipient d)"
      and ?m = "m_mosaicResolver resolvers (bn_MosaicId d)" and ?x = "effective_amount d (DynamicFeeMultiplier (dependentState s))"
    let ?w = "add_balance ?b ?m ?x (add_balance ?a ?m (- ?x) ?v)"
    have states: "asc_states (cs_Accounts s) ?a \<noteq> None" "asc_states (cs_Accounts s) ?b \<noteq> None" and x: "?x \<le> bal ?v ?a ?m"
      using assms(2) Data_BalanceTransfer by (simp_all add: core_ready_def Let_def)
    have ready: "?v ?a \<noteq> None" "?v ?b \<noteq> None" unfolding asc_view_None using states by blast+
    obtain s' where s': "BalanceTransferObserver resolvers Commit d s = Inr s'" "asc_inv (cs_Accounts s')"
        "core_view s' = (?w, asc_rest (cs_Accounts s), dependentState s)"
      using transfer_observer [of s resolvers d Commit, OF inv(1) states] x by simp blast
    note tot = transfer_total [where v = ?v, OF fin ready x inv(3)]
    have "core_inv known s'" using s'(2,3) inv(2,3) tot(1) by (auto simp: core_inv_def core_view_def)
    moreover have "\<exists>t. BalanceTransferObserver resolvers Rollback d u = Inr t \<and> asc_inv (cs_Accounts t) \<and> core_view t = core_view s"
      if u: "core_inv known u" "core_view u = core_view s'" for u
    proof -
      have uv: "asc_view (cs_Accounts u) = ?w" "asc_rest (cs_Accounts u) = asc_rest (cs_Accounts s)" "dependentState u = dependentState s"
        using u(2) s'(3) by (simp_all add: core_view_def)
      have "?a \<in> dom ?w" "?b \<in> dom ?w" unfolding dom_add_balance using ready by blast+
      then have st: "asc_states (cs_Accounts u) ?a \<noteq> None" "asc_states (cs_Accounts u) ?b \<noteq> None"
        unfolding uv(1) [symmetric] by (simp_all add: domIff)
      have ui: "asc_inv (cs_Accounts u)" using u(1) by (simp add: core_inv_def)
      from transfer_observer [of u resolvers d Rollback] ui st tot(2)
      obtain t where "BalanceTransferObserver resolvers Rollback d u = Inr t" "asc_inv (cs_Accounts t)"
          "core_view t = (add_balance ?a ?m ?x (add_balance ?b ?m (- ?x) ?w), asc_rest (cs_Accounts s), dependentState s)"
        by (auto simp: uv)
      then show ?thesis by (simp add: core_view_def)
    qed
    ultimately show ?thesis using s'(1) Data_BalanceTransfer by (auto simp: core_observer_cases [OF t])
  next
    case (Data_BalanceDebit d)
    let ?a = "resolved_address resolvers (bn_Sender d)" and ?m = "m_mosaicResolver resolvers (bn_MosaicId d)" and ?x = "bn_Amount d"
    let ?w = "add_balance ?a ?m (- ?x) ?v"
    have states: "asc_states (cs_Accounts s) ?a \<noteq> None" and x: "?x \<le> bal ?v ?a ?m"
      using assms(2) Data_BalanceDebit by (simp_all add: core_ready_def Let_def)
    have ready: "?v ?a \<noteq> None" unfolding asc_view_None using states by blast
    obtain s' where s': "BalanceDebitObserver resolvers Commit d s = Inr s'" "asc_inv (cs_Accounts s')"
        "core_view s' = (?w, asc_rest (cs_Accounts s), dependentState s)"
      using debit_observer [of s resolvers d Commit, OF inv(1) states] x by simp blast
    have "total ?w m < 2 ^ 64" for m using debit_total [where v = ?v, OF fin ready x, of m] inv(3) [of m] by (auto split: if_splits)
    then have "core_inv known s'" using s'(2,3) inv(2) by (auto simp: core_inv_def core_view_def)
    moreover have "\<exists>t. BalanceDebitObserver resolvers Rollback d u = Inr t \<and> asc_inv (cs_Accounts t) \<and> core_view t = core_view s"
      if u: "core_inv known u" "core_view u = core_view s'" for u
    proof -
      have uv: "asc_view (cs_Accounts u) = ?w" "asc_rest (cs_Accounts u) = asc_rest (cs_Accounts s)" "dependentState u = dependentState s"
        using u(2) s'(3) by (simp_all add: core_view_def)
      have "?a \<in> dom ?w" unfolding dom_add_balance using ready by blast
      then have st: "asc_states (cs_Accounts u) ?a \<noteq> None" unfolding uv(1) [symmetric] by (simp add: domIff)
      have ui: "asc_inv (cs_Accounts u)" using u(1) by (simp add: core_inv_def)
      from debit_observer [of u resolvers d Rollback] ui st zero_or_mosaic [OF inv(1) x]
      show ?thesis by (auto simp: uv core_view_def)
    qed
    ultimately show ?thesis using s'(1) Data_BalanceDebit by (auto simp: core_observer_cases [OF t])
  next
    case (Data_Block d)
    then show ?thesis using assms(1)
      by (auto simp: core_observer_cases [OF t] TotalTransactionsObserver_def Let_def core_inv_def core_view_def)
  qed
qed

interpretation core: validated_observer "core_observer resolvers" "core_ready resolvers" "core_inv known" core_view
  "core_validator resolvers (\<lambda>_. False)" "core_expected resolvers known"
  for resolvers known
proof
  show "\<exists>s'. core_observer resolvers Commit n s = Inr s' \<and> core_inv known s'" if "core_inv known s" "core_ready resolvers n s" for s n
    using core_commits [OF that] by blast
  show "\<exists>t. core_observer resolvers Rollback n u = Inr t \<and> core_inv known t \<and> core_view t = core_view s"
    if "core_inv known s" "core_ready resolvers n s" "core_observer resolvers Commit n s = Inr s'" "core_inv known u" "core_view u = core_view s'" for s n s' u
    using core_commits [OF that(1,2)] that(3-5) core_inv_viewI [OF _ _ that(1)] by fastforce
  show "sizeof_Notification \<le> n_Size n" if "core_expected resolvers known n" for n using that by (simp add: core_expected_def)
  show "core_ready resolvers n s" if s: "core_inv known s" "core_expected resolvers known n"
      and ok: "IsSet (n_Type n) Channel_Validator \<Longrightarrow> IsValidationResultSuccess (core_validator resolvers (\<lambda>_. False) n s)" for s n
  proof (rule core_validated [OF s])
    have "IsSet (n_Type n) Channel_Validator" using s(2) core_channels by (auto simp: core_expected_def has_core_type_def split: core_data.splits)
    then show "IsValidationResultSuccess (core_validator resolvers (\<lambda>_. False) n s)" by (rule ok)
  qed simp
qed

subsection \<open>Properties\<close>

text \<open>
  C12. An unconfirmed transaction that is undone leaves no trace. Publish any notifications of transfers, debits and blocks to a
  processing subscriber with undo enabled, at a state in which the recipients exist and the total of each mosaic fits into an amount.
  This never throws, whether a validator rejects one of them after some have been observed or all are accepted; the invariant holds afterwards; and undo never
  throws and gives back every account with all its balances, the queued removals and the dependent state.
\<close>

theorem undone_transaction_leaves_no_trace:
  assumes "core_inv known s" "\<forall>n\<in>set ns. core_expected resolvers known n"
  shows "\<exists>sub sub'. pns_publish Commit (core_validator resolvers (\<lambda>_. False)) (core_observer resolvers) ns
        (pns_enableUndo (new_ProcessingNotificationSubscriber s)) = Inr sub
    \<and> core_inv known (pns_Cache sub) \<and> pns_undo Commit (core_observer resolvers) sub = Inr sub' \<and> m_notificationBuffers sub' = []
    \<and> core_inv known (pns_Cache sub') \<and> core_view (pns_Cache sub') = core_view s"
  by (rule core.undo_restores [OF assms])

definition core_commitRemovals :: "core_state \<Rightarrow> exn + core_state" where
  "core_commitRemovals s = rbind (asc_commitRemovals Mode_Linked (cs_Accounts s)) (\<lambda>c. Inr (s\<lparr>cs_Accounts := c\<rparr>))"

lemma core_commitRemovals_empty:
  assumes "m_queuedRemoveByAddress (cs_Accounts s) = smap_empty" "m_queuedRemoveByPublicKey (cs_Accounts s) = smap_empty"
  shows "core_commitRemovals s = Inr s"
proof -
  have "cs_Accounts s\<lparr>m_queuedRemoveByAddress := smap_empty, m_queuedRemoveByPublicKey := smap_empty\<rparr> = cs_Accounts s"
    using assms by (cases "cs_Accounts s") simp
  then show ?thesis using assms by (simp add: core_commitRemovals_def asc_commitRemovals_def smap_empty_def)
qed

text \<open>
  C6. Rolling back a block gives back the state before it. If a batch of entities is accepted, then rolling it back, with the notifications of all
  entities in reverse order and the account removals committed at the end, ends normally and gives back every account with all its balances and the
  dependent state.
\<close>

theorem block_rollback_restores_accounts:
  assumes "core_inv known s" "\<forall>e\<in>set es. \<forall>n\<in>set (publisher e). core_expected resolvers known n"
    "m_queuedRemoveByAddress (cs_Accounts s) = smap_empty" "m_queuedRemoveByPublicKey (cs_Accounts s) = smap_empty"
  shows "\<exists>r s'. BatchEntityProcessor (core_validator resolvers (\<lambda>_. False)) (core_observer resolvers) publisher es s = Inr (r, s') \<and> core_inv known s'
    \<and> (IsValidationResultSuccess r \<longrightarrow> (\<exists>t. RollbackBlock (ReverseNotificationObserverAdapter_notify (core_observer resolvers) publisher)
          core_commitRemovals es s' = Inr t \<and> core_view t = core_view s))"
proof -
  have "core_commitRemovals t = Inr t" if "core_view t = core_view s" for t
    using that assms(3,4) by (intro core_commitRemovals_empty) (simp_all add: core_view_def asc_rest_def)
  with core.block_rollback_restores [OF assms(1,2), of core_commitRemovals] show ?thesis by metis
qed

lemma committed_total:
  assumes "committed (core_observer resolvers) (core_ready resolvers) ns s s'" "core_inv known s"
  shows "total (asc_view (cs_Accounts s')) m \<le> total (asc_view (cs_Accounts s)) m
    \<and> ((\<forall>n\<in>set ns. \<forall>d. n_Data n \<noteq> Data_BalanceDebit d) \<longrightarrow> total (asc_view (cs_Accounts s')) m = total (asc_view (cs_Accounts s)) m)"
  using assms
proof (induction ns arbitrary: s)
  case (Cons n ns)
  then obtain s1 where s1: "core_ready resolvers n s" "core_observer resolvers Commit n s = Inr s1"
      "committed (core_observer resolvers) (core_ready resolvers) ns s1 s'" by auto
  have inv1: "core_inv known s1" using core.commits [OF Cons.prems(2) s1(1)] s1(2) by simp
  have t: "has_core_type n" using s1(1) by (simp add: core_ready_def)
  let ?v = "asc_view (cs_Accounts s)"
  have inv: "asc_inv (cs_Accounts s)" "total ?v k < 2 ^ 64" for k using Cons.prems(2) by (simp_all add: core_inv_def)
  note fin = finite_asc_view [of "cs_Accounts s"]
  have "total (asc_view (cs_Accounts s1)) m \<le> total ?v m
      \<and> ((\<forall>d. n_Data n \<noteq> Data_BalanceDebit d) \<longrightarrow> total (asc_view (cs_Accounts s1)) m = total ?v m)"
  proof (cases "n_Data n")
    case (Data_BalanceTransfer d)
    let ?a = "resolved_address resolvers (bn_Sender d)" and ?b = "resolved_address resolvers (btn_Recipient d)"
    have r: "asc_states (cs_Accounts s) ?a \<noteq> None" "asc_states (cs_Accounts s) ?b \<noteq> None"
        "effective_amount d (DynamicFeeMultiplier (dependentState s)) \<le> bal ?v ?a (m_mosaicResolver resolvers (bn_MosaicId d))"
      using s1(1) Data_BalanceTransfer by (simp_all add: core_ready_def Let_def)
    have v: "?v ?a \<noteq> None" "?v ?b \<noteq> None" unfolding asc_view_None using r by blast+
    show ?thesis using transfer_observer [of s resolvers d Commit, OF inv(1) r(1,2)] r(3) s1(2) Data_BalanceTransfer
        transfer_total(1) [where v = ?v, OF fin v r(3) inv(2)]
      by (auto simp: core_observer_cases [OF t] core_view_def)
  next
    case (Data_BalanceDebit d)
    let ?a = "resolved_address resolvers (bn_Sender d)"
    have r: "asc_states (cs_Accounts s) ?a \<noteq> None" "bn_Amount d \<le> bal ?v ?a (m_mosaicResolver resolvers (bn_MosaicId d))"
      using s1(1) Data_BalanceDebit by (simp_all add: core_ready_def Let_def)
    have v: "?v ?a \<noteq> None" unfolding asc_view_None using r by blast
    show ?thesis using debit_observer [of s resolvers d Commit, OF inv(1) r(1)] r(2) s1(2) Data_BalanceDebit
        debit_total [where v = ?v, OF fin v r(2), of m]
      by (auto simp: core_observer_cases [OF t] core_view_def split: if_splits)
  next
    case (Data_Block d)
    then show ?thesis using s1(2) by (auto simp: core_observer_cases [OF t] TotalTransactionsObserver_def Let_def)
  qed
  with Cons.IH [OF s1(3) inv1] show ?case by auto
qed simp

text \<open>
  C13. Mosaics are conserved. Processing any notifications of transfers, debits and blocks, accepted or rejected half way, never creates an amount: the total of
  each mosaic over all accounts does not grow, and without debits it stays the same.
\<close>

theorem processing_conserves_totals:
  assumes "core_inv known s" "\<forall>n\<in>set ns. core_expected resolvers known n"
  shows "\<exists>sub. pns_publish Commit (core_validator resolvers (\<lambda>_. False)) (core_observer resolvers) ns (new_ProcessingNotificationSubscriber s) = Inr sub
    \<and> total (asc_view (cs_Accounts (pns_Cache sub))) m \<le> total (asc_view (cs_Accounts s)) m
    \<and> ((\<forall>n\<in>set ns. \<forall>d. n_Data n \<noteq> Data_BalanceDebit d)
        \<longrightarrow> total (asc_view (cs_Accounts (pns_Cache sub))) m = total (asc_view (cs_Accounts s)) m)"
proof -
  let ?sub = "new_ProcessingNotificationSubscriber s :: (core_data, core_state) ProcessingNotificationSubscriber"
  have new: "pns_Cache ?sub = s" "IsValidationResultSuccess (m_aggregateResult ?sub)"
    by (simp_all add: new_ProcessingNotificationSubscriber_def result_codes)
  have inv: "core_inv known (pns_Cache ?sub)" using assms(1) new by simp
  from core.publish_steps [OF inv assms(2) new(2)] obtain sub ps qs where
      sub: "pns_publish Commit (core_validator resolvers (\<lambda>_. False)) (core_observer resolvers) ns ?sub = Inr sub" "ns = ps @ qs"
      "committed (core_observer resolvers) (core_ready resolvers) (filter is_observed ps) s (pns_Cache sub)"
    by (auto simp: new(1))
  with committed_total [OF sub(3) assms(1), of m] show ?thesis by (auto simp: sub(2))
qed

subsection \<open>Witnesses\<close>

definition funded_account :: "Address \<Rightarrow> Amount \<Rightarrow> AccountState" where
  "funded_account address amount = (new_AccountState address 1)\<lparr>Balances :=
     (case credit 7 amount ab_new of Inl _ \<Rightarrow> ab_new | Inr b \<Rightarrow> b)\<rparr>"

definition example_core :: core_state where
  "example_core = \<lparr>cs_Accounts = asc_new example_options [(5, funded_account 5 100), (6, funded_account 6 20)] smap_empty,
     dependentState = \<lparr>LastRecalculationHeight = 0, LastFinalizedHeight = 0, DynamicFeeMultiplier = 2, NumTotalTransactions = 0\<rparr>\<rparr>"

lemma funded_account_facts:
  "as_Address (funded_account a x) = a" "ab_inv (Balances (funded_account a x))" "ab_get (Balances (funded_account a x)) = (\<lambda>_. 0)(7 := x)"
proof -
  obtain b where b: "credit 7 x ab_new = Inr b" "ab_inv b" "ab_get b = (ab_get ab_new)(7 := ab_get ab_new 7 + x)" using credit_ok [of ab_new 7 x] by auto
  then show "as_Address (funded_account a x) = a" "ab_inv (Balances (funded_account a x))" "ab_get (Balances (funded_account a x)) = (\<lambda>_. 0)(7 := x)"
    by (simp_all add: funded_account_def new_AccountState_def ab_new_get)
qed

lemma example_core_states: "asc_states (cs_Accounts example_core) = [5 \<mapsto> funded_account 5 100, 6 \<mapsto> funded_account 6 20]"
  by (simp add: example_core_def asc_new_def asc_states_def smap_find_def fun_eq_iff)

lemma example_core_inv: "core_inv {5, 6} example_core"
proof -
  let ?c = "cs_Accounts example_core"
  have inv: "asc_inv ?c" unfolding asc_inv_def example_core_states
    by (auto simp: example_core_def asc_new_def smap_inv_def funded_account_facts split: if_splits)
  have dom: "dom (asc_view ?c) = {5, 6}" by (auto simp: asc_view_def example_core_states split: if_splits)
  moreover have "total (asc_view ?c) m < 2 ^ 64" for m
    unfolding total_def dom by (simp add: bal_def asc_view_def example_core_states account_view_def funded_account_facts)
  ultimately show ?thesis using inv by (simp add: core_inv_def)
qed

definition example_resolvers :: ResolverContext where
  "example_resolvers = \<lparr>m_mosaicResolver = id, m_addressResolver = id\<rparr>"

definition example_transfer :: "Address \<Rightarrow> Address \<Rightarrow> Amount \<Rightarrow> core_data Notification" where
  "example_transfer a b x = \<lparr>n_Type = Core_Balance_Transfer_Notification, n_Size = 128,
     n_Data = Data_BalanceTransfer \<lparr>bn_Sender = Resolved a, bn_MosaicId = 7, bn_Amount = x, btn_Recipient = Unresolved b, TransferAmountType = Amount_Dynamic\<rparr>\<rparr>"

lemma example_transfer_expected: "b \<in> {5, 6} \<Longrightarrow> core_expected example_resolvers {5, 6} (example_transfer a b x)"
  by (auto simp: core_expected_def example_transfer_def has_core_type_def sizeof_Notification_def resolved_address_def example_resolvers_def)

theorem undone_transaction_leaves_no_trace_witness:
  "\<exists>sub sub'. pns_publish Commit (core_validator example_resolvers (\<lambda>_. False)) (core_observer example_resolvers)
        [example_transfer 5 6 30, example_transfer 6 5 50] (pns_enableUndo (new_ProcessingNotificationSubscriber example_core)) = Inr sub
    \<and> pns_undo Commit (core_observer example_resolvers) sub = Inr sub' \<and> core_view (pns_Cache sub') = core_view example_core"
  using undone_transaction_leaves_no_trace [OF example_core_inv, of "[example_transfer 5 6 30, example_transfer 6 5 50]" example_resolvers]
    example_transfer_expected by auto

lemma example_block_accepted:
  "case BatchEntityProcessor (core_validator example_resolvers (\<lambda>_. False)) (core_observer example_resolvers)
      (\<lambda>x. [example_transfer 5 6 x, example_transfer 6 5 x]) [10, 20] example_core of Inl _ \<Rightarrow> False | Inr (r, _) \<Rightarrow> IsValidationResultSuccess r"
  by code_simp

theorem block_rollback_restores_accounts_witness:
  "\<exists>r s' t. BatchEntityProcessor (core_validator example_resolvers (\<lambda>_. False)) (core_observer example_resolvers)
        (\<lambda>x. [example_transfer 5 6 x, example_transfer 6 5 x]) [10, 20] example_core = Inr (r, s') \<and> IsValidationResultSuccess r
    \<and> RollbackBlock (ReverseNotificationObserverAdapter_notify (core_observer example_resolvers)
          (\<lambda>x. [example_transfer 5 6 x, example_transfer 6 5 x])) core_commitRemovals [10, 20] s' = Inr t \<and> core_view t = core_view example_core"
proof -
  have "m_queuedRemoveByAddress (cs_Accounts example_core) = smap_empty" "m_queuedRemoveByPublicKey (cs_Accounts example_core) = smap_empty"
    by (simp_all add: example_core_def)
  from block_rollback_restores_accounts [OF example_core_inv _ this, of "[10, 20]" "\<lambda>x. [example_transfer 5 6 x, example_transfer 6 5 x]" example_resolvers]
  show ?thesis using example_transfer_expected example_block_accepted by auto
qed

theorem processing_conserves_totals_witness:
  "\<exists>sub. pns_publish Commit (core_validator example_resolvers (\<lambda>_. False)) (core_observer example_resolvers)
        [example_transfer 5 6 30, example_transfer 6 5 50] (new_ProcessingNotificationSubscriber example_core) = Inr sub
    \<and> total (asc_view (cs_Accounts (pns_Cache sub))) 7 = 120"
proof -
  have "dom (asc_view (cs_Accounts example_core)) = {5, 6}" by (auto simp: asc_view_def example_core_states split: if_splits)
  then have "total (asc_view (cs_Accounts example_core)) 7 = 120"
    by (simp add: total_def bal_def asc_view_def example_core_states account_view_def funded_account_facts)
  with processing_conserves_totals [OF example_core_inv, of "[example_transfer 5 6 30, example_transfer 6 5 50]" example_resolvers 7]
  show ?thesis using example_transfer_expected by (auto simp: example_transfer_def)
qed

end
