(* ===== verification/Unconfirmed.thy ===== *)
theory Unconfirmed
  imports UtCache Transfers
begin

section \<open>The pool of unconfirmed transactions and the balances\<close>

text \<open>
  The updater of unconfirmed transactions composed with the validators and observers of the core system: what they do
  depends on the view of the state alone, so that the contract of the updater holds, and the unconfirmed state is always the confirmed state with the
  transactions of the pool applied.
\<close>

definition core_accepts :: "ResolverContext \<Rightarrow> core_data Notification
    \<Rightarrow> balance_view \<times> ((Key \<rightharpoonup> Address) \<times> Options \<times> (Height \<times> Address, unit) smap \<times> (Height \<times> Key, unit) smap) \<times> CatapultState \<Rightarrow> bool" where
  "core_accepts resolvers n v = (case v of (balances, _, dependent) \<Rightarrow> case n_Data n of
       Data_BalanceTransfer d \<Rightarrow> balances (resolved_address resolvers (bn_Sender d)) \<noteq> None \<and> fst (TryGetEffectiveAmount d (DynamicFeeMultiplier dependent))
         \<and> effective_amount d (DynamicFeeMultiplier dependent) \<le> bal balances (resolved_address resolvers (bn_Sender d)) (m_mosaicResolver resolvers (bn_MosaicId d))
     | Data_BalanceDebit d \<Rightarrow> balances (resolved_address resolvers (bn_Sender d)) \<noteq> None
         \<and> bn_Amount d \<le> bal balances (resolved_address resolvers (bn_Sender d)) (m_mosaicResolver resolvers (bn_MosaicId d))
     | Data_Block _ \<Rightarrow> True)"

definition core_effect :: "ResolverContext \<Rightarrow> core_data Notification
    \<Rightarrow> balance_view \<times> ((Key \<rightharpoonup> Address) \<times> Options \<times> (Height \<times> Address, unit) smap \<times> (Height \<times> Key, unit) smap) \<times> CatapultState
    \<Rightarrow> balance_view \<times> ((Key \<rightharpoonup> Address) \<times> Options \<times> (Height \<times> Address, unit) smap \<times> (Height \<times> Key, unit) smap) \<times> CatapultState" where
  "core_effect resolvers n v = (case v of (balances, rest, dependent) \<Rightarrow> case n_Data n of
       Data_BalanceTransfer d \<Rightarrow>
         let m = m_mosaicResolver resolvers (bn_MosaicId d); x = effective_amount d (DynamicFeeMultiplier dependent)
         in (add_balance (resolved_address resolvers (btn_Recipient d)) m x (add_balance (resolved_address resolvers (bn_Sender d)) m (- x) balances), rest, dependent)
     | Data_BalanceDebit d \<Rightarrow>
         (add_balance (resolved_address resolvers (bn_Sender d)) (m_mosaicResolver resolvers (bn_MosaicId d)) (- bn_Amount d) balances, rest, dependent)
     | Data_Block d \<Rightarrow> (balances, rest, dependent\<lparr>NumTotalTransactions := NumTotalTransactions dependent + ucast (bkn_NumTransactions d)\<rparr>))"

lemma core_accepts_ok:
  assumes "core_inv known s" "core_expected resolvers known n"
  shows "IsValidationResultSuccess (core_validator resolvers (\<lambda>_. False) n s) \<longleftrightarrow> core_accepts resolvers n (core_view s)"
proof -
  have t: "has_core_type n" using assms(2) by (simp add: core_expected_def)
  have inv: "asc_inv (cs_Accounts s)" using assms(1) by (simp add: core_inv_def)
  have eff: "snd (TryGetEffectiveAmount d f) = effective_amount d f" for d f
    by (cases "TransferAmountType d") (simp_all add: TryGetEffectiveAmount_def effective_amount_def Let_def)
  have cases: "core_validator resolvers (\<lambda>_. False) n s = (case n_Data n of
      Data_BalanceTransfer d \<Rightarrow> BalanceTransferValidator resolvers d s
    | Data_BalanceDebit d \<Rightarrow> BalanceDebitValidator resolvers d s
    | Data_Block d \<Rightarrow> Result_Success)"
    using core_validator_cases [where isSuppressedFailure = "\<lambda>_. False", OF t] by simp
  show ?thesis
    unfolding cases
    by (auto simp: core_accepts_def core_view_def BalanceTransferValidator_def BalanceDebitValidator_def CheckBalance_def case_prod_unfold
        FindAccountBalance_bal [OF inv] Let_def result_codes eff asc_view_def split: core_data.splits)
qed

lemma core_effect_ok:
  assumes "core_inv known s" "core_ready resolvers n s" "core_observer resolvers Commit n s = Inr s'"
  shows "core_view s' = core_effect resolvers n (core_view s)"
proof -
  have t: "has_core_type n" using assms(2) by (simp add: core_ready_def)
  have inv: "asc_inv (cs_Accounts s)" using assms(1) by (simp add: core_inv_def)
  show ?thesis
  proof (cases "n_Data n")
    case (Data_BalanceTransfer d)
    then have r: "asc_states (cs_Accounts s) (resolved_address resolvers (bn_Sender d)) \<noteq> None" "asc_states (cs_Accounts s) (resolved_address resolvers (btn_Recipient d)) \<noteq> None"
      and x: "effective_amount d (DynamicFeeMultiplier (dependentState s))
        \<le> bal (asc_view (cs_Accounts s)) (resolved_address resolvers (bn_Sender d)) (m_mosaicResolver resolvers (bn_MosaicId d))"
      using assms(2) by (simp_all add: core_ready_def Let_def)
    from transfer_observer [of s resolvers d Commit, OF inv r] x assms(3) Data_BalanceTransfer show ?thesis
      by (auto simp: core_observer_cases [OF t] core_effect_def core_view_def Let_def)
  next
    case (Data_BalanceDebit d)
    then have r: "asc_states (cs_Accounts s) (resolved_address resolvers (bn_Sender d)) \<noteq> None"
      and x: "bn_Amount d \<le> bal (asc_view (cs_Accounts s)) (resolved_address resolvers (bn_Sender d)) (m_mosaicResolver resolvers (bn_MosaicId d))"
      using assms(2) by (simp_all add: core_ready_def Let_def)
    from debit_observer [of s resolvers d Commit, OF inv r] x assms(3) Data_BalanceDebit show ?thesis
      by (auto simp: core_observer_cases [OF t] core_effect_def core_view_def Let_def)
  next
    case (Data_Block d)
    then show ?thesis using assms(3) by (auto simp: core_observer_cases [OF t] core_effect_def core_view_def TotalTransactionsObserver_def Let_def)
  qed
qed

interpretation pool: viewed_observer "core_observer resolvers" "core_ready resolvers" "core_inv known" core_view
  "core_validator resolvers (\<lambda>_. False)" "core_expected resolvers known" "core_accepts resolvers" "core_effect resolvers"
  for resolvers known
  by unfold_locales (use core_accepts_ok core_effect_ok in blast)+

text \<open>
  C2. The unconfirmed state is the confirmed state with the pool applied. Start from any well-formed pool, and let a block update hand in a new copy of the confirmed state and the transactions
  that were reverted, followed by any batches of new transactions. No call throws. Afterwards every
  transaction of the pool is valid in its order on top of the confirmed state, and executing exactly the pool gives the balances and the dependent state of the unconfirmed copy, no matter which
  transactions were rejected, throttled, too large or duplicates in between.
\<close>

theorem pool_matches_unconfirmed_state:
  assumes "utc_inv c" "core_inv known s" "unat (m_idSequence c) + length reverted + length (utc_list c) + sum_list (map length batches) < 2 ^ 64"
    and "ec_validator config = core_validator resolvers (\<lambda>_. False)" "ec_observer config = core_observer resolvers"
    and "\<forall>info\<in>set reverted \<union> set (utc_list c) \<union> \<Union> (set (map set batches)). \<forall>n\<in>set (ec_publisher config info). core_expected resolvers known n"
  shows "\<exists>c1 s1 failed c2 s2. ut_update_block config confirmed reverted s c = Inr (c1, s1, failed)
    \<and> pool_valid (core_accepts resolvers) (core_effect resolvers) (ec_publisher config) (core_view s) (utc_list c1) (core_view s1)
    \<and> ut_updates config batches (c1, Some s1) = Inr (c2, Some s2) \<and> utc_inv c2 \<and> core_inv known s2
    \<and> pool_valid (core_accepts resolvers) (core_effect resolvers) (ec_publisher config) (core_view s) (utc_list c2) (core_view s2)"
proof -
  have id: "unat (m_idSequence c) + length reverted + length (utc_list c) < 2 ^ 64" using assms(3) by simp
  have exp: "\<forall>info\<in>set reverted \<union> set (utc_list c). \<forall>n\<in>set (ec_publisher config info). core_expected resolvers known n"
      "\<forall>infos\<in>set batches. \<forall>info\<in>set infos. \<forall>n\<in>set (ec_publisher config info). core_expected resolvers known n"
    using assms(6) by auto
  from pool.update_ok_block [OF assms(1,2) id assms(4,5) exp(1), of confirmed] obtain c1 s1 failed where
      u: "ut_update_block config confirmed reverted s c = Inr (c1, s1, failed)" "utc_inv c1" "core_inv known s1"
      "pool_valid (core_accepts resolvers) (core_effect resolvers) (ec_publisher config) (core_view s) (utc_list c1) (core_view s1)"
      "unat (m_idSequence c1) \<le> unat (m_idSequence c) + length reverted + length (utc_list c)" by blast
  have "unat (m_idSequence c1) + sum_list (map length batches) < 2 ^ 64" using u(5) assms(3) by simp
  from pool.updates_ok [OF u(2,3) this assms(4,5) exp(2) u(4)] u(1,4) show ?thesis by blast
qed

definition example_config :: "(nat, core_data, core_state) ExecutionConfiguration" where
  "example_config = \<lparr>ec_validator = core_validator example_resolvers (\<lambda>_. False), ec_observer = core_observer example_resolvers,
     ec_publisher = (\<lambda>info. [example_transfer 5 6 (ucast (EntityHash info))]), ec_minFeeMultiplier = 1, ec_throttle = (\<lambda>_ _ _ _. False)\<rparr>"

theorem pool_matches_unconfirmed_state_witness:
  "\<exists>c1 s1 failed c2 s2. ut_update_block example_config {} [example_info 30 10, example_info 40 10] example_core (utc_new 1000 25) = Inr (c1, s1, failed)
    \<and> ut_updates example_config [[example_info 10 10]] (c1, Some s1) = Inr (c2, Some s2)
    \<and> pool_valid (core_accepts example_resolvers) (core_effect example_resolvers) (ec_publisher example_config) (core_view example_core) (utc_list c2) (core_view s2)"
proof -
  have c: "utc_list (utc_new 1000 25 :: nat MemoryUtCache) = []" "m_idSequence (utc_new 1000 25 :: nat MemoryUtCache) = 0" "utc_inv (utc_new 1000 25 :: nat MemoryUtCache)"
    by (simp_all add: utc_new_inv utc_new_fields)
  have config: "ec_validator example_config = core_validator example_resolvers (\<lambda>_. False)" "ec_observer example_config = core_observer example_resolvers"
    by (simp_all add: example_config_def)
  have exp: "\<forall>info\<in>I. \<forall>n\<in>set (ec_publisher example_config info). core_expected example_resolvers {5, 6} n" for I
    using example_transfer_expected by (simp add: example_config_def)
  have "unat (m_idSequence (utc_new 1000 25 :: nat MemoryUtCache)) + length [example_info 30 10, example_info 40 10] + length (utc_list (utc_new 1000 25 :: nat MemoryUtCache))
      + sum_list (map length [[example_info 10 10]]) < 2 ^ 64"
    by (simp add: c)
  from pool_matches_unconfirmed_state [OF c(3) example_core_inv this config exp, of "{}"] show ?thesis by blast
qed

end
