(* ===== verification/Multisig.thy ===== *)
theory Multisig
  imports Processing References
begin

section \<open>Multisig accounts (plugins/txes/multisig)\<close>

text \<open>
  A multisig account is controlled by its cosignatories, which may be multisig accounts again. The cache
  keeps an entry per involved account with the links in both directions. The theory models the entries, the
  observers that change them, and the validators that bound the levels, exclude loops and check that an
  aggregate is sufficiently cosigned.

  The cache delta is a delta set of mutable entries. Writing through a reference to an entry stores at its key
  again; a reference to an entry that is gone, which the source must not use, is the exception
  \<open>Out_Of_Range\<close>. A set of addresses is a sorted list. Resolvers are arguments: the resolution statements that a
  bound resolver records are part of the theory of the lock observers. The recursions over the links
  of accounts have fuel, and \<open>None\<close> means that it did not suffice.
\<close>

subsection \<open>Entries\<close>

type_synonym SortedAddressSet = "Address list"

record MultisigEntry =
  me_address :: Address
  cosignatoryAddresses :: SortedAddressSet
  minApproval :: uint32
  minRemoval :: uint32
  multisigAddresses :: SortedAddressSet

definition new_MultisigEntry :: "Address \<Rightarrow> MultisigEntry" where
  "new_MultisigEntry address =
     \<lparr>me_address = address, cosignatoryAddresses = [], minApproval = 0, minRemoval = 0, multisigAddresses = []\<rparr>"

definition hasCosignatory :: "MultisigEntry \<Rightarrow> Address \<Rightarrow> bool" where
  "hasCosignatory entry address \<longleftrightarrow> address \<in> set (cosignatoryAddresses entry)"

type_synonym MultisigCacheDelta = "(Address, MultisigEntry) BaseSetDelta"

subsection \<open>Observers\<close>

definition GetMultisigEntry :: "Address \<Rightarrow> MultisigCacheDelta \<Rightarrow> exn + MultisigCacheDelta" where
  "GetMultisigEntry address multisigCache =
     rbind (if \<not> bsd_contains multisigCache address
            then mixin_insert MutableTypeTag address (new_MultisigEntry address) multisigCache else Inr multisigCache)
       (\<lambda>multisigCache. Inr (snd (bsd_find MutableTypeTag multisigCache address)))"

text \<open>Reading and writing through a reference to an entry of the cache.\<close>

definition entry_at :: "Address \<Rightarrow> MultisigCacheDelta \<Rightarrow> exn + MultisigEntry" where
  "entry_at address multisigCache =
     (case bsd_find_const MutableTypeTag multisigCache address of None \<Rightarrow> Inl Out_Of_Range | Some entry \<Rightarrow> Inr entry)"

definition entry_modify :: "(MultisigEntry \<Rightarrow> MultisigEntry) \<Rightarrow> Address \<Rightarrow> MultisigCacheDelta \<Rightarrow> exn + MultisigCacheDelta" where
  "entry_modify f address multisigCache =
     rbind (entry_at address multisigCache) (\<lambda>entry. Inr (bsd_store address (f entry) multisigCache))"

definition removeIfEmpty :: "Address \<Rightarrow> MultisigCacheDelta \<Rightarrow> exn + MultisigCacheDelta" where
  "removeIfEmpty address multisigCache =
     rbind (entry_at address multisigCache) (\<lambda>entry.
       if cosignatoryAddresses entry = [] \<and> multisigAddresses entry = []
       then mixin_remove MutableTypeTag address multisigCache else Inr multisigCache)"

definition addCosignatory :: "Address \<Rightarrow> Address \<Rightarrow> MultisigCacheDelta \<Rightarrow> exn + MultisigCacheDelta" where
  "addCosignatory multisig cosignatory multisigCache =
     rbind (GetMultisigEntry cosignatory multisigCache) (\<lambda>multisigCache.
     rbind (entry_modify (\<lambda>e. e\<lparr>multisigAddresses := insort_insert multisig (multisigAddresses e)\<rparr>) cosignatory multisigCache)
       (entry_modify (\<lambda>e. e\<lparr>cosignatoryAddresses := insort_insert cosignatory (cosignatoryAddresses e)\<rparr>) multisig))"

definition removeCosignatory :: "Address \<Rightarrow> Address \<Rightarrow> MultisigCacheDelta \<Rightarrow> exn + MultisigCacheDelta" where
  "removeCosignatory multisig cosignatory multisigCache =
     rbind (entry_modify (\<lambda>e. e\<lparr>cosignatoryAddresses := removeAll cosignatory (cosignatoryAddresses e)\<rparr>) multisig multisigCache) (\<lambda>multisigCache.
     let (multisigIter, multisigCache) = bsd_find MutableTypeTag multisigCache cosignatory
     in rbind (CacheFindIterator_get multisigIter) (\<lambda>_.
        rbind (entry_modify (\<lambda>e. e\<lparr>multisigAddresses := removeAll multisig (multisigAddresses e)\<rparr>) cosignatory multisigCache)
          (removeIfEmpty cosignatory)))"

definition AddAll :: "(UnresolvedAddress \<Rightarrow> Address) \<Rightarrow> Address \<Rightarrow> UnresolvedAddress list \<Rightarrow> bool \<Rightarrow> MultisigCacheDelta
    \<Rightarrow> exn + MultisigCacheDelta" where
  "AddAll resolve multisig addresses shouldAdd multisigCache =
     rfold (\<lambda>cosignatory. if shouldAdd then addCosignatory multisig (resolve cosignatory)
                          else removeCosignatory multisig (resolve cosignatory)) addresses multisigCache"

record MultisigCosignatoriesNotification =
  mcn_Multisig :: Address
  AddressAdditions :: "UnresolvedAddress list"
  AddressDeletions :: "UnresolvedAddress list"

text \<open>The facade of the account is created first and its destructor runs last.\<close>

definition MultisigCosignatoriesObserver ::
  "NotifyMode \<Rightarrow> (UnresolvedAddress \<Rightarrow> Address) \<Rightarrow> MultisigCosignatoriesNotification \<Rightarrow> MultisigCacheDelta \<Rightarrow> exn + MultisigCacheDelta" where
  "MultisigCosignatoriesObserver mode resolve notification multisigCache =
     (let multisig = mcn_Multisig notification; isCommitMode = (Commit = mode)
      in rbind (GetMultisigEntry multisig multisigCache) (\<lambda>multisigCache.
         rbind (AddAll resolve multisig (AddressAdditions notification) isCommitMode multisigCache) (\<lambda>multisigCache.
         rbind (AddAll resolve multisig (AddressDeletions notification) (\<not> isCommitMode) multisigCache)
           (removeIfEmpty multisig))))"

record MultisigSettingsNotification =
  msn_Multisig :: Address
  MinRemovalDelta :: uint8
  MinApprovalDelta :: uint8

text \<open>The deltas are signed bytes; the sum is converted back to 32 bits.\<close>

definition AddDelta :: "uint32 \<Rightarrow> int \<Rightarrow> uint8 \<Rightarrow> uint32" where
  "AddDelta v direction delta = v + word_of_int (direction * sint delta)"

definition MultisigSettingsObserver :: "NotifyMode \<Rightarrow> MultisigSettingsNotification \<Rightarrow> MultisigCacheDelta \<Rightarrow> exn + MultisigCacheDelta" where
  "MultisigSettingsObserver mode notification multisigCache =
     (let address = msn_Multisig notification;
          (multisigIter, multisigCache) = bsd_find MutableTypeTag multisigCache address;
          isNotContained = (multisigIter = None)
      in if isNotContained \<and> Commit = mode then Inr multisigCache
         else
           rbind (if isNotContained then
                    rbind (mixin_insert MutableTypeTag address (new_MultisigEntry address) multisigCache)
                      (\<lambda>multisigCache. Inr (snd (bsd_find MutableTypeTag multisigCache address)))
                  else Inr multisigCache) (\<lambda>multisigCache.
           let direction = (if Commit = mode then 1 else - 1)
           in entry_modify (\<lambda>e. e\<lparr>minApproval := AddDelta (minApproval e) direction (MinApprovalDelta notification),
                                  minRemoval := AddDelta (minRemoval e) direction (MinRemovalDelta notification)\<rparr>) address multisigCache))"

subsection \<open>Validators\<close>

datatype MultisigResult =
  Multisig_Success | Failure_Multisig_Multiple_Deletes | Failure_Multisig_Redundant_Modification | Failure_Multisig_Account_In_Both_Sets
| Failure_Multisig_Unknown_Multisig_Account | Failure_Multisig_Already_A_Cosignatory | Failure_Multisig_Not_A_Cosignatory
| Failure_Multisig_Min_Setting_Out_Of_Range | Failure_Multisig_Min_Setting_Larger_Than_Num_Cosignatories
| Failure_Multisig_Max_Multisig_Depth | Failure_Multisig_Loop | Failure_Multisig_Max_Cosignatories
| Failure_Multisig_Max_Cosigned_Accounts | Failure_Multisig_Operation_Prohibited_By_Account
| Failure_Aggregate_Missing_Cosignatures | Failure_Aggregate_Ineligible_Cosignatories

text \<open>The read only cache that validators see is its lookup function.\<close>

type_synonym multisig_view = "Address \<rightharpoonup> MultisigEntry"

definition MultisigCosignatoriesValidator :: "MultisigCosignatoriesNotification \<Rightarrow> MultisigResult" where
  "MultisigCosignatoriesValidator notification =
     (if 1 < length (AddressDeletions notification) then Failure_Multisig_Multiple_Deletes
      else if length (AddressAdditions notification) \<noteq> card (set (AddressAdditions notification)) then Failure_Multisig_Redundant_Modification
      else if list_ex (\<lambda>a. a \<in> set (AddressDeletions notification)) (AddressAdditions notification) then Failure_Multisig_Account_In_Both_Sets
      else Multisig_Success)"

definition MultisigInvalidCosignatoriesValidator ::
  "(UnresolvedAddress \<Rightarrow> Address) \<Rightarrow> MultisigCosignatoriesNotification \<Rightarrow> multisig_view \<Rightarrow> MultisigResult" where
  "MultisigInvalidCosignatoriesValidator resolve notification multisigCache =
     (case multisigCache (mcn_Multisig notification) of
        None \<Rightarrow> if 0 = length (AddressDeletions notification) then Multisig_Success else Failure_Multisig_Unknown_Multisig_Account
      | Some multisigEntry \<Rightarrow>
          if list_ex (\<lambda>a. hasCosignatory multisigEntry (resolve a)) (AddressAdditions notification) then Failure_Multisig_Already_A_Cosignatory
          else if list_ex (\<lambda>a. \<not> hasCosignatory multisigEntry (resolve a)) (AddressDeletions notification) then Failure_Multisig_Not_A_Cosignatory
          else Multisig_Success)"

definition MultisigInvalidSettingsValidator :: "MultisigSettingsNotification \<Rightarrow> multisig_view \<Rightarrow> MultisigResult" where
  "MultisigInvalidSettingsValidator notification multisigCache =
     (case multisigCache (msn_Multisig notification) of
        None \<Rightarrow> if - 1 \<noteq> sint (MinRemovalDelta notification) \<or> - 1 \<noteq> sint (MinApprovalDelta notification)
                then Failure_Multisig_Min_Setting_Out_Of_Range else Multisig_Success
      | Some multisigEntry \<Rightarrow>
          let newMinRemoval = uint (minRemoval multisigEntry) + sint (MinRemovalDelta notification);
              newMinApproval = uint (minApproval multisigEntry) + sint (MinApprovalDelta notification);
              maxValue = int (length (cosignatoryAddresses multisigEntry))
          in if 1 > newMinRemoval \<or> 1 > newMinApproval then Failure_Multisig_Min_Setting_Out_Of_Range
             else if newMinRemoval > maxValue \<or> newMinApproval > maxValue then Failure_Multisig_Min_Setting_Larger_Than_Num_Cosignatories
             else Multisig_Success)"

definition MultisigMaxCosignatoriesValidator :: "uint32 \<Rightarrow> MultisigCosignatoriesNotification \<Rightarrow> multisig_view \<Rightarrow> MultisigResult" where
  "MultisigMaxCosignatoriesValidator maxCosignatoriesPerAccount notification multisigCache =
     (let numCosignatories = (case multisigCache (mcn_Multisig notification) of None \<Rightarrow> 0 :: size_t | Some e \<Rightarrow> of_nat (length (cosignatoryAddresses e)));
          numCosignatories = numCosignatories
            + word_of_int (int (length (AddressAdditions notification)) - int (length (AddressDeletions notification)))
      in if numCosignatories > ucast maxCosignatoriesPerAccount then Failure_Multisig_Max_Cosignatories else Multisig_Success)"

record MultisigNewCosignatoryNotification =
  mnc_Multisig :: Address
  mnc_Cosignatory :: UnresolvedAddress

definition MultisigMaxCosignedAccountsValidator ::
  "uint32 \<Rightarrow> (UnresolvedAddress \<Rightarrow> Address) \<Rightarrow> MultisigNewCosignatoryNotification \<Rightarrow> multisig_view \<Rightarrow> MultisigResult" where
  "MultisigMaxCosignedAccountsValidator maxCosignedAccountsPerAccount resolve notification multisigCache =
     (case multisigCache (resolve (mnc_Cosignatory notification)) of
        None \<Rightarrow> Multisig_Success
      | Some cosignatoryEntry \<Rightarrow>
          if length (multisigAddresses cosignatoryEntry) \<ge> unat maxCosignedAccountsPerAccount
          then Failure_Multisig_Max_Cosigned_Accounts else Multisig_Success)"

definition MultisigPermittedOperationValidator :: "Address \<Rightarrow> multisig_view \<Rightarrow> MultisigResult" where
  "MultisigPermittedOperationValidator sender multisigCache =
     (case multisigCache sender of
        None \<Rightarrow> Multisig_Success
      | Some e \<Rightarrow> if cosignatoryAddresses e = [] then Multisig_Success else Failure_Multisig_Operation_Prohibited_By_Account)"

text \<open>All accounts above (\<open>multisigAddresses\<close>) or below (\<open>cosignatoryAddresses\<close>) an account, and the number of levels.\<close>

fun FindAll :: "(MultisigEntry \<Rightarrow> Address list) \<Rightarrow> nat \<Rightarrow> multisig_view \<Rightarrow> Address \<Rightarrow> Address set \<Rightarrow> (nat \<times> Address set) option"
  and FindAll_loop :: "(MultisigEntry \<Rightarrow> Address list) \<Rightarrow> nat \<Rightarrow> multisig_view \<Rightarrow> Address list \<Rightarrow> nat \<Rightarrow> Address set \<Rightarrow> (nat \<times> Address set) option"
where
  "FindAll GetAddresses 0 multisigCache address addresses = None"
| "FindAll GetAddresses (Suc fuel) multisigCache address addresses =
     (case multisigCache address of
        None \<Rightarrow> Some (0, addresses)
      | Some multisigEntry \<Rightarrow> FindAll_loop GetAddresses fuel multisigCache (GetAddresses multisigEntry) 0 addresses)"
| "FindAll_loop GetAddresses fuel multisigCache [] numLevels addresses = Some (numLevels, addresses)"
| "FindAll_loop GetAddresses fuel multisigCache (linkedAddress # linkedAddresses) numLevels addresses =
     (case FindAll GetAddresses fuel multisigCache linkedAddress (insert linkedAddress addresses) of
        None \<Rightarrow> None
      | Some (levels, addresses) \<Rightarrow>
          FindAll_loop GetAddresses fuel multisigCache linkedAddresses (max numLevels (levels + 1)) addresses)"

definition FindAncestors :: "nat \<Rightarrow> multisig_view \<Rightarrow> Address \<Rightarrow> Address set \<Rightarrow> (nat \<times> Address set) option" where
  "FindAncestors = FindAll multisigAddresses"

definition FindDescendants :: "nat \<Rightarrow> multisig_view \<Rightarrow> Address \<Rightarrow> Address set \<Rightarrow> (nat \<times> Address set) option" where
  "FindDescendants = FindAll cosignatoryAddresses"

definition LoopAndLevelChecker_validate :: "uint8 \<Rightarrow> nat \<Rightarrow> multisig_view \<Rightarrow> Address \<Rightarrow> Address \<Rightarrow> MultisigResult option" where
  "LoopAndLevelChecker_validate maxMultisigDepth fuel multisigCache topAddress bottomAddress =
     (case FindAncestors fuel multisigCache topAddress {topAddress} of
        None \<Rightarrow> None
      | Some (numTopLevels, ancestors) \<Rightarrow>
          (case FindDescendants fuel multisigCache bottomAddress {bottomAddress} of
             None \<Rightarrow> None
           | Some (numBottomLevels, descendants) \<Rightarrow>
               Some (if numTopLevels + numBottomLevels + 1 > unat maxMultisigDepth then Failure_Multisig_Max_Multisig_Depth
                     else if ancestors \<inter> descendants \<noteq> {} then Failure_Multisig_Loop else Multisig_Success)))"

definition MultisigLoopAndLevelValidator ::
  "uint8 \<Rightarrow> nat \<Rightarrow> (UnresolvedAddress \<Rightarrow> Address) \<Rightarrow> MultisigNewCosignatoryNotification \<Rightarrow> multisig_view \<Rightarrow> MultisigResult option" where
  "MultisigLoopAndLevelValidator maxMultisigDepth fuel resolve notification multisigCache =
     LoopAndLevelChecker_validate maxMultisigDepth fuel multisigCache (mnc_Multisig notification) (resolve (mnc_Cosignatory notification))"

text \<open>
  Aggregates: which accounts approve. Of an embedded transaction the checks see its type, the counts of a modification, the address of its signer and the further
  accounts that the plugin of its type requires.
\<close>

record EmbeddedTransaction =
  et_Type :: EntityType
  et_Signer :: Address
  et_AddressAdditionsCount :: uint8
  et_AddressDeletionsCount :: uint8
  additionalRequiredCosignatories :: "UnresolvedAddress list"

definition Entity_Type_Multisig_Account_Modification :: EntityType where
  "Entity_Type_Multisig_Account_Modification = MakeEntityType Entity_Transaction Facility_Multisig 1"

datatype OperationType = Operation_Normal | Operation_Removal | Operation_Max

definition GetOperationType :: "EmbeddedTransaction \<Rightarrow> OperationType" where
  "GetOperationType transaction =
     (if Entity_Type_Multisig_Account_Modification \<noteq> et_Type transaction then Operation_Normal
      else let hasAdds = 0 \<noteq> et_AddressAdditionsCount transaction; hasDeletes = 0 \<noteq> et_AddressDeletionsCount transaction
           in if hasDeletes then (if hasAdds then Operation_Max else Operation_Removal) else Operation_Normal)"

definition GetMinRequiredCosignatories :: "MultisigEntry \<Rightarrow> OperationType \<Rightarrow> uint32" where
  "GetMinRequiredCosignatories multisigEntry operationType =
     (case operationType of
        Operation_Max \<Rightarrow> max (minRemoval multisigEntry) (minApproval multisigEntry)
      | Operation_Removal \<Rightarrow> minRemoval multisigEntry
      | Operation_Normal \<Rightarrow> minApproval multisigEntry)"

fun isSatisfied :: "nat \<Rightarrow> multisig_view \<Rightarrow> Address set \<Rightarrow> OperationType \<Rightarrow> Address \<Rightarrow> bool option"
  and numApprovers_loop :: "nat \<Rightarrow> multisig_view \<Rightarrow> Address set \<Rightarrow> OperationType \<Rightarrow> Address list \<Rightarrow> uint32 \<Rightarrow> uint32 option"
where
  "isSatisfied 0 multisigCache cosignatories operationType address = None"
| "isSatisfied (Suc fuel) multisigCache cosignatories operationType address =
     (case multisigCache address of
        None \<Rightarrow> Some (address \<in> cosignatories)
      | Some multisigEntry \<Rightarrow>
          if cosignatoryAddresses multisigEntry = [] then Some (address \<in> cosignatories)
          else (case numApprovers_loop fuel multisigCache cosignatories operationType (cosignatoryAddresses multisigEntry) 0 of
                  None \<Rightarrow> None
                | Some numApprovers \<Rightarrow> Some (numApprovers \<ge> GetMinRequiredCosignatories multisigEntry operationType)))"
| "numApprovers_loop fuel multisigCache cosignatories operationType [] numApprovers = Some numApprovers"
| "numApprovers_loop fuel multisigCache cosignatories operationType (cosignatoryAddress # rest) numApprovers =
     (case isSatisfied fuel multisigCache cosignatories operationType cosignatoryAddress of
        None \<Rightarrow> None
      | Some satisfied \<Rightarrow>
          numApprovers_loop fuel multisigCache cosignatories operationType rest (numApprovers + (if satisfied then 1 else 0)))"

text \<open>The set of required addresses is a list without repetitions.\<close>

definition findRequiredAddresses :: "(UnresolvedAddress \<Rightarrow> Address) \<Rightarrow> EmbeddedTransaction \<Rightarrow> Address list" where
  "findRequiredAddresses resolve transaction = remdups (et_Signer transaction # map resolve (additionalRequiredCosignatories transaction))"

fun all_satisfied :: "nat \<Rightarrow> multisig_view \<Rightarrow> Address set \<Rightarrow> OperationType \<Rightarrow> Address list \<Rightarrow> bool option" where
  "all_satisfied fuel multisigCache cosignatories operationType [] = Some True"
| "all_satisfied fuel multisigCache cosignatories operationType (address # addresses) =
     (case isSatisfied fuel multisigCache cosignatories operationType address of
        None \<Rightarrow> None
      | Some satisfied \<Rightarrow> if satisfied then all_satisfied fuel multisigCache cosignatories operationType addresses else Some False)"

definition MultisigAggregateSufficientCosignatoriesValidator ::
  "nat \<Rightarrow> (UnresolvedAddress \<Rightarrow> Address) \<Rightarrow> multisig_view \<Rightarrow> Address list \<Rightarrow> EmbeddedTransaction \<Rightarrow> MultisigResult option" where
  "MultisigAggregateSufficientCosignatoriesValidator fuel resolve multisigCache signers transaction =
     (case all_satisfied fuel multisigCache (set signers) (GetOperationType transaction) (findRequiredAddresses resolve transaction) of
        None \<Rightarrow> None
      | Some ok \<Rightarrow> Some (if ok then Multisig_Success else Failure_Aggregate_Missing_Cosignatures))"

text \<open>
  The eligible cosignatories: the accounts at the bottom of the required ones. \<open>eligible\<close> is the set of
  cosignatories of the aggregate that have been marked.
\<close>

fun findEligibleCosignatories :: "nat \<Rightarrow> multisig_view \<Rightarrow> Address set \<Rightarrow> Address \<Rightarrow> Address set \<Rightarrow> Address set option"
  and findEligible_loop :: "nat \<Rightarrow> multisig_view \<Rightarrow> Address set \<Rightarrow> Address list \<Rightarrow> Address set \<Rightarrow> Address set option"
where
  "findEligibleCosignatories 0 multisigCache cosignatories address eligible = None"
| "findEligibleCosignatories (Suc fuel) multisigCache cosignatories address eligible =
     (let markEligible = (if address \<in> cosignatories then insert address eligible else eligible)
      in case multisigCache address of
           None \<Rightarrow> Some markEligible
         | Some multisigEntry \<Rightarrow>
             if cosignatoryAddresses multisigEntry = [] then Some markEligible
             else findEligible_loop fuel multisigCache cosignatories (cosignatoryAddresses multisigEntry) eligible)"
| "findEligible_loop fuel multisigCache cosignatories [] eligible = Some eligible"
| "findEligible_loop fuel multisigCache cosignatories (address # addresses) eligible =
     (case findEligibleCosignatories fuel multisigCache cosignatories address eligible of
        None \<Rightarrow> None
      | Some eligible \<Rightarrow> findEligible_loop fuel multisigCache cosignatories addresses eligible)"

fun findEligible_transactions :: "nat \<Rightarrow> (UnresolvedAddress \<Rightarrow> Address) \<Rightarrow> multisig_view \<Rightarrow> Address set \<Rightarrow> EmbeddedTransaction list \<Rightarrow> Address set
    \<Rightarrow> Address set option" where
  "findEligible_transactions fuel resolve multisigCache cosignatories [] eligible = Some eligible"
| "findEligible_transactions fuel resolve multisigCache cosignatories (transaction # transactions) eligible =
     (case findEligibleCosignatories fuel multisigCache cosignatories (et_Signer transaction) eligible of
        None \<Rightarrow> None
      | Some eligible \<Rightarrow>
          (case findEligible_loop fuel multisigCache cosignatories (map resolve (additionalRequiredCosignatories transaction)) eligible of
             None \<Rightarrow> None
           | Some eligible \<Rightarrow> findEligible_transactions fuel resolve multisigCache cosignatories transactions eligible))"

definition MultisigAggregateEligibleCosignatoriesValidator ::
  "nat \<Rightarrow> (UnresolvedAddress \<Rightarrow> Address) \<Rightarrow> multisig_view \<Rightarrow> Address list \<Rightarrow> EmbeddedTransaction list \<Rightarrow> MultisigResult option" where
  "MultisigAggregateEligibleCosignatoriesValidator fuel resolve multisigCache signers transactions =
     (case findEligible_transactions fuel resolve multisigCache (set signers) transactions {} of
        None \<Rightarrow> None
      | Some eligible \<Rightarrow>
          Some (if list_ex (\<lambda>a. a \<notin> eligible) signers then Failure_Aggregate_Ineligible_Cosignatories else Multisig_Success))"

subsection \<open>The graph of accounts\<close>

definition linked_to :: "(MultisigEntry \<Rightarrow> Address list) \<Rightarrow> multisig_view \<Rightarrow> Address \<Rightarrow> Address \<Rightarrow> bool" where
  "linked_to GetAddresses m a c \<longleftrightarrow> (\<exists>e. m a = Some e \<and> c \<in> set (GetAddresses e))"

text \<open>No chain of links from an account has more than \<open>k\<close> steps.\<close>

definition levels_le :: "('a \<Rightarrow> 'a \<Rightarrow> bool) \<Rightarrow> nat \<Rightarrow> 'a \<Rightarrow> bool" where
  "levels_le R k a \<longleftrightarrow> (\<forall>xs. successively R (a # xs) \<longrightarrow> length xs \<le> k)"

lemma levels_le_step: "levels_le R (Suc k) a \<longleftrightarrow> (\<forall>c. R a c \<longrightarrow> levels_le R k c)"
proof
  assume *: "levels_le R (Suc k) a"
  show "\<forall>c. R a c \<longrightarrow> levels_le R k c"
    unfolding levels_le_def
  proof (intro allI impI)
    fix c xs
    assume "R a c" "successively R (c # xs)"
    then have "successively R (a # c # xs)" by simp
    with * have "length (c # xs) \<le> Suc k" unfolding levels_le_def by blast
    then show "length xs \<le> k" by simp
  qed
next
  assume *: "\<forall>c. R a c \<longrightarrow> levels_le R k c"
  show "levels_le R (Suc k) a"
    unfolding levels_le_def
  proof (intro allI impI)
    fix xs
    assume "successively R (a # xs)"
    with * show "length xs \<le> Suc k" unfolding levels_le_def by (cases xs) auto
  qed
qed

lemma levels_le_zero: "levels_le R 0 a \<longleftrightarrow> (\<forall>c. \<not> R a c)"
proof -
  have "successively R (a # xs) \<longrightarrow> length xs \<le> 0" if "\<forall>c. \<not> R a c" for xs using that by (cases xs) auto
  moreover have "\<not> R a c" if "levels_le R 0 a" for c
    using that spec [of "\<lambda>xs. successively R (a # xs) \<longrightarrow> length xs \<le> 0" "[c]"] by (auto simp: levels_le_def)
  ultimately show ?thesis unfolding levels_le_def by blast
qed

lemma levels_le_mono: "levels_le R k a \<Longrightarrow> k \<le> n \<Longrightarrow> levels_le R n a"
  by (auto simp: levels_le_def intro: order_trans)

text \<open>With enough fuel the search returns; it adds the accounts that can be reached and bounds the levels.\<close>

lemma tranclp_unfold_left: "R\<^sup>+\<^sup>+ a c \<longleftrightarrow> R a c \<or> (\<exists>b. R a b \<and> R\<^sup>+\<^sup>+ b c)"
proof
  assume "R\<^sup>+\<^sup>+ a c"
  then show "R a c \<or> (\<exists>b. R a b \<and> R\<^sup>+\<^sup>+ b c)" by (rule converse_tranclpE) blast+
next
  assume "R a c \<or> (\<exists>b. R a b \<and> R\<^sup>+\<^sup>+ b c)"
  then show "R\<^sup>+\<^sup>+ a c" using tranclp_into_tranclp2 [of R] by blast
qed

lemma FindAll_sound:
  "FindAll f fuel m a acc = Some (l, acc') \<Longrightarrow> acc' = acc \<union> {c. (linked_to f m)\<^sup>+\<^sup>+ a c} \<and> levels_le (linked_to f m) l a"
  "FindAll_loop f fuel m as l0 acc = Some (l, acc') \<Longrightarrow>
    acc' = acc \<union> {c. \<exists>a\<in>set as. a = c \<or> (linked_to f m)\<^sup>+\<^sup>+ a c} \<and> l0 \<le> l \<and> (\<forall>a\<in>set as. 1 \<le> l \<and> levels_le (linked_to f m) (l - 1) a)"
proof (induction f fuel m a acc and f fuel m as l0 acc arbitrary: l acc' and l acc' rule: FindAll_FindAll_loop.induct)
  case (2 f fuel m a acc)
  show ?case
  proof (cases "m a")
    case None
    then have none: "\<not> linked_to f m a c" for c by (simp add: linked_to_def)
    then have "\<not> (linked_to f m)\<^sup>+\<^sup>+ a c" for c by (metis converse_tranclpE)
    with None none "2.prems" show ?thesis by (auto simp: levels_le_zero)
  next
    case (Some e)
    then have R: "linked_to f m a c \<longleftrightarrow> c \<in> set (f e)" for c by (simp add: linked_to_def)
    have loop: "FindAll_loop f fuel m (f e) 0 acc = Some (l, acc')" using "2.prems" Some by simp
    note ih = "2.IH" [OF Some loop]
    have "{c. (linked_to f m)\<^sup>+\<^sup>+ a c} = {c. \<exists>b\<in>set (f e). b = c \<or> (linked_to f m)\<^sup>+\<^sup>+ b c}"
      using tranclp_unfold_left [of "linked_to f m" a] R by auto
    moreover have "levels_le (linked_to f m) l a"
    proof (cases "f e = []")
      case True
      then show ?thesis using levels_le_zero [of "linked_to f m" a] levels_le_mono [of "linked_to f m" 0 a l] R by simp
    next
      case False
      then have "l = Suc (l - 1)" using ih by (cases "f e") auto
      moreover have "levels_le (linked_to f m) (Suc (l - 1)) a" unfolding levels_le_step using ih R by blast
      ultimately show ?thesis by simp
    qed
    ultimately show ?thesis using ih by blast
  qed
next
  case (4 f fuel m a as l0 acc)
  from "4.prems" obtain l1 acc1 where a: "FindAll f fuel m a (insert a acc) = Some (l1, acc1)"
      and rest: "FindAll_loop f fuel m as (max l0 (l1 + 1)) acc1 = Some (l, acc')"
    by (auto split: option.splits)
  have ih1: "acc1 = insert a acc \<union> {c. (linked_to f m)\<^sup>+\<^sup>+ a c} \<and> levels_le (linked_to f m) l1 a"
    using "4.IH"(1) [OF a] .
  have ih2: "acc' = acc1 \<union> {c. \<exists>a\<in>set as. a = c \<or> (linked_to f m)\<^sup>+\<^sup>+ a c} \<and> max l0 (l1 + 1) \<le> l
      \<and> (\<forall>a\<in>set as. 1 \<le> l \<and> levels_le (linked_to f m) (l - 1) a)"
    using "4.IH"(2) [OF a refl rest] .
  have "levels_le (linked_to f m) (l - 1) a" using ih1 ih2 by (auto intro: levels_le_mono)
  with ih1 ih2 show ?case by auto
qed auto

lemma FindAll_total:
  assumes "levels_le (linked_to f m) k a"
  shows "\<exists>r. FindAll f (Suc k) m a acc = Some r"
  using assms
proof (induction k arbitrary: a acc)
  case 0
  then have "m a = Some e \<Longrightarrow> f e = []" for e unfolding levels_le_zero by (cases "f e") (auto simp: linked_to_def)
  then show ?case by (cases "m a") auto
next
  case (Suc k)
  have "\<exists>r. FindAll_loop f (Suc k) m as l acc = Some r" if "\<forall>c\<in>set as. linked_to f m a c" for as l acc
    using that
  proof (induction as arbitrary: l acc)
    case (Cons c as)
    obtain r where "FindAll f (Suc k) m c (insert c acc) = Some r" using Suc.IH [of c "insert c acc"] Suc.prems Cons.prems levels_le_step by fastforce
    then show ?case using Cons by (cases r) auto
  qed simp
  then show ?case using Suc.prems by (cases "m a") (auto simp: linked_to_def)
qed

text \<open>A walk in a graph with new edges from one node uses at most one of them, if they close no loop.\<close>

lemma walk_new_edges:
  assumes "\<And>x y. R' x y \<Longrightarrow> R x y \<or> x = t \<and> y \<in> C" "\<And>c. c \<in> C \<Longrightarrow> \<not> R\<^sup>*\<^sup>* c t"
    and "successively R' xs"
  shows "successively R xs \<or> (\<exists>ys c zs. xs = ys @ [t, c] @ zs \<and> c \<in> C \<and> successively R (ys @ [t]) \<and> successively R (c # zs))"
  using assms(3)
proof (induction xs rule: induct_list012)
  case (3 x y xs)
  then have xy: "R x y \<or> x = t \<and> y \<in> C" and ih: "successively R (y # xs)
      \<or> (\<exists>ys c zs. y # xs = ys @ [t, c] @ zs \<and> c \<in> C \<and> successively R (ys @ [t]) \<and> successively R (c # zs))"
    using assms(1) by auto
  show ?case
  proof (cases "successively R (y # xs)")
    case True
    with xy show ?thesis by (auto intro: exI [of _ "[]"])
  next
    case False
    with ih obtain ys c zs where w: "y # xs = ys @ [t, c] @ zs" "c \<in> C" "successively R (ys @ [t])" "successively R (c # zs)" by blast
    have "hd (ys @ [t]) = y" using w(1) by (cases ys) auto
    have reach: "R\<^sup>*\<^sup>* (hd (us @ [v])) v" if "successively R (us @ [v])" for us v
      using that by (induction us) (auto simp: successively_Cons intro: converse_rtranclp_into_rtranclp)
    then have "R\<^sup>*\<^sup>* y t" using w(3) \<open>hd (ys @ [t]) = y\<close> by metis
    with assms(2) xy have "R x y" by blast
    with w \<open>hd (ys @ [t]) = y\<close> have "x # y # xs = (x # ys) @ [t, c] @ zs" "successively R ((x # ys) @ [t])"
      by (auto simp: successively_Cons)
    with w(2,4) show ?thesis by blast
  qed
qed auto

lemma levels_le_converse:
  "levels_le (\<lambda>x y. R y x) k t \<longleftrightarrow> (\<forall>ys. successively R (ys @ [t]) \<longrightarrow> length ys \<le> k)"
proof -
  have rev: "successively (\<lambda>x y. R y x) (t # xs) \<longleftrightarrow> successively R (rev xs @ [t])" for xs
    using successively_rev [of R "t # xs"] by simp
  show ?thesis
  proof
    assume "levels_le (\<lambda>x y. R y x) k t"
    then show "\<forall>ys. successively R (ys @ [t]) \<longrightarrow> length ys \<le> k"
      unfolding levels_le_def rev by (metis length_rev rev_rev_ident)
  next
    assume "\<forall>ys. successively R (ys @ [t]) \<longrightarrow> length ys \<le> k"
    then show "levels_le (\<lambda>x y. R y x) k t" unfolding levels_le_def rev by (metis length_rev)
  qed
qed

lemma levels_le_new_edges:
  assumes "\<And>x y. R' x y \<Longrightarrow> R x y \<or> x = t \<and> y \<in> C" "\<And>c. c \<in> C \<Longrightarrow> \<not> R\<^sup>*\<^sup>* c t"
    and "\<And>x. levels_le R D x" "levels_le (\<lambda>x y. R y x) U t" "\<And>c. c \<in> C \<Longrightarrow> \<exists>B. levels_le R B c \<and> U + B + 1 \<le> D"
  shows "levels_le R' D x"
  unfolding levels_le_def
proof (intro allI impI)
  fix xs
  assume "successively R' (x # xs)"
  from walk_new_edges [of R' R t C, OF assms(1,2) this] consider "successively R (x # xs)"
    | ys c zs where "x # xs = ys @ [t, c] @ zs" "c \<in> C" "successively R (ys @ [t])" "successively R (c # zs)" by blast
  then show "length xs \<le> D"
  proof cases
    case 1
    then show ?thesis using assms(3) by (simp add: levels_le_def)
  next
    case 2
    then obtain B where B: "levels_le R B c" "U + B + 1 \<le> D" using assms(5) by blast
    have "length ys \<le> U" using assms(4) 2(3) by (simp add: levels_le_converse)
    moreover have "length zs \<le> B" using B(1) 2(4) by (simp add: levels_le_def)
    moreover have "Suc (length xs) = length ys + 2 + length zs" using arg_cong [OF 2(1), of length] by simp
    ultimately show ?thesis using B(2) by simp
  qed
qed

subsection \<open>What the observers do to the view\<close>

definition v_get :: "Address \<Rightarrow> multisig_view \<Rightarrow> multisig_view" where
  "v_get a m = m(a \<mapsto> (case m a of None \<Rightarrow> new_MultisigEntry a | Some e \<Rightarrow> e))"

definition v_modify :: "(MultisigEntry \<Rightarrow> MultisigEntry) \<Rightarrow> Address \<Rightarrow> multisig_view \<Rightarrow> multisig_view" where
  "v_modify f a m = m(a := map_option f (m a))"

definition is_unlinked :: "MultisigEntry option \<Rightarrow> bool" where
  "is_unlinked e \<longleftrightarrow> (\<exists>e'. e = Some e' \<and> cosignatoryAddresses e' = [] \<and> multisigAddresses e' = [])"

definition v_clean :: "Address \<Rightarrow> multisig_view \<Rightarrow> multisig_view" where
  "v_clean a m = (if is_unlinked (m a) then m(a := None) else m)"

definition v_add :: "Address \<Rightarrow> Address \<Rightarrow> multisig_view \<Rightarrow> multisig_view" where
  "v_add t c m = v_modify (\<lambda>e. e\<lparr>cosignatoryAddresses := insort_insert c (cosignatoryAddresses e)\<rparr>) t
     (v_modify (\<lambda>e. e\<lparr>multisigAddresses := insort_insert t (multisigAddresses e)\<rparr>) c (v_get c m))"

definition v_remove :: "Address \<Rightarrow> Address \<Rightarrow> multisig_view \<Rightarrow> multisig_view" where
  "v_remove t c m = v_clean c (v_modify (\<lambda>e. e\<lparr>multisigAddresses := removeAll t (multisigAddresses e)\<rparr>) c
     (v_modify (\<lambda>e. e\<lparr>cosignatoryAddresses := removeAll c (cosignatoryAddresses e)\<rparr>) t m))"

text \<open>A step on a delta that does the given step on its view.\<close>

definition does :: "(MultisigCacheDelta \<Rightarrow> exn + MultisigCacheDelta) \<Rightarrow> Address set \<Rightarrow> MultisigCacheDelta \<Rightarrow> multisig_view \<Rightarrow> bool" where
  "does f live d m \<longleftrightarrow> (\<exists>d'. f d = Inr d' \<and> bsd_inv MutableTypeTag d' \<and> bsd_view d' = m \<and> (\<forall>a\<in>live. bsd_live d' a))"

lemma GetMultisigEntry_does:
  assumes "bsd_inv MutableTypeTag d" "\<forall>a\<in>L. bsd_live d a"
  shows "does (GetMultisigEntry a) (insert a L) d (v_get a (bsd_view d))"
proof (cases "bsd_view d a")
  case None
  then obtain d' where d': "mixin_insert MutableTypeTag a (new_MultisigEntry a) d = Inr d'" "bsd_inv MutableTypeTag d'"
      "bsd_view d' = (bsd_view d)(a \<mapsto> new_MultisigEntry a)" "\<forall>j. bsd_live d j \<longrightarrow> bsd_live d' j"
    using insert_live [OF assms(1)] by blast
  moreover have "\<not> bsd_contains d a" using None bsd_contains_view [OF assms(1)] by simp
  moreover have "bsd_view d' a \<noteq> None" using d'(3) by simp
  ultimately show ?thesis
    using assms(2) find_live [OF d'(2)] bsd_find_inv [OF d'(2), of a] bsd_find_view [OF d'(2), of a] None
    by (auto simp: does_def GetMultisigEntry_def v_get_def)
next
  case (Some e)
  then have "bsd_contains d a" using bsd_contains_view [OF assms(1)] by simp
  then show ?thesis
    using assms find_live [OF assms(1)] bsd_find_inv [OF assms(1), of a] bsd_find_view [OF assms(1), of a] Some
    by (auto simp: does_def GetMultisigEntry_def v_get_def fun_upd_idem)
qed

lemma entry_modify_does:
  assumes "bsd_inv MutableTypeTag d" "\<forall>a\<in>L. bsd_live d a" "a \<in> L"
  shows "does (entry_modify f a) L d (v_modify f a (bsd_view d))"
proof -
  obtain e where e: "bsd_view d a = Some e" using live_view [OF assms(1), of a] assms(2,3) by auto
  then show ?thesis
    using assms store_live [OF assms(1), of a]
    by (auto simp: does_def entry_modify_def entry_at_def bsd_find_const_view [OF assms(1)] v_modify_def)
qed

lemma removeIfEmpty_does:
  assumes "bsd_inv MutableTypeTag d" "\<forall>a\<in>L. bsd_live d a" "bsd_view d a \<noteq> None" "a \<notin> L"
  shows "does (removeIfEmpty a) L d (v_clean a (bsd_view d))"
proof -
  obtain e where e: "bsd_view d a = Some e" using assms(3) by blast
  show ?thesis
  proof (cases "is_unlinked (Some e)")
    case True
    obtain d' where "mixin_remove MutableTypeTag a d = Inr d'" "bsd_inv MutableTypeTag d'" "bsd_view d' = (bsd_view d)(a := None)"
        "\<forall>j. j \<noteq> a \<longrightarrow> bsd_live d j \<longrightarrow> bsd_live d' j"
      using remove_live [OF assms(1,3)] by blast
    then show ?thesis using True e assms(2,4)
      by (auto simp: does_def removeIfEmpty_def entry_at_def bsd_find_const_view [OF assms(1)] v_clean_def is_unlinked_def)
  next
    case False
    then show ?thesis using e assms(1,2)
      by (auto simp: does_def removeIfEmpty_def entry_at_def bsd_find_const_view [OF assms(1)] v_clean_def is_unlinked_def)
  qed
qed

lemma does_rbind:
  assumes "does f L d m" "\<And>d'. bsd_inv MutableTypeTag d' \<Longrightarrow> bsd_view d' = m \<Longrightarrow> \<forall>a\<in>L. bsd_live d' a \<Longrightarrow> does g K d' n"
  shows "does (\<lambda>d. rbind (f d) g) K d n"
proof -
  obtain d' where "f d = Inr d'" "bsd_inv MutableTypeTag d'" "bsd_view d' = m" "\<forall>a\<in>L. bsd_live d' a"
    using assms(1) unfolding does_def by blast
  with assms(2) [of d'] show ?thesis by (simp add: does_def)
qed

lemma does_weaken: "does f L d m \<Longrightarrow> K \<subseteq> L \<Longrightarrow> does f K d m"
  unfolding does_def by blast

lemma addCosignatory_does:
  assumes "bsd_inv MutableTypeTag d" "bsd_live d t"
  shows "does (addCosignatory t c) {t} d (v_add t c (bsd_view d))"
proof -
  have "does (GetMultisigEntry c) {c, t} d (v_get c (bsd_view d))"
    using GetMultisigEntry_does [OF assms(1), of "{t}" c] assms(2) by (simp add: insert_commute)
  then have "does (\<lambda>d. rbind (GetMultisigEntry c d) (\<lambda>d.
      rbind (entry_modify (\<lambda>e. e\<lparr>multisigAddresses := insort_insert t (multisigAddresses e)\<rparr>) c d)
        (entry_modify (\<lambda>e. e\<lparr>cosignatoryAddresses := insort_insert c (cosignatoryAddresses e)\<rparr>) t))) {c, t} d (v_add t c (bsd_view d))"
  proof (rule does_rbind)
    fix d1
    assume d1: "bsd_inv MutableTypeTag d1" "bsd_view d1 = v_get c (bsd_view d)" "\<forall>a\<in>{c, t}. bsd_live d1 a"
    show "does (\<lambda>d. rbind (entry_modify (\<lambda>e. e\<lparr>multisigAddresses := insort_insert t (multisigAddresses e)\<rparr>) c d)
        (entry_modify (\<lambda>e. e\<lparr>cosignatoryAddresses := insort_insert c (cosignatoryAddresses e)\<rparr>) t)) {c, t} d1 (v_add t c (bsd_view d))"
      unfolding v_add_def d1(2) [symmetric]
    proof (rule does_rbind [OF entry_modify_does [OF d1(1,3)]])
      fix d2
      assume d2: "bsd_inv MutableTypeTag d2" "\<forall>a\<in>{c, t}. bsd_live d2 a"
        "bsd_view d2 = v_modify (\<lambda>e. e\<lparr>multisigAddresses := insort_insert t (multisigAddresses e)\<rparr>) c (bsd_view d1)"
      show "does (entry_modify (\<lambda>e. e\<lparr>cosignatoryAddresses := insort_insert c (cosignatoryAddresses e)\<rparr>) t) {c, t} d2
          (v_modify (\<lambda>e. e\<lparr>cosignatoryAddresses := insort_insert c (cosignatoryAddresses e)\<rparr>) t
            (v_modify (\<lambda>e. e\<lparr>multisigAddresses := insort_insert t (multisigAddresses e)\<rparr>) c (bsd_view d1)))"
        unfolding d2(3) [symmetric] by (rule entry_modify_does [OF d2(1,2)]) simp
    qed simp
  qed
  then show ?thesis unfolding addCosignatory_def [abs_def] by (rule does_weaken) simp
qed

lemma removeCosignatory_does:
  assumes "bsd_inv MutableTypeTag d" "bsd_live d t" "c \<noteq> t" "bsd_view d c \<noteq> None"
  shows "does (removeCosignatory t c) {t} d (v_remove t c (bsd_view d))"
  unfolding removeCosignatory_def [abs_def]
proof (rule does_rbind)
  let ?f = "\<lambda>e. e\<lparr>cosignatoryAddresses := removeAll c (cosignatoryAddresses e)\<rparr>"
    and ?g = "\<lambda>e. e\<lparr>multisigAddresses := removeAll t (multisigAddresses e)\<rparr>"
  show "does (entry_modify ?f t) {t} d (v_modify ?f t (bsd_view d))" by (rule entry_modify_does) (use assms in auto)
  fix d1
  assume d1: "bsd_inv MutableTypeTag d1" "bsd_view d1 = v_modify ?f t (bsd_view d)" "\<forall>a\<in>{t}. bsd_live d1 a"
  let ?d = "snd (bsd_find MutableTypeTag d1 c)"
  have c: "bsd_view d1 c \<noteq> None" using d1(2) assms(3,4) by (simp add: v_modify_def)
  then obtain e where e: "bsd_view d1 c = Some e" by blast
  have d2: "bsd_inv MutableTypeTag ?d" "bsd_view ?d = bsd_view d1" "\<forall>a\<in>{c, t}. bsd_live ?d a"
    using bsd_find_inv [OF d1(1)] bsd_find_view(2) [OF d1(1)] find_live [OF d1(1)] c d1(3) by auto
  have "does (\<lambda>d. rbind (entry_modify ?g c d) (removeIfEmpty c)) {t} ?d (v_remove t c (bsd_view d))"
    unfolding v_remove_def d1(2) [symmetric] d2(2) [symmetric]
  proof (rule does_rbind [OF entry_modify_does [OF d2(1,3)]])
    fix d3
    assume d3: "bsd_inv MutableTypeTag d3" "bsd_view d3 = v_modify ?g c (bsd_view ?d)" "\<forall>a\<in>{c, t}. bsd_live d3 a"
    have "bsd_view d3 c \<noteq> None" using d3(1,3) live_view by blast
    then show "does (removeIfEmpty c) {t} d3 (v_clean c (v_modify ?g c (bsd_view ?d)))"
      using removeIfEmpty_does [OF d3(1), of "{t}" c] d3(2,3) assms(3) by simp
  qed simp
  moreover have "fst (bsd_find MutableTypeTag d1 c) = Some e" using bsd_find_view(1) [OF d1(1)] e by simp
  ultimately show "does (\<lambda>multisigCache. let (multisigIter, multisigCache) = bsd_find MutableTypeTag multisigCache c
      in rbind (CacheFindIterator_get multisigIter) (\<lambda>_. rbind (entry_modify ?g c multisigCache) (removeIfEmpty c))) {t} d1
      (v_remove t c (bsd_view d))"
    by (simp add: does_def case_prod_unfold CacheFindIterator_get_def)
qed

lemma AddAll_add_does:
  assumes "bsd_inv MutableTypeTag d" "bsd_live d t"
  shows "does (AddAll resolve t xs True) {t} d (fold (v_add t) (map resolve xs) (bsd_view d))"
  using assms
proof (induction xs arbitrary: d)
  case Nil
  then show ?case by (simp add: does_def AddAll_def)
next
  case (Cons x xs)
  have "does (\<lambda>d. rbind (addCosignatory t (resolve x) d) (AddAll resolve t xs True)) {t} d
      (fold (v_add t) (map resolve xs) (v_add t (resolve x) (bsd_view d)))"
  proof (rule does_rbind [OF addCosignatory_does [OF Cons.prems]])
    fix d'
    assume "bsd_inv MutableTypeTag d'" "bsd_view d' = v_add t (resolve x) (bsd_view d)" "\<forall>a\<in>{t}. bsd_live d' a"
    then show "does (AddAll resolve t xs True) {t} d' (fold (v_add t) (map resolve xs) (v_add t (resolve x) (bsd_view d)))"
      using Cons.IH [of d'] by simp
  qed
  moreover have "(\<lambda>d. rbind (addCosignatory t (resolve x) d) (AddAll resolve t xs True)) = AddAll resolve t (x # xs) True"
    by (simp add: AddAll_def [abs_def] fun_eq_iff)
  ultimately show ?case by simp
qed

lemma v_remove_dom: "v_remove t c m x \<noteq> None \<longleftrightarrow> m x \<noteq> None \<and> (x = c \<longrightarrow> v_remove t c m c \<noteq> None)"
  by (auto simp: v_remove_def v_clean_def v_modify_def)

lemma AddAll_remove_does:
  assumes "bsd_inv MutableTypeTag d" "bsd_live d t" "distinct (map resolve xs)" "t \<notin> resolve ` set xs" "\<forall>x\<in>set xs. bsd_view d (resolve x) \<noteq> None"
  shows "does (AddAll resolve t xs False) {t} d (fold (v_remove t) (map resolve xs) (bsd_view d))"
  using assms
proof (induction xs arbitrary: d)
  case Nil
  then show ?case by (simp add: does_def AddAll_def)
next
  case (Cons x xs)
  have x: "resolve x \<noteq> t" "bsd_view d (resolve x) \<noteq> None" using Cons.prems by auto
  have "does (\<lambda>d. rbind (removeCosignatory t (resolve x) d) (AddAll resolve t xs False)) {t} d
      (fold (v_remove t) (map resolve xs) (v_remove t (resolve x) (bsd_view d)))"
  proof (rule does_rbind [OF removeCosignatory_does [OF Cons.prems(1,2) x]])
    fix d'
    assume d': "bsd_inv MutableTypeTag d'" "bsd_view d' = v_remove t (resolve x) (bsd_view d)" "\<forall>a\<in>{t}. bsd_live d' a"
    have "\<forall>y\<in>set xs. bsd_view d' (resolve y) \<noteq> None"
    proof
      fix y
      assume "y \<in> set xs"
      then have "resolve y \<in> resolve ` set xs" "bsd_view d (resolve y) \<noteq> None" using Cons.prems(5) by auto
      moreover have "resolve x \<notin> resolve ` set xs" using Cons.prems(3) by simp
      ultimately have "resolve y \<noteq> resolve x" "bsd_view d (resolve y) \<noteq> None" by metis+
      then show "bsd_view d' (resolve y) \<noteq> None" unfolding d'(2) by (subst v_remove_dom) simp
    qed
    then show "does (AddAll resolve t xs False) {t} d' (fold (v_remove t) (map resolve xs) (v_remove t (resolve x) (bsd_view d)))"
      using Cons.IH [OF d'(1)] d' Cons.prems(3,4) by simp
  qed
  moreover have "(\<lambda>d. rbind (removeCosignatory t (resolve x) d) (AddAll resolve t xs False)) = AddAll resolve t (x # xs) False"
    by (simp add: AddAll_def [abs_def] fun_eq_iff)
  ultimately show ?case by simp
qed

text \<open>The whole observer. A deleted cosignatory must be there, and is then neither the account nor listed twice.\<close>

definition v_commit :: "Address \<Rightarrow> Address list \<Rightarrow> Address list \<Rightarrow> multisig_view \<Rightarrow> multisig_view" where
  "v_commit t A D m = v_clean t (fold (v_remove t) D (fold (v_add t) A (v_get t m)))"

definition v_rollback :: "Address \<Rightarrow> Address list \<Rightarrow> Address list \<Rightarrow> multisig_view \<Rightarrow> multisig_view" where
  "v_rollback t A D m = v_clean t (fold (v_add t) D (fold (v_remove t) A (v_get t m)))"

lemma v_add_dom: "v_add t c m x \<noteq> None \<longleftrightarrow> m x \<noteq> None \<or> x = c"
  by (auto simp: v_add_def v_modify_def v_get_def)

lemma fold_v_add_dom: "m x \<noteq> None \<Longrightarrow> fold (v_add t) cs m x \<noteq> None"
proof (induction cs arbitrary: m)
  case (Cons c cs)
  then have "v_add t c m x \<noteq> None" by (subst v_add_dom) simp
  then show ?case using Cons.IH by simp
qed simp

lemma fold_v_remove_dom: "m x \<noteq> None \<Longrightarrow> x \<notin> set cs \<Longrightarrow> fold (v_remove t) cs m x \<noteq> None"
proof (induction cs arbitrary: m)
  case (Cons c cs)
  then have "v_remove t c m x \<noteq> None" by (subst v_remove_dom) simp
  then show ?case using Cons.IH Cons.prems(2) by simp
qed simp

lemma observer_commit_does:
  fixes n resolve
  defines "t \<equiv> mcn_Multisig n" and "A \<equiv> map resolve (AddressAdditions n)" and "D \<equiv> map resolve (AddressDeletions n)"
  assumes "bsd_inv MutableTypeTag d" "distinct D" "t \<notin> set D" "\<forall>c\<in>set D. bsd_view d c \<noteq> None"
  shows "does (MultisigCosignatoriesObserver Commit resolve n) {} d (v_commit t A D (bsd_view d))"
  unfolding MultisigCosignatoriesObserver_def [abs_def] Let_def v_commit_def t_def [symmetric]
proof (rule does_rbind)
  show "does (GetMultisigEntry t) {t} d (v_get t (bsd_view d))" using GetMultisigEntry_does [OF assms(4), of "{}" t] by simp
  fix d1
  assume d1: "bsd_inv MutableTypeTag d1" "bsd_view d1 = v_get t (bsd_view d)" "\<forall>a\<in>{t}. bsd_live d1 a"
  show "does (\<lambda>d. rbind (AddAll resolve t (AddressAdditions n) (Commit = Commit) d) (\<lambda>d.
      rbind (AddAll resolve t (AddressDeletions n) (\<not> Commit = Commit) d) (removeIfEmpty t))) {} d1
      (v_clean t (fold (v_remove t) D (fold (v_add t) A (v_get t (bsd_view d)))))"
  proof (rule does_rbind)
    show "does (AddAll resolve t (AddressAdditions n) (Commit = Commit)) {t} d1 (fold (v_add t) A (v_get t (bsd_view d)))"
      using AddAll_add_does [OF d1(1), of t] d1(2,3) unfolding A_def by simp
    fix d2
    assume d2: "bsd_inv MutableTypeTag d2" "bsd_view d2 = fold (v_add t) A (v_get t (bsd_view d))" "\<forall>a\<in>{t}. bsd_live d2 a"
    have dom: "\<forall>x\<in>set (AddressDeletions n). bsd_view d2 (resolve x) \<noteq> None"
      unfolding d2(2) using assms(7) by (intro ballI fold_v_add_dom) (auto simp: v_get_def D_def)
    show "does (\<lambda>d. rbind (AddAll resolve t (AddressDeletions n) (\<not> Commit = Commit) d) (removeIfEmpty t)) {} d2
        (v_clean t (fold (v_remove t) D (fold (v_add t) A (v_get t (bsd_view d)))))"
    proof (rule does_rbind)
      show "does (AddAll resolve t (AddressDeletions n) (\<not> Commit = Commit)) {t} d2 (fold (v_remove t) D (fold (v_add t) A (v_get t (bsd_view d))))"
        using AddAll_remove_does [OF d2(1) _ _ _ dom] d2(2,3) assms(5,6) unfolding D_def by simp
      fix d3
      assume d3: "bsd_inv MutableTypeTag d3" "bsd_view d3 = fold (v_remove t) D (fold (v_add t) A (v_get t (bsd_view d)))" "\<forall>a\<in>{t}. bsd_live d3 a"
      then show "does (removeIfEmpty t) {} d3 (v_clean t (fold (v_remove t) D (fold (v_add t) A (v_get t (bsd_view d)))))"
        using removeIfEmpty_does [OF d3(1), of "{}" t] live_view [OF d3(1), of t] by simp
    qed
  qed
qed

lemma observer_rollback_does:
  fixes n resolve
  defines "t \<equiv> mcn_Multisig n" and "A \<equiv> map resolve (AddressAdditions n)" and "D \<equiv> map resolve (AddressDeletions n)"
  assumes "bsd_inv MutableTypeTag d" "distinct A" "t \<notin> set A" "\<forall>c\<in>set A. bsd_view d c \<noteq> None"
  shows "does (MultisigCosignatoriesObserver Rollback resolve n) {} d (v_rollback t A D (bsd_view d))"
  unfolding MultisigCosignatoriesObserver_def [abs_def] Let_def v_rollback_def t_def [symmetric]
proof (rule does_rbind)
  show "does (GetMultisigEntry t) {t} d (v_get t (bsd_view d))" using GetMultisigEntry_does [OF assms(4), of "{}" t] by simp
  fix d1
  assume d1: "bsd_inv MutableTypeTag d1" "bsd_view d1 = v_get t (bsd_view d)" "\<forall>a\<in>{t}. bsd_live d1 a"
  have dom: "\<forall>x\<in>set (AddressAdditions n). bsd_view d1 (resolve x) \<noteq> None" unfolding d1(2) using assms(7) by (auto simp: v_get_def A_def)
  show "does (\<lambda>d. rbind (AddAll resolve t (AddressAdditions n) (Commit = Rollback) d) (\<lambda>d.
      rbind (AddAll resolve t (AddressDeletions n) (\<not> Commit = Rollback) d) (removeIfEmpty t))) {} d1
      (v_clean t (fold (v_add t) D (fold (v_remove t) A (v_get t (bsd_view d)))))"
  proof (rule does_rbind)
    show "does (AddAll resolve t (AddressAdditions n) (Commit = Rollback)) {t} d1 (fold (v_remove t) A (v_get t (bsd_view d)))"
      using AddAll_remove_does [OF d1(1) _ _ _ dom] d1(2,3) assms(5,6) unfolding A_def by simp
    fix d2
    assume d2: "bsd_inv MutableTypeTag d2" "bsd_view d2 = fold (v_remove t) A (v_get t (bsd_view d))" "\<forall>a\<in>{t}. bsd_live d2 a"
    show "does (\<lambda>d. rbind (AddAll resolve t (AddressDeletions n) (\<not> Commit = Rollback) d) (removeIfEmpty t)) {} d2
        (v_clean t (fold (v_add t) D (fold (v_remove t) A (v_get t (bsd_view d)))))"
    proof (rule does_rbind)
      show "does (AddAll resolve t (AddressDeletions n) (\<not> Commit = Rollback)) {t} d2 (fold (v_add t) D (fold (v_remove t) A (v_get t (bsd_view d))))"
        using AddAll_add_does [OF d2(1), of t] d2(2,3) unfolding D_def by simp
      fix d3
      assume d3: "bsd_inv MutableTypeTag d3" "bsd_view d3 = fold (v_add t) D (fold (v_remove t) A (v_get t (bsd_view d)))" "\<forall>a\<in>{t}. bsd_live d3 a"
      then show "does (removeIfEmpty t) {} d3 (v_clean t (fold (v_add t) D (fold (v_remove t) A (v_get t (bsd_view d)))))"
        using removeIfEmpty_does [OF d3(1), of "{}" t] live_view [OF d3(1), of t] by simp
    qed
  qed
qed

subsection \<open>The links after an observer\<close>

abbreviation cos_link :: "multisig_view \<Rightarrow> Address \<Rightarrow> Address \<Rightarrow> bool" where
  "cos_link \<equiv> linked_to cosignatoryAddresses"

abbreviation mul_link :: "multisig_view \<Rightarrow> Address \<Rightarrow> Address \<Rightarrow> bool" where
  "mul_link \<equiv> linked_to multisigAddresses"

lemma set_insort_insert' [simp]: "set (insort_insert x xs) = insert x (set xs)"
  by (simp add: set_insort_insert)

lemma links_get [simp]: "cos_link (v_get a m) = cos_link m" "mul_link (v_get a m) = mul_link m"
  by (auto simp: linked_to_def v_get_def fun_eq_iff new_MultisigEntry_def split: option.splits)

lemma links_clean [simp]: "cos_link (v_clean a m) = cos_link m" "mul_link (v_clean a m) = mul_link m"
  by (auto simp: linked_to_def v_clean_def is_unlinked_def fun_eq_iff)

lemma links_add:
  assumes "m t \<noteq> None"
  shows "cos_link (v_add t c m) x y \<longleftrightarrow> cos_link m x y \<or> x = t \<and> y = c"
    and "mul_link (v_add t c m) x y \<longleftrightarrow> mul_link m x y \<or> x = c \<and> y = t"
  using assms by (auto simp: linked_to_def v_add_def v_modify_def v_get_def new_MultisigEntry_def split: option.splits)

lemma links_remove:
  assumes "m t \<noteq> None" "c \<noteq> t"
  shows "cos_link (v_remove t c m) x y \<longleftrightarrow> cos_link m x y \<and> \<not> (x = t \<and> y = c)"
    and "mul_link (v_remove t c m) x y \<longleftrightarrow> mul_link m x y \<and> \<not> (x = c \<and> y = t)"
  using assms(2) unfolding v_remove_def links_clean
  by (auto simp: linked_to_def v_modify_def)

lemma links_fold_add:
  assumes "m t \<noteq> None"
  shows "cos_link (fold (v_add t) cs m) x y \<longleftrightarrow> cos_link m x y \<or> x = t \<and> y \<in> set cs"
    and "mul_link (fold (v_add t) cs m) x y \<longleftrightarrow> mul_link m x y \<or> x \<in> set cs \<and> y = t"
proof -
  have "cos_link (fold (v_add t) cs m) x y = (cos_link m x y \<or> x = t \<and> y \<in> set cs)
      \<and> mul_link (fold (v_add t) cs m) x y = (mul_link m x y \<or> x \<in> set cs \<and> y = t)"
    using assms
  proof (induction cs arbitrary: m)
    case (Cons c cs)
    then have "v_add t c m t \<noteq> None" by (subst v_add_dom) simp
    with Cons.IH [of "v_add t c m"] links_add [where m = m, OF Cons.prems] show ?case by auto
  qed simp
  then show "cos_link (fold (v_add t) cs m) x y \<longleftrightarrow> cos_link m x y \<or> x = t \<and> y \<in> set cs"
    and "mul_link (fold (v_add t) cs m) x y \<longleftrightarrow> mul_link m x y \<or> x \<in> set cs \<and> y = t" by blast+
qed

lemma links_fold_remove:
  assumes "m t \<noteq> None" "t \<notin> set cs"
  shows "cos_link (fold (v_remove t) cs m) x y \<longleftrightarrow> cos_link m x y \<and> \<not> (x = t \<and> y \<in> set cs)"
    and "mul_link (fold (v_remove t) cs m) x y \<longleftrightarrow> mul_link m x y \<and> \<not> (x \<in> set cs \<and> y = t)"
proof -
  have "cos_link (fold (v_remove t) cs m) x y = (cos_link m x y \<and> \<not> (x = t \<and> y \<in> set cs))
      \<and> mul_link (fold (v_remove t) cs m) x y = (mul_link m x y \<and> \<not> (x \<in> set cs \<and> y = t))"
    using assms
  proof (induction cs arbitrary: m)
    case (Cons c cs)
    then have c: "c \<noteq> t" by auto
    then have "v_remove t c m t \<noteq> None" using Cons.prems(1) by (subst v_remove_dom) simp
    with Cons.IH [of "v_remove t c m"] links_remove [where m = m, OF Cons.prems(1) c] Cons.prems(2) show ?case by auto
  qed simp
  then show "cos_link (fold (v_remove t) cs m) x y \<longleftrightarrow> cos_link m x y \<and> \<not> (x = t \<and> y \<in> set cs)"
    and "mul_link (fold (v_remove t) cs m) x y \<longleftrightarrow> mul_link m x y \<and> \<not> (x \<in> set cs \<and> y = t)" by blast+
qed

lemma links_commit:
  assumes "t \<notin> set D"
  shows "cos_link (v_commit t A D m) x y \<longleftrightarrow> (cos_link m x y \<or> x = t \<and> y \<in> set A) \<and> \<not> (x = t \<and> y \<in> set D)"
    and "mul_link (v_commit t A D m) x y \<longleftrightarrow> (mul_link m x y \<or> x \<in> set A \<and> y = t) \<and> \<not> (x \<in> set D \<and> y = t)"
proof -
  have t: "v_get t m t \<noteq> None" by (simp add: v_get_def)
  note t' = fold_v_add_dom [where t = t and cs = A and m = "v_get t m" and x = t, OF t]
  show "cos_link (v_commit t A D m) x y \<longleftrightarrow> (cos_link m x y \<or> x = t \<and> y \<in> set A) \<and> \<not> (x = t \<and> y \<in> set D)"
    and "mul_link (v_commit t A D m) x y \<longleftrightarrow> (mul_link m x y \<or> x \<in> set A \<and> y = t) \<and> \<not> (x \<in> set D \<and> y = t)"
    unfolding v_commit_def links_clean links_fold_remove [where m = "fold (v_add t) A (v_get t m)", OF t' assms] links_fold_add [where m = "v_get t m", OF t] by auto
qed

text \<open>The links of a cache agree in both directions.\<close>

definition links_agree :: "multisig_view \<Rightarrow> bool" where
  "links_agree m \<longleftrightarrow> (\<forall>x y. mul_link m x y = cos_link m y x)"

lemma levels_no_self:
  assumes "levels_le R k x"
  shows "\<not> R x x"
proof
  assume "R x x"
  then have "successively R (replicate n x)" for n by (induction n) (auto simp: successively_Cons, metis hd_replicate)
  from this [of "Suc (Suc k)"] assms show False unfolding levels_le_def by (metis length_replicate not_less_eq_eq order_refl replicate_Suc)
qed

text \<open>What the validators say.\<close>

lemma validate_success:
  assumes "LoopAndLevelChecker_validate maxDepth fuel m t c = Some Multisig_Success" "links_agree m"
  shows "\<not> (cos_link m)\<^sup>*\<^sup>* c t" "\<exists>U B. levels_le (\<lambda>x y. cos_link m y x) U t \<and> levels_le (cos_link m) B c \<and> U + B + 1 \<le> unat maxDepth"
proof -
  obtain U anc B desc where f: "FindAll multisigAddresses fuel m t {t} = Some (U, anc)" "FindAll cosignatoryAddresses fuel m c {c} = Some (B, desc)"
      "U + B + 1 \<le> unat maxDepth" "anc \<inter> desc = {}"
    using assms(1) by (auto simp: LoopAndLevelChecker_validate_def FindAncestors_def FindDescendants_def not_less split: option.splits if_splits)
  have mul: "mul_link m = (\<lambda>x y. cos_link m y x)" using assms(2) by (auto simp: links_agree_def)
  note anc = FindAll_sound(1) [OF f(1)] and desc = FindAll_sound(1) [OF f(2)]
  show "\<not> (cos_link m)\<^sup>*\<^sup>* c t" using anc desc f(4) by (auto dest: rtranclpD)
  show "\<exists>U B. levels_le (\<lambda>x y. cos_link m y x) U t \<and> levels_le (cos_link m) B c \<and> U + B + 1 \<le> unat maxDepth"
    using anc desc f(3) unfolding mul by blast
qed

lemma cosignatories_validated:
  assumes "MultisigCosignatoriesValidator n = Multisig_Success" "MultisigInvalidCosignatoriesValidator resolve n m = Multisig_Success"
  shows "length (AddressDeletions n) \<le> 1" "distinct (AddressAdditions n)"
    "\<forall>a\<in>set (AddressAdditions n). \<not> cos_link m (mcn_Multisig n) (resolve a)"
    "\<forall>a\<in>set (AddressDeletions n). cos_link m (mcn_Multisig n) (resolve a)"
  using assms
  by (auto simp: MultisigCosignatoriesValidator_def MultisigInvalidCosignatoriesValidator_def hasCosignatory_def linked_to_def list_ex_iff
      card_distinct split: if_splits option.splits)

lemma commit_keeps_levels:
  assumes "links_agree m" "\<And>a. levels_le (cos_link m) (unat maxDepth) a" "t \<notin> set D"
    and "\<And>c. c \<in> set A \<Longrightarrow> LoopAndLevelChecker_validate maxDepth fuel m t c = Some Multisig_Success"
  shows "links_agree (v_commit t A D m)" "levels_le (cos_link (v_commit t A D m)) (unat maxDepth) a"
proof -
  show "links_agree (v_commit t A D m)"
    using assms(1) unfolding links_agree_def links_commit [OF assms(3)] by blast
  show "levels_le (cos_link (v_commit t A D m)) (unat maxDepth) a"
  proof (cases "A = []")
    case True
    have "successively (cos_link m) xs" if "successively (cos_link (v_commit t A D m)) xs" for xs
      by (rule successively_mono [OF that]) (use True in \<open>auto simp: links_commit [OF assms(3)]\<close>)
    then show ?thesis using assms(2) by (auto simp: levels_le_def)
  next
    case False
    then obtain c0 where "c0 \<in> set A" by (cases A) auto
    then obtain U0 B0 where U: "levels_le (\<lambda>x y. cos_link m y x) U0 t" using validate_success(2) [OF assms(4) [of c0] assms(1)] by blast
    define U where "U = (LEAST U. levels_le (\<lambda>x y. cos_link m y x) U t)"
    have up: "levels_le (\<lambda>x y. cos_link m y x) U t" unfolding U_def using U by (rule LeastI)
    have least: "U \<le> V" if "levels_le (\<lambda>x y. cos_link m y x) V t" for V unfolding U_def using that by (rule Least_le)
    show ?thesis
    proof (rule levels_le_new_edges [of "cos_link (v_commit t A D m)" "cos_link m" t "set A" "unat maxDepth" U])
      show "\<exists>B. levels_le (cos_link m) B c \<and> U + B + 1 \<le> unat maxDepth" if c: "c \<in> set A" for c
      proof -
        obtain V B where "levels_le (\<lambda>x y. cos_link m y x) V t" "levels_le (cos_link m) B c" "V + B + 1 \<le> unat maxDepth"
          using validate_success(2) [OF assms(4) [OF c] assms(1)] by blast
        then show ?thesis using least [of V] by (intro exI [of _ B]) simp
      qed
    qed (use assms(2) up validate_success(1) [OF assms(4) assms(1)] links_commit [OF assms(3)] in blast)+
  qed
qed

subsection \<open>Undoing a modification\<close>

text \<open>What the loops do to the entry of one account.\<close>

definition o_get :: "Address \<Rightarrow> MultisigEntry option \<Rightarrow> MultisigEntry" where
  "o_get x e = (case e of None \<Rightarrow> new_MultisigEntry x | Some e \<Rightarrow> e)"

definition o_clean :: "MultisigEntry option \<Rightarrow> MultisigEntry option" where
  "o_clean e = (if is_unlinked e then None else e)"

lemma fold_add_at:
  assumes "t \<notin> set cs" "distinct cs"
  shows "fold (v_add t) cs m x = (if x = t then map_option (\<lambda>e. e\<lparr>cosignatoryAddresses := fold insort_insert cs (cosignatoryAddresses e)\<rparr>) (m t)
    else if x \<in> set cs then Some ((o_get x (m x))\<lparr>multisigAddresses := insort_insert t (multisigAddresses (o_get x (m x)))\<rparr>) else m x)"
  using assms
proof (induction cs arbitrary: m)
  case Nil
  have "map_option (\<lambda>e. e\<lparr>cosignatoryAddresses := cosignatoryAddresses e\<rparr>) (m t) = m t" by (cases "m t") simp_all
  then show ?case by simp
next
  case (Cons c cs)
  have add: "v_add t c m y = (if y = t then map_option (\<lambda>e. e\<lparr>cosignatoryAddresses := insort_insert c (cosignatoryAddresses e)\<rparr>) (m t)
    else if y = c then Some ((o_get c (m c))\<lparr>multisigAddresses := insort_insert t (multisigAddresses (o_get c (m c)))\<rparr>) else m y)" for y
    using Cons.prems(1) by (auto simp: v_add_def v_modify_def v_get_def o_get_def split: option.splits)
  have "fold (v_add t) (c # cs) m x = fold (v_add t) cs (v_add t c m) x" by simp
  also have "\<dots> = (if x = t then map_option (\<lambda>e. e\<lparr>cosignatoryAddresses := fold insort_insert cs (cosignatoryAddresses e)\<rparr>) (v_add t c m t)
    else if x \<in> set cs then Some ((o_get x (v_add t c m x))\<lparr>multisigAddresses := insort_insert t (multisigAddresses (o_get x (v_add t c m x)))\<rparr>)
    else v_add t c m x)" using Cons by simp
  finally show ?case using Cons.prems unfolding add by (auto simp: option.map_comp comp_def)
qed

lemma fold_remove_at:
  assumes "t \<notin> set cs" "distinct cs"
  shows "fold (v_remove t) cs m x = (if x = t then map_option (\<lambda>e. e\<lparr>cosignatoryAddresses := fold removeAll cs (cosignatoryAddresses e)\<rparr>) (m t)
    else if x \<in> set cs then o_clean (map_option (\<lambda>e. e\<lparr>multisigAddresses := removeAll t (multisigAddresses e)\<rparr>) (m x)) else m x)"
  using assms
proof (induction cs arbitrary: m)
  case Nil
  have "map_option (\<lambda>e. e\<lparr>cosignatoryAddresses := cosignatoryAddresses e\<rparr>) (m t) = m t" by (cases "m t") simp_all
  then show ?case by simp
next
  case (Cons c cs)
  have remove: "v_remove t c m y = (if y = t then map_option (\<lambda>e. e\<lparr>cosignatoryAddresses := removeAll c (cosignatoryAddresses e)\<rparr>) (m t)
    else if y = c then o_clean (map_option (\<lambda>e. e\<lparr>multisigAddresses := removeAll t (multisigAddresses e)\<rparr>) (m c)) else m y)" for y
    using Cons.prems(1) by (auto simp: v_remove_def v_clean_def v_modify_def o_clean_def)
  have "fold (v_remove t) (c # cs) m x = fold (v_remove t) cs (v_remove t c m) x" by simp
  also have "\<dots> = (if x = t then map_option (\<lambda>e. e\<lparr>cosignatoryAddresses := fold removeAll cs (cosignatoryAddresses e)\<rparr>) (v_remove t c m t)
    else if x \<in> set cs then o_clean (map_option (\<lambda>e. e\<lparr>multisigAddresses := removeAll t (multisigAddresses e)\<rparr>) (v_remove t c m x))
    else v_remove t c m x)" using Cons by simp
  finally show ?case using Cons.prems unfolding remove by (auto simp: option.map_comp comp_def)
qed

lemma fold_removeAll: "fold removeAll cs xs = filter (\<lambda>x. x \<notin> set cs) xs"
  by (induction cs arbitrary: xs) (auto simp: removeAll_filter_not_eq intro: filter_cong)

lemma fold_insort_insert:
  fixes xs :: "'a::linorder list"
  shows "set (fold insort_insert cs xs) = set cs \<union> set xs" "sorted xs \<Longrightarrow> sorted (fold insort_insert cs xs)"
    "distinct xs \<Longrightarrow> distinct (fold insort_insert cs xs)"
  by (induction cs arbitrary: xs) (auto simp: set_insort_insert sorted_insort_insert distinct_insort_insert)

text \<open>Adding and taking away again, in either order, gives back the sorted list.\<close>

lemma add_then_remove:
  fixes xs :: "Address list"
  assumes "sorted xs" "distinct xs" "set A \<inter> set xs = {}" "set D \<subseteq> set xs"
  shows "fold insort_insert D (fold removeAll A (fold removeAll D (fold insort_insert A xs))) = xs"
proof (rule sorted_distinct_set_unique)
  show "sorted (fold insort_insert D (fold removeAll A (fold removeAll D (fold insort_insert A xs))))"
      "distinct (fold insort_insert D (fold removeAll A (fold removeAll D (fold insort_insert A xs))))"
    using assms(1,2) fold_insort_insert(2,3) [of xs A] by (auto intro!: fold_insort_insert simp: fold_removeAll sorted_wrt_filter)
  show "set (fold insort_insert D (fold removeAll A (fold removeAll D (fold insort_insert A xs)))) = set xs"
    using assms(3,4) by (auto simp: fold_insort_insert fold_removeAll)
qed (use assms in auto)

lemma insort_removeAll:
  fixes xs :: "Address list"
  assumes "sorted xs" "distinct xs"
  shows "t \<notin> set xs \<Longrightarrow> removeAll t (insort_insert t xs) = xs" "t \<in> set xs \<Longrightarrow> insort_insert t (removeAll t xs) = xs"
  using add_then_remove [of xs "[t]" "[]"] add_then_remove [of xs "[]" "[t]"] assms by simp_all

text \<open>
  The invariant of the cache: links in both directions, sorted sets, no entry without links, and settings between
  one and the number of cosignatories exactly for multisig accounts.
\<close>

definition setting_ok :: "MultisigEntry \<Rightarrow> uint32 \<Rightarrow> bool" where
  "setting_ok e v \<longleftrightarrow> (if cosignatoryAddresses e = [] then v = 0 else v \<noteq> 0 \<and> unat v \<le> length (cosignatoryAddresses e))"

definition entry_ok :: "Address \<Rightarrow> MultisigEntry \<Rightarrow> bool" where
  "entry_ok a e \<longleftrightarrow> me_address e = a \<and> sorted (cosignatoryAddresses e) \<and> distinct (cosignatoryAddresses e)
     \<and> sorted (multisigAddresses e) \<and> distinct (multisigAddresses e) \<and> \<not> is_unlinked (Some e)
     \<and> setting_ok e (minApproval e) \<and> setting_ok e (minRemoval e)"

definition multisig_inv :: "multisig_view \<Rightarrow> bool" where
  "multisig_inv m \<longleftrightarrow> links_agree m \<and> (\<forall>a e. m a = Some e \<longrightarrow> entry_ok a e)"

definition modification_ok :: "Address \<Rightarrow> Address list \<Rightarrow> Address list \<Rightarrow> multisig_view \<Rightarrow> bool" where
  "modification_ok t A D m \<longleftrightarrow> distinct A \<and> t \<notin> set A \<and> t \<notin> set D \<and> length D \<le> 1
     \<and> (\<forall>c\<in>set A. \<not> cos_link m t c) \<and> (\<forall>c\<in>set D. cos_link m t c)"

lemma commit_at:
  assumes "modification_ok t A D m"
  shows "v_commit t A D m t = o_clean (Some ((o_get t (m t))\<lparr>cosignatoryAddresses :=
      fold removeAll D (fold insort_insert A (cosignatoryAddresses (o_get t (m t))))\<rparr>))"
    and "x \<noteq> t \<Longrightarrow> v_commit t A D m x
      = (if x \<in> set A then Some ((o_get x (m x))\<lparr>multisigAddresses := insort_insert t (multisigAddresses (o_get x (m x)))\<rparr>)
         else if x \<in> set D then o_clean (map_option (\<lambda>e. e\<lparr>multisigAddresses := removeAll t (multisigAddresses e)\<rparr>) (m x)) else m x)"
proof -
  have d: "t \<notin> set A" "distinct A" "t \<notin> set D" "distinct D" "set A \<inter> set D = {}"
    using assms by (auto simp: modification_ok_def le_Suc_eq length_Suc_conv)
  show "v_commit t A D m t = o_clean (Some ((o_get t (m t))\<lparr>cosignatoryAddresses :=
      fold removeAll D (fold insort_insert A (cosignatoryAddresses (o_get t (m t))))\<rparr>))"
    unfolding v_commit_def v_clean_def fold_remove_at [OF d(3,4)] fold_add_at [OF d(1,2)]
    by (simp add: o_clean_def o_get_def v_get_def fold_remove_at [OF d(3,4)] fold_add_at [OF d(1,2)])
  show "v_commit t A D m x
      = (if x \<in> set A then Some ((o_get x (m x))\<lparr>multisigAddresses := insort_insert t (multisigAddresses (o_get x (m x)))\<rparr>)
         else if x \<in> set D then o_clean (map_option (\<lambda>e. e\<lparr>multisigAddresses := removeAll t (multisigAddresses e)\<rparr>) (m x)) else m x)"
    if "x \<noteq> t"
    using that d(5) unfolding v_commit_def v_clean_def
    by (auto simp: fold_remove_at [OF d(3,4)] fold_add_at [OF d(1,2)] v_get_def)
qed

lemma rollback_at:
  assumes "modification_ok t A D m"
  shows "v_rollback t A D n t = o_clean (Some ((o_get t (n t))\<lparr>cosignatoryAddresses :=
      fold insort_insert D (fold removeAll A (cosignatoryAddresses (o_get t (n t))))\<rparr>))"
    and "x \<noteq> t \<Longrightarrow> v_rollback t A D n x
      = (if x \<in> set A then o_clean (map_option (\<lambda>e. e\<lparr>multisigAddresses := removeAll t (multisigAddresses e)\<rparr>) (n x))
         else if x \<in> set D then Some ((o_get x (n x))\<lparr>multisigAddresses := insort_insert t (multisigAddresses (o_get x (n x)))\<rparr>) else n x)"
proof -
  have d: "t \<notin> set A" "distinct A" "t \<notin> set D" "distinct D" "set A \<inter> set D = {}"
    using assms by (auto simp: modification_ok_def le_Suc_eq length_Suc_conv)
  show "v_rollback t A D n t = o_clean (Some ((o_get t (n t))\<lparr>cosignatoryAddresses :=
      fold insort_insert D (fold removeAll A (cosignatoryAddresses (o_get t (n t))))\<rparr>))"
    unfolding v_rollback_def v_clean_def
    by (simp add: o_clean_def o_get_def v_get_def fold_remove_at [OF d(1,2)] fold_add_at [OF d(3,4)])
  show "v_rollback t A D n x
      = (if x \<in> set A then o_clean (map_option (\<lambda>e. e\<lparr>multisigAddresses := removeAll t (multisigAddresses e)\<rparr>) (n x))
         else if x \<in> set D then Some ((o_get x (n x))\<lparr>multisigAddresses := insort_insert t (multisigAddresses (o_get x (n x)))\<rparr>) else n x)"
    if "x \<noteq> t"
    using that d(5) unfolding v_rollback_def v_clean_def
    by (auto simp: fold_remove_at [OF d(1,2)] fold_add_at [OF d(3,4)] v_get_def)
qed

text \<open>The settings that a rolled back entry has when it was gone.\<close>

definition restored_settings :: "Address \<Rightarrow> multisig_view \<Rightarrow> multisig_view" where
  "restored_settings t m = (if m t = None then m(t \<mapsto> (new_MultisigEntry t)\<lparr>minApproval := 1, minRemoval := 1\<rparr>) else m)"

lemma rollback_other:
  assumes "multisig_inv m" "modification_ok t A D m" "x \<noteq> t"
  shows "v_rollback t A D (restored_settings t (v_commit t A D m)) x = m x"
proof -
  let ?n = "restored_settings t (v_commit t A D m)"
  have n: "?n x = v_commit t A D m x" using assms(3) by (simp add: restored_settings_def)
  have ok: "m x = Some e \<Longrightarrow> entry_ok x e" for e using assms(1) by (simp add: multisig_inv_def)
  have mul: "mul_link m x t \<longleftrightarrow> cos_link m t x" using assms(1) by (simp add: multisig_inv_def links_agree_def)
  note at = commit_at(2) [OF assms(2,3)] rollback_at(2) [OF assms(2,3), of ?n, unfolded n]
  consider (A) "x \<in> set A" | (D) "x \<notin> set A" "x \<in> set D" | (other) "x \<notin> set A" "x \<notin> set D" by blast
  then show ?thesis
  proof cases
    case A
    then have no: "\<not> mul_link m x t" using assms(2) mul by (simp add: modification_ok_def)
    show ?thesis
    proof (cases "m x")
      case None
      then show ?thesis unfolding at using A by (simp add: o_get_def o_clean_def is_unlinked_def new_MultisigEntry_def insort_insert_key_def)
    next
      case (Some e)
      have "t \<notin> set (multisigAddresses e)" using no Some by (simp add: linked_to_def)
      then have "removeAll t (insort_insert t (multisigAddresses e)) = multisigAddresses e"
        using insort_removeAll(1) ok [OF Some] by (simp add: entry_ok_def)
      then show ?thesis unfolding at using A Some ok [OF Some] by (simp add: o_get_def o_clean_def entry_ok_def)
    qed
  next
    case D
    then have "mul_link m x t" using assms(2) mul by (simp add: modification_ok_def)
    then obtain e where e: "m x = Some e" "t \<in> set (multisigAddresses e)" by (auto simp: linked_to_def)
    note ok = ok [OF e(1)]
    have bk: "insort_insert t (removeAll t (multisigAddresses e)) = multisigAddresses e"
      using insort_removeAll(2) e(2) ok by (simp add: entry_ok_def)
    show ?thesis
    proof (cases "is_unlinked (Some (e\<lparr>multisigAddresses := removeAll t (multisigAddresses e)\<rparr>))")
      case True
      then have "cosignatoryAddresses e = []" "multisigAddresses e = [t]" using bk by (auto simp: is_unlinked_def insort_insert_key_def)
      moreover from this have "e = (new_MultisigEntry x)\<lparr>multisigAddresses := [t]\<rparr>"
        using ok by (cases e) (simp add: entry_ok_def setting_ok_def new_MultisigEntry_def)
      ultimately show ?thesis unfolding at using D e(1) True
        by (simp add: o_get_def o_clean_def insort_insert_key_def) (simp add: new_MultisigEntry_def)
    next
      case False
      then show ?thesis unfolding at using D e(1) bk by (simp add: o_get_def o_clean_def)
    qed
  next
    case other
    then show ?thesis unfolding at by simp
  qed
qed

lemma rollback_self:
  assumes "multisig_inv m" "modification_ok t A D m"
  shows "v_rollback t A D (restored_settings t (v_commit t A D m)) t = m t"
proof -
  let ?e = "o_get t (m t)" and ?n = "restored_settings t (v_commit t A D m)"
  let ?c = "fold removeAll D (fold insort_insert A (cosignatoryAddresses ?e))"
  have ok: "m t = Some e \<Longrightarrow> entry_ok t e" for e using assms(1) by (simp add: multisig_inv_def)
  have cos: "sorted (cosignatoryAddresses ?e)" "distinct (cosignatoryAddresses ?e)" "set A \<inter> set (cosignatoryAddresses ?e) = {}"
      "set D \<subseteq> set (cosignatoryAddresses ?e)" "length D \<le> 1" "distinct A" "set A \<inter> set D = {}"
    using assms(2) ok by (cases "m t"; auto simp: modification_ok_def linked_to_def o_get_def entry_ok_def new_MultisigEntry_def)+
  note bk = add_then_remove [OF cos(1-4)]
  show ?thesis
  proof (cases "is_unlinked (Some (?e\<lparr>cosignatoryAddresses := ?c\<rparr>))")
    case False
    then have "?n t = Some (?e\<lparr>cosignatoryAddresses := ?c\<rparr>)" using commit_at(1) [OF assms(2)] by (simp add: restored_settings_def o_clean_def)
    then have "v_rollback t A D ?n t = o_clean (Some ?e)" unfolding rollback_at(1) [OF assms(2)] using bk by (simp add: o_get_def)
    moreover have "o_clean (Some ?e) = m t" using ok
      by (cases "m t") (auto simp: o_clean_def o_get_def entry_ok_def is_unlinked_def new_MultisigEntry_def)
    ultimately show ?thesis by simp
  next
    case True
    then have gone: "?n t = Some ((new_MultisigEntry t)\<lparr>minApproval := 1, minRemoval := 1\<rparr>)"
      using commit_at(1) [OF assms(2)] by (simp add: restored_settings_def o_clean_def)
    have c: "?c = []" "multisigAddresses ?e = []" using True by (auto simp: is_unlinked_def)
    have "set ?c = (set A \<union> set (cosignatoryAddresses ?e)) - set D" by (auto simp: fold_removeAll fold_insort_insert)
    then have "set A \<subseteq> set D" "set (cosignatoryAddresses ?e) \<subseteq> set D" unfolding c(1) by auto
    then have "set A = {}" "set (cosignatoryAddresses ?e) = set D" using cos(4,7) by (simp_all add: Int_absorb2 subset_antisym)
    then have A: "A = []" and eq: "set (cosignatoryAddresses ?e) = set D" by simp_all
    have D: "cosignatoryAddresses ?e = D"
    proof (cases D)
      case Nil
      then show ?thesis using eq by simp
    next
      case (Cons c cs)
      then have "D = [c]" using cos(5) by simp
      then show ?thesis using eq cos(1,2) sorted_distinct_set_unique [of "cosignatoryAddresses ?e" "[c]"] by simp
    qed
    have bk: "v_rollback t A D ?n t
        = o_clean (Some ((new_MultisigEntry t)\<lparr>minApproval := 1, minRemoval := 1, cosignatoryAddresses := fold insort_insert D []\<rparr>))"
      unfolding rollback_at(1) [OF assms(2)] gone by (simp add: o_get_def new_MultisigEntry_def A)
    show ?thesis
    proof (cases "m t")
      case None
      then have "D = []" using D by (simp add: o_get_def new_MultisigEntry_def)
      then show ?thesis unfolding bk by (simp add: None o_clean_def is_unlinked_def new_MultisigEntry_def)
    next
      case (Some e)
      then have e: "cosignatoryAddresses e = D" "multisigAddresses e = []" "entry_ok t e" using D c(2) ok by (simp_all add: o_get_def)
      then obtain x where x: "D = [x]" using cos(5) by (cases D) (auto simp: entry_ok_def is_unlinked_def)
      have one: "v = 1" if "setting_ok e v" for v
      proof -
        have "v \<noteq> 0" "unat v \<le> 1" using that e(1) x by (simp_all add: setting_ok_def)
        then have "unat v = unat (1 :: uint32)" using unat_gt_0 [of v] by simp
        then show ?thesis by (simp only: word_unat_eq_iff)
      qed
      have "e = (new_MultisigEntry t)\<lparr>minApproval := 1, minRemoval := 1, cosignatoryAddresses := [x]\<rparr>"
        using e x one by (cases e) (simp add: entry_ok_def new_MultisigEntry_def)
      then show ?thesis unfolding bk by (simp add: x Some o_clean_def is_unlinked_def insort_insert_key_def new_MultisigEntry_def)
    qed
  qed
qed

subsection \<open>The modification transaction\<close>

fun multisig_code :: "MultisigResult \<Rightarrow> uint16" where
  "multisig_code Failure_Multisig_Account_In_Both_Sets = 1"
| "multisig_code Failure_Multisig_Multiple_Deletes = 2"
| "multisig_code Failure_Multisig_Redundant_Modification = 3"
| "multisig_code Failure_Multisig_Unknown_Multisig_Account = 4"
| "multisig_code Failure_Multisig_Not_A_Cosignatory = 5"
| "multisig_code Failure_Multisig_Already_A_Cosignatory = 6"
| "multisig_code Failure_Multisig_Min_Setting_Out_Of_Range = 7"
| "multisig_code Failure_Multisig_Min_Setting_Larger_Than_Num_Cosignatories = 8"
| "multisig_code Failure_Multisig_Max_Cosigned_Accounts = 10"
| "multisig_code Failure_Multisig_Max_Cosignatories = 11"
| "multisig_code Failure_Multisig_Loop = 12"
| "multisig_code Failure_Multisig_Max_Multisig_Depth = 13"
| "multisig_code Failure_Multisig_Operation_Prohibited_By_Account = 14"
| "multisig_code _ = 0"

definition multisig_result :: "MultisigResult \<Rightarrow> ResultCode" where
  "multisig_result r = (if r = Multisig_Success then Result_Success else MakeValidationResult 2 (facility_code Facility_Multisig) (multisig_code r) 0)"

definition Multisig_Cosignatories_Notification :: NotificationType where
  "Multisig_Cosignatories_Notification = MakeNotificationType Channel_All Facility_Multisig 0x0001"

definition Multisig_New_Cosignatory_Notification :: NotificationType where
  "Multisig_New_Cosignatory_Notification = MakeNotificationType Channel_Validator Facility_Multisig 0x0002"

definition Multisig_Settings_Notification :: NotificationType where
  "Multisig_Settings_Notification = MakeNotificationType Channel_All Facility_Multisig 0x0003"

datatype multisig_data =
  Data_Cosignatories MultisigCosignatoriesNotification | Data_NewCosignatory MultisigNewCosignatoryNotification | Data_Settings MultisigSettingsNotification

record MultisigConfiguration =
  MaxMultisigDepth :: uint8
  MaxCosignatoriesPerAccount :: uint32
  MaxCosignedAccountsPerAccount :: uint32

text \<open>
  The stateful validators and the observers that the plugin registers for the notifications of a modification. The recursion of the level validator
  gets as much fuel as levels are allowed and one more, which suffices for every cache that respects the limit; the recursion of the source has
  no bound. The validators of permitted operations and of aggregates are registered for other notifications and are not part of this definition.
\<close>

definition multisig_validator :: "MultisigConfiguration \<Rightarrow> (UnresolvedAddress \<Rightarrow> Address) \<Rightarrow> (multisig_data, MultisigCacheDelta) validator" where
  "multisig_validator config resolve = AggregateValidator (\<lambda>_. False)
     [ConditionalValidator Multisig_New_Cosignatory_Notification (\<lambda>n s. case n_Data n of
        Data_NewCosignatory d \<Rightarrow> multisig_result (MultisigMaxCosignedAccountsValidator (MaxCosignedAccountsPerAccount config) resolve d (bsd_find_const MutableTypeTag s))
      | _ \<Rightarrow> Result_Success),
      ConditionalValidator Multisig_Cosignatories_Notification (\<lambda>n s. case n_Data n of
        Data_Cosignatories d \<Rightarrow> multisig_result (MultisigMaxCosignatoriesValidator (MaxCosignatoriesPerAccount config) d (bsd_find_const MutableTypeTag s))
      | _ \<Rightarrow> Result_Success),
      ConditionalValidator Multisig_Cosignatories_Notification (\<lambda>n s. case n_Data n of
        Data_Cosignatories d \<Rightarrow> multisig_result (MultisigInvalidCosignatoriesValidator resolve d (bsd_find_const MutableTypeTag s))
      | _ \<Rightarrow> Result_Success),
      ConditionalValidator Multisig_Settings_Notification (\<lambda>n s. case n_Data n of
        Data_Settings d \<Rightarrow> multisig_result (MultisigInvalidSettingsValidator d (bsd_find_const MutableTypeTag s))
      | _ \<Rightarrow> Result_Success),
      ConditionalValidator Multisig_New_Cosignatory_Notification (\<lambda>n s. case n_Data n of
        Data_NewCosignatory d \<Rightarrow>
          (case MultisigLoopAndLevelValidator (MaxMultisigDepth config) (Suc (unat (MaxMultisigDepth config))) resolve d (bsd_find_const MutableTypeTag s) of
             None \<Rightarrow> Result_Failure | Some r \<Rightarrow> multisig_result r)
      | _ \<Rightarrow> Result_Success)]"

definition multisig_observer :: "(UnresolvedAddress \<Rightarrow> Address) \<Rightarrow> (multisig_data, MultisigCacheDelta) observer" where
  "multisig_observer resolve = AggregateObserver
     [ConditionalObserver Multisig_Cosignatories_Notification (\<lambda>mode n s. case n_Data n of
        Data_Cosignatories d \<Rightarrow> MultisigCosignatoriesObserver mode resolve d s | _ \<Rightarrow> Inr s),
      ConditionalObserver Multisig_Settings_Notification (\<lambda>mode n s. case n_Data n of
        Data_Settings d \<Rightarrow> MultisigSettingsObserver mode d s | _ \<Rightarrow> Inr s)]"

record MultisigAccountModificationTransaction =
  mam_MinRemovalDelta :: uint8
  mam_MinApprovalDelta :: uint8
  mam_AddressAdditions :: "UnresolvedAddress list"
  mam_AddressDeletions :: "UnresolvedAddress list"

definition new_cosignatory_notification :: "Address \<Rightarrow> UnresolvedAddress \<Rightarrow> multisig_data Notification" where
  "new_cosignatory_notification signer cosignatory =
     \<lparr>n_Type = Multisig_New_Cosignatory_Notification, n_Size = 64, n_Data = Data_NewCosignatory \<lparr>mnc_Multisig = signer, mnc_Cosignatory = cosignatory\<rparr>\<rparr>"

definition cosignatories_notification :: "Address \<Rightarrow> UnresolvedAddress list \<Rightarrow> UnresolvedAddress list \<Rightarrow> multisig_data Notification" where
  "cosignatories_notification signer additions deletions =
     \<lparr>n_Type = Multisig_Cosignatories_Notification, n_Size = 72,
      n_Data = Data_Cosignatories \<lparr>mcn_Multisig = signer, AddressAdditions = additions, AddressDeletions = deletions\<rparr>\<rparr>"

definition settings_notification :: "Address \<Rightarrow> uint8 \<Rightarrow> uint8 \<Rightarrow> multisig_data Notification" where
  "settings_notification signer minRemovalDelta minApprovalDelta =
     \<lparr>n_Type = Multisig_Settings_Notification, n_Size = 48,
      n_Data = Data_Settings \<lparr>msn_Multisig = signer, MinRemovalDelta = minRemovalDelta, MinApprovalDelta = minApprovalDelta\<rparr>\<rparr>"

text \<open>
  The multisig notifications of the transaction, in order. The notifications for other plugins that are published in between (padding, account addresses,
  interactions) do not touch the multisig cache.
\<close>

definition multisig_Publish :: "Address \<Rightarrow> MultisigAccountModificationTransaction \<Rightarrow> multisig_data Notification list" where
  "multisig_Publish signer transaction =
     (if mam_AddressAdditions transaction \<noteq> [] \<or> mam_AddressDeletions transaction \<noteq> []
      then map (new_cosignatory_notification signer) (mam_AddressAdditions transaction)
        @ [cosignatories_notification signer (mam_AddressAdditions transaction) (mam_AddressDeletions transaction)]
      else [])
     @ [settings_notification signer (mam_MinRemovalDelta transaction) (mam_MinApprovalDelta transaction)]"

subsection \<open>The settings observer\<close>

definition change_settings :: "int \<Rightarrow> MultisigSettingsNotification \<Rightarrow> MultisigEntry \<Rightarrow> MultisigEntry" where
  "change_settings direction n e = e\<lparr>minApproval := AddDelta (minApproval e) direction (MinApprovalDelta n),
     minRemoval := AddDelta (minRemoval e) direction (MinRemovalDelta n)\<rparr>"

lemma settings_does:
  assumes "bsd_inv MutableTypeTag d"
  shows "does (MultisigSettingsObserver mode n) {} d (if mode = Commit \<and> bsd_view d (msn_Multisig n) = None then bsd_view d
    else v_modify (change_settings (if mode = Commit then 1 else - 1) n) (msn_Multisig n) (v_get (msn_Multisig n) (bsd_view d)))"
proof -
  let ?t = "msn_Multisig n" and ?f = "change_settings (if mode = Commit then 1 else - 1) n"
  define d1 where "d1 = snd (bsd_find MutableTypeTag d ?t)"
  have d1: "bsd_find MutableTypeTag d ?t = (bsd_view d ?t, d1)" "bsd_inv MutableTypeTag d1" "bsd_view d1 = bsd_view d"
    using bsd_find_view [OF assms] bsd_find_inv [OF assms] by (simp_all add: d1_def prod_eq_iff)
  have f: "(\<lambda>e. e\<lparr>minApproval := AddDelta (minApproval e) (if Commit = mode then 1 else - 1) (MinApprovalDelta n),
      minRemoval := AddDelta (minRemoval e) (if Commit = mode then 1 else - 1) (MinRemovalDelta n)\<rparr>) = ?f"
    by (auto simp: change_settings_def fun_eq_iff)
  have modify: "does (entry_modify ?f ?t) {} d' (v_modify ?f ?t (bsd_view d'))" if "bsd_inv MutableTypeTag d'" "bsd_live d' ?t" for d'
    using does_weaken [OF entry_modify_does [OF that(1), of "{?t}" ?t ?f]] that(2) by simp
  show ?thesis
  proof (cases "bsd_view d ?t")
    case None
    show ?thesis
    proof (cases mode)
      case Commit
      then show ?thesis using None d1 by (simp add: does_def MultisigSettingsObserver_def)
    next
      case Rollback
      obtain d2 where d2: "mixin_insert MutableTypeTag ?t (new_MultisigEntry ?t) d1 = Inr d2" "bsd_inv MutableTypeTag d2"
          "bsd_view d2 = (bsd_view d)(?t \<mapsto> new_MultisigEntry ?t)"
        using insert_live [OF d1(2), of ?t "new_MultisigEntry ?t"] None d1(3) by auto
      let ?d3 = "snd (bsd_find MutableTypeTag d2 ?t)"
      have d3: "bsd_inv MutableTypeTag ?d3" "bsd_view ?d3 = bsd_view d2" "bsd_live ?d3 ?t"
        using bsd_find_view [OF d2(2)] bsd_find_inv [OF d2(2)] find_live(1) [OF d2(2), of ?t] d2(3) by simp_all
      have "MultisigSettingsObserver mode n d = entry_modify ?f ?t ?d3"
        using None Rollback d1(1) d2(1) unfolding MultisigSettingsObserver_def Let_def f by simp
      moreover have "bsd_view ?d3 = v_get ?t (bsd_view d)" using d3(2) d2(3) None by (simp add: v_get_def)
      ultimately show ?thesis using modify [OF d3(1,3)] Rollback by (simp add: does_def)
    qed
  next
    case (Some e)
    have live: "bsd_live d1 ?t" using find_live(1) [OF assms, of ?t] Some by (simp add: d1_def)
    have "MultisigSettingsObserver mode n d = entry_modify ?f ?t d1"
      using Some d1(1) unfolding MultisigSettingsObserver_def Let_def f by simp
    moreover have "bsd_view d1 = v_get ?t (bsd_view d)" using d1(3) Some by (simp add: v_get_def fun_upd_idem)
    ultimately show ?thesis using modify [OF d1(2) live] Some by (simp add: does_def)
  qed
qed

lemma AddDelta_inverse: "AddDelta (AddDelta v 1 delta) (- 1) delta = v"
  by (simp add: AddDelta_def)

lemma settings_undone:
  fixes n
  defines "t \<equiv> msn_Multisig n"
  assumes "m t = None \<Longrightarrow> sint (MinRemovalDelta n) = - 1 \<and> sint (MinApprovalDelta n) = - 1"
  shows "v_modify (change_settings (- 1) n) t (v_get t (if m t = None then m else v_modify (change_settings 1 n) t (v_get t m))) = restored_settings t m"
proof (cases "m t")
  case None
  then show ?thesis using assms(2)
    by (auto simp: restored_settings_def v_modify_def v_get_def change_settings_def AddDelta_def new_MultisigEntry_def fun_eq_iff)
next
  case (Some e)
  then show ?thesis
    by (auto simp: restored_settings_def v_modify_def v_get_def change_settings_def AddDelta_inverse fun_eq_iff)
qed

end
