(* ===== verification/MultisigSound.thy ===== *)
theory MultisigSound
  imports Multisig
begin

section \<open>Soundness of multisig modifications (plugins/txes/multisig)\<close>

text \<open>
  The theory follows a modification transaction through validation and observation. It states what the registered
  validators establish, that the observers keep the invariant of the cache and the limits of the configuration if they
  do, and that undoing the accepted transaction restores every entry. It ends with the runs
  in which the last of these fails because a hypothesis is missing.
\<close>

subsection \<open>What the validators of a modification establish\<close>

lemma multisig_types:
  "AreEqualExcludingChannel Multisig_Cosignatories_Notification Multisig_Cosignatories_Notification"
  "AreEqualExcludingChannel Multisig_New_Cosignatory_Notification Multisig_New_Cosignatory_Notification"
  "AreEqualExcludingChannel Multisig_Settings_Notification Multisig_Settings_Notification"
  "\<not> AreEqualExcludingChannel Multisig_Cosignatories_Notification Multisig_New_Cosignatory_Notification"
  "\<not> AreEqualExcludingChannel Multisig_Cosignatories_Notification Multisig_Settings_Notification"
  "\<not> AreEqualExcludingChannel Multisig_New_Cosignatory_Notification Multisig_Cosignatories_Notification"
  "\<not> AreEqualExcludingChannel Multisig_New_Cosignatory_Notification Multisig_Settings_Notification"
  "\<not> AreEqualExcludingChannel Multisig_Settings_Notification Multisig_Cosignatories_Notification"
  "\<not> AreEqualExcludingChannel Multisig_Settings_Notification Multisig_New_Cosignatory_Notification"
  by code_simp+

lemma multisig_channels:
  "IsSet Multisig_Cosignatories_Notification Channel_Validator" "IsSet Multisig_Cosignatories_Notification Channel_Observer"
  "IsSet Multisig_New_Cosignatory_Notification Channel_Validator" "\<not> IsSet Multisig_New_Cosignatory_Notification Channel_Observer"
  "IsSet Multisig_Settings_Notification Channel_Validator" "IsSet Multisig_Settings_Notification Channel_Observer"
  by code_simp+

lemma multisig_result_success: "IsValidationResultSuccess (multisig_result r) \<longleftrightarrow> r = Multisig_Success"
  by (cases r) (simp_all add: multisig_result_def IsValidationResultSuccess_def GetSeverity_def Result_Success_def MakeValidationResult_def)

lemma failure_not_success: "\<not> IsValidationResultSuccess Result_Failure" "IsValidationResultSuccess Result_Success"
  by code_simp+

text \<open>The read only cache of a delta.\<close>

lemma find_const_is_view: "bsd_inv MutableTypeTag d \<Longrightarrow> bsd_find_const MutableTypeTag d = bsd_view d"
  by (rule ext) (rule bsd_find_const_view)

lemma validator_new:
  assumes "bsd_inv MutableTypeTag d"
  shows "IsValidationResultSuccess (multisig_validator config resolve (new_cosignatory_notification t a) d) \<longleftrightarrow>
    MultisigMaxCosignedAccountsValidator (MaxCosignedAccountsPerAccount config) resolve \<lparr>mnc_Multisig = t, mnc_Cosignatory = a\<rparr> (bsd_view d) = Multisig_Success
    \<and> LoopAndLevelChecker_validate (MaxMultisigDepth config) (Suc (unat (MaxMultisigDepth config))) (bsd_view d) t (resolve a) = Some Multisig_Success"
  unfolding multisig_validator_def AggregateValidator_success
  by (auto simp: ConditionalValidator_def new_cosignatory_notification_def multisig_types multisig_result_success failure_not_success
      find_const_is_view [OF assms] MultisigLoopAndLevelValidator_def split: option.splits)

lemma validator_cosignatories:
  assumes "bsd_inv MutableTypeTag d"
  shows "IsValidationResultSuccess (multisig_validator config resolve (cosignatories_notification t A D) d) \<longleftrightarrow>
    MultisigMaxCosignatoriesValidator (MaxCosignatoriesPerAccount config) \<lparr>mcn_Multisig = t, AddressAdditions = A, AddressDeletions = D\<rparr> (bsd_view d) = Multisig_Success
    \<and> MultisigInvalidCosignatoriesValidator resolve \<lparr>mcn_Multisig = t, AddressAdditions = A, AddressDeletions = D\<rparr> (bsd_view d) = Multisig_Success"
  unfolding multisig_validator_def AggregateValidator_success
  by (auto simp: ConditionalValidator_def cosignatories_notification_def multisig_types multisig_result_success failure_not_success find_const_is_view [OF assms])

lemma validator_settings:
  assumes "bsd_inv MutableTypeTag d"
  shows "IsValidationResultSuccess (multisig_validator config resolve (settings_notification t r a) d) \<longleftrightarrow>
    MultisigInvalidSettingsValidator \<lparr>msn_Multisig = t, MinRemovalDelta = r, MinApprovalDelta = a\<rparr> (bsd_view d) = Multisig_Success"
  unfolding multisig_validator_def AggregateValidator_success
  by (auto simp: ConditionalValidator_def settings_notification_def multisig_types multisig_result_success failure_not_success find_const_is_view [OF assms])

lemma observer_of:
  "multisig_observer resolve mode (cosignatories_notification t A D) s
    = MultisigCosignatoriesObserver mode resolve \<lparr>mcn_Multisig = t, AddressAdditions = A, AddressDeletions = D\<rparr> s"
  "multisig_observer resolve mode (settings_notification t r a) s
    = MultisigSettingsObserver mode \<lparr>msn_Multisig = t, MinRemovalDelta = r, MinApprovalDelta = a\<rparr> s"
  by (cases mode; simp add: multisig_observer_def AggregateObserver_def ConditionalObserver_def cosignatories_notification_def settings_notification_def
      multisig_types rbind_def split: sum.splits)+

text \<open>The limits of the configuration.\<close>

definition within_limits :: "MultisigConfiguration \<Rightarrow> multisig_view \<Rightarrow> bool" where
  "within_limits config m \<longleftrightarrow> (\<forall>a e. m a = Some e \<longrightarrow> length (cosignatoryAddresses e) \<le> unat (MaxCosignatoriesPerAccount config)
     \<and> length (multisigAddresses e) \<le> unat (MaxCosignedAccountsPerAccount config))"

definition multisig_ok :: "MultisigConfiguration \<Rightarrow> multisig_view \<Rightarrow> bool" where
  "multisig_ok config m \<longleftrightarrow> multisig_inv m \<and> within_limits config m \<and> (\<forall>a. levels_le (cos_link m) (unat (MaxMultisigDepth config)) a)"

lemma multisig_okD:
  assumes "multisig_ok config m"
  shows "multisig_inv m" "links_agree m" "m a = Some e \<Longrightarrow> entry_ok a e" "levels_le (cos_link m) (unat (MaxMultisigDepth config)) a"
    "m a = Some e \<Longrightarrow> length (cosignatoryAddresses e) \<le> unat (MaxCosignatoriesPerAccount config)"
    "m a = Some e \<Longrightarrow> length (multisigAddresses e) \<le> unat (MaxCosignedAccountsPerAccount config)"
  using assms unfolding multisig_ok_def multisig_inv_def within_limits_def by blast+

lemma modification_validated:
  assumes "multisig_ok config m" "MultisigCosignatoriesValidator \<lparr>mcn_Multisig = t, AddressAdditions = A, AddressDeletions = D\<rparr> = Multisig_Success"
    "MultisigInvalidCosignatoriesValidator resolve \<lparr>mcn_Multisig = t, AddressAdditions = A, AddressDeletions = D\<rparr> m = Multisig_Success"
    "\<forall>a\<in>set A. LoopAndLevelChecker_validate (MaxMultisigDepth config) fuel m t (resolve a) = Some Multisig_Success" "inj_on resolve (set A)"
  shows "modification_ok t (map resolve A) (map resolve D) m"
proof -
  note v = cosignatories_validated [OF assms(2,3), simplified]
  have "resolve a \<noteq> t" if "a \<in> set A" for a
    using validate_success(1) [OF _ multisig_okD(2) [OF assms(1)]] assms(4) that by blast
  moreover have "resolve a \<noteq> t" if "a \<in> set D" for a
    using levels_no_self [OF multisig_okD(4) [OF assms(1)], of t] v(4) that by metis
  ultimately show ?thesis using v assms(5) by (auto simp: modification_ok_def distinct_map)
qed

lemma insort_insert_facts:
  fixes xs :: "Address list"
  assumes "sorted xs" "distinct xs"
  shows "sorted (insort_insert t xs)" "distinct (insort_insert t xs)" "length (insort_insert t xs) \<le> Suc (length xs)"
    "sorted (removeAll t xs)" "distinct (removeAll t xs)" "length (removeAll t xs) \<le> length xs"
  using assms by (simp_all add: sorted_insort distinct_insort distinct_removeAll insort_insert_key_def length_removeAll_less_eq removeAll_filter_not_eq sorted_wrt_filter)

lemma setting_ok_cong: "cosignatoryAddresses e' = cosignatoryAddresses e \<Longrightarrow> setting_ok e' v = setting_ok e v"
  by (simp add: setting_ok_def)

lemma o_clean_Some: "o_clean x = Some e \<longleftrightarrow> x = Some e \<and> \<not> is_unlinked (Some e)"
  by (auto simp: o_clean_def)

lemma commit_other_ok:
  assumes "multisig_ok config m" "modification_ok t A D m" "x \<noteq> t" "v_commit t A D m x = Some e" "1 \<le> unat (MaxCosignedAccountsPerAccount config)"
    and "\<forall>c\<in>set A. \<forall>e. m c = Some e \<longrightarrow> length (multisigAddresses e) < unat (MaxCosignedAccountsPerAccount config)"
  shows "entry_ok x e" "length (cosignatoryAddresses e) \<le> unat (MaxCosignatoriesPerAccount config)"
    "length (multisigAddresses e) \<le> unat (MaxCosignedAccountsPerAccount config)"
proof -
  note at = commit_at(2) [OF assms(2,3)]
  have all: "entry_ok x e \<and> length (cosignatoryAddresses e) \<le> unat (MaxCosignatoriesPerAccount config)
      \<and> length (multisigAddresses e) \<le> unat (MaxCosignedAccountsPerAccount config)"
  proof (cases "m x")
    case None
    then have "x \<in> set A" "e = (new_MultisigEntry x)\<lparr>multisigAddresses := [t]\<rparr>"
      using assms(4) unfolding at by (auto simp: o_get_def o_clean_def new_MultisigEntry_def insort_insert_key_def split: if_splits)
    then show ?thesis using assms(5) by (simp add: entry_ok_def new_MultisigEntry_def is_unlinked_def setting_ok_def)
  next
    case (Some e0)
    note ok = multisig_okD(3,5,6) [OF assms(1) Some]
    have s: "sorted (multisigAddresses e0)" "distinct (multisigAddresses e0)" using ok(1) by (simp_all add: entry_ok_def)
    consider (A) "x \<in> set A" "e = e0\<lparr>multisigAddresses := insort_insert t (multisigAddresses e0)\<rparr>"
      | (D) "e = e0\<lparr>multisigAddresses := removeAll t (multisigAddresses e0)\<rparr>" "\<not> is_unlinked (Some e)" | (other) "e = e0"
      using assms(4) Some unfolding at by (auto simp: o_get_def o_clean_Some split: if_splits)
    then show ?thesis
    proof cases
      case A
      have "length (multisigAddresses e0) < unat (MaxCosignedAccountsPerAccount config)" using assms(6) A(1) Some by blast
      moreover have "insort_insert t (multisigAddresses e0) \<noteq> []" using set_insort_insert' [of t "multisigAddresses e0"] by force
      ultimately show ?thesis using ok(1,2) insort_insert_facts(1-3) [OF s, of t] unfolding A(2)
        by (simp add: entry_ok_def is_unlinked_def setting_ok_def)
    next
      case D
      have "entry_ok x e" using D(2) ok(1) insort_insert_facts(4,5) [OF s, of t] unfolding D(1) by (simp add: entry_ok_def setting_ok_def)
      then show ?thesis using ok(2) order_trans [OF insort_insert_facts(6) [OF s, of t] ok(3)] unfolding D(1) by simp
    next
      case other
      then show ?thesis using ok by simp
    qed
  qed
  then show "entry_ok x e" "length (cosignatoryAddresses e) \<le> unat (MaxCosignatoriesPerAccount config)"
    "length (multisigAddresses e) \<le> unat (MaxCosignedAccountsPerAccount config)" by blast+
qed

lemma commit_self:
  assumes "multisig_ok config m" "modification_ok t A D m" "v_commit t A D m t = Some e"
  shows "me_address e = t" "sorted (cosignatoryAddresses e)" "distinct (cosignatoryAddresses e)" "sorted (multisigAddresses e)" "distinct (multisigAddresses e)"
    "\<not> is_unlinked (Some e)" "length (multisigAddresses e) \<le> unat (MaxCosignedAccountsPerAccount config)"
    "length (cosignatoryAddresses e) + length D = length (cosignatoryAddresses (o_get t (m t))) + length A"
proof -
  let ?e = "o_get t (m t)"
  have e: "e = ?e\<lparr>cosignatoryAddresses := fold removeAll D (fold insort_insert A (cosignatoryAddresses ?e))\<rparr>" "\<not> is_unlinked (Some e)"
    using assms(3) unfolding commit_at(1) [OF assms(2)] by (auto simp: o_clean_Some)
  have ok: "me_address ?e = t" "sorted (cosignatoryAddresses ?e)" "distinct (cosignatoryAddresses ?e)" "sorted (multisigAddresses ?e)" "distinct (multisigAddresses ?e)"
      "length (multisigAddresses ?e) \<le> unat (MaxCosignedAccountsPerAccount config)"
    using multisig_okD(3,6) [OF assms(1), of t] by (cases "m t"; simp add: o_get_def new_MultisigEntry_def entry_ok_def)+
  have sets: "distinct A" "set A \<inter> set (cosignatoryAddresses ?e) = {}" "set D \<subseteq> set (cosignatoryAddresses ?e)" "distinct D"
    using assms(2) by (cases "m t"; auto simp: modification_ok_def linked_to_def o_get_def new_MultisigEntry_def le_Suc_eq length_Suc_conv)+
  let ?c = "fold removeAll D (fold insort_insert A (cosignatoryAddresses ?e))"
  have c: "sorted ?c" "distinct ?c" "set ?c = (set A \<union> set (cosignatoryAddresses ?e)) - set D"
    using fold_insort_insert(1) [of A "cosignatoryAddresses ?e"] fold_insort_insert(2) [OF ok(2), of A] fold_insort_insert(3) [OF ok(3), of A]
    by (auto simp: fold_removeAll sorted_wrt_filter)
  have "length ?c = card ((set A \<union> set (cosignatoryAddresses ?e)) - set D)" using distinct_card [OF c(2)] c(3) by simp
  also have "\<dots> = card (set A \<union> set (cosignatoryAddresses ?e)) - card (set D)" using sets(3) by (intro card_Diff_subset) auto
  also have "\<dots> = length A + length (cosignatoryAddresses ?e) - length D"
    using card_Un_disjoint [of "set A" "set (cosignatoryAddresses ?e)"] sets ok(3) by (simp add: distinct_card)
  finally have len: "length ?c = length A + length (cosignatoryAddresses ?e) - length D" .
  moreover have "length D \<le> length (cosignatoryAddresses ?e)" using card_mono [OF _ sets(3)] sets(4) ok(3) by (simp add: distinct_card)
  ultimately show "length (cosignatoryAddresses e) + length D = length (cosignatoryAddresses ?e) + length A" unfolding e(1) by simp
  show "\<not> is_unlinked (Some e)" by (rule e(2))
  show "me_address e = t" "sorted (cosignatoryAddresses e)" "distinct (cosignatoryAddresses e)" "sorted (multisigAddresses e)" "distinct (multisigAddresses e)"
    "length (multisigAddresses e) \<le> unat (MaxCosignedAccountsPerAccount config)"
    unfolding e(1) using ok c by simp_all
qed

text \<open>The validated settings.\<close>

lemma AddDelta_nat:
  assumes "1 \<le> uint v + sint delta" "uint v + sint delta \<le> int k" "k < 2 ^ 32"
  shows "AddDelta v 1 delta \<noteq> 0" "unat (AddDelta v 1 delta) \<le> k"
proof -
  have "AddDelta v 1 delta = word_of_int (uint v + sint delta)" by (simp add: AddDelta_def)
  then have "uint (AddDelta v 1 delta) = (uint v + sint delta) mod 2 ^ 32" using uint_word_of_int [of "uint v + sint delta", where ?'a = 32] by simp
  then have "uint (AddDelta v 1 delta) = uint v + sint delta" using assms by simp
  then show "AddDelta v 1 delta \<noteq> 0" "unat (AddDelta v 1 delta) \<le> k" using assms by (auto simp: unat_eq_nat_uint)
qed

lemma settings_validated:
  assumes "MultisigInvalidSettingsValidator n m = Multisig_Success" "m (msn_Multisig n) = Some e" "length (cosignatoryAddresses e) < 2 ^ 32"
  shows "setting_ok (change_settings 1 n e) (minApproval (change_settings 1 n e))" "setting_ok (change_settings 1 n e) (minRemoval (change_settings 1 n e))"
proof -
  have v: "1 \<le> uint (minRemoval e) + sint (MinRemovalDelta n)" "uint (minRemoval e) + sint (MinRemovalDelta n) \<le> int (length (cosignatoryAddresses e))"
      "1 \<le> uint (minApproval e) + sint (MinApprovalDelta n)" "uint (minApproval e) + sint (MinApprovalDelta n) \<le> int (length (cosignatoryAddresses e))"
    using assms(1,2) by (auto simp: MultisigInvalidSettingsValidator_def Let_def not_less split: if_splits)
  have "cosignatoryAddresses e \<noteq> []" using v(1,2) by auto
  then show "setting_ok (change_settings 1 n e) (minApproval (change_settings 1 n e))" "setting_ok (change_settings 1 n e) (minRemoval (change_settings 1 n e))"
    using AddDelta_nat [OF v(1,2) assms(3)] AddDelta_nat [OF v(3,4) assms(3)] by (simp_all add: setting_ok_def change_settings_def)
qed

lemma max_cosignatories_validated:
  assumes "MultisigMaxCosignatoriesValidator maxC \<lparr>mcn_Multisig = t, AddressAdditions = A, AddressDeletions = D\<rparr> m = Multisig_Success"
    "length (cosignatoryAddresses (o_get t (m t))) \<le> unat maxC" "length A < 2 ^ 8" "length D \<le> length (cosignatoryAddresses (o_get t (m t))) + length A"
  shows "length (cosignatoryAddresses (o_get t (m t))) + length A - length D \<le> unat maxC"
proof -
  let ?k = "length (cosignatoryAddresses (o_get t (m t)))"
  have num: "(case m t of None \<Rightarrow> 0 | Some e \<Rightarrow> of_nat (length (cosignatoryAddresses e))) = (of_nat ?k :: size_t)"
    by (cases "m t") (simp_all add: o_get_def new_MultisigEntry_def)
  have "(of_nat ?k :: size_t) + word_of_int (int (length A) - int (length D)) = of_nat (?k + length A - length D)"
    using assms(4) by (simp add: of_nat_diff)
  then have le: "(of_nat (?k + length A - length D) :: size_t) \<le> ucast maxC"
    using assms(1) num by (simp add: MultisigMaxCosignatoriesValidator_def Let_def not_less split: if_splits)
  have m: "unat maxC < 2 ^ 32" using unsigned_less [of maxC, where ?'a = nat] by simp
  then have "?k + length A - length D < 2 ^ 64" using assms(2,3) by simp
  then have "unat (of_nat (?k + length A - length D) :: size_t) = ?k + length A - length D" by (simp add: unsigned_of_nat take_bit_nat_eq_self)
  moreover have "unat (ucast maxC :: size_t) = unat maxC" using m by (simp add: unsigned_ucast_eq take_bit_nat_eq_self)
  ultimately show ?thesis using le by (simp add: word_le_nat_alt)
qed

definition v_settings :: "MultisigSettingsNotification \<Rightarrow> multisig_view \<Rightarrow> multisig_view" where
  "v_settings n m = (if m (msn_Multisig n) = None then m else v_modify (change_settings 1 n) (msn_Multisig n) (v_get (msn_Multisig n) m))"

lemma v_settings_at:
  "v_settings n m x = (if x = msn_Multisig n then map_option (change_settings 1 n) (m x) else m x)"
  by (auto simp: v_settings_def v_modify_def v_get_def split: option.splits)

lemma links_settings: "cos_link (v_settings n m) = cos_link m" "mul_link (v_settings n m) = mul_link m"
proof -
  have "cosignatoryAddresses (change_settings 1 n e) = cosignatoryAddresses e" "multisigAddresses (change_settings 1 n e) = multisigAddresses e" for e
    by (simp_all add: change_settings_def)
  then show "cos_link (v_settings n m) = cos_link m" "mul_link (v_settings n m) = mul_link m"
    by (auto simp: linked_to_def v_settings_at fun_eq_iff)
qed

lemma modification_keeps_ok:
  assumes "multisig_ok config m" "modification_ok t A D m" "1 \<le> unat (MaxCosignedAccountsPerAccount config)"
    and "\<forall>c\<in>set A. \<forall>e. m c = Some e \<longrightarrow> length (multisigAddresses e) < unat (MaxCosignedAccountsPerAccount config)"
    and "\<And>c. c \<in> set A \<Longrightarrow> LoopAndLevelChecker_validate (MaxMultisigDepth config) fuel m t c = Some Multisig_Success"
    and "length (cosignatoryAddresses (o_get t (m t))) + length A - length D \<le> unat (MaxCosignatoriesPerAccount config)"
    and "msn_Multisig n = t" "MultisigInvalidSettingsValidator n (v_commit t A D m) = Multisig_Success"
  shows "multisig_ok config (v_settings n (v_commit t A D m))"
proof -
  let ?m1 = "v_commit t A D m"
  have D: "t \<notin> set D" using assms(2) by (simp add: modification_ok_def)
  note lv = commit_keeps_levels [OF multisig_okD(2) [OF assms(1)] multisig_okD(4) [OF assms(1)] D assms(5)]
  have entry: "entry_ok x e \<and> length (cosignatoryAddresses e) \<le> unat (MaxCosignatoriesPerAccount config)
      \<and> length (multisigAddresses e) \<le> unat (MaxCosignedAccountsPerAccount config)" if e: "v_settings n ?m1 x = Some e" for x e
  proof (cases "x = t")
    case False
    then have "?m1 x = Some e" using e by (simp add: v_settings_at assms(7))
    then show ?thesis using commit_other_ok [OF assms(1,2) False _ assms(3,4)] by blast
  next
    case True
    then obtain e1 where e1: "?m1 t = Some e1" "e = change_settings 1 n e1" using e by (auto simp: v_settings_at assms(7))
    note self = commit_self [OF assms(1,2) e1(1)]
    have len: "length (cosignatoryAddresses e1) \<le> unat (MaxCosignatoriesPerAccount config)" using self(8) assms(6) by simp
    moreover have "unat (MaxCosignatoriesPerAccount config) < 2 ^ 32" using unsigned_less [of "MaxCosignatoriesPerAccount config", where ?'a = nat] by simp
    ultimately have "length (cosignatoryAddresses e1) < 2 ^ 32" by simp
    then have "setting_ok e (minApproval e)" "setting_ok e (minRemoval e)"
      using settings_validated [OF assms(8), of e1] e1 assms(7) by simp_all
    moreover have "cosignatoryAddresses e = cosignatoryAddresses e1" "multisigAddresses e = multisigAddresses e1" "me_address e = me_address e1"
      by (simp_all add: e1(2) change_settings_def)
    ultimately show ?thesis using self len True by (simp add: entry_ok_def is_unlinked_def)
  qed
  have "links_agree (v_settings n ?m1)" using lv(1) by (simp add: links_agree_def links_settings)
  then show ?thesis using entry lv(2) by (simp add: multisig_ok_def multisig_inv_def within_limits_def links_settings)
qed

subsection \<open>The stages of a modification\<close>

abbreviation multisig_process :: "MultisigConfiguration \<Rightarrow> (UnresolvedAddress \<Rightarrow> Address) \<Rightarrow> multisig_data Notification list
    \<Rightarrow> (multisig_data, MultisigCacheDelta) ProcessingNotificationSubscriber \<Rightarrow> exn + (multisig_data, MultisigCacheDelta) ProcessingNotificationSubscriber" where
  "multisig_process config resolve \<equiv> pns_publish Commit (multisig_validator config resolve) (multisig_observer resolve)"

lemma multisig_sizes:
  "sizeof_Notification \<le> n_Size (new_cosignatory_notification t a)" "sizeof_Notification \<le> n_Size (cosignatories_notification t A D)"
  "sizeof_Notification \<le> n_Size (settings_notification t r p)"
  by (simp_all add: sizeof_Notification_def new_cosignatory_notification_def cosignatories_notification_def settings_notification_def)

lemma multisig_n_types:
  "n_Type (new_cosignatory_notification t a) = Multisig_New_Cosignatory_Notification"
  "n_Type (cosignatories_notification t A D) = Multisig_Cosignatories_Notification" "n_Type (settings_notification t r p) = Multisig_Settings_Notification"
  by (simp_all add: new_cosignatory_notification_def cosignatories_notification_def settings_notification_def)

lemma settings_stage:
  fixes t r p
  defines "n \<equiv> \<lparr>msn_Multisig = t, MinRemovalDelta = r, MinApprovalDelta = p\<rparr>"
  assumes "bsd_inv MutableTypeTag (pns_Cache sub)" "IsValidationResultSuccess (m_aggregateResult sub)" "m_isUndoEnabled sub"
  shows "\<exists>sub'. multisig_process config resolve [settings_notification t r p] sub = Inr sub'
    \<and> (IsValidationResultSuccess (m_aggregateResult sub') \<longrightarrow> MultisigInvalidSettingsValidator n (bsd_view (pns_Cache sub)) = Multisig_Success
      \<and> (\<exists>d. bsd_inv MutableTypeTag d \<and> bsd_view d = v_settings n (bsd_view (pns_Cache sub))
          \<and> sub' = sub\<lparr>pns_Cache := d, m_notificationBuffers := m_notificationBuffers sub @ [settings_notification t r p]\<rparr>))"
proof (cases "IsValidationResultSuccess (multisig_validator config resolve (settings_notification t r p) (pns_Cache sub))")
  case False
  obtain sub' where "pns_notify Commit (multisig_validator config resolve) (multisig_observer resolve) (settings_notification t r p) sub = Inr sub'"
      "\<not> IsValidationResultSuccess (m_aggregateResult sub')"
    using notify_rejected [where validate = "multisig_validator config resolve" and n = "settings_notification t r p", OF multisig_sizes(3) assms(3) _ False]
    by (auto simp: multisig_n_types multisig_channels)
  then show ?thesis by (simp add: pns_publish_def)
next
  case True
  then have v: "MultisigInvalidSettingsValidator n (bsd_view (pns_Cache sub)) = Multisig_Success"
    unfolding validator_settings [OF assms(2)] n_def .
  obtain d where d: "MultisigSettingsObserver Commit n (pns_Cache sub) = Inr d" "bsd_inv MutableTypeTag d" "bsd_view d = v_settings n (bsd_view (pns_Cache sub))"
    using settings_does [OF assms(2), of Commit n] by (auto simp: does_def v_settings_def)
  have "pns_notify Commit (multisig_validator config resolve) (multisig_observer resolve) (settings_notification t r p) sub
      = Inr (sub\<lparr>pns_Cache := d, m_notificationBuffers := m_notificationBuffers sub @ [settings_notification t r p]\<rparr>)"
    by (rule notify_observed) (use multisig_sizes assms(3,4) True d(1) in \<open>auto simp: multisig_n_types multisig_channels observer_of n_def\<close>)
  then show ?thesis using v d by (auto simp: pns_publish_def)
qed

lemma cosignatories_stage:
  fixes t A D
  defines "n \<equiv> \<lparr>mcn_Multisig = t, AddressAdditions = A, AddressDeletions = D\<rparr>"
  assumes "bsd_inv MutableTypeTag (pns_Cache sub)" "IsValidationResultSuccess (m_aggregateResult sub)" "m_isUndoEnabled sub"
    "multisig_ok config (bsd_view (pns_Cache sub))" "MultisigCosignatoriesValidator n = Multisig_Success" "inj_on resolve (set A)"
  shows "\<exists>sub'. multisig_process config resolve (map (new_cosignatory_notification t) A @ [cosignatories_notification t A D]) sub = Inr sub'
    \<and> (IsValidationResultSuccess (m_aggregateResult sub') \<longrightarrow>
        MultisigMaxCosignatoriesValidator (MaxCosignatoriesPerAccount config) n (bsd_view (pns_Cache sub)) = Multisig_Success
      \<and> (\<forall>a\<in>set A. MultisigMaxCosignedAccountsValidator (MaxCosignedAccountsPerAccount config) resolve \<lparr>mnc_Multisig = t, mnc_Cosignatory = a\<rparr> (bsd_view (pns_Cache sub)) = Multisig_Success
          \<and> LoopAndLevelChecker_validate (MaxMultisigDepth config) (Suc (unat (MaxMultisigDepth config))) (bsd_view (pns_Cache sub)) t (resolve a) = Some Multisig_Success)
      \<and> modification_ok t (map resolve A) (map resolve D) (bsd_view (pns_Cache sub))
      \<and> (\<exists>d. bsd_inv MutableTypeTag d \<and> bsd_view d = v_commit t (map resolve A) (map resolve D) (bsd_view (pns_Cache sub))
          \<and> sub' = sub\<lparr>pns_Cache := d, m_notificationBuffers := m_notificationBuffers sub @ [cosignatories_notification t A D]\<rparr>))"
proof -
  let ?V = "multisig_validator config resolve" and ?O = "multisig_observer resolve" and ?m = "bsd_view (pns_Cache sub)"
    and ?ns = "map (new_cosignatory_notification t) A" and ?c = "cosignatories_notification t A D"
  have ns: "\<forall>n\<in>set ?ns. sizeof_Notification \<le> n_Size n \<and> IsSet (n_Type n) Channel_Validator \<and> \<not> is_observed n"
    by (auto simp: multisig_sizes multisig_n_types multisig_channels)
  note new = publish_only_validated [OF ns assms(3), of ?V Commit ?O]
  have append: "multisig_process config resolve (?ns @ [?c]) sub = rbind (multisig_process config resolve ?ns sub) (multisig_process config resolve [?c])"
    by (simp add: pns_publish_def rfold_append)
  show ?thesis
  proof (cases "\<forall>n\<in>set ?ns. IsValidationResultSuccess (?V n (pns_Cache sub))")
    case False
    from new [unfolded if_not_P [OF False]] obtain sub1 where
        sub1: "multisig_process config resolve ?ns sub = Inr sub1" "\<not> IsValidationResultSuccess (m_aggregateResult sub1)" by blast
    have "multisig_process config resolve [?c] sub1 = Inr sub1" by (rule publish_rejected) (use sub1(2) multisig_sizes in auto)
    then show ?thesis using sub1 by (auto simp: append)
  next
    case all: True
    have p1: "multisig_process config resolve ?ns sub = Inr sub" by (rule new [unfolded if_P [OF all]])
    have valid: "\<forall>a\<in>set A. MultisigMaxCosignedAccountsValidator (MaxCosignedAccountsPerAccount config) resolve \<lparr>mnc_Multisig = t, mnc_Cosignatory = a\<rparr> ?m = Multisig_Success
          \<and> LoopAndLevelChecker_validate (MaxMultisigDepth config) (Suc (unat (MaxMultisigDepth config))) ?m t (resolve a) = Some Multisig_Success"
      using all by (auto simp: validator_new [OF assms(2)])
    show ?thesis
    proof (cases "IsValidationResultSuccess (?V ?c (pns_Cache sub))")
      case False
      obtain sub' where "pns_notify Commit ?V ?O ?c sub = Inr sub'" "\<not> IsValidationResultSuccess (m_aggregateResult sub')"
        using notify_rejected [where validate = ?V and n = ?c, OF multisig_sizes(2) assms(3) _ False] by (auto simp: multisig_n_types multisig_channels)
      then show ?thesis by (simp add: append p1) (simp add: pns_publish_def)
    next
      case True
      then have v: "MultisigMaxCosignatoriesValidator (MaxCosignatoriesPerAccount config) n ?m = Multisig_Success"
          "MultisigInvalidCosignatoriesValidator resolve n ?m = Multisig_Success"
        unfolding validator_cosignatories [OF assms(2)] n_def by simp_all
      have mod: "modification_ok t (map resolve A) (map resolve D) ?m"
        by (rule modification_validated [OF assms(5) assms(6) [unfolded n_def] v(2) [unfolded n_def] _ assms(7)]) (use valid in blast)
      have pre: "distinct (map resolve D)" "t \<notin> set (map resolve D)" "\<forall>c\<in>set (map resolve D). ?m c \<noteq> None"
      proof -
        have l: "length D \<le> 1" "t \<notin> set (map resolve D)" "\<forall>c\<in>set (map resolve D). cos_link ?m t c" using mod by (auto simp: modification_ok_def)
        show "distinct (map resolve D)" using l(1) by (cases D) auto
        show "t \<notin> set (map resolve D)" by (rule l(2))
        have "mul_link ?m c t" if "cos_link ?m t c" for c using that multisig_okD(2) [OF assms(5)] by (simp add: links_agree_def)
        then show "\<forall>c\<in>set (map resolve D). ?m c \<noteq> None" using l(3) by (fastforce simp: linked_to_def)
      qed
      obtain d where d: "MultisigCosignatoriesObserver Commit resolve n (pns_Cache sub) = Inr d" "bsd_inv MutableTypeTag d"
          "bsd_view d = v_commit t (map resolve A) (map resolve D) ?m"
        using observer_commit_does [of "pns_Cache sub" resolve n] pre assms(2) by (auto simp: does_def n_def)
      have "pns_notify Commit ?V ?O ?c sub = Inr (sub\<lparr>pns_Cache := d, m_notificationBuffers := m_notificationBuffers sub @ [?c]\<rparr>)"
        by (rule notify_observed) (use multisig_sizes assms(3,4) True d(1) in \<open>auto simp: multisig_n_types multisig_channels observer_of n_def\<close>)
      then have "multisig_process config resolve [?c] sub = Inr (sub\<lparr>pns_Cache := d, m_notificationBuffers := m_notificationBuffers sub @ [?c]\<rparr>)"
        by (simp add: pns_publish_def)
      then show ?thesis using valid v(1) mod d(2,3) by (simp add: append p1) blast
    qed
  qed
qed

lemma settings_rollback:
  fixes t r p
  defines "n \<equiv> \<lparr>msn_Multisig = t, MinRemovalDelta = r, MinApprovalDelta = p\<rparr>"
  assumes "bsd_inv MutableTypeTag d" "bsd_view d = v_settings n m" "MultisigInvalidSettingsValidator n m = Multisig_Success"
  shows "\<exists>d'. multisig_observer resolve Rollback (settings_notification t r p) d = Inr d' \<and> bsd_inv MutableTypeTag d' \<and> bsd_view d' = restored_settings t m"
proof -
  have "sint (MinRemovalDelta n) = - 1 \<and> sint (MinApprovalDelta n) = - 1" if "m (msn_Multisig n) = None"
    using assms(4) that by (auto simp: MultisigInvalidSettingsValidator_def split: if_splits)
  moreover have t: "msn_Multisig n = t" by (simp add: n_def)
  ultimately have "v_modify (change_settings (- 1) n) t (v_get t (bsd_view d)) = restored_settings t m"
    using settings_undone [of m n] unfolding assms(3) v_settings_def t by metis
  then show ?thesis using settings_does [OF assms(2), of Rollback n] unfolding t observer_of n_def [symmetric] by (simp add: does_def)
qed

lemma cosignatories_rollback:
  assumes "bsd_inv MutableTypeTag d" "multisig_inv m" "modification_ok t (map resolve A) (map resolve D) m"
    "bsd_view d = restored_settings t (v_commit t (map resolve A) (map resolve D) m)"
  shows "\<exists>d'. multisig_observer resolve Rollback (cosignatories_notification t A D) d = Inr d' \<and> bsd_inv MutableTypeTag d' \<and> bsd_view d' = m"
proof -
  let ?n = "\<lparr>mcn_Multisig = t, AddressAdditions = A, AddressDeletions = D\<rparr>" and ?m1 = "v_commit t (map resolve A) (map resolve D) m"
  have A: "distinct (map resolve A)" "t \<notin> set (map resolve A)" using assms(3) by (auto simp: modification_ok_def)
  have "\<forall>c\<in>set (map resolve A). bsd_view d c \<noteq> None"
  proof
    fix c
    assume c: "c \<in> set (map resolve A)"
    then have "c \<noteq> t" using A(2) by blast
    then show "bsd_view d c \<noteq> None" using commit_at(2) [OF assms(3)] c by (simp add: assms(4) restored_settings_def)
  qed
  then obtain d' where "MultisigCosignatoriesObserver Rollback resolve ?n d = Inr d'" "bsd_inv MutableTypeTag d'"
      "bsd_view d' = v_rollback t (map resolve A) (map resolve D) (restored_settings t ?m1)"
    using observer_rollback_does [of d resolve ?n] A assms(1) by (auto simp: does_def assms(4))
  moreover have "v_rollback t (map resolve A) (map resolve D) (restored_settings t ?m1) = m"
  proof
    show "v_rollback t (map resolve A) (map resolve D) (restored_settings t ?m1) x = m x" for x
      using rollback_other [OF assms(2,3), of x] rollback_self [OF assms(2,3)] by (cases "x = t") simp_all
  qed
  ultimately show ?thesis by (simp add: observer_of)
qed

lemma empty_modification:
  assumes "multisig_ok config m" "m t \<noteq> None"
  shows "v_commit t [] [] m = m" "modification_ok t [] [] m"
proof -
  have "\<not> is_unlinked (m t)" using assms multisig_okD(3) [OF assms(1)] by (auto simp: entry_ok_def)
  then show "v_commit t [] [] m = m" using assms(2) by (auto simp: v_commit_def v_get_def v_clean_def fun_upd_idem)
  show "modification_ok t [] [] m" by (simp add: modification_ok_def)
qed

lemma accepted_keeps_ok:
  assumes "multisig_ok config m" "modification_ok t (map resolve A) (map resolve D) m" "1 \<le> unat (MaxCosignedAccountsPerAccount config)"
    and valid: "\<forall>a\<in>set A. MultisigMaxCosignedAccountsValidator (MaxCosignedAccountsPerAccount config) resolve \<lparr>mnc_Multisig = t, mnc_Cosignatory = a\<rparr> m = Multisig_Success
          \<and> LoopAndLevelChecker_validate (MaxMultisigDepth config) fuel m t (resolve a) = Some Multisig_Success"
    and "MultisigMaxCosignatoriesValidator (MaxCosignatoriesPerAccount config) \<lparr>mcn_Multisig = t, AddressAdditions = A, AddressDeletions = D\<rparr> m = Multisig_Success"
    and "length A < 2 ^ 8" "msn_Multisig n = t" "MultisigInvalidSettingsValidator n (v_commit t (map resolve A) (map resolve D) m) = Multisig_Success"
  shows "multisig_ok config (v_settings n (v_commit t (map resolve A) (map resolve D) m))"
proof (rule modification_keeps_ok [OF assms(1-3) _ _ _ assms(7,8)])
  show "\<forall>c\<in>set (map resolve A). \<forall>e. m c = Some e \<longrightarrow> length (multisigAddresses e) < unat (MaxCosignedAccountsPerAccount config)"
    using valid by (auto simp: MultisigMaxCosignedAccountsValidator_def not_le split: if_splits option.splits)
  show "LoopAndLevelChecker_validate (MaxMultisigDepth config) fuel m t c = Some Multisig_Success" if "c \<in> set (map resolve A)" for c using valid that by auto
  let ?k = "length (cosignatoryAddresses (o_get t (m t)))"
  have k: "?k \<le> unat (MaxCosignatoriesPerAccount config)"
    using multisig_okD(5) [OF assms(1)] by (cases "m t") (simp_all add: o_get_def new_MultisigEntry_def)
  have d: "length D \<le> 1" "\<forall>c\<in>set D. cos_link m t (resolve c)" using assms(2) by (auto simp: modification_ok_def)
  have "length D \<le> ?k"
  proof (cases D)
    case (Cons c cs)
    then have "cos_link m t (resolve c)" using d(2) by simp
    then have "cosignatoryAddresses (o_get t (m t)) \<noteq> []" by (auto simp: linked_to_def o_get_def)
    then show ?thesis using d(1) by (cases "cosignatoryAddresses (o_get t (m t))") auto
  qed simp
  then have "length D \<le> ?k + length A" by simp
  from max_cosignatories_validated [OF assms(5) k assms(6) this]
  show "?k + length (map resolve A) - length (map resolve D) \<le> unat (MaxCosignatoriesPerAccount config)" by simp
qed

lemma new_multisig_subscriber:
  fixes d :: MultisigCacheDelta
  shows "pns_Cache (pns_enableUndo (new_ProcessingNotificationSubscriber d)) = d" "m_isUndoEnabled (pns_enableUndo (new_ProcessingNotificationSubscriber d))"
    "IsValidationResultSuccess (m_aggregateResult (pns_enableUndo (new_ProcessingNotificationSubscriber d)))"
    "m_notificationBuffers (pns_enableUndo (new_ProcessingNotificationSubscriber d)) = []"
  by (simp_all add: pns_enableUndo_def new_ProcessingNotificationSubscriber_def failure_not_success)

text \<open>What a modification promises at the end of its processing.\<close>

definition sound_result :: "MultisigConfiguration \<Rightarrow> (UnresolvedAddress \<Rightarrow> Address) \<Rightarrow> multisig_view
    \<Rightarrow> (multisig_data, MultisigCacheDelta) ProcessingNotificationSubscriber \<Rightarrow> bool" where
  "sound_result config resolve m sub \<longleftrightarrow> bsd_inv MutableTypeTag (pns_Cache sub) \<and> multisig_ok config (bsd_view (pns_Cache sub))
     \<and> (\<exists>sub'. pns_undo Commit (multisig_observer resolve) sub = Inr sub' \<and> bsd_inv MutableTypeTag (pns_Cache sub') \<and> bsd_view (pns_Cache sub') = m)"

lemma settings_only_sound:
  assumes "bsd_inv MutableTypeTag d" "multisig_ok config (bsd_view d)" "1 \<le> unat (MaxCosignedAccountsPerAccount config)" "bsd_view d t \<noteq> None"
  shows "\<exists>sub. multisig_process config resolve [settings_notification t r p] (pns_enableUndo (new_ProcessingNotificationSubscriber d)) = Inr sub
    \<and> (IsValidationResultSuccess (m_aggregateResult sub) \<longrightarrow> sound_result config resolve (bsd_view d) sub)"
proof -
  let ?m = "bsd_view d" and ?s = "settings_notification t r p" and ?n = "\<lparr>msn_Multisig = t, MinRemovalDelta = r, MinApprovalDelta = p\<rparr>"
    and ?sub = "pns_enableUndo (new_ProcessingNotificationSubscriber d)"
  note empty = empty_modification [OF assms(2,4)]
  have len: "length (cosignatoryAddresses (o_get t (?m t))) \<le> unat (MaxCosignatoriesPerAccount config)"
    using multisig_okD(5) [OF assms(2)] by (cases "?m t") (simp_all add: o_get_def new_MultisigEntry_def)
  obtain sub where sub: "multisig_process config resolve [?s] ?sub = Inr sub"
      "IsValidationResultSuccess (m_aggregateResult sub) \<longrightarrow> MultisigInvalidSettingsValidator ?n ?m = Multisig_Success
       \<and> (\<exists>d1. bsd_inv MutableTypeTag d1 \<and> bsd_view d1 = v_settings ?n ?m \<and> sub = ?sub\<lparr>pns_Cache := d1, m_notificationBuffers := [?s]\<rparr>)"
    using settings_stage [of ?sub config resolve t r p] assms(1) by (auto simp: new_multisig_subscriber)
  have "sound_result config resolve ?m sub" if success: "IsValidationResultSuccess (m_aggregateResult sub)"
  proof -
    obtain d1 where d1: "MultisigInvalidSettingsValidator ?n ?m = Multisig_Success" "bsd_inv MutableTypeTag d1" "bsd_view d1 = v_settings ?n ?m"
        "sub = ?sub\<lparr>pns_Cache := d1, m_notificationBuffers := [?s]\<rparr>"
      using sub(2) success by blast
    have "multisig_ok config (v_settings ?n (v_commit t [] [] ?m))"
      by (rule modification_keeps_ok [OF assms(2) empty(2) assms(3), where fuel = 0]) (use len d1(1) in \<open>simp_all add: empty(1)\<close>)
    moreover obtain d2 where "multisig_observer resolve Rollback ?s d1 = Inr d2" "bsd_inv MutableTypeTag d2" "bsd_view d2 = restored_settings t ?m"
      using settings_rollback [OF d1(2,3,1)] by blast
    ultimately show ?thesis
      using d1(2,3) assms(4) unfolding d1(4) sound_result_def by (simp add: empty(1) pns_undo_def undo_mode_def restored_settings_def new_multisig_subscriber)
  qed
  then show ?thesis using sub(1) by blast
qed

lemma cosignatories_sound:
  assumes "bsd_inv MutableTypeTag d" "multisig_ok config (bsd_view d)" "1 \<le> unat (MaxCosignedAccountsPerAccount config)"
    and "MultisigCosignatoriesValidator \<lparr>mcn_Multisig = t, AddressAdditions = A, AddressDeletions = D\<rparr> = Multisig_Success"
    and "inj_on resolve (set A)" "length A < 2 ^ 8"
  shows "\<exists>sub. multisig_process config resolve (map (new_cosignatory_notification t) A @ [cosignatories_notification t A D, settings_notification t r p])
      (pns_enableUndo (new_ProcessingNotificationSubscriber d)) = Inr sub
    \<and> (IsValidationResultSuccess (m_aggregateResult sub) \<longrightarrow> sound_result config resolve (bsd_view d) sub)"
proof -
  let ?m = "bsd_view d" and ?s = "settings_notification t r p" and ?n = "\<lparr>msn_Multisig = t, MinRemovalDelta = r, MinApprovalDelta = p\<rparr>"
    and ?c = "cosignatories_notification t A D" and ?k = "\<lparr>mcn_Multisig = t, AddressAdditions = A, AddressDeletions = D\<rparr>"
    and ?ns = "map (new_cosignatory_notification t) A @ [cosignatories_notification t A D]" and ?A = "map resolve A" and ?D = "map resolve D"
  let ?sub = "pns_enableUndo (new_ProcessingNotificationSubscriber d) :: (multisig_data, MultisigCacheDelta) ProcessingNotificationSubscriber"
  note new = new_multisig_subscriber [of d]
  have append: "multisig_process config resolve (map (new_cosignatory_notification t) A @ [?c, ?s]) ?sub
      = rbind (multisig_process config resolve ?ns ?sub) (multisig_process config resolve [?s])"
    using rfold_append [of _ ?ns "[?s]"] by (simp add: pns_publish_def)
  obtain sub1 where sub1: "multisig_process config resolve ?ns ?sub = Inr sub1"
      "IsValidationResultSuccess (m_aggregateResult sub1) \<longrightarrow>
        MultisigMaxCosignatoriesValidator (MaxCosignatoriesPerAccount config) ?k ?m = Multisig_Success
      \<and> (\<forall>a\<in>set A. MultisigMaxCosignedAccountsValidator (MaxCosignedAccountsPerAccount config) resolve \<lparr>mnc_Multisig = t, mnc_Cosignatory = a\<rparr> ?m = Multisig_Success
          \<and> LoopAndLevelChecker_validate (MaxMultisigDepth config) (Suc (unat (MaxMultisigDepth config))) ?m t (resolve a) = Some Multisig_Success)
      \<and> modification_ok t ?A ?D ?m
      \<and> (\<exists>d1. bsd_inv MutableTypeTag d1 \<and> bsd_view d1 = v_commit t ?A ?D ?m \<and> sub1 = ?sub\<lparr>pns_Cache := d1, m_notificationBuffers := [?c]\<rparr>)"
    using cosignatories_stage [where sub = ?sub and config = config and t = t and A = A and D = D and resolve = resolve, unfolded new append_Nil,
        OF assms(1) new(3) new(2) assms(2,4,5)] by blast
  show ?thesis
  proof (cases "IsValidationResultSuccess (m_aggregateResult sub1)")
    case False
    have "multisig_process config resolve [?s] sub1 = Inr sub1" by (rule publish_rejected) (use False multisig_sizes in auto)
    then show ?thesis using False sub1(1) by (simp add: append)
  next
    case True
    then obtain d1 where v: "MultisigMaxCosignatoriesValidator (MaxCosignatoriesPerAccount config) ?k ?m = Multisig_Success"
        "\<forall>a\<in>set A. MultisigMaxCosignedAccountsValidator (MaxCosignedAccountsPerAccount config) resolve \<lparr>mnc_Multisig = t, mnc_Cosignatory = a\<rparr> ?m = Multisig_Success
          \<and> LoopAndLevelChecker_validate (MaxMultisigDepth config) (Suc (unat (MaxMultisigDepth config))) ?m t (resolve a) = Some Multisig_Success"
        "modification_ok t ?A ?D ?m" "bsd_inv MutableTypeTag d1" "bsd_view d1 = v_commit t ?A ?D ?m"
        "sub1 = ?sub\<lparr>pns_Cache := d1, m_notificationBuffers := [?c]\<rparr>" using sub1(2) by blast
    obtain sub2 where sub2: "multisig_process config resolve [?s] sub1 = Inr sub2"
        "IsValidationResultSuccess (m_aggregateResult sub2) \<longrightarrow> MultisigInvalidSettingsValidator ?n (v_commit t ?A ?D ?m) = Multisig_Success
         \<and> (\<exists>d2. bsd_inv MutableTypeTag d2 \<and> bsd_view d2 = v_settings ?n (v_commit t ?A ?D ?m) \<and> sub2 = sub1\<lparr>pns_Cache := d2, m_notificationBuffers := [?c, ?s]\<rparr>)"
      using settings_stage [of sub1 config resolve t r p] True v(4-6) new by auto
    have "sound_result config resolve ?m sub2" if success: "IsValidationResultSuccess (m_aggregateResult sub2)"
    proof -
      obtain d2 where d2: "MultisigInvalidSettingsValidator ?n (v_commit t ?A ?D ?m) = Multisig_Success" "bsd_inv MutableTypeTag d2"
          "bsd_view d2 = v_settings ?n (v_commit t ?A ?D ?m)" "sub2 = sub1\<lparr>pns_Cache := d2, m_notificationBuffers := [?c, ?s]\<rparr>"
        using sub2(2) success by blast
      have "multisig_ok config (v_settings ?n (v_commit t ?A ?D ?m))"
        by (rule accepted_keeps_ok [OF assms(2) v(3) assms(3) v(2,1) assms(6)]) (use d2(1) in simp_all)
      moreover obtain d3 where d3: "multisig_observer resolve Rollback ?s d2 = Inr d3" "bsd_inv MutableTypeTag d3" "bsd_view d3 = restored_settings t (v_commit t ?A ?D ?m)"
        using settings_rollback [OF d2(2,3,1)] by blast
      moreover obtain d4 where "multisig_observer resolve Rollback ?c d3 = Inr d4" "bsd_inv MutableTypeTag d4" "bsd_view d4 = ?m"
        using cosignatories_rollback [OF d3(2) multisig_okD(1) [OF assms(2)] v(3) d3(3)] by blast
      ultimately show ?thesis
        using d2(2,3) new unfolding d2(4) v(6) sound_result_def by (simp add: pns_undo_def undo_mode_def)
    qed
    then show ?thesis using sub1(1) sub2(1) by (simp add: append)
  qed
qed

subsection \<open>An example\<close>

text \<open>Account 9 is controlled by one of the accounts 5 and 6.\<close>

definition example_links :: "(Address \<times> MultisigEntry) list" where
  "example_links =
    [(5, (new_MultisigEntry 5)\<lparr>multisigAddresses := [9]\<rparr>), (6, (new_MultisigEntry 6)\<lparr>multisigAddresses := [9]\<rparr>),
     (9, (new_MultisigEntry 9)\<lparr>cosignatoryAddresses := [5, 6], minApproval := 1, minRemoval := 1\<rparr>)]"

definition example_multisigs :: MultisigCacheDelta where
  "example_multisigs = bsd_new (fold (\<lambda>(a, e). smap_put a e) example_links smap_empty)"

definition example_limits :: MultisigConfiguration where
  "example_limits = \<lparr>MaxMultisigDepth = 3, MaxCosignatoriesPerAccount = 10, MaxCosignedAccountsPerAccount = 5\<rparr>"

lemma example_multisigs_view: "bsd_view example_multisigs = map_of example_links"
  by (rule ext) (simp add: example_multisigs_def example_links_def bsd_view_def bsd_new_def)

lemma example_multisigs_inv: "bsd_inv MutableTypeTag example_multisigs"
  by (simp add: example_multisigs_def example_links_def bsd_inv_def bsd_new_def bsd_key_inv_def)

lemma example_cos_link: "cos_link (map_of example_links) a c \<longleftrightarrow> a = 9 \<and> c \<in> {5, 6}" "mul_link (map_of example_links) a c \<longleftrightarrow> a \<in> {5, 6} \<and> c = 9"
  by (auto simp: linked_to_def example_links_def new_MultisigEntry_def split: if_splits)

lemma example_multisigs_ok: "multisig_ok example_limits (bsd_view example_multisigs)"
proof -
  have "levels_le (cos_link (map_of example_links)) 1 a" for a by (simp add: levels_le_step levels_le_zero example_cos_link)
  then have "levels_le (cos_link (map_of example_links)) 3 a" for a by (rule levels_le_mono) simp
  moreover have "links_agree (map_of example_links)" by (auto simp: links_agree_def example_cos_link)
  moreover have "entry_ok a e \<and> length (cosignatoryAddresses e) \<le> 10 \<and> length (multisigAddresses e) \<le> 5" if "map_of example_links a = Some e" for a e
    using that by (auto simp: example_links_def new_MultisigEntry_def entry_ok_def is_unlinked_def setting_ok_def split: if_splits)
  ultimately show ?thesis
    by (auto simp: example_multisigs_view multisig_ok_def multisig_inv_def within_limits_def example_limits_def)
qed

subsection \<open>Properties\<close>

text \<open>
  C4. A multisig modification that passes validation keeps the graph of accounts sound and can be undone. Process the notifications of a modification
  transaction on a cache whose links agree in both directions, are sorted, have settings between one and the number of cosignatories exactly for multisig
  accounts, respect the limits of the configuration and have no chain of cosignatories that is longer than the maximal depth (so no loops), where
  distinct added addresses resolve to distinct accounts and the transaction has an addition or deletion or the account has an entry. Processing never throws. If the
  transaction is accepted then the new cache has the same properties, and undoing the transaction never throws and gives back all entries, their settings included.
\<close>

theorem multisig_modification_sound:
  fixes transaction signer
  defines "A \<equiv> mam_AddressAdditions transaction" and "D \<equiv> mam_AddressDeletions transaction"
  assumes "bsd_inv MutableTypeTag d" "multisig_ok config (bsd_view d)"
    and "MultisigCosignatoriesValidator \<lparr>mcn_Multisig = signer, AddressAdditions = A, AddressDeletions = D\<rparr> = Multisig_Success"
    and "inj_on resolve (set A)" "length A < 2 ^ 8" "1 \<le> unat (MaxCosignedAccountsPerAccount config)"
    and "A \<noteq> [] \<or> D \<noteq> [] \<or> bsd_view d signer \<noteq> None"
  shows "\<exists>sub. pns_publish Commit (multisig_validator config resolve) (multisig_observer resolve) (multisig_Publish signer transaction)
        (pns_enableUndo (new_ProcessingNotificationSubscriber d)) = Inr sub
    \<and> (IsValidationResultSuccess (m_aggregateResult sub) \<longrightarrow>
        bsd_inv MutableTypeTag (pns_Cache sub) \<and> multisig_ok config (bsd_view (pns_Cache sub))
      \<and> (\<exists>sub'. pns_undo Commit (multisig_observer resolve) sub = Inr sub' \<and> bsd_inv MutableTypeTag (pns_Cache sub') \<and> bsd_view (pns_Cache sub') = bsd_view d))"
proof -
  let ?s = "settings_notification signer (mam_MinRemovalDelta transaction) (mam_MinApprovalDelta transaction)"
  have "\<exists>sub. multisig_process config resolve (multisig_Publish signer transaction) (pns_enableUndo (new_ProcessingNotificationSubscriber d)) = Inr sub
      \<and> (IsValidationResultSuccess (m_aggregateResult sub) \<longrightarrow> sound_result config resolve (bsd_view d) sub)"
  proof (cases "A \<noteq> [] \<or> D \<noteq> []")
    case False
    then have "bsd_view d signer \<noteq> None" "multisig_Publish signer transaction = [?s]" using assms(9) by (auto simp: multisig_Publish_def A_def D_def)
    then show ?thesis using settings_only_sound [OF assms(3,4,8)] by simp
  next
    case True
    then have "multisig_Publish signer transaction = map (new_cosignatory_notification signer) A @ [cosignatories_notification signer A D, ?s]"
      by (simp add: multisig_Publish_def A_def D_def)
    then show ?thesis using cosignatories_sound [OF assms(3,4,8,5-7)] by simp
  qed
  then show ?thesis unfolding sound_result_def .
qed

text \<open>The account of the example replaces cosignatory 6 by 7 and 8 and then needs two approvals.\<close>

definition example_modification :: MultisigAccountModificationTransaction where
  "example_modification = \<lparr>mam_MinRemovalDelta = 0, mam_MinApprovalDelta = 1, mam_AddressAdditions = [7, 8], mam_AddressDeletions = [6]\<rparr>"

lemma example_modification_accepted:
  "case multisig_process example_limits id (multisig_Publish 9 example_modification)
      (pns_enableUndo (new_ProcessingNotificationSubscriber example_multisigs)) of
     Inl _ \<Rightarrow> False
   | Inr sub \<Rightarrow> IsValidationResultSuccess (m_aggregateResult sub) \<and> map_option cosignatoryAddresses (bsd_view (pns_Cache sub) 9) = Some [5, 7, 8]"
  by code_simp

theorem multisig_modification_sound_witness:
  "\<exists>sub sub'. pns_publish Commit (multisig_validator example_limits id) (multisig_observer id) (multisig_Publish 9 example_modification)
        (pns_enableUndo (new_ProcessingNotificationSubscriber example_multisigs)) = Inr sub
    \<and> IsValidationResultSuccess (m_aggregateResult sub) \<and> multisig_ok example_limits (bsd_view (pns_Cache sub))
    \<and> map_option cosignatoryAddresses (bsd_view (pns_Cache sub) 9) = Some [5, 7, 8]
    \<and> pns_undo Commit (multisig_observer id) sub = Inr sub' \<and> bsd_view (pns_Cache sub') = bsd_view example_multisigs"
proof -
  have "MultisigCosignatoriesValidator \<lparr>mcn_Multisig = 9, AddressAdditions = [7, 8], AddressDeletions = [6]\<rparr> = Multisig_Success" by code_simp
  then show ?thesis
    using multisig_modification_sound [OF example_multisigs_inv example_multisigs_ok, of 9 example_modification id] example_modification_accepted
    by (auto simp: example_modification_def example_limits_def)
qed

subsection \<open>Modifications that the hypotheses exclude\<close>

text \<open>
  Two added addresses that differ but resolve to the same account pass validation. The account is then added once, and undoing the
  transaction removes it twice, which throws.
\<close>

lemma additions_with_same_target_cannot_be_undone:
  "case multisig_process example_limits (\<lambda>a. if a = 8 then 7 else a) (multisig_Publish 9
        \<lparr>mam_MinRemovalDelta = 0, mam_MinApprovalDelta = 0, mam_AddressAdditions = [7, 8], mam_AddressDeletions = []\<rparr>)
      (pns_enableUndo (new_ProcessingNotificationSubscriber example_multisigs)) of
     Inl _ \<Rightarrow> False
   | Inr sub \<Rightarrow> IsValidationResultSuccess (m_aggregateResult sub)
       \<and> (case pns_undo Commit (multisig_observer (\<lambda>a. if a = 8 then 7 else a)) sub of Inl _ \<Rightarrow> True | Inr _ \<Rightarrow> False)"
  by code_simp

text \<open>
  A modification without additions and deletions whose deltas are both \<open>- 1\<close>, by an account that has no entry, passes validation and
  changes nothing. Rolling it back inserts an entry without links for the account, with both settings one.
\<close>

lemma settings_rollback_leaves_entry:
  "case multisig_process example_limits id (multisig_Publish 4
        \<lparr>mam_MinRemovalDelta = - 1, mam_MinApprovalDelta = - 1, mam_AddressAdditions = [], mam_AddressDeletions = []\<rparr>)
      (pns_enableUndo (new_ProcessingNotificationSubscriber example_multisigs)) of
     Inl _ \<Rightarrow> False
   | Inr sub \<Rightarrow> IsValidationResultSuccess (m_aggregateResult sub) \<and> bsd_view (pns_Cache sub) 4 = None
       \<and> (case pns_undo Commit (multisig_observer id) sub of Inl _ \<Rightarrow> False
          | Inr sub' \<Rightarrow> bsd_view (pns_Cache sub') 4 = Some ((new_MultisigEntry 4)\<lparr>minApproval := 1, minRemoval := 1\<rparr>))"
  by code_simp

text \<open>
  A modification that removes the last cosignatory with the wrong deltas is rejected at its settings, after the cosignatories were
  changed. Undoing what was done restores the links of the account but not its settings, which are then zero.
\<close>

definition single_multisig :: MultisigCacheDelta where
  "single_multisig = bsd_new (smap_put 5 ((new_MultisigEntry 5)\<lparr>multisigAddresses := [9]\<rparr>)
     (smap_put 9 ((new_MultisigEntry 9)\<lparr>cosignatoryAddresses := [5], minApproval := 1, minRemoval := 1\<rparr>) smap_empty))"

lemma rejected_removal_loses_settings:
  "case multisig_process example_limits id (multisig_Publish 9
        \<lparr>mam_MinRemovalDelta = 0, mam_MinApprovalDelta = 0, mam_AddressAdditions = [], mam_AddressDeletions = [5]\<rparr>)
      (pns_enableUndo (new_ProcessingNotificationSubscriber single_multisig)) of
     Inl _ \<Rightarrow> False
   | Inr sub \<Rightarrow> IsValidationResultFailure (m_aggregateResult sub)
       \<and> (case pns_undo Commit (multisig_observer id) sub of Inl _ \<Rightarrow> False
          | Inr sub' \<Rightarrow> bsd_view (pns_Cache sub') 9 = Some ((new_MultisigEntry 9)\<lparr>cosignatoryAddresses := [5]\<rparr>))"
  by code_simp

end
