(* ===== verification/Cosignatures.thy ===== *)
theory Cosignatures
  imports MultisigSound
begin

section \<open>Cosignatures of aggregates (plugins/txes/multisig/src/validators)\<close>

text \<open>
  What the two aggregate validators of the multisig plugin decide. The approval of an account by a set of signers is
  given by rules: an account without cosignatories approves if it signed, a multisig account if enough of its
  cosignatories approve. The recursive counting of the code decides exactly this relation and never runs out of fuel on
  a cache that respects the maximal depth.
\<close>

subsection \<open>Approval\<close>

definition is_multisig :: "multisig_view \<Rightarrow> Address \<Rightarrow> bool" where
  "is_multisig m a \<longleftrightarrow> (\<exists>c. cos_link m a c)"

inductive approved :: "multisig_view \<Rightarrow> Address set \<Rightarrow> OperationType \<Rightarrow> Address \<Rightarrow> bool"
  for m :: multisig_view and S :: "Address set" and operation :: OperationType
where
  signed: "\<not> is_multisig m a \<Longrightarrow> a \<in> S \<Longrightarrow> approved m S operation a"
| cosigned: "m a = Some e \<Longrightarrow> C \<subseteq> set (cosignatoryAddresses e) \<Longrightarrow> (\<And>c. c \<in> C \<Longrightarrow> approved m S operation c)
    \<Longrightarrow> is_multisig m a \<Longrightarrow> unat (GetMinRequiredCosignatories e operation) \<le> card C \<Longrightarrow> approved m S operation a"

inductive_cases approved_cases: "approved m S operation a"

lemma is_multisig_iff: "is_multisig m a \<longleftrightarrow> (\<exists>e. m a = Some e \<and> cosignatoryAddresses e \<noteq> [])"
  by (auto simp: is_multisig_def linked_to_def) (metis list.set_sel(1))

lemma approved_single: "\<not> is_multisig m a \<Longrightarrow> approved m S operation a \<longleftrightarrow> a \<in> S"
  by (auto intro: approved.intros elim: approved_cases)

lemma approved_multisig:
  assumes "m a = Some e" "cosignatoryAddresses e \<noteq> []"
  shows "approved m S operation a \<longleftrightarrow>
    unat (GetMinRequiredCosignatories e operation) \<le> card {c \<in> set (cosignatoryAddresses e). approved m S operation c}" (is "?l \<longleftrightarrow> ?r")
proof
  have multisig: "is_multisig m a" using assms by (auto simp: is_multisig_iff)
  show ?r if ?l
  proof -
    from that obtain C where C: "C \<subseteq> {c \<in> set (cosignatoryAddresses e). approved m S operation c}" "unat (GetMinRequiredCosignatories e operation) \<le> card C"
    proof cases
      case (cosigned e' C)
      then show ?thesis using assms(1) by (intro that [of C]) auto
    qed (use multisig in blast)
    have "card C \<le> card {c \<in> set (cosignatoryAddresses e). approved m S operation c}" by (rule card_mono [OF _ C(1)]) simp
    then show ?thesis using C(2) by simp
  qed
  show ?l if ?r
    by (rule approved.cosigned [OF assms(1) _ _ multisig that]) auto
qed

text \<open>The counter of approvers is a 32 bit number that does not overflow.\<close>

lemma numApprovers_counts:
  assumes "\<forall>c\<in>set cs. isSatisfied fuel m S operation c = Some (P c)" "distinct cs"
  shows "numApprovers_loop fuel m S operation cs n = Some (n + of_nat (card {c \<in> set cs. P c}))"
  using assms
proof (induction cs arbitrary: n)
  case (Cons c cs)
  have "{x \<in> set (c # cs). P x} = (if P c then insert c {x \<in> set cs. P x} else {x \<in> set cs. P x})" by auto
  moreover have "c \<notin> {x \<in> set cs. P x}" using Cons.prems(2) by simp
  ultimately show ?case using Cons by simp
qed simp

lemma isSatisfied_approved:
  assumes "multisig_ok config m" "levels_le (cos_link m) k a"
  shows "isSatisfied (Suc k) m S operation a = Some (approved m S operation a)"
  using assms(2)
proof (induction k arbitrary: a)
  case 0
  then have no: "\<not> is_multisig m a" by (simp add: is_multisig_def levels_le_zero)
  then show ?case by (auto simp: approved_single [OF no] is_multisig_iff split: option.splits)
next
  case (Suc k)
  show ?case
  proof (cases "is_multisig m a")
    case False
    then show ?thesis by (auto simp: approved_single [OF False] is_multisig_iff split: option.splits)
  next
    case True
    then obtain e where e: "m a = Some e" "cosignatoryAddresses e \<noteq> []" by (auto simp: is_multisig_iff)
    let ?cs = "cosignatoryAddresses e" and ?A = "{c \<in> set (cosignatoryAddresses e). approved m S operation c}"
    have "\<forall>c\<in>set ?cs. levels_le (cos_link m) k c" using Suc.prems e(1) unfolding levels_le_step by (auto simp: linked_to_def)
    then have all: "\<forall>c\<in>set ?cs. isSatisfied (Suc k) m S operation c = Some (approved m S operation c)" using Suc.IH by blast
    have d: "distinct ?cs" "length ?cs \<le> unat (MaxCosignatoriesPerAccount config)"
      using multisig_okD(3,5) [OF assms(1) e(1)] by (simp_all add: entry_ok_def)
    have "card ?A \<le> length ?cs" using card_mono [of "set ?cs" ?A] card_length [of ?cs] by simp
    moreover have "unat (MaxCosignatoriesPerAccount config) < 2 ^ 32" using unsigned_less [of "MaxCosignatoriesPerAccount config", where ?'a = nat] by simp
    ultimately have "card ?A < 2 ^ 32" using d(2) by simp
    then have "unat (of_nat (card ?A) :: uint32) = card ?A" by (simp add: unsigned_of_nat take_bit_nat_eq_self)
    then have "of_nat (card ?A) \<ge> GetMinRequiredCosignatories e operation \<longleftrightarrow> approved m S operation a"
      by (simp add: approved_multisig [of m a e, OF e] word_le_nat_alt)
    then show ?thesis using numApprovers_counts [OF all d(1), of 0] e by simp
  qed
qed

lemma all_satisfied_iff:
  assumes "\<forall>a\<in>set as. isSatisfied fuel m S operation a = Some (P a)"
  shows "all_satisfied fuel m S operation as = Some (\<forall>a\<in>set as. P a)"
  using assms by (induction as) auto

text \<open>An approval needs a signature from an account at the end of a chain of cosignatories.\<close>

lemma approved_has_signer:
  assumes "multisig_ok config m" "approved m S operation a"
  shows "\<exists>s\<in>S. (cos_link m)\<^sup>*\<^sup>* a s \<and> \<not> is_multisig m s"
  using assms(2)
proof induction
  case (cosigned a e C)
  then have "cosignatoryAddresses e \<noteq> []" by (auto simp: is_multisig_iff)
  then have "minApproval e \<noteq> 0" "minRemoval e \<noteq> 0" using multisig_okD(3) [OF assms(1) cosigned(1)] by (simp_all add: entry_ok_def setting_ok_def)
  then have "GetMinRequiredCosignatories e operation \<noteq> 0"
    by (auto simp: GetMinRequiredCosignatories_def max_def split: OperationType.splits)
  then have "C \<noteq> {}" using cosigned.hyps(5) by (auto simp: unat_eq_0)
  then obtain c s where c: "c \<in> C" "s \<in> S" "(cos_link m)\<^sup>*\<^sup>* c s" "\<not> is_multisig m s" using cosigned.IH by blast
  then have "cos_link m a c" using cosigned.hyps(1,2) by (auto simp: linked_to_def)
  then show ?case using c by (meson converse_rtranclp_into_rtranclp)
qed auto

subsection \<open>Eligibility\<close>

definition bottom_of :: "multisig_view \<Rightarrow> Address \<Rightarrow> Address set" where
  "bottom_of m a = {s. (cos_link m)\<^sup>*\<^sup>* a s \<and> \<not> is_multisig m s}"

lemma bottom_of_single: "\<not> is_multisig m a \<Longrightarrow> bottom_of m a = {a}"
  by (auto simp: bottom_of_def is_multisig_def elim: converse_rtranclpE)

lemma bottom_of_multisig:
  assumes "m a = Some e" "cosignatoryAddresses e \<noteq> []"
  shows "bottom_of m a = (\<Union>c\<in>set (cosignatoryAddresses e). bottom_of m c)"
proof -
  have "is_multisig m a" using assms by (auto simp: is_multisig_iff)
  moreover have "cos_link m a c \<longleftrightarrow> c \<in> set (cosignatoryAddresses e)" for c using assms(1) by (simp add: linked_to_def)
  moreover have "(cos_link m)\<^sup>*\<^sup>* a s \<longleftrightarrow> s = a \<or> (\<exists>c. cos_link m a c \<and> (cos_link m)\<^sup>*\<^sup>* c s)" for s
    using converse_rtranclp_into_rtranclp [of "cos_link m" a _ s] by (auto elim: converse_rtranclpE)
  ultimately show ?thesis unfolding bottom_of_def by auto
qed

lemma findEligible_loop_iff:
  assumes "\<forall>a\<in>set as. \<forall>E. findEligibleCosignatories fuel m S a E = Some (E \<union> (S \<inter> B a))"
  shows "findEligible_loop fuel m S as E = Some (E \<union> (S \<inter> (\<Union>a\<in>set as. B a)))"
  using assms by (induction as arbitrary: E) auto

lemma findEligible_bottom:
  assumes "levels_le (cos_link m) k a"
  shows "findEligibleCosignatories (Suc k) m S a E = Some (E \<union> (S \<inter> bottom_of m a))"
  using assms
proof (induction k arbitrary: a E)
  case 0
  then have no: "\<not> is_multisig m a" by (simp add: is_multisig_def levels_le_zero)
  then show ?case by (auto simp: bottom_of_single [OF no] is_multisig_iff split: option.splits)
next
  case (Suc k)
  show ?case
  proof (cases "is_multisig m a")
    case False
    then show ?thesis by (auto simp: bottom_of_single [OF False] is_multisig_iff split: option.splits)
  next
    case True
    then obtain e where e: "m a = Some e" "cosignatoryAddresses e \<noteq> []" by (auto simp: is_multisig_iff)
    have "\<forall>c\<in>set (cosignatoryAddresses e). levels_le (cos_link m) k c" using Suc.prems e(1) unfolding levels_le_step by (auto simp: linked_to_def)
    then have "\<forall>c\<in>set (cosignatoryAddresses e). \<forall>E. findEligibleCosignatories (Suc k) m S c E = Some (E \<union> (S \<inter> bottom_of m c))" using Suc.IH by blast
    then show ?thesis using findEligible_loop_iff e by (simp add: bottom_of_multisig [of m a e, OF e])
  qed
qed

lemma findEligible_transactions_iff:
  assumes "\<And>a E. findEligibleCosignatories fuel m S a E = Some (E \<union> (S \<inter> B a))"
  shows "findEligible_transactions fuel resolve m S ts E = Some (E \<union> (S \<inter> (\<Union>t\<in>set ts. \<Union>a\<in>set (findRequiredAddresses resolve t). B a)))"
proof (induction ts arbitrary: E)
  case (Cons t ts)
  have "findEligible_loop fuel m S as E = Some (E \<union> (S \<inter> (\<Union>a\<in>set as. B a)))" for as E by (rule findEligible_loop_iff) (simp add: assms)
  then show ?case by (auto simp: Cons.IH assms findRequiredAddresses_def)
qed simp

subsection \<open>Properties\<close>

text \<open>
  C10. The check for missing cosignatures always ends and decides approval. On a cache that respects the limits of the configuration
  the recursion needs at most one step more than the maximal depth, the counter of approvers does not overflow, and an embedded
  transaction is accepted exactly if every account that must agree to it is approved by the signers: an account without
  cosignatories has signed, and a multisig account has at least as many approving cosignatories as its entry asks for the operation.
\<close>

theorem aggregate_approval_exact:
  assumes "multisig_ok config m"
  shows "MultisigAggregateSufficientCosignatoriesValidator (Suc (unat (MaxMultisigDepth config))) resolve m signers transaction
    = Some (if \<forall>a\<in>set (findRequiredAddresses resolve transaction). approved m (set signers) (GetOperationType transaction) a
            then Multisig_Success else Failure_Aggregate_Missing_Cosignatures)"
proof -
  let ?required = "findRequiredAddresses resolve transaction"
  have "all_satisfied (Suc (unat (MaxMultisigDepth config))) m (set signers) (GetOperationType transaction) ?required
      = Some (\<forall>a\<in>set ?required. approved m (set signers) (GetOperationType transaction) a)"
    by (rule all_satisfied_iff) (use isSatisfied_approved [OF assms multisig_okD(4) [OF assms]] in blast)
  then show ?thesis by (simp add: MultisigAggregateSufficientCosignatoriesValidator_def)
qed

text \<open>The account of the example sends a transaction that also needs account 4; accounts 6 and 4 sign.\<close>

definition example_embedded :: EmbeddedTransaction where
  "example_embedded = \<lparr>et_Type = MakeEntityType Entity_Transaction Facility_Core 1, et_Signer = 9, et_AddressAdditionsCount = 0, et_AddressDeletionsCount = 0,
     additionalRequiredCosignatories = [4]\<rparr>"

lemma example_embedded_accepted:
  "MultisigAggregateSufficientCosignatoriesValidator 4 id (bsd_view example_multisigs) [6, 4] example_embedded = Some Multisig_Success"
  by code_simp

lemma example_required: "findRequiredAddresses id example_embedded = [9, 4]"
  by code_simp

theorem aggregate_approval_exact_witness:
  "approved (bsd_view example_multisigs) {6, 4} (GetOperationType example_embedded) 9
   \<and> approved (bsd_view example_multisigs) {6, 4} (GetOperationType example_embedded) 4"
proof -
  from aggregate_approval_exact [OF example_multisigs_ok, of id "[6, 4]" example_embedded]
  have "Some Multisig_Success = Some (if \<forall>a\<in>{9, 4}. approved (bsd_view example_multisigs) {6, 4} (GetOperationType example_embedded) a
      then Multisig_Success else Failure_Aggregate_Missing_Cosignatures)"
    by (simp only: example_required set_simps) (simp add: example_limits_def example_embedded_accepted)
  then show ?thesis by (auto split: if_splits)
qed

text \<open>
  C26. No account is bound without a signature, and no superfluous signature is accepted. If the check for missing cosignatures
  accepts a transaction, then each account that must agree has itself signed or has, at the end of a chain of cosignatories, an account
  without cosignatories that signed. The check for ineligible cosignatories always ends and accepts
  exactly if each signer of the aggregate is such an account for one of the accounts that its transactions require.
\<close>

theorem aggregate_signers_exact:
  fixes config
  defines "fuel \<equiv> Suc (unat (MaxMultisigDepth config))"
  assumes "multisig_ok config m"
  shows "(MultisigAggregateSufficientCosignatoriesValidator fuel resolve m signers transaction = Some Multisig_Success \<longrightarrow>
      (\<forall>a\<in>set (findRequiredAddresses resolve transaction). \<exists>s\<in>set signers. (cos_link m)\<^sup>*\<^sup>* a s \<and> \<not> is_multisig m s))
    \<and> MultisigAggregateEligibleCosignatoriesValidator fuel resolve m signers transactions
      = Some (if \<forall>s\<in>set signers. \<exists>t\<in>set transactions. \<exists>a\<in>set (findRequiredAddresses resolve t). (cos_link m)\<^sup>*\<^sup>* a s \<and> \<not> is_multisig m s
              then Multisig_Success else Failure_Aggregate_Ineligible_Cosignatories)"
proof -
  have satisfied: "isSatisfied fuel m (set signers) operation a = Some (approved m (set signers) operation a)" for operation a
    unfolding fuel_def by (rule isSatisfied_approved [OF assms(2) multisig_okD(4) [OF assms(2)]])
  have "approved m (set signers) (GetOperationType transaction) a"
    if "MultisigAggregateSufficientCosignatoriesValidator fuel resolve m signers transaction = Some Multisig_Success"
      "a \<in> set (findRequiredAddresses resolve transaction)" for a
    using that all_satisfied_iff [of "findRequiredAddresses resolve transaction" fuel m "set signers", OF ballI, OF satisfied]
    by (auto simp: MultisigAggregateSufficientCosignatoriesValidator_def split: if_splits)
  then have "\<forall>a\<in>set (findRequiredAddresses resolve transaction). \<exists>s\<in>set signers. (cos_link m)\<^sup>*\<^sup>* a s \<and> \<not> is_multisig m s"
    if "MultisigAggregateSufficientCosignatoriesValidator fuel resolve m signers transaction = Some Multisig_Success"
    using approved_has_signer [OF assms(2)] that by blast
  moreover have "findEligibleCosignatories fuel m (set signers) a E = Some (E \<union> (set signers \<inter> bottom_of m a))" for a E
    unfolding fuel_def by (rule findEligible_bottom) (rule multisig_okD(4) [OF assms(2)])
  note findEligible_transactions_iff [of fuel m "set signers" "bottom_of m" resolve transactions "{}", OF this]
  then have "MultisigAggregateEligibleCosignatoriesValidator fuel resolve m signers transactions
      = Some (if \<forall>s\<in>set signers. \<exists>t\<in>set transactions. \<exists>a\<in>set (findRequiredAddresses resolve t). (cos_link m)\<^sup>*\<^sup>* a s \<and> \<not> is_multisig m s
              then Multisig_Success else Failure_Aggregate_Ineligible_Cosignatories)"
    by (auto simp: MultisigAggregateEligibleCosignatoriesValidator_def bottom_of_def list_ex_iff)
  ultimately show ?thesis by blast
qed

theorem aggregate_signers_exact_witness:
  "(\<exists>s\<in>{6, 4}. (cos_link (bsd_view example_multisigs))\<^sup>*\<^sup>* 9 s \<and> \<not> is_multisig (bsd_view example_multisigs) s)
   \<and> (\<exists>a\<in>{9, 4}. (cos_link (bsd_view example_multisigs))\<^sup>*\<^sup>* a 6 \<and> \<not> is_multisig (bsd_view example_multisigs) 6)"
proof -
  note exact = aggregate_signers_exact [OF example_multisigs_ok, of id "[6, 4]" example_embedded "[example_embedded]"]
  have "MultisigAggregateEligibleCosignatoriesValidator 4 id (bsd_view example_multisigs) [6, 4] [example_embedded] = Some Multisig_Success"
    by code_simp
  moreover have "Suc (unat (MaxMultisigDepth example_limits)) = 4" by (simp add: example_limits_def)
  ultimately have "\<forall>a\<in>{9, 4}. \<exists>s\<in>{6, 4}. (cos_link (bsd_view example_multisigs))\<^sup>*\<^sup>* a s \<and> \<not> is_multisig (bsd_view example_multisigs) s"
    and "Some Multisig_Success = Some (if \<forall>s\<in>{6, 4}. \<exists>a\<in>{9, 4}. (cos_link (bsd_view example_multisigs))\<^sup>*\<^sup>* a s \<and> \<not> is_multisig (bsd_view example_multisigs) s
        then Multisig_Success else Failure_Aggregate_Ineligible_Cosignatories)"
    using exact example_embedded_accepted by (simp_all add: example_required)
  then show ?thesis by (auto split: if_splits)
qed

end
