(* ===== verification/Inflation.thy ===== *)
theory Inflation
  imports StlMap
begin

section \<open>Inflation (catapult/model/InflationCalculator)\<close>

text \<open>
  New currency is paid to harvesters by a schedule that is a map from heights to amounts: each amount is paid in every block
  from its height on until the next entry. The calculator gives the amount of a block, the sum up to a height and the sum of
  the whole schedule. The latter two are computed per segment of the schedule; the theory shows that
  they are the sums of the amounts of the single blocks.
\<close>

subsection \<open>The calculator\<close>

type_synonym InflationCalculator = "(Height, Amount) smap"

definition ic_contains :: "Height \<Rightarrow> Amount \<Rightarrow> InflationCalculator \<Rightarrow> bool" where
  "ic_contains height amount c \<longleftrightarrow> smap_find c height = Some amount"

fun spot_loop :: "Height \<Rightarrow> Amount \<Rightarrow> InflationCalculator \<Rightarrow> Amount" where
  "spot_loop height amount [] = amount"
| "spot_loop height amount ((first, second) # c) = (if height < first then amount else spot_loop height second c)"

definition getSpotAmount :: "InflationCalculator \<Rightarrow> Height \<Rightarrow> Amount" where
  "getSpotAmount c height = spot_loop height 0 c"

fun cumulative_loop :: "Height \<Rightarrow> Amount \<Rightarrow> Amount \<Rightarrow> Height \<Rightarrow> InflationCalculator \<Rightarrow> Amount \<times> Amount \<times> Height" where
  "cumulative_loop height totalAmount currentAmount currentHeight [] = (totalAmount, currentAmount, currentHeight)"
| "cumulative_loop height totalAmount currentAmount currentHeight ((first, second) # c) =
     (let numBlocks = (if height < first then height else first) - currentHeight;
          totalAmount = totalAmount + currentAmount * numBlocks
      in if height \<le> first then (totalAmount, second, first) else cumulative_loop height totalAmount second first c)"

definition getCumulativeAmount :: "InflationCalculator \<Rightarrow> Height \<Rightarrow> Amount" where
  "getCumulativeAmount c height =
     (if 0 = height then 0
      else
        let (totalAmount, currentAmount, currentHeight) = cumulative_loop height 0 0 1 c
        in if currentHeight < height then totalAmount + currentAmount * (height - currentHeight) else totalAmount)"

text \<open>\<open>None\<close> is the early return.\<close>

fun sum_loop :: "uint64 \<Rightarrow> Height \<times> Amount \<Rightarrow> InflationCalculator \<Rightarrow> (uint64 \<times> Amount) option" where
  "sum_loop totalAmountRaw currentPair [] = Some (totalAmountRaw, snd currentPair)"
| "sum_loop totalAmountRaw currentPair (pair # c) =
     (let numBlocks = fst pair - fst currentPair
      in if 0 \<noteq> numBlocks \<and> snd currentPair > (- 1) div numBlocks then None
         else
           let summand = snd currentPair * numBlocks
           in if totalAmountRaw > (- 1) - summand then None else sum_loop (totalAmountRaw + summand) pair c)"

definition sumAll :: "InflationCalculator \<Rightarrow> Amount \<times> bool" where
  "sumAll c =
     (case sum_loop 0 (1, 0) c of
        None \<Rightarrow> (0, False)
      | Some (totalAmountRaw, amount) \<Rightarrow> let isValid = (0 = amount) in (if isValid then totalAmountRaw else 0, isValid))"

definition ic_add :: "Height \<Rightarrow> Amount \<Rightarrow> InflationCalculator \<Rightarrow> exn + InflationCalculator" where
  "ic_add height amount c =
     (if 0 = height \<or> (c \<noteq> [] \<and> fst (last c) \<ge> height) then Inl Invalid_Argument else Inr (smap_insert height amount c))"

subsection \<open>Schedules\<close>

definition ic_inv :: "InflationCalculator \<Rightarrow> bool" where
  "ic_inv c \<longleftrightarrow> smap_inv c \<and> (\<forall>h \<in> fst ` set c. h \<noteq> 0)"

lemma ic_inv_empty: "ic_inv []"
  by (simp add: ic_inv_def)

lemma smap_put_last:
  assumes "smap_inv m" "m \<noteq> [] \<Longrightarrow> fst (last m) < k"
  shows "smap_put k v m = m @ [(k, v)]"
  using assms
proof (induction m)
  case (Cons p m)
  obtain k' v' where p: "p = (k', v')" by (cases p)
  have "k' < k"
  proof (cases m)
    case (Cons q qs)
    then have "last m \<in> set m" by simp
    then have "k' < fst (last m)" using Cons.prems(1) p by auto
    then show ?thesis using Cons.prems(2) Cons by auto
  qed (use Cons.prems p in auto)
  moreover have "smap_put k v m = m @ [(k, v)]" by (rule Cons.IH) (use Cons.prems p in auto)
  ultimately show ?case using p by auto
qed simp

lemma ic_add_appends:
  assumes "ic_inv c" "ic_add height amount c = Inr c'"
  shows "c' = c @ [(height, amount)]" "ic_inv c'"
proof -
  have h: "height \<noteq> 0" "c \<noteq> [] \<Longrightarrow> fst (last c) < height" using assms(2) by (auto simp: ic_add_def not_le split: if_splits)
  have inv: "smap_inv c" using assms(1) by (simp add: ic_inv_def)
  have "k < height" if mem: "(k, v) \<in> set c" for k v
  proof -
    obtain xs x where c: "c = xs @ [x]" using mem by (cases c rule: rev_cases) auto
    then have "k \<le> fst (last c)" using inv mem by (auto simp: smap_inv_def sorted_wrt_append intro: less_imp_le)
    then show ?thesis using h(2) c by simp
  qed
  then have "smap_find c height = None" by (cases "smap_find c height") (auto simp: smap_find_def dest: map_of_SomeD)
  then have "\<not> smap_contains c height" by (simp add: smap_contains_def)
  then show c': "c' = c @ [(height, amount)]" using smap_put_last [OF inv h(2)] assms(2) by (simp add: ic_add_def smap_insert_def split: if_splits)
  have "smap_inv c'" using assms(2) inv by (auto simp: ic_add_def split: if_splits)
  then show "ic_inv c'" using assms(1) h(1) by (auto simp: ic_inv_def c')
qed

text \<open>The amounts of the blocks in a range of heights, as numbers.\<close>

abbreviation spots :: "InflationCalculator \<Rightarrow> Amount \<Rightarrow> nat \<Rightarrow> nat \<Rightarrow> nat" where
  "spots c a from to \<equiv> (\<Sum>i = from..<to. unat (spot_loop (of_nat i) a c))"

lemma of_nat_less_word: "i < 2 ^ 64 \<Longrightarrow> (of_nat i :: uint64) < w \<longleftrightarrow> i < unat w"
  by (simp add: word_less_nat_alt unsigned_of_nat take_bit_nat_eq_self)

lemma spots_constant:
  assumes "to < 2 ^ 64" "c = [] \<or> to \<le> unat (fst (hd c))"
  shows "spots c a from to = (to - from) * unat a"
proof -
  have "spot_loop (of_nat i) a c = a" if "i < to" for i
    using assms that by (cases c; cases "hd c") (auto simp: of_nat_less_word)
  then have "spots c a from to = (\<Sum>i = from..<to. unat a)" by (intro sum.cong) auto
  then show ?thesis by simp
qed

lemma spots_skip:
  assumes "to < 2 ^ 64" "unat k \<le> from"
  shows "spots ((k, v) # c) a from to = spots c v from to"
proof (rule sum.cong)
  fix i
  assume "i \<in> {from..<to}"
  then show "unat (spot_loop (of_nat i) a ((k, v) # c)) = unat (spot_loop (of_nat i) v c)" using assms by (auto simp: of_nat_less_word)
qed simp

text \<open>The range is split at the next entry of the schedule.\<close>

lemma spots_split:
  assumes "to < 2 ^ 64" "from \<le> unat k" "unat k \<le> to"
  shows "spots ((k, v) # c) a from to = (unat k - from) * unat a + spots c v (unat k) to"
proof -
  have "spots ((k, v) # c) a from to = spots ((k, v) # c) a from (unat k) + spots ((k, v) # c) a (unat k) to"
    using sum.atLeastLessThan_concat [OF assms(2,3), of "\<lambda>i. unat (spot_loop (of_nat i) a ((k, v) # c))"] by simp
  moreover have "spots ((k, v) # c) a from (unat k) = (unat k - from) * unat a" by (rule spots_constant) (use unsigned_less [of k, where ?'a = nat] in auto)
  ultimately show ?thesis using spots_skip [OF assms(1), of k "unat k"] by simp
qed

text \<open>The loops over the segments.\<close>

lemma word_segment:
  fixes h k a :: uint64
  assumes "unat k \<le> unat h"
  shows "a * (h - k) = of_nat ((unat h - unat k) * unat a)"
proof -
  have "of_nat (unat h - unat k) = (h - k :: uint64)" using assms by (simp add: of_nat_diff)
  then show ?thesis by (simp add: mult.commute)
qed

lemma cumulative_loop_sums:
  assumes "sorted_wrt (<) (map fst c)" "\<forall>k\<in>fst ` set c. currentHeight \<le> k" "unat currentHeight \<le> unat height"
    and "cumulative_loop height totalAmount currentAmount currentHeight c = (t, a, k)"
  shows "(if k < height then t + a * (height - k) else t) = totalAmount + of_nat (spots c currentAmount (unat currentHeight) (unat height))"
  using assms
proof (induction height totalAmount currentAmount currentHeight c rule: cumulative_loop.induct)
  case (1 height totalAmount currentAmount currentHeight)
  have "spots [] currentAmount (unat currentHeight) (unat height) = (unat height - unat currentHeight) * unat currentAmount"
    by (rule spots_constant) (use unsigned_less [of height, where ?'a = nat] in auto)
  moreover have "currentHeight \<le> height" using 1(3) by (simp add: word_le_nat_alt)
  ultimately show ?case using 1(4) word_segment [OF 1(3), of currentAmount] by (cases "currentHeight < height") auto
next
  case (2 height totalAmount currentAmount currentHeight first second c)
  have h: "unat height < 2 ^ 64" using unsigned_less [of height, where ?'a = nat] by simp
  have ch: "unat currentHeight \<le> unat first" using "2.prems"(2) by (simp add: word_le_nat_alt)
  show ?case
  proof (cases "height \<le> first")
    case True
    have s: "spots ((first, second) # c) currentAmount (unat currentHeight) (unat height) = (unat height - unat currentHeight) * unat currentAmount"
      by (rule spots_constant [OF h]) (use True in \<open>simp add: word_le_nat_alt\<close>)
    have "(if height < first then height else first) = height" using True by auto
    then show ?thesis unfolding s using "2.prems"(4) True word_segment [OF "2.prems"(3), of currentAmount] by (auto simp: Let_def)
  next
    case False
    then have "first < height" by simp
    then have first: "first < height" "(if height < first then height else first) = first" "unat first \<le> unat height" by (auto simp: word_less_nat_alt)
    have rest: "sorted_wrt (<) (map fst c)" "\<forall>k\<in>fst ` set c. first \<le> k" using "2.prems"(1) by auto
    have "cumulative_loop height (totalAmount + currentAmount * (first - currentHeight)) second first c = (t, a, k)"
      using "2.prems"(4) False first(2) by (simp add: Let_def)
    from "2.IH" [OF _ _ False rest first(3), unfolded first(2), OF refl refl this]
    show ?thesis using spots_split [OF h ch first(3), where v = second and c = c and a = currentAmount] word_segment [OF ch, of currentAmount] by (simp add: algebra_simps)
  qed
qed

lemma cumulative_is_sum:
  assumes "ic_inv c"
  shows "getCumulativeAmount c height = of_nat (\<Sum>i = 1..<unat height. unat (getSpotAmount c (of_nat i)))"
proof (cases "height = 0")
  case False
  obtain t a k where loop: "cumulative_loop height 0 0 1 c = (t, a, k)" by (metis prod_cases3)
  have "\<forall>k\<in>fst ` set c. 1 \<le> k" using assms by (auto simp: ic_inv_def word_le_nat_alt Suc_le_eq unat_gt_0)
  moreover have "unat (1 :: Height) \<le> unat height" using False by (simp add: Suc_le_eq unat_gt_0)
  ultimately show ?thesis using cumulative_loop_sums [OF _ _ _ loop] assms False loop
    by (simp add: getCumulativeAmount_def getSpotAmount_def ic_inv_def smap_inv_def)
qed (simp add: getCumulativeAmount_def)

lemma unat_max: "unat (- 1 :: uint64) = 2 ^ 64 - 1"
  by (simp add: unsigned_minus_1_eq_mask mask_eq_exp_minus_1)

lemma no_overflow_segment:
  fixes a n :: uint64
  shows "\<not> (0 \<noteq> n \<and> a > (- 1) div n) \<longleftrightarrow> unat a * unat n < 2 ^ 64"
proof (cases "n = 0")
  case False
  have "\<not> a > (- 1) div n \<longleftrightarrow> unat a \<le> (2 ^ 64 - 1) div unat n" by (simp add: word_less_nat_alt unat_div unat_max not_less)
  also have "\<dots> \<longleftrightarrow> unat a * unat n \<le> 2 ^ 64 - 1" using False by (simp add: less_eq_div_iff_mult_less_eq unat_gt_0)
  also have "\<dots> \<longleftrightarrow> unat a * unat n < 2 ^ 64" by (subst less_Suc_eq_le [symmetric]) simp
  finally show ?thesis using False by simp
qed simp

lemma no_overflow_total:
  fixes t s :: uint64
  shows "\<not> t > (- 1) - s \<longleftrightarrow> unat t + unat s < 2 ^ 64"
proof -
  have s: "unat s \<le> 2 ^ 64 - 1" using unsigned_less [of s, where ?'a = nat] by simp
  then have "unat ((- 1) - s) = 2 ^ 64 - 1 - unat s" by (subst unat_sub) (auto simp: word_le_nat_alt unat_max)
  then show ?thesis using s by (simp add: word_less_nat_alt) linarith
qed

lemma sum_loop_sums:
  assumes "sorted_wrt (<) (map fst c)" "\<forall>k\<in>fst ` set c. currentHeight \<le> k"
  shows "sum_loop totalAmount (currentHeight, currentAmount) c =
    (let total = unat totalAmount + spots c currentAmount (unat currentHeight) (unat (fst (last ((currentHeight, currentAmount) # c))))
     in if total < 2 ^ 64 then Some (of_nat total, snd (last ((currentHeight, currentAmount) # c))) else None)"
  using assms
proof (induction c arbitrary: totalAmount currentHeight currentAmount)
  case Nil
  then show ?case using unsigned_less [of totalAmount, where ?'a = nat] by simp
next
  case (Cons p c)
  obtain first second where p: "p = (first, second)" by (cases p)
  let ?stop = "unat (fst (last ((first, second) # c)))" and ?n = "first - currentHeight"
  let ?S = "spots c second (unat first) ?stop"
  have ch: "unat currentHeight \<le> unat first" using Cons.prems(2) p by (simp add: word_le_nat_alt)
  have n: "unat ?n = unat first - unat currentHeight" using ch by (simp add: unat_sub word_le_nat_alt)
  have rest: "sorted_wrt (<) (map fst c)" "\<forall>k\<in>fst ` set c. first \<le> k" using Cons.prems(1) p by auto
  have "unat first \<le> ?stop"
  proof (cases "c = []")
    case False
    then have "fst (last c) \<in> fst ` set c" by simp
    then show ?thesis using rest(2) False by (simp add: word_le_nat_alt)
  qed simp
  moreover have "?stop < 2 ^ 64" using unsigned_less [of "fst (last ((first, second) # c))", where ?'a = nat] by simp
  ultimately have split: "spots ((first, second) # c) currentAmount (unat currentHeight) ?stop = unat currentAmount * unat ?n + ?S"
    using spots_split [OF _ ch] n by (simp add: mult.commute)
  have last: "last ((currentHeight, currentAmount) # p # c) = last ((first, second) # c)" using p by simp
  have total: "spots (p # c) currentAmount (unat currentHeight) (unat (fst (last ((currentHeight, currentAmount) # p # c)))) = unat currentAmount * unat ?n + ?S"
    by (simp only: last) (simp only: p split)
  show ?case
  proof (cases "unat currentAmount * unat ?n < 2 ^ 64")
    case False
    then have "sum_loop totalAmount (currentHeight, currentAmount) (p # c) = None" using no_overflow_segment [of ?n currentAmount] p by (simp add: Let_def)
    then show ?thesis unfolding total Let_def using False by simp
  next
    case fits: True
    then have s: "unat (currentAmount * ?n) = unat currentAmount * unat ?n" by (simp add: unat_mult_lem [THEN iffD1])
    show ?thesis
    proof (cases "unat totalAmount + unat currentAmount * unat ?n < 2 ^ 64")
      case False
      then have "totalAmount > (- 1) - currentAmount * ?n" using no_overflow_total [where t = totalAmount and s = "currentAmount * ?n"] unfolding s by blast
      then have "sum_loop totalAmount (currentHeight, currentAmount) (p # c) = None" by (simp add: p Let_def)
      then show ?thesis unfolding total Let_def using False by simp
    next
      case True
      then have u: "unat (totalAmount + currentAmount * ?n) = unat totalAmount + unat currentAmount * unat ?n" using s by (simp add: unat_add_lem [THEN iffD1])
      have "sum_loop totalAmount (currentHeight, currentAmount) (p # c) = sum_loop (totalAmount + currentAmount * ?n) (first, second) c"
        using no_overflow_segment [of ?n currentAmount] no_overflow_total [where t = totalAmount and s = "currentAmount * ?n"] fits True s p by (auto simp: Let_def)
      then show ?thesis unfolding total Let_def unfolding last Cons.IH [OF rest, of "totalAmount + currentAmount * ?n" second] u Let_def by (simp only: add.assoc)
    qed
  qed
qed


subsection \<open>Properties\<close>

fun ic_adds :: "(Height \<times> Amount) list \<Rightarrow> InflationCalculator \<Rightarrow> exn + InflationCalculator" where
  "ic_adds [] c = Inr c"
| "ic_adds ((height, amount) # entries) c = rbind (ic_add height amount c) (ic_adds entries)"

lemma ic_adds_appends: "ic_inv c \<Longrightarrow> ic_adds entries c = Inr c' \<Longrightarrow> c' = c @ entries \<and> ic_inv c'"
proof (induction entries c rule: ic_adds.induct)
  case (2 height amount entries c)
  then obtain d where d: "ic_add height amount c = Inr d" "ic_adds entries d = Inr c'" by (auto simp: rbind_Inr_iff)
  show ?case using "2.IH" [OF ic_add_appends(2) [OF "2.prems"(1) d(1)] d(2)] ic_add_appends(1) [OF "2.prems"(1) d(1)] by auto
qed simp

text \<open>
  C22. The inflation calculator pays out what it announces. Take any schedule that entries were added to without exception. The cumulative amount at a height, computed segment by
  segment, is the sum of the spot amounts of all blocks below the height (modulo the width of amounts), and the total of the schedule is valid exactly if its last amount is zero and the sum of
  the spot amounts of all blocks up to its last entry fits into an amount, which is then what is returned.
\<close>

theorem inflation_sums_spot_amounts:
  assumes "ic_adds entries [] = Inr c"
  shows "getCumulativeAmount c height = (\<Sum>i = 1..<unat height. getSpotAmount c (of_nat i))
    \<and> sumAll c = (let total = \<Sum>i = 1..<unat (fst (last ((1, 0) # entries))). unat (getSpotAmount c (of_nat i))
        in if total < 2 ^ 64 \<and> snd (last ((1, 0) # entries)) = 0 then (of_nat total, True) else (0, False))"
proof -
  have c: "c = entries" "ic_inv c" using ic_adds_appends [OF ic_inv_empty assms] by auto
  have "\<forall>k\<in>fst ` set c. 1 \<le> k" using c(2) by (auto simp: ic_inv_def word_le_nat_alt Suc_le_eq unat_gt_0)
  then have sum: "sum_loop 0 (1, 0) c = (let total = spots c 0 1 (unat (fst (last ((1, 0) # c))))
      in if total < 2 ^ 64 then Some (of_nat total, snd (last ((1, 0) # c))) else None)"
    using sum_loop_sums [of c 1 0 0] c(2) by (simp add: ic_inv_def smap_inv_def)
  show ?thesis
    unfolding sumAll_def sum unfolding c(1) [symmetric] getSpotAmount_def [symmetric] Let_def using cumulative_is_sum [OF c(2), of height] by (simp add: getSpotAmount_def)
qed

theorem inflation_sums_spot_amounts_witness:
  "getCumulativeAmount [(2, 5), (4, 1), (6, 0)] 6 = 12 \<and> sumAll [(2, 5), (4, 1), (6, 0)] = (12, True)"
proof -
  have "ic_adds [(2, 5), (4, 1), (6, 0)] [] = Inr [(2, 5), (4, 1), (6, 0)]" by code_simp
  moreover have "{1..<6 :: nat} = {1, 2, 3, 4, 5}" by auto
  ultimately show ?thesis using inflation_sums_spot_amounts [of "[(2, 5), (4, 1), (6, 0)]" "[(2, 5), (4, 1), (6, 0)]" 6] by (simp add: getSpotAmount_def)
qed

end
