(* ===== verification/Difficulty.thy ===== *)
theory Difficulty
  imports Inflation
begin

section \<open>Difficulties and scores of chains (catapult/chain)\<close>

text \<open>
  The difficulty of a block is determined by the statistics of the blocks before it: their average difficulty is scaled by the
  ratio of the time the blocks should have taken and the time they took, and changes by at most five percent. A node checks
  the difficulties of a chain that it receives against its own statistics, which it extends on the way in a
  sliding window.

  The set of statistics, ordered by height, is a map from heights. The intermediate 128 bit integer is a word of this width; the conversion of the third party
  type to 64 bits is the argument \<open>convert\<close>, of which the properties only use that it keeps numbers that fit, and its division by zero is an
  exception.
\<close>

subsection \<open>Types\<close>

definition Difficulty_Default_Value :: uint64 where
  "Difficulty_Default_Value = 100000000000000"

definition Difficulty_Min_Value :: uint64 where
  "Difficulty_Min_Value = Difficulty_Default_Value div 10"

definition Difficulty_Max_Value :: uint64 where
  "Difficulty_Max_Value = Difficulty_Default_Value * 10"

definition Clamp :: "uint64 \<Rightarrow> uint64" where
  "Clamp raw = (if raw < Difficulty_Min_Value then Difficulty_Min_Value else if raw > Difficulty_Max_Value then Difficulty_Max_Value else raw)"

record BlockStatistic =
  bs_Height :: Height
  bs_Timestamp :: uint64
  bs_Difficulty :: uint64
  bs_FeeMultiplier :: uint32

record Block =
  b_Height :: Height
  b_Timestamp :: uint64
  b_Difficulty :: uint64
  b_FeeMultiplier :: uint32
  b_PreviousBlockHash :: Hash256

definition block_statistic :: "Block \<Rightarrow> BlockStatistic" where
  "block_statistic b = \<lparr>bs_Height = b_Height b, bs_Timestamp = b_Timestamp b, bs_Difficulty = b_Difficulty b, bs_FeeMultiplier = b_FeeMultiplier b\<rparr>"

type_synonym StatisticSet = "(Height, BlockStatistic) smap"

text \<open>The settings that are used, in milliseconds and numbers of blocks, and the conversion.\<close>

record difficulty_config =
  BlockGenerationTargetTime :: uint64
  MaxDifficultyBlocks :: uint32
  convert :: "128 word \<Rightarrow> uint64"

subsection \<open>Statistics\<close>

text \<open>
  The heights of the statistics are consecutive. If the first height of the range were missing nevertheless, the range would start at the end
  of the set, which has no meaning in the language; this is the error \<open>Out_Of_Range\<close>.
\<close>

definition statistics :: "StatisticSet \<Rightarrow> Height \<Rightarrow> size_t \<Rightarrow> exn + BlockStatistic list" where
  "statistics statisticSet height count =
     (if statisticSet = [] then Inl Runtime_Error
      else if 0 = height \<or> 0 = count then Inl Invalid_Argument
      else if \<not> smap_contains statisticSet height then Inl Invalid_Argument
      else
        let firstHeight = fst (hd statisticSet);
            first = (if height - firstHeight < count - 1 then firstHeight else height - (count - 1))
        in if \<not> smap_contains statisticSet first then Inl Out_Of_Range
           else Inr (map snd (filter (\<lambda>(k, _). first \<le> k \<and> k \<le> height) statisticSet)))"

subsection \<open>Difficulty\<close>

definition limit_change :: "uint64 \<Rightarrow> uint64 \<Rightarrow> uint64" where
  "limit_change lastDifficulty difficulty =
     (if 19 * lastDifficulty > 20 * difficulty then (19 * lastDifficulty) div 20
      else if 21 * lastDifficulty < 20 * difficulty then (21 * lastDifficulty) div 20
      else difficulty)"

definition CalculateDifficulty :: "difficulty_config \<Rightarrow> BlockStatistic list \<Rightarrow> exn + uint64" where
  "CalculateDifficulty config stats =
     (let historySize = length stats; averageDifficulty = fold (\<lambda>s acc. acc + bs_Difficulty s) stats 0
      in if historySize < 2 then Inr (Clamp Difficulty_Default_Value)
         else
           let firstTimestamp = bs_Timestamp (hd stats);
               lastTimestamp = bs_Timestamp (last stats);
               lastDifficulty = bs_Difficulty (last stats);
               timeDiff = lastTimestamp - firstTimestamp;
               averageDifficulty = averageDifficulty div of_nat historySize;
               largeDifficulty = (ucast averageDifficulty :: 128 word) * ucast (BlockGenerationTargetTime config) * of_nat (historySize - 1)
           in if timeDiff = 0 then Inl Runtime_Error
              else Inr (Clamp (limit_change lastDifficulty (convert config (largeDifficulty div ucast timeDiff)))))"

subsection \<open>Chains\<close>

definition IsChainLink :: "Block \<Rightarrow> Hash256 \<Rightarrow> Block \<Rightarrow> bool" where
  "IsChainLink parent parentHash child \<longleftrightarrow>
     (if b_Height parent + 1 \<noteq> b_Height child \<or> parentHash \<noteq> b_PreviousBlockHash child then False else b_Timestamp parent < b_Timestamp child)"

definition LoadDifficulties :: "difficulty_config \<Rightarrow> StatisticSet \<Rightarrow> Height \<Rightarrow> exn + StatisticSet" where
  "LoadDifficulties config cache height =
     rbind (statistics cache height (ucast (MaxDifficultyBlocks config))) (\<lambda>range. Inr (smap_insert_range (map (\<lambda>s. (bs_Height s, s)) range) smap_empty))"

fun check_loop :: "difficulty_config \<Rightarrow> StatisticSet \<Rightarrow> uint64 \<Rightarrow> nat \<Rightarrow> Block list \<Rightarrow> exn + nat" where
  "check_loop config difficulties difficulty i [] = Inr i"
| "check_loop config difficulties difficulty i (block # blocks) =
     (if difficulty \<noteq> b_Difficulty block then Inr i
      else
        let difficulties = smap_insert (b_Height block) (block_statistic block) difficulties;
            difficulties = (if smap_size difficulties > unat (MaxDifficultyBlocks config) then tl difficulties else difficulties)
        in rbind (CalculateDifficulty config (map snd difficulties)) (\<lambda>difficulty. check_loop config difficulties difficulty (i + 1) blocks))"

definition CheckDifficulties :: "difficulty_config \<Rightarrow> StatisticSet \<Rightarrow> Block list \<Rightarrow> exn + nat" where
  "CheckDifficulties config cache blocks =
     (if blocks = [] then Inr 0
      else
        rbind (LoadDifficulties config cache (b_Height (hd blocks) - 1)) (\<lambda>difficulties.
        rbind (CalculateDifficulty config (map snd difficulties)) (\<lambda>difficulty. check_loop config difficulties difficulty 0 blocks)))"

text \<open>Scores: the difficulty less the seconds that the block took, added up in 128 bits. A time span counts signed milliseconds.\<close>

definition seconds :: "uint64 \<Rightarrow> uint64" where
  "seconds millis = (if 0 \<le> sint millis then millis div 1000 else - ((- millis) div 1000))"

definition CalculateScore :: "Block \<Rightarrow> Block \<Rightarrow> uint64" where
  "CalculateScore parentBlock currentBlock =
     (if b_Timestamp currentBlock \<le> b_Timestamp parentBlock then 0
      else b_Difficulty currentBlock - seconds (b_Timestamp currentBlock - b_Timestamp parentBlock))"

fun score_loop :: "128 word \<Rightarrow> Block \<Rightarrow> Block list \<Rightarrow> 128 word" where
  "score_loop score previousBlock [] = score"
| "score_loop score previousBlock (block # blocks) = score_loop (score + ucast (CalculateScore previousBlock block)) block blocks"

definition CalculatePartialChainScore :: "Block \<Rightarrow> Block list \<Rightarrow> 128 word" where
  "CalculatePartialChainScore parent blocks = score_loop 0 parent blocks"

text \<open>The score of a chain is the sum of the scores of its parts, so that a node may compare the parts after a common block only.\<close>

lemma score_loop_acc: "score_loop score parent blocks = score + score_loop 0 parent blocks"
proof (induction blocks arbitrary: score parent)
  case (Cons block blocks)
  show ?case by (simp add: Cons.IH [of "score + ucast (CalculateScore parent block)"] Cons.IH [of "ucast (CalculateScore parent block)"])
qed simp

lemma score_append:
  "CalculatePartialChainScore parent (xs @ ys) = CalculatePartialChainScore parent xs + CalculatePartialChainScore (last (parent # xs)) ys"
  unfolding CalculatePartialChainScore_def
proof (induction xs arbitrary: parent)
  case (Cons x xs)
  then show ?case by (simp add: score_loop_acc [of "ucast (CalculateScore parent x)"])
qed simp

subsection \<open>The change of difficulty\<close>

lemma unat_small_mult:
  fixes w :: uint64
  assumes "n * unat w < 2 ^ 64"
  shows "unat (of_nat n * w) = n * unat w"
proof -
  have "of_nat n * w = of_nat (n * unat w)" by simp
  then show ?thesis using assms by (simp only: unsigned_of_nat) (simp add: take_bit_nat_eq_self)
qed

lemma difficulty_range: "unat (Clamp w) \<in> {10 ^ 13..10 ^ 15}"
  by (auto simp: Clamp_def Difficulty_Min_Value_def Difficulty_Max_Value_def Difficulty_Default_Value_def word_less_nat_alt not_less)

lemma limit_change_nat:
  assumes "unat l \<le> 10 ^ 15" "20 * unat d < 2 ^ 64"
  shows "unat (limit_change l d) = max (19 * unat l div 20) (min (21 * unat l div 20) (unat d))"
proof -
  have l: "unat (19 * l) = 19 * unat l" "unat (21 * l) = 21 * unat l" "unat (20 * d) = 20 * unat d"
    using unat_small_mult [of 19 l] unat_small_mult [of 21 l] unat_small_mult [of 20 d] assms by simp_all
  then have "unat ((19 * l) div 20) = 19 * unat l div 20" "unat ((21 * l) div 20) = 21 * unat l div 20" by (simp_all add: unat_div)
  then show ?thesis by (auto simp: limit_change_def word_less_nat_alt l)
qed

text \<open>What is computed, as numbers.\<close>

lemma fold_difficulties:
  assumes "unat acc + (\<Sum>s\<leftarrow>stats. unat (bs_Difficulty s)) < 2 ^ 64"
  shows "unat (fold (\<lambda>s acc. acc + bs_Difficulty s) stats acc) = unat acc + (\<Sum>s\<leftarrow>stats. unat (bs_Difficulty s))"
  using assms
proof (induction stats arbitrary: acc)
  case (Cons s stats)
  then have "unat (acc + bs_Difficulty s) = unat acc + unat (bs_Difficulty s)" by (simp add: unat_add_lem [THEN iffD1])
  with Cons show ?case by (simp add: add.assoc)
qed simp

definition raw_difficulty :: "difficulty_config \<Rightarrow> BlockStatistic list \<Rightarrow> nat" where
  "raw_difficulty config stats =
     (\<Sum>s\<leftarrow>stats. unat (bs_Difficulty s)) div length stats * unat (BlockGenerationTargetTime config) * (length stats - 1)
       div (unat (bs_Timestamp (last stats)) - unat (bs_Timestamp (hd stats)))"

definition in_range :: "BlockStatistic \<Rightarrow> bool" where
  "in_range s \<longleftrightarrow> unat (bs_Difficulty s) \<in> {10 ^ 13..10 ^ 15}"

lemma sum_difficulties_le:
  assumes "\<forall>s\<in>set stats. in_range s"
  shows "(\<Sum>s\<leftarrow>stats. unat (bs_Difficulty s)) \<le> length stats * 10 ^ 15"
  using assms
proof (induction stats)
  case (Cons s stats)
  then have "unat (bs_Difficulty s) \<le> 10 ^ 15" by (simp add: in_range_def)
  then show ?case using Cons by simp
qed simp

lemma unat_ucast_up: "unat (ucast (w :: uint64) :: 128 word) = unat w"
proof -
  have "unat w < 2 ^ 64" using unsigned_less [of w, where ?'a = nat] by simp
  then show ?thesis by (simp add: unsigned_ucast_eq take_bit_nat_eq_self)
qed

lemma Clamp_nat: "unat (Clamp w) = min (10 ^ 15) (max (10 ^ 13) (unat w))"
proof -
  have "unat Difficulty_Min_Value = 10 ^ 13" "unat Difficulty_Max_Value = 10 ^ 15"
    by (simp_all add: Difficulty_Min_Value_def Difficulty_Max_Value_def Difficulty_Default_Value_def)
  then show ?thesis by (simp add: Clamp_def word_less_nat_alt min_def max_def)
qed

lemma clamp_twice:
  fixes a b lo hi r :: nat
  assumes "lo \<le> b" "a \<le> hi" "a \<le> b" "lo \<le> hi" "d = min hi (max lo (max a (min b r)))"
  shows "d \<in> {lo..hi}" "d \<in> {a..b}" "r \<in> {lo..hi} \<inter> {a..b} \<longrightarrow> d = r"
  using assms by (auto simp: min_def max_def split: if_splits)

lemma CalculateDifficulty_nat:
  assumes "\<forall>s\<in>set stats. in_range s" "2 \<le> length stats" "length stats \<le> 10000" "bs_Timestamp (hd stats) < bs_Timestamp (last stats)"
    and "unat (BlockGenerationTargetTime config) < 2 ^ 32" "20 * raw_difficulty config stats < 2 ^ 64"
    and "\<forall>x. unat x < 2 ^ 64 \<longrightarrow> convert config x = ucast x"
  shows "\<exists>d. CalculateDifficulty config stats = Inr d
    \<and> unat d = min (10 ^ 15) (max (10 ^ 13) (max (19 * unat (bs_Difficulty (last stats)) div 20)
        (min (21 * unat (bs_Difficulty (last stats)) div 20) (raw_difficulty config stats))))"
proof -
  let ?n = "length stats" and ?sum = "\<Sum>s\<leftarrow>stats. unat (bs_Difficulty s)" and ?l = "bs_Difficulty (last stats)"
    and ?avg = "fold (\<lambda>s acc. acc + bs_Difficulty s) stats 0 div of_nat (length stats)" and ?t = "bs_Timestamp (last stats) - bs_Timestamp (hd stats)"
  have "?sum < 2 ^ 64" using sum_difficulties_le [OF assms(1)] assms(3) by simp
  then have sum: "unat (fold (\<lambda>s acc. acc + bs_Difficulty s) stats 0) = ?sum" using fold_difficulties [of 0 stats] by simp
  have n: "unat (of_nat ?n :: uint64) = ?n" using assms(3) by (simp add: unsigned_of_nat take_bit_nat_eq_self)
  have avg: "unat ?avg = ?sum div ?n" by (simp add: unat_div sum n)
  have "?sum div ?n \<le> ?n * 10 ^ 15 div ?n" by (rule div_le_mono) (rule sum_difficulties_le [OF assms(1)])
  then have avg_le: "?sum div ?n \<le> 10 ^ 15" using assms(2) by (auto split: if_splits)
  have t: "unat ?t = unat (bs_Timestamp (last stats)) - unat (bs_Timestamp (hd stats))" "?t \<noteq> 0"
    using assms(4) by (auto simp: unat_sub less_imp_le)
  let ?large = "(ucast ?avg :: 128 word) * ucast (BlockGenerationTargetTime config) * of_nat (?n - 1)"
  have "?sum div ?n * unat (BlockGenerationTargetTime config) * (?n - 1) \<le> 10 ^ 15 * 2 ^ 32 * 10000"
    using avg_le assms(3,5) by (intro mult_le_mono) simp_all
  then have fits: "?sum div ?n * unat (BlockGenerationTargetTime config) * (?n - 1) < 2 ^ 128" by simp
  have "?large = of_nat (?sum div ?n * unat (BlockGenerationTargetTime config) * (?n - 1))"
    by (simp only: of_nat_mult avg [symmetric]) simp
  then have large: "unat ?large = ?sum div ?n * unat (BlockGenerationTargetTime config) * (?n - 1)"
    using fits by (simp only: unsigned_of_nat) (simp add: take_bit_nat_eq_self)
  have q: "unat (?large div ucast ?t) = raw_difficulty config stats"
    unfolding unat_div large unat_ucast_up t(1) raw_difficulty_def ..
  then have "convert config (?large div ucast ?t) = ucast (?large div ucast ?t)" using assms(6,7) by simp
  then have c: "unat (convert config (?large div ucast ?t)) = raw_difficulty config stats"
    using q assms(6) by (simp add: unsigned_ucast_eq take_bit_nat_eq_self)
  have "last stats \<in> set stats" using assms(2) by (intro last_in_set) auto
  then have l: "unat ?l \<le> 10 ^ 15" using assms(1) by (simp add: in_range_def)
  let ?r = "limit_change ?l (convert config (?large div ucast ?t))"
  have r: "unat ?r = max (19 * unat ?l div 20) (min (21 * unat ?l div 20) (raw_difficulty config stats))"
    using limit_change_nat [OF l, of "convert config (?large div ucast ?t)"] c assms(6) by simp
  have two: "\<not> length stats < 2" using assms(2) by simp
  have "CalculateDifficulty config stats = Inr (Clamp ?r)" unfolding CalculateDifficulty_def Let_def if_not_P [OF two] if_not_P [OF t(2)] ..
  moreover have "unat (Clamp ?r) = min (10 ^ 15) (max (10 ^ 13) (max (19 * unat ?l div 20) (min (21 * unat ?l div 20) (raw_difficulty config stats))))"
    unfolding Clamp_nat r ..
  ultimately show ?thesis by blast
qed


subsection \<open>The sliding window\<close>

definition last_n :: "nat \<Rightarrow> 'a list \<Rightarrow> 'a list" where
  "last_n n xs = drop (length xs - n) xs"

lemma last_n_snoc: "0 < n \<Longrightarrow> last_n n (xs @ [x]) = (if length (last_n n xs @ [x]) > n then tl (last_n n xs @ [x]) else last_n n xs @ [x])"
  by (auto simp: last_n_def drop_Suc tl_drop Suc_diff_le)

text \<open>Consecutive heights that do not wrap.\<close>

definition consecutive :: "Height \<Rightarrow> BlockStatistic list \<Rightarrow> bool" where
  "consecutive h stats \<longleftrightarrow> h \<noteq> 0 \<and> unat h + length stats < 2 ^ 64 \<and> (\<forall>i < length stats. bs_Height (stats ! i) = h + of_nat i)"

abbreviation by_height :: "BlockStatistic list \<Rightarrow> StatisticSet" where
  "by_height stats \<equiv> map (\<lambda>s. (bs_Height s, s)) stats"

lemma consecutive_height:
  assumes "consecutive h stats" "i < length stats"
  shows "unat (bs_Height (stats ! i)) = unat h + i"
proof -
  have "h + of_nat i = of_nat (unat h + i)" by simp
  moreover have "unat h + i < 2 ^ 64" using assms by (simp add: consecutive_def)
  ultimately show ?thesis using assms by (simp only: consecutive_def unsigned_of_nat) (simp add: take_bit_nat_eq_self unsigned_of_nat)
qed

lemma consecutive_snoc:
  "consecutive h (stats @ [s]) \<longleftrightarrow> consecutive h stats \<and> bs_Height s = h + of_nat (length stats) \<and> unat h + Suc (length stats) < 2 ^ 64"
  by (auto simp: consecutive_def nth_append less_Suc_eq)

lemma consecutive_prefix:
  assumes "consecutive h (xs @ ys)"
  shows "consecutive h xs"
  unfolding consecutive_def
proof (intro conjI allI impI)
  show "h \<noteq> 0" "unat h + length xs < 2 ^ 64" using assms by (auto simp: consecutive_def)
  show "bs_Height (xs ! i) = h + of_nat i" if "i < length xs" for i
    using assms that unfolding consecutive_def by (metis length_append nth_append trans_less_add1)
qed

lemma consecutive_sorted:
  assumes "consecutive h stats"
  shows "sorted_wrt (<) (map bs_Height stats)"
  unfolding sorted_wrt_iff_nth_less using consecutive_height [OF assms] by (simp add: word_less_nat_alt)

lemma statistics_last_n:
  assumes "consecutive h stats" "stats \<noteq> []" "height = bs_Height (last stats)" "count \<noteq> 0"
  shows "statistics (by_height stats) height count = Inr (last_n (unat count) stats)"
proof -
  let ?n = "length stats"
  have h0: "bs_Height (stats ! 0) = h" and hd: "hd stats = stats ! 0" and l: "last stats = stats ! (?n - 1)"
    using assms(1,2) by (auto simp: consecutive_def hd_conv_nth last_conv_nth)
  have n: "0 < ?n" "unat h + ?n < 2 ^ 64" "h \<noteq> 0" using assms(1,2) by (auto simp: consecutive_def)
  have height: "unat height = unat h + (?n - 1)" unfolding assms(3) l by (rule consecutive_height [OF assms(1)]) (use n(1) in simp)
  have diff: "unat (height - h) = ?n - 1" using height by (subst unat_sub) (auto simp: word_le_nat_alt)
  have c1: "unat (count - 1) = unat count - 1" using assms(4) by (subst unat_sub) (auto simp: word_le_nat_alt Suc_le_eq unat_gt_0)
  define first where "first = (if height - h < count - 1 then h else height - (count - 1))"
  have first: "unat first = unat h + (?n - unat count)"
  proof (cases "height - h < count - 1")
    case True
    then show ?thesis using diff c1 by (auto simp: first_def word_less_nat_alt)
  next
    case False
    then have "unat count - 1 \<le> ?n - 1" using diff c1 by (simp add: word_less_nat_alt)
    moreover have "0 < unat count" using assms(4) by (simp add: unat_gt_0)
    ultimately have count: "0 < unat count" "unat count \<le> ?n" using n(1) by arith+
    have "count - 1 \<le> height" unfolding word_le_nat_alt c1 height using count by arith
    then have "unat (height - (count - 1)) = unat h + (?n - 1) - (unat count - 1)" by (simp only: unat_sub c1 height)
    then show ?thesis using False count by (simp add: first_def)
  qed
  have mem: "smap_contains (by_height stats) (bs_Height (stats ! i))" if "i < ?n" for i
    using that by (auto simp: smap_contains_def smap_find_def map_of_eq_None_iff image_iff intro!: bexI [of _ "stats ! i"])
  have "first = bs_Height (stats ! (?n - unat count))"
    unfolding word_unat_eq_iff [of first] first by (rule sym, rule consecutive_height [OF assms(1)]) (use n(1) assms(4) in \<open>simp add: unat_gt_0\<close>)
  then have firstIn: "smap_contains (by_height stats) first" using mem [of "?n - unat count"] n(1) assms(4) by (simp add: unat_gt_0)
  have "filter (\<lambda>s. first \<le> bs_Height s \<and> bs_Height s \<le> height) stats = last_n (unat count) stats"
  proof -
    have "filter (\<lambda>s. first \<le> bs_Height s \<and> bs_Height s \<le> height) (take (?n - unat count) stats) = []"
      using consecutive_height [OF assms(1)] first by (auto simp: filter_empty_conv in_set_conv_nth word_le_nat_alt)
    moreover have "filter (\<lambda>s. first \<le> bs_Height s \<and> bs_Height s \<le> height) (drop (?n - unat count) stats) = drop (?n - unat count) stats"
      using consecutive_height [OF assms(1)] first height by (auto simp: filter_id_conv in_set_conv_nth word_le_nat_alt)
    ultimately show ?thesis
      using filter_append [of "\<lambda>s. first \<le> bs_Height s \<and> bs_Height s \<le> height" "take (?n - unat count) stats" "drop (?n - unat count) stats"]
      unfolding last_n_def by simp
  qed
  moreover have "0 < unat height" unfolding height using n(3) by (simp add: unat_gt_0)
  then have "height \<noteq> 0" by auto
  moreover have "smap_contains (by_height stats) height" using mem [of "?n - 1"] n(1) l assms(3) by simp
  ultimately show ?thesis
    using assms(2,4) firstIn hd h0 unfolding first_def
    by (simp add: statistics_def Let_def filter_map o_def case_prod_beta hd_map)
qed


lemma by_height_range:
  assumes "consecutive h stats"
  shows "smap_insert_range (by_height (last_n n stats)) smap_empty = by_height (last_n n stats)"
proof -
  have sorted: "sorted_wrt (<) (map bs_Height (last_n n stats))" using consecutive_sorted [OF assms] by (simp add: last_n_def drop_map [symmetric] sorted_wrt_drop)
  have "fold (\<lambda>(k, v). smap_insert k v) (by_height ys) (by_height xs) = by_height (xs @ ys)" if "sorted_wrt (<) (map bs_Height (xs @ ys))" for xs ys
    using that
  proof (induction ys arbitrary: xs)
    case (Cons y ys)
    have before: "\<forall>x\<in>set xs. bs_Height x < bs_Height y" and inv: "smap_inv (by_height xs)"
      using Cons.prems by (auto simp: sorted_wrt_append smap_inv_def o_def)
    have "\<not> smap_contains (by_height xs) (bs_Height y)" using before by (auto simp: smap_contains_def smap_find_def map_of_eq_None_iff)
    moreover have "smap_put (bs_Height y) y (by_height xs) = by_height (xs @ [y])" using smap_put_last [OF inv] before by (simp add: last_map)
    ultimately have "smap_insert (bs_Height y) y (by_height xs) = by_height (xs @ [y])" by (simp add: smap_insert_def)
    then show ?case using Cons.IH [of "xs @ [y]"] Cons.prems by simp
  qed simp
  from this [of "[]"] sorted show ?thesis by (simp add: smap_insert_range_def smap_empty_def)
qed

text \<open>The difficulty that the next block of a chain must have.\<close>

definition next_difficulty :: "difficulty_config \<Rightarrow> BlockStatistic list \<Rightarrow> exn + uint64" where
  "next_difficulty config chain = CalculateDifficulty config (last_n (unat (MaxDifficultyBlocks config)) chain)"

lemma check_loop_window:
  assumes "consecutive h (chain @ map block_statistic blocks)" "MaxDifficultyBlocks config \<noteq> 0"
    and "\<forall>k \<le> length blocks. \<exists>d. next_difficulty config (chain @ map block_statistic (take k blocks)) = Inr d"
    and "next_difficulty config chain = Inr difficulty"
  shows "\<exists>i \<le> length blocks. check_loop config (by_height (last_n (unat (MaxDifficultyBlocks config)) chain)) difficulty i0 blocks = Inr (i0 + i)
    \<and> (\<forall>j < i. next_difficulty config (chain @ map block_statistic (take j blocks)) = Inr (b_Difficulty (blocks ! j)))
    \<and> (i < length blocks \<longrightarrow> next_difficulty config (chain @ map block_statistic (take i blocks)) \<noteq> Inr (b_Difficulty (blocks ! i)))"
  using assms(1,3,4)
proof (induction blocks arbitrary: chain difficulty i0)
  case (Cons b blocks)
  let ?m = "unat (MaxDifficultyBlocks config)" and ?s = "block_statistic b"
  have chain: "consecutive h ((chain @ [?s]) @ map block_statistic blocks)" using Cons.prems(1) by simp
  show ?case
  proof (cases "difficulty = b_Difficulty b")
    case False
    then show ?thesis using Cons.prems(3) by (intro exI [of _ 0]) simp
  next
    case True
    have "consecutive h (chain @ [?s])" by (rule consecutive_prefix [OF chain])
    then have c: "consecutive h chain" "bs_Height ?s = h + of_nat (length chain)" by (auto simp: consecutive_snoc)
    have snoc: "sorted_wrt (<) (map bs_Height (chain @ [?s]))" by (rule consecutive_sorted [OF \<open>consecutive h (chain @ [?s])\<close>])
    let ?w = "last_n ?m chain"
    have before: "\<forall>x\<in>set ?w. bs_Height x < bs_Height ?s" using snoc by (auto simp: sorted_wrt_append last_n_def dest: in_set_dropD)
    have inv: "smap_inv (by_height ?w)"
      using consecutive_sorted [OF c(1)] by (simp add: smap_inv_def o_def last_n_def drop_map [symmetric] sorted_wrt_drop)
    have "\<not> smap_contains (by_height ?w) (b_Height b)" using before by (auto simp: smap_contains_def smap_find_def map_of_eq_None_iff block_statistic_def)
    moreover have "smap_put (b_Height b) ?s (by_height ?w) = by_height (?w @ [?s])"
      using smap_put_last [OF inv, of "b_Height b" ?s] before by (simp add: last_map block_statistic_def)
    ultimately have insert: "smap_insert (b_Height b) ?s (by_height ?w) = by_height (?w @ [?s])" by (simp add: smap_insert_def)
    have m: "0 < ?m" using assms(2) by (simp add: unat_gt_0)
    have window: "(if smap_size (by_height (?w @ [?s])) > ?m then tl (by_height (?w @ [?s])) else by_height (?w @ [?s])) = by_height (last_n ?m (chain @ [?s]))"
      unfolding last_n_snoc [OF m] by (simp add: smap_size_def map_tl)
    obtain d where d: "next_difficulty config (chain @ [?s]) = Inr d" using Cons.prems(2) [rule_format, of 1] by auto
    have rest: "\<forall>k \<le> length blocks. \<exists>d. next_difficulty config ((chain @ [?s]) @ map block_statistic (take k blocks)) = Inr d"
    proof (intro allI impI)
      fix k
      assume "k \<le> length blocks"
      then show "\<exists>d. next_difficulty config ((chain @ [?s]) @ map block_statistic (take k blocks)) = Inr d" using Cons.prems(2) [rule_format, of "Suc k"] by simp
    qed
    obtain i where i: "i \<le> length blocks" "check_loop config (by_height (last_n ?m (chain @ [?s]))) d (Suc i0) blocks = Inr (Suc i0 + i)"
        "\<forall>j < i. next_difficulty config ((chain @ [?s]) @ map block_statistic (take j blocks)) = Inr (b_Difficulty (blocks ! j))"
        "i < length blocks \<longrightarrow> next_difficulty config ((chain @ [?s]) @ map block_statistic (take i blocks)) \<noteq> Inr (b_Difficulty (blocks ! i))"
      using Cons.IH [OF chain rest d, of "Suc i0"] by blast
    have "check_loop config (by_height ?w) difficulty i0 (b # blocks)
        = rbind (next_difficulty config (chain @ [?s])) (\<lambda>d. check_loop config (by_height (last_n ?m (chain @ [?s]))) d (i0 + 1) blocks)"
      unfolding check_loop.simps Let_def insert window using True by (simp add: next_difficulty_def o_def)
    then have "check_loop config (by_height ?w) difficulty i0 (b # blocks) = Inr (i0 + Suc i)" using d i(2) by simp
    moreover have "\<forall>j < Suc i. next_difficulty config (chain @ map block_statistic (take j (b # blocks))) = Inr (b_Difficulty ((b # blocks) ! j))"
      using i(3) True Cons.prems(3) by (auto simp: less_Suc_eq_0_disj)
    ultimately show ?thesis using i(1,4) by (intro exI [of _ "Suc i"]) simp
  qed
qed simp


lemma next_difficulty_total:
  assumes "sorted_wrt (<) (map bs_Timestamp chain)"
  shows "\<exists>d. next_difficulty config chain = Inr d"
proof -
  let ?w = "last_n (unat (MaxDifficultyBlocks config)) chain"
  have sorted: "sorted_wrt (<) (map bs_Timestamp ?w)" using assms by (simp add: last_n_def drop_map [symmetric] sorted_wrt_drop)
  have "bs_Timestamp (last ?w) - bs_Timestamp (hd ?w) \<noteq> 0" if "\<not> length ?w < 2"
  proof -
    have "?w \<noteq> []" "0 < length ?w - 1" using that by auto
    then have "bs_Timestamp (hd ?w) < bs_Timestamp (last ?w)"
      using sorted_wrt_nth_less [OF sorted, of 0 "length ?w - 1"] by (simp add: hd_conv_nth last_conv_nth)
    then show ?thesis by simp
  qed
  then show ?thesis unfolding next_difficulty_def CalculateDifficulty_def Let_def by simp
qed

subsection \<open>Properties\<close>

text \<open>
  C21. Difficulties change slowly and stay in range. From two up to ten thousand statistics with difficulties in range and a first timestamp before the last, with a
  target time below fifty days and blocks that are not so fast that twenty times the scaled average leaves 64 bits, the calculation does not
  overflow anywhere: it returns a difficulty that is in range and between 95 and 105 percent of the last one (rounded down), and if the scaled average
  itself is within these limits then it is the result.
\<close>

theorem difficulty_change_bounded:
  fixes config stats
  defines "l \<equiv> unat (bs_Difficulty (last stats))"
  assumes "\<forall>s\<in>set stats. in_range s" "2 \<le> length stats" "length stats \<le> 10000" "bs_Timestamp (hd stats) < bs_Timestamp (last stats)"
    and "unat (BlockGenerationTargetTime config) < 2 ^ 32" "20 * raw_difficulty config stats < 2 ^ 64"
    and "\<forall>x. unat x < 2 ^ 64 \<longrightarrow> convert config x = ucast x"
  shows "\<exists>d. CalculateDifficulty config stats = Inr d \<and> unat d \<in> {10 ^ 13..10 ^ 15} \<and> unat d \<in> {19 * l div 20..21 * l div 20}
    \<and> (raw_difficulty config stats \<in> {10 ^ 13..10 ^ 15} \<inter> {19 * l div 20..21 * l div 20} \<longrightarrow> unat d = raw_difficulty config stats)"
proof -
  have "last stats \<in> set stats" using assms(3) by (intro last_in_set) auto
  then have l: "10 ^ 13 \<le> l" "l \<le> 10 ^ 15" using assms(2) by (auto simp: in_range_def l_def)
  then have le: "10 ^ 13 \<le> 21 * l div 20" "19 * l div 20 \<le> 10 ^ 15" "19 * l div 20 \<le> 21 * l div 20" "(10 :: nat) ^ 13 \<le> 10 ^ 15"
    by (simp_all add: div_le_mono less_eq_div_iff_mult_less_eq)
  obtain d where d: "CalculateDifficulty config stats = Inr d"
      "unat d = min (10 ^ 15) (max (10 ^ 13) (max (19 * l div 20) (min (21 * l div 20) (raw_difficulty config stats))))"
    using CalculateDifficulty_nat [OF assms(2-8)] unfolding l_def by blast
  show ?thesis using d(1) clamp_twice [OF le d(2)] by blast
qed

text \<open>
  C20. Checking difficulties with a sliding window finds the first wrong block. Take a chain whose statistics are in the cache and blocks that continue it with consecutive heights and
  growing timestamps. The check does not throw. It returns how many leading blocks have the difficulty that is calculated from the last
  blocks of the whole chain before them; if this is not all of them, then the next block has a different one.
\<close>

theorem check_difficulties_finds_first_wrong:
  assumes "consecutive h (chain @ map block_statistic blocks)" "chain \<noteq> []" "MaxDifficultyBlocks config \<noteq> 0"
    and "sorted_wrt (<) (map bs_Timestamp (chain @ map block_statistic blocks))"
  shows "\<exists>i \<le> length blocks. CheckDifficulties config (by_height chain) blocks = Inr i
    \<and> (\<forall>j < i. next_difficulty config (chain @ map block_statistic (take j blocks)) = Inr (b_Difficulty (blocks ! j)))
    \<and> (i < length blocks \<longrightarrow> next_difficulty config (chain @ map block_statistic (take i blocks)) \<noteq> Inr (b_Difficulty (blocks ! i)))"
proof (cases blocks)
  case (Cons b bs)
  let ?m = "MaxDifficultyBlocks config"
  have total: "\<exists>d. next_difficulty config (chain @ map block_statistic (take k blocks)) = Inr d" for k
  proof (rule next_difficulty_total)
    show "sorted_wrt (<) (map bs_Timestamp (chain @ map block_statistic (take k blocks)))"
      using sorted_wrt_take [OF assms(4), of "length chain + k"] by (simp add: take_map)
  qed
  obtain difficulty where d: "next_difficulty config chain = Inr difficulty" using total [of 0] by auto
  have c: "consecutive h chain" by (rule consecutive_prefix [OF assms(1)])
  have "consecutive h (chain @ [block_statistic b])" using consecutive_prefix [of h "chain @ [block_statistic b]" "map block_statistic bs"] assms(1) Cons by simp
  then have "b_Height b = h + of_nat (length chain)" by (simp add: consecutive_snoc block_statistic_def)
  moreover have "bs_Height (last chain) = h + of_nat (length chain - 1)" using c assms(2) by (simp add: consecutive_def last_conv_nth)
  ultimately have height: "b_Height (hd blocks) - 1 = bs_Height (last chain)" using assms(2) Cons by (cases chain) (simp_all add: algebra_simps)
  have m: "unat (ucast ?m :: size_t) = unat ?m" "(ucast ?m :: size_t) \<noteq> 0"
  proof -
    have "unat ?m < 2 ^ 32" using unsigned_less [of ?m, where ?'a = nat] by simp
    then show u: "unat (ucast ?m :: size_t) = unat ?m" by (simp add: unsigned_ucast_eq take_bit_nat_eq_self)
    then show "(ucast ?m :: size_t) \<noteq> 0" using assms(3) by (metis unat_0 unat_eq_0)
  qed
  have "LoadDifficulties config (by_height chain) (b_Height (hd blocks) - 1) = Inr (by_height (last_n (unat ?m) chain))"
    using statistics_last_n [OF c assms(2) height m(2)] by_height_range [OF c] by (simp add: LoadDifficulties_def m(1))
  then have "CheckDifficulties config (by_height chain) blocks = check_loop config (by_height (last_n (unat ?m) chain)) difficulty 0 blocks"
    using d Cons by (simp add: CheckDifficulties_def next_difficulty_def o_def)
  then show ?thesis using check_loop_window [OF assms(1,3) _ d, of 0] total by simp
qed (simp add: CheckDifficulties_def)


text \<open>Three blocks that took the target time of fifteen seconds, and two that follow them.\<close>

definition example_stat :: "Height \<Rightarrow> uint64 \<Rightarrow> BlockStatistic" where
  "example_stat height timestamp = \<lparr>bs_Height = height, bs_Timestamp = timestamp, bs_Difficulty = 100000000000000, bs_FeeMultiplier = 0\<rparr>"

definition example_chain :: "BlockStatistic list" where
  "example_chain = [example_stat 1 1000, example_stat 2 16000, example_stat 3 31000]"

definition example_difficulty :: difficulty_config where
  "example_difficulty = \<lparr>BlockGenerationTargetTime = 15000, MaxDifficultyBlocks = 3, convert = ucast\<rparr>"

definition example_block :: "Height \<Rightarrow> uint64 \<Rightarrow> uint64 \<Rightarrow> Block" where
  "example_block height timestamp difficulty =
     \<lparr>b_Height = height, b_Timestamp = timestamp, b_Difficulty = difficulty, b_FeeMultiplier = 0, b_PreviousBlockHash = 0\<rparr>"

theorem difficulty_change_bounded_witness: "\<exists>d. CalculateDifficulty example_difficulty example_chain = Inr d \<and> unat d = 10 ^ 14"
proof -
  have raw: "raw_difficulty example_difficulty example_chain = 10 ^ 14"
    by (simp add: raw_difficulty_def example_difficulty_def example_chain_def example_stat_def)
  have l: "unat (bs_Difficulty (last example_chain)) = 10 ^ 14" by (simp add: example_chain_def example_stat_def)
  have "\<exists>d. CalculateDifficulty example_difficulty example_chain = Inr d \<and> unat d \<in> {10 ^ 13..10 ^ 15}
      \<and> unat d \<in> {19 * unat (bs_Difficulty (last example_chain)) div 20..21 * unat (bs_Difficulty (last example_chain)) div 20}
      \<and> (raw_difficulty example_difficulty example_chain \<in> {10 ^ 13..10 ^ 15} \<inter> {19 * unat (bs_Difficulty (last example_chain)) div 20..21 * unat (bs_Difficulty (last example_chain)) div 20}
        \<longrightarrow> unat d = raw_difficulty example_difficulty example_chain)"
  proof (rule difficulty_change_bounded)
    show "\<forall>s\<in>set example_chain. in_range s" by (simp add: example_chain_def example_stat_def in_range_def)
    show "2 \<le> length example_chain" "length example_chain \<le> 10000" by (simp_all add: example_chain_def)
    show "bs_Timestamp (hd example_chain) < bs_Timestamp (last example_chain)" by (simp add: example_chain_def example_stat_def)
    show "unat (BlockGenerationTargetTime example_difficulty) < 2 ^ 32" by (simp add: example_difficulty_def)
    show "20 * raw_difficulty example_difficulty example_chain < 2 ^ 64" by (simp add: raw)
    show "\<forall>x. unat x < 2 ^ 64 \<longrightarrow> convert example_difficulty x = ucast x" by (simp add: example_difficulty_def)
  qed
  then show ?thesis unfolding raw l by auto
qed

theorem check_difficulties_finds_first_wrong_witness:
  "\<exists>i. CheckDifficulties example_difficulty (by_height example_chain) [example_block 4 46000 100000000000000, example_block 5 47000 100000000000001] = Inr i \<and> i = 1
    \<and> next_difficulty example_difficulty (example_chain @ [block_statistic (example_block 4 46000 100000000000000)]) \<noteq> Inr 100000000000001"
proof -
  let ?blocks = "[example_block 4 46000 100000000000000, example_block 5 47000 100000000000001]"
  have one: "CheckDifficulties example_difficulty (by_height example_chain) ?blocks = Inr 1" by code_simp
  have "consecutive 1 ((((([] @ [example_stat 1 1000]) @ [example_stat 2 16000]) @ [example_stat 3 31000])
      @ [block_statistic (example_block 4 46000 100000000000000)]) @ [block_statistic (example_block 5 47000 100000000000001)])"
    unfolding consecutive_snoc by (simp add: consecutive_def example_stat_def example_block_def block_statistic_def)
  then have "consecutive 1 (example_chain @ map block_statistic ?blocks)" by (simp add: example_chain_def)
  moreover have "sorted_wrt (<) (map bs_Timestamp (example_chain @ map block_statistic ?blocks))"
    by (simp add: example_chain_def example_stat_def example_block_def block_statistic_def)
  moreover have "example_chain \<noteq> []" "MaxDifficultyBlocks example_difficulty \<noteq> 0" by (simp_all add: example_chain_def example_difficulty_def)
  ultimately show ?thesis using check_difficulties_finds_first_wrong [of 1 example_chain ?blocks example_difficulty] one by (auto simp: example_block_def)
qed

end
