(* ===== verification/RoundContext.thy ===== *)
theory RoundContext
  imports StlMap "HOL-Library.Product_Lexorder"
begin

section \<open>Votes of a finalization round (finalization/src/chain)\<close>

text \<open>
  Blocks are finalized by votes of accounts, weighted by their balances. In each round an account sends a prevote, the hashes of a part of its chain, and
  a precommit, a single hash. \<open>FinalizationHashTree\<close> collects the chains of the prevotes, \<open>RoundContext\<close> the weights of
  the candidates: a prevote counts for each of its hashes and a precommit for its hash and all its ancestors in the tree, as soon as a prevote has
  brought the hash.

  Nodes of the tree are never removed or moved, so that the pointer to a parent is the key of the parent. Following these pointers is a recursion
  with the number of nodes as fuel; \<open>None\<close> stands for a loop that did not end by then, and for the
  use of an iterator of a missing candidate. The invariant of this theory excludes both. Candidates are ordered by height and then hash,
  which is the lexicographic order of pairs. The loops over the hashes of a prevote have an index of 32 bits in the source; the number
  of hashes of a message is a 32 bit field, so that the recursion over the list is the same.
\<close>

subsection \<open>The hash tree\<close>

type_synonym HeightHashPair = "Height \<times> Hash256"

type_synonym FinalizationHashTree = "(HeightHashPair, HeightHashPair option) smap"

definition ht_contains :: "FinalizationHashTree \<Rightarrow> HeightHashPair \<Rightarrow> bool" where
  "ht_contains t key \<longleftrightarrow> smap_contains t key"

definition tryFindNode :: "FinalizationHashTree \<Rightarrow> HeightHashPair \<Rightarrow> HeightHashPair option" where
  "tryFindNode t key = (if smap_contains t key then Some key else None)"

fun isDescendant_loop :: "nat \<Rightarrow> FinalizationHashTree \<Rightarrow> HeightHashPair \<Rightarrow> HeightHashPair option \<Rightarrow> bool option" where
  "isDescendant_loop n t parentKey None = Some False"
| "isDescendant_loop 0 t parentKey (Some node) = None"
| "isDescendant_loop (Suc n) t parentKey (Some node) =
     (if node = parentKey then Some True
      else case smap_find t node of None \<Rightarrow> None | Some pParent \<Rightarrow> isDescendant_loop n t parentKey pParent)"

definition ht_isDescendant :: "FinalizationHashTree \<Rightarrow> HeightHashPair \<Rightarrow> HeightHashPair \<Rightarrow> bool option" where
  "ht_isDescendant t parentKey childKey = isDescendant_loop (smap_size t) t parentKey (tryFindNode t childKey)"

fun findAncestors_loop :: "nat \<Rightarrow> FinalizationHashTree \<Rightarrow> HeightHashPair option \<Rightarrow> HeightHashPair list option" where
  "findAncestors_loop n t None = Some []"
| "findAncestors_loop 0 t (Some node) = None"
| "findAncestors_loop (Suc n) t (Some node) =
     (case smap_find t node of None \<Rightarrow> None | Some pParent \<Rightarrow> map_option (\<lambda>ancestors. node # ancestors) (findAncestors_loop n t pParent))"

definition findAncestors :: "FinalizationHashTree \<Rightarrow> HeightHashPair \<Rightarrow> HeightHashPair list option" where
  "findAncestors t key = findAncestors_loop (smap_size t) t (tryFindNode t key)"

fun addBranch_loop :: "HeightHashPair option \<Rightarrow> Height \<Rightarrow> Hash256 list \<Rightarrow> FinalizationHashTree \<Rightarrow> FinalizationHashTree" where
  "addBranch_loop pParent height [] t = t"
| "addBranch_loop pParent height (hash # hashes) t =
     addBranch_loop (Some (height, hash)) (height + 1) hashes (smap_insert (height, hash) pParent t)"

definition addBranch :: "Height \<Rightarrow> Hash256 list \<Rightarrow> FinalizationHashTree \<Rightarrow> FinalizationHashTree" where
  "addBranch height hashes t = addBranch_loop None height hashes t"

subsection \<open>The round context\<close>

record Weights =
  Prevote :: uint64
  Precommit :: uint64

definition new_Weights :: Weights where
  "new_Weights = \<lparr>Prevote = 0, Precommit = 0\<rparr>"

record RoundContext =
  rc_totalWeight :: uint64
  rc_threshold :: uint64
  rc_cumulativePrecommitWeight :: uint64
  rc_tree :: FinalizationHashTree
  rc_candidates :: "(HeightHashPair, Weights) smap"
  rc_pendingPrecommitWeights :: "(HeightHashPair, uint64) smap"

definition new_RoundContext :: "uint64 \<Rightarrow> uint64 \<Rightarrow> RoundContext" where
  "new_RoundContext weight threshold =
     \<lparr>rc_totalWeight = weight, rc_threshold = threshold, rc_cumulativePrecommitWeight = 0,
      rc_tree = smap_empty, rc_candidates = smap_empty, rc_pendingPrecommitWeights = smap_empty\<rparr>"

definition rc_size :: "RoundContext \<Rightarrow> nat" where
  "rc_size rc = smap_size (rc_candidates rc)"

definition rc_weights :: "RoundContext \<Rightarrow> HeightHashPair \<Rightarrow> Weights" where
  "rc_weights rc key = (case smap_find (rc_candidates rc) key of None \<Rightarrow> new_Weights | Some weights \<Rightarrow> weights)"

definition canReachPrecommitThreshold :: "RoundContext \<Rightarrow> Weights \<Rightarrow> bool" where
  "canReachPrecommitThreshold rc weights \<longleftrightarrow>
     Precommit weights + (rc_totalWeight rc - rc_cumulativePrecommitWeight rc) \<ge> rc_threshold rc"

text \<open>The search runs backwards; its predicate may fail to return.\<close>

fun find_last :: "(HeightHashPair \<Rightarrow> Weights \<Rightarrow> bool option) \<Rightarrow> (HeightHashPair \<times> Weights) list \<Rightarrow> HeightHashPair option option" where
  "find_last predicate [] = Some None"
| "find_last predicate ((key, weights) # rest) =
     (case predicate key weights of None \<Rightarrow> None | Some b \<Rightarrow> if b then Some (Some key) else find_last predicate rest)"

definition tryFindLastMatch :: "RoundContext \<Rightarrow> (HeightHashPair \<Rightarrow> Weights \<Rightarrow> bool option) \<Rightarrow> HeightHashPair option option" where
  "tryFindLastMatch rc predicate = find_last predicate (rev (rc_candidates rc))"

definition tryFindBestPrevote :: "RoundContext \<Rightarrow> HeightHashPair option option" where
  "tryFindBestPrevote rc = tryFindLastMatch rc (\<lambda>_ weights. Some (Prevote weights \<ge> rc_threshold rc))"

definition tryFindBestPrecommit :: "RoundContext \<Rightarrow> HeightHashPair option option" where
  "tryFindBestPrecommit rc =
     tryFindLastMatch rc (\<lambda>_ weights. Some (Prevote weights \<ge> rc_threshold rc \<and> Precommit weights \<ge> rc_threshold rc))"

definition tryFindEstimate_from :: "RoundContext \<Rightarrow> HeightHashPair \<Rightarrow> HeightHashPair option option" where
  "tryFindEstimate_from rc bestPrevote =
     tryFindLastMatch rc (\<lambda>key weights. map_option (\<lambda>d. d \<and> canReachPrecommitThreshold rc weights) (ht_isDescendant (rc_tree rc) key bestPrevote))"

definition tryFindEstimate :: "RoundContext \<Rightarrow> HeightHashPair option option" where
  "tryFindEstimate rc =
     (case tryFindBestPrevote rc of
        None \<Rightarrow> None
      | Some None \<Rightarrow> Some None
      | Some (Some bestPrevote) \<Rightarrow> tryFindEstimate_from rc bestPrevote)"

definition rc_isDescendant :: "RoundContext \<Rightarrow> HeightHashPair \<Rightarrow> HeightHashPair \<Rightarrow> bool option" where
  "rc_isDescendant rc parentKey childKey = ht_isDescendant (rc_tree rc) parentKey childKey"

fun completable_loop :: "RoundContext \<Rightarrow> HeightHashPair \<Rightarrow> (HeightHashPair \<times> Weights) list \<Rightarrow> bool option" where
  "completable_loop rc bestPrevote [] = Some True"
| "completable_loop rc bestPrevote ((key, weights) # rest) =
     (if bestPrevote = key then completable_loop rc bestPrevote rest
      else
        case ht_isDescendant (rc_tree rc) bestPrevote key of
          None \<Rightarrow> None
        | Some d \<Rightarrow> if d \<and> canReachPrecommitThreshold rc weights then Some False else completable_loop rc bestPrevote rest)"

definition isCompletable :: "RoundContext \<Rightarrow> bool option" where
  "isCompletable rc =
     (case tryFindBestPrevote rc of
        None \<Rightarrow> None
      | Some None \<Rightarrow> Some False
      | Some (Some bestPrevote) \<Rightarrow>
          (case tryFindEstimate_from rc bestPrevote of
             None \<Rightarrow> None
           | Some estimate \<Rightarrow>
               if estimate \<noteq> None \<and> Some bestPrevote \<noteq> estimate then Some True
               else if canReachPrecommitThreshold rc new_Weights then Some False
               else completable_loop rc bestPrevote (rev (rc_candidates rc))))"

text \<open>\<open>m_candidates.find(ancestorKey)->second.Precommit += weight\<close> for a list of keys.\<close>

fun add_precommits :: "uint64 \<Rightarrow> HeightHashPair list \<Rightarrow> (HeightHashPair, Weights) smap \<Rightarrow> (HeightHashPair, Weights) smap option" where
  "add_precommits weight [] candidates = Some candidates"
| "add_precommits weight (key # keys) candidates =
     (case smap_find candidates key of
        None \<Rightarrow> None
      | Some weights \<Rightarrow> add_precommits weight keys (smap_put key (weights\<lparr>Precommit := Precommit weights + weight\<rparr>) candidates))"

definition accept_key :: "HeightHashPair \<Rightarrow> uint64 \<Rightarrow> RoundContext \<Rightarrow> RoundContext option" where
  "accept_key key weight rc =
     (let candidates = smap_insert key new_Weights (rc_candidates rc);
          weights = (case smap_find candidates key of None \<Rightarrow> new_Weights | Some weights \<Rightarrow> weights);
          candidates = smap_put key (weights\<lparr>Prevote := Prevote weights + weight\<rparr>) candidates
      in case smap_find (rc_pendingPrecommitWeights rc) key of
           None \<Rightarrow> Some (rc\<lparr>rc_candidates := candidates\<rparr>)
         | Some pending \<Rightarrow>
             (case findAncestors (rc_tree rc) key of
                None \<Rightarrow> None
              | Some ancestorKeys \<Rightarrow>
                  (case add_precommits pending ancestorKeys candidates of
                     None \<Rightarrow> None
                   | Some candidates \<Rightarrow>
                       Some (rc\<lparr>rc_candidates := candidates,
                         rc_cumulativePrecommitWeight := rc_cumulativePrecommitWeight rc + pending,
                         rc_pendingPrecommitWeights := smap_erase key (rc_pendingPrecommitWeights rc)\<rparr>))))"

fun acceptPrevote_loop :: "Height \<Rightarrow> Hash256 list \<Rightarrow> uint64 \<Rightarrow> RoundContext \<Rightarrow> RoundContext option" where
  "acceptPrevote_loop height [] weight rc = Some rc"
| "acceptPrevote_loop height (hash # hashes) weight rc =
     Option.bind (accept_key (height, hash) weight rc) (acceptPrevote_loop (height + 1) hashes weight)"

definition acceptPrevote :: "Height \<Rightarrow> Hash256 list \<Rightarrow> uint64 \<Rightarrow> RoundContext \<Rightarrow> RoundContext option" where
  "acceptPrevote height hashes weight rc =
     acceptPrevote_loop height hashes weight (rc\<lparr>rc_tree := addBranch height hashes (rc_tree rc)\<rparr>)"

definition acceptPrecommit :: "Height \<Rightarrow> Hash256 \<Rightarrow> uint64 \<Rightarrow> RoundContext \<Rightarrow> RoundContext option" where
  "acceptPrecommit height hash weight rc =
     (let key = (height, hash)
      in case findAncestors (rc_tree rc) key of
           None \<Rightarrow> None
         | Some ancestorKeys \<Rightarrow>
             if ancestorKeys = [] then
               let pending = smap_insert key 0 (rc_pendingPrecommitWeights rc);
                   pendingWeight = (case smap_find pending key of None \<Rightarrow> 0 | Some pendingWeight \<Rightarrow> pendingWeight)
               in Some (rc\<lparr>rc_pendingPrecommitWeights := smap_put key (pendingWeight + weight) pending\<rparr>)
             else
               (case add_precommits weight ancestorKeys (rc_candidates rc) of
                  None \<Rightarrow> None
                | Some candidates \<Rightarrow>
                    Some (rc\<lparr>rc_candidates := candidates, rc_cumulativePrecommitWeight := rc_cumulativePrecommitWeight rc + weight\<rparr>)))"

subsection \<open>Ancestors\<close>

text \<open>Following parents ends because every parent was in the tree before its child.\<close>

definition tree_inv :: "FinalizationHashTree \<Rightarrow> bool" where
  "tree_inv t \<longleftrightarrow> smap_inv t
    \<and> (\<exists>rank :: HeightHashPair \<Rightarrow> nat. \<forall>k p. smap_find t k = Some (Some p) \<longrightarrow> smap_find t p \<noteq> None \<and> rank p < rank k)"

definition parent_rel :: "FinalizationHashTree \<Rightarrow> (HeightHashPair \<times> HeightHashPair) set" where
  "parent_rel t = {(k, p). smap_find t k = Some (Some p)}"

definition anc :: "FinalizationHashTree \<Rightarrow> HeightHashPair \<Rightarrow> HeightHashPair set" where
  "anc t k = (if smap_find t k = None then {} else {a. (k, a) \<in> (parent_rel t)\<^sup>*})"

lemma tree_inv_empty: "tree_inv smap_empty"
  by (simp add: tree_inv_def)

lemma tree_inv_parent:
  assumes "tree_inv t" "smap_find t k = Some (Some p)"
  shows "\<exists>q. smap_find t p = Some q"
  using assms unfolding tree_inv_def by blast

lemma anc_root: "smap_find t k = Some None \<Longrightarrow> anc t k = {k}"
  by (auto simp: anc_def parent_rel_def elim: converse_rtranclE)

lemma anc_step:
  assumes "tree_inv t" "smap_find t k = Some (Some p)"
  shows "anc t k = insert k (anc t p)"
proof -
  have p: "smap_find t p \<noteq> None" using tree_inv_parent [OF assms] by auto
  have "(k, a) \<in> (parent_rel t)\<^sup>* \<longleftrightarrow> a = k \<or> (p, a) \<in> (parent_rel t)\<^sup>*" for a
  proof
    assume "(k, a) \<in> (parent_rel t)\<^sup>*"
    then show "a = k \<or> (p, a) \<in> (parent_rel t)\<^sup>*"
      by (cases rule: converse_rtranclE) (use assms(2) in \<open>auto simp: parent_rel_def\<close>)
  next
    have "(k, p) \<in> parent_rel t" using assms(2) by (simp add: parent_rel_def)
    then show "a = k \<or> (p, a) \<in> (parent_rel t)\<^sup>* \<Longrightarrow> (k, a) \<in> (parent_rel t)\<^sup>*" by (auto intro: converse_rtrancl_into_rtrancl)
  qed
  then show ?thesis using assms(2) p by (auto simp: anc_def)
qed

lemma anc_self: "smap_find t k \<noteq> None \<Longrightarrow> k \<in> anc t k"
  by (auto simp: anc_def)

lemma anc_missing [simp]: "smap_find t k = None \<Longrightarrow> anc t k = {}"
  by (simp add: anc_def)

text \<open>Induction along the parents.\<close>

lemma tree_induct [consumes 2, case_names root step]:
  assumes "tree_inv t" "smap_find t k \<noteq> None"
    and "\<And>k. smap_find t k = Some None \<Longrightarrow> P k"
    and "\<And>k p. smap_find t k = Some (Some p) \<Longrightarrow> smap_find t p \<noteq> None \<Longrightarrow> P p \<Longrightarrow> P k"
  shows "P k"
proof -
  obtain rank :: "HeightHashPair \<Rightarrow> nat" where rank: "\<And>k p. smap_find t k = Some (Some p) \<Longrightarrow> smap_find t p \<noteq> None \<and> rank p < rank k"
    using assms(1) unfolding tree_inv_def by blast
  show ?thesis using assms(2)
  proof (induction k rule: measure_induct_rule [where f = rank])
    case (less k)
    then obtain q where q: "smap_find t k = Some q" by auto
    show ?case
    proof (cases q)
      case (Some p)
      then show ?thesis using assms(4) [of k p] rank [of k p] q less.IH [of p] by simp
    qed (use q assms(3) in simp)
  qed
qed

lemma anc_subset_dom: "tree_inv t \<Longrightarrow> anc t k \<subseteq> dom (smap_find t)"
proof (cases "smap_find t k = None")
  case False
  assume "tree_inv t"
  from this False show ?thesis
    by (induction k rule: tree_induct) (auto simp: anc_root anc_step [OF \<open>tree_inv t\<close>])
qed simp

lemma finite_anc: "tree_inv t \<Longrightarrow> finite (anc t k)"
  by (rule finite_subset [OF anc_subset_dom]) auto

lemma not_anc_parent:
  assumes "tree_inv t" "smap_find t k = Some (Some p)"
  shows "k \<notin> anc t p"
proof -
  obtain rank :: "HeightHashPair \<Rightarrow> nat" where rank: "\<And>k p. smap_find t k = Some (Some p) \<Longrightarrow> rank p < rank k"
    using assms(1) unfolding tree_inv_def by blast
  have "rank a \<le> rank q" if "(q, a) \<in> (parent_rel t)\<^sup>*" for q a
    using that by (induction rule: rtrancl_induct) (auto simp: parent_rel_def dest!: rank)
  then show ?thesis using rank [OF assms(2)] by (fastforce simp: anc_def split: if_splits)
qed

lemma anc_trans: "tree_inv t \<Longrightarrow> a \<in> anc t b \<Longrightarrow> b \<in> anc t c \<Longrightarrow> a \<in> anc t c"
  by (auto simp: anc_def split: if_splits)

text \<open>Both loops need at most as many iterations as there are ancestors.\<close>

lemma findAncestors_loop_enough:
  assumes "tree_inv t" "smap_find t k \<noteq> None" "card (anc t k) \<le> n"
  shows "\<exists>ks. findAncestors_loop n t (Some k) = Some ks \<and> set ks = anc t k \<and> distinct ks"
  using assms(1,2,3)
proof (induction k arbitrary: n rule: tree_induct)
  case (root k)
  then obtain m where "n = Suc m" by (cases n) (auto simp: anc_root)
  then show ?case using root by (simp add: anc_root)
next
  case (step k p)
  have card: "card (anc t k) = Suc (card (anc t p))"
    using anc_step [OF assms(1) step(1)] not_anc_parent [OF assms(1) step(1)] finite_anc [OF assms(1), of p] by simp
  then obtain m where m: "n = Suc m" "card (anc t p) \<le> m" using step(4) by (cases n) auto
  from step.IH [OF m(2)] obtain ks where "findAncestors_loop m t (Some p) = Some ks" "set ks = anc t p" "distinct ks" by blast
  then show ?case using step(1) m(1) anc_step [OF assms(1) step(1)] not_anc_parent [OF assms(1) step(1)] by simp
qed

lemma isDescendant_loop_enough:
  assumes "tree_inv t" "smap_find t k \<noteq> None" "card (anc t k) \<le> n"
  shows "isDescendant_loop n t a (Some k) = Some (a \<in> anc t k)"
  using assms(1,2,3)
proof (induction k arbitrary: n rule: tree_induct)
  case (root k)
  then obtain m where "n = Suc m" by (cases n) (auto simp: anc_root)
  then show ?case using root by (simp add: anc_root)
next
  case (step k p)
  have card: "card (anc t k) = Suc (card (anc t p))"
    using anc_step [OF assms(1) step(1)] not_anc_parent [OF assms(1) step(1)] finite_anc [OF assms(1), of p] by simp
  then obtain m where m: "n = Suc m" "card (anc t p) \<le> m" using step(4) by (cases n) auto
  from step.IH [OF m(2)] show ?case using step(1) m(1) anc_step [OF assms(1) step(1)] by simp
qed

lemma card_anc_le: "tree_inv t \<Longrightarrow> card (anc t k) \<le> smap_size t"
  using card_mono [OF _ anc_subset_dom, of t k] smap_size_card [of t] by (simp add: tree_inv_def)

lemma findAncestors_anc:
  assumes "tree_inv t"
  shows "\<exists>ks. findAncestors t k = Some ks \<and> set ks = anc t k \<and> distinct ks"
proof (cases "smap_find t k = None")
  case False
  then show ?thesis using findAncestors_loop_enough [OF assms False card_anc_le [OF assms]]
    by (simp add: findAncestors_def tryFindNode_def smap_contains_def)
qed (simp add: findAncestors_def tryFindNode_def smap_contains_def)

lemma isDescendant_anc:
  assumes "tree_inv t"
  shows "ht_isDescendant t a k = Some (a \<in> anc t k)"
proof (cases "smap_find t k = None")
  case False
  then show ?thesis using isDescendant_loop_enough [OF assms False card_anc_le [OF assms]]
    by (simp add: ht_isDescendant_def tryFindNode_def smap_contains_def)
qed (simp add: ht_isDescendant_def tryFindNode_def smap_contains_def)

subsection \<open>Growing the tree\<close>

text \<open>The keys of a prevote.\<close>

fun branch :: "Height \<Rightarrow> Hash256 list \<Rightarrow> HeightHashPair list" where
  "branch height [] = []"
| "branch height (hash # hashes) = (height, hash) # branch (height + 1) hashes"

lemma branch_snoc: "branch height (hashes @ [hash]) = branch height hashes @ [(height + of_nat (length hashes), hash)]"
  by (induction hashes arbitrary: height) (auto simp: algebra_simps)

lemma branch_mem: "(h, x) \<in> set (branch height hashes) \<longleftrightarrow> (\<exists>i < length hashes. h = height + of_nat i \<and> x = hashes ! i)"
proof (induction hashes rule: rev_induct)
  case (snoc y hashes)
  then show ?case by (auto simp: branch_snoc nth_append less_Suc_eq)
qed simp

lemma distinct_branch:
  assumes "length hashes < 2 ^ 64"
  shows "distinct (branch height hashes)"
  using assms
proof (induction hashes rule: rev_induct)
  case (snoc y hashes)
  have "(height + of_nat (length hashes), y) \<notin> set (branch height hashes)"
  proof
    assume "(height + of_nat (length hashes), y) \<in> set (branch height hashes)"
    then obtain i where i: "i < length hashes" "(of_nat (length hashes) :: Height) = of_nat i" by (auto simp: branch_mem)
    have "unat (of_nat (length hashes) :: Height) = length hashes" "unat (of_nat i :: Height) = i"
      using snoc.prems i(1) by (simp_all add: unat_of_nat_small)
    then show False using i by simp
  qed
  then show ?case using snoc by (simp add: branch_snoc)
qed simp

lemma tree_inv_insert:
  assumes "tree_inv t" "\<And>p. pParent = Some p \<Longrightarrow> smap_find t p \<noteq> None"
  shows "tree_inv (smap_insert k pParent t)"
proof (cases "smap_contains t k")
  case False
  obtain rank :: "HeightHashPair \<Rightarrow> nat" where rank: "\<And>k p. smap_find t k = Some (Some p) \<Longrightarrow> smap_find t p \<noteq> None \<and> rank p < rank k"
    using assms(1) unfolding tree_inv_def by blast
  let ?rank = "rank(k := (case pParent of None \<Rightarrow> 0 | Some p \<Rightarrow> Suc (rank p)))"
  have "smap_find (smap_insert k pParent t) q \<noteq> None \<and> ?rank q < ?rank k'" if "smap_find (smap_insert k pParent t) k' = Some (Some q)" for k' q
    using that False rank [of k' q] assms(2) [of q] by (auto simp: smap_insert_def smap_contains_def split: if_splits)
  then show ?thesis using assms(1) unfolding tree_inv_def by (intro conjI exI [of _ ?rank]) (auto simp del: fun_upd_apply)
qed (use assms(1) in \<open>simp add: smap_insert_def\<close>)

lemma tree_inv_addBranch_loop:
  assumes "tree_inv t" "\<And>p. pParent = Some p \<Longrightarrow> smap_find t p \<noteq> None"
  shows "tree_inv (addBranch_loop pParent height hashes t)"
  using assms
proof (induction pParent height hashes t rule: addBranch_loop.induct)
  case (2 pParent height hash hashes t)
  have "tree_inv (smap_insert (height, hash) pParent t)" by (rule tree_inv_insert) (use "2.prems" in auto)
  then show ?case using "2.IH" by (simp add: smap_insert_def smap_contains_def)
qed simp

lemma map_leD: "m \<subseteq>\<^sub>m m' \<Longrightarrow> m k = Some v \<Longrightarrow> m' k = Some v"
  by (metis domI map_le_def)

lemma addBranch_loop_keeps: "smap_find t \<subseteq>\<^sub>m smap_find (addBranch_loop pParent height hashes t)"
proof (induction pParent height hashes t rule: addBranch_loop.induct)
  case (2 pParent height hash hashes t)
  have "smap_find t \<subseteq>\<^sub>m smap_find (smap_insert (height, hash) pParent t)" by (auto simp: map_le_def smap_insert_def smap_contains_def)
  then show ?case unfolding addBranch_loop.simps by (rule map_le_trans) (rule 2)
qed simp

lemma addBranch_loop_dom: "dom (smap_find (addBranch_loop pParent height hashes t)) = dom (smap_find t) \<union> set (branch height hashes)"
proof (induction pParent height hashes t rule: addBranch_loop.induct)
  case (2 pParent height hash hashes t)
  have "dom (smap_find (smap_insert (height, hash) pParent t)) = insert (height, hash) (dom (smap_find t))"
    by (auto simp: smap_insert_def smap_contains_def)
  then show ?case using 2 by auto
qed simp

text \<open>A new node hangs below the one before it in its branch.\<close>

lemma addBranch_loop_parent:
  assumes "distinct (branch height hashes)" "branch height hashes = pre @ k # post" "smap_find t k = None"
  shows "smap_find (addBranch_loop pParent height hashes t) k = Some (if pre = [] then pParent else Some (last pre))"
  using assms
proof (induction pParent height hashes t arbitrary: pre rule: addBranch_loop.induct)
  case (2 pParent height hash hashes t)
  let ?t = "smap_insert (height, hash) pParent t"
  show ?case
  proof (cases pre)
    case Nil
    then have "k = (height, hash)" using "2.prems"(2) by simp
    then have "smap_find ?t k = Some pParent" using "2.prems"(3) by (auto simp: smap_insert_def smap_contains_def)
    from map_leD [OF addBranch_loop_keeps this] show ?thesis using Nil by simp
  next
    case (Cons x pre')
    then have b: "x = (height, hash)" "branch (height + 1) hashes = pre' @ k # post" using "2.prems"(2) by auto
    then have "k \<noteq> (height, hash)" using "2.prems"(1) by auto
    then have "smap_find ?t k = None" using "2.prems"(3) by (auto simp: smap_insert_def)
    then show ?thesis using "2.IH" [OF _ b(2)] "2.prems"(1) b Cons by auto
  qed
qed simp

text \<open>What is in the tree keeps its ancestors.\<close>

lemma anc_extend:
  assumes "tree_inv t" "tree_inv t'" "smap_find t \<subseteq>\<^sub>m smap_find t'" "smap_find t k \<noteq> None"
  shows "anc t' k = anc t k"
  using assms(1,4)
proof (induction k rule: tree_induct)
  case (root k)
  then have "smap_find t' k = Some None" using map_leD [OF assms(3)] by simp
  then show ?case using root by (simp add: anc_root)
next
  case (step k p)
  then have "smap_find t' k = Some (Some p)" using map_leD [OF assms(3)] by simp
  then show ?case using step by (simp add: anc_step [OF assms(1)] anc_step [OF assms(2)])
qed

definition parent_closed :: "FinalizationHashTree \<Rightarrow> HeightHashPair set \<Rightarrow> bool" where
  "parent_closed t S \<longleftrightarrow> (\<forall>q\<in>S. anc t q \<subseteq> S)"

lemma addBranch_closed:
  assumes "tree_inv t" "distinct (branch height hashes)" "branch height hashes = pre @ post"
  shows "parent_closed (addBranch height hashes t) (dom (smap_find t) \<union> set pre)"
  using assms(3)
proof (induction pre arbitrary: post rule: rev_induct)
  case Nil
  let ?t = "addBranch height hashes t"
  have inv: "tree_inv ?t" unfolding addBranch_def by (rule tree_inv_addBranch_loop [OF assms(1)]) auto
  have "anc ?t q \<subseteq> dom (smap_find t)" if q: "smap_find t q \<noteq> None" for q
    using anc_extend [OF assms(1) inv _ q] addBranch_loop_keeps [of t] anc_subset_dom [OF assms(1)] by (simp add: addBranch_def)
  then show ?case by (auto simp: parent_closed_def)
next
  case (snoc k pre)
  let ?t = "addBranch height hashes t"
  have inv: "tree_inv ?t" unfolding addBranch_def by (rule tree_inv_addBranch_loop [OF assms(1)]) auto
  have closed: "parent_closed ?t (dom (smap_find t) \<union> set pre)" using snoc by simp
  show ?case
  proof (cases "smap_find t k")
    case None
    have b: "branch height hashes = pre @ k # post" using snoc.prems by simp
    have k: "smap_find ?t k = Some (if pre = [] then None else Some (last pre))"
      using addBranch_loop_parent [OF assms(2) b None] by (simp add: addBranch_def)
    have "anc ?t k \<subseteq> insert k (dom (smap_find t) \<union> set pre)"
    proof (cases "pre = []")
      case False
      then have "anc ?t (last pre) \<subseteq> dom (smap_find t) \<union> set pre" using closed by (auto simp: parent_closed_def)
      then show ?thesis using anc_step [OF inv, of k "last pre"] k False by auto
    qed (use k in \<open>simp add: anc_root\<close>)
    then show ?thesis using closed by (auto simp: parent_closed_def)
  next
    case (Some q)
    then have "dom (smap_find t) \<union> set (pre @ [k]) = dom (smap_find t) \<union> set pre" by auto
    then show ?thesis using closed by simp
  qed
qed

subsection \<open>The tally\<close>

text \<open>Votes as they are accepted, and the sums that the weights should be. A key counts a precommit if it is an ancestor of its target.\<close>

datatype vote = PrevoteOf Height "Hash256 list" uint64 | PrecommitOf HeightHashPair uint64

fun accept_vote :: "vote \<Rightarrow> RoundContext \<Rightarrow> RoundContext option" where
  "accept_vote (PrevoteOf height hashes weight) rc = acceptPrevote height hashes weight rc"
| "accept_vote (PrecommitOf key weight) rc = acceptPrecommit (fst key) (snd key) weight rc"

fun accept_votes :: "vote list \<Rightarrow> RoundContext \<Rightarrow> RoundContext option" where
  "accept_votes [] rc = Some rc"
| "accept_votes (v # vs) rc = Option.bind (accept_vote v rc) (accept_votes vs)"

fun well_sized :: "vote \<Rightarrow> bool" where
  "well_sized (PrevoteOf height hashes weight) \<longleftrightarrow> length hashes < 2 ^ 64"
| "well_sized (PrecommitOf key weight) \<longleftrightarrow> True"

fun no_wrap :: "vote \<Rightarrow> bool" where
  "no_wrap (PrevoteOf height hashes weight) \<longleftrightarrow> unat height + length hashes < 2 ^ 64"
| "no_wrap (PrecommitOf key weight) \<longleftrightarrow> True"

lemma no_wrap_sized: "no_wrap v \<Longrightarrow> well_sized v"
  by (cases v) auto

fun prevote_part :: "HeightHashPair \<Rightarrow> vote \<Rightarrow> uint64" where
  "prevote_part k (PrevoteOf height hashes weight) = (if k \<in> set (branch height hashes) then weight else 0)"
| "prevote_part k (PrecommitOf key weight) = 0"

fun precommit_part :: "(HeightHashPair \<Rightarrow> bool) \<Rightarrow> vote \<Rightarrow> uint64" where
  "precommit_part P (PrevoteOf height hashes weight) = 0"
| "precommit_part P (PrecommitOf key weight) = (if P key then weight else 0)"

definition prevotes :: "vote list \<Rightarrow> HeightHashPair \<Rightarrow> uint64" where
  "prevotes votes k = (\<Sum>v\<leftarrow>votes. prevote_part k v)"

definition precommits :: "vote list \<Rightarrow> (HeightHashPair \<Rightarrow> bool) \<Rightarrow> uint64" where
  "precommits votes P = (\<Sum>v\<leftarrow>votes. precommit_part P v)"

lemma tally_simps [simp]:
  "prevotes [] k = 0" "prevotes (v # vs) k = prevote_part k v + prevotes vs k" "prevotes (vs @ ws) k = prevotes vs k + prevotes ws k"
  "precommits [] P = 0" "precommits (v # vs) P = precommit_part P v + precommits vs P" "precommits (vs @ ws) P = precommits vs P + precommits ws P"
  by (simp_all add: prevotes_def precommits_def)

lemma precommits_cong: "(\<And>q. P q = Q q) \<Longrightarrow> precommits votes P = precommits votes Q"
  by (rule arg_cong [where f = "precommits votes"]) auto

lemma precommits_none: "(\<And>q. \<not> P q) \<Longrightarrow> precommits votes P = 0"
proof (induction votes)
  case (Cons v votes)
  then show ?case by (cases v) auto
qed simp

lemma precommits_insert:
  assumes "\<not> P k"
  shows "precommits votes (\<lambda>q. P q \<or> q = k \<and> b) = precommits votes P + (if b then precommits votes (\<lambda>q. q = k) else 0)"
proof (induction votes)
  case (Cons v votes)
  then show ?case using assms by (cases v) (auto simp: algebra_simps)
qed simp

lemma precommits_absent: "(\<And>w. PrecommitOf k w \<notin> set votes) \<Longrightarrow> precommits votes (\<lambda>q. q = k) = 0"
proof (induction votes)
  case (Cons v votes)
  then show ?case by (cases v) auto
qed simp

lemma add_precommits_find:
  assumes "smap_inv candidates" "distinct keys" "set keys \<subseteq> dom (smap_find candidates)"
  shows "\<exists>c. add_precommits weight keys candidates = Some c \<and> smap_inv c
    \<and> smap_find c = (\<lambda>k. map_option (\<lambda>w. if k \<in> set keys then w\<lparr>Precommit := Precommit w + weight\<rparr> else w) (smap_find candidates k))"
  using assms
proof (induction keys arbitrary: candidates)
  case Nil
  then show ?case by (simp add: option.map_ident)
next
  case (Cons key keys)
  then obtain w where w: "smap_find candidates key = Some w" by auto
  let ?c = "smap_put key (w\<lparr>Precommit := Precommit w + weight\<rparr>) candidates"
  have "set keys \<subseteq> dom (smap_find ?c)" using Cons.prems(3) by auto
  from Cons.IH [OF _ _ this] Cons.prems obtain c where c: "add_precommits weight keys ?c = Some c" "smap_inv c"
    "smap_find c = (\<lambda>k. map_option (\<lambda>w. if k \<in> set keys then w\<lparr>Precommit := Precommit w + weight\<rparr> else w) (smap_find ?c k))" by auto
  moreover have "key \<notin> set keys" using Cons.prems(2) by simp
  ultimately show ?case using w by (auto simp: fun_eq_iff)
qed

text \<open>
  The state between two hashes of a prevote: the tree has all of its keys already, the candidates are those in \<open>S\<close>, and the precommits for them have
  been counted.
\<close>

definition tallied :: "(HeightHashPair \<Rightarrow> uint64) \<Rightarrow> HeightHashPair set \<Rightarrow> vote list \<Rightarrow> RoundContext \<Rightarrow> bool" where
  "tallied pv S votes rc \<longleftrightarrow>
     tree_inv (rc_tree rc) \<and> parent_closed (rc_tree rc) S \<and> smap_inv (rc_candidates rc) \<and> smap_inv (rc_pendingPrecommitWeights rc)
     \<and> dom (smap_find (rc_candidates rc)) = S
     \<and> (\<forall>k. Prevote (rc_weights rc k) = pv k)
     \<and> (\<forall>k. Precommit (rc_weights rc k) = precommits votes (\<lambda>q. q \<in> S \<and> k \<in> anc (rc_tree rc) q))
     \<and> rc_cumulativePrecommitWeight rc = precommits votes (\<lambda>q. q \<in> S)
     \<and> (\<forall>k. smap_find (rc_pendingPrecommitWeights rc) k =
          (if k \<notin> S \<and> (\<exists>w. PrecommitOf k w \<in> set votes) then Some (precommits votes (\<lambda>q. q = k)) else None))"

definition same_limits :: "RoundContext \<Rightarrow> RoundContext \<Rightarrow> bool" where
  "same_limits rc rc' \<longleftrightarrow> rc_totalWeight rc' = rc_totalWeight rc \<and> rc_threshold rc' = rc_threshold rc"

lemma weights_insert:
  "(case smap_find (smap_insert key new_Weights (rc_candidates rc)) key of None \<Rightarrow> new_Weights | Some w \<Rightarrow> w) = rc_weights rc key"
  by (simp add: rc_weights_def split: option.splits)

lemma sum_insert_key:
  assumes "key \<notin> S"
  shows "precommits votes (\<lambda>q. q \<in> insert key S \<and> P q) = precommits votes (\<lambda>q. q \<in> S \<and> P q) + (if P key then precommits votes (\<lambda>q. q = key) else 0)"
proof -
  have "precommits votes (\<lambda>q. q \<in> insert key S \<and> P q) = precommits votes (\<lambda>q. (q \<in> S \<and> P q) \<or> q = key \<and> P key)" by (rule precommits_cong) auto
  then show ?thesis using precommits_insert [of "\<lambda>q. q \<in> S \<and> P q" key votes "P key"] assms by simp
qed

lemma accept_key_step:
  assumes rc: "tallied pv S votes rc" and closed: "parent_closed (rc_tree rc) (insert key S)" and key: "smap_find (rc_tree rc) key \<noteq> None"
  shows "\<exists>rc'. accept_key key weight rc = Some rc' \<and> tallied (pv(key := pv key + weight)) (insert key S) votes rc'
    \<and> rc_tree rc' = rc_tree rc \<and> same_limits rc rc'"
proof -
  let ?t = "rc_tree rc" and ?w = "(rc_weights rc key)\<lparr>Prevote := Prevote (rc_weights rc key) + weight\<rparr>"
  have inv: "tree_inv ?t" "smap_inv (rc_candidates rc)" "smap_inv (rc_pendingPrecommitWeights rc)" "dom (smap_find (rc_candidates rc)) = S"
    and pv: "\<And>k. Prevote (rc_weights rc k) = pv k"
    and pc: "\<And>k. Precommit (rc_weights rc k) = precommits votes (\<lambda>q. q \<in> S \<and> k \<in> anc ?t q)"
    and cum: "rc_cumulativePrecommitWeight rc = precommits votes (\<lambda>q. q \<in> S)"
    and pending: "\<And>k. smap_find (rc_pendingPrecommitWeights rc) k =
          (if k \<notin> S \<and> (\<exists>w. PrecommitOf k w \<in> set votes) then Some (precommits votes (\<lambda>q. q = k)) else None)"
    using rc unfolding tallied_def by blast+
  define c where "c = smap_put key ?w (smap_insert key new_Weights (rc_candidates rc))"
  have c: "smap_find c = (smap_find (rc_candidates rc))(key \<mapsto> ?w)" by (auto simp: c_def fun_eq_iff smap_insert_def)
  have key_eq: "accept_key key weight rc = (case smap_find (rc_pendingPrecommitWeights rc) key of
      None \<Rightarrow> Some (rc\<lparr>rc_candidates := c\<rparr>)
    | Some pending \<Rightarrow> (case findAncestors ?t key of None \<Rightarrow> None | Some ancestorKeys \<Rightarrow> (case add_precommits pending ancestorKeys c of
          None \<Rightarrow> None
        | Some candidates \<Rightarrow> Some (rc\<lparr>rc_candidates := candidates, rc_cumulativePrecommitWeight := rc_cumulativePrecommitWeight rc + pending,
            rc_pendingPrecommitWeights := smap_erase key (rc_pendingPrecommitWeights rc)\<rparr>))))"
    unfolding accept_key_def Let_def weights_insert c_def ..
  have c_inv: "smap_inv c" unfolding c_def using inv by auto
  have c_dom: "dom (smap_find c) = insert key S" using inv(4) by (auto simp: c)
  have cum_key: "precommits votes (\<lambda>q. q \<in> insert key S) = precommits votes (\<lambda>q. q \<in> S) + precommits votes (\<lambda>q. q = key)" if "key \<notin> S"
    using sum_insert_key [OF that, of votes "\<lambda>_. True"] by simp
  show ?thesis
  proof (cases "smap_find (rc_pendingPrecommitWeights rc) key")
    case None
    let ?rc = "rc\<lparr>rc_candidates := c\<rparr>"
    have w: "rc_weights ?rc k = (if k = key then ?w else rc_weights rc k)" for k by (simp add: rc_weights_def c)
    have zero: "precommits votes (\<lambda>q. q = key) = 0" if "key \<notin> S" using None pending [of key] that by (intro precommits_absent) (auto split: if_splits)
    have sum: "precommits votes (\<lambda>q. q \<in> insert key S \<and> P q) = precommits votes (\<lambda>q. q \<in> S \<and> P q)" for P
      using sum_insert_key [of key S votes P] zero by (cases "key \<in> S") (simp_all add: insert_absorb)
    have p: "smap_find (rc_pendingPrecommitWeights rc) k =
        (if k \<notin> insert key S \<and> (\<exists>w. PrecommitOf k w \<in> set votes) then Some (precommits votes (\<lambda>q. q = k)) else None)" for k
      using None pending [of k] by (cases "k = key") (auto split: if_splits)
    have "tallied (pv(key := pv key + weight)) (insert key S) votes ?rc"
      unfolding tallied_def sum w using inv closed c_inv c_dom pv pc p cum sum [of "\<lambda>_. True"] by simp
    then show ?thesis using None by (simp add: key_eq same_limits_def)
  next
    case (Some p)
    then have p: "key \<notin> S" "p = precommits votes (\<lambda>q. q = key)" using pending [of key] by (auto split: if_splits)
    obtain ks where ks: "findAncestors ?t key = Some ks" "set ks = anc ?t key" "distinct ks" using findAncestors_anc [OF inv(1)] by blast
    have "set ks \<subseteq> dom (smap_find c)" unfolding c_dom ks(2) using closed by (auto simp: parent_closed_def)
    then obtain c' where c': "add_precommits p ks c = Some c'" "smap_inv c'"
      "smap_find c' = (\<lambda>k. map_option (\<lambda>w. if k \<in> set ks then w\<lparr>Precommit := Precommit w + p\<rparr> else w) (smap_find c k))"
      using add_precommits_find [OF c_inv ks(3)] by blast
    have c'_dom: "dom (smap_find c') = insert key S" unfolding c_dom [symmetric] c'(3) by (auto simp: dom_def)
    let ?rc = "rc\<lparr>rc_candidates := c', rc_cumulativePrecommitWeight := rc_cumulativePrecommitWeight rc + p,
      rc_pendingPrecommitWeights := smap_erase key (rc_pendingPrecommitWeights rc)\<rparr>"
    have anc_c: "k \<in> insert key S" if "k \<in> anc ?t key" for k using that closed by (auto simp: parent_closed_def)
    have w: "Prevote (rc_weights ?rc k) = (pv(key := pv key + weight)) k" for k
      using pv [of k] pv [of key] by (auto simp: rc_weights_def c'(3) c split: option.splits)
    have old: "Precommit (rc_weights ?rc k) = Precommit (rc_weights rc k) + (if k \<in> anc ?t key then p else 0)" for k
    proof (cases "smap_find c k")
      case None
      then have "k \<notin> anc ?t key" "k \<noteq> key" "smap_find (rc_candidates rc) k = None" using anc_c [of k] c_dom c by (auto simp: dom_def split: if_splits)
      then show ?thesis using None by (simp add: rc_weights_def c'(3))
    qed (auto simp: rc_weights_def c'(3) c ks(2) split: if_splits)
    have pnew: "smap_find (smap_erase key (rc_pendingPrecommitWeights rc)) k =
        (if k \<notin> insert key S \<and> (\<exists>w. PrecommitOf k w \<in> set votes) then Some (precommits votes (\<lambda>q. q = k)) else None)" for k
      using pending [of k] by auto
    have "tallied (pv(key := pv key + weight)) (insert key S) votes ?rc"
      unfolding tallied_def w old sum_insert_key [OF p(1)] using inv closed c'(2) c'_dom pnew pc cum cum_key [OF p(1)] p(2) by simp
    then show ?thesis using Some ks(1) c'(1) by (simp add: key_eq same_limits_def)
  qed
qed

text \<open>A whole prevote.\<close>

lemma acceptPrevote_loop_tallies:
  assumes "tallied pv S votes rc" "set (branch height hashes) \<subseteq> dom (smap_find (rc_tree rc))" "distinct (branch height hashes)"
    and "\<forall>pre post. branch height hashes = pre @ post \<longrightarrow> parent_closed (rc_tree rc) (S \<union> set pre)"
  shows "\<exists>rc'. acceptPrevote_loop height hashes weight rc = Some rc'
    \<and> tallied (\<lambda>k. pv k + (if k \<in> set (branch height hashes) then weight else 0)) (S \<union> set (branch height hashes)) votes rc'
    \<and> rc_tree rc' = rc_tree rc \<and> same_limits rc rc'"
  using assms
proof (induction hashes arbitrary: height pv S rc)
  case Nil
  then show ?case by (simp add: same_limits_def)
next
  case (Cons hash hashes)
  let ?key = "(height, hash)"
  have "parent_closed (rc_tree rc) (insert ?key S)" using Cons.prems(4) [rule_format, of "[?key]" "branch (height + 1) hashes"] by simp
  from accept_key_step [OF Cons.prems(1) this, of weight] Cons.prems(2)
  obtain rc1 where rc1: "accept_key ?key weight rc = Some rc1" "tallied (pv(?key := pv ?key + weight)) (insert ?key S) votes rc1"
    "rc_tree rc1 = rc_tree rc" "same_limits rc rc1" by auto
  have closed: "parent_closed (rc_tree rc1) (insert ?key S \<union> set pre)" if "branch (height + 1) hashes = pre @ post" for pre post
    using Cons.prems(4) [rule_format, of "?key # pre" post] that rc1(3) by simp
  obtain rc2 where rc2: "acceptPrevote_loop (height + 1) hashes weight rc1 = Some rc2" "rc_tree rc2 = rc_tree rc1" "same_limits rc1 rc2"
    "tallied (\<lambda>k. (pv(?key := pv ?key + weight)) k + (if k \<in> set (branch (height + 1) hashes) then weight else 0)) (insert ?key S \<union> set (branch (height + 1) hashes)) votes rc2"
  proof -
    note rc2_intro = that
    have sub: "set (branch (height + 1) hashes) \<subseteq> dom (smap_find (rc_tree rc1))" "distinct (branch (height + 1) hashes)" using Cons.prems(2,3) rc1(3) by auto
    have "\<forall>pre post. branch (height + 1) hashes = pre @ post \<longrightarrow> parent_closed (rc_tree rc1) (insert ?key S \<union> set pre)" using closed by blast
    from Cons.IH [OF rc1(2) sub this] rc2_intro show thesis by blast
  qed
  have "(\<lambda>k. (pv(?key := pv ?key + weight)) k + (if k \<in> set (branch (height + 1) hashes) then weight else 0)) =
      (\<lambda>k. pv k + (if k \<in> set (branch height (hash # hashes)) then weight else 0))" using Cons.prems(3) by (auto simp: fun_eq_iff)
  then show ?case using rc1 rc2 by (simp add: same_limits_def)
qed

text \<open>The state between votes: the candidates are the keys of the tree, which are those of the prevotes. Parents have smaller heights, unless the heights of a prevote wrap around.\<close>

fun vote_keys :: "vote \<Rightarrow> HeightHashPair set" where
  "vote_keys (PrevoteOf height hashes weight) = set (branch height hashes)"
| "vote_keys (PrecommitOf key weight) = {}"

definition tree_heights :: "FinalizationHashTree \<Rightarrow> bool" where
  "tree_heights t \<longleftrightarrow> (\<forall>k p. smap_find t k = Some (Some p) \<longrightarrow> fst p < fst k)"

lemma tree_heights_addBranch_loop:
  assumes "tree_heights t" "\<And>p. pParent = Some p \<Longrightarrow> fst p < height" "unat height + length hashes < 2 ^ 64"
  shows "tree_heights (addBranch_loop pParent height hashes t)"
  using assms
proof (induction pParent height hashes t rule: addBranch_loop.induct)
  case (2 pParent height hash hashes t)
  have u: "unat (height + 1) = unat height + 1" using "2.prems"(3) by (subst word_add_no_wrap) auto
  have "tree_heights (smap_insert (height, hash) pParent t)"
    using "2.prems"(1,2) by (auto simp: tree_heights_def smap_insert_def smap_contains_def)
  then show ?case using "2.IH" "2.prems"(3) u by (auto simp: word_less_nat_alt)
qed simp

definition rc_inv :: "vote list \<Rightarrow> RoundContext \<Rightarrow> bool" where
  "rc_inv votes rc \<longleftrightarrow> tallied (prevotes votes) (dom (smap_find (rc_tree rc))) votes rc
    \<and> ((\<forall>v\<in>set votes. no_wrap v) \<longrightarrow> tree_heights (rc_tree rc)) \<and> dom (smap_find (rc_tree rc)) = (\<Union>v\<in>set votes. vote_keys v)"

lemma rc_inv_new: "rc_inv [] (new_RoundContext weight threshold)"
  by (simp add: rc_inv_def tallied_def new_RoundContext_def tree_inv_empty parent_closed_def rc_weights_def new_Weights_def tree_heights_def)

lemma tallied_cong:
  assumes "tallied pv S votes rc" "\<And>P. precommits votes' P = precommits votes P" "\<And>k w. PrecommitOf k w \<in> set votes' \<longleftrightarrow> PrecommitOf k w \<in> set votes"
  shows "tallied pv S votes' rc"
  using assms unfolding tallied_def by simp

lemma acceptPrevote_inv:
  assumes "rc_inv votes rc" "length hashes < 2 ^ 64"
  shows "\<exists>rc'. acceptPrevote height hashes weight rc = Some rc' \<and> rc_inv (votes @ [PrevoteOf height hashes weight]) rc'
    \<and> rc_tree rc' = addBranch height hashes (rc_tree rc) \<and> same_limits rc rc'"
proof -
  let ?t = "rc_tree rc" and ?t' = "addBranch height hashes (rc_tree rc)" and ?S = "dom (smap_find (rc_tree rc))"
  let ?rc = "rc\<lparr>rc_tree := ?t'\<rparr>" and ?votes = "votes @ [PrevoteOf height hashes weight]"
  have d: "distinct (branch height hashes)" by (rule distinct_branch [OF assms(2)])
  have t: "tree_inv ?t" using assms(1) by (simp add: rc_inv_def tallied_def)
  then have t': "tree_inv ?t'" unfolding addBranch_def by (rule tree_inv_addBranch_loop) auto
  have dom': "dom (smap_find ?t') = ?S \<union> set (branch height hashes)" by (simp add: addBranch_def addBranch_loop_dom)
  have closed: "parent_closed ?t' (?S \<union> set pre)" if "branch height hashes = pre @ post" for pre post
    by (rule addBranch_closed [OF t d that])
  have anc: "anc ?t' q = anc ?t q" if "q \<in> ?S" for q
  proof (rule anc_extend [OF t t'])
    show "smap_find ?t \<subseteq>\<^sub>m smap_find ?t'" unfolding addBranch_def by (rule addBranch_loop_keeps)
    show "smap_find ?t q \<noteq> None" using that by auto
  qed
  have "tallied (prevotes votes) ?S votes ?rc"
  proof -
    have "precommits votes (\<lambda>q. q \<in> ?S \<and> k \<in> anc ?t' q) = precommits votes (\<lambda>q. q \<in> ?S \<and> k \<in> anc ?t q)" for k
      using anc by (intro precommits_cong) auto
    then show ?thesis using assms(1) t' closed [of "[]" "branch height hashes"] by (simp add: rc_inv_def tallied_def rc_weights_def)
  qed
  from acceptPrevote_loop_tallies [OF this, of height hashes weight] closed d dom'
  obtain rc' where rc': "acceptPrevote_loop height hashes weight ?rc = Some rc'" "rc_tree rc' = ?t'" "same_limits ?rc rc'"
    "tallied (\<lambda>k. prevotes votes k + (if k \<in> set (branch height hashes) then weight else 0)) (?S \<union> set (branch height hashes)) votes rc'"
    by auto
  have "(\<lambda>k. prevotes votes k + (if k \<in> set (branch height hashes) then weight else 0)) = prevotes ?votes" by auto
  then have "tallied (prevotes ?votes) (dom (smap_find (rc_tree rc'))) votes rc'" using rc'(2,4) dom' by simp
  then have "tallied (prevotes ?votes) (dom (smap_find (rc_tree rc'))) ?votes rc'" by (rule tallied_cong) auto
  moreover have "tree_heights ?t'" if "\<forall>v\<in>set ?votes. no_wrap v"
    unfolding addBranch_def by (rule tree_heights_addBranch_loop) (use assms that in \<open>auto simp: rc_inv_def\<close>)
  ultimately have "rc_inv ?votes rc'" using rc'(2) dom' assms(1) by (auto simp: rc_inv_def)
  then show ?thesis using rc' by (simp add: acceptPrevote_def same_limits_def)
qed

lemma acceptPrecommit_inv:
  assumes "rc_inv votes rc"
  shows "\<exists>rc'. acceptPrecommit height hash weight rc = Some rc' \<and> rc_inv (votes @ [PrecommitOf (height, hash) weight]) rc'
    \<and> rc_tree rc' = rc_tree rc \<and> same_limits rc rc'"
proof -
  let ?t = "rc_tree rc" and ?S = "dom (smap_find (rc_tree rc))" and ?key = "(height, hash)"
  let ?votes = "votes @ [PrecommitOf ?key weight]"
  have inv: "tree_inv ?t" "parent_closed ?t ?S" "smap_inv (rc_candidates rc)" "smap_inv (rc_pendingPrecommitWeights rc)" "dom (smap_find (rc_candidates rc)) = ?S"
    and pv: "\<And>k. Prevote (rc_weights rc k) = prevotes votes k"
    and pc: "\<And>k. Precommit (rc_weights rc k) = precommits votes (\<lambda>q. q \<in> ?S \<and> k \<in> anc ?t q)"
    and cum: "rc_cumulativePrecommitWeight rc = precommits votes (\<lambda>q. q \<in> ?S)"
    and pending: "\<And>k. smap_find (rc_pendingPrecommitWeights rc) k =
          (if k \<notin> ?S \<and> (\<exists>w. PrecommitOf k w \<in> set votes) then Some (precommits votes (\<lambda>q. q = k)) else None)"
    and rest: "(\<forall>v\<in>set ?votes. no_wrap v) \<longrightarrow> tree_heights ?t" "?S = (\<Union>v\<in>set ?votes. vote_keys v)"
    using assms unfolding rc_inv_def tallied_def by auto
  obtain ks where ks: "findAncestors ?t ?key = Some ks" "set ks = anc ?t ?key" "distinct ks" using findAncestors_anc [OF inv(1)] by blast
  show ?thesis
  proof (cases "?key \<in> ?S")
    case False
    then have "anc ?t ?key = {}" by (intro anc_missing) auto
    then have "ks = []" using ks(2) by simp
    let ?p = "smap_insert ?key 0 (rc_pendingPrecommitWeights rc)"
    let ?rc = "rc\<lparr>rc_pendingPrecommitWeights := smap_put ?key ((case smap_find ?p ?key of None \<Rightarrow> 0 | Some w \<Rightarrow> w) + weight) ?p\<rparr>"
    have "precommits votes (\<lambda>q. q = ?key) = (case smap_find ?p ?key of None \<Rightarrow> 0 | Some w \<Rightarrow> w)"
      using pending [of ?key] False precommits_absent [of ?key votes] by (auto split: if_splits)
    moreover have "smap_find ?p k = smap_find (rc_pendingPrecommitWeights rc) k" if "k \<noteq> ?key" for k using that by simp
    ultimately have p: "smap_find (rc_pendingPrecommitWeights ?rc) k =
        (if k \<notin> ?S \<and> (\<exists>w. PrecommitOf k w \<in> set ?votes) then Some (precommits ?votes (\<lambda>q. q = k)) else None)" for k
      using pending [of k] False by (cases "k = ?key") auto
    have "rc_inv ?votes ?rc" unfolding rc_inv_def tallied_def using inv pv pc cum p False rest by (simp add: rc_weights_def)
    then show ?thesis using ks(1) \<open>ks = []\<close> by (simp add: acceptPrecommit_def Let_def same_limits_def)
  next
    case True
    then have "ks \<noteq> []" using ks(2) anc_self [of ?t ?key] by auto
    have "set ks \<subseteq> dom (smap_find (rc_candidates rc))" unfolding ks(2) inv(5) by (rule anc_subset_dom [OF inv(1)])
    then obtain c where c: "add_precommits weight ks (rc_candidates rc) = Some c" "smap_inv c"
      "smap_find c = (\<lambda>k. map_option (\<lambda>w. if k \<in> set ks then w\<lparr>Precommit := Precommit w + weight\<rparr> else w) (smap_find (rc_candidates rc) k))"
      using add_precommits_find [OF inv(3) ks(3)] by blast
    have c_dom: "dom (smap_find c) = ?S" unfolding inv(5) [symmetric] c(3) by (auto simp: dom_def)
    let ?rc = "rc\<lparr>rc_candidates := c, rc_cumulativePrecommitWeight := rc_cumulativePrecommitWeight rc + weight\<rparr>"
    have w: "Prevote (rc_weights ?rc k) = prevotes votes k" for k using pv [of k] by (auto simp: rc_weights_def c(3) split: option.splits)
    have old: "Precommit (rc_weights ?rc k) = Precommit (rc_weights rc k) + (if k \<in> anc ?t ?key then weight else 0)" for k
    proof (cases "smap_find (rc_candidates rc) k")
      case None
      then have "k \<notin> ?S" unfolding inv(5) [symmetric] by auto
      then have "k \<notin> anc ?t ?key" using anc_subset_dom [OF inv(1)] by blast
      then show ?thesis using None by (simp add: rc_weights_def c(3))
    qed (simp add: rc_weights_def c(3) ks(2))
    have p: "smap_find (rc_pendingPrecommitWeights ?rc) k =
        (if k \<notin> ?S \<and> (\<exists>w. PrecommitOf k w \<in> set ?votes) then Some (precommits ?votes (\<lambda>q. q = k)) else None)" for k
      using pending [of k] True by (cases "k = ?key") auto
    have "rc_inv ?votes ?rc" unfolding rc_inv_def tallied_def w old p using inv pc cum c(2) c_dom True rest by simp
    then show ?thesis using ks(1) \<open>ks \<noteq> []\<close> c(1) by (simp add: acceptPrecommit_def Let_def same_limits_def)
  qed
qed

text \<open>All votes.\<close>

lemma accept_vote_inv:
  assumes "rc_inv votes rc" "well_sized v"
  shows "\<exists>rc'. accept_vote v rc = Some rc' \<and> rc_inv (votes @ [v]) rc' \<and> same_limits rc rc' \<and> smap_find (rc_tree rc) \<subseteq>\<^sub>m smap_find (rc_tree rc')"
proof (cases v)
  case (PrevoteOf height hashes weight)
  then obtain rc' where rc': "acceptPrevote height hashes weight rc = Some rc'" "rc_inv (votes @ [v]) rc'"
      "rc_tree rc' = addBranch height hashes (rc_tree rc)" "same_limits rc rc'"
    using acceptPrevote_inv [OF assms(1), of hashes height weight] assms(2) by auto
  then show ?thesis using PrevoteOf addBranch_loop_keeps [of "rc_tree rc" None height hashes] by (simp add: addBranch_def)
next
  case (PrecommitOf key weight)
  then show ?thesis using acceptPrecommit_inv [OF assms(1), of "fst key" "snd key" weight] by auto
qed

lemma accept_votes_inv:
  assumes "rc_inv votes rc" "\<forall>v\<in>set vs. well_sized v"
  shows "\<exists>rc'. accept_votes vs rc = Some rc' \<and> rc_inv (votes @ vs) rc' \<and> same_limits rc rc' \<and> smap_find (rc_tree rc) \<subseteq>\<^sub>m smap_find (rc_tree rc')"
  using assms
proof (induction vs arbitrary: votes rc)
  case Nil
  then show ?case by (simp add: same_limits_def)
next
  case (Cons v vs)
  then have "well_sized v" by simp
  from accept_vote_inv [OF Cons.prems(1) this] obtain rc1 where rc1: "accept_vote v rc = Some rc1" "rc_inv (votes @ [v]) rc1" "same_limits rc rc1"
    "smap_find (rc_tree rc) \<subseteq>\<^sub>m smap_find (rc_tree rc1)" by blast
  from Cons.IH [OF rc1(2)] Cons.prems(2) obtain rc2 where rc2: "accept_votes vs rc1 = Some rc2" "rc_inv (votes @ v # vs) rc2" "same_limits rc1 rc2"
    "smap_find (rc_tree rc1) \<subseteq>\<^sub>m smap_find (rc_tree rc2)" by auto
  then show ?case using rc1 map_le_trans [OF rc1(4) rc2(4)] by (simp add: same_limits_def)
qed

lemma accept_votes_append: "accept_votes (vs @ ws) rc = Option.bind (accept_votes vs rc) (accept_votes ws)"
proof (induction vs arbitrary: rc)
  case (Cons v vs)
  then show ?case by (cases "accept_vote v rc") auto
qed simp

lemma rc_inv_weights:
  assumes "rc_inv votes rc"
  shows "Prevote (rc_weights rc k) = prevotes votes k"
    and "Precommit (rc_weights rc k) = precommits votes (\<lambda>q. k \<in> anc (rc_tree rc) q)"
    and "rc_cumulativePrecommitWeight rc = precommits votes (\<lambda>q. smap_find (rc_tree rc) q \<noteq> None)"
    and "tree_inv (rc_tree rc)" "smap_inv (rc_candidates rc)" "dom (smap_find (rc_candidates rc)) = dom (smap_find (rc_tree rc))"
proof -
  have "precommits votes (\<lambda>q. q \<in> dom (smap_find (rc_tree rc)) \<and> k \<in> anc (rc_tree rc) q) = precommits votes (\<lambda>q. k \<in> anc (rc_tree rc) q)" for k
    by (rule precommits_cong) (auto simp: anc_def)
  moreover have "precommits votes (\<lambda>q. q \<in> dom (smap_find (rc_tree rc))) = precommits votes (\<lambda>q. smap_find (rc_tree rc) q \<noteq> None)"
    by (rule precommits_cong) auto
  ultimately show "Prevote (rc_weights rc k) = prevotes votes k"
    "Precommit (rc_weights rc k) = precommits votes (\<lambda>q. k \<in> anc (rc_tree rc) q)"
    "rc_cumulativePrecommitWeight rc = precommits votes (\<lambda>q. smap_find (rc_tree rc) q \<noteq> None)"
    "tree_inv (rc_tree rc)" "smap_inv (rc_candidates rc)" "dom (smap_find (rc_candidates rc)) = dom (smap_find (rc_tree rc))"
    using assms by (simp_all add: rc_inv_def tallied_def del: split_paired_All)
qed

subsection \<open>The searches\<close>

lemma find_last_spec:
  assumes "sorted_wrt (<) (map fst cs)" "\<And>k w. P k w = Some (Q k w)"
  shows "find_last P (rev cs) = Some (if \<exists>(k, w)\<in>set cs. Q k w then Some (Max {k. \<exists>w. (k, w) \<in> set cs \<and> Q k w}) else None)"
  using assms(1)
proof (induction cs rule: rev_induct)
  case (snoc c cs)
  obtain k w where c: "c = (k, w)" by (cases c)
  show ?case
  proof (cases "Q k w")
    case True
    have fin: "finite {q. \<exists>v. (q, v) \<in> set (cs @ [c]) \<and> Q q v}" by (rule finite_subset [of _ "fst ` set (cs @ [c])"]) force+
    have "Max {q. \<exists>v. (q, v) \<in> set (cs @ [c]) \<and> Q q v} = k"
      by (rule Max_eqI [OF fin]) (use snoc.prems True c in \<open>auto simp: sorted_wrt_append intro: less_imp_le\<close>)
    then show ?thesis using True c assms(2) by auto
  next
    case False
    then have "{q. \<exists>v. (q, v) \<in> set (cs @ [c]) \<and> Q q v} = {q. \<exists>v. (q, v) \<in> set cs \<and> Q q v}" using c by auto
    then show ?thesis using False c assms(2) snoc.IH snoc.prems by (auto simp: sorted_wrt_append)
  qed
qed simp

lemma tryFindLastMatch_spec:
  assumes "rc_inv votes rc" "\<And>k w. P k w = Some (Q k w)"
  shows "tryFindLastMatch rc P = Some r \<Longrightarrow>
      (case r of None \<Rightarrow> \<forall>k. smap_find (rc_tree rc) k \<noteq> None \<longrightarrow> \<not> Q k (rc_weights rc k)
       | Some k \<Rightarrow> smap_find (rc_tree rc) k \<noteq> None \<and> Q k (rc_weights rc k)
           \<and> (\<forall>q. smap_find (rc_tree rc) q \<noteq> None \<and> Q q (rc_weights rc q) \<longrightarrow> q \<le> k))"
    and "\<exists>r. tryFindLastMatch rc P = Some r"
proof -
  let ?cs = "rc_candidates rc" and ?M = "{k. \<exists>w. (k, w) \<in> set (rc_candidates rc) \<and> Q k w}"
  have inv: "smap_inv ?cs" "dom (smap_find ?cs) = dom (smap_find (rc_tree rc))" using rc_inv_weights(5,6) [OF assms(1)] by auto
  have mem: "(k, w) \<in> set ?cs \<longleftrightarrow> smap_find (rc_tree rc) k \<noteq> None \<and> w = rc_weights rc k" for k w
  proof -
    have "k \<in> dom (smap_find ?cs) \<longleftrightarrow> k \<in> dom (smap_find (rc_tree rc))" by (simp only: inv(2))
    then have "smap_find (rc_tree rc) k \<noteq> None \<longleftrightarrow> (\<exists>v. smap_find ?cs k = Some v)" by auto
    then show ?thesis using smap_find_in_set [OF inv(1), of k w] by (auto simp: rc_weights_def)
  qed
  have eq: "tryFindLastMatch rc P = Some (if \<exists>(k, w)\<in>set ?cs. Q k w then Some (Max ?M) else None)"
    unfolding tryFindLastMatch_def by (rule find_last_spec) (use inv(1) assms(2) in \<open>auto simp: smap_inv_def\<close>)
  then show "\<exists>r. tryFindLastMatch rc P = Some r" by blast
  assume r: "tryFindLastMatch rc P = Some r"
  have fin: "finite ?M" by (rule finite_subset [of _ "fst ` set ?cs"]) force+
  show "case r of None \<Rightarrow> \<forall>k. smap_find (rc_tree rc) k \<noteq> None \<longrightarrow> \<not> Q k (rc_weights rc k)
       | Some k \<Rightarrow> smap_find (rc_tree rc) k \<noteq> None \<and> Q k (rc_weights rc k)
           \<and> (\<forall>q. smap_find (rc_tree rc) q \<noteq> None \<and> Q q (rc_weights rc q) \<longrightarrow> q \<le> k)"
  proof (cases "\<exists>(k, w)\<in>set ?cs. Q k w")
    case True
    then have ne: "?M \<noteq> {}" by auto
    have "Max ?M \<in> ?M" by (rule Max_in [OF fin ne])
    moreover have "q \<le> Max ?M" if "smap_find (rc_tree rc) q \<noteq> None" "Q q (rc_weights rc q)" for q
      by (rule Max_ge [OF fin]) (use that mem in auto)
    ultimately show ?thesis using True eq r mem by auto
  next
    case False
    then have "r = None" using eq r by auto
    moreover have "\<not> Q k (rc_weights rc k)" if "smap_find (rc_tree rc) k \<noteq> None" for k
      using False mem [THEN iffD2, of k "rc_weights rc k"] that by force
    ultimately show ?thesis by simp
  qed
qed

subsection \<open>Weights that can still be reached\<close>

lemma anc_height:
  assumes "tree_heights t" "a \<in> anc t k"
  shows "a = k \<or> fst a < fst k"
proof -
  have "(k, a) \<in> (parent_rel t)\<^sup>*" using assms(2) by (auto simp: anc_def split: if_splits)
  then show ?thesis
  proof (induction rule: rtrancl_induct)
    case (step p q)
    then have "smap_find t p = Some (Some q)" by (simp add: parent_rel_def)
    then have "fst q < fst p" using assms(1) unfolding tree_heights_def by blast
    then show ?case using step.IH by auto
  qed simp
qed

text \<open>The ancestors of a node form a chain.\<close>

lemma anc_linear:
  assumes "tree_inv t" "a \<in> anc t c" "b \<in> anc t c"
  shows "a \<in> anc t b \<or> b \<in> anc t a"
proof -
  have "smap_find t c \<noteq> None" using assms(2) by (auto simp: anc_def split: if_splits)
  from assms(1) this assms(2,3) show ?thesis
  proof (induction c rule: tree_induct)
    case (root k)
    then show ?case using anc_self [of t k] by (auto simp: anc_root)
  next
    case (step k p)
    then show ?case by (auto simp: anc_step [OF assms(1) step(1)])
  qed
qed

text \<open>The precommit weights of votes as numbers.\<close>

fun precommit_nat :: "(HeightHashPair \<Rightarrow> bool) \<Rightarrow> vote \<Rightarrow> nat" where
  "precommit_nat P (PrevoteOf height hashes weight) = 0"
| "precommit_nat P (PrecommitOf key weight) = (if P key then unat weight else 0)"

definition precommits_nat :: "vote list \<Rightarrow> (HeightHashPair \<Rightarrow> bool) \<Rightarrow> nat" where
  "precommits_nat votes P = (\<Sum>v\<leftarrow>votes. precommit_nat P v)"

lemma precommits_nat_simps [simp]:
  "precommits_nat [] P = 0" "precommits_nat (v # vs) P = precommit_nat P v + precommits_nat vs P"
  "precommits_nat (vs @ ws) P = precommits_nat vs P + precommits_nat ws P"
  by (simp_all add: precommits_nat_def)

lemma precommits_nat_mono: "(\<And>q. P q \<Longrightarrow> Q q) \<Longrightarrow> precommits_nat votes P \<le> precommits_nat votes Q"
proof (induction votes)
  case (Cons v votes)
  then show ?case by (cases v) (auto intro: add_mono)
qed simp

lemma precommits_unat: "precommits_nat votes P < 2 ^ 64 \<Longrightarrow> unat (precommits votes P) = precommits_nat votes P"
proof (induction votes)
  case (Cons v votes)
  then have "unat (precommits votes P) = precommits_nat votes P" by simp
  moreover have "unat (precommit_part P v) = precommit_nat P v" by (cases v) auto
  ultimately show ?case using Cons.prems by (simp add: word_add_no_wrap)
qed simp

text \<open>Later weights of a key: what it has, and at most the precommits that were not counted yet.\<close>

lemma precommits_later:
  assumes "\<And>q. D q \<Longrightarrow> P' q \<Longrightarrow> P q" "\<And>q. P q \<Longrightarrow> D q"
  shows "precommits_nat (vs @ ws) P' + precommits_nat vs D \<le> precommits_nat vs P + precommits_nat (vs @ ws) (\<lambda>_. True)"
proof -
  have "precommits_nat vs P' + precommits_nat vs D \<le> precommits_nat vs P + precommits_nat vs (\<lambda>_. True)"
  proof (induction vs)
    case (Cons v vs)
    have "precommit_nat P' v + precommit_nat D v \<le> precommit_nat P v + precommit_nat (\<lambda>_. True) v"
      using assms by (cases v) auto
    then show ?case using Cons by simp
  qed simp
  moreover have "precommits_nat ws P' \<le> precommits_nat ws (\<lambda>_. True)" by (rule precommits_nat_mono) simp
  ultimately show ?thesis by simp
qed

lemma unreachable_stays:
  assumes rc: "rc_inv vs rc" and rc': "rc_inv (vs @ ws) rc'"
    and lim: "same_limits rc rc'" and ext: "smap_find (rc_tree rc) \<subseteq>\<^sub>m smap_find (rc_tree rc')"
    and total: "precommits_nat (vs @ ws) (\<lambda>_. True) \<le> unat (rc_totalWeight rc)"
    and un: "\<not> canReachPrecommitThreshold rc (rc_weights rc k)"
  shows "Precommit (rc_weights rc' k) < rc_threshold rc'"
proof -
  let ?t = "rc_tree rc" and ?t' = "rc_tree rc'" and ?W = "unat (rc_totalWeight rc)"
  let ?P = "\<lambda>q. k \<in> anc ?t q" and ?P' = "\<lambda>q. k \<in> anc ?t' q" and ?D = "\<lambda>q. smap_find ?t q \<noteq> None"
  note w = rc_inv_weights [OF rc] and w' = rc_inv_weights [OF rc']
  have later: "precommits_nat (vs @ ws) ?P' + precommits_nat vs ?D \<le> precommits_nat vs ?P + precommits_nat (vs @ ws) (\<lambda>_. True)"
  proof (rule precommits_later)
    show "?D q \<Longrightarrow> ?P' q \<Longrightarrow> ?P q" for q using anc_extend [OF w(4) w'(4) ext] by simp
    show "?P q \<Longrightarrow> ?D q" for q by (auto simp: anc_def split: if_splits)
  qed
  have W: "?W < 2 ^ 64" using unsigned_less [of "rc_totalWeight rc", where ?'a = nat] by simp
  have le: "precommits_nat vs ?P \<le> precommits_nat vs ?D" by (rule precommits_nat_mono) (auto simp: anc_def split: if_splits)
  have D: "precommits_nat vs ?D \<le> ?W" using precommits_nat_mono [of ?D "\<lambda>_. True" vs] total by simp
  have P': "precommits_nat (vs @ ws) ?P' \<le> ?W" using precommits_nat_mono [of ?P' "\<lambda>_. True" "vs @ ws"] total by simp
  have u: "unat (Precommit (rc_weights rc k)) = precommits_nat vs ?P" "unat (rc_cumulativePrecommitWeight rc) = precommits_nat vs ?D"
    "unat (Precommit (rc_weights rc' k)) = precommits_nat (vs @ ws) ?P'"
    unfolding w(2,3) w'(2) by (rule precommits_unat, use W le D P' in linarith)+
  have sub: "unat (rc_totalWeight rc - rc_cumulativePrecommitWeight rc) = ?W - precommits_nat vs ?D"
    using word_sub_no_wrap [of "rc_cumulativePrecommitWeight rc" "rc_totalWeight rc"] D u(2) by (simp add: word_le_nat_alt)
  have "unat (Precommit (rc_weights rc k) + (rc_totalWeight rc - rc_cumulativePrecommitWeight rc)) = precommits_nat vs ?P + (?W - precommits_nat vs ?D)"
    using word_add_no_wrap [of "Precommit (rc_weights rc k)" "rc_totalWeight rc - rc_cumulativePrecommitWeight rc"] u(1) sub le D W by simp
  then have "precommits_nat vs ?P + (?W - precommits_nat vs ?D) < unat (rc_threshold rc)"
    using un by (simp add: canReachPrecommitThreshold_def not_le word_less_nat_alt)
  then show ?thesis using later total D u(3) lim by (simp add: word_less_nat_alt same_limits_def)
qed

lemma unreachable_descendants:
  assumes "rc_inv votes rc" "precommits_nat votes (\<lambda>_. True) < 2 ^ 64" "b \<in> anc (rc_tree rc) k"
  shows "Precommit (rc_weights rc k) \<le> Precommit (rc_weights rc b)"
proof -
  let ?P = "\<lambda>a q. a \<in> anc (rc_tree rc) q"
  have "precommits_nat votes (?P k) \<le> precommits_nat votes (?P b)"
    by (rule precommits_nat_mono) (rule anc_trans [OF rc_inv_weights(4) [OF assms(1)] assms(3)])
  moreover have "precommits_nat votes (?P a) < 2 ^ 64" for a
    using precommits_nat_mono [of "?P a" "\<lambda>_. True" votes] assms(2) by simp
  ultimately show ?thesis by (simp add: rc_inv_weights(2) [OF assms(1)] word_le_nat_alt precommits_unat)
qed

subsection \<open>Completable rounds\<close>

lemma completable_loop_spec:
  assumes "tree_inv (rc_tree rc)" "completable_loop rc b cs = Some True" "(k, w) \<in> set cs" "k \<noteq> b" "b \<in> anc (rc_tree rc) k"
  shows "\<not> canReachPrecommitThreshold rc w"
  using assms
  by (induction rc b cs rule: completable_loop.induct) (auto simp: isDescendant_anc split: if_splits)

lemma completable_cases:
  assumes "rc_inv votes rc" "isCompletable rc = Some True" "\<forall>v\<in>set votes. no_wrap v"
  shows "\<exists>b estimate. tryFindBestPrevote rc = Some (Some b) \<and> tryFindEstimate rc = Some estimate \<and> smap_find (rc_tree rc) b \<noteq> None
    \<and> (\<forall>k. k \<in> anc (rc_tree rc) b \<and> canReachPrecommitThreshold rc (rc_weights rc k) \<longrightarrow> (\<exists>e. estimate = Some e \<and> k \<in> anc (rc_tree rc) e))
    \<and> (\<not> canReachPrecommitThreshold rc (rc_weights rc b)
       \<or> (\<forall>k. k \<noteq> b \<and> (b \<in> anc (rc_tree rc) k \<or> smap_find (rc_tree rc) k = None) \<longrightarrow> \<not> canReachPrecommitThreshold rc (rc_weights rc k)))"
proof -
  let ?t = "rc_tree rc"
  note w = rc_inv_weights [OF assms(1)]
  obtain b where b: "tryFindBestPrevote rc = Some (Some b)" using assms(2) by (auto simp: isCompletable_def split: option.splits)
  have tb: "smap_find ?t b \<noteq> None"
    using tryFindLastMatch_spec(1) [OF assms(1), of "\<lambda>_ weights. Some (Prevote weights \<ge> rc_threshold rc)" "\<lambda>_ weights. Prevote weights \<ge> rc_threshold rc"] b
    unfolding tryFindBestPrevote_def by fastforce
  let ?Q = "\<lambda>k weights. k \<in> anc ?t b \<and> canReachPrecommitThreshold rc weights"
  have pred: "map_option (\<lambda>d. d \<and> canReachPrecommitThreshold rc weights) (ht_isDescendant ?t k b) = Some (?Q k weights)" for k weights
    by (simp add: isDescendant_anc [OF w(4)])
  obtain estimate where e: "tryFindEstimate_from rc b = Some estimate" "tryFindEstimate rc = Some estimate"
    using tryFindLastMatch_spec(2) [OF assms(1), of "\<lambda>k weights. map_option (\<lambda>d. d \<and> canReachPrecommitThreshold rc weights) (ht_isDescendant ?t k b)", OF pred] b
    by (auto simp: tryFindEstimate_from_def tryFindEstimate_def)
  have spec: "case estimate of None \<Rightarrow> \<forall>k. smap_find ?t k \<noteq> None \<longrightarrow> \<not> ?Q k (rc_weights rc k)
       | Some e \<Rightarrow> smap_find ?t e \<noteq> None \<and> ?Q e (rc_weights rc e) \<and> (\<forall>q. smap_find ?t q \<noteq> None \<and> ?Q q (rc_weights rc q) \<longrightarrow> q \<le> e)"
    by (rule tryFindLastMatch_spec(1) [OF assms(1) pred]) (use e(1) in \<open>simp add: tryFindEstimate_from_def\<close>)
  have th: "tree_heights ?t" using assms(1,3) by (simp add: rc_inv_def)
  have below: "\<exists>e. estimate = Some e \<and> k \<in> anc ?t e" if k: "k \<in> anc ?t b" "canReachPrecommitThreshold rc (rc_weights rc k)" for k
  proof -
    have tk: "smap_find ?t k \<noteq> None" using anc_subset_dom [OF w(4)] k(1) by blast
    then obtain e where e': "estimate = Some e" "e \<in> anc ?t b" "k \<le> e" using spec k by (cases estimate) (simp_all del: split_paired_All)
    have "k \<in> anc ?t e"
    proof (rule ccontr)
      assume no: "k \<notin> anc ?t e"
      then have "e \<in> anc ?t k" "e \<noteq> k" using anc_linear [OF w(4) k(1) e'(2)] anc_self [OF tk] by auto
      then have "fst e < fst k" using anc_height [OF th] by blast
      then show False using e'(3) by (auto simp: less_eq_prod_def)
    qed
    then show ?thesis using e'(1) by blast
  qed
  have "\<not> canReachPrecommitThreshold rc (rc_weights rc b)
       \<or> (\<forall>k. k \<noteq> b \<and> (b \<in> anc ?t k \<or> smap_find ?t k = None) \<longrightarrow> \<not> canReachPrecommitThreshold rc (rc_weights rc k))"
  proof (cases "estimate \<noteq> None \<and> Some b \<noteq> estimate")
    case True
    then obtain e where e': "estimate = Some e" "e \<noteq> b" by auto
    have "\<not> canReachPrecommitThreshold rc (rc_weights rc b)"
    proof
      assume "canReachPrecommitThreshold rc (rc_weights rc b)"
      from below [OF anc_self [OF tb] this] e'(1) have "b \<in> anc ?t e" by simp
      then have "fst b < fst e" using anc_height [OF th] e'(2) by blast
      moreover have "e \<in> anc ?t b" using spec e'(1) by simp
      then have "fst e < fst b" using anc_height [OF th] e'(2) by blast
      ultimately show False by simp
    qed
    then show ?thesis ..
  next
    case False
    have zero: "\<not> canReachPrecommitThreshold rc new_Weights" and loop: "completable_loop rc b (rev (rc_candidates rc)) = Some True"
      using assms(2) b e(1) False by (auto simp: isCompletable_def split: if_splits)
    have "\<not> canReachPrecommitThreshold rc (rc_weights rc k)" if k: "k \<noteq> b" "b \<in> anc ?t k \<or> smap_find ?t k = None" for k
    proof (cases "smap_find (rc_candidates rc) k")
      case None
      then show ?thesis using zero by (simp add: rc_weights_def)
    next
      case (Some v)
      then have "k \<in> dom (smap_find ?t)" unfolding w(6) [symmetric] by auto
      then have "b \<in> anc ?t k" using k(2) by auto
      moreover have "(k, v) \<in> set (rev (rc_candidates rc))" using Some smap_find_in_set [OF w(5)] by simp
      ultimately show ?thesis using completable_loop_spec [OF w(4) loop _ k(1)] Some by (simp add: rc_weights_def)
    qed
    then show ?thesis by blast
  qed
  then show ?thesis using b e(2) tb below by blast
qed

subsection \<open>Properties\<close>

text \<open>
  C15. The tally is exact. Whatever prevotes and precommits a round has accepted, in any order, none of the operations follows a cycle or uses a missing
  candidate. The candidates are the hashes of the prevotes; the prevote weight of a candidate is the sum of the weights of
  the prevotes that contain it, its precommit weight the sum of the weights of the precommits for it and for its descendants in the tree, also of those that
  came before the prevote that brought their target, and the cumulative weight that of the precommits for candidates. Sums are modulo \<open>2\<^sup>6\<^sup>4\<close>, as in the code.
\<close>

theorem round_tally_exact:
  assumes "\<forall>v\<in>set votes. well_sized v"
  shows "\<exists>rc. accept_votes votes (new_RoundContext weight threshold) = Some rc
    \<and> dom (smap_find (rc_candidates rc)) = (\<Union>v\<in>set votes. vote_keys v)
    \<and> (\<forall>k. Prevote (rc_weights rc k) = prevotes votes k
          \<and> Precommit (rc_weights rc k) = precommits votes (\<lambda>q. rc_isDescendant rc k q = Some True))
    \<and> rc_cumulativePrecommitWeight rc = precommits votes (\<lambda>q. smap_contains (rc_candidates rc) q)"
proof -
  obtain rc where rc: "accept_votes votes (new_RoundContext weight threshold) = Some rc" "rc_inv votes rc"
    using accept_votes_inv [OF rc_inv_new assms] by auto
  note w = rc_inv_weights [OF rc(2)]
  have d: "rc_isDescendant rc k q = Some True \<longleftrightarrow> k \<in> anc (rc_tree rc) q" for k q by (simp add: rc_isDescendant_def isDescendant_anc [OF w(4)])
  have c: "smap_contains (rc_candidates rc) q \<longleftrightarrow> smap_find (rc_tree rc) q \<noteq> None" for q
    unfolding smap_contains_dom w(6) by auto
  have "dom (smap_find (rc_candidates rc)) = (\<Union>v\<in>set votes. vote_keys v)" using rc(2) w(6) by (simp add: rc_inv_def)
  moreover have "Precommit (rc_weights rc k) = precommits votes (\<lambda>q. rc_isDescendant rc k q = Some True)" for k
    unfolding w(2) by (rule precommits_cong) (simp only: d)
  moreover have "rc_cumulativePrecommitWeight rc = precommits votes (\<lambda>q. smap_contains (rc_candidates rc) q)"
    unfolding w(3) by (rule precommits_cong) (simp only: c)
  ultimately show ?thesis using rc(1) w(1) by (intro exI [of _ rc] conjI allI)
qed

text \<open>
  C5. A completable round has settled its estimate. Suppose that the precommits of a round, those of the past and of the future together, do not weigh more than the total weight, that the heights of its prevotes do not wrap around, and that the
  round is completable at some time. Then it has a best prevote at that time, and whatever is accepted later, a candidate that lies on a chain with this best prevote can
  reach the threshold of precommits only if it is an ancestor of the estimate (or the estimate itself), which therefore exists.
\<close>

theorem completable_round_settles_estimate:
  assumes "\<forall>v\<in>set (vs @ ws). no_wrap v" "precommits_nat (vs @ ws) (\<lambda>_. True) \<le> unat weight"
    and "accept_votes vs (new_RoundContext weight threshold) = Some rc" "isCompletable rc = Some True"
    and "accept_votes ws rc = Some rc'"
  shows "\<exists>b. tryFindBestPrevote rc = Some (Some b)
    \<and> (\<forall>k. (rc_isDescendant rc' k b = Some True \<or> rc_isDescendant rc' b k = Some True) \<and> Precommit (rc_weights rc' k) \<ge> threshold
        \<longrightarrow> (\<exists>e. tryFindEstimate rc = Some (Some e) \<and> rc_isDescendant rc k e = Some True))"
proof -
  have rc: "rc_inv vs rc" "same_limits (new_RoundContext weight threshold) rc" using accept_votes_inv [OF rc_inv_new, of vs weight threshold] assms(1,3) by (auto dest: no_wrap_sized)
  then have lim: "rc_totalWeight rc = weight" "rc_threshold rc = threshold" by (simp_all add: same_limits_def new_RoundContext_def)
  have rc': "rc_inv (vs @ ws) rc'" "same_limits rc rc'" "smap_find (rc_tree rc) \<subseteq>\<^sub>m smap_find (rc_tree rc')"
    using accept_votes_inv [OF rc(1), of ws] assms(1,5) by (auto dest: no_wrap_sized)
  then have lim': "rc_threshold rc' = threshold" using lim by (simp add: same_limits_def)
  let ?t = "rc_tree rc" and ?t' = "rc_tree rc'"
  note w = rc_inv_weights(4) [OF rc(1)] and w' = rc_inv_weights(4) [OF rc'(1)]
  have reached: "canReachPrecommitThreshold rc (rc_weights rc k)" if "Precommit (rc_weights rc' k) \<ge> threshold" for k
    using unreachable_stays [OF rc(1) rc'(1-3)] assms(2) lim lim' that by (metis not_le)
  obtain b estimate where b: "tryFindBestPrevote rc = Some (Some b)" "tryFindEstimate rc = Some estimate" "smap_find ?t b \<noteq> None"
      "\<forall>k. k \<in> anc ?t b \<and> canReachPrecommitThreshold rc (rc_weights rc k) \<longrightarrow> (\<exists>e. estimate = Some e \<and> k \<in> anc ?t e)"
      "\<not> canReachPrecommitThreshold rc (rc_weights rc b)
       \<or> (\<forall>k. k \<noteq> b \<and> (b \<in> anc ?t k \<or> smap_find ?t k = None) \<longrightarrow> \<not> canReachPrecommitThreshold rc (rc_weights rc k))"
  proof -
    note intro = that
    have "\<forall>v\<in>set vs. no_wrap v" using assms(1) by simp
    from completable_cases [OF rc(1) assms(4) this] show thesis by (elim exE conjE) (rule intro)
  qed
  have anc_b: "anc ?t' b = anc ?t b" by (rule anc_extend [OF w w' rc'(3) b(3)])
  have "k \<in> anc ?t b" if k: "k \<in> anc ?t' b \<or> b \<in> anc ?t' k" "Precommit (rc_weights rc' k) \<ge> threshold" for k
  proof (cases "k \<in> anc ?t' b")
    case False
    then have bk: "b \<in> anc ?t' k" "k \<noteq> b" using k(1) anc_self [OF b(3)] anc_b by auto
    have "unat weight < 2 ^ 64" using unsigned_less [of weight, where ?'a = nat] by simp
    then have "Precommit (rc_weights rc' k) \<le> Precommit (rc_weights rc' b)"
      using unreachable_descendants [OF rc'(1) _ bk(1)] assms(2) by simp
    then have "canReachPrecommitThreshold rc (rc_weights rc b)" using reached [of b] k(2) by simp
    then have "\<not> (b \<in> anc ?t k \<or> smap_find ?t k = None)" using b(5) bk(2) reached [OF k(2)] by blast
    then show ?thesis using anc_extend [OF w w' rc'(3), of k] bk(1) by auto
  qed (use anc_b in simp)
  then have "\<exists>e. tryFindEstimate rc = Some (Some e) \<and> k \<in> anc ?t e"
    if "k \<in> anc ?t' b \<or> b \<in> anc ?t' k" "Precommit (rc_weights rc' k) \<ge> threshold" for k
    using b(2) b(4) [rule_format, of k] reached [of k] that by auto
  then show ?thesis using b(1) by (simp add: rc_isDescendant_def isDescendant_anc [OF w] isDescendant_anc [OF w'] del: split_paired_All)
qed

subsection \<open>Witnesses\<close>

definition example_past :: "vote list" where
  "example_past = [PrecommitOf (1, 10) 4, PrevoteOf 1 [10, 20] 8]"

definition example_future :: "vote list" where
  "example_future = [PrecommitOf (1, 10) 3]"

theorem round_tally_exact_witness:
  "\<exists>rc. accept_votes (example_past @ example_future) (new_RoundContext 10 7) = Some rc \<and> Prevote (rc_weights rc (2, 20)) = 8 \<and> Precommit (rc_weights rc (1, 10)) = 7"
proof -
  have "\<forall>v\<in>set (example_past @ example_future). well_sized v" by (simp add: example_past_def example_future_def)
  from round_tally_exact [OF this, of 10 7] obtain rc where rc: "accept_votes (example_past @ example_future) (new_RoundContext 10 7) = Some rc"
    "Prevote (rc_weights rc (2, 20)) = prevotes (example_past @ example_future) (2, 20)" by blast
  moreover have "map_option (\<lambda>rc. Precommit (rc_weights rc (1, 10))) (accept_votes (example_past @ example_future) (new_RoundContext 10 7)) = Some 7" by code_simp
  moreover have "prevotes (example_past @ example_future) (2, 20) = 8" by code_simp
  ultimately show ?thesis by auto
qed

theorem completable_round_settles_estimate_witness:
  "\<exists>rc rc' e. accept_votes example_past (new_RoundContext 10 7) = Some rc \<and> isCompletable rc = Some True \<and> accept_votes example_future rc = Some rc'
    \<and> Precommit (rc_weights rc' (1, 10)) \<ge> 7 \<and> tryFindEstimate rc = Some (Some e) \<and> rc_isDescendant rc (1, 10) e = Some True"
proof -
  have sized: "\<forall>v\<in>set (example_past @ example_future). no_wrap v" and total: "precommits_nat (example_past @ example_future) (\<lambda>_. True) \<le> unat (10 :: uint64)"
    by (simp_all add: example_past_def example_future_def)
  have "Option.bind (accept_votes example_past (new_RoundContext 10 7)) (\<lambda>rc. Option.bind (accept_votes example_future rc) (\<lambda>rc'.
      if isCompletable rc = Some True \<and> tryFindBestPrevote rc = Some (Some (2, 20)) \<and> rc_isDescendant rc' (1, 10) (2, 20) = Some True
        \<and> Precommit (rc_weights rc' (1, 10)) \<ge> 7 then Some () else None)) = Some ()" by code_simp
  then obtain rc rc' where rc: "accept_votes example_past (new_RoundContext 10 7) = Some rc" "accept_votes example_future rc = Some rc'"
      "isCompletable rc = Some True" "tryFindBestPrevote rc = Some (Some (2, 20))" "rc_isDescendant rc' (1, 10) (2, 20) = Some True"
      "Precommit (rc_weights rc' (1, 10)) \<ge> 7"
    by (auto simp: bind_eq_Some_conv split: if_splits)
  from completable_round_settles_estimate [OF sized total rc(1,3,2)] rc(4,5,6)
  obtain e where "tryFindEstimate rc = Some (Some e)" "rc_isDescendant rc (1, 10) e = Some True"
    by (elim exE conjE) (drule spec [where x = "(1, 10)"], auto)
  then show ?thesis using rc by blast
qed

text \<open>
  The ancestors of a hash depend on the order of the prevotes. A hash that was the first one of a prevote stays without a parent when a later
  prevote brings its parent, so that its precommits do not count for the parent.
\<close>

lemma ancestors_depend_on_order:
  "map_option (\<lambda>rc. Precommit (rc_weights rc (4, 1))) (accept_votes [PrevoteOf 4 [1, 2] 5, PrevoteOf 5 [2] 5, PrecommitOf (5, 2) 5] (new_RoundContext 10 7)) = Some 5"
  "map_option (\<lambda>rc. Precommit (rc_weights rc (4, 1))) (accept_votes [PrevoteOf 5 [2] 5, PrevoteOf 4 [1, 2] 5, PrecommitOf (5, 2) 5] (new_RoundContext 10 7)) = Some 0"
  by code_simp+

end
