(* ===== verification/VotingSet.thy ===== *)
theory VotingSet
  imports AccountData "HOL-Library.Product_Lexorder"
begin

section \<open>Epochs, rounds and steps of finalization (catapult/model/VotingSet, finalization/src/model/StepIdentifier)\<close>

text \<open>
  Blocks are finalized by epochs, groups of consecutive heights with a fixed set of voters. An epoch has rounds (points), each with the two stages prevote and
  precommit; epoch, point and stage form a step identifier, which packs point and stage in one integer. Rounds
  are ordered by epoch and then point, the lexicographic order of pairs.
\<close>

unbundle bit_operations_syntax

subsection \<open>Definitions\<close>

type_synonym FinalizationPoint = uint32
type_synonym FinalizationRound = "FinalizationEpoch \<times> FinalizationPoint"

definition CheckParameters_epoch :: "FinalizationEpoch \<Rightarrow> uint64 \<Rightarrow> exn + unit" where
  "CheckParameters_epoch epoch grouping = (if 0 = grouping then Inl Invalid_Argument else if 0 = epoch then Inl Invalid_Argument else Inr ())"

definition CheckParameters_height :: "Height \<Rightarrow> uint64 \<Rightarrow> exn + unit" where
  "CheckParameters_height height grouping = (if 0 = grouping then Inl Invalid_Argument else if 0 = height then Inl Invalid_Argument else Inr ())"

definition CalculateVotingSetStartHeight :: "FinalizationEpoch \<Rightarrow> uint64 \<Rightarrow> exn + Height" where
  "CalculateVotingSetStartHeight epoch grouping =
     rbind (CheckParameters_epoch epoch grouping) (\<lambda>_. Inr (if epoch \<le> 2 then ucast epoch else ucast (epoch - 2) * grouping + 1))"

definition CalculateVotingSetEndHeight :: "FinalizationEpoch \<Rightarrow> uint64 \<Rightarrow> exn + Height" where
  "CalculateVotingSetEndHeight epoch grouping =
     rbind (CheckParameters_epoch epoch grouping) (\<lambda>_. Inr (if 1 = epoch then 1 else ucast (epoch - 1) * grouping))"

definition CalculateFinalizationEpochForHeight :: "Height \<Rightarrow> uint64 \<Rightarrow> exn + FinalizationEpoch" where
  "CalculateFinalizationEpochForHeight height grouping =
     rbind (CheckParameters_height height grouping) (\<lambda>_.
       Inr (if height \<le> 1 then 1
            else let adjustment = (if 0 = height mod grouping then 0 else 1) in 1 + adjustment + ucast (height div grouping)))"

definition Stage_Prevote :: uint32 where
  "Stage_Prevote = 0"

definition Stage_Precommit :: uint32 where
  "Stage_Precommit = 1"

record StepIdentifier =
  si_Epoch :: FinalizationEpoch
  si_PointStage :: uint32

definition new_StepIdentifier :: "FinalizationEpoch \<Rightarrow> FinalizationPoint \<Rightarrow> uint32 \<Rightarrow> StepIdentifier" where
  "new_StepIdentifier epoch point stage = \<lparr>si_Epoch = epoch, si_PointStage = push_bit 1 point OR (stage AND 1)\<rparr>"

definition si_Round :: "StepIdentifier \<Rightarrow> FinalizationRound" where
  "si_Round s = (si_Epoch s, drop_bit 1 (si_PointStage s))"

definition si_Stage :: "StepIdentifier \<Rightarrow> uint32" where
  "si_Stage s = si_PointStage s AND 1"

definition si_less :: "StepIdentifier \<Rightarrow> StepIdentifier \<Rightarrow> bool" where
  "si_less s rhs \<longleftrightarrow> (if si_Epoch s \<noteq> si_Epoch rhs then si_Epoch s < si_Epoch rhs else si_PointStage s < si_PointStage rhs)"

definition StepIdentifierToBmKeyIdentifier :: "StepIdentifier \<Rightarrow> uint64" where
  "StepIdentifierToBmKeyIdentifier s = ucast (si_Epoch s)"

subsection \<open>Voting sets partition the heights\<close>

lemma unat_ucast_32: "unat (ucast (e :: uint32) :: uint64) = unat e"
proof -
  have "unat e < 2 ^ 32" using unsigned_less [of e, where ?'a = nat] by simp
  then show ?thesis by (simp add: unsigned_ucast_eq take_bit_nat_eq_self)
qed

lemma unat_mult_no_wrap: "unat a * unat b < 2 ^ 64 \<Longrightarrow> unat (a * b :: uint64) = unat a * unat b"
  by (simp add: unat_mult_lem [THEN iffD1])

text \<open>The ends of an epoch as numbers.\<close>

lemma voting_set_bounds:
  fixes epoch :: FinalizationEpoch
  assumes "epoch \<noteq> 0" "grouping \<noteq> 0" "unat epoch * unat grouping < 2 ^ 64"
  obtains s e where "CalculateVotingSetStartHeight epoch grouping = Inr s" "CalculateVotingSetEndHeight epoch grouping = Inr e"
    "unat s = (if unat epoch \<le> 2 then unat epoch else (unat epoch - 2) * unat grouping + 1)"
    "unat e = (if unat epoch = 1 then 1 else (unat epoch - 1) * unat grouping)"
proof -
  let ?s = "if epoch \<le> 2 then ucast epoch else ucast (epoch - 2) * grouping + 1 :: uint64"
  let ?e = "if 1 = epoch then 1 else ucast (epoch - 1) * grouping :: uint64"
  have pos: "1 \<le> unat epoch" "1 \<le> unat grouping" using assms(1,2) by (simp_all add: Suc_le_eq unat_gt_0)
  have le2: "epoch \<le> 2 \<longleftrightarrow> unat epoch \<le> 2" by (simp add: word_le_nat_alt)
  have one: "1 = epoch \<longleftrightarrow> unat epoch = 1" by (auto simp: word_unat_eq_iff)
  have m1: "unat (epoch - 1) = unat epoch - 1" using pos by (simp add: unat_sub word_le_nat_alt)
  have small: "(unat epoch - 1) * unat grouping < 2 ^ 64" using assms(3) mult_le_mono1 [of "unat epoch - 1" "unat epoch" "unat grouping"] by linarith
  have "unat (ucast (epoch - 1) * grouping :: uint64) = (unat epoch - 1) * unat grouping"
    using unat_mult_no_wrap [of "ucast (epoch - 1)" grouping] small m1 by (simp add: unat_ucast_32)
  then have e: "unat ?e = (if unat epoch = 1 then 1 else (unat epoch - 1) * unat grouping)" unfolding one by simp
  have s: "unat ?s = (if unat epoch \<le> 2 then unat epoch else (unat epoch - 2) * unat grouping + 1)"
  proof (cases "unat epoch \<le> 2")
    case True
    then show ?thesis using le2 by (simp add: unat_ucast_32)
  next
    case False
    have m2: "unat (epoch - 2) = unat epoch - 2" using False by (simp add: unat_sub word_le_nat_alt)
    have lt: "(unat epoch - 2) * unat grouping + 1 < 2 ^ 64"
    proof -
      have "(unat epoch - 2) * unat grouping + 2 * unat grouping = unat epoch * unat grouping" using False by (simp add: algebra_simps)
      then show ?thesis using assms(3) pos(2) by linarith
    qed
    then have "unat (ucast (epoch - 2) * grouping :: uint64) = (unat epoch - 2) * unat grouping"
      using unat_mult_no_wrap [of "ucast (epoch - 2)" grouping] m2 by (simp add: unat_ucast_32)
    then have "unat (ucast (epoch - 2) * grouping + 1 :: uint64) = (unat epoch - 2) * unat grouping + 1"
      using lt by (subst word_add_no_wrap) simp_all
    then show ?thesis using False le2 by simp
  qed
  show thesis by (rule that [OF _ _ s e]) (use assms(1,2) in \<open>simp_all add: CalculateVotingSetStartHeight_def CalculateVotingSetEndHeight_def CheckParameters_epoch_def\<close>)
qed

lemma round_up_div:
  fixes g h :: nat
  assumes "0 < g"
  shows "(h + g - 1) div g = h div g + (if h mod g = 0 then 0 else 1)"
proof -
  let ?k = "h div g" and ?r = "h mod g"
  have h: "h = g * ?k + ?r" by simp
  have r: "?r < g" using assms by simp
  show ?thesis
  proof (cases "?r = 0")
    case True
    then have "g * ?k \<le> h + g - 1" "h + g - 1 < g * Suc ?k" using h assms unfolding mult_Suc_right by linarith+
    then have "(h + g - 1) div g = ?k" by (rule div_nat_eqI)
    then show ?thesis using True by simp
  next
    case False
    then have "g * Suc ?k \<le> h + g - 1" "h + g - 1 < g * Suc (Suc ?k)" using h r unfolding mult_Suc_right by linarith+
    then have "(h + g - 1) div g = Suc ?k" by (rule div_nat_eqI)
    then show ?thesis using False by simp
  qed
qed

lemma round_up_iff:
  fixes g h n :: nat
  assumes "0 < g" "0 < h"
  shows "(h + g - 1) div g = Suc n \<longleftrightarrow> g * n < h \<and> h \<le> g * Suc n"
proof
  assume n: "(h + g - 1) div g = Suc n"
  have "g * Suc n \<le> h + g - 1" using times_div_less_eq_dividend [of g "h + g - 1"] unfolding n .
  moreover have "h + g - 1 < g * Suc n + g" using dividend_less_times_div [OF assms(1), of "h + g - 1"] unfolding n by linarith
  ultimately show "g * n < h \<and> h \<le> g * Suc n" using assms unfolding mult_Suc_right by linarith
next
  assume "g * n < h \<and> h \<le> g * Suc n"
  then have "g * Suc n \<le> h + g - 1" "h + g - 1 < g * Suc (Suc n)" using assms unfolding mult_Suc_right by linarith+
  then show "(h + g - 1) div g = Suc n" by (rule div_nat_eqI)
qed

lemma epoch_for_height:
  assumes "height \<noteq> 0" "grouping \<noteq> 0" "unat height div unat grouping + 2 < 2 ^ 32"
  obtains epoch where "CalculateFinalizationEpochForHeight height grouping = Inr epoch"
    "unat epoch = (if unat height = 1 then 1 else 1 + (unat height + unat grouping - 1) div unat grouping)"
proof -
  let ?a = "if 0 = height mod grouping then 0 else 1 :: uint32"
  let ?e = "if height \<le> 1 then 1 else 1 + ?a + ucast (height div grouping) :: uint32"
  have pos: "1 \<le> unat height" "0 < unat grouping" using assms(1,2) by (simp_all add: Suc_le_eq unat_gt_0)
  have le1: "height \<le> 1 \<longleftrightarrow> unat height = 1" using pos by (auto simp: word_le_nat_alt)
  have q: "unat (ucast (height div grouping) :: uint32) = unat height div unat grouping"
    using assms(3) by (simp add: unsigned_ucast_eq unat_div take_bit_nat_eq_self)
  have a: "unat ?a = (if unat height mod unat grouping = 0 then 0 else 1)"
    by (auto simp: word_unat_eq_iff unat_mod)
  have up: "(unat height + unat grouping - 1) div unat grouping = unat height div unat grouping + (if unat height mod unat grouping = 0 then 0 else 1)"
    by (rule round_up_div [OF pos(2)])
  have "unat (1 + ?a) = 1 + unat ?a" by simp
  then have "unat (1 + ?a + ucast (height div grouping)) = 1 + unat ?a + unat height div unat grouping"
    using assms(3) q a by (subst word_add_no_wrap) auto
  then have "unat ?e = (if unat height = 1 then 1 else 1 + (unat height + unat grouping - 1) div unat grouping)" unfolding up a le1 by simp
  then show thesis by (rule that [rotated]) (use assms(1,2) in \<open>simp add: CalculateFinalizationEpochForHeight_def CheckParameters_height_def Let_def\<close>)
qed

text \<open>In which epoch a height is, with numbers.\<close>

lemma epoch_contains:
  fixes g h e :: nat
  assumes "0 < g" "0 < h" "0 < e"
  shows "(if e \<le> 2 then e else (e - 2) * g + 1) \<le> h \<and> h \<le> (if e = 1 then 1 else (e - 1) * g) \<longleftrightarrow> e = (if h = 1 then 1 else 1 + (h + g - 1) div g)"
proof -
  have pos: "0 < (h + g - 1) div g" using assms by (simp add: div_greater_zero_iff)
  consider "e = 1" | "e = 2" | n where "e = Suc (Suc (Suc n))" using assms(3) by (cases e rule: nat.exhaust; cases "e - 1" rule: nat.exhaust; cases "e - 2") auto
  then show ?thesis
  proof cases
    case 1
    then show ?thesis using assms pos by auto
  next
    case 2
    then show ?thesis using assms round_up_iff [OF assms(1,2), of 0] by auto
  next
    case 3
    have "0 < g * Suc n" using assms(1) by simp
    moreover have "g * Suc n + 1 \<le> h \<longleftrightarrow> g * Suc n < h" by auto
    ultimately show ?thesis using 3 assms round_up_iff [OF assms(1,2), of "Suc n"] by (auto simp: mult.commute [of g])
  qed
qed

subsection \<open>Properties\<close>

text \<open>
  C23. Voting sets partition the chain. For a height and a grouping other than zero, with the epoch in 32 bits, the epoch of the height is calculated without error, and
  an epoch whose heights stay in 64 bits contains the height, between its calculated start and end, if and only if it is this epoch.
\<close>

theorem voting_sets_partition_heights:
  assumes "height \<noteq> 0" "grouping \<noteq> 0" "unat height div unat grouping + 2 < 2 ^ 32"
  shows "\<exists>epoch. CalculateFinalizationEpochForHeight height grouping = Inr epoch
    \<and> (\<forall>e. e \<noteq> 0 \<and> unat e * unat grouping < 2 ^ 64 \<longrightarrow>
         (\<exists>s t. CalculateVotingSetStartHeight e grouping = Inr s \<and> CalculateVotingSetEndHeight e grouping = Inr t \<and> (s \<le> height \<and> height \<le> t \<longleftrightarrow> e = epoch)))"
proof -
  obtain epoch where epoch: "CalculateFinalizationEpochForHeight height grouping = Inr epoch"
    "unat epoch = (if unat height = 1 then 1 else 1 + (unat height + unat grouping - 1) div unat grouping)"
    by (rule epoch_for_height [OF assms])
  have "\<exists>s t. CalculateVotingSetStartHeight e grouping = Inr s \<and> CalculateVotingSetEndHeight e grouping = Inr t \<and> (s \<le> height \<and> height \<le> t \<longleftrightarrow> e = epoch)"
    if e: "e \<noteq> 0" "unat e * unat grouping < 2 ^ 64" for e
  proof -
    obtain s t where st: "CalculateVotingSetStartHeight e grouping = Inr s" "CalculateVotingSetEndHeight e grouping = Inr t"
      "unat s = (if unat e \<le> 2 then unat e else (unat e - 2) * unat grouping + 1)" "unat t = (if unat e = 1 then 1 else (unat e - 1) * unat grouping)"
      by (rule voting_set_bounds [OF e(1) assms(2) e(2)])
    have "s \<le> height \<and> height \<le> t \<longleftrightarrow> unat e = unat epoch"
      unfolding word_le_nat_alt st(3,4) epoch(2) by (rule epoch_contains) (use assms(1,2) e(1) in \<open>simp_all add: unat_gt_0\<close>)
    then show ?thesis using st(1,2) unfolding word_unat_eq_iff [of e] by blast
  qed
  then show ?thesis using epoch(1) by blast
qed

theorem voting_sets_partition_heights_witness:
  "\<exists>epoch. CalculateFinalizationEpochForHeight 721 720 = Inr epoch \<and> CalculateVotingSetStartHeight 3 720 = Inr 721 \<and> CalculateVotingSetEndHeight 3 720 = Inr 1440 \<and> 3 = epoch"
proof -
  have "CalculateVotingSetStartHeight 3 720 = Inr 721" "CalculateVotingSetEndHeight 3 720 = Inr 1440" by code_simp+
  moreover obtain epoch where epoch: "CalculateFinalizationEpochForHeight 721 720 = Inr epoch"
    "(3 :: FinalizationEpoch) \<noteq> 0 \<and> unat (3 :: FinalizationEpoch) * unat (720 :: uint64) < 2 ^ 64 \<longrightarrow>
       (\<exists>s t. CalculateVotingSetStartHeight 3 720 = Inr s \<and> CalculateVotingSetEndHeight 3 720 = Inr t \<and> (s \<le> 721 \<and> 721 \<le> t \<longleftrightarrow> 3 = epoch))"
  proof -
    note intro = that
    have "(721 :: Height) \<noteq> 0" "(720 :: uint64) \<noteq> 0" "unat (721 :: Height) div unat (720 :: uint64) + 2 < 2 ^ 32" by simp_all
    from voting_sets_partition_heights [OF this] show thesis by (elim exE conjE) (rule intro, assumption, erule spec)
  qed
  ultimately show ?thesis by auto
qed

text \<open>A step identifier keeps its parts if the point has 31 bits, and steps are ordered by round and then stage.\<close>

lemma step_identifier_parts:
  assumes "point < 2 ^ 31" "stage \<le> 1"
  shows "si_Round (new_StepIdentifier epoch point stage) = (epoch, point)" "si_Stage (new_StepIdentifier epoch point stage) = stage"
proof -
  have "take_bit 31 point = point" using assms(1) by (simp add: word_unat_eq_iff unsigned_take_bit_eq word_less_nat_alt take_bit_nat_eq_self)
  then have point: "n < 31" if "bit point n" for n using that by (metis bit_take_bit_iff)
  have stage: "stage = 0 \<or> stage = 1" using assms(2) by (auto simp: word_le_nat_alt word_unat_eq_iff)
  show "si_Round (new_StepIdentifier epoch point stage) = (epoch, point)"
    unfolding si_Round_def new_StepIdentifier_def using stage by (auto intro!: bit_word_eqI simp: bit_simps simp del: One_nat_def push_bit_Suc dest: point)
  show "si_Stage (new_StepIdentifier epoch point stage) = stage"
    unfolding si_Stage_def new_StepIdentifier_def using stage by (auto intro!: bit_word_eqI simp: bit_simps simp del: One_nat_def push_bit_Suc)
qed

lemma point_stage_nat:
  assumes "point < 2 ^ 31" "stage \<le> 1"
  shows "unat (si_PointStage (new_StepIdentifier epoch point stage)) = 2 * unat point + unat stage"
proof -
  have stage: "stage = 0 \<or> stage = 1" using assms(2) by (auto simp: word_le_nat_alt word_unat_eq_iff)
  have "unat point < 2 ^ 31" using assms(1) by (simp add: word_less_nat_alt)
  then have p: "unat (2 * point) = 2 * unat point" "unat (2 * point + 1) = 2 * unat point + 1"
    by (simp_all add: unat_word_ariths)
  have "push_bit 1 point = 2 * point" by (simp add: mult.commute)
  then show ?thesis using stage p by (auto simp: new_StepIdentifier_def or_one_eq mult.commute)
qed

end
