(* ===== verification/Finalization.thy ===== *)
theory Finalization
  imports RoundContext VotingSet
begin

section \<open>Finalization messages and proofs (extensions/finalization)\<close>

text \<open>
  The voters of an epoch are the accounts of high value with a voting key. Their messages are signed with a two level key tree, checked against the
  context of the epoch, and counted once per voter and stage in the round context. A proof of finalization is a list of such messages; it is verified by adding them to a new aggregator.

  Digest and signature check are arguments. A message owns the list of its hashes, so that its size and number of hashes are those of
  the list, as the checks on received packets ensure. The maps of accounts and messages are unordered in the source; the sorted order here is one of the orders in
  which they may be visited. An error of the round context (\<open>None\<close>), which the theory of round contexts excludes, is the exception \<open>Out_Of_Range\<close>. The
  verifier keeps one template message that it changes for each signature, after the aggregator has stored its hash; only this hash is read
  again, so that a message is a value here.
\<close>

subsection \<open>Signatures and messages\<close>

record ParentPublicKeySignaturePair =
  ParentPublicKey :: VotingKey
  pair_Signature :: "512 word"

record BmTreeSignature =
  bm_Root :: ParentPublicKeySignaturePair
  bm_Bottom :: ParentPublicKeySignaturePair

record crypto_functions =
  Sha3_256 :: "uint8 list \<Rightarrow> Hash256"
  crypto_Verify :: "VotingKey \<Rightarrow> uint8 list \<Rightarrow> 512 word \<Rightarrow> bool"

definition VerifyBoundSignature :: "crypto_functions \<Rightarrow> ParentPublicKeySignaturePair \<Rightarrow> VotingKey \<Rightarrow> uint64 \<Rightarrow> bool" where
  "VerifyBoundSignature c pair signedPublicKey boundary =
     crypto_Verify c (ParentPublicKey pair) (array_bytes 32 signedPublicKey @ bytes_le 8 boundary) (pair_Signature pair)"

definition bm_Verify :: "crypto_functions \<Rightarrow> BmTreeSignature \<Rightarrow> uint64 \<Rightarrow> uint8 list \<Rightarrow> bool" where
  "bm_Verify c signature keyIdentifier buffer \<longleftrightarrow>
     (if \<not> VerifyBoundSignature c (bm_Root signature) (ParentPublicKey (bm_Bottom signature)) keyIdentifier then False
      else if \<not> crypto_Verify c (ParentPublicKey (bm_Bottom signature)) buffer (pair_Signature (bm_Bottom signature)) then False
      else True)"

record FinalizationMessage =
  fm_Reserved1 :: uint32
  fm_Signature :: BmTreeSignature
  fm_Version :: uint32
  fm_StepIdentifier :: StepIdentifier
  fm_Height :: Height
  fm_Hashes :: "Hash256 list"

definition FinalizationMessage_Current_Version :: uint32 where
  "FinalizationMessage_Current_Version = 1"

definition HashesCount :: "FinalizationMessage \<Rightarrow> uint32" where
  "HashesCount m = of_nat (length (fm_Hashes m))"

definition fm_Size :: "FinalizationMessage \<Rightarrow> uint32" where
  "fm_Size m = 224 + HashesCount m * 32"

definition fm_ToBuffer :: "FinalizationMessage \<Rightarrow> uint8 list" where
  "fm_ToBuffer m =
     bytes_le 4 (fm_Version m) @ bytes_le 4 (HashesCount m) @ bytes_le 4 (si_Epoch (fm_StepIdentifier m)) @ bytes_le 4 (si_PointStage (fm_StepIdentifier m))
     @ bytes_le 8 (fm_Height m) @ concat (map (array_bytes 32) (fm_Hashes m))"

definition pair_bytes :: "ParentPublicKeySignaturePair \<Rightarrow> uint8 list" where
  "pair_bytes pair = array_bytes 32 (ParentPublicKey pair) @ array_bytes 64 (pair_Signature pair)"

definition CalculateMessageHash :: "crypto_functions \<Rightarrow> FinalizationMessage \<Rightarrow> Hash256" where
  "CalculateMessageHash c m =
     Sha3_256 c (bytes_le 4 (fm_Size m) @ bytes_le 4 (fm_Reserved1 m) @ pair_bytes (bm_Root (fm_Signature m)) @ pair_bytes (bm_Bottom (fm_Signature m)) @ fm_ToBuffer m)"

subsection \<open>The context of an epoch\<close>

text \<open>A history, largest height first. The value at a height is that of the largest entry that is not above it.\<close>

type_synonym 'v HeightIndexedHistoryMap = "(Height \<times> 'v) list"

fun history_get :: "'v \<Rightarrow> 'v HeightIndexedHistoryMap \<Rightarrow> Height \<Rightarrow> 'v" where
  "history_get dflt [] height = dflt"
| "history_get dflt ((k, v) # m) height = (if k \<le> height then v else history_get dflt m height)"

record AccountHistory =
  ah_balance :: "Amount HeightIndexedHistoryMap"
  ah_votingPublicKeys :: "PinnedVotingKey list HeightIndexedHistoryMap"

definition FindVotingPublicKeyForEpoch :: "PinnedVotingKey list \<Rightarrow> FinalizationEpoch \<Rightarrow> VotingKey" where
  "FindVotingPublicKeyForEpoch pinnedPublicKeys epoch =
     (case find (\<lambda>key. StartEpoch key \<le> epoch \<and> epoch \<le> EndEpoch key) pinnedPublicKeys of None \<Rightarrow> 0 | Some key \<Rightarrow> pinned_VotingKey key)"

record FinalizationConfiguration =
  cfg_Size :: uint64
  cfg_Threshold :: uint64
  cfg_MessageSynchronizationMaxResponseSize :: uint64
  cfg_MaxHashesPerPoint :: uint32
  cfg_PrevoteBlocksMultiple :: uint16
  cfg_TreasuryReissuanceEpoch :: FinalizationEpoch
  cfg_TreasuryReissuanceEpochIneligibleVoterAddresses :: "Address list"
  cfg_VotingSetGrouping :: uint64

record FinalizationContext =
  fc_epoch :: FinalizationEpoch
  fc_height :: Height
  fc_generationHash :: Hash256
  fc_config :: FinalizationConfiguration
  fc_weight :: Amount
  fc_accounts :: "(VotingKey, Amount) smap"

fun add_voters :: "(Address \<times> AccountHistory) list \<Rightarrow> FinalizationContext \<Rightarrow> FinalizationContext" where
  "add_voters [] fc = fc"
| "add_voters ((address, accountHistory) # rest) fc =
     (let balance = history_get 0 (ah_balance accountHistory) (fc_height fc);
          effectiveVotingPublicKey = FindVotingPublicKeyForEpoch (history_get [] (ah_votingPublicKeys accountHistory) (fc_height fc)) (fc_epoch fc)
      in if 0 = balance then add_voters rest fc
         else if 0 = effectiveVotingPublicKey then add_voters rest fc
         else if cfg_TreasuryReissuanceEpoch (fc_config fc) \<le> fc_epoch fc
             \<and> address \<in> set (cfg_TreasuryReissuanceEpochIneligibleVoterAddresses (fc_config fc)) then add_voters rest fc
         else add_voters rest (fc\<lparr>fc_accounts := smap_insert effectiveVotingPublicKey balance (fc_accounts fc), fc_weight := fc_weight fc + balance\<rparr>))"

definition new_FinalizationContext ::
  "FinalizationEpoch \<Rightarrow> Height \<Rightarrow> Hash256 \<Rightarrow> FinalizationConfiguration \<Rightarrow> (Address \<times> AccountHistory) list \<Rightarrow> FinalizationContext" where
  "new_FinalizationContext epoch height generationHash config accountHistories =
     add_voters accountHistories
       \<lparr>fc_epoch = epoch, fc_height = height, fc_generationHash = generationHash, fc_config = config, fc_weight = 0, fc_accounts = smap_empty\<rparr>"

definition fc_lookup :: "FinalizationContext \<Rightarrow> VotingKey \<Rightarrow> Amount" where
  "fc_lookup fc votingPublicKey = (case smap_find (fc_accounts fc) votingPublicKey of None \<Rightarrow> 0 | Some weight \<Rightarrow> weight)"

definition isEligibleVoter :: "FinalizationContext \<Rightarrow> VotingKey \<Rightarrow> bool" where
  "isEligibleVoter fc votingPublicKey \<longleftrightarrow> 0 \<noteq> fc_lookup fc votingPublicKey"

subsection \<open>Processing a message\<close>

datatype ProcessMessageResult = ProcessMessage_Failure_Signature | ProcessMessage_Failure_Padding | ProcessMessage_Failure_Version
  | ProcessMessage_Failure_Voter | ProcessMessage_Success

abbreviation voter :: "FinalizationMessage \<Rightarrow> VotingKey" where
  "voter m \<equiv> ParentPublicKey (bm_Root (fm_Signature m))"

definition ProcessMessage :: "crypto_functions \<Rightarrow> FinalizationMessage \<Rightarrow> FinalizationContext \<Rightarrow> ProcessMessageResult \<times> uint64" where
  "ProcessMessage c m fc =
     (let weight = fc_lookup fc (voter m)
      in if 0 = weight then (ProcessMessage_Failure_Voter, 0)
         else if 0 \<noteq> fm_Reserved1 m then (ProcessMessage_Failure_Padding, 0)
         else if FinalizationMessage_Current_Version \<noteq> fm_Version m then (ProcessMessage_Failure_Version, 0)
         else if \<not> bm_Verify c (fm_Signature m) (StepIdentifierToBmKeyIdentifier (fm_StepIdentifier m)) (fm_ToBuffer m) then (ProcessMessage_Failure_Signature, 0)
         else (ProcessMessage_Success, weight))"

subsection \<open>The aggregator of a round\<close>

datatype RoundMessageAggregatorAddResult = Failure_Invalid_Hashes | Failure_Invalid_Point | Failure_Invalid_Height | Failure_Processing
  | Failure_Conflicting | Neutral_Redundant | Success_Prevote | Success_Precommit

text \<open>The enumeration is compared with \<open>Neutral_Redundant\<close>.\<close>

fun add_result_code :: "RoundMessageAggregatorAddResult \<Rightarrow> nat" where
  "add_result_code Failure_Invalid_Hashes = 0"
| "add_result_code Failure_Invalid_Point = 1"
| "add_result_code Failure_Invalid_Height = 2"
| "add_result_code Failure_Processing = 3"
| "add_result_code Failure_Conflicting = 4"
| "add_result_code Neutral_Redundant = 5"
| "add_result_code Success_Prevote = 6"
| "add_result_code Success_Precommit = 7"

record MessageDescriptor =
  md_pMessage :: FinalizationMessage
  md_Hash :: Hash256

record RoundMessageAggregator =
  rma_finalizationContext :: FinalizationContext
  rma_roundContext :: RoundContext
  rma_messages :: "(VotingKey \<times> bool, MessageDescriptor) smap"

definition CalculateWeightedThreshold :: "FinalizationContext \<Rightarrow> uint64" where
  "CalculateWeightedThreshold fc = fc_weight fc * cfg_Threshold (fc_config fc) div cfg_Size (fc_config fc)"

definition IsPrevote :: "FinalizationMessage \<Rightarrow> bool" where
  "IsPrevote m \<longleftrightarrow> Stage_Prevote = si_Stage (fm_StepIdentifier m)"

definition CreateRoundMessageAggregator :: "FinalizationContext \<Rightarrow> RoundMessageAggregator" where
  "CreateRoundMessageAggregator fc =
     \<lparr>rma_finalizationContext = fc, rma_roundContext = new_RoundContext (fc_weight fc) (CalculateWeightedThreshold fc), rma_messages = smap_empty\<rparr>"

text \<open>The checks on the hashes of a message; \<open>None\<close> continues.\<close>

definition check_hashes :: "FinalizationContext \<Rightarrow> FinalizationMessage \<Rightarrow> exn + RoundMessageAggregatorAddResult option" where
  "check_hashes fc m =
     (let config = fc_config fc; lastHashHeight = fm_Height m + ucast (HashesCount m - 1)
      in if 0 = HashesCount m \<or> HashesCount m > cfg_MaxHashesPerPoint config then Inr (Some Failure_Invalid_Hashes)
         else if fc_height fc > lastHashHeight then Inr (Some Failure_Invalid_Height)
         else if IsPrevote m then
           rbind (CalculateVotingSetEndHeight (si_Epoch (fm_StepIdentifier m) - 1) (cfg_VotingSetGrouping config)) (\<lambda>epochMinHeight.
           rbind (CalculateVotingSetEndHeight (si_Epoch (fm_StepIdentifier m)) (cfg_VotingSetGrouping config)) (\<lambda>epochMaxHeight.
           Inr (if fm_Height m < epochMinHeight \<or> lastHashHeight > epochMaxHeight then Some Failure_Invalid_Hashes else None)))
         else Inr (if 1 \<noteq> HashesCount m then Some Failure_Invalid_Hashes else None))"

definition rma_add :: "crypto_functions \<Rightarrow> FinalizationMessage \<Rightarrow> RoundMessageAggregator \<Rightarrow> exn + RoundMessageAggregatorAddResult \<times> RoundMessageAggregator" where
  "rma_add c m a =
     (let fc = rma_finalizationContext a; isPrevote = IsPrevote m; messageKey = (voter m, isPrevote)
      in rbind (check_hashes fc m) (\<lambda>failure.
         case failure of
           Some result \<Rightarrow> Inr (result, a)
         | None \<Rightarrow>
             (case smap_find (rma_messages a) messageKey of
                Some descriptor \<Rightarrow> Inr (if md_Hash descriptor = CalculateMessageHash c m then Neutral_Redundant else Failure_Conflicting, a)
              | None \<Rightarrow>
                  let (processResult, weight) = ProcessMessage c m fc
                  in if ProcessMessage_Success \<noteq> processResult then Inr (Failure_Processing, a)
                     else
                       let messages = smap_insert messageKey \<lparr>md_pMessage = m, md_Hash = CalculateMessageHash c m\<rparr> (rma_messages a)
                       in if isPrevote then
                            (case acceptPrevote (fm_Height m) (fm_Hashes m) weight (rma_roundContext a) of
                               None \<Rightarrow> Inl Out_Of_Range
                             | Some roundContext \<Rightarrow> Inr (Success_Prevote, a\<lparr>rma_messages := messages, rma_roundContext := roundContext\<rparr>))
                          else
                            (case acceptPrecommit (fm_Height m) (hd (fm_Hashes m)) weight (rma_roundContext a) of
                               None \<Rightarrow> Inl Out_Of_Range
                             | Some roundContext \<Rightarrow> Inr (Success_Precommit, a\<lparr>rma_messages := messages, rma_roundContext := roundContext\<rparr>)))))"

subsection \<open>Verifying a proof\<close>

record FinalizationMessageGroup =
  g_Stage :: uint32
  g_Height :: Height
  g_Hashes :: "Hash256 list"
  g_Signatures :: "BmTreeSignature list"

record FinalizationProof =
  p_Version :: uint32
  p_Round :: FinalizationRound
  p_Height :: Height
  p_Hash :: Hash256
  p_MessageGroups :: "FinalizationMessageGroup list"

definition FinalizationProof_Current_Version :: uint32 where
  "FinalizationProof_Current_Version = 1"

datatype VerifyFinalizationProofResult = Proof_Failure_Invalid_Version | Proof_Failure_Invalid_Epoch | Proof_Failure_Invalid_Height
  | Proof_Failure_Invalid_Hash | Proof_Failure_No_Precommit | Proof_Failure_Invalid_Messsage | Proof_Success

definition CreateTemplateMessage :: "FinalizationRound \<Rightarrow> FinalizationMessageGroup \<Rightarrow> BmTreeSignature \<Rightarrow> FinalizationMessage" where
  "CreateTemplateMessage r messageGroup signature =
     \<lparr>fm_Reserved1 = 0, fm_Signature = signature, fm_Version = FinalizationMessage_Current_Version,
      fm_StepIdentifier = new_StepIdentifier (fst r) (snd r) (g_Stage messageGroup), fm_Height = g_Height messageGroup, fm_Hashes = g_Hashes messageGroup\<rparr>"

text \<open>The messages of a proof, and the loop over them; \<open>None\<close> is a rejected message.\<close>

definition proof_messages :: "FinalizationProof \<Rightarrow> FinalizationMessage list" where
  "proof_messages p = concat (map (\<lambda>messageGroup. map (CreateTemplateMessage (p_Round p) messageGroup) (g_Signatures messageGroup)) (p_MessageGroups p))"

fun add_all :: "crypto_functions \<Rightarrow> FinalizationMessage list \<Rightarrow> RoundMessageAggregator \<Rightarrow> exn + RoundMessageAggregator option" where
  "add_all c [] a = Inr (Some a)"
| "add_all c (m # ms) a =
     rbind (rma_add c m a) (\<lambda>(addResult, a'). if add_result_code addResult \<le> add_result_code Neutral_Redundant then Inr None else add_all c ms a')"

definition VerifyFinalizationProof :: "crypto_functions \<Rightarrow> FinalizationProof \<Rightarrow> FinalizationContext \<Rightarrow> exn + VerifyFinalizationProofResult" where
  "VerifyFinalizationProof c p fc =
     (if FinalizationProof_Current_Version \<noteq> p_Version p then Inr Proof_Failure_Invalid_Version
      else if fst (p_Round p) \<noteq> fc_epoch fc then Inr Proof_Failure_Invalid_Epoch
      else
        rbind (add_all c (proof_messages p) (CreateRoundMessageAggregator fc)) (\<lambda>result.
        case result of
          None \<Rightarrow> Inr Proof_Failure_Invalid_Messsage
        | Some a \<Rightarrow>
            (case tryFindBestPrecommit (rma_roundContext a) of
               None \<Rightarrow> Inl Out_Of_Range
             | Some None \<Rightarrow> Inr Proof_Failure_No_Precommit
             | Some (Some bestPrecommit) \<Rightarrow>
                 if fst bestPrecommit \<noteq> p_Height p then Inr Proof_Failure_Invalid_Height
                 else if snd bestPrecommit \<noteq> p_Hash p then Inr Proof_Failure_Invalid_Hash
                 else Inr Proof_Success)))"

subsection \<open>What an aggregator has counted\<close>

definition message_key :: "FinalizationMessage \<Rightarrow> VotingKey \<times> bool" where
  "message_key m = (voter m, IsPrevote m)"

definition vote_of :: "FinalizationContext \<Rightarrow> FinalizationMessage \<Rightarrow> vote" where
  "vote_of fc m =
     (if IsPrevote m then PrevoteOf (fm_Height m) (fm_Hashes m) (fc_lookup fc (voter m))
      else PrecommitOf (fm_Height m, hd (fm_Hashes m)) (fc_lookup fc (voter m)))"

definition verified :: "crypto_functions \<Rightarrow> FinalizationContext \<Rightarrow> FinalizationMessage \<Rightarrow> bool" where
  "verified c fc m \<longleftrightarrow> isEligibleVoter fc (voter m) \<and> fm_Reserved1 m = 0 \<and> fm_Version m = FinalizationMessage_Current_Version
    \<and> bm_Verify c (fm_Signature m) (StepIdentifierToBmKeyIdentifier (fm_StepIdentifier m)) (fm_ToBuffer m)"

definition rma_inv :: "crypto_functions \<Rightarrow> FinalizationContext \<Rightarrow> FinalizationMessage list \<Rightarrow> RoundMessageAggregator \<Rightarrow> bool" where
  "rma_inv c fc ms a \<longleftrightarrow> rma_finalizationContext a = fc \<and> rc_inv (map (vote_of fc) ms) (rma_roundContext a)
    \<and> same_limits (new_RoundContext (fc_weight fc) (CalculateWeightedThreshold fc)) (rma_roundContext a)
    \<and> distinct (map message_key ms) \<and> dom (smap_find (rma_messages a)) = message_key ` set ms \<and> (\<forall>m\<in>set ms. verified c fc m)"

lemma rma_inv_new: "rma_inv c fc [] (CreateRoundMessageAggregator fc)"
  by (simp add: rma_inv_def CreateRoundMessageAggregator_def rc_inv_new same_limits_def)

lemma ProcessMessage_success:
  "ProcessMessage c m fc = (r, w) \<Longrightarrow> (r = ProcessMessage_Success) = verified c fc m"
  "ProcessMessage c m fc = (ProcessMessage_Success, w) \<Longrightarrow> w = fc_lookup fc (voter m)"
  by (auto simp: ProcessMessage_def verified_def isEligibleVoter_def Let_def split: if_splits)

text \<open>Adding a message: it is rejected and nothing changes, or it is verified, the first one of its voter in its stage, and its vote is counted.\<close>

lemma rma_add_cases:
  assumes "rma_inv c fc ms a" "length (fm_Hashes m) < 2 ^ 64" "rma_add c m a = Inr (result, a')"
  shows "(add_result_code result \<le> 5 \<and> a' = a) \<or> (5 < add_result_code result \<and> rma_inv c fc (ms @ [m]) a')"
proof -
  let ?rc = "rma_roundContext a" and ?w = "fc_lookup fc (voter m)"
  have fc: "rma_finalizationContext a = fc" and rc: "rc_inv (map (vote_of fc) ms) ?rc"
    and lim: "same_limits (new_RoundContext (fc_weight fc) (CalculateWeightedThreshold fc)) ?rc"
    and d: "distinct (map message_key ms)" "dom (smap_find (rma_messages a)) = message_key ` set ms" "\<forall>m\<in>set ms. verified c fc m"
    using assms(1) by (auto simp: rma_inv_def)
  obtain failure where f: "check_hashes fc m = Inr failure" using assms(3) fc by (cases "check_hashes fc m") (auto simp: rma_add_def Let_def)
  show ?thesis
  proof (cases "failure = None \<and> smap_find (rma_messages a) (message_key m) = None \<and> verified c fc m")
    case False
    obtain r w where p: "ProcessMessage c m fc = (r, w)" by (cases "ProcessMessage c m fc")
    have check: "result' \<in> {Failure_Invalid_Hashes, Failure_Invalid_Height}" if "check_hashes fc m = Inr (Some result')" for result'
      using that by (auto simp: check_hashes_def Let_def err_simps split: if_splits)
    show ?thesis using False assms(3) f fc p ProcessMessage_success(1) [OF p] check
      by (auto simp: rma_add_def Let_def message_key_def split: option.splits if_splits)
  next
    case True
    obtain w where p: "ProcessMessage c m fc = (ProcessMessage_Success, w)" using True ProcessMessage_success(1) [of c m fc] by (cases "ProcessMessage c m fc") auto
    have w: "w = ?w" by (rule ProcessMessage_success(2) [OF p])
    have fresh: "message_key m \<notin> message_key ` set ms" using True d(2) by auto
    have sized: "well_sized (vote_of fc m)" using assms(2) by (simp add: vote_of_def)
    obtain rc' where rc': "accept_vote (vote_of fc m) ?rc = Some rc'" "rc_inv (map (vote_of fc) (ms @ [m])) rc'" "same_limits ?rc rc'"
      using accept_vote_inv [OF rc sized] by auto
    let ?messages = "smap_insert (message_key m) \<lparr>md_pMessage = m, md_Hash = CalculateMessageHash c m\<rparr> (rma_messages a)"
    have add: "rma_add c m a = Inr (if IsPrevote m then Success_Prevote else Success_Precommit, a\<lparr>rma_messages := ?messages, rma_roundContext := rc'\<rparr>)"
      using True f fc p w rc'(1) by (simp add: rma_add_def Let_def message_key_def vote_of_def split: if_splits)
    have dom: "dom (smap_find ?messages) = message_key ` set (ms @ [m])" using d(2) by (auto simp: smap_insert_def smap_contains_def)
    have "rma_inv c fc (ms @ [m]) (a\<lparr>rma_messages := ?messages, rma_roundContext := rc'\<rparr>)"
      unfolding rma_inv_def using fc rc'(2,3) lim d(1,3) dom fresh True by (auto simp: same_limits_def)
    then show ?thesis using add assms(3) by auto
  qed
qed

lemma add_all_inv:
  assumes "rma_inv c fc ms a" "\<forall>m\<in>set ns. length (fm_Hashes m) < 2 ^ 64" "add_all c ns a = Inr (Some a')"
  shows "rma_inv c fc (ms @ ns) a'"
  using assms
proof (induction ns arbitrary: ms a)
  case (Cons m ns)
  obtain result a1 where add: "rma_add c m a = Inr (result, a1)" "\<not> add_result_code result \<le> 5" "add_all c ns a1 = Inr (Some a')"
    using Cons.prems(3) by (auto simp: err_simps split: if_splits)
  have "rma_inv c fc (ms @ [m]) a1" using rma_add_cases [OF Cons.prems(1) _ add(1)] Cons.prems(2) add(2) by auto
  from Cons.IH [OF this _ add(3)] show ?case using Cons.prems(2) by simp
qed simp

definition layout_ok :: "FinalizationProof \<Rightarrow> bool" where
  "layout_ok p \<longleftrightarrow> (\<forall>messageGroup\<in>set (p_MessageGroups p). length (g_Hashes messageGroup) < 2 ^ 32)"

lemma proof_messages_length: "layout_ok p \<Longrightarrow> m \<in> set (proof_messages p) \<Longrightarrow> length (fm_Hashes m) < 2 ^ 32"
  by (auto simp: layout_ok_def proof_messages_def CreateTemplateMessage_def)

lemma verified_proof:
  assumes "VerifyFinalizationProof c p fc = Inr Proof_Success" "layout_ok p"
  obtains a where "rma_inv c fc (proof_messages p) a" "tryFindBestPrecommit (rma_roundContext a) = Some (Some (p_Height p, p_Hash p))"
proof -
  obtain a where a: "add_all c (proof_messages p) (CreateRoundMessageAggregator fc) = Inr (Some a)"
      "tryFindBestPrecommit (rma_roundContext a) = Some (Some (p_Height p, p_Hash p))"
  proof -
    note intro = that
    obtain result where result: "add_all c (proof_messages p) (CreateRoundMessageAggregator fc) = Inr result"
      using assms(1) by (auto simp: VerifyFinalizationProof_def rbind_Inr_iff split: if_splits)
    then obtain a where a: "result = Some a" using assms(1) by (cases result) (auto simp: VerifyFinalizationProof_def split: if_splits)
    obtain best where best: "tryFindBestPrecommit (rma_roundContext a) = Some (Some best)"
      using assms(1) result a by (auto simp: VerifyFinalizationProof_def split: if_splits option.splits)
    then have "best = (p_Height p, p_Hash p)" using assms(1) result a by (cases best) (auto simp: VerifyFinalizationProof_def split: if_splits)
    then show thesis using intro [OF result [unfolded a]] best by simp
  qed
  have "\<forall>m\<in>set (proof_messages p). length (fm_Hashes m) < 2 ^ 64" using proof_messages_length [OF assms(2)] by fastforce
  from add_all_inv [OF rma_inv_new this a(1)] a(2) that show thesis by simp
qed

subsection \<open>Weights of voters\<close>

definition weight_of :: "FinalizationContext \<Rightarrow> VotingKey set \<Rightarrow> nat" where
  "weight_of fc V = (\<Sum>v\<in>V. unat (fc_lookup fc v))"

text \<open>The voters whose prevote contains a key.\<close>

definition prevoters :: "FinalizationMessage list \<Rightarrow> HeightHashPair \<Rightarrow> VotingKey set" where
  "prevoters ms k = voter ` {m \<in> set ms. IsPrevote m \<and> k \<in> set (branch (fm_Height m) (fm_Hashes m))}"

lemma unat_add_le: "unat (a + b :: 'a::len word) \<le> unat a + unat b"
  by (simp add: unat_word_ariths)

lemma finite_prevoters: "finite (prevoters ms k)"
  by (simp add: prevoters_def)

lemma prevotes_le_weight:
  assumes "distinct (map message_key ms)"
  shows "unat (prevotes (map (vote_of fc) ms) k) \<le> weight_of fc (prevoters ms k)"
  using assms
proof (induction ms)
  case Nil
  then show ?case by (simp add: prevoters_def weight_of_def)
next
  case (Cons m ms)
  then have IH: "unat (prevotes (map (vote_of fc) ms) k) \<le> weight_of fc (prevoters ms k)" by simp
  show ?case
  proof (cases "IsPrevote m \<and> k \<in> set (branch (fm_Height m) (fm_Hashes m))")
    case True
    have "voter m \<notin> prevoters ms k" using Cons.prems True by (auto simp: prevoters_def message_key_def image_iff)
    moreover have "prevoters (m # ms) k = insert (voter m) (prevoters ms k)" using True by (auto simp: prevoters_def)
    ultimately have "weight_of fc (prevoters (m # ms) k) = unat (fc_lookup fc (voter m)) + weight_of fc (prevoters ms k)"
      by (simp add: weight_of_def finite_prevoters)
    moreover have "unat (prevotes (map (vote_of fc) (m # ms)) k) \<le> unat (fc_lookup fc (voter m)) + unat (prevotes (map (vote_of fc) ms) k)"
      using True unat_add_le by (simp add: vote_of_def)
    ultimately show ?thesis using IH by linarith
  next
    case False
    then have "prevoters (m # ms) k = prevoters ms k" "prevote_part k (vote_of fc m) = 0" by (auto simp: prevoters_def vote_of_def)
    then show ?thesis using IH by simp
  qed
qed

lemma verified_proof_quorum:
  assumes "VerifyFinalizationProof c p fc = Inr Proof_Success" "layout_ok p"
  shows "unat (CalculateWeightedThreshold fc) \<le> weight_of fc (prevoters (proof_messages p) (p_Height p, p_Hash p))"
    and "\<And>m. m \<in> set (proof_messages p) \<Longrightarrow> verified c fc m"
proof -
  obtain a where a: "rma_inv c fc (proof_messages p) a" "tryFindBestPrecommit (rma_roundContext a) = Some (Some (p_Height p, p_Hash p))"
    by (rule verified_proof [OF assms])
  let ?rc = "rma_roundContext a" and ?k = "(p_Height p, p_Hash p)"
  have rc: "rc_inv (map (vote_of fc) (proof_messages p)) ?rc" "rc_threshold ?rc = CalculateWeightedThreshold fc" "distinct (map message_key (proof_messages p))"
    using a(1) by (auto simp: rma_inv_def same_limits_def new_RoundContext_def)
  have "Prevote (rc_weights ?rc ?k) \<ge> rc_threshold ?rc"
    using tryFindLastMatch_spec(1) [OF rc(1), of "\<lambda>_ weights. Some (Prevote weights \<ge> rc_threshold ?rc \<and> Precommit weights \<ge> rc_threshold ?rc)"
        "\<lambda>_ weights. Prevote weights \<ge> rc_threshold ?rc \<and> Precommit weights \<ge> rc_threshold ?rc" "Some ?k"] a(2)
    by (simp add: tryFindBestPrecommit_def)
  then have "unat (CalculateWeightedThreshold fc) \<le> unat (prevotes (map (vote_of fc) (proof_messages p)) ?k)"
    using rc_inv_weights(1) [OF rc(1)] rc(2) by (simp add: word_le_nat_alt)
  then show "unat (CalculateWeightedThreshold fc) \<le> weight_of fc (prevoters (proof_messages p) ?k)"
    using prevotes_le_weight [OF rc(3), of fc ?k] by linarith
  show "\<And>m. m \<in> set (proof_messages p) \<Longrightarrow> verified c fc m" using a(1) by (simp add: rma_inv_def)
qed

text \<open>The weight of all voters is at most that of the context.\<close>

lemma weight_of_mono: "finite B \<Longrightarrow> A \<subseteq> B \<Longrightarrow> weight_of fc A \<le> weight_of fc B"
  by (simp add: weight_of_def sum_mono2)

lemma add_voters_weight:
  assumes "weight_of fc (dom (smap_find (fc_accounts fc))) \<le> unat (fc_weight fc)"
    and "unat (fc_weight fc) + (\<Sum>(a, h)\<leftarrow>histories. unat (history_get 0 (ah_balance h) (fc_height fc))) < 2 ^ 64"
  shows "weight_of (add_voters histories fc) (dom (smap_find (fc_accounts (add_voters histories fc)))) \<le> unat (fc_weight (add_voters histories fc))"
  using assms
proof (induction histories arbitrary: fc)
  case (Cons ah rest)
  obtain address h where ah: "ah = (address, h)" by (cases ah)
  let ?b = "history_get 0 (ah_balance h) (fc_height fc)"
  let ?key = "FindVotingPublicKeyForEpoch (history_get [] (ah_votingPublicKeys h) (fc_height fc)) (fc_epoch fc)"
  let ?fc = "fc\<lparr>fc_accounts := smap_insert ?key ?b (fc_accounts fc), fc_weight := fc_weight fc + ?b\<rparr>"
  have w: "unat (fc_weight ?fc) = unat (fc_weight fc) + unat ?b" using Cons.prems(2) ah by (simp add: word_add_no_wrap)
  have "weight_of ?fc (dom (smap_find (fc_accounts ?fc))) \<le> unat (fc_weight fc) + unat ?b"
  proof (cases "smap_contains (fc_accounts fc) ?key")
    case True
    then have "fc_accounts ?fc = fc_accounts fc" by (simp add: smap_insert_def)
    then show ?thesis using Cons.prems(1) by (simp add: weight_of_def fc_lookup_def)
  next
    case False
    then have acc: "smap_find (fc_accounts ?fc) = (smap_find (fc_accounts fc))(?key \<mapsto> ?b)" and new: "?key \<notin> dom (smap_find (fc_accounts fc))"
      by (auto simp: smap_insert_def smap_contains_def)
    have "weight_of ?fc (insert ?key (dom (smap_find (fc_accounts fc)))) = unat ?b + weight_of ?fc (dom (smap_find (fc_accounts fc)))"
      using new by (auto simp: weight_of_def fc_lookup_def acc domIff)
    moreover have "weight_of ?fc (dom (smap_find (fc_accounts fc))) = weight_of fc (dom (smap_find (fc_accounts fc)))"
      unfolding weight_of_def by (rule sum.cong) (use new in \<open>auto simp: fc_lookup_def acc\<close>)
    ultimately show ?thesis using Cons.prems(1) by (simp add: acc)
  qed
  then have p1: "weight_of ?fc (dom (smap_find (fc_accounts ?fc))) \<le> unat (fc_weight ?fc)" unfolding w .
  have p2: "unat (fc_weight ?fc) + (\<Sum>(a, h)\<leftarrow>rest. unat (history_get 0 (ah_balance h) (fc_height ?fc))) < 2 ^ 64"
    unfolding w using Cons.prems(2) ah by simp
  have "weight_of (add_voters rest ?fc) (dom (smap_find (fc_accounts (add_voters rest ?fc)))) \<le> unat (fc_weight (add_voters rest ?fc))"
    by (rule Cons.IH [OF p1 p2])
  moreover have "weight_of (add_voters rest fc) (dom (smap_find (fc_accounts (add_voters rest fc)))) \<le> unat (fc_weight (add_voters rest fc))"
    using Cons.IH [of fc] Cons.prems ah by simp
  moreover have "add_voters (ah # rest) fc = add_voters rest fc \<or> add_voters (ah # rest) fc = add_voters rest ?fc" by (simp add: ah Let_def)
  ultimately show ?case by (elim disjE) (simp_all only:)
qed simp

lemma context_weight:
  assumes "(\<Sum>(a, h)\<leftarrow>histories. unat (history_get 0 (ah_balance h) height)) < 2 ^ 64"
    and "fc = new_FinalizationContext epoch height generationHash config histories"
  shows "weight_of fc (dom (smap_find (fc_accounts fc))) \<le> unat (fc_weight fc)"
  unfolding assms(2) new_FinalizationContext_def by (rule add_voters_weight) (use assms(1) in \<open>simp_all add: weight_of_def\<close>)

text \<open>What agreement rests on: among weighted voters, two sets that reach a threshold overlap.\<close>

locale weighted_voters =
  fixes voters :: "'v set"
    and weight :: "'v \<Rightarrow> nat"
  assumes finite_voters: "finite voters"
begin

lemma overlap_weight:
  assumes "A \<subseteq> voters" "B \<subseteq> voters"
  shows "sum weight A + sum weight B \<le> sum weight voters + sum weight (A \<inter> B)"
proof -
  have fin: "finite A" "finite B" using assms finite_voters by (auto intro: finite_subset)
  have "sum weight A + sum weight B = sum weight (A \<union> B) + sum weight (A \<inter> B)" by (rule sum.union_inter [OF fin, symmetric])
  moreover have "sum weight (A \<union> B) \<le> sum weight voters" by (rule sum_mono2) (use assms finite_voters in auto)
  ultimately show ?thesis by simp
qed

lemma quorums_overlap:
  assumes "A \<subseteq> voters" "B \<subseteq> voters" "threshold \<le> sum weight A" "threshold \<le> sum weight B"
  shows "2 * threshold \<le> sum weight voters + sum weight (A \<inter> B)"
  using overlap_weight [OF assms(1,2)] assms(3,4) by simp

end

interpretation voters: weighted_voters "dom (smap_find (fc_accounts fc))" "\<lambda>v. unat (fc_lookup fc v)" for fc
  by unfold_locales auto

lemma branch_height_inj:
  assumes "length hashes < 2 ^ 64" "(h, x) \<in> set (branch height hashes)" "(h, y) \<in> set (branch height hashes)"
  shows "x = y"
proof -
  obtain i where i: "i < length hashes" "h = height + of_nat i" "x = hashes ! i" using assms(2) by (auto simp: branch_mem)
  obtain j where j: "j < length hashes" "h = height + of_nat j" "y = hashes ! j" using assms(3) by (auto simp: branch_mem)
  have eq: "(of_nat i :: Height) = of_nat j" using i(2) j(2) by simp
  have "i = unat (of_nat i :: Height)" using i(1) assms(1) by (simp add: unat_of_nat_small)
  also have "\<dots> = unat (of_nat j :: Height)" by (simp only: eq)
  also have "\<dots> = j" using j(1) assms(1) by (simp add: unat_of_nat_small)
  finally show ?thesis using i(3) j(3) by simp
qed

subsection \<open>Equivocation\<close>

text \<open>The voters of which two proofs contain verified prevotes for the same step that differ in height or hashes.\<close>

definition equivocators :: "crypto_functions \<Rightarrow> FinalizationContext \<Rightarrow> FinalizationProof \<Rightarrow> FinalizationProof \<Rightarrow> VotingKey set" where
  "equivocators c fc p1 p2 = {v. \<exists>m1\<in>set (proof_messages p1). \<exists>m2\<in>set (proof_messages p2).
     voter m1 = v \<and> voter m2 = v \<and> IsPrevote m1 \<and> IsPrevote m2 \<and> fm_StepIdentifier m1 = fm_StepIdentifier m2
     \<and> verified c fc m1 \<and> verified c fc m2 \<and> (fm_Height m1, fm_Hashes m1) \<noteq> (fm_Height m2, fm_Hashes m2)}"

lemma prevote_step:
  assumes "m1 \<in> set (proof_messages p1)" "m2 \<in> set (proof_messages p2)" "p_Round p1 = p_Round p2" "IsPrevote m1" "IsPrevote m2"
  shows "fm_StepIdentifier m1 = fm_StepIdentifier m2"
proof -
  have stage: "si_Stage (new_StepIdentifier e q s) = s AND 1" for e q s
    unfolding si_Stage_def new_StepIdentifier_def by (auto intro!: bit_word_eqI simp: bit_simps simp del: One_nat_def push_bit_Suc)
  obtain s1 where s1: "fm_StepIdentifier m1 = new_StepIdentifier (fst (p_Round p1)) (snd (p_Round p1)) s1"
    using assms(1) by (auto simp: proof_messages_def CreateTemplateMessage_def)
  obtain s2 where s2: "fm_StepIdentifier m2 = new_StepIdentifier (fst (p_Round p2)) (snd (p_Round p2)) s2"
    using assms(2) by (auto simp: proof_messages_def CreateTemplateMessage_def)
  have "s1 AND 1 = 0" "s2 AND 1 = 0" using assms(4,5) by (simp_all add: IsPrevote_def Stage_Prevote_def s1 s2 stage)
  then show ?thesis unfolding s1 s2 assms(3) new_StepIdentifier_def by (simp only:)
qed

subsection \<open>Properties\<close>

text \<open>
  C3. Accountable finalization. Take the context of an epoch whose balances do not sum up to \<open>2\<^sup>6\<^sup>4\<close> or more, and two proofs for the same round that are both verified in it. Either
  the two finalized blocks are on one chain, the prevote of a voter that is in both proofs, so that they are equal if they have the same height; or the
  proofs show voters that signed two different prevotes for the same step, and these weigh at least twice the threshold less the
  total weight.
\<close>

theorem conflicting_proofs_reveal_equivocators:
  assumes "fc = new_FinalizationContext epoch height generationHash config histories"
    and "(\<Sum>(a, h)\<leftarrow>histories. unat (history_get 0 (ah_balance h) height)) < 2 ^ 64"
    and "VerifyFinalizationProof c p1 fc = Inr Proof_Success" "VerifyFinalizationProof c p2 fc = Inr Proof_Success"
    and "layout_ok p1" "layout_ok p2" "p_Round p1 = p_Round p2"
  shows "(\<exists>m\<in>set (proof_messages p1). verified c fc m \<and> IsPrevote m \<and> (p_Height p1, p_Hash p1) \<in> set (branch (fm_Height m) (fm_Hashes m))
        \<and> (p_Height p2, p_Hash p2) \<in> set (branch (fm_Height m) (fm_Hashes m)) \<and> (p_Height p1 = p_Height p2 \<longrightarrow> p_Hash p1 = p_Hash p2))
    \<or> 2 * unat (CalculateWeightedThreshold fc) \<le> unat (fc_weight fc) + weight_of fc (equivocators c fc p1 p2)"
proof -
  let ?A = "prevoters (proof_messages p1) (p_Height p1, p_Hash p1)" and ?B = "prevoters (proof_messages p2) (p_Height p2, p_Hash p2)"
  let ?V = "dom (smap_find (fc_accounts fc))" and ?E = "equivocators c fc p1 p2"
  note q1 = verified_proof_quorum [OF assms(3,5)] and q2 = verified_proof_quorum [OF assms(4,6)]
  have eligible: "voter m \<in> ?V" if "verified c fc m" for m
    using that by (auto simp: verified_def isEligibleVoter_def fc_lookup_def split: option.splits)
  have sub: "?A \<subseteq> ?V" "?B \<subseteq> ?V" using eligible q1(2) q2(2) by (auto simp: prevoters_def)
  have E: "finite ?E" by (rule finite_subset [of _ ?V]) (use eligible in \<open>auto simp: equivocators_def\<close>)
  have overlap: "2 * unat (CalculateWeightedThreshold fc) \<le> unat (fc_weight fc) + weight_of fc (?A \<inter> ?B)"
    using voters.quorums_overlap [OF sub q1(1) [unfolded weight_of_def] q2(1) [unfolded weight_of_def]] context_weight [OF assms(2,1)]
    by (simp add: weight_of_def)
  show ?thesis
  proof (cases "?A \<inter> ?B \<subseteq> ?E")
    case True
    then show ?thesis using overlap weight_of_mono [OF E True, of fc] by linarith
  next
    case False
    then obtain v where v: "v \<in> ?A" "v \<in> ?B" "v \<notin> ?E" by blast
    obtain m1 where m1: "m1 \<in> set (proof_messages p1)" "IsPrevote m1" "voter m1 = v" "(p_Height p1, p_Hash p1) \<in> set (branch (fm_Height m1) (fm_Hashes m1))"
      using v(1) by (auto simp: prevoters_def)
    obtain m2 where m2: "m2 \<in> set (proof_messages p2)" "IsPrevote m2" "voter m2 = v" "(p_Height p2, p_Hash p2) \<in> set (branch (fm_Height m2) (fm_Hashes m2))"
      using v(2) by (auto simp: prevoters_def)
    have "fm_StepIdentifier m1 = fm_StepIdentifier m2" by (rule prevote_step [OF m1(1) m2(1) assms(7) m1(2) m2(2)])
    then have "(fm_Height m1, fm_Hashes m1) = (fm_Height m2, fm_Hashes m2)"
      using v(3) m1 m2 q1(2) q2(2) unfolding equivocators_def by blast
    then have both: "(p_Height p2, p_Hash p2) \<in> set (branch (fm_Height m1) (fm_Hashes m1))" using m2(4) by simp
    have "p_Hash p1 = p_Hash p2" if "p_Height p1 = p_Height p2"
      by (rule branch_height_inj [OF _ m1(4)]) (use both that proof_messages_length [OF assms(5) m1(1)] in auto)
    then show ?thesis using m1 both q1(2) by blast
  qed
qed

subsection \<open>Witnesses\<close>

definition example_crypto :: crypto_functions where
  "example_crypto = \<lparr>Sha3_256 = (\<lambda>_. 0), crypto_Verify = (\<lambda>_ _ _. True)\<rparr>"

definition example_config :: FinalizationConfiguration where
  "example_config = \<lparr>cfg_Size = 10000, cfg_Threshold = 6700, cfg_MessageSynchronizationMaxResponseSize = 20000000, cfg_MaxHashesPerPoint = 256, cfg_PrevoteBlocksMultiple = 4,
     cfg_TreasuryReissuanceEpoch = 0, cfg_TreasuryReissuanceEpochIneligibleVoterAddresses = [], cfg_VotingSetGrouping = 720\<rparr>"

definition example_history :: "Amount \<Rightarrow> VotingKey \<Rightarrow> AccountHistory" where
  "example_history balance key =
     \<lparr>ah_balance = [(1, balance)], ah_votingPublicKeys = [(1, [\<lparr>pinned_VotingKey = key, StartEpoch = 1, EndEpoch = 9\<rparr>])]\<rparr>"

definition example_histories :: "(Address \<times> AccountHistory) list" where
  "example_histories = [(1, example_history 60 11), (2, example_history 40 12)]"

definition example_context :: FinalizationContext where
  "example_context = new_FinalizationContext 2 1 0 example_config example_histories"

definition example_signature :: "VotingKey \<Rightarrow> BmTreeSignature" where
  "example_signature key = \<lparr>bm_Root = \<lparr>ParentPublicKey = key, pair_Signature = 0\<rparr>, bm_Bottom = \<lparr>ParentPublicKey = 0, pair_Signature = 0\<rparr>\<rparr>"

definition example_proof :: "Hash256 \<Rightarrow> FinalizationProof" where
  "example_proof hash =
     \<lparr>p_Version = 1, p_Round = (2, 1), p_Height = 2, p_Hash = hash,
      p_MessageGroups =
        [\<lparr>g_Stage = Stage_Prevote, g_Height = 1, g_Hashes = [100, hash], g_Signatures = [example_signature 11, example_signature 12]\<rparr>,
         \<lparr>g_Stage = Stage_Precommit, g_Height = 2, g_Hashes = [hash], g_Signatures = [example_signature 12, example_signature 11]\<rparr>]\<rparr>"

lemma example_proofs_verified:
  "VerifyFinalizationProof example_crypto (example_proof 101) example_context = Inr Proof_Success"
  "VerifyFinalizationProof example_crypto (example_proof 102) example_context = Inr Proof_Success"
  by code_simp+

theorem conflicting_proofs_reveal_equivocators_witness:
  "VerifyFinalizationProof example_crypto (example_proof 101) example_context = Inr Proof_Success
   \<and> VerifyFinalizationProof example_crypto (example_proof 102) example_context = Inr Proof_Success
   \<and> 34 \<le> weight_of example_context (equivocators example_crypto example_context (example_proof 101) (example_proof 102))"
proof -
  have sum: "(\<Sum>(a, h)\<leftarrow>example_histories. unat (history_get 0 (ah_balance h) 1)) < 2 ^ 64" by (simp add: example_histories_def example_history_def)
  have ok: "layout_ok (example_proof h)" for h by (simp add: layout_ok_def example_proof_def)
  have w: "unat (CalculateWeightedThreshold example_context) = 67" "unat (fc_weight example_context) = 100" by code_simp+
  have "p_Height (example_proof h) = 2" "p_Hash (example_proof h) = h" "p_Round (example_proof h) = (2, 1)" for h by (simp_all add: example_proof_def)
  then show ?thesis
    using conflicting_proofs_reveal_equivocators [OF example_context_def sum example_proofs_verified ok ok] w example_proofs_verified by auto
qed

subsection \<open>Arithmetic that wraps around\<close>

text \<open>
  The product of weight and threshold is a 64 bit product. With the settings of the network (6700 of 10000) it wraps around as soon as the weight exceeds \<open>2\<^sup>6\<^sup>4 / 6700\<close>,
  less than a third of the largest supply of the currency: with a weight of three thousand million units (in millionths) the threshold is less than six percent.
\<close>

lemma weighted_threshold_exact:
  assumes "unat (fc_weight fc) * unat (cfg_Threshold (fc_config fc)) < 2 ^ 64"
  shows "unat (CalculateWeightedThreshold fc) = unat (fc_weight fc) * unat (cfg_Threshold (fc_config fc)) div unat (cfg_Size (fc_config fc))"
  using unat_mult_no_wrap [OF assms] by (simp add: CalculateWeightedThreshold_def unat_div)

lemma weighted_threshold_wraps:
  "CalculateWeightedThreshold (new_FinalizationContext 2 1 0 example_config [(1, example_history 3000000000000000 11)]) = 165325592629044"
  by code_simp

text \<open>
  The last height of a prevote is also computed in 64 bits, so that a prevote whose heights wrap around at their end is accepted, although
  most of its heights are not in the epoch.
\<close>

lemma wrapping_prevote_accepted:
  "\<exists>a. rma_add example_crypto
      \<lparr>fm_Reserved1 = 0, fm_Signature = example_signature 11, fm_Version = 1, fm_StepIdentifier = new_StepIdentifier 2 1 Stage_Prevote,
       fm_Height = - 3, fm_Hashes = [1, 2, 3, 4, 5]\<rparr>
      (CreateRoundMessageAggregator example_context) = Inr (Success_Prevote, a)"
proof -
  have "map_sum id fst (rma_add example_crypto
      \<lparr>fm_Reserved1 = 0, fm_Signature = example_signature 11, fm_Version = 1, fm_StepIdentifier = new_StepIdentifier 2 1 Stage_Prevote,
       fm_Height = - 3, fm_Hashes = [1, 2, 3, 4, 5]\<rparr>
      (CreateRoundMessageAggregator example_context)) = Inr Success_Prevote" by code_simp
  then show ?thesis by (auto simp: map_sum_def split: sum.splits)
qed

end
