(* ===== verification/FinalizationVoting.thy ===== *)
theory FinalizationVoting
  imports Finalization
begin

section \<open>Voting (extensions/finalization/src/chain)\<close>

text \<open>
  A voting node collects the messages of several rounds, decides when it may send its own prevote and precommit, and moves from round to round. The theory models the aggregator of
  several rounds, the stage advancer, the factory of messages and the orchestrator.

  The stage advancer is polled while other threads add messages, so that each of its decisions is made on an aggregator of its own. The message sink is the list of the messages sent.
  The chain, the last finalized block and the private key tree are arguments; the consumer that keeps a backup of the
  prevote chain is left out. A division by zero and a search that does not end are exceptions, as is a failed
  check of the voting set; an exception ends the poll.
\<close>

definition checked :: "'a option \<Rightarrow> exn + 'a" where
  "checked r = (case r of None \<Rightarrow> Inl Out_Of_Range | Some x \<Rightarrow> Inr x)"

subsection \<open>Several rounds\<close>

record MultiRoundMessageAggregator =
  MinFinalizationRound :: FinalizationRound
  MaxFinalizationRound :: FinalizationRound
  PreviousFinalizedHeightHashPair :: HeightHashPair
  RoundMessageAggregatorFactory :: "FinalizationRound \<Rightarrow> RoundMessageAggregator"
  RoundMessageAggregators :: "(FinalizationRound, RoundMessageAggregator) smap"

definition new_MultiRoundMessageAggregator ::
  "FinalizationRound \<Rightarrow> HeightHashPair \<Rightarrow> (FinalizationRound \<Rightarrow> RoundMessageAggregator) \<Rightarrow> MultiRoundMessageAggregator" where
  "new_MultiRoundMessageAggregator r previousFinalizedHeightHashPair roundMessageAggregatorFactory =
     \<lparr>MinFinalizationRound = r, MaxFinalizationRound = r, PreviousFinalizedHeightHashPair = previousFinalizedHeightHashPair,
      RoundMessageAggregatorFactory = roundMessageAggregatorFactory, RoundMessageAggregators = smap_empty\<rparr>"

definition tryGetRoundContext :: "MultiRoundMessageAggregator \<Rightarrow> FinalizationRound \<Rightarrow> RoundContext option" where
  "tryGetRoundContext s r = map_option rma_roundContext (smap_find (RoundMessageAggregators s) r)"

fun estimate_loop :: "HeightHashPair \<Rightarrow> FinalizationRound \<Rightarrow> (FinalizationRound \<times> RoundMessageAggregator) list \<Rightarrow> HeightHashPair option" where
  "estimate_loop previous r [] = Some previous"
| "estimate_loop previous r ((k, a) # rest) =
     (if k > r then estimate_loop previous r rest
      else
        case tryFindEstimate (rma_roundContext a) of
          None \<Rightarrow> None
        | Some None \<Rightarrow> estimate_loop previous r rest
        | Some (Some estimate) \<Rightarrow> Some estimate)"

definition findEstimate :: "MultiRoundMessageAggregator \<Rightarrow> FinalizationRound \<Rightarrow> HeightHashPair option" where
  "findEstimate s r = estimate_loop (PreviousFinalizedHeightHashPair s) r (rev (RoundMessageAggregators s))"

fun best_precommit_loop :: "(FinalizationRound \<times> RoundMessageAggregator) list \<Rightarrow> (FinalizationRound \<times> HeightHashPair) option option" where
  "best_precommit_loop [] = Some None"
| "best_precommit_loop ((k, a) # rest) =
     (case tryFindBestPrecommit (rma_roundContext a) of
        None \<Rightarrow> None
      | Some None \<Rightarrow> best_precommit_loop rest
      | Some (Some target) \<Rightarrow> Some (Some (k, target)))"

definition mr_tryFindBestPrecommit :: "MultiRoundMessageAggregator \<Rightarrow> (FinalizationRound \<times> HeightHashPair) option option" where
  "mr_tryFindBestPrecommit s = best_precommit_loop (rev (RoundMessageAggregators s))"

definition setMaxFinalizationRound :: "FinalizationRound \<Rightarrow> MultiRoundMessageAggregator \<Rightarrow> exn + MultiRoundMessageAggregator" where
  "setMaxFinalizationRound r s = (if MinFinalizationRound s > r then Inl Invalid_Argument else Inr (s\<lparr>MaxFinalizationRound := r\<rparr>))"

definition mr_add :: "crypto_functions \<Rightarrow> FinalizationMessage \<Rightarrow> MultiRoundMessageAggregator
    \<Rightarrow> exn + RoundMessageAggregatorAddResult \<times> MultiRoundMessageAggregator" where
  "mr_add c m s =
     (let messageRound = si_Round (fm_StepIdentifier m)
      in if MinFinalizationRound s > messageRound \<or> MaxFinalizationRound s < messageRound then Inr (Failure_Invalid_Point, s)
         else
           let aggregators =
                 (if smap_contains (RoundMessageAggregators s) messageRound then RoundMessageAggregators s
                  else smap_insert messageRound (RoundMessageAggregatorFactory s messageRound) (RoundMessageAggregators s));
               aggregator = (case smap_find aggregators messageRound of Some a \<Rightarrow> a | None \<Rightarrow> RoundMessageAggregatorFactory s messageRound)
           in rbind (rma_add c m aggregator) (\<lambda>(result, a). Inr (result, s\<lparr>RoundMessageAggregators := smap_put messageRound a aggregators\<rparr>)))"

definition mr_prune :: "FinalizationEpoch \<Rightarrow> MultiRoundMessageAggregator \<Rightarrow> MultiRoundMessageAggregator" where
  "mr_prune epoch s =
     (let aggregators = smap_erase_below (epoch, 0) (RoundMessageAggregators s)
      in s\<lparr>RoundMessageAggregators := aggregators,
           MinFinalizationRound := (if aggregators = [] then MaxFinalizationRound s else fst (hd aggregators))\<rparr>)"

subsection \<open>The stage advancer\<close>

record FinalizationStageAdvancer =
  sa_round :: FinalizationRound
  sa_startTime :: uint64
  sa_stepDuration :: uint64

definition isElapsed :: "FinalizationStageAdvancer \<Rightarrow> uint64 \<Rightarrow> uint16 \<Rightarrow> bool" where
  "isElapsed sa time numSteps \<longleftrightarrow> time \<ge> sa_startTime sa + ucast numSteps * sa_stepDuration sa"

definition canSendPrevote :: "FinalizationStageAdvancer \<Rightarrow> MultiRoundMessageAggregator \<Rightarrow> uint64 \<Rightarrow> bool option" where
  "canSendPrevote sa s time =
     (if isElapsed sa time 1 then Some True
      else case tryGetRoundContext s (sa_round sa) of None \<Rightarrow> Some False | Some roundContext \<Rightarrow> isCompletable roundContext)"

text \<open>\<open>m_round - FinalizationPoint(1)\<close> keeps the epoch.\<close>

definition canSendPrecommit :: "FinalizationStageAdvancer \<Rightarrow> MultiRoundMessageAggregator \<Rightarrow> uint64 \<Rightarrow> HeightHashPair option option" where
  "canSendPrecommit sa s time =
     (case tryGetRoundContext s (sa_round sa) of
        None \<Rightarrow> Some None
      | Some roundContext \<Rightarrow>
          (case tryFindBestPrevote roundContext of
             None \<Rightarrow> None
           | Some None \<Rightarrow> Some None
           | Some (Some bestPrevote) \<Rightarrow>
               (case findEstimate s (fst (sa_round sa), snd (sa_round sa) - 1) of
                  None \<Rightarrow> None
                | Some estimate \<Rightarrow>
                    (case rc_isDescendant roundContext estimate bestPrevote of
                       None \<Rightarrow> None
                     | Some d \<Rightarrow>
                         if \<not> d then Some None
                         else if isElapsed sa time 2 then Some (Some bestPrevote)
                         else map_option (\<lambda>b. if b then Some bestPrevote else None) (isCompletable roundContext)))))"

definition canStartNextRound :: "FinalizationStageAdvancer \<Rightarrow> MultiRoundMessageAggregator \<Rightarrow> bool option" where
  "canStartNextRound sa s = (case tryGetRoundContext s (sa_round sa) of None \<Rightarrow> Some False | Some roundContext \<Rightarrow> isCompletable roundContext)"

subsection \<open>The message factory\<close>

record message_factory =
  mf_config :: FinalizationConfiguration
  mf_chainHeight :: Height
  mf_loadHashesFrom :: "Height \<Rightarrow> uint64 \<Rightarrow> Hash256 list"
  mf_finalizedHeight :: Height
  mf_finalizedHash :: Hash256
  mf_canSign :: "uint64 \<Rightarrow> bool"
  mf_sign :: "uint64 \<Rightarrow> uint8 list \<Rightarrow> BmTreeSignature"

definition PrepareMessage :: "message_factory \<Rightarrow> StepIdentifier \<Rightarrow> Height \<Rightarrow> Hash256 list \<Rightarrow> FinalizationMessage option" where
  "PrepareMessage f stepIdentifier height hashes =
     (let keyIdentifier = StepIdentifierToBmKeyIdentifier stepIdentifier
      in if \<not> mf_canSign f keyIdentifier then None
         else
           let m = \<lparr>fm_Reserved1 = 0, fm_Signature = \<lparr>bm_Root = \<lparr>ParentPublicKey = 0, pair_Signature = 0\<rparr>, bm_Bottom = \<lparr>ParentPublicKey = 0, pair_Signature = 0\<rparr>\<rparr>,
                    fm_Version = FinalizationMessage_Current_Version, fm_StepIdentifier = stepIdentifier, fm_Height = height, fm_Hashes = hashes\<rparr>
           in Some (m\<lparr>fm_Signature := mf_sign f keyIdentifier (fm_ToBuffer m)\<rparr>))"

definition factory_Clamp :: "uint64 \<Rightarrow> uint16 \<Rightarrow> uint16 \<Rightarrow> exn + uint64" where
  "factory_Clamp raw multiple adjustment =
     (if multiple = 0 then Inl Runtime_Error
      else Inr (if 0 = raw mod ucast multiple then raw else (raw div ucast multiple + ucast adjustment) * ucast multiple))"

definition loadPrevoteHashChain :: "message_factory \<Rightarrow> FinalizationRound \<Rightarrow> Height \<Rightarrow> exn + Hash256 list" where
  "loadPrevoteHashChain f r startHeight =
     (let chainHeight = mf_chainHeight f; multiple = cfg_PrevoteBlocksMultiple (mf_config f);
          maxPrevoteHashHeight = (if chainHeight \<ge> ucast multiple then chainHeight - ucast multiple else chainHeight)
      in rbind (CalculateVotingSetEndHeight (fst r) (cfg_VotingSetGrouping (mf_config f))) (\<lambda>maxVotingSetHeight.
         let maxPrevoteHashHeight = (if maxPrevoteHashHeight > maxVotingSetHeight then maxVotingSetHeight else maxPrevoteHashHeight)
         in rbind (factory_Clamp maxPrevoteHashHeight multiple 0) (\<lambda>clampedChainHeight.
            let numHashes = (if clampedChainHeight > startHeight then clampedChainHeight - startHeight + 1 else 1);
                maxHashes = ucast (cfg_MaxHashesPerPoint (mf_config f))
            in rbind (if numHashes > maxHashes then rbind (factory_Clamp (numHashes - maxHashes) multiple 1) (\<lambda>n. Inr (numHashes - n)) else Inr numHashes) (\<lambda>numHashes.
               Inr (mf_loadHashesFrom f startHeight numHashes)))))"

definition createPrevote :: "message_factory \<Rightarrow> FinalizationRound \<Rightarrow> exn + FinalizationMessage option" where
  "createPrevote f r =
     rbind (loadPrevoteHashChain f r (mf_finalizedHeight f)) (\<lambda>hashRange.
       Inr (PrepareMessage f (new_StepIdentifier (fst r) (snd r) Stage_Prevote) (mf_finalizedHeight f)
              (if hashRange = [] then [mf_finalizedHash f] else hashRange)))"

definition createPrecommit :: "message_factory \<Rightarrow> FinalizationRound \<Rightarrow> Height \<Rightarrow> Hash256 \<Rightarrow> FinalizationMessage option" where
  "createPrecommit f r height hash = PrepareMessage f (new_StepIdentifier (fst r) (snd r) Stage_Precommit) height [hash]"

subsection \<open>The orchestrator\<close>

record VotingStatus =
  vs_Round :: FinalizationRound
  HasSentPrevote :: bool
  HasSentPrecommit :: bool

record FinalizationOrchestrator =
  fo_votingStatus :: VotingStatus
  fo_stageAdvancer :: "FinalizationStageAdvancer option"
  fo_sent :: "FinalizationMessage list"

definition new_FinalizationOrchestrator :: "VotingStatus \<Rightarrow> FinalizationOrchestrator" where
  "new_FinalizationOrchestrator votingStatus = \<lparr>fo_votingStatus = votingStatus, fo_stageAdvancer = None, fo_sent = []\<rparr>"

definition ClearFlags :: "VotingStatus \<Rightarrow> VotingStatus" where
  "ClearFlags votingStatus = votingStatus\<lparr>HasSentPrevote := False, HasSentPrecommit := False\<rparr>"

definition setEpoch :: "FinalizationEpoch \<Rightarrow> FinalizationOrchestrator \<Rightarrow> exn + FinalizationOrchestrator" where
  "setEpoch epoch fo =
     (let current = fst (vs_Round (fo_votingStatus fo))
      in if epoch < current then Inl Invalid_Argument
         else if epoch = current then Inr fo
         else Inr (fo\<lparr>fo_votingStatus := ClearFlags ((fo_votingStatus fo)\<lparr>vs_Round := (epoch, 1)\<rparr>), fo_stageAdvancer := None\<rparr>))"

definition startRound :: "uint64 \<Rightarrow> uint64 \<Rightarrow> FinalizationOrchestrator \<Rightarrow> FinalizationOrchestrator" where
  "startRound stepDuration time fo =
     fo\<lparr>fo_stageAdvancer := Some \<lparr>sa_round = vs_Round (fo_votingStatus fo), sa_startTime = time, sa_stepDuration = stepDuration\<rparr>\<rparr>"

definition fo_process :: "(FinalizationMessage \<Rightarrow> bool) \<Rightarrow> FinalizationMessage option \<Rightarrow> FinalizationOrchestrator \<Rightarrow> FinalizationOrchestrator" where
  "fo_process messagePredicate pMessage fo =
     (case pMessage of
        None \<Rightarrow> fo
      | Some m \<Rightarrow> if \<not> messagePredicate m then fo else fo\<lparr>fo_sent := fo_sent fo @ [m]\<rparr>)"

text \<open>What the orchestrator meets in a poll: the time, the factory, the predicate, and the aggregator at each of its three questions.\<close>

record poll_input =
  pi_time :: uint64
  pi_stepDuration :: uint64
  pi_factory :: message_factory
  pi_predicate :: "FinalizationMessage \<Rightarrow> bool"
  pi_prevote :: MultiRoundMessageAggregator
  pi_precommit :: MultiRoundMessageAggregator
  pi_next :: MultiRoundMessageAggregator

definition send_prevote :: "poll_input \<Rightarrow> FinalizationStageAdvancer \<Rightarrow> FinalizationOrchestrator \<Rightarrow> exn + FinalizationOrchestrator" where
  "send_prevote i sa fo =
     (if HasSentPrevote (fo_votingStatus fo) then Inr fo
      else
        rbind (checked (canSendPrevote sa (pi_prevote i) (pi_time i))) (\<lambda>b.
        if \<not> b then Inr fo
        else
          rbind (createPrevote (pi_factory i) (vs_Round (fo_votingStatus fo))) (\<lambda>pMessage.
          let fo = fo_process (pi_predicate i) pMessage fo
          in Inr (fo\<lparr>fo_votingStatus := (fo_votingStatus fo)\<lparr>HasSentPrevote := True\<rparr>\<rparr>))))"

definition send_precommit :: "poll_input \<Rightarrow> FinalizationStageAdvancer \<Rightarrow> FinalizationOrchestrator \<Rightarrow> exn + FinalizationOrchestrator" where
  "send_precommit i sa fo =
     (if HasSentPrecommit (fo_votingStatus fo) then Inr fo
      else
        rbind (checked (canSendPrecommit sa (pi_precommit i) (pi_time i))) (\<lambda>target.
        case target of
          None \<Rightarrow> Inr fo
        | Some (height, hash) \<Rightarrow>
            let fo = fo_process (pi_predicate i) (createPrecommit (pi_factory i) (vs_Round (fo_votingStatus fo)) height hash) fo
            in Inr (fo\<lparr>fo_votingStatus := (fo_votingStatus fo)\<lparr>HasSentPrecommit := True\<rparr>\<rparr>)))"

definition next_round :: "poll_input \<Rightarrow> FinalizationStageAdvancer \<Rightarrow> FinalizationOrchestrator \<Rightarrow> exn + FinalizationOrchestrator" where
  "next_round i sa fo =
     (if \<not> HasSentPrecommit (fo_votingStatus fo) then Inr fo
      else
        rbind (checked (canStartNextRound sa (pi_next i))) (\<lambda>b.
        if \<not> b then Inr fo
        else
          let status = fo_votingStatus fo; (epoch, point) = vs_Round status
          in Inr (startRound (pi_stepDuration i) (pi_time i) (fo\<lparr>fo_votingStatus := ClearFlags (status\<lparr>vs_Round := (epoch, point + 1)\<rparr>)\<rparr>))))"

definition poll :: "poll_input \<Rightarrow> FinalizationOrchestrator \<Rightarrow> exn + FinalizationOrchestrator" where
  "poll i fo =
     (let fo = (if fo_stageAdvancer fo = None then startRound (pi_stepDuration i) (pi_time i) fo else fo)
      in case fo_stageAdvancer fo of
           None \<Rightarrow> Inl Out_Of_Range
         | Some sa \<Rightarrow> rbind (send_prevote i sa fo) (\<lambda>fo. rbind (send_precommit i sa fo) (\<lambda>fo. next_round i sa fo)))"

subsection \<open>Voting once per step\<close>

datatype orchestrator_input = Poll poll_input | SetEpoch FinalizationEpoch

fun orchestrator_step :: "orchestrator_input \<Rightarrow> FinalizationOrchestrator \<Rightarrow> exn + FinalizationOrchestrator" where
  "orchestrator_step (Poll i) fo = poll i fo"
| "orchestrator_step (SetEpoch epoch) fo = setEpoch epoch fo"

text \<open>The steps that a voting status excludes from being voted in again.\<close>

definition step_done :: "VotingStatus \<Rightarrow> StepIdentifier \<Rightarrow> bool" where
  "step_done status s \<longleftrightarrow> si_Round s < vs_Round status
    \<or> si_Round s = vs_Round status \<and> (if si_Stage s = Stage_Prevote then HasSentPrevote status else HasSentPrecommit status)"

definition votes_inv :: "VotingStatus \<Rightarrow> FinalizationOrchestrator \<Rightarrow> bool" where
  "votes_inv init fo \<longleftrightarrow> distinct (map fm_StepIdentifier (fo_sent fo))
    \<and> (\<forall>m\<in>set (fo_sent fo). step_done (fo_votingStatus fo) (fm_StepIdentifier m) \<and> \<not> step_done init (fm_StepIdentifier m))
    \<and> (\<forall>s. step_done init s \<longrightarrow> step_done (fo_votingStatus fo) s)"

definition point_of :: "FinalizationOrchestrator \<Rightarrow> nat" where
  "point_of fo = unat (snd (vs_Round (fo_votingStatus fo)))"

lemma votes_inv_status:
  assumes "votes_inv init fo" "\<And>s. step_done (fo_votingStatus fo) s \<Longrightarrow> step_done (fo_votingStatus fo') s" "fo_sent fo' = fo_sent fo"
  shows "votes_inv init fo'"
  using assms unfolding votes_inv_def by auto

lemma votes_inv_send:
  assumes "votes_inv init fo" "\<And>s. step_done (fo_votingStatus fo) s \<Longrightarrow> step_done (fo_votingStatus fo') s"
    and "fo_sent fo' = fo_sent fo @ [m]" "step_done (fo_votingStatus fo') (fm_StepIdentifier m)" "\<not> step_done (fo_votingStatus fo) (fm_StepIdentifier m)"
  shows "votes_inv init fo'"
  using assms unfolding votes_inv_def by auto

lemma PrepareMessage_step: "PrepareMessage f s height hashes = Some m \<Longrightarrow> fm_StepIdentifier m = s"
  by (auto simp: PrepareMessage_def Let_def split: if_splits)

lemma process_inv:
  assumes inv: "votes_inv init fo" and point: "point_of fo < 2 ^ 31" and stage: "stage \<le> 1"
    and new: "\<not> step_done (fo_votingStatus fo) (new_StepIdentifier (fst (vs_Round (fo_votingStatus fo))) (snd (vs_Round (fo_votingStatus fo))) stage)"
    and m: "\<And>m. pMessage = Some m \<Longrightarrow> fm_StepIdentifier m = new_StepIdentifier (fst (vs_Round (fo_votingStatus fo))) (snd (vs_Round (fo_votingStatus fo))) stage"
    and status: "vs_Round status' = vs_Round (fo_votingStatus fo)"
      "HasSentPrevote status' = (HasSentPrevote (fo_votingStatus fo) \<or> stage = Stage_Prevote)"
      "HasSentPrecommit status' = (HasSentPrecommit (fo_votingStatus fo) \<or> stage = Stage_Precommit)"
  shows "votes_inv init ((fo_process P pMessage fo)\<lparr>fo_votingStatus := status'\<rparr>)"
proof -
  let ?status = "fo_votingStatus fo" and ?fo' = "(fo_process P pMessage fo)\<lparr>fo_votingStatus := status'\<rparr>"
  let ?s = "new_StepIdentifier (fst (vs_Round ?status)) (snd (vs_Round ?status)) stage"
  have "snd (vs_Round ?status) < 2 ^ 31" using point by (simp add: point_of_def word_less_nat_alt)
  from step_identifier_parts [OF this stage] have parts: "si_Round ?s = vs_Round ?status" "si_Stage ?s = stage" by auto
  have "stage = Stage_Prevote \<or> stage = Stage_Precommit" using stage by (auto simp: Stage_Prevote_def Stage_Precommit_def word_le_nat_alt word_unat_eq_iff)
  then have now: "step_done status' ?s" using status parts by (auto simp: step_done_def Stage_Prevote_def Stage_Precommit_def)
  have mono: "step_done status' s" if "step_done ?status s" for s using that status by (auto simp: step_done_def split: if_splits)
  show ?thesis
  proof (cases "\<exists>m. pMessage = Some m \<and> P m")
    case True
    then obtain m' where m': "pMessage = Some m'" "P m'" by blast
    show ?thesis by (rule votes_inv_send [OF inv, of _ m']) (use m' m [OF m'(1)] new now mono in \<open>simp_all add: fo_process_def\<close>)
  next
    case False
    then have "fo_process P pMessage fo = fo" by (auto simp: fo_process_def split: option.splits)
    then show ?thesis using votes_inv_status [OF inv, of "fo\<lparr>fo_votingStatus := status'\<rparr>"] mono by simp
  qed
qed

lemma fo_process_status [simp]: "fo_votingStatus (fo_process P pMessage fo) = fo_votingStatus fo"
  by (simp add: fo_process_def split: option.splits)

lemma send_prevote_inv:
  assumes "votes_inv init fo" "point_of fo < 2 ^ 31" "send_prevote i sa fo = Inr fo'"
  shows "votes_inv init fo' \<and> vs_Round (fo_votingStatus fo') = vs_Round (fo_votingStatus fo)"
proof (cases "fo' = fo")
  case False
  let ?status = "fo_votingStatus fo"
  obtain pMessage where p: "createPrevote (pi_factory i) (vs_Round ?status) = Inr pMessage" "\<not> HasSentPrevote ?status"
      "fo' = (fo_process (pi_predicate i) pMessage fo)\<lparr>fo_votingStatus := ?status\<lparr>HasSentPrevote := True\<rparr>\<rparr>"
    using assms(3) False by (auto simp: send_prevote_def rbind_Inr_iff Let_def split: if_splits)
  have m: "fm_StepIdentifier m = new_StepIdentifier (fst (vs_Round ?status)) (snd (vs_Round ?status)) Stage_Prevote" if "pMessage = Some m" for m
    using p(1) that by (auto simp: createPrevote_def rbind_Inr_iff dest!: PrepareMessage_step)
  have "snd (vs_Round ?status) < 2 ^ 31" using assms(2) by (simp add: point_of_def word_less_nat_alt)
  then have new: "\<not> step_done ?status (new_StepIdentifier (fst (vs_Round ?status)) (snd (vs_Round ?status)) Stage_Prevote)"
    using p(2) step_identifier_parts [of "snd (vs_Round ?status)" Stage_Prevote "fst (vs_Round ?status)"] by (simp add: step_done_def Stage_Prevote_def)
  have "votes_inv init fo'" unfolding p(3) by (rule process_inv [OF assms(1,2) _ new m]) (simp_all add: Stage_Prevote_def Stage_Precommit_def)
  then show ?thesis by (simp add: p(3))
qed (use assms(1) in simp)

lemma send_precommit_inv:
  assumes "votes_inv init fo" "point_of fo < 2 ^ 31" "send_precommit i sa fo = Inr fo'"
  shows "votes_inv init fo' \<and> vs_Round (fo_votingStatus fo') = vs_Round (fo_votingStatus fo)"
proof (cases "fo' = fo")
  case False
  let ?status = "fo_votingStatus fo"
  obtain height hash where p: "\<not> HasSentPrecommit ?status"
      "fo' = (fo_process (pi_predicate i) (createPrecommit (pi_factory i) (vs_Round ?status) height hash) fo)\<lparr>fo_votingStatus := ?status\<lparr>HasSentPrecommit := True\<rparr>\<rparr>"
    using assms(3) False by (auto simp: send_precommit_def rbind_Inr_iff Let_def split: if_splits option.splits prod.splits)
  have m: "fm_StepIdentifier m = new_StepIdentifier (fst (vs_Round ?status)) (snd (vs_Round ?status)) Stage_Precommit"
    if "createPrecommit (pi_factory i) (vs_Round ?status) height hash = Some m" for m
    using that by (auto simp: createPrecommit_def dest!: PrepareMessage_step)
  have "snd (vs_Round ?status) < 2 ^ 31" using assms(2) by (simp add: point_of_def word_less_nat_alt)
  then have new: "\<not> step_done ?status (new_StepIdentifier (fst (vs_Round ?status)) (snd (vs_Round ?status)) Stage_Precommit)"
    using p(1) step_identifier_parts [of "snd (vs_Round ?status)" Stage_Precommit "fst (vs_Round ?status)"] by (simp add: step_done_def Stage_Prevote_def Stage_Precommit_def)
  have "votes_inv init fo'" unfolding p(2) by (rule process_inv [OF assms(1,2) _ new m]) (simp_all add: Stage_Prevote_def Stage_Precommit_def)
  then show ?thesis by (simp add: p(2))
qed (use assms(1) in simp)

text \<open>Later rounds exclude all steps of earlier ones.\<close>

lemma later_round_inv:
  assumes "votes_inv init fo" "vs_Round (fo_votingStatus fo) < vs_Round (fo_votingStatus fo')" "fo_sent fo' = fo_sent fo"
  shows "votes_inv init fo'"
proof (rule votes_inv_status [OF assms(1) _ assms(3)])
  fix s
  assume "step_done (fo_votingStatus fo) s"
  then show "step_done (fo_votingStatus fo') s" using assms(2) by (auto simp: step_done_def intro: less_trans)
qed

lemma next_round_inv:
  assumes "votes_inv init fo" "Suc (point_of fo) < 2 ^ 31" "next_round i sa fo = Inr fo'"
  shows "votes_inv init fo' \<and> point_of fo' \<le> Suc (point_of fo)"
proof (cases "fo' = fo")
  case False
  obtain epoch point where r: "vs_Round (fo_votingStatus fo) = (epoch, point)" by (cases "vs_Round (fo_votingStatus fo)")
  have fo': "fo_sent fo' = fo_sent fo" "vs_Round (fo_votingStatus fo') = (epoch, point + 1)"
    using assms(3) False r by (auto simp: next_round_def rbind_Inr_iff Let_def startRound_def ClearFlags_def split: if_splits)
  have u: "unat (point + 1) = unat point + 1" using assms(2) r by (subst word_add_no_wrap) (auto simp: point_of_def)
  then have "point < point + 1" by (simp add: word_less_nat_alt)
  then have "votes_inv init fo'" using later_round_inv [OF assms(1) _ fo'(1)] r fo'(2) by simp
  then show ?thesis using u fo'(2) r by (simp add: point_of_def)
qed (use assms(1) in simp)

lemma orchestrator_step_inv:
  assumes "votes_inv init fo" "Suc (point_of fo) < 2 ^ 31" "orchestrator_step input fo = Inr fo'"
  shows "votes_inv init fo' \<and> point_of fo' \<le> Suc (point_of fo)"
proof (cases input)
  case (Poll i)
  define fo0 where "fo0 = (if fo_stageAdvancer fo = None then startRound (pi_stepDuration i) (pi_time i) fo else fo)"
  have fo0: "fo_votingStatus fo0 = fo_votingStatus fo" "fo_sent fo0 = fo_sent fo" by (simp_all add: fo0_def startRound_def)
  then have inv0: "votes_inv init fo0" "Suc (point_of fo0) < 2 ^ 31" using assms(1,2) by (simp_all add: votes_inv_def point_of_def)
  obtain sa fo1 fo2 where steps: "send_prevote i sa fo0 = Inr fo1" "send_precommit i sa fo1 = Inr fo2" "next_round i sa fo2 = Inr fo'"
    using assms(3) Poll by (auto simp: poll_def fo0_def [symmetric] Let_def rbind_Inr_iff split: option.splits)
  have 1: "votes_inv init fo1" "point_of fo1 = point_of fo0" using send_prevote_inv [OF inv0(1) _ steps(1)] inv0(2) by (auto simp: point_of_def)
  then have 2: "votes_inv init fo2" "point_of fo2 = point_of fo0" using send_precommit_inv [OF 1(1) _ steps(2)] inv0(2) by (auto simp: point_of_def)
  have "point_of fo0 = point_of fo" using fo0 by (simp add: point_of_def)
  then show ?thesis using next_round_inv [OF 2(1) _ steps(3)] 2(2) inv0(2) by simp
next
  case (SetEpoch epoch)
  show ?thesis
  proof (cases "epoch = fst (vs_Round (fo_votingStatus fo))")
    case False
    then have fo': "fst (vs_Round (fo_votingStatus fo)) < epoch" "fo_sent fo' = fo_sent fo" "vs_Round (fo_votingStatus fo') = (epoch, 1)"
      using assms(3) SetEpoch by (auto simp: setEpoch_def Let_def ClearFlags_def split: if_splits)
    then have "votes_inv init fo'" by (intro later_round_inv [OF assms(1)]) (auto simp: less_prod_def)
    then show ?thesis using fo'(3) by (simp add: point_of_def)
  qed (use assms SetEpoch in \<open>simp add: setEpoch_def\<close>)
qed

subsection \<open>Properties\<close>

text \<open>
  C11. A node votes at most once per step, also across restarts. Start an orchestrator with a stored voting status and let it be polled and be moved to later epochs any number of times, with any messages
  arriving at any time, as long as no exception ends it and the points stay below \<open>2\<^sup>3\<^sup>1\<close>. No two of the messages that it sends are for the same epoch, point and stage, and none is for a
  step that the initial status records as voted in or that belongs to an earlier round.
\<close>

theorem orchestrator_votes_once:
  assumes "rfold orchestrator_step inputs (new_FinalizationOrchestrator status) = Inr fo"
    and "unat (snd (vs_Round status)) + length inputs < 2 ^ 31"
  shows "distinct (map fm_StepIdentifier (fo_sent fo)) \<and> (\<forall>m\<in>set (fo_sent fo). \<not> step_done status (fm_StepIdentifier m))"
proof -
  have "votes_inv status fo'" if "votes_inv status fo0" "point_of fo0 + length inputs < 2 ^ 31" "rfold orchestrator_step inputs fo0 = Inr fo'" for fo0 fo'
    using that
  proof (induction inputs arbitrary: fo0)
    case (Cons input inputs)
    obtain fo1 where fo1: "orchestrator_step input fo0 = Inr fo1" "rfold orchestrator_step inputs fo1 = Inr fo'" using Cons.prems(3) by (auto simp: rbind_Inr_iff)
    have "votes_inv status fo1 \<and> point_of fo1 \<le> Suc (point_of fo0)" by (rule orchestrator_step_inv [OF Cons.prems(1) _ fo1(1)]) (use Cons.prems(2) in simp)
    then show ?case using Cons.IH [OF _ _ fo1(2)] Cons.prems(2) by simp
  qed simp
  moreover have "votes_inv status (new_FinalizationOrchestrator status)" by (simp add: votes_inv_def new_FinalizationOrchestrator_def)
  ultimately have "votes_inv status fo" using assms by (simp add: point_of_def new_FinalizationOrchestrator_def)
  then show ?thesis by (simp add: votes_inv_def)
qed

definition example_factory :: message_factory where
  "example_factory = \<lparr>mf_config = example_config, mf_chainHeight = 10, mf_loadHashesFrom = (\<lambda>height n. map (\<lambda>i. of_nat (100 + i)) [0..<unat n]),
     mf_finalizedHeight = 1, mf_finalizedHash = 100, mf_canSign = (\<lambda>_. True), mf_sign = (\<lambda>_ _. example_signature 11)\<rparr>"

definition example_rounds :: MultiRoundMessageAggregator where
  "example_rounds = new_MultiRoundMessageAggregator (2, 1) (1, 100) (\<lambda>_. CreateRoundMessageAggregator example_context)"

definition example_poll :: "uint64 \<Rightarrow> orchestrator_input" where
  "example_poll time = Poll \<lparr>pi_time = time, pi_stepDuration = 10, pi_factory = example_factory, pi_predicate = (\<lambda>_. True),
     pi_prevote = example_rounds, pi_precommit = example_rounds, pi_next = example_rounds\<rparr>"

theorem orchestrator_votes_once_witness:
  "\<exists>fo. rfold orchestrator_step [example_poll 0, example_poll 10, SetEpoch 3, example_poll 20, example_poll 30]
        (new_FinalizationOrchestrator \<lparr>vs_Round = (2, 1), HasSentPrevote = False, HasSentPrecommit = False\<rparr>) = Inr fo
    \<and> length (fo_sent fo) = 2 \<and> distinct (map fm_StepIdentifier (fo_sent fo))"
proof -
  let ?inputs = "[example_poll 0, example_poll 10, SetEpoch 3, example_poll 20, example_poll 30]"
  let ?status = "\<lparr>vs_Round = (2, 1), HasSentPrevote = False, HasSentPrecommit = False\<rparr>"
  have "map_sum id (\<lambda>fo. length (fo_sent fo)) (rfold orchestrator_step ?inputs (new_FinalizationOrchestrator ?status)) = Inr 2" by code_simp
  then obtain fo where fo: "rfold orchestrator_step ?inputs (new_FinalizationOrchestrator ?status) = Inr fo" "length (fo_sent fo) = 2"
    by (auto simp: map_sum_def split: sum.splits)
  then show ?thesis using orchestrator_votes_once [OF fo(1)] by auto
qed

end
