(* ===== verification/Spec2Isabelle.thy ===== *)
theory Spec2Isabelle
  imports LockObservers Merkle MerkleRoot Unconfirmed Cosignatures Difficulty FinalizationVoting
begin

text \<open>
  This development models the core of the catapult client, the node software of the symbol block chain
  (\<open>src/client/catapult\<close>), and proves the properties that its components rely on.

  \<^bold>\<open>The program.\<close> A node keeps the state of the chain in caches. A cache is a set with a delta on top: blocks change the delta, a
  commit publishes it (\<open>deltaset\<close>, \<open>cache\<close>). Transactions and blocks are published as notifications; validators judge a
  notification and observers apply it to the deltas or undo it (\<open>model\<close>, \<open>validators\<close>, \<open>observers\<close>, \<open>chain\<close>). Plugins contribute
  the caches, validators and observers: balances (\<open>plugins/coresystem\<close>), hash and secret locks (\<open>plugins/txes/lock_*\<close>), multisig
  accounts (\<open>plugins/txes/multisig\<close>). What observers do is recorded in receipts, and a block commits to them by a merkle root.
  Beside each cache delta a patricia tree is updated, whose root is the state hash of the block (\<open>tree\<close>). Transactions that
  are not in a block yet wait in a pool and are applied to an unconfirmed copy of the state (\<open>cache_tx\<close>, \<open>chain/UtUpdater\<close>).
  Which of two chains a node follows is decided by difficulties and scores (\<open>chain\<close>). Blocks become final by weighted votes (\<open>extensions/finalization\<close>).

  \<^bold>\<open>Theories and sources.\<close> In the order of their imports; paths are below \<open>src/client/catapult/src/catapult\<close> unless they start with \<open>plugins\<close> or belong to an extension.
  \<^item> \<open>Prelude\<close>: machine integers as words, exceptions as values of \<open>exn + 'a\<close>, loops that may throw, byte layouts. \<open>StlMap\<close>: the ordered
    containers of the standard library as sorted association lists, with the locale \<open>assoc_container\<close> of their laws.
  \<^item> \<open>DeltaSet\<close>: \<open>deltaset/BaseSet.h\<close>, \<open>BaseSetDelta.h\<close>, \<open>BaseSetCommitPolicy.h\<close>, \<open>BaseSetDeltaIterationView.h\<close>, \<open>OrderedSet.h\<close>. A delta
    refines a finite map, commits publish it, iteration enumerates it, generations mark what changed. Locale \<open>mutable_cache\<close>.
  \<^item> \<open>CompactMosaicMap\<close>, \<open>AccountBalances\<close>: \<open>state/CompactMosaicMap.h\<close> with its three levels of storage, refined to a finite map (locale
    \<open>optimized_map\<close>), and \<open>state/AccountBalances.cpp\<close> on top of it with amounts of 64 bits.
  \<^item> \<open>AccountData\<close>, \<open>AccountStateCache\<close>, \<open>References\<close>: \<open>state/CompactArrayStack.h\<close>, \<open>AccountActivityBuckets.h\<close>, \<open>AccountPublicKeys.cpp\<close>,
    \<open>AccountState.cpp\<close>, \<open>model/HeightGrouping.h\<close> and \<open>cache_core/AccountStateCacheDelta.cpp\<close>. Locales \<open>bounded_stack\<close> and
    \<open>account_store\<close>, the contract by which observers change accounts. \<open>References\<close> holds what observers need that keep references into a cache.
  \<^item> \<open>LockInfo\<close>, \<open>LockObservers\<close>: \<open>plugins/txes/lock_shared\<close>, \<open>lock_hash\<close>, \<open>lock_secret\<close>, with \<open>utils/IdentifierGroup.h\<close> and
    \<open>cache/IdentifierGroupCacheUtils.h\<close>. Locale \<open>lock_cache\<close> is the contract of the cache, \<open>lock_traits\<close> that of the two kinds of locks.
  \<^item> \<open>Statements\<close>: \<open>model/BlockStatement*.cpp\<close> and receipts; locale \<open>cut_log\<close>: what was recorded at a source can be forgotten.
  \<^item> \<open>Merkle\<close>: \<open>crypto/MerkleHashBuilder.cpp\<close> against a recursive definition of the tree.
  \<^item> \<open>TreePath\<close>, \<open>PatriciaTree\<close>, \<open>TreeStore\<close>, \<open>MerkleRoot\<close>: \<open>tree/TreeNodePath.cpp\<close>, \<open>TreeNode.cpp\<close>, \<open>PatriciaTree.h\<close>, the data sources
    and \<open>BasePatriciaTreeDelta.h\<close>, and \<open>cache/PatriciaTreeUtils.h\<close> with \<open>CacheMixins\<close>. Locales \<open>nibble_path\<close>, \<open>node_reader\<close>,
    \<open>data_source\<close>, \<open>state_tree\<close>. A tree refines a map, its root hash identifies its contents up to collisions of the digest, and
    the incremental update of the root gives the root of the whole state.
  \<^item> \<open>Processing\<close>: \<open>model/NotificationType.h\<close>, \<open>validators\<close>, \<open>observers\<close>, \<open>chain/ProcessingNotificationSubscriber.cpp\<close>,
    \<open>ProcessingUndoNotificationSubscriber.cpp\<close>, \<open>chain/BatchEntityProcessor.cpp\<close>, \<open>chain/BlockExecutor.cpp\<close>. Its locales
    \<open>reversible_observer\<close> and \<open>validated_observer\<close> state what plugins have to satisfy.
  \<^item> \<open>Transfers\<close>: the balance observers and validators of \<open>plugins/coresystem\<close>, which interpret these locales.
  \<^item> \<open>UtCache\<close>, \<open>Unconfirmed\<close>: \<open>cache_tx/MemoryUtCache.cpp\<close> and \<open>chain/UtUpdater.cpp\<close>; the locale \<open>viewed_observer\<close> extends \<open>validated_observer\<close>
    and is interpreted on the balance plugin.
  \<^item> \<open>Multisig\<close>, \<open>MultisigSound\<close>, \<open>Cosignatures\<close>: \<open>plugins/txes/multisig\<close>: entries, observers, validators, the modification transaction as a whole, and the
    approval of aggregates as an inductive relation that the recursive checks decide.
  \<^item> \<open>Inflation\<close>, \<open>Difficulty\<close>: \<open>model/InflationCalculator.cpp\<close>, \<open>chain/BlockDifficultyScorer.cpp\<close>, \<open>chain/ChainUtils.cpp\<close>, scores.
  \<^item> \<open>VotingSet\<close>, \<open>RoundContext\<close>, \<open>Finalization\<close>, \<open>FinalizationVoting\<close>: \<open>model/VotingSet.cpp\<close> and \<open>extensions/finalization/src\<close>: epochs and steps, the tally of a round
    (\<open>chain/RoundContext.cpp\<close>, \<open>chain/FinalizationHashTree.cpp\<close>), messages and proofs (\<open>model/FinalizationContext.cpp\<close>, \<open>model/FinalizationMessage.cpp\<close>,
    \<open>chain/RoundMessageAggregator.cpp\<close>, \<open>chain/FinalizationProofVerifier.cpp\<close>), and the voting node (\<open>chain/MultiRoundMessageAggregator.cpp\<close>,
    \<open>chain/FinalizationStageAdvancer.cpp\<close>, \<open>chain/FinalizationMessageFactory.cpp\<close>, \<open>chain/FinalizationOrchestrator.cpp\<close>). The locale
    \<open>weighted_voters\<close> holds the overlap of quorums.

  State is passed explicitly, a class or struct is a record with the fields of the source, an enumeration a datatype or its code. Names are those of
  the source; a prefix tells classes apart that share a name. Hash functions, serializers, resolvers and publishers are
  arguments. Hash maps whose order the code observes are association lists, others are sorted maps.

  \<^bold>\<open>What is shown.\<close> The properties are numbered; each stands after a text that names its number.
  \<^item> Data structures refine their abstract counterparts: delta sets, mosaic maps, balances, bounded stacks, tree paths, patricia trees and the
    pool refine maps, functions and lists, on every branch and with their exceptions.
  \<^item> What is done can be undone: rolling back a block restores all accounts, an undone transaction leaves no trace, locks, accounts, keys and
    receipts that are added and removed again leave the state as it was.
  \<^item> Values are conserved and limits kept: totals of mosaics, a hash lock is paid once, expired locks are repaid, the multisig graph stays without
    loops and within its limits, difficulties stay in range.
  \<^item> The state hash is canonical: equal states have equal roots, and equal roots mean equal states. An element whose activity depends on the height is
    written or dropped at the updates that follow a touch of it; equal states have equal roots when what expired was touched, which the lock
    caches do at every height.
  \<^item> Finalization is accountable: two verified proofs of a round agree or show the voters that signed twice, a completable round has settled what it can
    finalize, and a node that follows the code votes once per step.
  \<^item> Optimised code computes what a plain definition says: cumulative inflation, the sliding window of difficulties, merkle roots, cosignature checks.
  \<^item> Some theorems state where the code deviates from its documentation; they are listed as findings with the sources.

  \<^bold>\<open>Bounds and fuel.\<close> Loops over containers are structural recursions. The searches in the multisig graph take fuel, the maximal depth
  plus one; on a cache within the limits this is enough, and the properties state that a result is returned. Paths of the tree have at most 64
  nibbles, which bounds the recursion over stored nodes. Words keep their width; where a property speaks of
  numbers, its hypotheses say which sums fit.
  Ancestors in the hash tree of a finalization round are followed with the number of nodes as fuel; a parent is always older than its child, so that
  this is enough, which is shown for every sequence of votes.

  \<^bold>\<open>Not modelled.\<close> Namespaces, mosaic definitions, restrictions and metadata; the expansion of aggregates; importances and
  harvest fees; the hit and target of block generation. Their operations follow the patterns of the modelled plugins,
  but add no new interface. Files, databases, sockets, threads and locks, the disruptor and the extensions around them are input, output and concurrency; calls that
  hold a lock are atomic steps here. Cryptographic primitives are arguments of the definitions. Byte layouts of transactions
  and stored nodes are left out, except where a digest depends on them.
\<close>

section \<open>Expiring locks and the state hash\<close>

text \<open>
  A lock leaves the state hash when it expires only if its history is touched at that height. The histories of the lock
  caches, with their activity and their destructive deactivation.
\<close>

abbreviation lock_active :: "'a LockInfo_scheme LockInfoHistory \<Rightarrow> Height \<Rightarrow> bool" where
  "lock_active \<equiv> IsActive (Some (\<lambda>h height. lh_isActive height h)) True"

lemma lock_active_step:
  assumes "height \<noteq> 0" "EndHeight (lh_back h) \<noteq> height"
  shows "lock_active h (height - 1) = lock_active h height"
proof -
  have "height - 1 < e \<longleftrightarrow> height < e" if "e \<noteq> height" for e :: Height
  proof -
    have "unat (height - 1) = unat height - 1" using assms(1) by (rule unat_minus_one)
    moreover have "0 < unat height" using assms(1) by (simp add: unat_gt_0)
    moreover have "unat e \<noteq> unat height" using that word_unat_eq_iff by blast
    ultimately show ?thesis unfolding word_less_nat_alt by linarith
  qed
  with assms(2) show ?thesis by (auto simp: IsActive_def lh_isActive_def li_isActive_def)
qed

text \<open>
  Touching a height covers the locks that expire there. Take a lock cache in which every identifier is grouped at the end height of its current
  lock, and whose tree was right for the height before. Touching the height is a sequence of operations on the
  histories that changes none of them, and after it every history that became active or inactive has been touched, so that the next
  update of the merkle root is right. (A removal of a lock can break the first condition, which is a finding.)
\<close>

theorem lock_touch_covers_expirations:
  assumes "lic_inv gid c" "height \<noteq> 0"
    and "\<forall>k h. bsd_view (lic_pDelta c) k = Some h \<longrightarrow> k \<in> lic_members c (EndHeight (lh_back h))"
    and "tracked_view s = bsd_view (lic_pDelta c)"
    and "expirations_touched lock_active (height - 1) s"
  shows "\<exists>ops. snd (mixin_touch lh_isActive height (lic_pDelta c) (lic_pHeightGroupingDelta c)) = fold DeltaSet.run_op ops (lic_pDelta c)
    \<and> expirations_touched lock_active height (fold track_step (map Modify ops) s)"
proof (intro exI conjI)
  let ?st = "lic_pDelta c" and ?gs = "lic_pHeightGroupingDelta c"
  let ?ops = "touch_ops ?st ?gs height"
  note touch = mixin_touch_ops [OF lic_invD [OF assms(1)]]
  show "snd (mixin_touch lh_isActive height ?st ?gs) = fold DeltaSet.run_op ?ops ?st" by (rule touch(1))
  show "expirations_touched lock_active height (fold track_step (map Modify ?ops) s)"
    unfolding expirations_touched_def track_step_modifies assms(4) touch(2,3)
  proof (intro allI impI)
    fix k h
    assume h: "bsd_view ?st k = Some h"
    show "k \<in> pending s \<union> {k \<in> lic_members c height. bsd_view ?st k \<noteq> None} \<or> lock_active h (applied s k) = lock_active h height"
    proof (cases "EndHeight (lh_back h) = height")
      case True
      then show ?thesis using assms(3) h by auto
    next
      case False
      then show ?thesis using assms(4,5) h lock_active_step [OF assms(2) False] by (auto simp: expirations_touched_def)
    qed
  qed
qed

end
